(* ===== verification/Prelude.thy ===== *)
theory Prelude
  imports Main "HOL-Library.Word" "HOL-Library.Monad_Syntax"
begin

text \<open>
  Shared vocabulary of the development: the machine integers of the Rust code at their
  width, Rust's checked array accesses (an out-of-range index panics, which is the value
  \<open>None\<close>), little-endian byte conversions, and the interface of the byte-at-a-time state
  machines (the MIDI encoder, the cursor-report parser), whose runs over a whole byte
  stream are proved panic-free once, in the locale \<open>push_machine\<close>.
\<close>

unbundle bit_operations_syntax

type_synonym u8 = "8 word"
type_synonym u16 = "16 word"
type_synonym u32 = "32 word"
type_synonym u64 = "64 word"

named_theorems panic_simps \<open>unfolding rules of the operations that may panic\<close>

subsection \<open>Checked array access\<close>

text \<open>A Rust array or slice read, \<open>xs[i]\<close>, and write, \<open>xs[i] = v\<close>: \<open>None\<close> is the panic.\<close>

definition idx_get :: "'a list \<Rightarrow> nat \<Rightarrow> 'a option" where
  "idx_get xs i = (if i < length xs then Some (xs ! i) else None)"

definition idx_set :: "'a list \<Rightarrow> nat \<Rightarrow> 'a \<Rightarrow> 'a list option" where
  "idx_set xs i v = (if i < length xs then Some (xs[i := v]) else None)"

lemma idx_get_Some [simp]: "i < length xs \<Longrightarrow> idx_get xs i = Some (xs ! i)"
  by (simp add: idx_get_def)

lemma idx_set_Some [simp]: "i < length xs \<Longrightarrow> idx_set xs i v = Some (xs[i := v])"
  by (simp add: idx_set_def)

lemma idx_get_None [simp]: "length xs \<le> i \<Longrightarrow> idx_get xs i = None"
  by (simp add: idx_get_def)

lemma idx_set_None [simp]: "length xs \<le> i \<Longrightarrow> idx_set xs i v = None"
  by (simp add: idx_set_def)

subsection \<open>Words\<close>

lemma word8_bound [simp]: "unat (b :: u8) < 256"
  using unsigned_less [of b] by simp

lemma word32_bound [simp]: "unat (w :: u32) < 4294967296"
  using unsigned_less [of w] by simp

text \<open>Reading a wrapping 32-bit counter less than a full turn apart gives the true difference.\<close>

lemma elapsed32: "L \<le> t \<Longrightarrow> t - L < 2 ^ 32 \<Longrightarrow> unat (of_nat t - of_nat L :: u32) = t - L"
proof -
  assume h: "L \<le> t" "t - L < 2 ^ 32"
  then have "(of_nat t - of_nat L :: u32) = of_nat (t - L)" by simp
  then show ?thesis using h(2) by (simp add: unsigned_of_nat take_bit_eq_mod)
qed

lemma unat_plus1: "a < b \<Longrightarrow> unat (a + 1) = unat (a :: 'a::len word) + 1"
proof -
  assume "a < b"
  moreover have "unat b < 2 ^ LENGTH('a)" by (rule unsigned_less)
  ultimately have "unat a + 1 < 2 ^ LENGTH('a)"
    unfolding word_less_nat_alt by linarith
  then show ?thesis by (simp add: unat_word_ariths)
qed

lemma unat_minus1_less: "x \<noteq> 0 \<Longrightarrow> unat (x - 1) < unat (x :: 'a::len word)"
  by (rule measure_unat)

lemma and_FF [simp]: "(0xFF :: u8) AND b = b"
proof -
  have "(0xFF :: u8) = - 1" by simp
  then show ?thesis by (simp only: and.left_neutral)
qed

subsection \<open>Nibbles\<close>

lemma and_0F: "(b::u8) AND 0x0F = take_bit 4 b"
  by (simp add: take_bit_eq_mask mask_eq_exp_minus_1)

lemma unat_and_0F: "unat ((b::u8) AND 0x0F) = unat b mod 16"
  by (simp add: and_0F take_bit_eq_mod unat_mod_distrib)

lemma unat_drop4: "unat (drop_bit 4 (b::u8)) = unat b div 16"
  by (simp add: drop_bit_eq_div unat_div_distrib)

lemma nib_lo: "(push_bit 4 a OR (b AND 0x0F)) AND 0x0F = b AND (0x0F::u8)"
  unfolding and_0F by (rule bit_word_eqI) (auto simp: bit_simps)

lemma nib_hi: "drop_bit 4 (push_bit 4 a OR (b AND 0x0F)) = (a::u8) AND 0x0F"
  unfolding and_0F by (rule bit_word_eqI) (auto simp: bit_simps)

lemma nib_id: "(a::u8) < 16 \<Longrightarrow> a AND 0x0F = a"
  by (simp add: word_unat_eq_iff unat_and_0F word_less_nat_alt)

lemma nib_lt: "(a::u8) AND 0x0F < 16"
  by (simp add: word_less_nat_alt unat_and_0F)

lemma channel_nibble: "0x80 \<le> b \<Longrightarrow> b < 0xF0 \<Longrightarrow> 8 \<le> drop_bit 4 (b::u8) \<and> drop_bit 4 b < 0xF \<and> drop_bit 4 b AND 0xF = drop_bit 4 b"
proof -
  assume "0x80 \<le> b" "b < 0xF0"
  then have "8 \<le> drop_bit 4 (b::u8)" "drop_bit 4 b < 0xF"
    by (auto simp: word_le_nat_alt word_less_nat_alt unat_drop4)
  moreover have "drop_bit 4 b AND 0xF = drop_bit 4 b"
    by (rule nib_id) (use calculation in \<open>auto simp: word_less_nat_alt\<close>)
  ultimately show ?thesis by simp
qed

lemma word8_lt_2: "(c :: u8) < 2 \<Longrightarrow> c = 0 \<or> c = 1"
  by (auto simp: word_less_nat_alt word_unat_eq_iff)

lemma word8_lt_3: "(c :: u8) < 3 \<Longrightarrow> c = 0 \<or> c = 1 \<or> c = 2"
  by (auto simp: word_less_nat_alt word_unat_eq_iff)

text \<open>\<open>to_le_bytes\<close> and \<open>from_le_bytes\<close> of the integer types.\<close>

definition u16_le_bytes :: "u16 \<Rightarrow> u8 list" where
  "u16_le_bytes v = [ucast v, ucast (drop_bit 8 v)]"

definition u32_le_bytes :: "u32 \<Rightarrow> u8 list" where
  "u32_le_bytes v = [ucast v, ucast (drop_bit 8 v), ucast (drop_bit 16 v), ucast (drop_bit 24 v)]"

definition u16_from_le :: "u8 \<Rightarrow> u8 \<Rightarrow> u16" where
  "u16_from_le a b = ucast a OR push_bit 8 (ucast b)"

definition u32_from_le :: "u8 \<Rightarrow> u8 \<Rightarrow> u8 \<Rightarrow> u8 \<Rightarrow> u32" where
  "u32_from_le a b c d =
     ucast a OR push_bit 8 (ucast b) OR push_bit 16 (ucast c) OR push_bit 24 (ucast d)"

lemma u16_le_roundtrip: "u16_from_le (u16_le_bytes v ! 0) (u16_le_bytes v ! 1) = v"
  by (rule bit_word_eqI)
     (auto simp: u16_from_le_def u16_le_bytes_def bit_simps not_less)

lemma u32_le_roundtrip:
  "u32_from_le (u32_le_bytes v ! 0) (u32_le_bytes v ! 1) (u32_le_bytes v ! 2) (u32_le_bytes v ! 3) = v"
proof (rule bit_word_eqI)
  fix n assume "n < LENGTH(32)"
  then consider "n < 8" | "8 \<le> n" "n < 16" | "16 \<le> n" "n < 24" | "24 \<le> n" "n < 32"
    by fastforce
  then show "bit (u32_from_le (u32_le_bytes v ! 0) (u32_le_bytes v ! 1) (u32_le_bytes v ! 2)
      (u32_le_bytes v ! 3)) n \<longleftrightarrow> bit v n"
    by cases (auto simp add: u32_from_le_def u32_le_bytes_def bit_simps)
qed

lemma u32_le_bytes_from_le [simp]: "u32_le_bytes (u32_from_le a b c d) = [a, b, c, d]"
proof -
  have "ucast (u32_from_le a b c d) = a" "ucast (drop_bit 8 (u32_from_le a b c d)) = b"
    "ucast (drop_bit 16 (u32_from_le a b c d)) = c" "ucast (drop_bit 24 (u32_from_le a b c d)) = d"
    by (rule bit_word_eqI; auto simp add: u32_from_le_def bit_simps dest: bit_imp_le_length)+
  then show ?thesis by (simp add: u32_le_bytes_def)
qed

lemma length_u16_le_bytes [simp]: "length (u16_le_bytes v) = 2"
  by (simp add: u16_le_bytes_def)

lemma length_u32_le_bytes [simp]: "length (u32_le_bytes v) = 4"
  by (simp add: u32_le_bytes_def)

text \<open>Rust's saturating arithmetic on unsigned words.\<close>

definition sat_add :: "'a::len word \<Rightarrow> 'a word \<Rightarrow> 'a word" where
  "sat_add a b = (if unat a + unat b < 2 ^ LENGTH('a) then a + b else - 1)"

definition sat_mul :: "'a::len word \<Rightarrow> 'a word \<Rightarrow> 'a word" where
  "sat_mul a b = (if unat a * unat b < 2 ^ LENGTH('a) then a * b else - 1)"

lemma unat_sat_add: "unat (sat_add a (b :: 'a::len word)) = min (unat a + unat b) (2 ^ LENGTH('a) - 1)"
proof (cases "unat a + unat b < 2 ^ LENGTH('a)")
  case True
  then show ?thesis by (simp add: sat_add_def unat_word_ariths)
next
  case False
  then show ?thesis by (simp add: sat_add_def unsigned_minus_1_eq_mask mask_eq_exp_minus_1)
qed

lemma unat_sat_mul: "unat (sat_mul a (b :: 'a::len word)) = min (unat a * unat b) (2 ^ LENGTH('a) - 1)"
proof (cases "unat a * unat b < 2 ^ LENGTH('a)")
  case True
  then show ?thesis by (simp add: sat_mul_def unat_word_ariths)
next
  case False
  then show ?thesis by (simp add: sat_mul_def unsigned_minus_1_eq_mask mask_eq_exp_minus_1)
qed

subsection \<open>Streams in blocks\<close>

lemma concat_nth_block:
  "\<forall>blk\<in>set bs. length blk = b \<Longrightarrow> t < length bs \<Longrightarrow> r < b \<Longrightarrow> concat bs ! (t * b + r) = bs ! t ! r"
proof (induction bs arbitrary: t)
  case (Cons x bs)
  then show ?case by (cases t) (simp_all add: nth_append add.assoc)
qed simp

lemma length_concat_blocks: "\<forall>blk\<in>set bs. length blk = b \<Longrightarrow> length (concat bs) = length bs * b"
  by (induction bs) simp_all

lemma concat_map_upt:
  "concat (map (\<lambda>j. map (\<lambda>r. f (j * b + r)) [0..<b]) [0..<n]) = map f [0..<n * b]"
proof (induction n)
  case (Suc n)
  have "map (\<lambda>r. f (n * b + r)) [0..<b] = map f [n * b..<n * b + b]"
    by (rule nth_equalityI) simp_all
  then have "concat (map (\<lambda>j. map (\<lambda>r. f (j * b + r)) [0..<b]) [0..<Suc n]) = map f ([0..<n * b] @ [n * b..<n * b + b])"
    using Suc.IH by simp
  also have "[0..<n * b] @ [n * b..<n * b + b] = [0..<Suc n * b]"
    using upt_add_eq_append [of 0 "n * b" b] by (simp add: add.commute)
  finally show ?case .
qed simp

subsection \<open>Counted loops\<close>

text \<open>
  \<open>for x in xs\<close> over a state, and \<open>while base < l { ...; base += d }\<close>; a body returns \<open>None\<close> when
  it panics. The loop rules carry an invariant from the first index to the last.
\<close>

fun for_in :: "('x \<Rightarrow> 's \<Rightarrow> 's option) \<Rightarrow> 'x list \<Rightarrow> 's \<Rightarrow> 's option" where
  "for_in f [] s = Some s"
| "for_in f (x # xs) s = (case f x s of None \<Rightarrow> None | Some s' \<Rightarrow> for_in f xs s')"

function step_loop :: "(nat \<Rightarrow> 's \<Rightarrow> 's option) \<Rightarrow> nat \<Rightarrow> nat \<Rightarrow> nat \<Rightarrow> 's \<Rightarrow> 's option" where
  "step_loop f l d base s =
     (if base < l \<and> 0 < d then
        case f base s of None \<Rightarrow> None | Some s' \<Rightarrow> step_loop f l d (base + d) s'
      else Some s)"
  by pat_completeness auto
termination by (relation "measure (\<lambda>(_, l, _, base, _). l - base)") auto

declare step_loop.simps [simp del]

lemma for_in_append: "for_in f (xs @ ys) s = (case for_in f xs s of None \<Rightarrow> None | Some s' \<Rightarrow> for_in f ys s')"
  by (induction xs arbitrary: s) (auto split: option.splits)

lemma for_in_map:
  assumes "\<And>x s. f x (h s) = map_option h (g x s)"
  shows "for_in f xs (h s) = map_option h (for_in g xs s)"
proof (induction xs arbitrary: s)
  case (Cons x xs)
  then show ?case using assms [of x s] by (cases "g x s") simp_all
qed simp

lemma for_in_upt:
  assumes "I a s" "a \<le> b"
    and "\<And>i s. a \<le> i \<Longrightarrow> i < b \<Longrightarrow> I i s \<Longrightarrow> \<exists>s'. f i s = Some s' \<and> I (Suc i) s'"
  shows "\<exists>s'. for_in f [a..<b] s = Some s' \<and> I b s'"
  using assms(2,3)
proof (induction b)
  case 0
  then show ?case using assms(1) by simp
next
  case (Suc b)
  show ?case
  proof (cases "a \<le> b")
    case True
    then obtain s1 where "for_in f [a..<b] s = Some s1" "I b s1" using Suc by (metis less_Suc_eq)
    moreover obtain s2 where "f b s1 = Some s2" "I (Suc b) s2"
      using Suc.prems(2) [of b s1] True calculation(2) by auto
    ultimately show ?thesis using True by (simp add: for_in_append)
  next
    case False
    then have "a = Suc b" using Suc.prems(1) by simp
    then show ?thesis using assms(1) by simp
  qed
qed

lemma step_loop_inv:
  assumes "I 0 s" "d dvd l" "0 < d"
    and "\<And>b s. d dvd b \<Longrightarrow> b + d \<le> l \<Longrightarrow> I b s \<Longrightarrow> \<exists>s'. f b s = Some s' \<and> I (b + d) s'"
  shows "\<exists>s'. step_loop f l d 0 s = Some s' \<and> I l s'"
proof -
  have "d dvd b \<Longrightarrow> b \<le> l \<Longrightarrow> I b s \<Longrightarrow> \<exists>s'. step_loop f l d b s = Some s' \<and> I l s'" for b s
  proof (induction "l - b" arbitrary: b s rule: less_induct)
    case less
    show ?case
    proof (cases "b < l")
      case True
      have "d dvd l - b" using less.prems(1) assms(2) by (rule dvd_diff_nat [rotated])
      then have "d \<le> l - b" using True by (simp add: dvd_imp_le)
      then have le: "b + d \<le> l" using True by simp
      then obtain s1 where s1: "f b s = Some s1" "I (b + d) s1"
        using assms(4) less.prems by blast
      have "\<exists>s'. step_loop f l d (b + d) s1 = Some s' \<and> I l s'"
        by (rule less.hyps) (use True le less.prems(1) s1(2) assms(3) in auto)
      then show ?thesis using True s1(1) assms(3) by (subst step_loop.simps) simp
    next
      case False
      then show ?thesis using less.prems by (subst step_loop.simps) simp
    qed
  qed
  from this [of 0 s] show ?thesis using assms(1) by simp
qed

subsection \<open>Byte-at-a-time machines\<close>

text \<open>
  A machine that is fed one input at a time and may emit an output. A step returns
  \<open>None\<close> when the code panics. \<open>push_run\<close> feeds a whole list and collects the outputs.
\<close>

type_synonym ('s, 'i, 'o) push_step = "'s \<Rightarrow> 'i \<Rightarrow> ('o option \<times> 's) option"

fun push_run :: "('s, 'i, 'o) push_step \<Rightarrow> 's \<Rightarrow> 'i list \<Rightarrow> ('o list \<times> 's) option" where
  "push_run f s [] = Some ([], s)"
| "push_run f s (x # xs) =
     (case f s x of
        None \<Rightarrow> None
      | Some (r, s') \<Rightarrow>
          (case push_run f s' xs of
             None \<Rightarrow> None
           | Some (rs, s'') \<Rightarrow> Some ((case r of None \<Rightarrow> rs | Some y \<Rightarrow> y # rs), s'')))"

lemma push_run_append:
  "push_run f s (xs @ ys) =
     (case push_run f s xs of
        None \<Rightarrow> None
      | Some (rs, s') \<Rightarrow>
          (case push_run f s' ys of
             None \<Rightarrow> None
           | Some (rs', s'') \<Rightarrow> Some (rs @ rs', s'')))"
  by (induction xs arbitrary: s) (auto split: option.splits)

lemma push_run_ConsI:
  "f s x = Some (None, s') \<Longrightarrow> push_run f s' xs = Some r \<Longrightarrow> push_run f s (x # xs) = Some r"
  "f s x = Some (Some y, s') \<Longrightarrow> push_run f s' xs = Some (ys, s'') \<Longrightarrow>
     push_run f s (x # xs) = Some (y # ys, s'')"
  by (cases r) auto

text \<open>
  The contract a provider promises: an invariant, the panic-freedom of a step under it, its
  preservation, and a guarantee on each output. A client gets all three for whole streams.
\<close>

locale push_machine =
  fixes step :: "('s, 'i, 'o) push_step"
    and inv :: "'s \<Rightarrow> bool"
    and good :: "'o \<Rightarrow> bool"
  assumes step_total: "inv s \<Longrightarrow> step s x \<noteq> None"
    and step_inv: "inv s \<Longrightarrow> step s x = Some (r, s') \<Longrightarrow> inv s'"
    and step_good: "inv s \<Longrightarrow> step s x = Some (Some y, s') \<Longrightarrow> good y"
begin

lemma run_total: "inv s \<Longrightarrow> \<exists>ys s'. push_run step s xs = Some (ys, s') \<and> inv s' \<and> list_all good ys"
proof (induction xs arbitrary: s)
  case Nil
  then show ?case by simp
next
  case (Cons x xs)
  obtain r s1 where st: "step s x = Some (r, s1)"
    using step_total [OF Cons.prems] by fastforce
  have "inv s1" by (rule step_inv [OF Cons.prems st])
  from Cons.IH [OF this] obtain ys s2
    where run: "push_run step s1 xs = Some (ys, s2)" "inv s2" "list_all good ys" by blast
  moreover have "\<And>y. r = Some y \<Longrightarrow> good y"
    using step_good [OF Cons.prems] st by blast
  ultimately show ?case using st by (cases r) auto
qed

lemma run_inv: "inv s \<Longrightarrow> push_run step s xs = Some (ys, s') \<Longrightarrow> inv s'"
  using run_total [of s xs] by auto

lemma run_good: "inv s \<Longrightarrow> push_run step s xs = Some (ys, s') \<Longrightarrow> list_all good ys"
  using run_total [of s xs] by auto

end

subsection \<open>Streams through a component\<close>

text \<open>A caller that hands a component one input after another.\<close>

fun run_steps :: "('s \<Rightarrow> 'a \<Rightarrow> ('b \<times> 's) option) \<Rightarrow> 's \<Rightarrow> 'a list \<Rightarrow> ('b list \<times> 's) option" where
  "run_steps f s [] = Some ([], s)"
| "run_steps f s (x # xs) = do { (y, s) \<leftarrow> f s x; (ys, s) \<leftarrow> run_steps f s xs; Some (y # ys, s) }"

lemma run_steps_append:
  "run_steps f s (xs @ zs) = do { (ys, s) \<leftarrow> run_steps f s xs; (ws, s) \<leftarrow> run_steps f s zs; Some (ys @ ws, s) }"
  by (induction xs arbitrary: s) (auto split: option.splits prod.splits bind_splits)

lemma length_run_steps: "run_steps f s xs = Some (ys, s') \<Longrightarrow> length ys = length xs"
  by (induction xs arbitrary: s ys) (auto split: option.splits prod.splits bind_splits)

lemma run_steps_total: "\<exists>ys s'. run_steps (\<lambda>s x. Some (f s x)) s xs = Some (ys, s')"
proof (induction xs arbitrary: s)
  case (Cons x xs)
  obtain y s1 where "f s x = (y, s1)" by (cases "f s x")
  moreover obtain ys s' where "run_steps (\<lambda>s x. Some (f s x)) s1 xs = Some (ys, s')" using Cons.IH by blast
  ultimately show ?case by simp
qed simp

text \<open>A ring of a fixed length, written at a position that wraps: read from there it is the history, oldest first.\<close>

lemma ring_oldest: "p < length r \<Longrightarrow> hd (drop p r @ take p r) = r ! p"
  by (simp add: hd_drop_conv_nth)

lemma ring_push:
  assumes "p < length r"
  shows "(let q = if p + 1 = length r then 0 else p + 1 in drop q (r[p := x]) @ take q (r[p := x])) = tl (drop p r @ take p r) @ [x]"
proof -
  have "r[p := x] = take p r @ x # drop (Suc p) r" using assms by (simp add: upd_conv_take_nth_drop)
  moreover have "tl (drop p r @ take p r) = drop (Suc p) r @ take p r"
    using assms by (simp add: tl_append2 drop_Suc tl_drop)
  ultimately show ?thesis using assms by (auto simp: Let_def)
qed

lemma set_ring: "set (drop q r @ take q r) = set r"
proof -
  have "set r = set (take q r @ drop q r)" by simp
  then show ?thesis unfolding set_append by (simp add: Un_commute)
qed

end
