(* ===== verification/Midi.thy ===== *)
theory Midi
  imports Prelude
begin

text \<open>
  The serial-MIDI to USB-MIDI packetizer, \<open>crates/daisy-midi/src/lib.rs\<close>: the encoder state
  \<open>UsbMidiEncoder\<close> as the record \<open>midi_enc\<close>, its methods one definition each. An array index
  out of range is a panic (\<open>None\<close>); the byte counters wrap at 8 bits as in a release build.
  The specification side describes MIDI messages, their serial wire form (with optional
  running status) and their USB-MIDI event packets; the theorems relate the two.
\<close>

type_synonym packet = "u8 list"

record midi_enc =
  me_cable :: u8
  me_status :: u8
  me_data :: "u8 list"
  me_count :: u8
  me_expected :: u8
  me_sysex :: bool
  me_sx :: "u8 list"
  me_sxn :: u8

definition channel_data_len :: "u8 \<Rightarrow> u8" where
  "channel_data_len status =
     (let n = drop_bit 4 status in if n = 0xC \<or> n = 0xD then 1 else 2)"

definition midi_new :: "u8 \<Rightarrow> midi_enc" where
  "midi_new cable = \<lparr>me_cable = cable AND 0x0F, me_status = 0, me_data = [0, 0], me_count = 0,
     me_expected = 0, me_sysex = False, me_sx = [0, 0, 0], me_sxn = 0\<rparr>"

definition hdr :: "midi_enc \<Rightarrow> u8 \<Rightarrow> u8" where
  "hdr e cin = push_bit 4 (me_cable e) OR (cin AND 0x0F)"

definition reset_sysex :: "midi_enc \<Rightarrow> midi_enc" where
  "reset_sysex e = e\<lparr>me_sysex := False, me_sx := [0, 0, 0], me_sxn := 0\<rparr>"

definition push_status :: "midi_enc \<Rightarrow> u8 \<Rightarrow> (packet option \<times> midi_enc) option" where
  "push_status e b =
     (if b = 0xF0 then
        Some (None, e\<lparr>me_status := 0, me_sysex := True, me_sx := [0xF0, 0, 0], me_sxn := 1\<rparr>)
      else if b = 0xF7 then Some (None, e)
      else if b = 0xF1 \<or> b = 0xF3 then
        Some (None, e\<lparr>me_status := b, me_expected := 1, me_count := 0\<rparr>)
      else if b = 0xF2 then
        Some (None, e\<lparr>me_status := b, me_expected := 2, me_count := 0\<rparr>)
      else if b = 0xF6 then
        Some (Some [hdr e 0x05, 0xF6, 0, 0], e\<lparr>me_status := 0\<rparr>)
      else if b = 0xF4 \<or> b = 0xF5 then Some (None, e\<lparr>me_status := 0\<rparr>)
      else Some (None, e\<lparr>me_status := b, me_expected := channel_data_len b, me_count := 0\<rparr>))"

definition push_data :: "midi_enc \<Rightarrow> u8 \<Rightarrow> (packet option \<times> midi_enc) option" where
  "push_data e b =
     (if me_status e = 0 then Some (None, e)
      else do {
        d \<leftarrow> idx_set (me_data e) (unat (me_count e)) b;
        let e = e\<lparr>me_data := d, me_count := me_count e + 1\<rparr>;
        if me_count e < me_expected e then Some (None, e)
        else do {
          let e = e\<lparr>me_count := 0\<rparr>;
          let status = me_status e;
          d1 \<leftarrow> idx_get (me_data e) 0;
          d2 \<leftarrow> (if me_expected e = 2 then idx_get (me_data e) 1 else Some 0);
          let e' = (if 0xF0 \<le> status then e\<lparr>me_status := 0\<rparr> else e);
          let cin = (if 0xF0 \<le> status then (if status = 0xF2 then 0x03 else 0x02)
                     else drop_bit 4 status);
          Some (Some [hdr e' cin, status, d1, d2], e')
        }
      })"

text \<open>
  \<open>push\<close> and \<open>push_sysex\<close> call each other: a status byte inside SysEx clears the SysEx flag
  and is reprocessed by \<open>push\<close>. The flag is the termination measure.
\<close>

function midi_push :: "midi_enc \<Rightarrow> u8 \<Rightarrow> (packet option \<times> midi_enc) option"
  and push_sysex :: "midi_enc \<Rightarrow> u8 \<Rightarrow> (packet option \<times> midi_enc) option" where
  "midi_push e b =
     (if 0xF8 \<le> b then Some (Some [hdr e 0x0F, b, 0, 0], e)
      else if me_sysex e then push_sysex e b
      else if 0x80 \<le> b then push_status e b
      else push_data e b)"
| "push_sysex e b =
     (if 0x80 \<le> b \<and> b \<noteq> 0xF7 then midi_push (e\<lparr>me_sysex := False, me_sxn := 0\<rparr>) b
      else do {
        sx \<leftarrow> idx_set (me_sx e) (unat (me_sxn e)) b;
        let e = e\<lparr>me_sx := sx, me_sxn := me_sxn e + 1\<rparr>;
        if b = 0xF7 then do {
          let cin = (if me_sxn e = 1 then 0x05 else if me_sxn e = 2 then 0x06 else 0x07);
          s0 \<leftarrow> idx_get (me_sx e) 0;
          s1 \<leftarrow> idx_get (me_sx e) 1;
          s2 \<leftarrow> idx_get (me_sx e) 2;
          Some (Some [hdr e cin, s0, s1, s2], reset_sysex e)
        }
        else if me_sxn e = 3 then do {
          s0 \<leftarrow> idx_get (me_sx e) 0;
          s1 \<leftarrow> idx_get (me_sx e) 1;
          s2 \<leftarrow> idx_get (me_sx e) 2;
          Some (Some [hdr e 0x04, s0, s1, s2], e\<lparr>me_sx := [0, 0, 0], me_sxn := 0\<rparr>)
        }
        else Some (None, e)
      })"
  by pat_completeness auto
termination
  by (relation "measure (\<lambda>c. case c of Inl (e, b) \<Rightarrow> (if me_sysex e then 2 else 0) | Inr (e, b) \<Rightarrow> 1)")
     auto

declare midi_push.simps [simp del] push_sysex.simps [simp del]

abbreviation midi_run :: "midi_enc \<Rightarrow> u8 list \<Rightarrow> (packet list \<times> midi_enc) option" where
  "midi_run \<equiv> push_run midi_push"

subsection \<open>The invariant, and freedom from panics\<close>

definition status_len :: "u8 \<Rightarrow> u8" where
  "status_len s = (if s = 0xF2 then 2 else if s = 0xF1 \<or> s = 0xF3 then 1 else channel_data_len s)"

definition status_ok :: "u8 \<Rightarrow> bool" where
  "status_ok s \<longleftrightarrow> s = 0 \<or> (0x80 \<le> s \<and> s < 0xF0) \<or> s = 0xF1 \<or> s = 0xF2 \<or> s = 0xF3"

definition midi_inv :: "midi_enc \<Rightarrow> bool" where
  "midi_inv e \<longleftrightarrow>
     me_cable e < 16 \<and> length (me_data e) = 2 \<and> length (me_sx e) = 3 \<and> me_sxn e < 3 \<and>
     status_ok (me_status e) \<and>
     (me_status e \<noteq> 0 \<longrightarrow> me_expected e = status_len (me_status e) \<and> me_count e < me_expected e) \<and>
     (me_sysex e \<longrightarrow> me_status e = 0 \<and> list_all (\<lambda>b. b = 0) (drop (unat (me_sxn e)) (me_sx e)))"

text \<open>What every emitted packet looks like: the cable nibble, and a code index number (CIN)
  that says how many of the three bytes count; the unused ones are zero.\<close>

definition cin_of :: "packet \<Rightarrow> u8" where
  "cin_of p = p ! 0 AND 0x0F"

definition cable_of :: "packet \<Rightarrow> u8" where
  "cable_of p = drop_bit 4 (p ! 0)"

text \<open>Bytes carried per code index number (USB-MIDI 1.0, table 4-1).\<close>

definition cin_len :: "u8 \<Rightarrow> nat" where
  "cin_len cin =
     (if cin = 0x5 \<or> cin = 0xF then 1
      else if cin = 0x2 \<or> cin = 0x6 \<or> cin = 0xC \<or> cin = 0xD then 2
      else 3)"

definition packet_payload :: "packet \<Rightarrow> u8 list" where
  "packet_payload p = take (cin_len (cin_of p)) (tl p)"

definition packet_ok :: "packet \<Rightarrow> bool" where
  "packet_ok p \<longleftrightarrow>
     length p = 4 \<and> 2 \<le> cin_of p \<and>
     (8 \<le> cin_of p \<and> cin_of p < 0xF \<longrightarrow> drop_bit 4 (p ! 1) = cin_of p) \<and>
     list_all (\<lambda>b. b = 0) (drop (Suc (cin_len (cin_of p))) p)"

definition midi_step_ok :: "midi_enc \<Rightarrow> (packet option \<times> midi_enc) option \<Rightarrow> bool" where
  "midi_step_ok e z \<longleftrightarrow>
     (\<exists>r e'. z = Some (r, e') \<and> midi_inv e' \<and> me_cable e' = me_cable e \<and>
        (\<forall>p. r = Some p \<longrightarrow> packet_ok p \<and> cable_of p = me_cable e))"

lemma cin_of_hdr [simp]: "cin_of (hdr e c # xs) = c AND 0x0F"
  by (simp add: cin_of_def hdr_def nib_lo)

lemma cable_of_hdr: "me_cable e < 16 \<Longrightarrow> cable_of (hdr e c # xs) = me_cable e"
  unfolding cable_of_def hdr_def by (simp only: nth_Cons_0 nib_hi nib_id)

lemma channel_data_len_12: "channel_data_len b = 1 \<or> channel_data_len b = 2"
  by (simp add: channel_data_len_def Let_def)

lemma status_len_12: "status_len b = 1 \<or> status_len b = 2"
  using channel_data_len_12 by (simp add: status_len_def)

lemma status_len_pos: "0 < status_len b"
  using status_len_12 [of b] by auto

lemma push_status_ok:
  assumes "midi_inv e" "\<not> me_sysex e" "0x80 \<le> b" "b < 0xF8"
  shows "midi_step_ok e (push_status e b)"
proof -
  have "b = 0xF0 \<or> b = 0xF1 \<or> b = 0xF2 \<or> b = 0xF3 \<or> b = 0xF4 \<or> b = 0xF5 \<or> b = 0xF6 \<or> b = 0xF7
      \<or> b < 0xF0"
    using assms(3,4) by (auto simp: word_less_nat_alt word_le_nat_alt word_unat_eq_iff)
  then show ?thesis
    using assms status_len_pos [of b]
    by (auto simp: midi_step_ok_def push_status_def midi_inv_def status_ok_def status_len_def
        packet_ok_def cin_len_def cable_of_hdr)
qed

text \<open>The three ways a data byte can be taken, in closed form.\<close>

definition cin_for :: "u8 \<Rightarrow> u8" where
  "cin_for s = (if 0xF0 \<le> s then (if s = 0xF2 then 0x03 else 0x02) else drop_bit 4 s)"

definition after_message :: "midi_enc \<Rightarrow> midi_enc" where
  "after_message e = (if 0xF0 \<le> me_status e then e\<lparr>me_status := 0\<rparr> else e)"

lemma hdr_after_message [simp]: "hdr (after_message e) c = hdr e c"
  by (simp add: hdr_def after_message_def)

lemma push_data_orphan: "me_status e = 0 \<Longrightarrow> push_data e b = Some (None, e)"
  by (simp add: push_data_def)

lemma push_data_first:
  "me_status e \<noteq> 0 \<Longrightarrow> me_data e = [d0, d1] \<Longrightarrow> me_count e = 0 \<Longrightarrow> me_expected e = 2 \<Longrightarrow>
   push_data e b = Some (None, e\<lparr>me_data := [b, d1], me_count := 1\<rparr>)"
  by (simp add: push_data_def)

lemma push_data_only:
  "me_status e \<noteq> 0 \<Longrightarrow> me_data e = [d0, d1] \<Longrightarrow> me_count e = 0 \<Longrightarrow> me_expected e = 1 \<Longrightarrow>
   push_data e b =
     Some (Some [hdr e (cin_for (me_status e)), me_status e, b, 0],
       after_message (e\<lparr>me_data := [b, d1], me_count := 0\<rparr>))"
  by (simp add: push_data_def cin_for_def after_message_def hdr_def Let_def)

lemma push_data_second:
  "me_status e \<noteq> 0 \<Longrightarrow> me_data e = [d0, d1] \<Longrightarrow> me_count e = 1 \<Longrightarrow> me_expected e = 2 \<Longrightarrow>
   push_data e b =
     Some (Some [hdr e (cin_for (me_status e)), me_status e, d0, b],
       after_message (e\<lparr>me_data := [d0, b], me_count := 0\<rparr>))"
  by (simp add: push_data_def cin_for_def after_message_def hdr_def Let_def)

lemma status_cases:
  assumes "status_ok s" "s \<noteq> 0"
  obtains "s = 0xF1" | "s = 0xF2" | "s = 0xF3" | "0x80 \<le> s" "s < 0xF0"
  using assms by (auto simp: status_ok_def)

lemma cin_for_facts:
  assumes "status_ok s" "s \<noteq> 0"
  shows "cin_for s AND 0x0F = cin_for s" "2 \<le> cin_for s"
    "8 \<le> cin_for s \<Longrightarrow> drop_bit 4 s = cin_for s"
    "cin_len (cin_for s) = Suc (unat (status_len s))"
proof -
  have "cin_for s AND 0x0F = cin_for s \<and> 2 \<le> cin_for s \<and>
      (8 \<le> cin_for s \<longrightarrow> drop_bit 4 s = cin_for s) \<and>
      cin_len (cin_for s) = Suc (unat (status_len s))"
    using assms
  proof (cases rule: status_cases)
    case 4
    note n = channel_nibble [OF 4]
    have "2 \<le> drop_bit 4 s" using n by (auto simp: word_le_nat_alt)
    moreover have "drop_bit 4 s \<notin> {0x2, 0x5, 0x6, 0xF}"
      using n by (auto simp: word_le_nat_alt word_less_nat_alt)
    ultimately show ?thesis
      using n 4 by (auto simp: cin_for_def cin_len_def status_len_def channel_data_len_def Let_def)
  qed (simp_all add: cin_for_def cin_len_def status_len_def)
  then show "cin_for s AND 0x0F = cin_for s" "2 \<le> cin_for s"
    "8 \<le> cin_for s \<Longrightarrow> drop_bit 4 s = cin_for s"
    "cin_len (cin_for s) = Suc (unat (status_len s))" by auto
qed

lemma after_message_inv:
  "midi_inv e \<Longrightarrow> midi_inv (after_message e)" "me_cable (after_message e) = me_cable e"
  by (auto simp: midi_inv_def after_message_def status_ok_def)

lemma push_data_ok:
  assumes inv: "midi_inv e" and ns: "\<not> me_sysex e"
  shows "midi_step_ok e (push_data e b)"
proof (cases "me_status e = 0")
  case True
  then show ?thesis using inv by (simp add: midi_step_ok_def push_data_orphan)
next
  case False
  obtain d0 d1 where d: "me_data e = [d0, d1]"
    using inv by (auto simp: midi_inv_def length_Suc_conv numeral_2_eq_2)
  have so: "status_ok (me_status e)" and ex: "me_expected e = status_len (me_status e)"
    and lt: "me_count e < me_expected e" and cab: "me_cable e < 16"
    using inv False by (auto simp: midi_inv_def)
  note cf = cin_for_facts [OF so False] and am = after_message_inv
  consider "me_count e = 0" "me_expected e = 2" | "me_count e = 0" "me_expected e = 1"
    | "me_count e = 1" "me_expected e = 2"
    using lt ex status_len_12 [of "me_status e"] word8_lt_2 [of "me_count e"] by auto
  then show ?thesis
  proof cases
    case 1
    then show ?thesis
      using inv False push_data_first [OF False d 1] by (auto simp: midi_step_ok_def midi_inv_def)
  next
    case 2
    have "midi_inv (e\<lparr>me_data := [b, d1], me_count := 0\<rparr>)"
      using inv 2 by (auto simp: midi_inv_def)
    then show ?thesis
      using push_data_only [OF False d 2] cf 2 ex cab
      by (auto simp: midi_step_ok_def am packet_ok_def cable_of_hdr)
  next
    case 3
    have "midi_inv (e\<lparr>me_data := [d0, b], me_count := 0\<rparr>)"
      using inv 3 by (auto simp: midi_inv_def)
    then show ?thesis
      using push_data_second [OF False d 3] cf 3 ex cab
      by (auto simp: midi_step_ok_def am packet_ok_def cable_of_hdr)
  qed
qed

lemma push_sysex_data:
  assumes "length (me_sx e) = 3" "me_sxn e < 3" "b < 0x80"
  shows "push_sysex e b =
    (if me_sxn e = 2
     then Some (Some (hdr e 0x04 # (me_sx e)[2 := b]), e\<lparr>me_sx := [0, 0, 0], me_sxn := 0\<rparr>)
     else Some (None, e\<lparr>me_sx := (me_sx e)[unat (me_sxn e) := b], me_sxn := me_sxn e + 1\<rparr>))"
proof -
  have nb: "\<not> (0x80 \<le> b)" "b \<noteq> 0xF7" using assms(3) by (auto simp: word_less_nat_alt word_le_nat_alt)
  obtain s0 s1 s2 where sx: "me_sx e = [s0, s1, s2]"
    using assms(1) by (auto simp: length_Suc_conv numeral_3_eq_3)
  show ?thesis
    using word8_lt_3 [OF assms(2)] nb sx
    by (elim disjE) (simp_all add: push_sysex.simps Let_def hdr_def)
qed

lemma push_sysex_end:
  assumes "length (me_sx e) = 3" "me_sxn e < 3"
  shows "push_sysex e 0xF7 =
    Some (Some (hdr e (if me_sxn e = 0 then 0x05 else if me_sxn e = 1 then 0x06 else 0x07)
                # (me_sx e)[unat (me_sxn e) := 0xF7]), reset_sysex e)"
proof -
  obtain s0 s1 s2 where sx: "me_sx e = [s0, s1, s2]"
    using assms(1) by (auto simp: length_Suc_conv numeral_3_eq_3)
  show ?thesis
    using word8_lt_3 [OF assms(2)] sx
    by (elim disjE) (simp_all add: push_sysex.simps Let_def hdr_def reset_sysex_def)
qed

lemma push_sysex_abort:
  "0x80 \<le> b \<Longrightarrow> b \<noteq> 0xF7 \<Longrightarrow> b < 0xF8 \<Longrightarrow>
   push_sysex e b = push_status (e\<lparr>me_sysex := False, me_sxn := 0\<rparr>) b"
  by (subst push_sysex.simps, subst midi_push.simps) (auto simp: not_le [symmetric])

lemma midi_push_realtime: "0xF8 \<le> b \<Longrightarrow> midi_push e b = Some (Some [hdr e 0x0F, b, 0, 0], e)"
  by (simp add: midi_push.simps)

lemma midi_push_status: "\<not> me_sysex e \<Longrightarrow> 0x80 \<le> b \<Longrightarrow> b < 0xF8 \<Longrightarrow> midi_push e b = push_status e b"
  by (auto simp: midi_push.simps not_le [symmetric])

lemma midi_push_data: "\<not> me_sysex e \<Longrightarrow> b < 0x80 \<Longrightarrow> midi_push e b = push_data e b"
  by (auto simp: midi_push.simps word_le_nat_alt word_less_nat_alt)

lemma midi_push_sysex: "me_sysex e \<Longrightarrow> b < 0xF8 \<Longrightarrow> midi_push e b = push_sysex e b"
  by (auto simp: midi_push.simps not_le [symmetric])

lemma push_sysex_ok:
  assumes inv: "midi_inv e" and sy: "me_sysex e" and b: "b < 0xF8"
  shows "midi_step_ok e (push_sysex e b)"
proof -
  have l: "length (me_sx e) = 3" and n: "me_sxn e < 3" and cab: "me_cable e < 16"
    and st: "me_status e = 0" and z: "list_all (\<lambda>b. b = 0) (drop (unat (me_sxn e)) (me_sx e))"
    using inv sy by (auto simp: midi_inv_def)
  obtain s0 s1 s2 where sx: "me_sx e = [s0, s1, s2]"
    using l by (auto simp: length_Suc_conv numeral_3_eq_3)
  consider "b < 0x80" | "b = 0xF7" | "0x80 \<le> b" "b \<noteq> 0xF7" by fastforce
  then show ?thesis
  proof cases
    case 1
    show ?thesis
      unfolding push_sysex_data [OF l n 1] using word8_lt_3 [OF n] inv sx z
      by (elim disjE)
         (auto simp: midi_step_ok_def midi_inv_def packet_ok_def cin_len_def cable_of_hdr)
  next
    case 2
    show ?thesis
      unfolding 2 push_sysex_end [OF l n] using word8_lt_3 [OF n] inv sx z
      by (elim disjE)
         (auto simp: midi_step_ok_def midi_inv_def packet_ok_def cin_len_def cable_of_hdr
           reset_sysex_def)
  next
    case 3
    let ?e = "e\<lparr>me_sysex := False, me_sxn := 0\<rparr>"
    have "midi_inv ?e" using inv by (auto simp: midi_inv_def)
    from push_status_ok [OF this _ 3(1) b] show ?thesis
      unfolding push_sysex_abort [OF 3 b] by (simp add: midi_step_ok_def)
  qed
qed

lemma midi_push_ok:
  assumes inv: "midi_inv e"
  shows "midi_step_ok e (midi_push e b)"
proof -
  consider "0xF8 \<le> b" | "b < 0xF8" "me_sysex e" | "\<not> me_sysex e" "0x80 \<le> b" "b < 0xF8"
    | "\<not> me_sysex e" "b < 0x80" by fastforce
  then show ?thesis
  proof cases
    case 1
    then show ?thesis
      using inv by (auto simp: midi_push_realtime midi_step_ok_def packet_ok_def cin_len_def cable_of_hdr
          midi_inv_def)
  next
    case 2
    then show ?thesis using push_sysex_ok [OF inv] by (simp add: midi_push_sysex)
  next
    case 3
    then show ?thesis using push_status_ok [OF inv] by (simp add: midi_push_status)
  next
    case 4
    then show ?thesis using push_data_ok [OF inv] by (simp add: midi_push_data)
  qed
qed

lemma midi_push_total: "midi_inv e \<Longrightarrow> midi_push e b \<noteq> None"
  using midi_push_ok [of e b] by (auto simp: midi_step_ok_def)

lemma midi_pushD:
  assumes "midi_inv e" "midi_push e b = Some (r, e')"
  shows "midi_inv e'" "me_cable e' = me_cable e"
    "r = Some p \<Longrightarrow> packet_ok p \<and> cable_of p = me_cable e"
  using midi_push_ok [OF assms(1), of b] assms(2) by (auto simp: midi_step_ok_def)

interpretation midi: push_machine midi_push "\<lambda>e. midi_inv e \<and> me_cable e = c"
    "\<lambda>p. packet_ok p \<and> cable_of p = c" for c
  by unfold_locales (auto simp: midi_push_total dest: midi_pushD)

lemma midi_inv_new: "midi_inv (midi_new c)"
  using nib_lt [of c] by (simp add: midi_inv_def midi_new_def status_ok_def)
subsection \<open>Messages, their wire form and their event packets\<close>

datatype midi_msg =
    Voice u8 "u8 list"      \<comment> \<open>channel voice: status and its data bytes\<close>
  | Common u8 "u8 list"     \<comment> \<open>system common with data: \<open>F1\<close>, \<open>F2\<close>, \<open>F3\<close>\<close>
  | TuneRequest
  | RealTime u8
  | SysEx "u8 list"         \<comment> \<open>the payload between \<open>F0\<close> and \<open>F7\<close>\<close>

definition data_byte :: "u8 \<Rightarrow> bool" where
  "data_byte b \<longleftrightarrow> b < 0x80"

fun msg_ok :: "midi_msg \<Rightarrow> bool" where
  "msg_ok (Voice s ds) \<longleftrightarrow>
     0x80 \<le> s \<and> s < 0xF0 \<and> length ds = unat (channel_data_len s) \<and> list_all data_byte ds"
| "msg_ok (Common s ds) \<longleftrightarrow>
     (s = 0xF1 \<or> s = 0xF2 \<or> s = 0xF3) \<and> length ds = unat (status_len s) \<and> list_all data_byte ds"
| "msg_ok TuneRequest \<longleftrightarrow> True"
| "msg_ok (RealTime b) \<longleftrightarrow> 0xF8 \<le> b"
| "msg_ok (SysEx ds) \<longleftrightarrow> list_all data_byte ds"

fun msg_bytes :: "midi_msg \<Rightarrow> u8 list" where
  "msg_bytes (Voice s ds) = s # ds"
| "msg_bytes (Common s ds) = s # ds"
| "msg_bytes TuneRequest = [0xF6]"
| "msg_bytes (RealTime b) = [b]"
| "msg_bytes (SysEx ds) = 0xF0 # ds @ [0xF7]"

text \<open>
  Running status: the transmitter may leave out the status byte of a channel message that
  repeats the last channel status. System common messages and SysEx cancel it; real-time
  bytes do not.
\<close>

fun next_status :: "u8 \<Rightarrow> midi_msg \<Rightarrow> u8" where
  "next_status rs (Voice s ds) = s"
| "next_status rs (RealTime b) = rs"
| "next_status rs _ = 0"

fun wire :: "u8 \<Rightarrow> (bool \<times> midi_msg) list \<Rightarrow> u8 list" where
  "wire rs [] = []"
| "wire rs ((omit, m) # ms) =
     (if omit \<and> (\<exists>ds. m = Voice rs ds) then tl (msg_bytes m) else msg_bytes m) @
     wire (next_status rs m) ms"

text \<open>The event packets of a message on a cable: a header byte, then three bytes, zero padded.\<close>

definition packet_of :: "u8 \<Rightarrow> u8 \<Rightarrow> u8 list \<Rightarrow> packet" where
  "packet_of c cin bs = (push_bit 4 c OR (cin AND 0x0F)) # take 3 (bs @ [0, 0, 0])"

function sysex_packets :: "u8 \<Rightarrow> u8 list \<Rightarrow> packet list" where
  "sysex_packets c bs =
     (if length bs \<le> 3 then [packet_of c (4 + of_nat (length bs)) bs]
      else packet_of c 4 (take 3 bs) # sysex_packets c (drop 3 bs))"
  by pat_completeness auto
termination
  by (relation "measure (\<lambda>(c, bs). length bs)") auto

declare sysex_packets.simps [simp del]

fun msg_packets :: "u8 \<Rightarrow> midi_msg \<Rightarrow> packet list" where
  "msg_packets c (Voice s ds) = [packet_of c (drop_bit 4 s) (s # ds)]"
| "msg_packets c (Common s ds) = [packet_of c (if s = 0xF2 then 3 else 2) (s # ds)]"
| "msg_packets c TuneRequest = [packet_of c 5 [0xF6]]"
| "msg_packets c (RealTime b) = [packet_of c 0xF [b]]"
| "msg_packets c (SysEx ds) = sysex_packets c (0xF0 # ds @ [0xF7])"

lemma packet_of_hdr:
  "me_cable e = c \<Longrightarrow> packet_of c cin bs = hdr e cin # take 3 (bs @ [0, 0, 0])"
  by (auto simp: packet_of_def hdr_def)

text \<open>The encoder between two messages, with running status \<open>rs\<close> (zero for none).\<close>

definition idle :: "u8 \<Rightarrow> u8 \<Rightarrow> midi_enc \<Rightarrow> bool" where
  "idle c rs e \<longleftrightarrow> midi_inv e \<and> me_cable e = c \<and> \<not> me_sysex e \<and> me_status e = rs \<and>
     rs < 0xF0 \<and> (rs \<noteq> 0 \<longrightarrow> me_count e = 0)"

text \<open>Taking the data bytes of a message whose status has just been accepted.\<close>

lemma run_message_data:
  assumes inv: "midi_inv e" and ns: "\<not> me_sysex e" and st: "me_status e = s" "s \<noteq> 0"
    and cnt: "me_count e = 0" and ds: "list_all data_byte ds" "length ds = unat (status_len s)"
  obtains e' where "midi_run e ds = Some ([packet_of (me_cable e) (cin_for s) (s # ds)], e')"
    "idle (me_cable e) (if 0xF0 \<le> s then 0 else s) e'"
proof -
  obtain d0 d1 where d: "me_data e = [d0, d1]"
    using inv by (auto simp: midi_inv_def length_Suc_conv numeral_2_eq_2)
  have ex: "me_expected e = status_len s" using inv st by (auto simp: midi_inv_def)
  have st': "me_status e \<noteq> 0" using st by simp
  let ?e1 = "\<lambda>x. after_message (e\<lparr>me_data := [x, d1], me_count := 0\<rparr>)"
  let ?e2 = "\<lambda>x y. after_message (e\<lparr>me_data := [x, y], me_count := 0\<rparr>)"
  have idle: "idle (me_cable e) (if 0xF0 \<le> s then 0 else s)
      (after_message (e\<lparr>me_data := [x, y], me_count := 0\<rparr>))" for x y
  proof -
    have "midi_inv (e\<lparr>me_data := [x, y], me_count := 0\<rparr>)"
      using inv status_len_pos [of s] st by (auto simp: midi_inv_def)
    from after_message_inv(1) [OF this] show ?thesis
      using st ns by (auto simp: idle_def after_message_def)
  qed
  consider "status_len s = 1" | "status_len s = 2" using status_len_12 by blast
  then show thesis
  proof cases
    case 1
    then obtain x where x: "ds = [x]" "x < 0x80"
      using ds by (auto simp: length_Suc_conv data_byte_def)
    have "midi_push e x = Some (Some [hdr e (cin_for s), s, x, 0], ?e1 x)"
      using push_data_only [OF st' d cnt, of x] ex 1 st x ns by (simp add: midi_push_data)
    then show thesis
      using that [of "?e1 x"] idle x by (simp add: packet_of_hdr)
  next
    case 2
    then have "length ds = 2" using ds by simp
    then obtain x y where x: "ds = [x, y]" "x < 0x80" "y < 0x80"
      using ds(1) by (auto simp: length_Suc_conv numeral_2_eq_2 data_byte_def)
    let ?m = "e\<lparr>me_data := [x, d1], me_count := 1\<rparr>"
    have "midi_push e x = Some (None, ?m)"
      using push_data_first [OF st' d cnt, of x] ex 2 x ns by (simp add: midi_push_data)
    moreover have "midi_push ?m y = Some (Some [hdr e (cin_for s), s, x, y], ?e2 x y)"
      using push_data_second [of ?m x d1 y] ex 2 st x ns by (simp add: midi_push_data hdr_def)
    ultimately show thesis
      using that [of "?e2 x y"] idle x by (simp add: packet_of_hdr)
  qed
qed

text \<open>A status byte that opens a message leaves the encoder ready for its data bytes.\<close>

lemma accept_status:
  assumes e: "midi_inv e" "\<not> me_sysex e" and s: "status_ok s" "s \<noteq> 0"
  obtains e' where "midi_push e s = Some (None, e')" "midi_inv e'" "\<not> me_sysex e'"
    "me_cable e' = me_cable e" "me_status e' = s" "me_count e' = 0"
proof -
  have b: "0x80 \<le> s" "s < 0xF8" "s \<noteq> 0xF0" "s \<noteq> 0xF4" "s \<noteq> 0xF5" "s \<noteq> 0xF6" "s \<noteq> 0xF7"
    using s by (auto elim!: status_cases simp: word_less_nat_alt word_le_nat_alt)
  let ?e = "e\<lparr>me_status := s, me_expected := status_len s, me_count := 0\<rparr>"
  have "midi_push e s = Some (None, ?e)"
    using e b by (auto simp: midi_push_status push_status_def status_len_def)
  moreover have "midi_inv ?e"
    using e s status_len_pos [of s] by (auto simp: midi_inv_def)
  ultimately show thesis using that [of ?e] e by simp
qed

text \<open>Inside SysEx: \<open>acc\<close> are the bytes of the unfinished chunk.\<close>

definition in_sysex :: "u8 \<Rightarrow> u8 list \<Rightarrow> midi_enc \<Rightarrow> bool" where
  "in_sysex c acc e \<longleftrightarrow> midi_inv e \<and> me_cable e = c \<and> me_sysex e \<and> length acc < 3 \<and>
     me_sxn e = of_nat (length acc) \<and> me_sx e = acc @ replicate (3 - length acc) 0"

lemma sysex_cases:
  assumes "in_sysex c acc e"
  obtains "acc = []" "me_sxn e = 0" "me_sx e = [0, 0, 0]"
  | x where "acc = [x]" "me_sxn e = 1" "me_sx e = [x, 0, 0]"
  | x y where "acc = [x, y]" "me_sxn e = 2" "me_sx e = [x, y, 0]"
proof -
  have "length acc < 3" using assms by (simp add: in_sysex_def)
  then have "length acc = 0 \<or> length acc = 1 \<or> length acc = 2" by linarith
  then show thesis
    using assms that by (auto simp: in_sysex_def length_Suc_conv numeral_2_eq_2 numeral_3_eq_3)
qed

lemma run_sysex:
  assumes "in_sysex c acc e" "list_all data_byte ds"
  shows "\<exists>e'. midi_run e (ds @ [0xF7]) = Some (sysex_packets c (acc @ ds @ [0xF7]), e') \<and> idle c 0 e'"
  using assms
proof (induction ds arbitrary: acc e)
  case Nil
  have inv: "midi_inv e" and c: "me_cable e = c" and l: "length (me_sx e) = 3" "me_sxn e < 3"
    and sy: "me_sysex e" and st: "me_status e = 0"
    using Nil.prems by (auto simp: in_sysex_def midi_inv_def)
  have "idle c 0 (reset_sysex e)"
    using inv c st by (auto simp: idle_def reset_sysex_def midi_inv_def)
  moreover have "midi_push e 0xF7 = push_sysex e 0xF7"
    using sy by (simp add: midi_push_sysex)
  moreover note push_sysex_end [OF l] c
  ultimately show ?case
    by (cases rule: sysex_cases [OF Nil.prems(1)]) (auto simp: sysex_packets.simps packet_of_hdr)
next
  case (Cons d ds)
  have inv: "midi_inv e" and c: "me_cable e = c" and l: "length (me_sx e) = 3" "me_sxn e < 3"
    and sy: "me_sysex e"
    using Cons.prems(1) by (auto simp: in_sysex_def midi_inv_def)
  have ds: "list_all data_byte ds" using Cons.prems(2) by simp
  have d: "d < 0x80" using Cons.prems(2) by (simp add: data_byte_def)
  have d8: "d < 0xF8" using d by (auto simp: word_less_nat_alt)
  have step: "midi_push e d = push_sysex e d" by (rule midi_push_sysex [OF sy d8])
  show ?case
  proof (cases "me_sxn e = 2")
    case False
    let ?e = "e\<lparr>me_sx := (me_sx e)[unat (me_sxn e) := d], me_sxn := me_sxn e + 1\<rparr>"
    have p: "midi_push e d = Some (None, ?e)"
      unfolding step push_sysex_data [OF l d] using False by simp
    have "midi_inv ?e" by (rule midi_pushD(1) [OF inv p])
    then have "in_sysex c (acc @ [d]) ?e"
      using Cons.prems(1) False c sy
      by (cases rule: sysex_cases [OF Cons.prems(1)]) (auto simp: in_sysex_def numeral_2_eq_2 numeral_3_eq_3)
    from Cons.IH [OF this ds] p show ?thesis by auto
  next
    case True
    let ?e = "e\<lparr>me_sx := [0, 0, 0], me_sxn := 0\<rparr>"
    have p: "midi_push e d = Some (Some (hdr e 0x04 # (me_sx e)[2 := d]), ?e)"
      unfolding step push_sysex_data [OF l d] using True by simp
    obtain x y where acc: "acc = [x, y]" "me_sx e = [x, y, 0]"
      using Cons.prems(1) True by (cases rule: sysex_cases) auto
    have "midi_inv ?e" by (rule midi_pushD(1) [OF inv p])
    then have "in_sysex c [] ?e" using c sy by (auto simp: in_sysex_def numeral_3_eq_3)
    from Cons.IH [OF this ds] obtain e' where
      r: "midi_run ?e (ds @ [0xF7]) = Some (sysex_packets c (ds @ [0xF7]), e')" and i: "idle c 0 e'"
      by auto
    have "sysex_packets c (acc @ (d # ds) @ [0xF7]) =
        (hdr e 0x04 # (me_sx e)[2 := d]) # sysex_packets c (ds @ [0xF7])"
      by (subst sysex_packets.simps) (simp add: acc packet_of_hdr [OF c] numeral_2_eq_2)
    with p r i show ?thesis by auto
  qed
qed

text \<open>One message from a message boundary, its status byte left out where running status allows.\<close>

lemma run_message:
  assumes "idle c rs e" "msg_ok m"
  shows "\<exists>e'. midi_run e (if omit \<and> (\<exists>ds. m = Voice rs ds) then tl (msg_bytes m) else msg_bytes m)
      = Some (msg_packets c m, e') \<and> idle c (next_status rs m) e'"
proof -
  have inv: "midi_inv e" and c: "me_cable e = c" and ns: "\<not> me_sysex e" and rs: "me_status e = rs"
    and rl: "rs < 0xF0" and cnt: "rs \<noteq> 0 \<Longrightarrow> me_count e = 0"
    using assms(1) by (auto simp: idle_def)
  have msg: "\<exists>e'. midi_run e (s # ds) = Some ([packet_of c (cin_for s) (s # ds)], e') \<and>
      idle c (if 0xF0 \<le> s then 0 else s) e'"
    if s: "status_ok s" "s \<noteq> 0" and ds: "list_all data_byte ds" "length ds = unat (status_len s)" for s ds
  proof -
    obtain e1 where e1: "midi_push e s = Some (None, e1)" "midi_inv e1" "\<not> me_sysex e1"
      "me_cable e1 = c" "me_status e1 = s" "me_count e1 = 0"
      using accept_status [OF inv ns s] c by metis
    obtain e2 where "midi_run e1 ds = Some ([packet_of c (cin_for s) (s # ds)], e2)"
      "idle c (if 0xF0 \<le> s then 0 else s) e2"
      using run_message_data [OF e1(2,3,5) s(2) e1(6) ds] e1(4) by metis
    with e1(1) show ?thesis by auto
  qed
  show ?thesis
  proof (cases m)
    case (Voice s ds)
    have s: "0x80 \<le> s" "s < 0xF0" and ds: "list_all data_byte ds"
      and len: "length ds = unat (status_len s)"
      using assms(2) Voice by (auto simp: status_len_def word_less_nat_alt)
    have so: "status_ok s" "s \<noteq> 0" and le: "\<not> 0xF0 \<le> s"
      using s by (auto simp: status_ok_def)
    have cin: "cin_for s = drop_bit 4 s" using le by (simp add: cin_for_def)
    show ?thesis
    proof (cases "omit \<and> s = rs")
      case False
      then show ?thesis using msg [OF so ds len] le cin Voice by auto
    next
      case True
      then have "me_status e = s" "me_count e = 0" using rs cnt so by auto
      from run_message_data [OF inv ns this(1) so(2) this(2) ds len] obtain e' where
        "midi_run e ds = Some ([packet_of c (cin_for s) (s # ds)], e')" "idle c s e'"
        using le c by auto
      then show ?thesis using True Voice cin by auto
    qed
  next
    case (Common s ds)
    have s: "status_ok s" "s \<noteq> 0" "0xF0 \<le> s"
      and ds: "list_all data_byte ds" "length ds = unat (status_len s)"
      using assms(2) Common by (auto simp: status_ok_def)
    then have "cin_for s = (if s = 0xF2 then 3 else 2)" by (simp add: cin_for_def)
    then show ?thesis using msg [OF s(1,2) ds] s(3) Common by auto
  next
    case TuneRequest
    have "idle c 0 (e\<lparr>me_status := 0\<rparr>)"
      using inv c ns by (auto simp: idle_def midi_inv_def status_ok_def)
    moreover have "midi_push e 0xF6 = Some (Some [hdr e 5, 0xF6, 0, 0], e\<lparr>me_status := 0\<rparr>)"
      using ns by (simp add: midi_push_status push_status_def)
    ultimately show ?thesis using TuneRequest c by (auto simp: packet_of_hdr)
  next
    case (RealTime b)
    then show ?thesis using assms c by (auto simp: midi_push_realtime packet_of_hdr)
  next
    case (SysEx ds)
    let ?e = "e\<lparr>me_status := 0, me_sysex := True, me_sx := [0xF0, 0, 0], me_sxn := 1\<rparr>"
    have p: "midi_push e 0xF0 = Some (None, ?e)"
      using ns by (simp add: midi_push_status push_status_def)
    have "in_sysex c [0xF0] ?e"
      using midi_pushD(1) [OF inv p] c by (auto simp: in_sysex_def numeral_2_eq_2)
    from run_sysex [OF this, of ds] p show ?thesis using assms(2) SysEx by auto
  qed
qed

lemma run_wire:
  assumes "idle c rs e" "list_all msg_ok (map snd ms)"
  shows "\<exists>e'. midi_run e (wire rs ms) = Some (concat (map (msg_packets c \<circ> snd) ms), e') \<and>
           \<not> me_sysex e'"
  using assms
proof (induction ms arbitrary: rs e)
  case Nil
  then show ?case by (auto simp: idle_def)
next
  case (Cons a ms)
  obtain omit m where a: "a = (omit, m)" by (cases a)
  obtain e1 where e1: "midi_run e (if omit \<and> (\<exists>ds. m = Voice rs ds) then tl (msg_bytes m) else msg_bytes m)
      = Some (msg_packets c m, e1)" "idle c (next_status rs m) e1"
    using run_message [OF Cons.prems(1), of m omit] Cons.prems(2) a by auto
  from Cons.IH [OF e1(2)] Cons.prems(2) e1(1) show ?case
    by (auto simp: a push_run_append)
qed

lemma idle_new: "idle (c AND 0x0F) 0 (midi_new c)"
  using midi_inv_new by (simp add: idle_def midi_new_def)
subsection \<open>What the host reassembles\<close>

lemma packet_of_payload:
  assumes "cin AND 0x0F = cin" "cin_len cin = length bs" "length bs \<le> 3"
  shows "packet_payload (packet_of c cin bs) = bs"
proof -
  have "cin_of (packet_of c cin bs) = cin"
    unfolding packet_of_def cin_of_def nth_Cons_0 nib_lo by (rule assms(1))
  then show ?thesis using assms by (simp add: packet_payload_def packet_of_def)
qed

lemma sysex_packets_payload:
  "bs \<noteq> [] \<Longrightarrow> concat (map packet_payload (sysex_packets c bs)) = bs"
proof (induction c bs rule: sysex_packets.induct)
  case (1 c bs)
  show ?case
  proof (cases "length bs \<le> 3")
    case True
    have "length bs \<noteq> 0" using 1(2) by simp
    then have "length bs = 1 \<or> length bs = 2 \<or> length bs = 3" using True by linarith
    then have "packet_payload (packet_of c (4 + of_nat (length bs)) bs) = bs"
      by (intro packet_of_payload) (auto simp: cin_len_def)
    with True show ?thesis by (subst sysex_packets.simps) simp
  next
    case False
    have "packet_payload (packet_of c 4 (take 3 bs)) = take 3 bs"
      using False by (intro packet_of_payload) (simp_all add: cin_len_def)
    moreover have "drop 3 bs \<noteq> []" using False by simp
    ultimately show ?thesis using 1(1) False by (subst sysex_packets.simps) simp
  qed
qed

lemma msg_packets_payload:
  assumes "msg_ok m"
  shows "concat (map packet_payload (msg_packets c m)) = msg_bytes m"
proof (cases m)
  case (Voice s ds)
  have s: "0x80 \<le> s" "s < 0xF0" using assms Voice by auto
  have so: "status_ok s" "s \<noteq> 0" and sl: "status_len s = channel_data_len s"
    and cin: "cin_for s = drop_bit 4 s"
    using s by (auto simp: status_ok_def status_len_def cin_for_def)
  show ?thesis
    using cin_for_facts [OF so] assms Voice channel_data_len_12 [of s]
    by (auto simp: sl cin intro!: packet_of_payload)
next
  case (Common s ds)
  have so: "status_ok s" "s \<noteq> 0" and cin: "cin_for s = (if s = 0xF2 then 3 else 2)"
    using assms Common by (auto simp: status_ok_def cin_for_def)
  show ?thesis
    using cin_for_facts [OF so] assms Common status_len_12 [of s]
    by (auto simp: cin split: if_splits intro!: packet_of_payload)
next
  case (SysEx ds)
  then show ?thesis by (simp add: sysex_packets_payload)
qed (auto intro!: packet_of_payload simp: cin_len_def)

subsection \<open>Real-time bytes\<close>

lemma cin_for_not_F: "status_ok s \<Longrightarrow> s \<noteq> 0 \<Longrightarrow> cin_for s AND 0x0F \<noteq> 0x0F"
  using cin_for_facts(1,4) [of s] status_len_12 [of s] by (auto simp: cin_len_def)

lemma push_status_cin: "push_status e b = Some (Some p, e') \<Longrightarrow> cin_of p \<noteq> 0x0F"
  by (auto simp: push_status_def split: if_splits)

lemma push_data_cin:
  assumes inv: "midi_inv e" and p: "push_data e b = Some (Some p, e')"
  shows "cin_of p \<noteq> 0x0F"
proof -
  have ne: "me_status e \<noteq> 0" using p push_data_orphan [of e b] by auto
  obtain d0 d1 where d: "me_data e = [d0, d1]"
    using inv by (auto simp: midi_inv_def length_Suc_conv numeral_2_eq_2)
  have so: "status_ok (me_status e)" and ex: "me_expected e = status_len (me_status e)"
    and lt: "me_count e < me_expected e"
    using inv ne by (auto simp: midi_inv_def)
  consider "me_count e = 0" "me_expected e = 2" | "me_count e = 0" "me_expected e = 1"
    | "me_count e = 1" "me_expected e = 2"
    using lt ex status_len_12 [of "me_status e"] word8_lt_2 [of "me_count e"] by auto
  then show ?thesis
    using p cin_for_not_F [OF so ne] push_data_first [OF ne d] push_data_only [OF ne d]
      push_data_second [OF ne d]
    by cases auto
qed

lemma midi_push_cin:
  assumes inv: "midi_inv e" and b: "b < 0xF8" and p: "midi_push e b = Some (Some q, e')"
  shows "cin_of q \<noteq> 0x0F"
proof -
  consider "me_sysex e" | "\<not> me_sysex e" "0x80 \<le> b" | "\<not> me_sysex e" "b < 0x80" by fastforce
  then show ?thesis
  proof cases
    case 1
    have l: "length (me_sx e) = 3" "me_sxn e < 3" using inv by (auto simp: midi_inv_def)
    have ps: "push_sysex e b = Some (Some q, e')" using p midi_push_sysex [OF 1 b] by simp
    consider "b < 0x80" | "b = 0xF7" | "0x80 \<le> b" "b \<noteq> 0xF7" by fastforce
    then show ?thesis
    proof cases
      case 1
      then show ?thesis using ps push_sysex_data [OF l] by (auto split: if_splits)
    next
      case 2
      then show ?thesis using ps push_sysex_end [OF l] by (auto split: if_splits)
    next
      case 3
      then show ?thesis using ps push_sysex_abort [OF 3 b] push_status_cin by auto
    qed
  next
    case 2
    then show ?thesis using p b push_status_cin by (auto simp: midi_push_status)
  next
    case 3
    then show ?thesis using p push_data_cin [OF inv] by (auto simp: midi_push_data)
  qed
qed

lemma midi_run_filter_realtime:
  "midi_inv e \<Longrightarrow> midi_run e bs = Some (ps, e') \<Longrightarrow>
   midi_run e (filter (\<lambda>b. b < 0xF8) bs) = Some (filter (\<lambda>p. cin_of p \<noteq> 0x0F) ps, e')"
proof (induction bs arbitrary: e ps)
  case Nil
  then show ?case by simp
next
  case (Cons b bs)
  obtain r e1 where st: "midi_push e b = Some (r, e1)"
    using midi_push_total [OF Cons.prems(1), of b] by fastforce
  obtain qs where run: "midi_run e1 bs = Some (qs, e')" and ps: "ps = (case r of None \<Rightarrow> qs | Some y \<Rightarrow> y # qs)"
    using Cons.prems(2) st by (auto split: option.splits)
  note IH = Cons.IH [OF midi_pushD(1) [OF Cons.prems(1) st] run]
  show ?case
  proof (cases "b < 0xF8")
    case True
    then show ?thesis
      using st IH ps midi_push_cin [OF Cons.prems(1) True] by (auto split: option.splits)
  next
    case False
    then have "r = Some [hdr e 0x0F, b, 0, 0]" "e1 = e"
      using st by (auto simp: midi_push_realtime)
    with False IH ps show ?thesis by simp
  qed
qed
subsection \<open>Properties\<close>

text \<open>C1: The encoder turns a well-formed serial MIDI stream into exactly the USB-MIDI event
  packets of its messages, in order: channel messages with or without running status, system
  common messages, tune requests, real-time bytes and SysEx of any length.\<close>

theorem midi_encodes_wire:
  assumes "list_all msg_ok (map snd ms)"
  shows "\<exists>e'. midi_run (midi_new c) (wire 0 ms) =
           Some (concat (map (msg_packets (c AND 0x0F) \<circ> snd) ms), e')"
  using run_wire [OF idle_new assms] by blast

theorem midi_encodes_wire_witness:
  "\<exists>e'. midi_run (midi_new 3) (wire 0 [(False, Voice 0x90 [60, 64]), (True, Voice 0x90 [62, 80]),
      (False, SysEx [1, 2]), (False, RealTime 0xF8)]) =
    Some (concat (map (msg_packets (3 AND 0x0F) \<circ> snd)
      [(False, Voice 0x90 [60, 64]), (True, Voice 0x90 [62, 80]), (False, SysEx [1, 2]),
       (False, RealTime 0xF8)]), e')"
  by (rule midi_encodes_wire) (simp add: data_byte_def channel_data_len_def Let_def)

text \<open>C24: A USB host that keeps, of each packet, the bytes its code index number announces
  recovers the serial stream with every status byte written out.\<close>

theorem midi_host_reassembles:
  assumes "list_all msg_ok (map snd ms)"
  shows "\<exists>ps e'. midi_run (midi_new c) (wire 0 ms) = Some (ps, e') \<and>
           concat (map packet_payload ps) = concat (map (msg_bytes \<circ> snd) ms)"
proof -
  obtain e' where "midi_run (midi_new c) (wire 0 ms) =
      Some (concat (map (msg_packets (c AND 0x0F) \<circ> snd) ms), e')"
    using run_wire [OF idle_new assms] by blast
  moreover have "concat (map packet_payload (concat (map (msg_packets d \<circ> snd) ms))) =
      concat (map (msg_bytes \<circ> snd) ms)" for d
    using assms by (induction ms) (auto simp: msg_packets_payload)
  ultimately show ?thesis by blast
qed

theorem midi_host_reassembles_witness:
  "\<exists>ps e'. midi_run (midi_new 0) (wire 0 [(False, Voice 0xC0 [5]), (True, Voice 0xC0 [6])]) =
       Some (ps, e') \<and>
     concat (map packet_payload ps) =
       concat (map (msg_bytes \<circ> snd) [(False, Voice 0xC0 [5]), (True, Voice 0xC0 [6])])"
  by (rule midi_host_reassembles) (simp add: data_byte_def channel_data_len_def Let_def)

text \<open>Whatever bytes arrive, well-formed or not, the encoder never indexes out of bounds,
  keeps its invariant, and emits only well-formed packets tagged with its own cable.\<close>

theorem midi_never_panics:
  "\<exists>ps e'. midi_run (midi_new c) bs = Some (ps, e') \<and> midi_inv e' \<and>
     list_all (\<lambda>p. packet_ok p \<and> cable_of p = c AND 0x0F) ps"
proof -
  have "midi_inv (midi_new c) \<and> me_cable (midi_new c) = c AND 0x0F"
    using midi_inv_new by (simp add: midi_new_def)
  from midi.run_total [OF this, of bs] show ?thesis by blast
qed

text \<open>System real-time bytes are transparent: dropping them from any byte stream drops
  exactly their own packets and leaves every other packet and the final state unchanged.\<close>

theorem midi_realtime_transparent:
  assumes "midi_run (midi_new c) bs = Some (ps, e')"
  shows "midi_run (midi_new c) (filter (\<lambda>b. b < 0xF8) bs) =
           Some (filter (\<lambda>p. cin_of p \<noteq> 0x0F) ps, e')"
  by (rule midi_run_filter_realtime [OF midi_inv_new assms])

theorem midi_realtime_transparent_witness:
  "\<exists>ps e'. midi_run (midi_new 0) [0xF0, 1, 0xF8, 0xF7] = Some (ps, e') \<and>
     midi_run (midi_new 0) [0xF0, 1, 0xF7] = Some (filter (\<lambda>p. cin_of p \<noteq> 0x0F) ps, e')"
proof -
  obtain ps e' where r: "midi_run (midi_new 0) [0xF0, 1, 0xF8, 0xF7] = Some (ps, e')"
    using midi.run_total [of "midi_new 0" "me_cable (midi_new 0)"] midi_inv_new by blast
  from midi_realtime_transparent [OF r] r show ?thesis by auto
qed

end
