(* ===== verification/Dft.thy ===== *)
theory Dft
  imports Prelude Complex_Main
begin

text \<open>
  The mathematics the FFT of \<open>crates/daisy-dsp/src/fft.rs\<close> is measured against: the discrete
  Fourier transform over the complex numbers, its decimation in time, the bit-reversed order of
  indices, inversion, circular convolution, and the conjugate symmetry of real signals. Nothing
  here models code.
\<close>

section \<open>Roots of unity\<close>

definition wn :: "nat \<Rightarrow> nat \<Rightarrow> complex" where
  "wn n k = cis (- (2 * pi * real k / real n))"

lemma wn_0 [simp]: "wn n 0 = 1"
  by (simp add: wn_def)

lemma wn_add: "wn n (j + k) = wn n j * wn n k"
  by (simp add: wn_def cis_mult add_divide_distrib distrib_left)

lemma wn_scale: "0 < d \<Longrightarrow> wn (d * n) (d * k) = wn n k"
  by (simp add: wn_def mult.assoc)

lemma wn_full: "0 < n \<Longrightarrow> wn n (n * m) = 1"
proof -
  assume "0 < n"
  then have "wn n (n * m) = cis (2 * pi * real_of_int (- int m))"
    by (simp add: wn_def mult.assoc)
  also have "\<dots> = 1" by (rule cis_multiple_2pi) simp
  finally show ?thesis .
qed

lemma wn_mod: "0 < n \<Longrightarrow> wn n (k mod n) = wn n k"
  by (metis wn_add wn_full mult_div_mod_eq mult_1_left)

lemma wn_half: "0 < q \<Longrightarrow> wn (2 * q) q = - 1"
proof -
  assume "0 < q"
  then have "wn (2 * q) q = cis (- pi)" by (simp add: wn_def)
  then show ?thesis by (simp add: complex_eq_iff)
qed

lemma wn_quarter: "0 < q \<Longrightarrow> wn (4 * q) q = - \<i>"
proof -
  assume "0 < q"
  then have "wn (4 * q) q = cis (- (pi / 2))" by (simp add: wn_def)
  then show ?thesis by simp
qed

lemma wn_neq_0: "wn n k \<noteq> 0"
  by (simp add: wn_def)

lemma wn_cnj: "cnj (wn n k) * wn n k = 1"
  by (simp add: wn_def cis_cnj cis_mult)

lemma wn_complement: "k \<le> n \<Longrightarrow> 0 < n \<Longrightarrow> wn n (n - k) = cnj (wn n k)"
proof -
  assume h: "k \<le> n" "0 < n"
  have "wn n (n - k) * wn n k = cnj (wn n k) * wn n k"
    using wn_add [of n "n - k" k] wn_full [of n 1] h by (simp add: wn_cnj)
  then show ?thesis by (rule mult_right_cancel [OF wn_neq_0, THEN iffD1])
qed

lemma wn_power: "wn n (k * t) = wn n k ^ t"
  by (induction t) (simp_all add: wn_add)

lemma wn_eq_1D: "wn n k = 1 \<Longrightarrow> k < n \<Longrightarrow> k = 0"
proof (rule ccontr)
  assume h: "wn n k = 1" "k < n" "k \<noteq> 0"
  define x where "x = 2 * pi * real k / real n"
  have "cos x = 1" using h(1) by (simp add: wn_def x_def complex_eq_iff)
  moreover have "0 < x" "x < 2 * pi" using h(2,3) by (simp_all add: x_def field_simps)
  ultimately show False
  proof -
    assume c: "cos x = 1" and b: "0 < x" "x < 2 * pi"
    obtain m :: int where m: "x = of_int m * 2 * pi" using c cos_one_2pi_int by auto
    have "0 < m" using b(1) m by (simp add: zero_less_mult_iff)
    moreover have "m < 1" using b(2) m by simp
    ultimately show False by linarith
  qed
qed

lemma wn_sum: "k < n \<Longrightarrow> (\<Sum>t<n. wn n (k * t)) = (if k = 0 then of_nat n else 0)"
proof (cases "k = 0")
  case False
  assume k: "k < n"
  have ne: "wn n k \<noteq> 1" using wn_eq_1D [of n k] k False by blast
  have "(\<Sum>t<n. wn n (k * t)) = (wn n k ^ n - 1) / (wn n k - 1)"
    by (simp add: wn_power geometric_sum [OF ne])
  also have "wn n k ^ n = 1"
    using wn_full [of n k] k by (simp add: wn_power [symmetric] mult.commute)
  finally show ?thesis using False by simp
qed simp

lemma wn_orthogonal:
  assumes "j < n" "k < n"
  shows "(\<Sum>t<n. wn n (j * t) * cnj (wn n (k * t))) = (if j = k then of_nat n else 0)"
proof -
  have n: "0 < n" using assms by simp
  have c: "cnj (wn n (k * t)) = wn n (n - k) ^ t" for t
    using wn_complement [of k n] assms(2) by (simp add: wn_power [symmetric])
      (simp add: wn_power)
  have "wn n (j * t) * cnj (wn n (k * t)) = wn n (((j + (n - k)) mod n) * t)" for t
    unfolding c unfolding wn_power wn_mod [OF n] wn_add power_mult_distrib by (simp only:)
  then have "(\<Sum>t<n. wn n (j * t) * cnj (wn n (k * t))) = (if (j + (n - k)) mod n = 0 then of_nat n else 0)"
    using wn_sum [of "(j + (n - k)) mod n" n] n by simp
  moreover have "(j + (n - k)) mod n = 0 \<longleftrightarrow> j = k"
  proof (cases "k \<le> j")
    case True
    then have e: "j + (n - k) = (j - k) + n" using assms(2) by simp
    have "(j - k + n) mod n = j - k" using assms(1) by simp
    then show ?thesis using True unfolding e by simp
  next
    case False
    then have "j + (n - k) < n" "0 < j + (n - k)" using assms by auto
    then show ?thesis using False by auto
  qed
  ultimately show ?thesis by simp
qed

section \<open>The transform\<close>

definition dft :: "nat \<Rightarrow> (nat \<Rightarrow> complex) \<Rightarrow> nat \<Rightarrow> complex" where
  "dft n x k = (\<Sum>t<n. x t * wn n (k * t))"

definition idft :: "nat \<Rightarrow> (nat \<Rightarrow> complex) \<Rightarrow> nat \<Rightarrow> complex" where
  "idft n y t = (\<Sum>k<n. y k * cnj (wn n (k * t))) / of_nat n"

lemma dft_cong: "(\<And>t. t < n \<Longrightarrow> x t = y t) \<Longrightarrow> dft n x k = dft n y k"
  by (simp add: dft_def)

lemma dft_periodic: "0 < n \<Longrightarrow> dft n x (k + n) = dft n x k"
  using wn_full [of n] by (simp add: dft_def distrib_right wn_add)

lemma dft_mod: "0 < n \<Longrightarrow> dft n x (k mod n) = dft n x k"
proof -
  assume "0 < n"
  then have "wn n (k mod n) = wn n k" by (rule wn_mod)
  then show ?thesis by (simp add: dft_def wn_power)
qed

lemma dft_linear: "dft n (\<lambda>t. a * x t + b * y t) k = a * dft n x k + b * dft n y k"
  by (simp add: dft_def sum_distrib_left sum.distrib distrib_right mult.assoc)

lemma dft_sum: "dft n (\<lambda>t. \<Sum>i\<in>A. x i t) k = (\<Sum>i\<in>A. dft n (x i) k)"
  unfolding dft_def sum_distrib_right by (rule sum.swap)

lemma idft_dft: "t < n \<Longrightarrow> idft n (dft n x) t = x t"
proof -
  assume t: "t < n"
  have "(\<Sum>k<n. dft n x k * cnj (wn n (k * t)))
      = (\<Sum>s<n. x s * (\<Sum>k<n. wn n (s * k) * cnj (wn n (t * k))))"
    unfolding dft_def sum_distrib_left sum_distrib_right
    by (subst sum.swap) (simp add: mult.commute mult.left_commute)
  also have "\<dots> = (\<Sum>s<n. x s * (if s = t then of_nat n else 0))"
    using t by (simp add: wn_orthogonal)
  also have "\<dots> = x t * of_nat n" using t by (simp add: sum.delta' if_distrib cong: if_cong)
  finally show ?thesis using t by (simp add: idft_def)
qed

lemma idft_conj: "idft n y t = cnj (dft n (\<lambda>k. cnj (y k)) t) / of_nat n"
  by (simp add: idft_def dft_def mult.commute)

text \<open>Decimation in time: the transform of twice the length from those of the even and odd samples.\<close>

lemma sum_even_odd: "(\<Sum>t<2 * q. f t) = (\<Sum>t<q. f (2 * t)) + (\<Sum>t<q. f (2 * t + 1))" for f :: "nat \<Rightarrow> complex"
  by (induction q) (simp_all add: algebra_simps)

lemma dft_even_odd:
  assumes "0 < q"
  shows "dft (2 * q) x k = dft q (\<lambda>t. x (2 * t)) k + wn (2 * q) k * dft q (\<lambda>t. x (2 * t + 1)) k"
proof -
  have e: "wn (2 * q) (k * (2 * t)) = wn q (k * t)" for t
    using wn_scale [of 2 q "k * t"] by (simp add: mult.left_commute)
  have "wn (2 * q) (k * (2 * t + 1)) = wn (2 * q) k * wn q (k * t)" for t
    using e [of t] wn_add [of "2 * q" "k * (2 * t)" k] by (simp add: algebra_simps)
  then have "dft (2 * q) x k = (\<Sum>t<q. x (2 * t) * wn q (k * t)) +
      (\<Sum>t<q. wn (2 * q) k * (x (2 * t + 1) * wn q (k * t)))"
    unfolding dft_def sum_even_odd e by (simp add: mult.left_commute)
  then show ?thesis by (simp add: dft_def sum_distrib_left)
qed

lemma dft_even_odd':
  assumes "0 < q"
  shows "dft (2 * q) x (k + q) = dft q (\<lambda>t. x (2 * t)) k - wn (2 * q) k * dft q (\<lambda>t. x (2 * t + 1)) k"
  using dft_even_odd [OF assms, of x "k + q"] dft_periodic [OF assms] wn_half [OF assms]
  by (simp add: wn_add)

section \<open>Bit-reversed order\<close>

fun rev_bits :: "nat \<Rightarrow> nat \<Rightarrow> nat" where
  "rev_bits 0 i = 0"
| "rev_bits (Suc m) i = i mod 2 * 2 ^ m + rev_bits m (i div 2)"

lemma rev_bits_less: "rev_bits m i < 2 ^ m"
proof (induction m arbitrary: i)
  case (Suc m)
  have "i mod 2 = 0 \<or> i mod 2 = 1" by auto
  then have "i mod 2 * 2 ^ m \<le> 2 ^ m" by auto
  then show ?case using Suc.IH [of "i div 2"] by (simp only: rev_bits.simps power_Suc)
qed simp

lemma bit_rev_bits: "bit (rev_bits m i) k \<longleftrightarrow> k < m \<and> bit i (m - 1 - k)"
proof (induction m arbitrary: i k)
  case (Suc m)
  have d: "rev_bits (Suc m) i = push_bit m (i mod 2) OR rev_bits m (i div 2)"
  proof -
    have "push_bit m (i mod 2) + rev_bits m (i div 2) = push_bit m (i mod 2) OR rev_bits m (i div 2)"
      by (rule disjunctive_add) (auto simp: bit_push_bit_iff Suc.IH)
    then show ?thesis by (simp add: push_bit_eq_mult)
  qed
  have "bit (i mod 2) j \<longleftrightarrow> j = 0 \<and> odd i" for j
    using bit_take_bit_iff [of 1 i j] by (auto simp: take_bit_eq_mod bit_0)
  then show ?case
    unfolding d bit_or_iff bit_push_bit_iff Suc.IH
    by (cases "k < m") (auto simp: bit_0 bit_Suc [symmetric] Suc_diff_Suc not_less less_Suc_eq)
qed simp

lemma rev_bits_involution: "i < 2 ^ m \<Longrightarrow> rev_bits m (rev_bits m i) = i"
proof -
  assume i: "i < 2 ^ m"
  have "take_bit m i = i" using i by (simp add: take_bit_nat_eq_self)
  then have b: "bit i k \<Longrightarrow> k < m" for k by (metis bit_take_bit_iff)
  show ?thesis
  proof (rule bit_eqI)
    fix k
    show "bit (rev_bits m (rev_bits m i)) k \<longleftrightarrow> bit i k"
      using b [of k] by (cases "k < m") (auto simp: bit_rev_bits)
  qed
qed

lemma rev_bits_inj: "i < 2 ^ m \<Longrightarrow> j < 2 ^ m \<Longrightarrow> rev_bits m i = rev_bits m j \<longleftrightarrow> i = j"
  by (metis rev_bits_involution)

text \<open>
  Block \<open>b\<close> of the array after the stages that build sub-transforms of size \<open>2 ^ s\<close>: the transform of
  the samples whose indices agree with the reversed \<open>b\<close> in their low bits.
\<close>

definition sub_dft :: "nat \<Rightarrow> (nat \<Rightarrow> complex) \<Rightarrow> nat \<Rightarrow> nat \<Rightarrow> nat \<Rightarrow> complex" where
  "sub_dft m x s b k = dft (2 ^ s) (\<lambda>t. x (rev_bits (m - s) b + t * 2 ^ (m - s))) k"

lemma sub_dft_0: "sub_dft m x 0 b 0 = x (rev_bits m b)"
  by (simp add: sub_dft_def dft_def)

lemma sub_dft_all: "sub_dft m x m 0 k = dft (2 ^ m) x k"
  by (simp add: sub_dft_def)

lemma sub_dft_step:
  assumes "s < m"
  shows "sub_dft m x (Suc s) b k = sub_dft m x s (2 * b) k + wn (2 ^ Suc s) k * sub_dft m x s (2 * b + 1) k"
    and "sub_dft m x (Suc s) b (k + 2 ^ s) = sub_dft m x s (2 * b) k - wn (2 ^ Suc s) k * sub_dft m x s (2 * b + 1) k"
proof -
  obtain r where r: "m - s = Suc r" "m - Suc s = r"
    using assms by (metis Suc_diff_Suc)
  have q: "0 < (2::nat) ^ s" by simp
  have odd_twice: "Suc (b * 2) mod 2 = 1" by presburger
  show "sub_dft m x (Suc s) b k = sub_dft m x s (2 * b) k + wn (2 ^ Suc s) k * sub_dft m x s (2 * b + 1) k"
    "sub_dft m x (Suc s) b (k + 2 ^ s) = sub_dft m x s (2 * b) k - wn (2 ^ Suc s) k * sub_dft m x s (2 * b + 1) k"
    using dft_even_odd [OF q, of "\<lambda>t. x (rev_bits r b + t * 2 ^ r)" k]
      dft_even_odd' [OF q, of "\<lambda>t. x (rev_bits r b + t * 2 ^ r)" k]
      odd_twice by (simp_all add: sub_dft_def r algebra_simps)
qed

text \<open>One radix-2 stage over an array of sub-transforms of size \<open>q\<close>.\<close>

definition radix2 :: "nat \<Rightarrow> (nat \<Rightarrow> complex) \<Rightarrow> nat \<Rightarrow> complex" where
  "radix2 q z p =
     (let k = p mod q; b = p - p mod (2 * q) in
      if p mod (2 * q) < q then z (b + k) + wn (2 * q) k * z (b + k + q)
      else z (b + k) - wn (2 * q) k * z (b + k + q))"

lemma radix2_lo: "k < q \<Longrightarrow> 2 * q dvd b \<Longrightarrow> radix2 q z (b + k) = z (b + k) + wn (2 * q) k * z (b + k + q)"
proof -
  assume h: "k < q" "2 * q dvd b"
  then have "(b + k) mod (2 * q) = k" by (auto elim!: dvdE)
  moreover have "(b + k) mod q = k" using h by (auto elim!: dvdE simp: mult.assoc mult.left_commute [of 2])
  ultimately show ?thesis using h by (simp add: radix2_def Let_def)
qed

lemma radix2_hi: "k < q \<Longrightarrow> 2 * q dvd b \<Longrightarrow> radix2 q z (b + k + q) = z (b + k) - wn (2 * q) k * z (b + k + q)"
proof -
  assume h: "k < q" "2 * q dvd b"
  then have "(b + k + q) mod (2 * q) = k + q" by (auto elim!: dvdE simp: add.assoc)
  moreover have "(b + k + q) mod q = k" using h by (auto elim!: dvdE simp: mult.assoc mult.left_commute [of 2])
  ultimately show ?thesis using h by (simp add: radix2_def Let_def)
qed

definition stage :: "nat \<Rightarrow> (nat \<Rightarrow> complex) \<Rightarrow> nat \<Rightarrow> nat \<Rightarrow> complex" where
  "stage m x s p = sub_dft m x s (p div 2 ^ s) (p mod 2 ^ s)"

lemma stage_0: "stage m x 0 p = x (rev_bits m p)"
  by (simp add: stage_def sub_dft_0)

lemma stage_all: "p < 2 ^ m \<Longrightarrow> stage m x m p = dft (2 ^ m) x p"
  by (simp add: stage_def sub_dft_all)

lemma stage_block: "k < 2 ^ s \<Longrightarrow> stage m x s (2 ^ s * c + k) = sub_dft m x s c k"
  by (simp add: stage_def)

lemma radix2_stage:
  assumes "s < m"
  shows "radix2 (2 ^ s) (stage m x s) p = stage m x (Suc s) p"
proof -
  define b k where "b = p div 2 ^ Suc s" and "k = p mod 2 ^ s"
  have q: "0 < (2::nat) ^ s" by simp
  have k: "k < 2 ^ s" by (simp add: k_def)
  have dv: "2 * 2 ^ s dvd 2 ^ Suc s * b" by simp
  have m2: "p mod 2 ^ Suc s = k \<or> p mod 2 ^ Suc s = k + 2 ^ s"
  proof -
    have "p mod 2 ^ Suc s = p mod (2 ^ s * 2)" by (simp add: mult.commute)
    also have "\<dots> = 2 ^ s * (p div 2 ^ s mod 2) + k" by (simp add: mod_mult2_eq k_def)
    finally show ?thesis by (cases "even (p div 2 ^ s)") (auto simp: even_iff_mod_2_eq_zero odd_iff_mod_2_eq_one)
  qed
  have eq: "2 ^ Suc s * b + k = 2 ^ s * (2 * b) + k" "2 ^ Suc s * b + k + 2 ^ s = 2 ^ s * (2 * b + 1) + k"
    by simp_all
  have lo: "stage m x s (2 ^ Suc s * b + k) = sub_dft m x s (2 * b) k"
    and hi: "stage m x s (2 ^ Suc s * b + k + 2 ^ s) = sub_dft m x s (2 * b + 1) k"
    unfolding eq(2) unfolding eq(1) by (rule stage_block [OF k])+
  have p: "p = 2 ^ Suc s * b + p mod 2 ^ Suc s" by (simp add: b_def)
  from m2 show ?thesis
  proof
    assume e: "p mod 2 ^ Suc s = k"
    have "p = 2 ^ Suc s * b + k" using p e by simp
    then have "radix2 (2 ^ s) (stage m x s) p = sub_dft m x (Suc s) b k"
      using radix2_lo [OF k dv, of "stage m x s"] lo hi sub_dft_step(1) [OF assms, of x b k] by simp
    then show ?thesis using e by (simp add: stage_def b_def)
  next
    assume e: "p mod 2 ^ Suc s = k + 2 ^ s"
    have "p = 2 ^ Suc s * b + k + 2 ^ s" using p e by simp
    then have "radix2 (2 ^ s) (stage m x s) p = sub_dft m x (Suc s) b (k + 2 ^ s)"
      using radix2_hi [OF k dv, of "stage m x s"] lo hi sub_dft_step(2) [OF assms, of x b k] by simp
    then show ?thesis using e by (simp add: stage_def b_def)
  qed
qed

section \<open>Circular convolution\<close>

lemma wn_cong: "0 < n \<Longrightarrow> j mod n = k mod n \<Longrightarrow> wn n j = wn n k"
  by (metis wn_mod)

lemma wn_mult_cong: "0 < n \<Longrightarrow> j mod n = k mod n \<Longrightarrow> wn n (c * j) = wn n (c * k)"
  by (rule wn_cong) (metis mod_mult_right_eq)+

lemma dft_shift:
  assumes i: "i < n"
  shows "(\<Sum>q<n. u ((q + n - i) mod n) * wn n (k * q)) = wn n (k * i) * dft n u k"
proof -
  have n: "0 < n" using i by simp
  have inv1: "((r + i) mod n + n - i) mod n = r" if "r < n" for r
  proof (cases "r + i < n")
    case False
    then have "(r + i) mod n = r + i - n" using i that by (simp add: le_mod_geq)
    then show ?thesis using False i that by simp
  qed simp
  have inv2: "((q + n - i) mod n + i) mod n = q" if "q < n" for q
    using i that by (simp add: mod_add_left_eq)
  have "(\<Sum>q<n. u ((q + n - i) mod n) * wn n (k * q)) = (\<Sum>r<n. u r * wn n (k * (r + i)))"
  proof (rule sum.reindex_bij_witness [where i = "\<lambda>r. (r + i) mod n" and j = "\<lambda>q. (q + n - i) mod n"])
    fix q assume q: "q \<in> {..<n}"
    have "wn n (k * ((q + n - i) mod n + i)) = wn n (k * q)"
      using q inv2 [of q] by (intro wn_mult_cong [OF n]) simp
    then show "u ((q + n - i) mod n) * wn n (k * ((q + n - i) mod n + i)) = u ((q + n - i) mod n) * wn n (k * q)"
      by simp
  qed (use n inv1 inv2 in auto)
  also have "\<dots> = wn n (k * i) * dft n u k"
    by (simp add: dft_def sum_distrib_left distrib_left wn_add mult.left_commute mult.commute)
  finally show ?thesis .
qed

lemma dft_circular:
  "dft n u k * dft n v k = dft n (\<lambda>q. \<Sum>i<n. v i * u ((q + n - i) mod n)) k"
proof -
  have "dft n (\<lambda>q. \<Sum>i<n. v i * u ((q + n - i) mod n)) k
      = (\<Sum>i<n. v i * (\<Sum>q<n. u ((q + n - i) mod n) * wn n (k * q)))"
    unfolding dft_def sum_distrib_right sum_distrib_left by (subst sum.swap) (simp add: mult.assoc)
  also have "\<dots> = (\<Sum>i<n. v i * (wn n (k * i) * dft n u k))"
    by (rule sum.cong) (simp_all add: dft_shift)
  also have "\<dots> = dft n u k * dft n v k"
    by (simp add: dft_def [of n v] sum_distrib_left mult.commute mult.left_commute)
  finally show ?thesis by simp
qed

end
