(* ===== verification/Fft.thy ===== *)
theory Fft
  imports Dft
begin

text \<open>
  \<open>crates/daisy-dsp/src/fft.rs\<close>: the in-place complex FFT over planar arrays (a bit-reversal
  permutation, one radix-2 stage for odd powers of two, fused radix-4 stages) and the real
  transforms packed into it, with their assertions and their unchecked accesses (\<open>None\<close> is a panic
  or an access out of bounds). The arithmetic of the samples and the twiddle table that
  \<open>build.rs\<close> generates are a parameter, so that the same definitions run over 32-bit floats, over
  integers, and over the real numbers with an exact table; the last is the instance in which the
  network is proved to compute the discrete Fourier transform of \<open>Dft\<close>.
\<close>

section \<open>Arithmetic and twiddles\<close>

record 'f flops =
  fl_add :: "'f \<Rightarrow> 'f \<Rightarrow> 'f"
  fl_sub :: "'f \<Rightarrow> 'f \<Rightarrow> 'f"
  fl_mul :: "'f \<Rightarrow> 'f \<Rightarrow> 'f"
  fl_div :: "'f \<Rightarrow> 'f \<Rightarrow> 'f"
  fl_neg :: "'f \<Rightarrow> 'f"
  fl_nat :: "nat \<Rightarrow> 'f"
  fl_half :: 'f
  fl_clamp :: "'f \<Rightarrow> 'f \<Rightarrow> 'f \<Rightarrow> 'f"
  TW_COS :: "'f list"
  TW_SIN :: "'f list"

definition TW_MASTER :: nat where
  "TW_MASTER = 2048"

type_synonym 'f planar = "'f list \<times> 'f list"

definition tw :: "'f flops \<Rightarrow> nat \<Rightarrow> ('f \<times> 'f) option" where
  "tw F index = (let i = index AND (TW_MASTER - 1) in do {
     c \<leftarrow> idx_get (TW_COS F) i;
     s \<leftarrow> idx_get (TW_SIN F) i;
     Some (c, s)
   })"

definition cmul :: "'f flops \<Rightarrow> 'f \<Rightarrow> 'f \<Rightarrow> 'f \<Rightarrow> 'f \<Rightarrow> 'f \<times> 'f" where
  "cmul F ar ai br bi =
     (fl_sub F (fl_mul F ar br) (fl_mul F ai bi), fl_add F (fl_mul F ar bi) (fl_mul F ai br))"

section \<open>Bit reversal\<close>

text \<open>The reversed counter: carry from the top bit downwards.\<close>

function rev_carry :: "nat \<Rightarrow> nat \<Rightarrow> nat" where
  "rev_carry j bt =
     (if j AND bt \<noteq> 0 then rev_carry (j XOR bt) (drop_bit 1 bt) else j OR bt)"
  by pat_completeness auto
termination
proof (relation "measure snd")
  fix j b :: nat
  assume "j AND b \<noteq> 0"
  then have "b \<noteq> 0" by (intro notI) simp
  then show "((j XOR b, drop_bit 1 b), j, b) \<in> measure snd" by (cases "b = 0") (simp_all add: drop_bit_eq_div)
qed simp

declare rev_carry.simps [simp del]

definition swap_unchecked :: "nat \<Rightarrow> nat \<Rightarrow> 'f planar \<Rightarrow> 'f planar option" where
  "swap_unchecked i j = (\<lambda>(re, im). do {
     tr \<leftarrow> idx_get re i;
     ti \<leftarrow> idx_get im i;
     rj \<leftarrow> idx_get re j;
     re \<leftarrow> idx_set re i rj;
     ij \<leftarrow> idx_get im j;
     im \<leftarrow> idx_set im i ij;
     re \<leftarrow> idx_set re j tr;
     im \<leftarrow> idx_set im j ti;
     Some (re, im)
   })"

definition bit_reverse :: "nat \<Rightarrow> 'f planar \<Rightarrow> 'f planar option" where
  "bit_reverse n z =
     map_option snd (for_in (\<lambda>i (j, z).
       let j = rev_carry j (drop_bit 1 n) in
       if i < j then do { z \<leftarrow> swap_unchecked i j z; Some (j, z) }
       else Some (j, z)) [1..<n] (0, z))"

section \<open>The complex transform\<close>

definition radix2_butterfly :: "'f flops \<Rightarrow> nat \<Rightarrow> 'f planar \<Rightarrow> 'f planar option" where
  "radix2_butterfly F i = (\<lambda>(re, im). do {
     ar \<leftarrow> idx_get re i;
     ai \<leftarrow> idx_get im i;
     br \<leftarrow> idx_get re (i + 1);
     bi \<leftarrow> idx_get im (i + 1);
     re \<leftarrow> idx_set re i (fl_add F ar br);
     im \<leftarrow> idx_set im i (fl_add F ai bi);
     re \<leftarrow> idx_set re (i + 1) (fl_sub F ar br);
     im \<leftarrow> idx_set im (i + 1) (fl_sub F ai bi);
     Some (re, im)
   })"

definition radix4_butterfly :: "'f flops \<Rightarrow> nat \<Rightarrow> nat \<Rightarrow> nat \<Rightarrow> nat \<Rightarrow> nat \<Rightarrow> 'f planar \<Rightarrow> 'f planar option" where
  "radix4_butterfly F q stride_q stride_a base k = (\<lambda>(re, im).
     let p0 = base + k; p1 = p0 + q; p2 = p1 + q; p3 = p2 + q in do {
     (tqr, tqi) \<leftarrow> tw F (k * stride_q);
     (tar, tai) \<leftarrow> tw F (k * stride_a);
     r1 \<leftarrow> idx_get re p1;
     i1 \<leftarrow> idx_get im p1;
     let (b1r, b1i) = cmul F r1 i1 tqr tqi;
     r3 \<leftarrow> idx_get re p3;
     i3 \<leftarrow> idx_get im p3;
     let (d1r, d1i) = cmul F r3 i3 tqr tqi;
     x0r \<leftarrow> idx_get re p0;
     x0i \<leftarrow> idx_get im p0;
     x2r \<leftarrow> idx_get re p2;
     x2i \<leftarrow> idx_get im p2;
     let (u0r, u0i) = (fl_add F x0r b1r, fl_add F x0i b1i);
     let (u1r, u1i) = (fl_sub F x0r b1r, fl_sub F x0i b1i);
     let (u2r, u2i) = (fl_add F x2r d1r, fl_add F x2i d1i);
     let (u3r, u3i) = (fl_sub F x2r d1r, fl_sub F x2i d1i);
     let (c2r, c2i) = cmul F u2r u2i tar tai;
     let (e3r, e3i) = cmul F u3r u3i tar tai;
     re \<leftarrow> idx_set re p0 (fl_add F u0r c2r);
     im \<leftarrow> idx_set im p0 (fl_add F u0i c2i);
     re \<leftarrow> idx_set re p2 (fl_sub F u0r c2r);
     im \<leftarrow> idx_set im p2 (fl_sub F u0i c2i);
     re \<leftarrow> idx_set re p1 (fl_add F u1r e3i);
     im \<leftarrow> idx_set im p1 (fl_sub F u1i e3r);
     re \<leftarrow> idx_set re p3 (fl_sub F u1r e3i);
     im \<leftarrow> idx_set im p3 (fl_add F u1i e3r);
     Some (re, im)
   })"

definition radix4_stage :: "'f flops \<Rightarrow> nat \<Rightarrow> nat \<Rightarrow> 'f planar \<Rightarrow> 'f planar option" where
  "radix4_stage F q l =
     (let block = 4 * q; stride_q = TW_MASTER div (2 * q); stride_a = TW_MASTER div (4 * q) in
      step_loop (\<lambda>base. for_in (radix4_butterfly F q stride_q stride_a base) [0..<q]) l block 0)"

text \<open>\<open>while q < l { radix4_stage(re, im, q, l); q *= 4; }\<close>, from a \<open>q\<close> of 1 or 2.\<close>

function radix4_stages :: "'f flops \<Rightarrow> nat \<Rightarrow> nat \<Rightarrow> 'f planar \<Rightarrow> 'f planar option" where
  "radix4_stages F q l z =
     (if q < l \<and> 0 < q then
        case radix4_stage F q l z of None \<Rightarrow> None | Some z \<Rightarrow> radix4_stages F (q * 4) l z
      else Some z)"
  by pat_completeness auto
termination by (relation "measure (\<lambda>(_, q, l, _). l - q)") auto

declare radix4_stages.simps [simp del]

definition is_power_of_two :: "nat \<Rightarrow> bool" where
  "is_power_of_two n \<longleftrightarrow> 0 < n \<and> n AND (n - 1) = 0"

function trailing_zeros :: "nat \<Rightarrow> nat" where
  "trailing_zeros n = (if n = 0 then 32 else if odd n then 0 else Suc (trailing_zeros (n div 2)))"
  by pat_completeness auto
termination by (relation "measure id") auto

declare trailing_zeros.simps [simp del]

definition cfft_body :: "'f flops \<Rightarrow> bool \<Rightarrow> nat \<Rightarrow> 'f planar \<Rightarrow> 'f planar option" where
  "cfft_body F invr l = (\<lambda>(re, im).
     if l \<noteq> length im then None
     else if \<not> is_power_of_two l then None
     else if \<not> (l \<le> TW_MASTER div 2 \<or> l = TW_MASTER) then None
     else if l \<le> 1 then Some (re, im)
     else do {
       let im = (if invr then map (fl_neg F) im else im);
       z \<leftarrow> bit_reverse l (re, im);
       let m = trailing_zeros l;
       z \<leftarrow> (if m AND 1 = 1 then step_loop (radix2_butterfly F) l 2 0 z else Some z);
       let q = (if m AND 1 = 1 then 2 else 1);
       (re, im) \<leftarrow> radix4_stages F q l z;
       if invr then do {
         let s = fl_div F (fl_nat F 1) (fl_nat F l);
         Some (map (\<lambda>v. fl_mul F v s) re, map (\<lambda>v. fl_mul F (fl_neg F v) s) im)
       } else Some (re, im)
     })"

definition cfft_n :: "'f flops \<Rightarrow> nat \<Rightarrow> bool \<Rightarrow> 'f planar \<Rightarrow> 'f planar option" where
  "cfft_n F L invr z = (if length (fst z) \<noteq> L then None else cfft_body F invr L z)"

definition fft_in_place :: "'f flops \<Rightarrow> bool \<Rightarrow> 'f planar \<Rightarrow> 'f planar option" where
  "fft_in_place F invr z =
     (let l = length (fst z) in
      if l \<in> {128, 256, 512, 1024} then cfft_n F l invr z else cfft_body F invr l z)"

section \<open>The real transforms\<close>

definition split_bin :: "'f flops \<Rightarrow> 'f list \<Rightarrow> 'f list \<Rightarrow> nat \<Rightarrow> nat \<Rightarrow> nat \<Rightarrow> 'f planar \<Rightarrow> 'f planar option" where
  "split_bin F sre sim l stride_n k = (\<lambda>(out_re, out_im).
     let kl = if k = l then 0 else k; lk = if k = 0 then 0 else l - k in do {
     zr \<leftarrow> idx_get sre kl;
     zi \<leftarrow> idx_get sim kl;
     zr2 \<leftarrow> idx_get sre lk;
     zi2 \<leftarrow> idx_get sim lk;
     let xe_r = fl_mul F (fl_half F) (fl_add F zr zr2);
     let xe_i = fl_mul F (fl_half F) (fl_sub F zi zi2);
     let ar = fl_sub F zr zr2;
     let bi = fl_add F zi zi2;
     let xo_r = fl_mul F (fl_half F) bi;
     let xo_i = fl_mul F (fl_neg F (fl_half F)) ar;
     (wr, wi) \<leftarrow> tw F (k * stride_n);
     let (pr, pi) = cmul F xo_r xo_i wr wi;
     out_re \<leftarrow> idx_set out_re k (fl_add F xe_r pr);
     out_im \<leftarrow> idx_set out_im k (fl_add F xe_i pi);
     Some (out_re, out_im)
   })"

definition pack_sample :: "'f list \<Rightarrow> nat \<Rightarrow> 'f planar \<Rightarrow> 'f planar option" where
  "pack_sample input i = (\<lambda>(sre, sim). do {
     a \<leftarrow> idx_get input (2 * i);
     sre \<leftarrow> idx_set sre i a;
     b \<leftarrow> idx_get input (2 * i + 1);
     sim \<leftarrow> idx_set sim i b;
     Some (sre, sim)
   })"

definition real_forward :: "'f flops \<Rightarrow> 'f planar \<Rightarrow> 'f list \<Rightarrow> 'f planar \<Rightarrow> nat \<Rightarrow> ('f planar \<times> 'f planar) option" where
  "real_forward F scratch input out n =
     (let l = n div 2 in
      if length (fst scratch) \<noteq> l then None
      else if length input \<noteq> n then None
      else if length (fst out) \<noteq> l + 1 then None
      else if length (snd out) \<noteq> l + 1 then None
      else do {
        scratch \<leftarrow> for_in (pack_sample input) [0..<l] scratch;
        (sre, sim) \<leftarrow> fft_in_place F False scratch;
        stride_n \<leftarrow> (if n = 0 then None else Some (TW_MASTER div n));
        out \<leftarrow> for_in (split_bin F sre sim l stride_n) [0..<l + 1] out;
        Some ((sre, sim), out)
      })"

definition unsplit_bin :: "'f flops \<Rightarrow> 'f planar \<Rightarrow> nat \<Rightarrow> nat \<Rightarrow> nat \<Rightarrow> 'f planar \<Rightarrow> 'f planar option" where
  "unsplit_bin F bins l stride_n k = (\<lambda>(sre, sim).
     let lk = l - k in do {
     xr \<leftarrow> idx_get (fst bins) k;
     xi \<leftarrow> idx_get (snd bins) k;
     yr \<leftarrow> idx_get (fst bins) lk;
     yi' \<leftarrow> idx_get (snd bins) lk;
     let yi = fl_neg F yi';
     let xe_r = fl_mul F (fl_half F) (fl_add F xr yr);
     let xe_i = fl_mul F (fl_half F) (fl_add F xi yi);
     let t_r = fl_mul F (fl_half F) (fl_sub F xr yr);
     let t_i = fl_mul F (fl_half F) (fl_sub F xi yi);
     (wr, wi) \<leftarrow> tw F (k * stride_n);
     let (xo_r, xo_i) = cmul F t_r t_i wr (fl_neg F wi);
     sre \<leftarrow> idx_set sre k (fl_sub F xe_r xo_i);
     sim \<leftarrow> idx_set sim k (fl_add F xe_i xo_r);
     Some (sre, sim)
   })"

definition unpack_sample :: "'f planar \<Rightarrow> nat \<Rightarrow> 'f list \<Rightarrow> 'f list option" where
  "unpack_sample z i out = do {
     a \<leftarrow> idx_get (fst z) i;
     out \<leftarrow> idx_set out (2 * i) a;
     b \<leftarrow> idx_get (snd z) i;
     idx_set out (2 * i + 1) b
   }"

definition real_inverse :: "'f flops \<Rightarrow> 'f planar \<Rightarrow> 'f planar \<Rightarrow> 'f list \<Rightarrow> nat \<Rightarrow> ('f planar \<times> 'f list) option" where
  "real_inverse F scratch bins out n =
     (let l = n div 2 in
      if length (fst scratch) \<noteq> l then None
      else if length (fst bins) \<noteq> l + 1 then None
      else if length (snd bins) \<noteq> l + 1 then None
      else if length out \<noteq> n then None
      else do {
        stride_n \<leftarrow> (if n = 0 then None else Some (TW_MASTER div n));
        scratch \<leftarrow> for_in (unsplit_bin F bins l stride_n) [0..<l] scratch;
        scratch \<leftarrow> fft_in_place F True scratch;
        out \<leftarrow> for_in (unpack_sample scratch) [0..<l] out;
        Some (scratch, out)
      })"

text \<open>\<open>RealFft\<close>: the scratch it borrows fixes the size; \<open>new\<close> checks it.\<close>

definition RealFft_new :: "'f list \<Rightarrow> 'f list \<Rightarrow> 'f planar option" where
  "RealFft_new sre sim =
     (if length sre \<noteq> length sim then None
      else if \<not> is_power_of_two (length sre) then None
      else Some (sre, sim))"

definition RealFft_n :: "'f planar \<Rightarrow> nat" where
  "RealFft_n s = length (fst s) * 2"

definition RealFft_forward :: "'f flops \<Rightarrow> 'f planar \<Rightarrow> 'f list \<Rightarrow> 'f planar \<Rightarrow> ('f planar \<times> 'f planar) option" where
  "RealFft_forward F s input out = real_forward F s input out (RealFft_n s)"

definition RealFft_forward_n :: "'f flops \<Rightarrow> nat \<Rightarrow> 'f planar \<Rightarrow> 'f list \<Rightarrow> 'f planar \<Rightarrow> ('f planar \<times> 'f planar) option" where
  "RealFft_forward_n F N s input out = (if RealFft_n s \<noteq> N then None else real_forward F s input out N)"

definition RealFft_inverse :: "'f flops \<Rightarrow> 'f planar \<Rightarrow> 'f planar \<Rightarrow> 'f list \<Rightarrow> ('f planar \<times> 'f list) option" where
  "RealFft_inverse F s bins out = real_inverse F s bins out (RealFft_n s)"

definition RealFft_inverse_n :: "'f flops \<Rightarrow> nat \<Rightarrow> 'f planar \<Rightarrow> 'f planar \<Rightarrow> 'f list \<Rightarrow> ('f planar \<times> 'f list) option" where
  "RealFft_inverse_n F N s bins out = (if RealFft_n s \<noteq> N then None else real_inverse F s bins out N)"


section \<open>Bit reversal is an index permutation\<close>

lemma rev_carry_next: "i + 1 < 2 ^ m \<Longrightarrow> rev_carry (rev_bits m i) (drop_bit 1 (2 ^ m)) = rev_bits m (i + 1)"
proof (induction m arbitrary: i)
  case (Suc m)
  have top: "drop_bit 1 (2 ^ Suc m) = (2::nat) ^ m" by (simp add: drop_bit_eq_div)
  have odd: "rev_bits (Suc m) i AND 2 ^ m \<noteq> 0 \<longleftrightarrow> odd i"
    by (simp add: and_exp_eq_0_iff_not_bit bit_rev_bits bit_0 del: rev_bits.simps)
  show ?case
  proof (cases "even i")
    case True
    have "rev_bits (Suc m) i OR 2 ^ m = rev_bits (Suc m) (i + 1)"
    proof (rule bit_eqI)
      fix k
      show "bit (rev_bits (Suc m) i OR 2 ^ m) k \<longleftrightarrow> bit (rev_bits (Suc m) (i + 1)) k"
        using True even_bit_succ_iff [of i "m - k"]
        by (auto simp: bit_or_iff bit_rev_bits bit_exp_iff simp del: rev_bits.simps)
    qed
    then show ?thesis using odd True by (subst rev_carry.simps) (simp only: top, simp)
  next
    case False
    have "rev_bits (Suc m) i XOR 2 ^ m = rev_bits m (i div 2)"
    proof (rule bit_eqI)
      fix k
      show "bit (rev_bits (Suc m) i XOR 2 ^ m) k \<longleftrightarrow> bit (rev_bits m (i div 2)) k"
        using False by (auto simp: bit_xor_iff bit_rev_bits bit_exp_iff bit_0 bit_Suc [symmetric] Suc_diff_Suc
            simp del: rev_bits.simps)
    qed
    moreover have "rev_carry (rev_bits m (i div 2)) (drop_bit 1 (2 ^ m)) = rev_bits m (i div 2 + 1)"
      by (rule Suc.IH) (use Suc.prems False in \<open>auto elim!: oddE\<close>)
    moreover have "rev_bits (Suc m) (i + 1) = rev_bits m (i div 2 + 1)" using False by simp
    ultimately show ?thesis using odd False by (subst rev_carry.simps) (simp only: top, simp del: rev_bits.simps)
  qed
qed simp

definition swapped :: "nat \<Rightarrow> nat \<Rightarrow> 'f list \<Rightarrow> nat \<Rightarrow> 'f" where
  "swapped m i xs p = (if min p (rev_bits m p) < i then xs ! rev_bits m p else xs ! p)"

lemma bit_reverse_ok:
  assumes "length re = 2 ^ m" "length im = 2 ^ m"
  shows "bit_reverse (2 ^ m) (re, im) =
    Some (map (\<lambda>p. re ! rev_bits m p) [0..<2 ^ m], map (\<lambda>p. im ! rev_bits m p) [0..<2 ^ m])"
proof -
  define I where "I = (\<lambda>i (j, z). j = rev_bits m (i - 1) \<and>
    z = (map (swapped m i re) [0..<2 ^ m], map (swapped m i im) [0..<2 ^ m]))"
  have zero: "rev_bits m 0 = 0" by (induction m) simp_all
  have fix0: "rev_bits m p = 0 \<longleftrightarrow> p = 0" if "p < 2 ^ m" for p
    using rev_bits_inj [of p m 0] that zero by simp
  have start: "I 1 (0, re, im)"
    using assms by (auto simp: zero I_def swapped_def fix0 less_Suc_eq_0_disj min_def intro!: nth_equalityI)
  define body where "body = (\<lambda>i (j, z).
       let j = rev_carry j (drop_bit 1 (2 ^ m)) in
       if i < j then do { z \<leftarrow> swap_unchecked i j z; Some (j, z) }
       else Some (j, z) :: (nat \<times> 'a list \<times> 'a list) option)"
  have step: "\<exists>s'. body i s = Some s' \<and> I (Suc i) s'" if i: "1 \<le> i" "i < 2 ^ m" and "I i s" for i s
  proof -
    define j where "j = rev_bits m i"
    have s: "s = (rev_bits m (i - 1), map (swapped m i re) [0..<2 ^ m], map (swapped m i im) [0..<2 ^ m])"
      using \<open>I i s\<close> by (auto simp: I_def split: prod.splits)
    have carry: "rev_carry (rev_bits m (i - 1)) (drop_bit 1 (2 ^ m)) = j"
      using rev_carry_next [of "i - 1" m] i by (simp add: j_def)
    have j: "j < 2 ^ m" "rev_bits m j = i" using i by (simp_all add: j_def rev_bits_less rev_bits_involution)
    have next_i: "swapped m (Suc i) xs p = (if i < j then ((map (swapped m i xs) [0..<2 ^ m])[i := xs ! j, j := xs ! i]) ! p
        else swapped m i xs p)" if "p < 2 ^ m" for xs :: "'a list" and p
    proof -
      have "rev_bits m p = i \<longleftrightarrow> p = j" "rev_bits m p = j \<longleftrightarrow> p = i"
        using rev_bits_inj [OF that j(1)] rev_bits_inj [OF that i(2)] j by (auto simp: j_def)
      then show ?thesis using that i j by (auto simp: swapped_def nth_list_update min_def j_def not_less less_Suc_eq)
    qed
    have here: "swapped m i xs i = xs ! i" "swapped m i xs j = xs ! j" if "i < j" for xs :: "'a list"
      using that j by (simp_all add: swapped_def j_def)
    show ?thesis
    proof (cases "i < j")
      case True
      have "map (swapped m (Suc i) xs) [0..<2 ^ m] = (map (swapped m i xs) [0..<2 ^ m])[i := xs ! j, j := xs ! i]"
        for xs :: "'a list"
        using True by (intro nth_equalityI) (auto simp: next_i)
      then show ?thesis using True i j(1) by (auto simp del: One_nat_def simp: s body_def Let_def carry I_def swap_unchecked_def here [unfolded j_def] j_def)
    next
      case False
      have "map (swapped m (Suc i) xs) [0..<2 ^ m] = map (swapped m i xs) [0..<2 ^ m]" for xs :: "'a list"
        using False by (intro nth_equalityI) (auto simp: next_i)
      then show ?thesis using False by (auto simp del: One_nat_def simp: s body_def Let_def carry I_def j_def)
    qed
  qed
  have "\<exists>s'. for_in body [1..<2 ^ m] (0, re, im) = Some s' \<and> I (2 ^ m) s'"
    by (rule for_in_upt [where I = I, OF start]) (simp, rule step)
  then obtain s' where s': "for_in body [1..<2 ^ m] (0, re, im) = Some s'" "I (2 ^ m) s'" by (elim exE conjE)
  have "snd s' = (map (\<lambda>p. re ! rev_bits m p) [0..<2 ^ m], map (\<lambda>p. im ! rev_bits m p) [0..<2 ^ m])"
    using s'(2) by (auto simp: I_def swapped_def min_def split: prod.splits)
  then show ?thesis using s'(1) unfolding bit_reverse_def body_def by simp
qed


section \<open>Memory safety for any arithmetic\<close>

definition planar_len :: "nat \<Rightarrow> 'f planar \<Rightarrow> bool" where
  "planar_len l z \<longleftrightarrow> length (fst z) = l \<and> length (snd z) = l"

definition tables_ok :: "'f flops \<Rightarrow> bool" where
  "tables_ok F \<longleftrightarrow> length (TW_COS F) = TW_MASTER \<and> length (TW_SIN F) = TW_MASTER"

lemma and_master: "k AND (TW_MASTER - 1) = k mod 2048"
proof -
  have "k AND (TW_MASTER - 1) = k AND mask 11" by (simp add: TW_MASTER_def mask_eq_exp_minus_1)
  then show ?thesis by (simp add: take_bit_eq_mask [symmetric] take_bit_eq_mod)
qed

lemma tw_total: "tables_ok F \<Longrightarrow> \<exists>c s. tw F k = Some (c, s)"
  unfolding tw_def and_master Let_def by (simp add: tables_ok_def TW_MASTER_def)

lemma is_power_of_two_pow [simp]: "is_power_of_two (2 ^ m)"
proof -
  have "(2::nat) ^ m AND mask m = 0" by (simp add: take_bit_eq_mask [symmetric])
  then show ?thesis by (simp add: is_power_of_two_def mask_eq_exp_minus_1)
qed

lemma is_power_of_two_iff: "is_power_of_two n \<longleftrightarrow> (\<exists>m. n = 2 ^ m)"
proof
  show "is_power_of_two n \<Longrightarrow> \<exists>m. n = 2 ^ m"
  proof (induction n rule: less_induct)
    case (less n)
    then have n: "0 < n" "n AND (n - 1) = 0" by (simp_all add: is_power_of_two_def)
    show ?case
    proof (cases "even n")
      case True
      then obtain k where k: "n = 2 * k" by (elim evenE)
      have "bit (k AND (k - 1)) i \<longleftrightarrow> bit (n AND (n - 1)) (Suc i)" for i
      proof -
        have "n div 2 = k" "(n - 1) div 2 = k - 1" using k n(1) by auto
        then show ?thesis unfolding bit_and_iff by (simp only: bit_Suc)
      qed
      then have "k AND (k - 1) = 0" using n(2) by (simp add: bit_eq_iff)
      then have "is_power_of_two k" using k n(1) by (simp add: is_power_of_two_def)
      then obtain m where "k = 2 ^ m" using less.IH [of k] k n(1) by auto
      then show ?thesis using k by (intro exI [of _ "Suc m"]) simp
    next
      case False
      have "bit (n AND (n - 1)) i \<longleftrightarrow> bit (n - 1) i" for i
      proof (cases i)
        case 0
        then show ?thesis unfolding 0 bit_and_iff using False by (simp add: bit_0)
      next
        case (Suc j)
        have "n div 2 = (n - 1) div 2" using False by (auto elim!: oddE)
        then show ?thesis unfolding Suc bit_and_iff by (simp only: bit_Suc conj_absorb)
      qed
      then have "n - 1 = n AND (n - 1)" by (simp add: bit_eq_iff)
      then have "n - 1 = 0" using n(2) by simp
      then have "n = 2 ^ 0" using n(1) by simp
      then show ?thesis by blast
    qed
  qed
qed auto

lemma trailing_zeros_pow [simp]: "trailing_zeros (2 ^ m) = m"
  by (induction m) (simp_all add: trailing_zeros.simps [of "2 * _"] trailing_zeros.simps [of "Suc 0"])

lemma radix4_butterfly_total:
  assumes "tables_ok F" "planar_len l z" "base + k + q + q + q < l"
  shows "\<exists>z'. radix4_butterfly F q sq sa base k z = Some z' \<and> planar_len l z'"
proof -
  obtain c1 s1 c2 s2 where "tw F (k * sq) = Some (c1, s1)" "tw F (k * sa) = Some (c2, s2)"
    using tw_total [OF assms(1)] by metis
  then show ?thesis using assms(2,3)
    by (cases z) (simp add: radix4_butterfly_def planar_len_def Let_def cmul_def)
qed

lemma radix4_stage_total:
  assumes F: "tables_ok F" and z: "planar_len l z" and q: "0 < q" "4 * q dvd l"
  shows "\<exists>z'. radix4_stage F q l z = Some z' \<and> planar_len l z'"
proof -
  have inner: "\<exists>z'. for_in (radix4_butterfly F q sq sa base) [0..<q] z = Some z' \<and> planar_len l z'"
    if "base + 4 * q \<le> l" "planar_len l z" for base sq sa z
    by (rule for_in_upt [where I = "\<lambda>_. planar_len l"], rule that(2), simp,
        rule radix4_butterfly_total [OF F]) (use that(1) in simp_all)
  show ?thesis unfolding radix4_stage_def Let_def
    by (rule step_loop_inv [where I = "\<lambda>_. planar_len l", OF z q(2)]) (use q(1) in simp, rule inner)
qed

lemma radix4_stages_total:
  assumes F: "tables_ok F" and "planar_len (2 ^ m) z" "s \<le> m" "even (m - s)"
  shows "\<exists>z'. radix4_stages F (2 ^ s) (2 ^ m) z = Some z' \<and> planar_len (2 ^ m) z'"
  using assms(2-4)
proof (induction "m - s" arbitrary: s z rule: less_induct)
  case less
  show ?case
  proof (cases "s = m")
    case True
    then show ?thesis using less.prems(1) by (simp add: radix4_stages.simps)
  next
    case False
    then have s2: "Suc (Suc s) \<le> m" using less.prems(2,3) by (cases "m = Suc s") auto
    have "2 ^ Suc (Suc s) dvd (2::nat) ^ m" by (rule le_imp_power_dvd [OF s2])
    then have d: "4 * 2 ^ s dvd (2::nat) ^ m" by simp
    obtain z1 where z1: "radix4_stage F (2 ^ s) (2 ^ m) z = Some z1" "planar_len (2 ^ m) z1"
      using radix4_stage_total [OF F less.prems(1) _ d] by (auto simp del: split_paired_Ex)
    have "\<exists>z'. radix4_stages F (2 ^ Suc (Suc s)) (2 ^ m) z1 = Some z' \<and> planar_len (2 ^ m) z'"
      by (rule less.hyps [OF _ z1(2) s2]) (use s2 less.prems(3) in auto)
    moreover have "(2::nat) ^ s < 2 ^ m" using s2 by simp
    ultimately show ?thesis by (subst radix4_stages.simps) (simp add: z1(1) mult.commute)
  qed
qed

lemma radix2_pass_total:
  assumes z: "planar_len l z" and l: "2 dvd l"
  shows "\<exists>z'. step_loop (radix2_butterfly F) l 2 0 z = Some z' \<and> planar_len l z'"
proof (rule step_loop_inv [where I = "\<lambda>_. planar_len l", OF z l])
  fix b and z :: "'a planar"
  assume "2 dvd b" "b + 2 \<le> l" "planar_len l z"
  then show "\<exists>z'. radix2_butterfly F b z = Some z' \<and> planar_len l z'"
    by (cases z) (simp add: radix2_butterfly_def planar_len_def)
qed simp

lemma pow_range: "(2::nat) ^ m \<le> 1024 \<or> 2 ^ m = (2048::nat) \<longleftrightarrow> m \<le> 11"
proof -
  have "(2::nat) ^ m \<le> 2 ^ 10 \<longleftrightarrow> m \<le> 10" by (rule power_increasing_iff) simp
  moreover have "(2::nat) ^ m = 2 ^ 11 \<longleftrightarrow> m = 11" by (rule power_inject_exp) simp
  ultimately show ?thesis by auto
qed

lemma cfft_body_total:
  assumes F: "tables_ok F" and len: "length re = 2 ^ m" "length im = 2 ^ m" and m: "m \<le> 11"
  shows "\<exists>z. cfft_body F invr (2 ^ m) (re, im) = Some z \<and> planar_len (2 ^ m) z"
proof (cases "m = 0")
  case True
  then show ?thesis using len is_power_of_two_pow [of 0] by (auto simp: cfft_body_def planar_len_def TW_MASTER_def)
next
  case False
  define im0 where "im0 = (if invr then map (fl_neg F) im else im)"
  have l0: "length im0 = 2 ^ m" using len by (simp add: im0_def)
  have odd: "m AND 1 = 1 \<longleftrightarrow> odd m" by (simp add: and_one_eq odd_iff_mod_2_eq_one)
  obtain z1 where z1: "bit_reverse (2 ^ m) (re, im0) = Some z1" "planar_len (2 ^ m) z1"
    using bit_reverse_ok [OF len(1) l0] by (auto simp: planar_len_def)
  have "2 dvd (2::nat) ^ m" using False by simp
  then have "\<exists>z2. (if m AND 1 = 1 then step_loop (radix2_butterfly F) (2 ^ m) 2 0 z1 else Some z1) = Some z2 \<and>
      planar_len (2 ^ m) z2"
    using radix2_pass_total [OF z1(2), of F] z1(2) by (simp del: split_paired_Ex)
  then obtain z2 where z2: "(if m AND 1 = 1 then step_loop (radix2_butterfly F) (2 ^ m) 2 0 z1 else Some z1) = Some z2"
    "planar_len (2 ^ m) z2"
    by (elim exE conjE)
  define s where "s = (if odd m then 1 else 0 :: nat)"
  have s: "(2::nat) ^ s = (if m AND 1 = 1 then 2 else 1)" by (simp add: s_def and_one_eq odd_iff_mod_2_eq_one)
  have "\<exists>z3. radix4_stages F (2 ^ s) (2 ^ m) z2 = Some z3 \<and> planar_len (2 ^ m) z3"
    by (rule radix4_stages_total [OF F z2(2)]) (use False in \<open>auto simp: s_def\<close>)
  then obtain z3 where z3: "radix4_stages F (if m AND 1 = 1 then 2 else 1) (2 ^ m) z2 = Some z3" "planar_len (2 ^ m) z3"
    unfolding s by (elim exE conjE)
  show ?thesis
    unfolding cfft_body_def using len pow_range m z1(1) z2(1) z3
    by (cases z3) (simp add: TW_MASTER_def im0_def [symmetric] planar_len_def Let_def)
qed

lemma fft_in_place_total_iff:
  assumes F: "tables_ok F"
  shows "fft_in_place F invr (re, im) \<noteq> None \<longleftrightarrow> (\<exists>m \<le> 11. length re = 2 ^ m \<and> length im = 2 ^ m)"
proof
  assume r: "fft_in_place F invr (re, im) \<noteq> None"
  have "cfft_body F invr (length re) (re, im) \<noteq> None"
    using r by (auto simp: fft_in_place_def cfft_n_def Let_def split: if_splits)
  then have "length re = length im" "is_power_of_two (length re)" "length re \<le> 1024 \<or> length re = 2048"
    unfolding cfft_body_def by (auto simp: TW_MASTER_def split: if_splits)
  then show "\<exists>m \<le> 11. length re = 2 ^ m \<and> length im = 2 ^ m"
    by (metis is_power_of_two_iff pow_range)
next
  assume "\<exists>m \<le> 11. length re = 2 ^ m \<and> length im = 2 ^ m"
  then obtain m where m: "m \<le> 11" "length re = 2 ^ m" "length im = 2 ^ m" by blast
  then show "fft_in_place F invr (re, im) \<noteq> None"
    using cfft_body_total [OF F m(2,3,1), of invr] by (auto simp: fft_in_place_def cfft_n_def Let_def)
qed

lemma fft_in_place_total:
  assumes "tables_ok F" "planar_len (2 ^ m) z" "m \<le> 11"
  shows "\<exists>z'. fft_in_place F invr z = Some z' \<and> planar_len (2 ^ m) z'"
  using cfft_body_total [OF assms(1) _ _ assms(3), of "fst z" "snd z" invr] assms(2)
  by (simp add: fft_in_place_def cfft_n_def Let_def planar_len_def)

lemma real_forward_total:
  assumes F: "tables_ok F" and m: "m \<le> 11" and len: "planar_len (2 ^ m) scratch" "length inp = 2 * 2 ^ m" "planar_len (2 ^ m + 1) ob"
  shows "\<exists>sc o'. real_forward F scratch inp ob (2 * 2 ^ m) = Some (sc, o') \<and> planar_len (2 ^ m) sc \<and> planar_len (2 ^ m + 1) o'"
proof -
  let ?l = "2 ^ m :: nat" and ?st = "TW_MASTER div (2 * 2 ^ m)"
  have "\<exists>z. for_in (pack_sample inp) [0..<?l] scratch = Some z \<and> planar_len ?l z"
  proof (rule for_in_upt [where I = "\<lambda>_. planar_len ?l", OF len(1)])
    fix i and z :: "'a planar"
    assume "i < ?l" "planar_len ?l z"
    then show "\<exists>z'. pack_sample inp i z = Some z' \<and> planar_len ?l z'"
      using len(2) by (cases z) (simp add: pack_sample_def planar_len_def)
  qed simp
  then obtain z where z: "for_in (pack_sample inp) [0..<?l] scratch = Some z" "planar_len ?l z" by (elim exE conjE)
  obtain z1 where z1: "fft_in_place F False z = Some z1" "planar_len ?l z1"
    using fft_in_place_total [OF F z(2) m, of False] by (elim exE conjE)
  obtain sre sim where ri: "z1 = (sre, sim)" by (cases z1)
  have "\<exists>o'. for_in (split_bin F sre sim ?l ?st) [0..<?l + 1] ob = Some o' \<and> planar_len (?l + 1) o'"
  proof (rule for_in_upt [where I = "\<lambda>_. planar_len (?l + 1)", OF len(3)])
    fix k and ob :: "'a planar"
    assume k: "k < ?l + 1" and ob: "planar_len (?l + 1) ob"
    obtain c s where "tw F (k * ?st) = Some (c, s)" using tw_total [OF F] by blast
    then show "\<exists>o'. split_bin F sre sim ?l ?st k ob = Some o' \<and> planar_len (?l + 1) o'"
      using k ob z1(2) by (cases ob) (auto simp: split_bin_def planar_len_def ri Let_def cmul_def)
  qed simp
  then obtain o' where o': "for_in (split_bin F sre sim ?l ?st) [0..<?l + 1] ob = Some o'" "planar_len (?l + 1) o'"
    by (elim exE conjE)
  have "real_forward F scratch inp ob (2 * ?l) = Some (z1, o')"
    using len z(1) z1(1) o'(1) by (simp add: real_forward_def planar_len_def ri Let_def)
  then show ?thesis using z1(2) o'(2) by blast
qed

text \<open>The unchecked accesses of the FFT are safe. Over any arithmetic and any table of the size the build
  script emits, a call returns exactly when the three assertions at its head hold: equal lengths, a power of
  two, and a length the table serves. No later access is out of bounds, for no data.\<close>

theorem fft_memory_safe:
  assumes "length (TW_COS F) = TW_MASTER" "length (TW_SIN F) = TW_MASTER"
  shows "(\<exists>re' im'. fft_in_place F invr (re, im) = Some (re', im') \<and> length re' = length re \<and> length im' = length re) \<longleftrightarrow>
    length re = length im \<and> is_power_of_two (length re) \<and> (length re \<le> TW_MASTER div 2 \<or> length re = TW_MASTER)"
    (is "?ret \<longleftrightarrow> ?ok")
proof
  have F: "tables_ok F" using assms by (simp add: tables_ok_def)
  show ?ok if ret: ?ret
  proof -
    have "fft_in_place F invr (re, im) \<noteq> None" using ret by (elim exE conjE) simp
    then obtain m where "m \<le> 11" "length re = 2 ^ m" "length im = 2 ^ m"
      using fft_in_place_total_iff [OF F] by blast
    then show ?thesis using pow_range [of m] by (simp add: TW_MASTER_def)
  qed
  show ?ret if ok: ?ok
  proof -
    obtain m where m: "length re = 2 ^ m" using ok unfolding is_power_of_two_iff by blast
    have "length re \<le> 1024 \<or> length re = 2048" using ok by (auto simp: TW_MASTER_def)
    then have "m \<le> 11" unfolding m by (simp only: pow_range)
    have "length im = 2 ^ m" using ok m by simp
    from cfft_body_total [OF F m this \<open>m \<le> 11\<close>, of invr] obtain z where
      z: "cfft_body F invr (length re) (re, im) = Some z" "planar_len (2 ^ m) z"
      unfolding m by (elim exE conjE)
    then have "fft_in_place F invr (re, im) = Some z"
      by (simp add: fft_in_place_def cfft_n_def Let_def)
    then show ?thesis using z(2) m by (cases z) (simp add: planar_len_def)
  qed
qed

lemma fft_memory_safe_witness:
  defines "F \<equiv> \<lparr>fl_add = (+), fl_sub = (-), fl_mul = (*), fl_div = (div), fl_neg = uminus, fl_nat = int,
    fl_half = 0, fl_clamp = (\<lambda>x lo hi. max lo (min hi x)), TW_COS = replicate TW_MASTER 1, TW_SIN = replicate TW_MASTER 0\<rparr>"
  shows "(\<exists>re im. fft_in_place F False (replicate 4 1, replicate 4 0) = Some (re, im) \<and> length re = 4 \<and> length im = 4) \<and>
    \<not> (\<exists>re im. fft_in_place F False (replicate 3 1, replicate 3 0) = Some (re, im) \<and> length re = 3 \<and> length im = 3)"
proof -
  have F: "length (TW_COS F) = TW_MASTER" "length (TW_SIN F) = TW_MASTER" by (simp_all add: F_def)
  have "is_power_of_two 4" using is_power_of_two_pow [of 2] by simp
  moreover have "\<not> is_power_of_two 3" by (simp add: is_power_of_two_def)
  ultimately show ?thesis
    using fft_memory_safe [OF F, of False "replicate 4 1" "replicate 4 0"] fft_memory_safe [OF F, of False "replicate 3 1" "replicate 3 0"]
    by (simp add: TW_MASTER_def)
qed

end
