(* ===== verification/Fft_Exact.thy ===== *)
theory Fft_Exact
  imports Fft
begin

text \<open>
  The FFT of \<open>Fft\<close> in exact arithmetic. Each fused radix-4 butterfly is two radix-2 stages of the
  decimation in time, so after the permutation and the stages the arrays hold the discrete Fourier
  transform; the inverse is the inverse transform; the real transforms are the transform of the real
  samples, bin by bin, and invert each other, for every size the twiddle table serves.
\<close>

section \<open>Exact arithmetic\<close>

text \<open>
  The real numbers, with the table \<open>build.rs\<close> computes before it rounds to \<open>f32\<close>:
  \<open>exp (- 2 pi j i / 2048)\<close>.
\<close>

definition exact :: "real flops" where
  "exact = \<lparr>fl_add = (+), fl_sub = (-), fl_mul = (*), fl_div = (/), fl_neg = uminus, fl_nat = real,
     fl_half = 1 / 2, fl_clamp = (\<lambda>x lo hi. max lo (min hi x)),
     TW_COS = map (\<lambda>i. cos (- 2 * pi * real i / 2048)) [0..<TW_MASTER],
     TW_SIN = map (\<lambda>i. sin (- 2 * pi * real i / 2048)) [0..<TW_MASTER]\<rparr>"

lemma exact_sel [simp]:
  "fl_add exact = (+)" "fl_sub exact = (-)" "fl_mul exact = (*)" "fl_div exact = (/)"
  "fl_neg exact = uminus" "fl_nat exact = real" "fl_half exact = 1 / 2" "fl_clamp exact x lo hi = max lo (min hi x)"
  by (simp_all add: exact_def)


section \<open>The exact network\<close>

definition cx :: "real planar \<Rightarrow> nat \<Rightarrow> complex" where
  "cx z p = Complex (fst z ! p) (snd z ! p)"

lemma tw_exact: "tw exact k = Some (Re (wn 2048 k), Im (wn 2048 k))"
proof -
  have "k mod 2048 < 2048" by simp
  then have "tw exact k = Some (Re (wn 2048 (k mod 2048)), Im (wn 2048 (k mod 2048)))"
    unfolding tw_def and_master Let_def by (simp add: exact_def TW_MASTER_def wn_def)
  then show ?thesis by (simp add: wn_mod)
qed

lemma cmul_exact: "cmul exact (Re a) (Im a) (Re b) (Im b) = (Re (a * b), Im (a * b))"
  by (simp add: cmul_def)

lemma radix4_butterfly_ok:
  assumes len: "length re = l" "length im = l" and b: "base + k + q + q + q < l" and q: "0 < q"
    and tq: "tq = wn 2048 (k * sq)" and ta: "ta = wn 2048 (k * sa)"
  obtains re' im' where "radix4_butterfly exact q sq sa base k (re, im) = Some (re', im')"
    "length re' = l" "length im' = l"
    "\<forall>p<l. cx (re', im') p =
       (let z = cx (re, im); p0 = base + k; p1 = p0 + q; p2 = p1 + q; p3 = p2 + q;
            u0 = z p0 + tq * z p1; u1 = z p0 - tq * z p1; u2 = z p2 + tq * z p3; u3 = z p2 - tq * z p3 in
        if p = p0 then u0 + ta * u2 else if p = p1 then u1 - \<i> * (ta * u3)
        else if p = p2 then u0 - ta * u2 else if p = p3 then u1 + \<i> * (ta * u3) else z p)"
proof -
  let ?z = "cx (re, im)" and ?p0 = "base + k" and ?p1 = "base + k + q" and ?p2 = "base + k + q + q" and ?p3 = "base + k + q + q + q"
  let ?b = "?z ?p1 * tq" and ?d = "?z ?p3 * tq"
  let ?u0 = "?z ?p0 + ?b" and ?u1 = "?z ?p0 - ?b" and ?u2 = "?z ?p2 + ?d" and ?u3 = "?z ?p2 - ?d"
  let ?c = "?u2 * ta" and ?e = "?u3 * ta"
  define re' where "re' = re[?p0 := Re (?u0 + ?c), ?p2 := Re (?u0 - ?c), ?p1 := Re ?u1 + Im ?e, ?p3 := Re ?u1 - Im ?e]"
  define im' where "im' = im[?p0 := Im (?u0 + ?c), ?p2 := Im (?u0 - ?c), ?p1 := Im ?u1 - Re ?e, ?p3 := Im ?u1 + Re ?e]"
  have bs: "?p0 < l" "?p1 < l" "?p2 < l" "?p3 < l" using b by simp_all
  have z: "re ! p = Re (?z p)" "im ! p = Im (?z p)" for p by (simp_all add: cx_def)
  have "radix4_butterfly exact q sq sa base k (re, im) = Some (re', im')"
    unfolding radix4_butterfly_def re'_def im'_def
    by (simp add: tw_exact tq [symmetric] ta [symmetric] Let_def len bs cx_def cmul_def)
  moreover have "length re' = l" "length im' = l" by (simp_all add: re'_def im'_def len)
  moreover have new: "cx (re', im') p =
       (let z = cx (re, im); p0 = base + k; p1 = p0 + q; p2 = p1 + q; p3 = p2 + q;
            u0 = z p0 + tq * z p1; u1 = z p0 - tq * z p1; u2 = z p2 + tq * z p3; u3 = z p2 - tq * z p3 in
        if p = p0 then u0 + ta * u2 else if p = p1 then u1 - \<i> * (ta * u3)
        else if p = p2 then u0 - ta * u2 else if p = p3 then u1 + \<i> * (ta * u3) else z p)"
    if "p < l" for p
  proof -
    have old: "re ! p = Re (?z p)" "im ! p = Im (?z p)" by (simp_all add: cx_def)
    have new: "cx (re', im') p = (if p = ?p0 then ?u0 + ?c else if p = ?p1 then ?u1 - \<i> * ?e
        else if p = ?p2 then ?u0 - ?c else if p = ?p3 then ?u1 + \<i> * ?e else ?z p)"
      using q that bs unfolding cx_def [of "(re', im')"] fst_conv snd_conv
      unfolding re'_def im'_def
      by (simp add: nth_list_update len old complex_eq_iff)
    show ?thesis unfolding Let_def new by (simp only: mult.commute)
  qed
  ultimately show thesis using that by blast
qed


lemma radix4_is_radix2:
  assumes k: "k < q" and b: "4 * q dvd base"
  shows "radix2 (2 * q) (radix2 q z) (base + k) =
      (z (base + k) + wn (2 * q) k * z (base + k + q)) + wn (4 * q) k * (z (base + k + q + q) + wn (2 * q) k * z (base + k + q + q + q))"
    "radix2 (2 * q) (radix2 q z) (base + k + q) =
      (z (base + k) - wn (2 * q) k * z (base + k + q)) - \<i> * (wn (4 * q) k * (z (base + k + q + q) - wn (2 * q) k * z (base + k + q + q + q)))"
    "radix2 (2 * q) (radix2 q z) (base + k + q + q) =
      (z (base + k) + wn (2 * q) k * z (base + k + q)) - wn (4 * q) k * (z (base + k + q + q) + wn (2 * q) k * z (base + k + q + q + q))"
    "radix2 (2 * q) (radix2 q z) (base + k + q + q + q) =
      (z (base + k) - wn (2 * q) k * z (base + k + q)) + \<i> * (wn (4 * q) k * (z (base + k + q + q) - wn (2 * q) k * z (base + k + q + q + q)))"
proof -
  have q: "0 < q" "k < 2 * q" "k + q < 2 * q" using k by simp_all
  have d4: "2 * (2 * q) dvd base" using b by simp
  have d2: "2 * q dvd base" using b by (rule dvd_trans [rotated]) simp
  have d2': "2 * q dvd base + 2 * q" using d2 by simp
  have w: "wn (2 * (2 * q)) (k + q) = - \<i> * wn (4 * q) k"
    using wn_quarter [OF q(1)] by (simp add: wn_add)
  note y = radix2_lo [OF k d2, of z] radix2_hi [OF k d2, of z] radix2_lo [OF k d2', of z] radix2_hi [OF k d2', of z]
  note t = radix2_lo [OF q(2) d4, of "radix2 q z"] radix2_hi [OF q(2) d4, of "radix2 q z"]
    radix2_lo [OF q(3) d4, of "radix2 q z"] radix2_hi [OF q(3) d4, of "radix2 q z"]
  have a: "base + k + 2 * q = base + 2 * q + k" "base + (k + q) = base + k + q" "base + (k + q) + 2 * q = base + 2 * q + k + q"
    "base + k + q + q = base + 2 * q + k" "base + k + q + q + q = base + 2 * q + k + q"
    by simp_all
  show "radix2 (2 * q) (radix2 q z) (base + k) =
      (z (base + k) + wn (2 * q) k * z (base + k + q)) + wn (4 * q) k * (z (base + k + q + q) + wn (2 * q) k * z (base + k + q + q + q))"
    using t(1) y unfolding a by simp
  show "radix2 (2 * q) (radix2 q z) (base + k + q + q) =
      (z (base + k) + wn (2 * q) k * z (base + k + q)) - wn (4 * q) k * (z (base + k + q + q) + wn (2 * q) k * z (base + k + q + q + q))"
    using t(2) y unfolding a by simp
  show "radix2 (2 * q) (radix2 q z) (base + k + q) =
      (z (base + k) - wn (2 * q) k * z (base + k + q)) - \<i> * (wn (4 * q) k * (z (base + k + q + q) - wn (2 * q) k * z (base + k + q + q + q)))"
    using t(3) y w unfolding a by (simp add: mult.assoc)
  show "radix2 (2 * q) (radix2 q z) (base + k + q + q + q) =
      (z (base + k) - wn (2 * q) k * z (base + k + q)) + \<i> * (wn (4 * q) k * (z (base + k + q + q) - wn (2 * q) k * z (base + k + q + q + q)))"
    using t(4) y w unfolding a by (simp add: mult.assoc)
qed


definition holds :: "nat \<Rightarrow> (nat \<Rightarrow> complex) \<Rightarrow> real planar \<Rightarrow> bool" where
  "holds l w z \<longleftrightarrow> length (fst z) = l \<and> length (snd z) = l \<and> (\<forall>p<l. cx z p = w p)"

lemma holds_self: "length re = l \<Longrightarrow> length im = l \<Longrightarrow> holds l (cx (re, im)) (re, im)"
  by (simp add: holds_def)

lemma holds_cong: "(\<And>p. p < l \<Longrightarrow> w p = w' p) \<Longrightarrow> holds l w z \<longleftrightarrow> holds l w' z"
  by (simp add: holds_def)

lemma residue_cases:
  assumes "(d::nat) < 4 * q" "k < q"
  shows "d mod q = k \<longleftrightarrow> d = k \<or> d = k + q \<or> d = k + q + q \<or> d = k + q + q + q"
proof
  assume m: "d mod q = k"
  have "d div q < 4" using assms by (simp add: less_mult_imp_div_less)
  then have "d div q = 0 \<or> d div q = 1 \<or> d div q = 2 \<or> d div q = 3" by arith
  then show "d = k \<or> d = k + q \<or> d = k + q + q \<or> d = k + q + q + q"
    using m div_mult_mod_eq [of d q] by auto
qed (use assms in auto)

lemma radix4_stage_ok:
  assumes z: "holds l w z" and q: "0 < q" "4 * q dvd l" "4 * q dvd 2048"
  obtains z' where "radix4_stage exact q l z = Some z'" "holds l (radix2 (2 * q) (radix2 q w)) z'"
proof -
  define T where "T = radix2 (2 * q) (radix2 q w)"
  define mix where "mix = (\<lambda>base k p. if p < base \<or> p < base + 4 * q \<and> (p - base) mod q < k then T p else w p)"
  let ?sq = "TW_MASTER div (2 * q)" and ?sa = "TW_MASTER div (4 * q)"
  obtain d where d: "2048 = 4 * q * d" using q(3) by (rule dvdE)
  have s: "?sq = 2 * d" "?sa = d"
    unfolding TW_MASTER_def d using q(1) by simp_all
  have dq: "2 * d * (2 * q) = 2048" "d * (4 * q) = 2048" "0 < d" using d by (auto intro: gr0I)
  have wq: "wn 2048 (k * ?sq) = wn (2 * q) k" and wa: "wn 2048 (k * ?sa) = wn (4 * q) k" for k
    using wn_scale [of "2 * d" "2 * q" k] wn_scale [of d "4 * q" k] dq(3) unfolding s dq(1,2)
    by (simp_all add: mult.commute)
  have inner: "\<exists>z'. radix4_butterfly exact q ?sq ?sa base k z = Some z' \<and> holds l (mix base (Suc k)) z'"
    if base: "4 * q dvd base" "base + 4 * q \<le> l" and k: "k < q" and z: "holds l (mix base k) z" for base k z
  proof -
    obtain re im where ri: "z = (re, im)" by (cases z)
    have len: "length re = l" "length im = l" and old: "\<And>p. p < l \<Longrightarrow> cx (re, im) p = mix base k p"
      using z ri by (auto simp: holds_def)
    have top: "base + k + q + q + q < l" using base(2) k by simp
    obtain re' im' where bf: "radix4_butterfly exact q ?sq ?sa base k (re, im) = Some (re', im')"
      "length re' = l" "length im' = l"
      and new: "\<forall>p<l. cx (re', im') p =
       (let z = cx (re, im); p0 = base + k; p1 = p0 + q; p2 = p1 + q; p3 = p2 + q;
            u0 = z p0 + wn (2 * q) k * z p1; u1 = z p0 - wn (2 * q) k * z p1;
            u2 = z p2 + wn (2 * q) k * z p3; u3 = z p2 - wn (2 * q) k * z p3 in
        if p = p0 then u0 + wn (4 * q) k * u2 else if p = p1 then u1 - \<i> * (wn (4 * q) k * u3)
        else if p = p2 then u0 - wn (4 * q) k * u2 else if p = p3 then u1 + \<i> * (wn (4 * q) k * u3) else z p)"
      by (rule radix4_butterfly_ok [OF len top q(1) wq [symmetric] wa [symmetric]])
    have read: "cx (re, im) (base + k) = w (base + k)" "cx (re, im) (base + k + q) = w (base + k + q)"
      "cx (re, im) (base + k + q + q) = w (base + k + q + q)" "cx (re, im) (base + k + q + q + q) = w (base + k + q + q + q)"
      using top k residue_cases [of "k + q + q" q k] residue_cases [of "k + q + q + q" q k]
      by (simp_all add: old mix_def add.assoc)
    have "cx (re', im') p = mix base (Suc k) p" if p: "p < l" for p
    proof (cases "base \<le> p \<and> p < base + 4 * q \<and> (p - base) mod q = k")
      case True
      then have "p - base = k \<or> p - base = k + q \<or> p - base = k + q + q \<or> p - base = k + q + q + q"
        using residue_cases [of "p - base" q k] k by linarith
      then have "p = base + k \<or> p = base + k + q \<or> p = base + k + q + q \<or> p = base + k + q + q + q"
        using True by linarith
      then have "cx (re', im') p = T p"
        using radix4_is_radix2 [OF k base(1), of w] q(1) new [rule_format, OF p, unfolded Let_def read]
        by (elim disjE) (simp_all add: T_def)
      then show ?thesis using True by (simp add: mix_def)
    next
      case False
      have ne: "p \<noteq> base + k" "p \<noteq> base + k + q" "p \<noteq> base + k + q + q" "p \<noteq> base + k + q + q + q"
        using False k residue_cases [of "p - base" q k] by auto
      then have "cx (re', im') p = mix base k p" by (simp add: new [rule_format, OF p] old [OF p] Let_def)
      then show ?thesis using False by (auto simp: mix_def less_Suc_eq)
    qed
    then show ?thesis using bf ri by (simp add: holds_def)
  qed
  have outer: "\<exists>z'. for_in (radix4_butterfly exact q ?sq ?sa base) [0..<q] z = Some z' \<and> holds l (mix (base + 4 * q) 0) z'"
    if base: "4 * q dvd base" "base + 4 * q \<le> l" and z: "holds l (mix base 0) z" for base z
  proof -
    have "\<exists>z'. for_in (radix4_butterfly exact q ?sq ?sa base) [0..<q] z = Some z' \<and> holds l (mix base q) z'"
      by (rule for_in_upt [where I = "\<lambda>k. holds l (mix base k)", OF z]) (simp, rule inner [OF base])
    moreover have "mix base q = mix (base + 4 * q) 0"
      using q(1) by (auto simp: mix_def fun_eq_iff)
    ultimately show ?thesis by simp
  qed
  have start: "holds l (mix 0 0) z" using z by (simp add: holds_def mix_def)
  have "\<exists>z'. step_loop (\<lambda>base. for_in (radix4_butterfly exact q ?sq ?sa base) [0..<q]) l (4 * q) 0 z = Some z' \<and>
    holds l (mix l 0) z'"
    by (rule step_loop_inv [where I = "\<lambda>base. holds l (mix base 0)", OF start q(2)]) (use q(1) in simp, rule outer)
  then obtain z' where z': "step_loop (\<lambda>base. for_in (radix4_butterfly exact q ?sq ?sa base) [0..<q]) l (4 * q) 0 z = Some z'"
    "holds l (mix l 0) z'" by (elim exE conjE)
  have "holds l T z'" using z'(2) by (simp add: holds_def mix_def)
  then show thesis using that z'(1) by (simp add: radix4_stage_def Let_def T_def)
qed

lemma radix2_pass_ok:
  assumes z: "holds l w z" and l: "2 dvd l"
  obtains z' where "step_loop (radix2_butterfly exact) l 2 0 z = Some z'" "holds l (radix2 1 w) z'"
proof -
  define mix where "mix = (\<lambda>b p. if p < b then radix2 1 w p else w p)"
  have step: "\<exists>z'. radix2_butterfly exact b z = Some z' \<and> holds l (mix (b + 2)) z'"
    if b: "2 dvd b" "b + 2 \<le> l" and z: "holds l (mix b) z" for b z
  proof -
    obtain re im where ri: "z = (re, im)" by (cases z)
    have len: "length re = l" "length im = l" and old: "\<And>p. p < l \<Longrightarrow> Complex (re ! p) (im ! p) = mix b p"
      using z ri by (auto simp: holds_def cx_def)
    have T: "radix2 1 w b = w b + w (b + 1)" "radix2 1 w (b + 1) = w b - w (b + 1)"
      using radix2_lo [of 0 1 b w] radix2_hi [of 0 1 b w] b(1) by simp_all
    have rd [symmetric]: "w b = Complex (re ! b) (im ! b)" "w (b + 1) = Complex (re ! (b + 1)) (im ! (b + 1))"
      using old [of b] old [of "b + 1"] b(2) by (simp_all add: mix_def)
    have T': "radix2 1 w b = Complex (re ! b) (im ! b) + Complex (re ! (b + 1)) (im ! (b + 1))"
      "radix2 1 w (b + 1) = Complex (re ! b) (im ! b) - Complex (re ! (b + 1)) (im ! (b + 1))"
      unfolding T rd by simp_all
    define re' where "re' = re[b := re ! b + re ! (b + 1), b + 1 := re ! b - re ! (b + 1)]"
    define im' where "im' = im[b := im ! b + im ! (b + 1), b + 1 := im ! b - im ! (b + 1)]"
    have "radix2_butterfly exact b z = Some (re', im')"
      using b(2) by (simp add: radix2_butterfly_def ri len re'_def im'_def)
    moreover have "cx (re', im') p = mix (b + 2) p" if p: "p < l" for p
    proof -
      consider "p < b" | "p = b" | "p = b + 1" | "b + 2 \<le> p" by linarith
      then show ?thesis
      proof cases
        case 1
        then show ?thesis using old [OF p] len by (simp add: cx_def re'_def im'_def mix_def)
      next
        case 4
        then show ?thesis using old [OF p] len by (simp add: cx_def re'_def im'_def mix_def)
      qed (use p len T' in \<open>simp_all add: cx_def re'_def im'_def mix_def complex_eq_iff\<close>)
    qed
    ultimately show ?thesis by (simp add: holds_def len re'_def im'_def)
  qed
  have start: "holds l (mix 0) z" using z by (simp add: holds_def mix_def)
  have "\<exists>z'. step_loop (radix2_butterfly exact) l 2 0 z = Some z' \<and> holds l (mix l) z'"
    by (rule step_loop_inv [where I = "\<lambda>b. holds l (mix b)", OF start l]) (simp, rule step)
  then obtain z' where z': "step_loop (radix2_butterfly exact) l 2 0 z = Some z'" "holds l (mix l) z'" by (elim exE conjE)
  have "holds l (radix2 1 w) z'" using z'(2) by (simp add: holds_def mix_def)
  then show thesis using that z'(1) by simp
qed


lemma radix4_stages_ok:
  assumes "holds (2 ^ m) (stage m x s) z" "s \<le> m" "even (m - s)" "m \<le> 11"
  shows "\<exists>z'. radix4_stages exact (2 ^ s) (2 ^ m) z = Some z' \<and> holds (2 ^ m) (stage m x m) z'"
  using assms(1-3)
proof (induction "m - s" arbitrary: s z rule: less_induct)
  case less
  show ?case
  proof (cases "s = m")
    case True
    then show ?thesis using less.prems(1) by (simp add: radix4_stages.simps)
  next
    case False
    then have s2: "Suc (Suc s) \<le> m" using less.prems(2,3) by (cases "m = Suc s") auto
    have q4: "4 * 2 ^ s = (2::nat) ^ Suc (Suc s)" by simp
    have d: "4 * 2 ^ s dvd (2::nat) ^ m" unfolding q4 by (rule le_imp_power_dvd [OF s2])
    have "2 ^ Suc (Suc s) dvd (2::nat) ^ 11" by (rule le_imp_power_dvd) (use s2 assms(4) in simp)
    then have dm: "4 * 2 ^ s dvd (2048::nat)" by simp
    obtain z1 where z1: "radix4_stage exact (2 ^ s) (2 ^ m) z = Some z1"
      "holds (2 ^ m) (radix2 (2 * 2 ^ s) (radix2 (2 ^ s) (stage m x s))) z1"
      by (rule radix4_stage_ok [OF less.prems(1) _ d dm]) simp
    have "radix2 (2 ^ s) (stage m x s) = stage m x (Suc s)"
      using radix2_stage [of s m x] s2 by (simp add: fun_eq_iff)
    moreover have "radix2 (2 * 2 ^ s) (stage m x (Suc s)) = stage m x (Suc (Suc s))"
      using radix2_stage [of "Suc s" m x] s2 by (simp add: fun_eq_iff)
    ultimately have h1: "holds (2 ^ m) (stage m x (Suc (Suc s))) z1" using z1(2) by simp
    have "\<exists>z'. radix4_stages exact (2 ^ Suc (Suc s)) (2 ^ m) z1 = Some z' \<and> holds (2 ^ m) (stage m x m) z'"
      by (rule less.hyps [OF _ h1 s2]) (use s2 less.prems(3) in auto)
    moreover have "(2::nat) ^ s < 2 ^ m" using s2 by simp
    ultimately show ?thesis by (subst radix4_stages.simps) (simp add: z1(1) mult.commute)
  qed
qed

definition transform :: "bool \<Rightarrow> nat \<Rightarrow> (nat \<Rightarrow> complex) \<Rightarrow> nat \<Rightarrow> complex" where
  "transform invr n x = (if invr then idft n x else dft n x)"

lemma network_ok:
  assumes len: "length re = 2 ^ m" "length im = 2 ^ m" and m: "m \<le> 11" "0 < m"
  shows "\<exists>z1 z2 z3. bit_reverse (2 ^ m) (re, im) = Some z1 \<and>
    (if m AND 1 = 1 then step_loop (radix2_butterfly exact) (2 ^ m) 2 0 z1 else Some z1) = Some z2 \<and>
    radix4_stages exact (if m AND 1 = 1 then 2 else 1) (2 ^ m) z2 = Some z3 \<and>
    holds (2 ^ m) (dft (2 ^ m) (cx (re, im))) z3"
proof -
  let ?x = "cx (re, im)"
  define z1 where "z1 = (map (\<lambda>p. re ! rev_bits m p) [0..<2 ^ m], map (\<lambda>p. im ! rev_bits m p) [0..<2 ^ m])"
  have h1: "holds (2 ^ m) (stage m ?x 0) z1"
    by (simp add: holds_def z1_def cx_def stage_0)
  have odd: "m AND 1 = 1 \<longleftrightarrow> odd m" by (simp add: and_one_eq odd_iff_mod_2_eq_one)
  define s where "s = (if odd m then 1 else 0 :: nat)"
  have "\<exists>z2. (if m AND 1 = 1 then step_loop (radix2_butterfly exact) (2 ^ m) 2 0 z1 else Some z1) = Some z2 \<and>
      holds (2 ^ m) (stage m ?x s) z2"
  proof (cases "odd m")
    case True
    obtain z2 where "step_loop (radix2_butterfly exact) (2 ^ m) 2 0 z1 = Some z2" "holds (2 ^ m) (radix2 1 (stage m ?x 0)) z2"
      by (rule radix2_pass_ok [OF h1]) (use m in simp)
    moreover have "radix2 1 (stage m ?x 0) = stage m ?x 1"
      using radix2_stage [of 0 m ?x] m by (simp add: fun_eq_iff)
    ultimately show ?thesis using True by (intro exI [of _ z2]) (simp add: odd s_def odd_iff_mod_2_eq_one)
  next
    case False
    then show ?thesis using h1 by (intro exI [of _ z1]) (simp add: odd s_def)
  qed
  then obtain z2 where z2: "(if m AND 1 = 1 then step_loop (radix2_butterfly exact) (2 ^ m) 2 0 z1 else Some z1) = Some z2"
    "holds (2 ^ m) (stage m ?x s) z2" by (elim exE conjE)
  have "\<exists>z3. radix4_stages exact (2 ^ s) (2 ^ m) z2 = Some z3 \<and> holds (2 ^ m) (stage m ?x m) z3"
    by (rule radix4_stages_ok [OF z2(2) _ _ m(1)]) (use m in \<open>auto simp: s_def\<close>)
  then obtain z3 where z3: "radix4_stages exact (2 ^ s) (2 ^ m) z2 = Some z3" "holds (2 ^ m) (stage m ?x m) z3"
    by (elim exE conjE)
  have "2 ^ s = (if m AND 1 = 1 then 2 else 1 :: nat)"
    by (simp add: s_def and_one_eq odd_iff_mod_2_eq_one)
  note q = z3(1) [unfolded this]
  have h: "holds (2 ^ m) (dft (2 ^ m) ?x) z3" using z3(2) by (simp add: holds_def stage_all)
  show ?thesis
    by (intro exI conjI, rule bit_reverse_ok [OF len, folded z1_def], rule z2(1), rule q, rule h)
qed

lemma cfft_body_ok:
  assumes len: "length re = 2 ^ m" "length im = 2 ^ m" and m: "m \<le> 11"
  shows "\<exists>z. cfft_body exact invr (2 ^ m) (re, im) = Some z \<and> holds (2 ^ m) (transform invr (2 ^ m) (cx (re, im))) z"
proof (cases "m = 0")
  case True
  then show ?thesis using len
    by (auto simp: cfft_body_def transform_def holds_def idft_def dft_def TW_MASTER_def
      is_power_of_two_pow [of 0, simplified])
next
  case False
  have pw: "2 ^ m \<le> (1024::nat) \<or> 2 ^ m = (2048::nat)"
  proof (cases "m \<le> 10")
    case True
    then have "(2::nat) ^ m \<le> 2 ^ 10" by (rule power_increasing) simp
    then show ?thesis by simp
  next
    case False
    then have "m = 11" using m by simp
    then show ?thesis by simp
  qed
  have big: "\<not> 2 ^ m \<le> (1::nat)" using False one_less_power [of "2::nat" m] by linarith
  define im0 where "im0 = (if invr then map uminus im else im)"
  have l0: "length im0 = 2 ^ m" using len by (simp add: im0_def)
  obtain z1 z2 re3 im3 where net: "bit_reverse (2 ^ m) (re, im0) = Some z1"
    "(if m AND 1 = 1 then step_loop (radix2_butterfly exact) (2 ^ m) 2 0 z1 else Some z1) = Some z2"
    "radix4_stages exact (if m AND 1 = 1 then 2 else 1) (2 ^ m) z2 = Some (re3, im3)"
    "holds (2 ^ m) (dft (2 ^ m) (cx (re, im0))) (re3, im3)"
    using network_ok [OF len(1) l0 m] False by force
  define out where "out = (if invr then (map (\<lambda>v. v * (1 / real (2 ^ m))) re3, map (\<lambda>v. - v * (1 / real (2 ^ m))) im3) else (re3, im3))"
  have run: "cfft_body exact invr (2 ^ m) (re, im) = Some out"
    unfolding cfft_body_def using len pw big net(1-3)
    by (simp add: TW_MASTER_def im0_def [symmetric] out_def del: if_split cong: if_cong split del: if_split) (simp add: out_def)
  have "holds (2 ^ m) (transform invr (2 ^ m) (cx (re, im))) out"
  proof (cases invr)
    case True
    have c: "cx (re, im0) p = cnj (cx (re, im) p)" if "p < 2 ^ m" for p
      using that len True by (simp add: cx_def im0_def complex_eq_iff)
    have "cx out p = idft (2 ^ m) (cx (re, im)) p" if p: "p < 2 ^ m" for p
    proof -
      have l3: "length re3 = 2 ^ m" "length im3 = 2 ^ m" using net(4) by (simp_all add: holds_def)
      have "cx out p = cnj (cx (re3, im3) p) / of_nat (2 ^ m)"
        using p l3 True by (simp add: cx_def out_def complex_eq_iff)
      also have "cx (re3, im3) p = dft (2 ^ m) (\<lambda>k. cnj (cx (re, im) k)) p"
        using net(4) p dft_cong [of "2 ^ m", OF c] by (simp add: holds_def)
      finally show ?thesis by (simp add: idft_conj)
    qed
    then show ?thesis using net(4) True by (simp add: holds_def out_def transform_def)
  next
    case False
    then show ?thesis using net(4) by (simp add: out_def transform_def im0_def)
  qed
  then show ?thesis using run by blast
qed

lemma fft_in_place_ok:
  assumes "length re = 2 ^ m" "length im = 2 ^ m" and "m \<le> 11"
  shows "\<exists>z. fft_in_place exact invr (re, im) = Some z \<and> holds (2 ^ m) (transform invr (2 ^ m) (cx (re, im))) z"
  using cfft_body_ok [OF assms] assms(1) by (simp add: fft_in_place_def cfft_n_def Let_def)


section \<open>Real transforms\<close>

abbreviation evens :: "real list \<Rightarrow> nat \<Rightarrow> complex" where
  "evens y t \<equiv> of_real (y ! (2 * t))"

abbreviation odds :: "real list \<Rightarrow> nat \<Rightarrow> complex" where
  "odds y t \<equiv> of_real (y ! (2 * t + 1))"

lemma dft_real_conj:
  assumes "\<And>t. t < n \<Longrightarrow> x t \<in> \<real>" "k \<le> n" "0 < n"
  shows "dft n x (n - k) = cnj (dft n x k)"
proof -
  have "wn n ((n - k) * t) = cnj (wn n (k * t))" for t
    using wn_complement [OF assms(2,3)] by (simp add: wn_power)
  then show ?thesis using assms(1) by (simp add: dft_def Reals_cnj_iff)
qed

lemma dft_packed:
  assumes "\<And>t. t < l \<Longrightarrow> z t = x t + \<i> * y t"
  shows "dft l z k = dft l x k + \<i> * dft l y k"
  using dft_linear [of l 1 x \<i> y k] dft_cong [of l z "\<lambda>t. 1 * x t + \<i> * y t" k] assms by simp

text \<open>The two spectra of the even and the odd samples, out of the packed transform.\<close>

lemma split_packed:
  assumes z: "\<And>t. t < l \<Longrightarrow> z t = x t + \<i> * y t" and real: "\<And>t. t < l \<Longrightarrow> x t \<in> \<real>" "\<And>t. t < l \<Longrightarrow> y t \<in> \<real>"
    and k: "k \<le> l" "0 < l"
  shows "(dft l z k + cnj (dft l z (l - k))) / 2 = dft l x k"
    and "(dft l z k - cnj (dft l z (l - k))) / (2 * \<i>) = dft l y k"
  using dft_real_conj [of l x k, OF real(1) k] dft_real_conj [of l y k, OF real(2) k]
  by (simp_all add: dft_packed [OF z] field_simps)

lemma pack_ok:
  assumes len: "length (fst z) = l" "length (snd z) = l" "length inp = 2 * l"
  shows "\<exists>z'. for_in (pack_sample inp) [0..<l] z = Some z' \<and> holds l (\<lambda>t. evens inp t + \<i> * odds inp t) z'"
proof -
  define I where "I = (\<lambda>i (z :: real planar). length (fst z) = l \<and> length (snd z) = l \<and>
    (\<forall>t<i. cx z t = evens inp t + \<i> * odds inp t))"
  have "\<exists>z'. pack_sample inp i z = Some z' \<and> I (Suc i) z'" if i: "i < l" and "I i z" for i z
  proof -
    obtain re im where z: "z = (re, im)" by (cases z)
    let ?z = "(re[i := inp ! (2 * i)], im[i := inp ! (2 * i + 1)])"
    have "pack_sample inp i z = Some ?z"
      using \<open>I i z\<close> i len(3) by (simp add: z pack_sample_def I_def)
    moreover have "I (Suc i) ?z"
      using \<open>I i z\<close> i by (auto simp: z I_def cx_def nth_list_update complex_eq_iff less_Suc_eq)
    ultimately show ?thesis by blast
  qed
  then have "\<exists>z'. for_in (pack_sample inp) [0..<l] z = Some z' \<and> I l z'"
    by (intro for_in_upt [where I = I]) (simp_all add: I_def len)
  then show ?thesis by (simp add: I_def holds_def)
qed

lemma div_2i: "z / (2 * \<i>) = Complex (Im z / 2) (- (Re z / 2))"
  by (simp add: complex_eq_iff Re_divide Im_divide power2_eq_square)

lemma split_bin_exact:
  assumes z: "holds l w (sre, sim)" and k: "k \<le> l" "0 < l" and o: "length (fst ob) = l + 1" "length (snd ob) = l + 1"
  shows "\<exists>o'. split_bin exact sre sim l s k ob = Some o' \<and> length (fst o') = l + 1 \<and> length (snd o') = l + 1 \<and>
    (\<forall>j \<le> l. cx o' j = (if j = k then
        (w (k mod l) + cnj (w ((l - k) mod l))) / 2 + wn 2048 (k * s) * ((w (k mod l) - cnj (w ((l - k) mod l))) / (2 * \<i>))
      else cx ob j))"
proof -
  obtain ore oim where ob: "ob = (ore, oim)" by (cases ob)
  let ?kl = "k mod l" and ?lk = "(l - k) mod l"
  have kl: "(if k = l then 0 else k) = ?kl" using k by (cases "k = l") simp_all
  have lk: "(if k = 0 then 0 else l - k) = ?lk" using k by simp
  have b: "?kl < l" "?lk < l" using k by simp_all
  have w: "w ?kl = Complex (sre ! ?kl) (sim ! ?kl)" "w ?lk = Complex (sre ! ?lk) (sim ! ?lk)"
    and len: "length sre = l" "length sim = l" using z b by (simp_all add: holds_def cx_def)
  define v where "v = (w ?kl + cnj (w ?lk)) / 2 + wn 2048 (k * s) * ((w ?kl - cnj (w ?lk)) / (2 * \<i>))"
  let ?a = "w ?kl" and ?b = "w ?lk" and ?t = "wn 2048 (k * s)"
  have v: "Re v = 1 / 2 * (Re ?a + Re ?b) + (1 / 2 * (Im ?a + Im ?b) * Re ?t - - (1 / 2) * (Re ?a - Re ?b) * Im ?t)"
    "Im v = 1 / 2 * (Im ?a - Im ?b) + (1 / 2 * (Im ?a + Im ?b) * Im ?t + - (1 / 2) * (Re ?a - Re ?b) * Re ?t)"
    unfolding v_def div_2i by (simp_all add: algebra_simps add_divide_distrib diff_divide_distrib)
  have rd: "sre ! ?kl = Re ?a" "sim ! ?kl = Im ?a" "sre ! ?lk = Re ?b" "sim ! ?lk = Im ?b"
    unfolding w by simp_all
  have "split_bin exact sre sim l s k ob = Some (ore[k := Re v], oim[k := Im v])"
    using b k o unfolding split_bin_def kl lk v
    by (simp add: len ob tw_exact cmul_def Let_def rd)
  moreover have "cx (ore[k := Re v], oim[k := Im v]) j = (if j = k then v else cx ob j)" if "j \<le> l" for j
    using k o that by (simp add: cx_def ob)
  ultimately show ?thesis using o by (simp add: ob v_def)
qed

lemma real_forward_split:
  assumes m: "m \<le> 11" and len: "length (fst scratch) = 2 ^ m" "length (snd scratch) = 2 ^ m"
    "length inp = 2 * 2 ^ m" "length (fst ob) = 2 ^ m + 1" "length (snd ob) = 2 ^ m + 1"
  shows "\<exists>sc o'. real_forward exact scratch inp ob (2 * 2 ^ m) = Some (sc, o') \<and>
    length (fst sc) = 2 ^ m \<and> length (snd sc) = 2 ^ m \<and> length (fst o') = 2 ^ m + 1 \<and> length (snd o') = 2 ^ m + 1 \<and>
    (\<forall>k \<le> 2 ^ m. cx o' k = dft (2 ^ m) (evens inp) k +
       wn 2048 (k * (2048 div (2 * 2 ^ m))) * dft (2 ^ m) (odds inp) k)"
proof -
  let ?l = "2 ^ m :: nat" and ?s = "2048 div (2 * 2 ^ m :: nat)"
  let ?p = "\<lambda>t. evens inp t + \<i> * odds inp t"
  obtain re im where z1: "for_in (pack_sample inp) [0..<?l] scratch = Some (re, im)" "holds ?l ?p (re, im)"
    using pack_ok [OF len(1-3)] by force
  have l1: "length re = ?l" "length im = ?l" using z1(2) by (simp_all add: holds_def)
  obtain sre sim where z2: "fft_in_place exact False (re, im) = Some (sre, sim)" "holds ?l (dft ?l (cx (re, im))) (sre, sim)"
    using fft_in_place_ok [OF l1 m, of False] by (force simp: transform_def)
  have "dft ?l (cx (re, im)) k = dft ?l ?p k" for k
    using z1(2) by (intro dft_cong) (simp add: holds_def)
  then have w: "holds ?l (dft ?l ?p) (sre, sim)" using z2(2) by (simp add: holds_def)
  define I where "I = (\<lambda>k (o' :: real planar). length (fst o') = ?l + 1 \<and> length (snd o') = ?l + 1 \<and>
    (\<forall>j<k. cx o' j = dft ?l (evens inp) j + wn 2048 (j * ?s) * dft ?l (odds inp) j))"
  have step: "\<exists>o'. split_bin exact sre sim ?l ?s k ob = Some o' \<and> I (Suc k) o'" if k: "k < ?l + 1" and "I k ob" for k ob
  proof -
    have k': "k \<le> ?l" "0 < ?l" using k by simp_all
    obtain o' where o': "split_bin exact sre sim ?l ?s k ob = Some o'" "length (fst o') = ?l + 1" "length (snd o') = ?l + 1"
      "\<forall>j \<le> ?l. cx o' j = (if j = k then (dft ?l ?p (k mod ?l) + cnj (dft ?l ?p ((?l - k) mod ?l))) / 2 +
        wn 2048 (k * ?s) * ((dft ?l ?p (k mod ?l) - cnj (dft ?l ?p ((?l - k) mod ?l))) / (2 * \<i>)) else cx ob j)"
      using split_bin_exact [OF w k', of ob ?s] \<open>I k ob\<close> unfolding I_def by blast
    have "\<forall>j<Suc k. cx o' j = dft ?l (evens inp) j + wn 2048 (j * ?s) * dft ?l (odds inp) j"
      using o'(4) k \<open>I k ob\<close> split_packed [of ?l ?p "evens inp" "odds inp" k] k'
      by (auto simp: less_Suc_eq dft_mod I_def)
    then show ?thesis using o'(1-3) unfolding I_def by blast
  qed
  have "\<exists>o'. for_in (split_bin exact sre sim ?l ?s) [0..<?l + 1] ob = Some o' \<and> I (?l + 1) o'"
    by (rule for_in_upt [where I = I]) (simp add: I_def len, simp, rule step)
  then obtain o' where o': "for_in (split_bin exact sre sim ?l ?s) [0..<?l + 1] ob = Some o'" "I (?l + 1) o'"
    by (elim exE conjE)
  have "real_forward exact scratch inp ob (2 * ?l) = Some ((sre, sim), o')"
    unfolding real_forward_def using len z1(1) z2(1) o'(1) by (simp add: TW_MASTER_def Let_def)
  then show ?thesis using o'(2) w unfolding I_def holds_def by (simp add: less_Suc_eq_le)
qed

lemma wn_stride:
  assumes "m \<le> 10" shows "wn 2048 (k * (2048 div (2 * 2 ^ m))) = wn (2 * 2 ^ m) k"
proof -
  have e: "(2048::nat) = 2 ^ (10 - m) * (2 * 2 ^ m)"
    using assms by (simp add: power_add [symmetric] mult.left_commute)
  have "wn 2048 (k * (2048 div (2 * 2 ^ m))) = wn (2 ^ (10 - m) * (2 * 2 ^ m)) (2 ^ (10 - m) * k)"
    unfolding e [symmetric] by (subst e) (simp add: mult.commute)
  then show ?thesis by (simp add: wn_scale)
qed

lemma real_forward_ok:
  assumes m: "m \<le> 10" and len: "length (fst scratch) = 2 ^ m" "length (snd scratch) = 2 ^ m"
    "length inp = 2 * 2 ^ m" "length (fst ob) = 2 ^ m + 1" "length (snd ob) = 2 ^ m + 1"
  shows "\<exists>sc o'. real_forward exact scratch inp ob (2 * 2 ^ m) = Some (sc, o') \<and>
    length (fst sc) = 2 ^ m \<and> length (snd sc) = 2 ^ m \<and> length (fst o') = 2 ^ m + 1 \<and> length (snd o') = 2 ^ m + 1 \<and>
    (\<forall>k \<le> 2 ^ m. cx o' k = dft (2 * 2 ^ m) (\<lambda>t. of_real (inp ! t)) k)"
proof -
  have e: "dft (2 * 2 ^ m) (\<lambda>t. of_real (inp ! t)) k = dft (2 ^ m) (evens inp) k +
      wn 2048 (k * (2048 div (2 * 2 ^ m))) * dft (2 ^ m) (odds inp) k" for k
    unfolding wn_stride [OF m] by (rule dft_even_odd) simp
  show ?thesis unfolding e by (rule real_forward_split) (use m len in auto)
qed

text \<open>The inverse undoes the split and transforms again.\<close>

lemma unsplit_bin_exact:
  assumes x: "length (fst x) = l + 1" "length (snd x) = l + 1" and k: "k < l"
    and z: "length (fst z) = l" "length (snd z) = l"
  shows "\<exists>z'. unsplit_bin exact x l s k z = Some z' \<and> length (fst z') = l \<and> length (snd z') = l \<and>
    (\<forall>j<l. cx z' j = (if j = k then
        (cx x k + cnj (cx x (l - k))) / 2 + \<i> * (cnj (wn 2048 (k * s)) * ((cx x k - cnj (cx x (l - k))) / 2))
      else cx z j))"
proof -
  obtain sre sim where ri: "z = (sre, sim)" by (cases z)
  define v where "v = (cx x k + cnj (cx x (l - k))) / 2 + \<i> * (cnj (wn 2048 (k * s)) * ((cx x k - cnj (cx x (l - k))) / 2))"
  let ?a = "cx x k" and ?b = "cx x (l - k)" and ?t = "wn 2048 (k * s)"
  have v: "Re v = 1 / 2 * (Re ?a + Re ?b) - (1 / 2 * (Re ?a - Re ?b) * - Im ?t + 1 / 2 * (Im ?a - - Im ?b) * Re ?t)"
    "Im v = 1 / 2 * (Im ?a + - Im ?b) + (1 / 2 * (Re ?a - Re ?b) * Re ?t - 1 / 2 * (Im ?a - - Im ?b) * - Im ?t)"
    by (simp_all add: v_def algebra_simps add_divide_distrib diff_divide_distrib)
  have rd: "fst x ! j = Re (cx x j)" "snd x ! j = Im (cx x j)" for j
    by (simp_all add: cx_def)
  have "unsplit_bin exact x l s k z = Some (sre[k := Re v], sim[k := Im v])"
    using x k z unfolding unsplit_bin_def v
    by (simp add: ri tw_exact cmul_def Let_def rd)
  moreover have "cx (sre[k := Re v], sim[k := Im v]) j = (if j = k then v else cx z j)" if "j < l" for j
    using k z that by (simp add: cx_def ri)
  ultimately show ?thesis using z by (simp add: ri v_def)
qed

lemma unsplit_spectrum:
  assumes m: "m \<le> 10" and k: "k < 2 ^ m"
    and X: "\<And>j. j \<le> 2 ^ m \<Longrightarrow> X j = dft (2 * 2 ^ m) (\<lambda>t. of_real (y ! t)) j"
  shows "(X k + cnj (X (2 ^ m - k))) / 2 +
      \<i> * (cnj (wn 2048 (k * (2048 div (2 * 2 ^ m)))) * ((X k - cnj (X (2 ^ m - k))) / 2)) =
    dft (2 ^ m) (\<lambda>t. evens y t + \<i> * odds y t) k"
proof -
  let ?l = "2 ^ m :: nat" and ?w = "wn (2 * 2 ^ m) k"
  have Xk: "X k = dft ?l (evens y) k + ?w * dft ?l (odds y) k"
    using X [of k] k by (simp add: dft_even_odd)
  have "wn (2 * ?l) (?l - k) * wn (2 * ?l) k = wn (2 * ?l) ?l"
    using k by (simp add: wn_add [symmetric])
  then have "wn (2 * ?l) (?l - k) * wn (2 * ?l) k = - cnj ?w * wn (2 * ?l) k"
    by (simp add: wn_half wn_cnj)
  then have wl: "wn (2 * ?l) (?l - k) = - cnj ?w"
    by (rule mult_right_cancel [OF wn_neq_0, THEN iffD1])
  have c: "dft ?l (evens y) (?l - k) = cnj (dft ?l (evens y) k)" "dft ?l (odds y) (?l - k) = cnj (dft ?l (odds y) k)"
    using k by (simp_all add: dft_real_conj)
  have Xl: "cnj (X (?l - k)) = dft ?l (evens y) k - ?w * dft ?l (odds y) k"
    using X [of "?l - k"] by (simp add: dft_even_odd c [simplified] wl)
  have "cnj ?w * (?w * d) = d" for d using wn_cnj [of "2 * ?l" k] by (simp add: mult.assoc [symmetric])
  then show ?thesis
    unfolding wn_stride [OF m] Xl Xk by (simp add: dft_packed [of ?l _ "evens y" "odds y"])
qed

lemma unpack_ok:
  assumes len: "length (fst z) = l" "length (snd z) = l" "length out = 2 * l"
  shows "\<exists>out'. for_in (unpack_sample z) [0..<l] out = Some out' \<and> length out' = 2 * l \<and>
    (\<forall>t<l. out' ! (2 * t) = fst z ! t \<and> out' ! (2 * t + 1) = snd z ! t)"
proof -
  define I where "I = (\<lambda>i (out :: 'a list). length out = 2 * l \<and>
    (\<forall>t<i. out ! (2 * t) = fst z ! t \<and> out ! (2 * t + 1) = snd z ! t))"
  have "\<exists>o'. unpack_sample z i ob = Some o' \<and> I (Suc i) o'" if i: "i < l" and "I i ob" for i ob
    using i \<open>I i ob\<close> len
    by (auto simp: unpack_sample_def I_def nth_list_update less_Suc_eq)
  then have "\<exists>out'. for_in (unpack_sample z) [0..<l] out = Some out' \<and> I l out'"
    by (intro for_in_upt [where I = I]) (simp_all add: I_def len)
  then show ?thesis by (simp add: I_def)
qed

lemma real_inverse_ok:
  assumes m: "m \<le> 10" and len: "length (fst scratch) = 2 ^ m" "length (snd scratch) = 2 ^ m"
    "length (fst x) = 2 ^ m + 1" "length (snd x) = 2 ^ m + 1" "length out = 2 * 2 ^ m"
    and X: "\<And>k. k \<le> 2 ^ m \<Longrightarrow> cx x k = dft (2 * 2 ^ m) (\<lambda>t. of_real (y ! t)) k" and y: "length y = 2 * 2 ^ m"
  shows "\<exists>sc. real_inverse exact scratch x out (2 * 2 ^ m) = Some (sc, y) \<and>
    length (fst sc) = 2 ^ m \<and> length (snd sc) = 2 ^ m"
proof -
  let ?l = "2 ^ m :: nat" and ?s = "2048 div (2 * 2 ^ m :: nat)"
  let ?p = "\<lambda>t. evens y t + \<i> * odds y t"
  define I where "I = (\<lambda>k (z :: real planar). length (fst z) = ?l \<and> length (snd z) = ?l \<and>
    (\<forall>j<k. cx z j = dft ?l ?p j))"
  have step: "\<exists>z'. unsplit_bin exact x ?l ?s k z = Some z' \<and> I (Suc k) z'" if k: "k < ?l" and "I k z" for k z
  proof -
    obtain z' where z': "unsplit_bin exact x ?l ?s k z = Some z'" "length (fst z') = ?l" "length (snd z') = ?l"
      "\<forall>j<?l. cx z' j = (if j = k then (cx x k + cnj (cx x (?l - k))) / 2 +
          \<i> * (cnj (wn 2048 (k * ?s)) * ((cx x k - cnj (cx x (?l - k))) / 2)) else cx z j)"
      using unsplit_bin_exact [OF len(3,4) k, of z ?s] \<open>I k z\<close> unfolding I_def by blast
    have "\<forall>j<Suc k. cx z' j = dft ?l ?p j"
      using z'(4) k \<open>I k z\<close> unsplit_spectrum [OF m k, of "cx x" y, OF X] by (auto simp: less_Suc_eq I_def)
    then show ?thesis using z'(1-3) unfolding I_def by blast
  qed
  have "\<exists>z. for_in (unsplit_bin exact x ?l ?s) [0..<?l] scratch = Some z \<and> I ?l z"
    by (rule for_in_upt [where I = I]) (simp add: I_def len, simp, rule step)
  then obtain re im where z: "for_in (unsplit_bin exact x ?l ?s) [0..<?l] scratch = Some (re, im)" "I ?l (re, im)"
    by force
  have l1: "length re = ?l" "length im = ?l" using z(2) by (simp_all add: I_def)
  have m11: "m \<le> 11" using m by simp
  obtain sc where sc: "fft_in_place exact True (re, im) = Some sc" "holds ?l (idft ?l (cx (re, im))) sc"
    using fft_in_place_ok [OF l1 m11, of True] by (force simp: transform_def)
  have "idft ?l (cx (re, im)) t = ?p t" if "t < ?l" for t
  proof -
    have "idft ?l (cx (re, im)) t = idft ?l (dft ?l ?p) t"
      unfolding idft_def using z(2) by (simp add: I_def)
    then show ?thesis using that by (simp add: idft_dft)
  qed
  then have again: "holds ?l ?p sc" using sc(2) by (simp add: holds_def)
  have ls: "length (fst sc) = ?l" "length (snd sc) = ?l" using again by (simp_all add: holds_def)
  obtain out' where out': "for_in (unpack_sample sc) [0..<?l] out = Some out'" "length out' = 2 * ?l"
    "\<forall>t<?l. out' ! (2 * t) = fst sc ! t \<and> out' ! (2 * t + 1) = snd sc ! t"
    using unpack_ok [OF ls len(5)] by blast
  have "out' = y"
  proof (rule nth_equalityI)
    fix i assume i: "i < length out'"
    then have t: "i div 2 < ?l" using out'(2) by simp
    have "fst sc ! (i div 2) = y ! (2 * (i div 2))" "snd sc ! (i div 2) = y ! (2 * (i div 2) + 1)"
      using again t by (simp_all add: holds_def cx_def complex_eq_iff)
    then show "out' ! i = y ! i"
      using out'(3) [rule_format, OF t] by (cases "even i") (simp_all)
  qed (use out'(2) y in simp)
  moreover have "real_inverse exact scratch x out (2 * ?l) = Some (sc, out')"
    unfolding real_inverse_def using len z(1) sc(1) out'(1) by (simp add: TW_MASTER_def Let_def)
  ultimately show ?thesis using ls by blast
qed

section \<open>Properties\<close>

text \<open>C5: In exact arithmetic the in-place network is the discrete Fourier transform: for every power of two the
  table serves, the arrays end up holding the transform of the samples (or its inverse), in natural order.\<close>

theorem fft_is_dft:
  assumes "m \<le> 11" "length re = 2 ^ m" "length im = 2 ^ m"
  shows "\<exists>re' im'. fft_in_place exact invr (re, im) = Some (re', im') \<and> length re' = 2 ^ m \<and> length im' = 2 ^ m \<and>
    (\<forall>k<2 ^ m. Complex (re' ! k) (im' ! k) =
      (if invr then idft else dft) (2 ^ m) (\<lambda>t. Complex (re ! t) (im ! t)) k)"
proof -
  have "(\<lambda>t. Complex (re ! t) (im ! t)) = cx (re, im)" by (simp add: cx_def fun_eq_iff)
  then show ?thesis
    using fft_in_place_ok [OF assms(2,3,1), of invr] by (auto simp: holds_def transform_def cx_def)
qed

lemma fft_is_dft_witness:
  "\<exists>re im. fft_in_place exact False ([1, 2, 3, 4], [0, 0, 0, 0]) = Some (re, im) \<and> re ! 0 = 10 \<and> im ! 0 = 0"
proof -
  obtain re im where "fft_in_place exact False ([1, 2, 3, 4], [0, 0, 0, 0]) = Some (re, im)"
    "Complex (re ! 0) (im ! 0) = dft 4 (\<lambda>t. Complex ([1, 2, 3, 4] ! t) ([0, 0, 0, 0] ! t)) 0"
    using fft_is_dft [of 2 "[1, 2, 3, 4]" "[0, 0, 0, 0]" False] by auto
  moreover have "dft 4 (\<lambda>t. Complex ([1, 2, 3, 4] ! t) ([0, 0, 0, 0] ! t)) 0 = Complex 10 0"
    by (simp add: dft_def eval_nat_numeral complex_eq_iff)
  ultimately show ?thesis by auto
qed

text \<open>The real transforms, for every size the table serves (up to 2048 samples): forward gives the bins from zero
  to the Nyquist frequency of the transform of the real samples, and inverse takes them back to the samples.\<close>

theorem real_fft_exact:
  assumes "m \<le> 10" "length sre = 2 ^ m" "length sim = 2 ^ m" "length inp = 2 * 2 ^ m" "length buf = 2 * 2 ^ m"
    "length ore = 2 ^ m + 1" "length oim = 2 ^ m + 1"
  shows "\<exists>s re im s'. RealFft_new sre sim = Some (sre, sim) \<and>
    RealFft_forward exact (sre, sim) inp (ore, oim) = Some (s, re, im) \<and>
    (\<forall>k \<le> 2 ^ m. Complex (re ! k) (im ! k) = dft (2 * 2 ^ m) (\<lambda>t. of_real (inp ! t)) k) \<and>
    RealFft_inverse exact s (re, im) buf = Some (s', inp)"
proof -
  obtain s re im where f: "real_forward exact (sre, sim) inp (ore, oim) (2 * 2 ^ m) = Some (s, re, im)"
    "length (fst s) = 2 ^ m" "length (snd s) = 2 ^ m" "length re = 2 ^ m + 1" "length im = 2 ^ m + 1"
    "\<forall>k \<le> 2 ^ m. cx (re, im) k = dft (2 * 2 ^ m) (\<lambda>t. of_real (inp ! t)) k"
    using real_forward_ok [OF assms(1), of "(sre, sim)" inp "(ore, oim)"] assms by auto
  have "\<exists>s'. real_inverse exact s (re, im) buf (2 * 2 ^ m) = Some (s', inp) \<and>
      length (fst s') = 2 ^ m \<and> length (snd s') = 2 ^ m"
    by (rule real_inverse_ok [OF assms(1) f(2,3) _ _ assms(5) _ assms(4)]) (use f(4-6) in simp_all)
  then show ?thesis
    using f assms(2,3) by (auto simp: RealFft_new_def RealFft_forward_def RealFft_inverse_def RealFft_n_def cx_def mult.commute)
qed

lemma real_fft_exact_witness:
  "\<exists>s re im s'. RealFft_forward exact ([0, 0], [0, 0]) [1, 2, 3, 4] ([0, 0, 0], [0, 0, 0]) = Some (s, re, im) \<and>
     re ! 0 = 10 \<and> RealFft_inverse exact s (re, im) [0, 0, 0, 0] = Some (s', [1, 2, 3, 4])"
proof -
  obtain s re im s' where "RealFft_forward exact ([0, 0], [0, 0]) [1, 2, 3, 4] ([0, 0, 0], [0, 0, 0]) = Some (s, re, im)"
    "RealFft_inverse exact s (re, im) [0, 0, 0, 0] = Some (s', [1, 2, 3, 4])"
    "Complex (re ! 0) (im ! 0) = dft 4 (\<lambda>t. of_real ([1, 2, 3, 4] ! t)) 0"
    using real_fft_exact [of 1 "[0, 0]" "[0, 0]" "[1, 2, 3, 4]" "[0, 0, 0, 0]" "[0, 0, 0]" "[0, 0, 0]"]
    by (auto simp: le_Suc_eq)
  moreover have "dft 4 (\<lambda>t. of_real ([1, 2, 3, 4] ! t)) 0 = Complex 10 0"
    by (simp add: dft_def eval_nat_numeral complex_eq_iff)
  ultimately show ?thesis by auto
qed

definition impulse :: "real list" where
  "impulse = (replicate 4096 0)[1 := 1]"

text \<open>C39: The length assertion lets a real transform of 4096 samples through, whose twiddle stride is zero: it returns
  without a panic, but adds the even and the odd spectrum with no rotation. The impulse at sample one comes out
  as the impulse at sample zero.\<close>

theorem real_fft_4096_wrong:
  "\<exists>s re im. RealFft_forward exact (replicate 2048 0, replicate 2048 0) impulse (replicate 2049 0, replicate 2049 0) =
      Some (s, re, im) \<and>
    map (\<lambda>k. Complex (re ! k) (im ! k)) [0..<2049] = replicate 2049 1 \<and>
    dft 4096 (\<lambda>t. of_real (impulse ! t)) 1024 = - \<i>"
proof -
  have at: "impulse ! t = (if t = 1 then 1 else 0)" if "t < 4096" for t
    using that by (simp add: impulse_def nth_list_update del: replicate.simps)
  have len: "length impulse = 2 * 2 ^ 11" by (simp add: impulse_def del: replicate.simps)
  have pick: "dft n x k = wn n (k * a)" if "a < n" "\<And>t. t < n \<Longrightarrow> x t = (if t = a then 1 else 0)" for n x a k
  proof -
    have "dft n x k = (\<Sum>t<n. if t = a then wn n (k * a) else 0)"
      unfolding dft_def by (rule sum.cong) (auto simp: that(2))
    then show ?thesis using that(1) by simp
  qed
  have e: "dft 2048 (evens impulse) k = 0" for k
    unfolding dft_def by (rule sum.neutral) (simp add: at)
  have o: "dft 2048 (\<lambda>t. of_real (impulse ! Suc (2 * t))) k = 1" for k
    using pick [of 0 2048 "\<lambda>t. of_real (impulse ! Suc (2 * t))" k] by (simp add: at)
  have "dft 4096 (\<lambda>t. of_real (impulse ! t)) 1024 = wn (4 * 1024) 1024"
    using pick [of 1 4096 "\<lambda>t. of_real (impulse ! t)" 1024] by (simp add: at)
  also have "\<dots> = - \<i>" by (rule wn_quarter) simp
  finally have d: "dft 4096 (\<lambda>t. of_real (impulse ! t)) 1024 = - \<i>" .
  obtain s re im where "real_forward exact (replicate 2048 0, replicate 2048 0) impulse (replicate 2049 0, replicate 2049 0) (2 * 2 ^ 11) =
      Some (s, re, im)" "\<forall>k \<le> 2 ^ 11. cx (re, im) k = 1"
    using real_forward_split [of 11 "(replicate 2048 0, replicate 2048 0)" impulse "(replicate 2049 0, replicate 2049 0)"] len
    by (auto simp: e o simp del: replicate.simps)
  moreover from this have "map (\<lambda>k. Complex (re ! k) (im ! k)) [0..<2049] = replicate 2049 1"
    by (intro nth_equalityI) (simp_all add: cx_def del: replicate.simps)
  ultimately show ?thesis using d by (auto simp: RealFft_forward_def RealFft_n_def simp del: replicate.simps)
qed

end
