(* ===== verification/Convolver.thy ===== *)
theory Convolver
  imports Fft_Exact
begin

text \<open>
  \<open>crates/daisy-dsp/src/convolution.rs\<close>: the uniformly partitioned overlap-save convolver and its
  stereo pair, with the one scratch slice carved up the way \<open>new\<close> does it. In exact arithmetic the
  blocks put out are the impulse response convolved with the blocks put in, with no latency beyond
  the block itself and no wrap-around of the circular convolution.
\<close>

section \<open>Slices\<close>

text \<open>\<open>&xs[a..a + n]\<close>, the same slice written back, and \<open>split_at_mut\<close>; out of range they panic.\<close>

definition slice :: "'a list \<Rightarrow> nat \<Rightarrow> nat \<Rightarrow> 'a list option" where
  "slice xs a n = (if a + n \<le> length xs then Some (take n (drop a xs)) else None)"

definition put_slice :: "'a list \<Rightarrow> nat \<Rightarrow> 'a list \<Rightarrow> 'a list" where
  "put_slice xs a ys = take a xs @ ys @ drop (a + length ys) xs"

definition split_at_mut :: "'a list \<Rightarrow> nat \<Rightarrow> ('a list \<times> 'a list) option" where
  "split_at_mut xs n = (if n \<le> length xs then Some (take n xs, drop n xs) else None)"

section \<open>The convolver\<close>

record 'f convolver =
  cv_b :: nat
  cv_n :: nat
  cv_s :: nat
  cv_p :: nat
  cv_head :: nat
  ir_re :: "'f list"
  ir_im :: "'f list"
  xh_re :: "'f list"
  xh_im :: "'f list"
  cv_win :: "'f list"
  cv_work :: "'f list"

definition div_ceil :: "nat \<Rightarrow> nat \<Rightarrow> nat" where
  "div_ceil a b = (a + b - 1) div b"

definition conv_required_scratch :: "nat \<Rightarrow> nat \<Rightarrow> nat option" where
  "conv_required_scratch ir_len b =
     (if b = 0 then None
      else Some (let n = 2 * b; s = n div 2 + 1; p = max (div_ceil ir_len b) 1 in
        4 * p * s + n + (2 * n + 2 * s)))"

text \<open>One partition of the impulse response: \<open>b\<close> taps and as many zeros, transformed into its slot.\<close>

definition ir_partition ::
  "'f flops \<Rightarrow> 'f list \<Rightarrow> nat \<Rightarrow> nat \<Rightarrow> nat \<Rightarrow> 'f list \<times> 'f planar \<times> 'f planar \<Rightarrow> ('f list \<times> 'f planar \<times> 'f planar) option" where
  "ir_partition F ir b s pp = (\<lambda>(frame, (sre, sim), (hre, him)). do {
     let frame = map (\<lambda>i. let tap = pp * b + i in if i < b \<and> tap < length ir then ir ! tap else fl_nat F 0) [0..<length frame];
     fft \<leftarrow> RealFft_new sre sim;
     ore \<leftarrow> slice hre (pp * s) s;
     oim \<leftarrow> slice him (pp * s) s;
     (scratch, (ore, oim)) \<leftarrow> RealFft_forward F fft frame (ore, oim);
     Some (frame, scratch, (put_slice hre (pp * s) ore, put_slice him (pp * s) oim))
   })"

definition Convolver_new :: "'f flops \<Rightarrow> 'f list \<Rightarrow> nat \<Rightarrow> 'f list \<Rightarrow> 'f convolver option" where
  "Convolver_new F ir b scratch =
     (if \<not> (is_power_of_two b \<and> 8 \<le> b) then None
      else let n = 2 * b; s = n div 2 + 1; p = max (div_ceil (length ir) b) 1 in do {
        need \<leftarrow> conv_required_scratch (length ir) b;
        if \<not> need \<le> length scratch then None
        else do {
          (hre, rest) \<leftarrow> split_at_mut scratch (p * s);
          (him, rest) \<leftarrow> split_at_mut rest (p * s);
          (xre, rest) \<leftarrow> split_at_mut rest (p * s);
          (xim, rest) \<leftarrow> split_at_mut rest (p * s);
          (win, work) \<leftarrow> split_at_mut rest n;
          let zeros = map (\<lambda>_. fl_nat F 0);
          (frame, rest) \<leftarrow> split_at_mut work n;
          (sre, rest) \<leftarrow> split_at_mut rest (n div 2);
          (sim, rest) \<leftarrow> split_at_mut rest (n div 2);
          (frame, (sre, sim), (hre, him)) \<leftarrow>
            for_in (ir_partition F ir b s) [0..<p] (frame, (sre, sim), (zeros hre, zeros him));
          Some \<lparr>cv_b = b, cv_n = n, cv_s = s, cv_p = p, cv_head = 0, ir_re = hre, ir_im = him,
            xh_re = zeros xre, xh_im = zeros xim, cv_win = zeros win, cv_work = frame @ sre @ sim @ rest\<rparr>
        }
      })"

definition mac_bin :: "'f flops \<Rightarrow> 'f convolver \<Rightarrow> nat \<Rightarrow> nat \<Rightarrow> nat \<Rightarrow> 'f planar \<Rightarrow> 'f planar option" where
  "mac_bin F c xo ho k = (\<lambda>(are, aim). do {
     xr \<leftarrow> idx_get (xh_re c) (xo + k);
     xi \<leftarrow> idx_get (xh_im c) (xo + k);
     hr \<leftarrow> idx_get (ir_re c) (ho + k);
     hi \<leftarrow> idx_get (ir_im c) (ho + k);
     ar \<leftarrow> idx_get are k;
     are \<leftarrow> idx_set are k (fl_add F ar (fl_sub F (fl_mul F xr hr) (fl_mul F xi hi)));
     ai \<leftarrow> idx_get aim k;
     aim \<leftarrow> idx_set aim k (fl_add F ai (fl_add F (fl_mul F xr hi) (fl_mul F xi hr)));
     Some (are, aim)
   })"

definition mac_partition :: "'f flops \<Rightarrow> 'f convolver \<Rightarrow> nat \<Rightarrow> 'f planar \<Rightarrow> 'f planar option" where
  "mac_partition F c pp acc =
     (let ring = (cv_head c + cv_p c - pp) mod cv_p c; xo = ring * cv_s c; ho = pp * cv_s c in
      for_in (mac_bin F c xo ho) [0..<cv_s c] acc)"

definition process_block :: "'f flops \<Rightarrow> 'f convolver \<Rightarrow> 'f list \<Rightarrow> 'f list \<Rightarrow> ('f list \<times> 'f convolver) option" where
  "process_block F c in_block out_block =
     (let b = cv_b c; n = cv_n c; s = cv_s c; p = cv_p c in do {
        let win = drop b (cv_win c) @ drop (length (cv_win c) - b) (cv_win c);
        win \<leftarrow> (if length (drop b win) = length in_block then Some (take b win @ in_block) else None);
        (sre, rest) \<leftarrow> split_at_mut (cv_work c) (n div 2);
        (sim, rest) \<leftarrow> split_at_mut rest (n div 2);
        (acc_re, rest) \<leftarrow> split_at_mut rest s;
        (acc_im, tout) \<leftarrow> split_at_mut rest s;
        fft \<leftarrow> RealFft_new sre sim;
        ore \<leftarrow> slice (xh_re c) (cv_head c * s) s;
        oim \<leftarrow> slice (xh_im c) (cv_head c * s) s;
        ((sre, sim), (ore, oim)) \<leftarrow> RealFft_forward F fft win (ore, oim);
        let c = c\<lparr>cv_win := win, xh_re := put_slice (xh_re c) (cv_head c * s) ore,
                  xh_im := put_slice (xh_im c) (cv_head c * s) oim\<rparr>;
        acc \<leftarrow> for_in (mac_partition F c) [0..<p] (map (\<lambda>_. fl_nat F 0) acc_re, map (\<lambda>_. fl_nat F 0) acc_im);
        fft \<leftarrow> RealFft_new sre sim;
        ((sre, sim), tout) \<leftarrow> RealFft_inverse F fft acc tout;
        y \<leftarrow> slice tout b (n - b);
        out_block \<leftarrow> (if length out_block = length y then Some y else None);
        if p = 0 then None
        else Some (out_block, c\<lparr>cv_work := sre @ sim @ fst acc @ snd acc @ tout, cv_head := (cv_head c + 1) mod p\<rparr>)
      })"

section \<open>The stereo pair\<close>

record 'f stereo_convolver =
  sc_left :: "'f convolver"
  sc_right :: "'f convolver"
  sc_dry :: 'f
  sc_wet :: 'f

definition stereo_required_scratch :: "nat \<Rightarrow> nat \<Rightarrow> nat \<Rightarrow> nat option" where
  "stereo_required_scratch l r b = do {
     nl \<leftarrow> conv_required_scratch l b;
     nr \<leftarrow> conv_required_scratch r b;
     Some (nl + nr)
   }"

definition set_mix :: "'f flops \<Rightarrow> 'f \<Rightarrow> 'f stereo_convolver \<Rightarrow> 'f stereo_convolver" where
  "set_mix F mix sc =
     (let mix = fl_clamp F mix (fl_nat F 0) (fl_nat F 1) in
      sc\<lparr>sc_dry := fl_sub F (fl_nat F 1) mix, sc_wet := mix\<rparr>)"

definition StereoConvolver_new :: "'f flops \<Rightarrow> 'f list \<Rightarrow> 'f list \<Rightarrow> nat \<Rightarrow> 'f \<Rightarrow> 'f list \<Rightarrow> 'f stereo_convolver option" where
  "StereoConvolver_new F ir_l ir_r b mix scratch = do {
     need_l \<leftarrow> conv_required_scratch (length ir_l) b;
     need \<leftarrow> stereo_required_scratch (length ir_l) (length ir_r) b;
     if \<not> need \<le> length scratch then None
     else do {
       (sl, sr) \<leftarrow> split_at_mut scratch need_l;
       let mix = fl_clamp F mix (fl_nat F 0) (fl_nat F 1);
       l \<leftarrow> Convolver_new F ir_l b sl;
       r \<leftarrow> Convolver_new F ir_r b sr;
       Some \<lparr>sc_left = l, sc_right = r, sc_dry = fl_sub F (fl_nat F 1) mix, sc_wet = mix\<rparr>
     }
   }"

fun mix_block :: "'f flops \<Rightarrow> 'f \<Rightarrow> 'f \<Rightarrow> 'f list \<Rightarrow> 'f list \<Rightarrow> 'f list \<Rightarrow> 'f list \<times> 'f list" where
  "mix_block F dry wet (l # ls) (r # rs) (x # xs) =
     (let (ls', rs') = mix_block F dry wet ls rs xs in
      (fl_add F (fl_mul F dry x) (fl_mul F wet l) # ls', fl_add F (fl_mul F dry x) (fl_mul F wet r) # rs'))"
| "mix_block F dry wet ls rs xs = (ls, rs)"

definition stereo_process_block ::
  "'f flops \<Rightarrow> 'f stereo_convolver \<Rightarrow> 'f list \<Rightarrow> 'f list \<Rightarrow> 'f list \<Rightarrow> (('f list \<times> 'f list) \<times> 'f stereo_convolver) option" where
  "stereo_process_block F sc in_mono out_l out_r = do {
     (out_l, l) \<leftarrow> process_block F (sc_left sc) in_mono out_l;
     (out_r, r) \<leftarrow> process_block F (sc_right sc) in_mono out_r;
     Some (mix_block F (sc_dry sc) (sc_wet sc) out_l out_r in_mono, sc\<lparr>sc_left := l, sc_right := r\<rparr>)
   }"

end
