(* ===== verification/Convolver_Exact.thy ===== *)
theory Convolver_Exact
  imports Convolver
begin

text \<open>
  The convolver of \<open>Convolver\<close> in exact arithmetic. The state is described by the number of blocks
  taken so far (\<open>conv_inv\<close>): the window holds the last two blocks of the input, every slot of the ring
  the spectrum of one past window, every slot of the table the spectrum of one partition. A step then
  sums circular convolutions whose second halves are linear, which is the impulse response applied to
  the whole input. Lengths only matter for panics, so construction is shown for any arithmetic.
\<close>


section \<open>Slots\<close>

lemma slice_ok: "a + n \<le> length xs \<Longrightarrow> slice xs a n = Some (take n (drop a xs))"
  by (simp add: slice_def)

lemma length_put_slice [simp]: "a + length ys \<le> length xs \<Longrightarrow> length (put_slice xs a ys) = length xs"
  by (simp add: put_slice_def)

lemma nth_put_slice:
  "a + length ys \<le> length xs \<Longrightarrow> i < length xs \<Longrightarrow>
    put_slice xs a ys ! i = (if a \<le> i \<and> i < a + length ys then ys ! (i - a) else xs ! i)"
  by (auto simp: put_slice_def nth_append min_def)

lemma slot_bound: "r < p \<Longrightarrow> r * s + s \<le> p * (s::nat)"
proof -
  assume "r < p"
  then have "Suc r * s \<le> p * s" by (intro mult_right_mono) simp_all
  then show ?thesis by simp
qed

lemma slot_index: "r < p \<Longrightarrow> k < s \<Longrightarrow> r * s + k < p * (s::nat)"
  using slot_bound [of r p s] by simp

lemma slot_disjoint: "(k::nat) < s \<Longrightarrow> r * s \<le> r' * s + k \<and> r' * s + k < r * s + s \<longleftrightarrow> r = r'"
proof
  assume k: "k < s" and h: "r * s \<le> r' * s + k \<and> r' * s + k < r * s + s"
  then have "(r' * s + k) div s = r'" by simp
  moreover have "(r' * s + k) div s = r"
    using h by (intro div_nat_eqI) (simp_all add: mult.commute)
  ultimately show "r = r'" by simp
qed auto

text \<open>Transforming a real frame straight into a slot.\<close>

definition spectrum :: "nat \<Rightarrow> (nat \<Rightarrow> real) \<Rightarrow> nat \<Rightarrow> complex" where
  "spectrum n f = dft n (\<lambda>i. of_real (f i))"

lemma forward_slot:
  assumes m: "m \<le> 10" and len: "length sre = 2 ^ m" "length sim = 2 ^ m"
    and frame: "length frame = 2 * 2 ^ m" "\<forall>i < 2 * 2 ^ m. frame ! i = f i"
    and z: "length re = p * s" "length im = p * s" and r: "r < p" and s: "s = 2 ^ m + 1"
  shows "\<exists>sre' sim' ore oim. RealFft_new sre sim = Some (sre, sim) \<and>
    slice re (r * s) s = Some (take s (drop (r * s) re)) \<and> slice im (r * s) s = Some (take s (drop (r * s) im)) \<and>
    RealFft_forward exact (sre, sim) frame (take s (drop (r * s) re), take s (drop (r * s) im)) = Some ((sre', sim'), (ore, oim)) \<and>
    length sre' = 2 ^ m \<and> length sim' = 2 ^ m \<and>
    length (put_slice re (r * s) ore) = p * s \<and> length (put_slice im (r * s) oim) = p * s \<and>
    (\<forall>r' k. r' < p \<longrightarrow> k < s \<longrightarrow> cx (put_slice re (r * s) ore, put_slice im (r * s) oim) (r' * s + k) =
      (if r' = r then spectrum (2 * 2 ^ m) f k else cx (re, im) (r' * s + k)))"
proof -
  have b: "r * s + s \<le> length re" "r * s + s \<le> length im" using z slot_bound [OF r] by simp_all
  obtain sre' sim' ore oim where f: "real_forward exact (sre, sim) frame (take s (drop (r * s) re), take s (drop (r * s) im)) (2 * 2 ^ m) =
      Some ((sre', sim'), (ore, oim))"
    "length sre' = 2 ^ m" "length sim' = 2 ^ m" "length ore = s" "length oim = s"
    "\<forall>k \<le> 2 ^ m. cx (ore, oim) k = dft (2 * 2 ^ m) (\<lambda>t. of_real (frame ! t)) k"
    using real_forward_ok [OF m, of "(sre, sim)" frame "(take s (drop (r * s) re), take s (drop (r * s) im))"]
      len frame(1) b unfolding s [symmetric] by (auto simp: s)
  have "dft (2 * 2 ^ m) (\<lambda>t. of_real (frame ! t)) k = spectrum (2 * 2 ^ m) f k" for k
    unfolding spectrum_def by (rule dft_cong) (simp add: frame(2))
  then have own: "cx (ore, oim) k = spectrum (2 * 2 ^ m) f k" if "k < s" for k
    using f(6) that s by simp
  have "cx (put_slice re (r * s) ore, put_slice im (r * s) oim) (r' * s + k) =
      (if r' = r then spectrum (2 * 2 ^ m) f k else cx (re, im) (r' * s + k))" if "r' < p" "k < s" for r' k
    using own [OF that(2)] b f(4,5) slot_index [OF that] slot_disjoint [OF that(2), of r r'] z
    by (simp add: cx_def nth_put_slice)
  moreover have "RealFft_forward exact (sre, sim) frame (take s (drop (r * s) re), take s (drop (r * s) im)) =
      Some ((sre', sim'), (ore, oim))"
    using f(1) len by (simp add: RealFft_forward_def RealFft_n_def mult.commute)
  ultimately show ?thesis
    using f(2-5) b z len by (simp add: RealFft_new_def slice_ok)
qed

section \<open>The accumulated spectrum\<close>

lemma mac_bin_ok:
  assumes "holds s w acc" "k < s" "length (xh_re c) = p * s" "length (xh_im c) = p * s"
    "length (ir_re c) = p * s" "length (ir_im c) = p * s" "r < p" "r' < p"
  shows "\<exists>acc'. mac_bin exact c (r * s) (r' * s) k acc = Some acc' \<and>
    holds s (\<lambda>j. if j = k then w k + cx (xh_re c, xh_im c) (r * s + k) * cx (ir_re c, ir_im c) (r' * s + k) else w j) acc'"
proof -
  obtain are aim where acc: "acc = (are, aim)" by (cases acc)
  have len: "length are = s" "length aim = s" and w: "\<And>j. j < s \<Longrightarrow> w j = Complex (are ! j) (aim ! j)"
    using assms(1) acc by (simp_all add: holds_def cx_def)
  note b = slot_index [OF assms(7,2)] slot_index [OF assms(8,2)]
  show ?thesis
    using assms(2-6) b len
    by (simp add: mac_bin_def acc holds_def cx_def w complex_eq_iff nth_list_update)
qed

lemma mac_partition_ok:
  assumes acc: "holds s w acc" and c: "cv_s c = s" "cv_p c = p" "0 < p" "pp < p"
    and len: "length (xh_re c) = p * s" "length (xh_im c) = p * s" "length (ir_re c) = p * s" "length (ir_im c) = p * s"
  shows "\<exists>acc'. mac_partition exact c pp acc = Some acc' \<and>
    holds s (\<lambda>k. w k + cx (xh_re c, xh_im c) ((cv_head c + p - pp) mod p * s + k) * cx (ir_re c, ir_im c) (pp * s + k)) acc'"
proof -
  let ?r = "(cv_head c + p - pp) mod p"
  let ?t = "\<lambda>k. cx (xh_re c, xh_im c) (?r * s + k) * cx (ir_re c, ir_im c) (pp * s + k)"
  have r: "?r < p" using c(3) by simp
  define I where "I = (\<lambda>k. holds s (\<lambda>j. if j < k then w j + ?t j else w j))"
  have step: "\<exists>acc'. mac_bin exact c (?r * s) (pp * s) k acc = Some acc' \<and> I (Suc k) acc'" if k: "k < s" and "I k acc" for k acc
  proof -
    obtain acc' where "mac_bin exact c (?r * s) (pp * s) k acc = Some acc'"
      "holds s (\<lambda>j. if j = k then (if k < k then w k + ?t k else w k) + ?t k else if j < k then w j + ?t j else w j) acc'"
      using mac_bin_ok [OF \<open>I k acc\<close> [unfolded I_def] k len r c(4)] by (elim exE conjE)
    moreover have "(\<lambda>j. if j = k then (if k < k then w k + ?t k else w k) + ?t k else if j < k then w j + ?t j else w j) = (\<lambda>j. if j < Suc k then w j + ?t j else w j)"
      by (auto simp: fun_eq_iff less_Suc_eq)
    ultimately show ?thesis unfolding I_def by (intro exI conjI) simp_all
  qed
  have "\<exists>acc'. for_in (mac_bin exact c (?r * s) (pp * s)) [0..<s] acc = Some acc' \<and> I s acc'"
    by (rule for_in_upt [where I = I]) (use acc in \<open>simp add: I_def\<close>, simp, rule step)
  then obtain acc' where "mac_partition exact c pp acc = Some acc'" "I s acc'"
    unfolding mac_partition_def Let_def c by (elim exE conjE)
  moreover from this(2) have "holds s (\<lambda>k. w k + ?t k) acc'" by (simp add: I_def holds_def)
  ultimately show ?thesis by (intro exI conjI)
qed

lemma mac_all_ok:
  assumes acc: "length (fst acc) = s" "length (snd acc) = s" and c: "cv_s c = s" "cv_p c = p" "0 < p"
    and len: "length (xh_re c) = p * s" "length (xh_im c) = p * s" "length (ir_re c) = p * s" "length (ir_im c) = p * s"
  shows "\<exists>acc'. for_in (mac_partition exact c) [0..<p] (map (\<lambda>_. 0) (fst acc), map (\<lambda>_. 0) (snd acc)) = Some acc' \<and>
    holds s (\<lambda>k. \<Sum>pp<p. cx (xh_re c, xh_im c) ((cv_head c + p - pp) mod p * s + k) * cx (ir_re c, ir_im c) (pp * s + k)) acc'"
proof (rule for_in_upt [where I = "\<lambda>q. holds s (\<lambda>k. \<Sum>pp<q. cx (xh_re c, xh_im c) ((cv_head c + p - pp) mod p * s + k) *
    cx (ir_re c, ir_im c) (pp * s + k))"])
  fix i z
  assume i: "i < p" and z: "holds s (\<lambda>k. \<Sum>pp<i. cx (xh_re c, xh_im c) ((cv_head c + p - pp) mod p * s + k) *
    cx (ir_re c, ir_im c) (pp * s + k)) z"
  show "\<exists>s'. mac_partition exact c i z = Some s' \<and> holds s (\<lambda>k. \<Sum>pp<Suc i. cx (xh_re c, xh_im c) ((cv_head c + p - pp) mod p * s + k) *
    cx (ir_re c, ir_im c) (pp * s + k)) s'"
    using mac_partition_ok [OF z c i len] by simp
qed (use acc in \<open>simp_all add: holds_def cx_def complex_eq_iff\<close>)


section \<open>Overlap-save\<close>

definition window :: "nat \<Rightarrow> (nat \<Rightarrow> real) \<Rightarrow> nat \<Rightarrow> nat \<Rightarrow> real" where
  "window b x t q = (if t * b + q < 2 * b then 0 else x (t * b + q - 2 * b))"

definition tap_at :: "nat \<Rightarrow> real list \<Rightarrow> nat \<Rightarrow> nat \<Rightarrow> real" where
  "tap_at b h pp i = (if i < b \<and> pp * b + i < length h then h ! (pp * b + i) else 0)"

text \<open>The linear convolution: the output of the impulse response at sample \<open>j\<close>.\<close>

definition fir :: "real list \<Rightarrow> (nat \<Rightarrow> real) \<Rightarrow> nat \<Rightarrow> real" where
  "fir h x j = (\<Sum>m<length h. if m \<le> j then h ! m * x (j - m) else 0)"

definition circular :: "nat \<Rightarrow> real list \<Rightarrow> (nat \<Rightarrow> real) \<Rightarrow> nat \<Rightarrow> nat \<Rightarrow> nat \<Rightarrow> real" where
  "circular b h x p t q =
     (\<Sum>pp<p. \<Sum>i<2 * b. tap_at b h pp i * window b x (Suc t - pp) ((q + 2 * b - i) mod (2 * b)))"

lemma spectrum_circular:
  "(\<Sum>pp<p. spectrum (2 * b) (window b x (Suc t - pp)) k * spectrum (2 * b) (tap_at b h pp) k) =
    spectrum (2 * b) (circular b h x p t) k"
  unfolding spectrum_def circular_def dft_circular of_real_sum of_real_mult dft_sum ..

lemma circular_is_fir:
  assumes r: "r < b" and p: "length h \<le> p * b"
  shows "circular b h x p t (b + r) = fir h x (t * b + r)"
proof -
  define g where "g = (\<lambda>m. if m < length h \<and> m \<le> t * b + r then h ! m * x (t * b + r - m) else 0)"
  have each: "tap_at b h pp i * window b x (Suc t - pp) ((b + r + 2 * b - i) mod (2 * b)) =
      (if i < b then g (pp * b + i) else 0)" if "i < 2 * b" for pp i
  proof (cases "i < b")
    case True
    have "b + r + 2 * b - i = (b + r - i) + 2 * b" "b + r - i < 2 * b" using True r by linarith+
    then have q: "(b + r + 2 * b - i) mod (2 * b) = b + r - i" by (simp only: mod_add_self2 mod_less)
    show ?thesis
    proof (cases "pp \<le> t")
      case le: True
      then obtain d where d: "t = pp + d" by (rule less_eqE)
      define e where "e = d * b + r"
      have tb: "t * b + r = pp * b + e" by (simp add: d e_def distrib_right)
      have sd: "Suc t - pp = Suc d" "Suc d * b + (b + r - i) = e + 2 * b - i" using True by (simp_all add: d e_def)
      have "window b x (Suc t - pp) (b + r - i) = (if e < i then 0 else x (e - i))"
        unfolding window_def sd using True by auto
      then show ?thesis using True unfolding q g_def tb by (simp add: tap_at_def not_less)
    next
      case False
      then have "Suc t * b \<le> pp * b" by (intro mult_right_mono) auto
      then have "t * b + r < pp * b + i" using r by simp
      then show ?thesis using True False r by (simp add: q window_def g_def)
    qed
  qed (simp add: tap_at_def)
  have inner: "(\<Sum>i<2 * b. tap_at b h pp i * window b x (Suc t - pp) ((b + r + 2 * b - i) mod (2 * b))) =
      (\<Sum>m\<in>{pp * b..<pp * b + b}. g m)" for pp
  proof -
    have "(\<Sum>i<2 * b. tap_at b h pp i * window b x (Suc t - pp) ((b + r + 2 * b - i) mod (2 * b))) =
        (\<Sum>i<2 * b. if i < b then g (pp * b + i) else 0)"
      by (rule sum.cong) (use each in auto)
    also have "\<dots> = (\<Sum>i<b. g (pp * b + i))"
      by (rule sum.mono_neutral_cong_right) auto
    also have "\<dots> = (\<Sum>m\<in>{pp * b..<pp * b + b}. g m)"
      by (rule sum.reindex_bij_witness [where i = "\<lambda>m. m - pp * b" and j = "\<lambda>i. pp * b + i"]) auto
    finally show ?thesis .
  qed
  have "circular b h x p t (b + r) = (\<Sum>m<p * b. g m)"
    unfolding circular_def inner by (rule sum.nat_group)
  also have "\<dots> = (\<Sum>m<length h. g m)"
    by (rule sum.mono_neutral_right) (use p in \<open>auto simp: g_def\<close>)
  also have "\<dots> = fir h x (t * b + r)"
    unfolding fir_def g_def by (rule sum.cong) auto
  finally show ?thesis .
qed

lemma window_next:
  "map (window b x (Suc t)) [0..<2 * b] = drop b (map (window b x t) [0..<2 * b]) @ map (\<lambda>r. x (t * b + r)) [0..<b]"
  by (rule nth_equalityI) (auto simp: nth_append window_def algebra_simps)

section \<open>The convolver's state\<close>

definition parts :: "nat \<Rightarrow> 'f list \<Rightarrow> nat" where
  "parts b h = max (div_ceil (length h) b) 1"

lemma parts_cover: "0 < b \<Longrightarrow> length h \<le> parts b h * b"
proof -
  assume b: "0 < b"
  have "length h \<le> div_ceil (length h) b * b"
    using b div_mult_mod_eq [of "length h + b - 1" b] mod_less_divisor [OF b, of "length h + b - 1"]
    unfolding div_ceil_def by linarith
  also have "\<dots> \<le> parts b h * b" by (simp add: parts_def)
  finally show ?thesis .
qed

definition conv_inv :: "nat \<Rightarrow> real list \<Rightarrow> (nat \<Rightarrow> real) \<Rightarrow> nat \<Rightarrow> real convolver \<Rightarrow> bool" where
  "conv_inv b h x t c \<longleftrightarrow>
     (let s = b + 1; p = parts b h in
      cv_b c = b \<and> cv_n c = 2 * b \<and> cv_s c = s \<and> cv_p c = p \<and> cv_head c = t mod p \<and>
      length (ir_re c) = p * s \<and> length (ir_im c) = p * s \<and> length (xh_re c) = p * s \<and> length (xh_im c) = p * s \<and>
      length (cv_work c) = 4 * b + 2 * s \<and> cv_win c = map (window b x t) [0..<2 * b] \<and>
      (\<forall>pp<p. \<forall>k < s. cx (ir_re c, ir_im c) (pp * s + k) = spectrum (2 * b) (tap_at b h pp) k) \<and>
      (\<forall>pp<p. \<forall>k < s. cx (xh_re c, xh_im c) ((t + p - 1 - pp) mod p * s + k) = spectrum (2 * b) (window b x (t - pp)) k))"

lemma spectrum_0: "(\<And>i. i < n \<Longrightarrow> f i = 0) \<Longrightarrow> spectrum n f k = 0"
  by (simp add: spectrum_def dft_def)

text \<open>The slot the new block goes to holds its spectrum; every other slot ages by one.\<close>

lemma history_next:
  assumes old: "\<And>pp k. pp < p \<Longrightarrow> k < s \<Longrightarrow> z ((t + p - 1 - pp) mod p * s + k) = W (t - pp) k"
    and new: "\<And>r k. r < p \<Longrightarrow> k < s \<Longrightarrow> z' (r * s + k) = (if r = t mod p then W (Suc t) k else z (r * s + k))"
    and pp: "pp < p" "k < s"
  shows "z' ((t + p - pp) mod p * s + k) = W (Suc t - pp) k"
proof (cases pp)
  case 0
  then show ?thesis using new [of "(t + p) mod p" k] pp by simp
next
  case (Suc j)
  have ne: "(t + p - pp) mod p \<noteq> t mod p"
  proof
    assume "(t + p - pp) mod p = t mod p"
    then have "(t + p - pp) mod p = (t + p) mod p" by simp
    then have "p dvd (t + p) - (t + p - pp)" by (metis mod_eq_dvd_iff_nat diff_le_self)
    then show False using pp Suc by (simp add: nat_dvd_not_less)
  qed
  have "(t + p - pp) mod p < p" using pp by simp
  then have "z' ((t + p - pp) mod p * s + k) = z ((t + p - pp) mod p * s + k)" using new pp(2) ne by simp
  moreover have "t + p - 1 - j = t + p - pp" using Suc by simp
  moreover have "t - j = Suc t - pp" using Suc by simp
  ultimately show ?thesis using old [of j k] pp Suc by simp
qed


lemma conv_invD:
  assumes "conv_inv b h x t c"
  shows "cv_b c = b" "cv_n c = 2 * b" "cv_s c = b + 1" "cv_p c = parts b h" "cv_head c = t mod parts b h"
    "length (ir_re c) = parts b h * (b + 1)" "length (ir_im c) = parts b h * (b + 1)"
    "length (xh_re c) = parts b h * (b + 1)" "length (xh_im c) = parts b h * (b + 1)"
    "length (cv_work c) = 4 * b + 2 * (b + 1)" "cv_win c = map (window b x t) [0..<2 * b]"
    "\<And>pp k. pp < parts b h \<Longrightarrow> k < b + 1 \<Longrightarrow> cx (ir_re c, ir_im c) (pp * (b + 1) + k) = spectrum (2 * b) (tap_at b h pp) k"
    "\<And>pp k. pp < parts b h \<Longrightarrow> k < b + 1 \<Longrightarrow>
       cx (xh_re c, xh_im c) ((t + parts b h - 1 - pp) mod parts b h * (b + 1) + k) = spectrum (2 * b) (window b x (t - pp)) k"
  using assms unfolding conv_inv_def Let_def by blast+

lemma split_at_mut_ok: "n \<le> length xs \<Longrightarrow> split_at_mut xs n = Some (take n xs, drop n xs)"
  by (simp add: split_at_mut_def)

lemma process_block_ok:
  assumes m: "m \<le> 10" and b: "b = 2 ^ m" and c: "conv_inv b h x t c" and out: "length out = b"
  shows "\<exists>c'. process_block exact c (map (\<lambda>r. x (t * b + r)) [0..<b]) out = Some (map (\<lambda>r. fir h x (t * b + r)) [0..<b], c') \<and>
    conv_inv b h x (Suc t) c'"
proof -
  let ?p = "parts b h" and ?s = "b + 1" and ?in = "map (\<lambda>r. x (t * b + r)) [0..<b]"
  note inv = conv_invD [OF c]
  have p: "0 < ?p" by (simp add: parts_def)
  have b0: "0 < b" by (simp add: b)
  define win where "win = map (window b x (Suc t)) [0..<2 * b]"
  have w: "drop b (cv_win c) @ drop (length (cv_win c) - b) (cv_win c) = drop b (cv_win c) @ drop b (cv_win c)"
    "length (drop b (drop b (cv_win c) @ drop b (cv_win c))) = length ?in"
    "take b (drop b (cv_win c) @ drop b (cv_win c)) @ ?in = win"
    unfolding win_def window_next by (simp_all add: inv)
  define w0 where "w0 = cv_work c"
  define sre sim are aim tout where "sre = take b w0" and "sim = take b (drop b w0)" and "are = take ?s (drop b (drop b w0))"
    and "aim = take ?s (drop ?s (drop b (drop b w0)))" and "tout = drop ?s (drop ?s (drop b (drop b w0)))"
  have lw: "length w0 = 4 * b + 2 * ?s" using inv(10) by (simp add: w0_def)
  have len: "length sre = 2 ^ m" "length sim = 2 ^ m" "length are = ?s" "length aim = ?s" "length tout = 2 * b"
    using lw by (simp_all add: sre_def sim_def are_def aim_def tout_def b [symmetric])
  have head: "cv_head c < ?p" using inv(5) p by simp
  have lwin: "length win = 2 * 2 ^ m" "\<forall>i < 2 * 2 ^ m. win ! i = window b x (Suc t) i"
    by (simp_all add: win_def b)
  have s: "?s = 2 ^ m + 1" by (simp add: b)
  define o0 where "o0 = cv_head c * ?s"
  obtain sre' sim' ore oim where fw: "RealFft_new sre sim = Some (sre, sim)"
    "slice (xh_re c) (o0) ?s = Some (take ?s (drop (o0) (xh_re c)))"
    "slice (xh_im c) (o0) ?s = Some (take ?s (drop (o0) (xh_im c)))"
    "RealFft_forward exact (sre, sim) win (take ?s (drop (o0) (xh_re c)), take ?s (drop (o0) (xh_im c))) =
      Some ((sre', sim'), (ore, oim))"
    "length sre' = 2 ^ m" "length sim' = 2 ^ m"
    "length (put_slice (xh_re c) (o0) ore) = ?p * ?s" "length (put_slice (xh_im c) (o0) oim) = ?p * ?s"
    "\<forall>r' k. r' < ?p \<longrightarrow> k < ?s \<longrightarrow> cx (put_slice (xh_re c) (o0) ore, put_slice (xh_im c) (o0) oim) (r' * ?s + k) =
      (if r' = cv_head c then spectrum (2 * 2 ^ m) (window b x (Suc t)) k else cx (xh_re c, xh_im c) (r' * ?s + k))"
    using forward_slot [OF m len(1,2) lwin inv(8,9) head s] unfolding o0_def [symmetric] by (elim exE conjE)
  define c1 where "c1 = c\<lparr>cv_win := win, xh_re := put_slice (xh_re c) (o0) ore,
                  xh_im := put_slice (xh_im c) (o0) oim\<rparr>"
  have slots: "cx (xh_re c1, xh_im c1) ((t + ?p - pp) mod ?p * ?s + k) = spectrum (2 * b) (window b x (Suc t - pp)) k"
    if "pp < ?p" "k < ?s" for pp k
    by (rule history_next [where z = "cx (xh_re c, xh_im c)" and W = "\<lambda>j. spectrum (2 * b) (window b x j)", OF inv(13) _ that])
      (use fw(9) in \<open>simp_all add: c1_def b [symmetric] inv(5)\<close>)
  have c1: "cv_s c1 = ?s" "cv_p c1 = ?p" "length (xh_re c1) = ?p * ?s" "length (xh_im c1) = ?p * ?s"
    "length (ir_re c1) = ?p * ?s" "length (ir_im c1) = ?p * ?s"
    using fw(7,8) inv by (simp_all add: c1_def)
  obtain acc where acc: "for_in (mac_partition exact c1) [0..<?p] (map (\<lambda>_. 0) are, map (\<lambda>_. 0) aim) = Some acc"
    "holds ?s (\<lambda>k. \<Sum>pp<?p. cx (xh_re c1, xh_im c1) ((cv_head c1 + ?p - pp) mod ?p * ?s + k) * cx (ir_re c1, ir_im c1) (pp * ?s + k)) acc"
    using mac_all_ok [of "(are, aim)", OF _ _ c1(1,2) p c1(3-6)] len by (auto simp del: split_paired_Ex)
  have acc_is: "cx acc k = spectrum (2 * b) (circular b h x ?p t) k" if "k \<le> b" for k
  proof -
    have k: "k < ?s" using that by simp
    have h: "(cv_head c1 + ?p - pp) mod ?p = (t + ?p - pp) mod ?p" if "pp < ?p" for pp
    proof -
      have "(t mod ?p + (?p - pp)) mod ?p = (t + (?p - pp)) mod ?p" by (rule mod_add_left_eq)
      then show ?thesis using that by (simp add: c1_def inv(5))
    qed
    have "cx acc k = (\<Sum>pp<?p. spectrum (2 * b) (window b x (Suc t - pp)) k * spectrum (2 * b) (tap_at b h pp) k)"
      using acc(2) k inv(12) slots by (simp add: holds_def h) (simp add: c1_def)
    then show ?thesis by (simp add: spectrum_circular)
  qed
  define y where "y = map (circular b h x ?p t) [0..<2 * b]"
  have spec_y: "cx acc k = dft (2 * 2 ^ m) (\<lambda>i. of_real (y ! i)) k" if "k \<le> 2 ^ m" for k
    using acc_is [of k] that unfolding spectrum_def b [symmetric]
    by (simp add: y_def dft_def)
  have lacc: "length (fst acc) = 2 ^ m + 1" "length (snd acc) = 2 ^ m + 1" using acc(2) by (simp_all add: holds_def b)
  have new2: "RealFft_new sre' sim' = Some (sre', sim')" using fw(5,6) by (simp add: RealFft_new_def)
  have "\<exists>sc. real_inverse exact (sre', sim') acc tout (2 * 2 ^ m) = Some (sc, y) \<and> length (fst sc) = 2 ^ m \<and> length (snd sc) = 2 ^ m"
    by (rule real_inverse_ok [OF m _ _ lacc _ spec_y]) (use fw(5,6) len(5) in \<open>simp_all add: y_def b\<close>)
  then obtain sre2 sim2 where iv: "RealFft_inverse exact (sre', sim') acc tout = Some ((sre2, sim2), y)"
    "length sre2 = b" "length sim2 = b"
    using fw(5) by (auto simp: RealFft_inverse_def RealFft_n_def mult.commute b)
  have tail: "slice y b (2 * b - b) = Some (map (\<lambda>r. fir h x (t * b + r)) [0..<b])"
  proof -
    have "take b (drop b y) = map (\<lambda>r. circular b h x ?p t (b + r)) [0..<b]"
      by (rule nth_equalityI) (simp_all add: y_def)
    also have "\<dots> = map (\<lambda>r. fir h x (t * b + r)) [0..<b]"
      using circular_is_fir [OF _ parts_cover [OF b0]] by simp
    finally show ?thesis by (simp add: slice_def y_def)
  qed
  define c' where "c' = c1\<lparr>cv_work := sre2 @ sim2 @ fst acc @ snd acc @ y, cv_head := (cv_head c + 1) mod ?p\<rparr>"
  have splits: "split_at_mut w0 b = Some (sre, drop b w0)" "split_at_mut (drop b w0) b = Some (sim, drop b (drop b w0))"
    "split_at_mut (drop b (drop b w0)) ?s = Some (are, drop ?s (drop b (drop b w0)))"
    "split_at_mut (drop ?s (drop b (drop b w0))) ?s = Some (aim, tout)"
    using lw by (simp_all add: split_at_mut_ok sre_def sim_def are_def aim_def tout_def)
  have "process_block exact c ?in out = Some (map (\<lambda>r. fir h x (t * b + r)) [0..<b], c')"
    unfolding process_block_def Let_def inv(1-4) w0_def [symmetric] w(1) o0_def [symmetric]
    using w(3) splits fw(1-4) acc(1) new2 iv(1) tail out p inv(11)
    by (simp add: c1_def [symmetric] c'_def)
  moreover have "conv_inv b h x (Suc t) c'"
    unfolding conv_inv_def Let_def
    using inv c1 slots iv(2,3) lacc by (simp add: c'_def) (simp add: c1_def win_def y_def b mod_Suc_eq)
  ultimately show ?thesis by blast
qed


section \<open>Construction\<close>

lemma tables_ok_exact: "tables_ok exact"
  by (simp add: tables_ok_def exact_def)

definition build_len :: "nat \<Rightarrow> nat \<Rightarrow> 'f list \<times> 'f planar \<times> 'f planar \<Rightarrow> bool" where
  "build_len b p = (\<lambda>(frame, scratch, h). length frame = 2 * b \<and> planar_len b scratch \<and> planar_len (p * (b + 1)) h)"

lemma ir_partition_total:
  assumes F: "tables_ok F" and b: "b = 2 ^ m" "m \<le> 11" and z: "build_len b p z" and pp: "pp < p"
  shows "\<exists>z'. ir_partition F ir b (b + 1) pp z = Some z' \<and> build_len b p z'"
proof -
  obtain frame sre sim hre him where zz: "z = (frame, (sre, sim), (hre, him))" by (metis prod.exhaust)
  let ?f = "map (\<lambda>i. let tap = pp * b + i in if i < b \<and> tap < length ir then ir ! tap else fl_nat F 0) [0..<length frame]"
  let ?o = "(take (b + 1) (drop (pp * (b + 1)) hre), take (b + 1) (drop (pp * (b + 1)) him))"
  have len: "length frame = 2 * b" "length sre = b" "length sim = b" "length hre = p * (b + 1)" "length him = p * (b + 1)"
    using z by (simp_all add: zz build_len_def planar_len_def)
  have fit: "pp * (b + 1) + (b + 1) \<le> p * (b + 1)" by (rule slot_bound [OF pp])
  obtain sc o' where fw: "real_forward F (sre, sim) ?f ?o (2 * 2 ^ m) = Some (sc, o')" "planar_len b sc" "planar_len (b + 1) o'"
    using real_forward_total [OF F b(2), of "(sre, sim)" ?f ?o] len fit by (auto simp: planar_len_def b(1))
  obtain ore oim where o': "o' = (ore, oim)" by (cases o')
  have "RealFft_forward F (sre, sim) ?f ?o = Some (sc, (ore, oim))"
    using fw(1) len by (simp add: RealFft_forward_def RealFft_n_def b(1) mult.commute o')
  moreover have "RealFft_new sre sim = Some (sre, sim)" using len by (simp add: RealFft_new_def b(1))
  ultimately have "ir_partition F ir b (b + 1) pp z =
      Some (?f, sc, (put_slice hre (pp * (b + 1)) ore, put_slice him (pp * (b + 1)) oim))"
    using fit len by (simp add: ir_partition_def zz slice_ok Let_def)
  moreover have "build_len b p (?f, sc, (put_slice hre (pp * (b + 1)) ore, put_slice him (pp * (b + 1)) oim))"
    using fit len fw(2,3) by (simp add: build_len_def planar_len_def o')
  ultimately show ?thesis by blast
qed

definition required :: "nat \<Rightarrow> nat \<Rightarrow> nat" where
  "required p b = 4 * (p * (b + 1)) + 2 * b + (4 * b + 2 * (b + 1))"

lemma required_scratch_eq: "0 < b \<Longrightarrow> conv_required_scratch (length ir) b = Some (required (parts b ir) b)"
  by (simp add: conv_required_scratch_def required_def parts_def Let_def mult.assoc)

lemma build_loop_total:
  assumes F: "tables_ok F" and b: "b = 2 ^ m" "m \<le> 11" and z: "build_len b p z"
  shows "\<exists>z'. for_in (ir_partition F ir b (b + 1)) [0..<p] z = Some z' \<and> build_len b p z'"
  by (rule for_in_upt [where I = "\<lambda>_. build_len b p", OF z]) (simp, rule ir_partition_total [OF F b])

text \<open>The carving of the scratch, and what is left in its last part.\<close>

lemma Convolver_new_shape:
  assumes F: "tables_ok F" and b: "b = 2 ^ m" "3 \<le> m" "m \<le> 10" and len: "required (parts b ir) b \<le> length scratch"
  obtains z0 frame sre sim hre him c where
    "build_len b (parts b ir) z0"
    "for_in (ir_partition F ir b (b + 1)) [0..<parts b ir] z0 = Some (frame, (sre, sim), (hre, him))"
    "build_len b (parts b ir) (frame, (sre, sim), (hre, him))"
    "Convolver_new F ir b scratch = Some c"
    "cv_b c = b" "cv_n c = 2 * b" "cv_s c = b + 1" "cv_p c = parts b ir" "cv_head c = 0" "ir_re c = hre" "ir_im c = him"
    "xh_re c = replicate (parts b ir * (b + 1)) (fl_nat F 0)" "xh_im c = replicate (parts b ir * (b + 1)) (fl_nat F 0)"
    "cv_win c = replicate (2 * b) (fl_nat F 0)"
    "length (cv_work c) = 4 * b + 2 * (b + 1) + (length scratch - required (parts b ir) b)"
proof -
  let ?p = "parts b ir"
  define P where "P = ?p * (b + 1)"
  have L: "4 * P + 2 * b + (4 * b + 2 * (b + 1)) \<le> length scratch" using len by (simp add: required_def P_def)
  define zs where "zs = replicate P (fl_nat F 0)"
  define work where "work = drop (2 * b) (drop P (drop P (drop P (drop P scratch))))"
  have lw: "length work = length scratch - (4 * P + 2 * b)" by (simp add: work_def)
  define z0 where "z0 = (take (2 * b) work, (take b (drop (2 * b) work), take b (drop b (drop (2 * b) work))), (zs, zs))"
  have z0: "build_len b ?p z0"
    using lw L by (simp add: z0_def build_len_def planar_len_def zs_def P_def)
  have m11: "m \<le> 11" using b(3) by simp
  obtain frame sre sim hre him where run: "for_in (ir_partition F ir b (b + 1)) [0..<?p] z0 = Some (frame, (sre, sim), (hre, him))"
    "build_len b ?p (frame, (sre, sim), (hre, him))"
    using build_loop_total [OF F b(1) m11 z0, of ir] by (elim exE conjE) (metis prod.exhaust)
  have big: "is_power_of_two b" "8 \<le> b"
  proof -
    show "is_power_of_two b" by (simp add: b(1))
    have "(2::nat) ^ 3 \<le> 2 ^ m" using b(2) by (rule power_increasing) simp
    then show "8 \<le> b" by (simp add: b(1))
  qed
  define c where "c = \<lparr>cv_b = b, cv_n = 2 * b, cv_s = b + 1, cv_p = ?p, cv_head = 0, ir_re = hre, ir_im = him,
    xh_re = zs, xh_im = zs, cv_win = replicate (2 * b) (fl_nat F 0), cv_work = frame @ sre @ sim @ drop b (drop b (drop (2 * b) work))\<rparr>"
  have zeros: "map (\<lambda>_. fl_nat F 0) (take P xs) = zs" if "P \<le> length xs" for xs :: "'a list"
    using that by (intro nth_equalityI) (simp_all add: zs_def)
  have new: "Convolver_new F ir b scratch = Some c"
  proof -
    have pe: "max (div_ceil (length ir) b) 1 = ?p" "2 * b div 2 + 1 = b + 1" "?p * (b + 1) = P"
      by (simp_all add: parts_def P_def)
    have sp: "split_at_mut scratch P = Some (take P scratch, drop P scratch)"
      "split_at_mut (drop P scratch) P = Some (take P (drop P scratch), drop P (drop P scratch))"
      "split_at_mut (drop P (drop P scratch)) P = Some (take P (drop P (drop P scratch)), drop P (drop P (drop P scratch)))"
      "split_at_mut (drop P (drop P (drop P scratch))) P = Some (take P (drop P (drop P (drop P scratch))), drop P (drop P (drop P (drop P scratch))))"
      "split_at_mut (drop P (drop P (drop P (drop P scratch)))) (2 * b) = Some (take (2 * b) (drop P (drop P (drop P (drop P scratch)))), work)"
      "split_at_mut work (2 * b) = Some (take (2 * b) work, drop (2 * b) work)"
      "split_at_mut (drop (2 * b) work) (2 * b div 2) = Some (take b (drop (2 * b) work), drop b (drop (2 * b) work))"
      "split_at_mut (drop b (drop (2 * b) work)) (2 * b div 2) = Some (take b (drop b (drop (2 * b) work)), drop b (drop b (drop (2 * b) work)))"
      using L lw unfolding work_def [symmetric] by (simp_all add: split_at_mut_ok del: drop_drop) (simp_all add: work_def)
    have z: "map (\<lambda>_. fl_nat F 0) (take P scratch) = zs" "map (\<lambda>_. fl_nat F 0) (take P (drop P scratch)) = zs"
      "map (\<lambda>_. fl_nat F 0) (take P (drop P (drop P scratch))) = zs" "map (\<lambda>_. fl_nat F 0) (take P (drop P (drop P (drop P scratch)))) = zs"
      using L by (simp_all add: zeros)
    have w: "map (\<lambda>_. fl_nat F 0) (take (2 * b) (drop P (drop P (drop P (drop P scratch))))) = replicate (2 * b) (fl_nat F 0)"
      using L by (intro nth_equalityI) simp_all
    have rq: "conv_required_scratch (length ir) b = Some (required ?p b)" using big by (intro required_scratch_eq) simp
    show ?thesis
      unfolding Convolver_new_def Let_def pe
      using big len sp z w rq run(1) unfolding z0_def
      by (simp add: c_def del: drop_drop)
  qed
  have "length (cv_work c) = 4 * b + 2 * (b + 1) + (length scratch - required ?p b)"
    using run(2) lw L by (simp add: c_def build_len_def planar_len_def required_def P_def)
  then show thesis
    by (intro that [OF z0 run new]) (simp_all add: c_def zs_def P_def)
qed


lemma build_loop_exact:
  assumes b: "b = 2 ^ m" "m \<le> 10" and z0: "build_len b p z0"
    and run: "for_in (ir_partition exact h b (b + 1)) [0..<p] z0 = Some (frame, scratch, taps)"
    and pk: "pp < p" "k < b + 1"
  shows "cx taps (pp * (b + 1) + k) = spectrum (2 * b) (tap_at b h pp) k"
proof -
  define I where "I = (\<lambda>q z. build_len b p z \<and>
    (\<forall>pp<q. \<forall>k < b + 1. cx (snd (snd z)) (pp * (b + 1) + k) = spectrum (2 * b) (tap_at b h pp) k))"
  have step: "\<exists>z'. ir_partition exact h b (b + 1) q z = Some z' \<and> I (Suc q) z'" if q: "q < p" and "I q z" for q z
  proof -
    obtain frame sre sim hre him where z: "z = (frame, (sre, sim), (hre, him))" by (metis prod.exhaust)
    let ?f = "map (tap_at b h q) [0..<2 * b]"
    have len: "length frame = 2 * b" "length sre = 2 ^ m" "length sim = 2 ^ m" "length hre = p * (b + 1)" "length him = p * (b + 1)"
      using \<open>I q z\<close> by (simp_all add: I_def z build_len_def planar_len_def b(1))
    have f: "length ?f = 2 * 2 ^ m" "\<forall>i < 2 * 2 ^ m. ?f ! i = tap_at b h q i" by (simp_all add: b(1))
    have s: "b + 1 = 2 ^ m + 1" by (simp add: b(1))
    obtain sre' sim' ore oim where fw: "RealFft_new sre sim = Some (sre, sim)"
      "slice hre (q * (b + 1)) (b + 1) = Some (take (b + 1) (drop (q * (b + 1)) hre))"
      "slice him (q * (b + 1)) (b + 1) = Some (take (b + 1) (drop (q * (b + 1)) him))"
      "RealFft_forward exact (sre, sim) ?f (take (b + 1) (drop (q * (b + 1)) hre), take (b + 1) (drop (q * (b + 1)) him)) =
        Some ((sre', sim'), (ore, oim))"
      "length sre' = 2 ^ m" "length sim' = 2 ^ m"
      "length (put_slice hre (q * (b + 1)) ore) = p * (b + 1)" "length (put_slice him (q * (b + 1)) oim) = p * (b + 1)"
      "\<forall>r' k. r' < p \<longrightarrow> k < b + 1 \<longrightarrow> cx (put_slice hre (q * (b + 1)) ore, put_slice him (q * (b + 1)) oim) (r' * (b + 1) + k) =
        (if r' = q then spectrum (2 * 2 ^ m) (tap_at b h q) k else cx (hre, him) (r' * (b + 1) + k))"
      using forward_slot [OF b(2) len(2,3) f len(4,5) q s] by (elim exE conjE)
    let ?z = "(?f, (sre', sim'), (put_slice hre (q * (b + 1)) ore, put_slice him (q * (b + 1)) oim))"
    have "ir_partition exact h b (b + 1) q z = Some ?z"
      using fw(1-4) unfolding tap_at_def by (simp add: ir_partition_def z len(1) Let_def cong: if_cong)
    moreover have "I (Suc q) ?z"
      unfolding I_def build_len_def planar_len_def prod.case fst_conv snd_conv
    proof (intro conjI allI impI)
      fix pp k assume pp: "pp < Suc q" "k < b + 1"
      then show "cx (put_slice hre (q * (b + 1)) ore, put_slice him (q * (b + 1)) oim) (pp * (b + 1) + k) =
          spectrum (2 * b) (tap_at b h pp) k"
        using fw(9) [rule_format, of pp k] \<open>I q z\<close> q by (auto simp: I_def z b(1) less_Suc_eq)
    qed (use fw(5-8) b(1) in simp_all)
    ultimately show ?thesis by blast
  qed
  have "\<exists>z. for_in (ir_partition exact h b (b + 1)) [0..<p] z0 = Some z \<and> I p z"
    by (rule for_in_upt [where I = I]) (use z0 in \<open>simp add: I_def\<close>, simp, rule step)
  then have "I p (frame, scratch, taps)" using run by auto
  then show ?thesis using pk by (simp add: I_def)
qed

lemma Convolver_new_ok:
  assumes b: "b = 2 ^ m" "3 \<le> m" "m \<le> 10" and len: "length scratch = required (parts b h) b"
  shows "\<exists>c. Convolver_new exact h b scratch = Some c \<and> conv_inv b h x 0 c"
proof -
  have le: "required (parts b h) b \<le> length scratch" using len by simp
  obtain z0 frame sre sim hre him c where
    "build_len b (parts b h) z0"
    "for_in (ir_partition exact h b (b + 1)) [0..<parts b h] z0 = Some (frame, (sre, sim), (hre, him))"
    "build_len b (parts b h) (frame, (sre, sim), (hre, him))"
    "Convolver_new exact h b scratch = Some c"
    "cv_b c = b" "cv_n c = 2 * b" "cv_s c = b + 1" "cv_p c = parts b h" "cv_head c = 0" "ir_re c = hre" "ir_im c = him"
    "xh_re c = replicate (parts b h * (b + 1)) (fl_nat exact 0)" "xh_im c = replicate (parts b h * (b + 1)) (fl_nat exact 0)"
    "cv_win c = replicate (2 * b) (fl_nat exact 0)"
    "length (cv_work c) = 4 * b + 2 * (b + 1) + (length scratch - required (parts b h) b)"
    by (rule Convolver_new_shape [OF tables_ok_exact b le])
  note c = this
  have taps: "cx (hre, him) (pp * (b + 1) + k) = spectrum (2 * b) (tap_at b h pp) k" if "pp < parts b h" "k < b + 1" for pp k
    by (rule build_loop_exact [OF b(1,3) c(1,2) that])
  have p: "0 < parts b h" by (simp add: parts_def)
  have z: "cx (xh_re c, xh_im c) (r * (b + 1) + k) = 0" if "r < parts b h" "k < b + 1" for r k
    using slot_index [OF that] unfolding c(12,13) by (simp add: cx_def complex_eq_iff del: mult_Suc_right)
  have w0: "spectrum (2 * b) (window b x (0 - pp)) k = 0" for pp k
    by (rule spectrum_0) (simp add: window_def)
  have win: "cv_win c = map (window b x 0) [0..<2 * b]"
    unfolding c(14) by (rule nth_equalityI) (simp_all add: window_def)
  have "conv_inv b h x 0 c"
    unfolding conv_inv_def Let_def
  proof (intro conjI allI impI)
    fix pp k assume "pp < parts b h" "k < b + 1"
    then show "cx (ir_re c, ir_im c) (pp * (b + 1) + k) = spectrum (2 * b) (tap_at b h pp) k"
      using taps c(10,11) by simp
    show "cx (xh_re c, xh_im c) ((0 + parts b h - 1 - pp) mod parts b h * (b + 1) + k) = spectrum (2 * b) (window b x (0 - pp)) k"
      unfolding w0 by (rule z) (use p \<open>k < b + 1\<close> in simp_all)
  qed (use c(3,5-13,15) win len in \<open>simp_all add: build_len_def planar_len_def\<close>)
  then show ?thesis using c(4) by blast
qed

section \<open>Streams\<close>

text \<open>A run of calls, each into the block the last one filled.\<close>

fun conv_stream :: "'f flops \<Rightarrow> 'f convolver \<Rightarrow> 'f list \<Rightarrow> 'f list list \<Rightarrow> ('f list list \<times> 'f convolver) option" where
  "conv_stream F c out [] = Some ([], c)"
| "conv_stream F c out (blk # blks) = do {
     (y, c) \<leftarrow> process_block F c blk out;
     (ys, c) \<leftarrow> conv_stream F c y blks;
     Some (y # ys, c)
   }"

lemma conv_stream_ok:
  assumes b: "b = 2 ^ m" "m \<le> 10"
  shows "conv_inv b h x t c \<Longrightarrow> length out = b \<Longrightarrow> blks = map (\<lambda>j. map (\<lambda>r. x (j * b + r)) [0..<b]) [t..<t + n] \<Longrightarrow>
    \<exists>c'. conv_stream exact c out blks = Some (map (\<lambda>j. map (\<lambda>r. fir h x (j * b + r)) [0..<b]) [t..<t + n], c') \<and>
      conv_inv b h x (t + n) c'"
proof (induction n arbitrary: t c out blks)
  case 0
  then show ?case by simp
next
  case (Suc n)
  obtain c1 where c1: "process_block exact c (map (\<lambda>r. x (t * b + r)) [0..<b]) out = Some (map (\<lambda>r. fir h x (t * b + r)) [0..<b], c1)"
    "conv_inv b h x (Suc t) c1"
    using process_block_ok [OF b(2,1) Suc.prems(1,2)] by blast
  have u: "[t..<t + Suc n] = t # [Suc t..<Suc t + n]" by (simp add: upt_conv_Cons)
  obtain c2 where "conv_stream exact c1 (map (\<lambda>r. fir h x (t * b + r)) [0..<b]) (map (\<lambda>j. map (\<lambda>r. x (j * b + r)) [0..<b]) [Suc t..<Suc t + n]) =
      Some (map (\<lambda>j. map (\<lambda>r. fir h x (j * b + r)) [0..<b]) [Suc t..<Suc t + n], c2)" "conv_inv b h x (Suc t + n) c2"
    using Suc.IH [OF c1(2) _ refl, of "map (\<lambda>r. fir h x (t * b + r)) [0..<b]", unfolded length_map length_upt minus_nat.diff_0, OF refl]
    by (elim exE conjE)
  then show ?case using c1(1) unfolding Suc.prems(3) u by simp
qed

section \<open>Properties\<close>

text \<open>C2: In exact arithmetic, for block sizes that are a power of two from 8 to 1024 and a scratch of exactly the
  required length, the convolver is the linear convolution: whatever the impulse response and the blocks
  fed, the blocks put out, end to end, are the impulse response convolved with the input, sample for sample, with no
  delay and no wrap-around. The bounds are needed: the constructor also accepts blocks of 2048, whose transform of 4096
  is wrong (\<open>real_fft_4096_wrong\<close>), and a longer scratch, which panics in the first block (\<open>long_scratch_panics\<close>).\<close>

theorem convolver_is_fir:
  assumes "b = 2 ^ m" "3 \<le> m" "m \<le> 10" "conv_required_scratch (length ir) b = Some (length scratch)"
    "\<forall>blk\<in>set blocks. length blk = b" "length buf = b"
  shows "\<exists>c outs c'. Convolver_new exact ir b scratch = Some c \<and> conv_stream exact c buf blocks = Some (outs, c') \<and>
    concat outs = map (\<lambda>j. \<Sum>k<length ir. if k \<le> j then ir ! k * concat blocks ! (j - k) else 0) [0..<length (concat blocks)]"
proof -
  let ?x = "\<lambda>i. concat blocks ! i"
  have "length scratch = required (parts b ir) b"
    using assms(4) required_scratch_eq [of b ir] assms(1) by simp
  then obtain c where c: "Convolver_new exact ir b scratch = Some c" "conv_inv b ir ?x 0 c"
    using Convolver_new_ok [OF assms(1-3)] by blast
  have "blocks = map (\<lambda>j. map (\<lambda>r. ?x (j * b + r)) [0..<b]) [0..<0 + length blocks]"
    using assms(5) by (intro nth_equalityI) (auto simp: concat_nth_block intro!: nth_equalityI)
  from conv_stream_ok [OF assms(1,3) c(2) assms(6) this] obtain c' where
    "conv_stream exact c buf blocks = Some (map (\<lambda>j. map (\<lambda>r. fir ir ?x (j * b + r)) [0..<b]) [0..<length blocks], c')"
    by auto
  moreover have "concat (map (\<lambda>j. map (\<lambda>r. fir ir ?x (j * b + r)) [0..<b]) [0..<length blocks]) =
      map (fir ir ?x) [0..<length (concat blocks)]"
    unfolding concat_map_upt length_concat_blocks [OF assms(5)] ..
  ultimately show ?thesis using c(1) unfolding fir_def by blast
qed

lemma convolver_is_fir_witness:
  "\<exists>c outs c'. Convolver_new exact [0, 1] 8 (replicate 102 0) = Some c \<and>
     conv_stream exact c (replicate 8 0) [[1, 2, 3, 4, 5, 6, 7, 8]] = Some (outs, c') \<and> concat outs = [0, 1, 2, 3, 4, 5, 6, 7]"
proof -
  have rq: "conv_required_scratch (length [0, 1 :: real]) 8 = Some (length (replicate 102 (0 :: real)))"
    by (simp add: conv_required_scratch_def div_ceil_def Let_def)
  have "(8 :: nat) = 2 ^ 3" by simp
  from convolver_is_fir [OF this _ _ rq, of "[[1, 2, 3, 4, 5, 6, 7, 8]]" "replicate 8 0"]
  obtain c outs c' where c: "Convolver_new exact [0, 1] 8 (replicate 102 0) = Some c"
    "conv_stream exact c (replicate 8 0) [[1, 2, 3, 4, 5, 6, 7, 8]] = Some (outs, c')"
    and o: "concat outs = map (\<lambda>j. \<Sum>k<length [0, 1 :: real]. if k \<le> j then [0, 1] ! k * concat [[1, 2, 3, 4, 5, 6, 7, 8]] ! (j - k) else 0)
      [0..<length (concat [[1, 2, 3, 4, 5, 6, 7, 8 :: real]])]"
    by (simp del: conv_stream.simps) (elim exE conjE)
  have "concat outs = [0, 1, 2, 3, 4, 5, 6, 7]"
    unfolding o by (simp add: eval_nat_numeral)
  then show ?thesis using c by blast
qed

text \<open>C40: A scratch slice longer than required is accepted by the constructor, as its documentation allows, and panics
  in the first block: the inverse transform is handed all that is left of the scratch and insists on its own length.\<close>

theorem long_scratch_panics:
  assumes "length (TW_COS F) = TW_MASTER" "length (TW_SIN F) = TW_MASTER"
    "b = 2 ^ m" "3 \<le> m" "m \<le> 10" "conv_required_scratch (length ir) b = Some need" "need < length scratch"
  shows "\<exists>c. Convolver_new F ir b scratch = Some c \<and> process_block F c blk out = None"
proof -
  have F: "tables_ok F" using assms(1,2) by (simp add: tables_ok_def)
  let ?p = "parts b ir"
  have need: "need = required ?p b" using assms(6) required_scratch_eq [of b ir] assms(3) by simp
  have le: "required ?p b \<le> length scratch" using assms(7) need by simp
  obtain z0 frame sre sim hre him c where new: "Convolver_new F ir b scratch = Some c"
    and c: "cv_b c = b" "cv_n c = 2 * b" "cv_s c = b + 1" "cv_p c = ?p" "cv_head c = 0"
    "xh_re c = replicate (?p * (b + 1)) (fl_nat F 0)" "xh_im c = replicate (?p * (b + 1)) (fl_nat F 0)"
    "cv_win c = replicate (2 * b) (fl_nat F 0)"
    "length (cv_work c) = 4 * b + 2 * (b + 1) + (length scratch - required ?p b)"
    by (rule Convolver_new_shape [OF F assms(3-5) le])
  have "1 * (b + 1) \<le> ?p * (b + 1)" by (intro mult_right_mono) (simp_all add: parts_def)
  then have p: "b + 1 \<le> ?p * (b + 1)" by simp
  define extra where "extra = length scratch - required ?p b"
  have extra: "0 < extra" using assms(7) need by (simp add: extra_def)
  let ?w0 = "cv_work c"
  have lw: "length ?w0 = 4 * b + 2 * (b + 1) + extra" using c(9) by (simp add: extra_def)
  define sre sim tout where "sre = take b ?w0" and "sim = take b (drop b ?w0)"
    and "tout = drop (b + 1) (drop (b + 1) (drop b (drop b ?w0)))"
  have ls: "length sre = b" "length sim = b" "length tout = 2 * b + extra" using lw by (simp_all add: sre_def sim_def tout_def)
  have none: "RealFft_inverse F s acc tout = None" if "length (fst s) = b" for s acc
    using that ls(3) extra by (cases s) (simp add: RealFft_inverse_def real_inverse_def RealFft_n_def Let_def)
  let ?z = "take (b + 1) (replicate (?p * (b + 1)) (fl_nat F 0))"
  have fw: "\<exists>sre' sim' o'. RealFft_forward F (sre, sim) (drop b (cv_win c) @ blk) (?z, ?z) = Some ((sre', sim'), o') \<and> length sre' = b \<and> length sim' = b"
    if "length blk = b"
  proof -
    have "\<exists>sc o'. real_forward F (sre, sim) (drop b (cv_win c) @ blk) (?z, ?z) (2 * 2 ^ m) = Some (sc, o') \<and>
        planar_len (2 ^ m) sc \<and> planar_len (2 ^ m + 1) o'"
      by (rule real_forward_total [OF F]) (use assms(3,5) ls that c(8) p in \<open>simp_all add: planar_len_def min_def\<close>)
    then show ?thesis using ls assms(3) by (auto simp: RealFft_forward_def RealFft_n_def mult.commute planar_len_def)
  qed
  have splits: "split_at_mut ?w0 b = Some (sre, drop b ?w0)" "split_at_mut (drop b ?w0) b = Some (sim, drop b (drop b ?w0))"
    "split_at_mut (drop b (drop b ?w0)) (b + 1) = Some (take (b + 1) (drop b (drop b ?w0)), drop (b + 1) (drop b (drop b ?w0)))"
    "split_at_mut (drop (b + 1) (drop b (drop b ?w0))) (b + 1) = Some (take (b + 1) (drop (b + 1) (drop b (drop b ?w0))), tout)"
    using lw by (simp_all add: split_at_mut_ok sre_def sim_def tout_def)
  have pow: "is_power_of_two b" by (simp add: assms(3))
  have "process_block F c blk out = None"
  proof (cases "length blk = b")
    case True
    then obtain sre' sim' ore oim where f: "RealFft_forward F (sre, sim) (drop b (cv_win c) @ blk) (?z, ?z) = Some ((sre', sim'), (ore, oim))"
      "length sre' = b" "length sim' = b" using fw by (metis prod.exhaust)
    have win: "take b (drop b (cv_win c) @ drop (length (cv_win c) - b) (cv_win c)) @ blk = drop b (cv_win c) @ blk"
      "length (drop b (drop b (cv_win c) @ drop (length (cv_win c) - b) (cv_win c))) = length blk"
      using True by (simp_all add: c(8))
    have sl: "slice (xh_re c) (cv_head c * (b + 1)) (b + 1) = Some ?z" "slice (xh_im c) (cv_head c * (b + 1)) (b + 1) = Some ?z"
      using p by (simp_all add: slice_def c(5-7))
    have nw: "RealFft_new sre sim = Some (sre, sim)" "RealFft_new sre' sim' = Some (sre', sim')"
      using ls f(2,3) pow by (simp_all add: RealFft_new_def)
    have n: "RealFft_inverse F (sre', sim') acc tout = None" for acc by (rule none) (simp add: f(2))
    have half: "2 * b div 2 = b" by simp
    show ?thesis
      unfolding process_block_def Let_def c(1-4) win half splits sl
      by (simp add: splits [simplified] nw f(1) f(1) [simplified] n sl [simplified] split: option.split bind_splits)
  next
    case False
    then show ?thesis by (simp add: process_block_def Let_def c(1,8))
  qed
  then show ?thesis using new by blast
qed

lemma long_scratch_panics_witness:
  "\<exists>c. Convolver_new exact [0, 1] 8 (replicate 103 0) = Some c \<and> process_block exact c (replicate 8 0) (replicate 8 0) = None"
proof -
  have "conv_required_scratch (length [0, 1 :: real]) 8 = Some 102"
    by (simp add: conv_required_scratch_def div_ceil_def Let_def)
  moreover have "length (TW_COS exact) = TW_MASTER" "length (TW_SIN exact) = TW_MASTER" by (simp_all add: exact_def)
  ultimately show ?thesis
    using long_scratch_panics [of exact 8 3 "[0, 1]" 102 "replicate 103 0" "replicate 8 0" "replicate 8 0"] by simp
qed

end
