(* ===== verification/Spsc.thy ===== *)
theory Spsc
  imports Prelude
begin

text \<open>
  The lock-free single-producer single-consumer ring of \<open>crates/daisy-usb-audio/src/codec.rs\<close>
  (\<open>SpscRing\<close>), twice: as the two functions a context calls, and split into the individual
  atomic loads, cell accesses and stores the two contexts interleave. The first is proved to
  be a bounded FIFO queue (locale \<open>bounded_fifo\<close>, whose client lemmas are about pushing and
  popping whole sequences); the second to refine it under every interleaving.

  Indices are the \<open>usize\<close> values of the code, which stay below the length of the buffer; the
  samples are of any type. A single core executes both contexts, so the steps interleave in
  some order; the Acquire/Release pairs only keep the compiler from reordering them.
\<close>

section \<open>The ring\<close>

record 'f ring =
  rbuf :: "'f list"
  rhead :: nat
  rtail :: nat

definition ring_new :: "nat \<Rightarrow> 'f \<Rightarrow> 'f ring" where
  "ring_new n z = \<lparr>rbuf = replicate n z, rhead = 0, rtail = 0\<rparr>"

definition ring_push :: "'f ring \<Rightarrow> 'f \<Rightarrow> (bool \<times> 'f ring) option" where
  "ring_push r v =
     (let t = rtail r; next = (t + 1) mod length (rbuf r) in
      if next = rhead r then Some (False, r)
      else do {
        b \<leftarrow> idx_set (rbuf r) t v;
        Some (True, r\<lparr>rbuf := b, rtail := next\<rparr>)
      })"

definition ring_pop :: "'f ring \<Rightarrow> ('f option \<times> 'f ring) option" where
  "ring_pop r =
     (let h = rhead r in
      if h = rtail r then Some (None, r)
      else do {
        v \<leftarrow> idx_get (rbuf r) h;
        Some (Some v, r\<lparr>rhead := (h + 1) mod length (rbuf r)\<rparr>)
      })"

definition ring_len :: "'f ring \<Rightarrow> nat" where
  "ring_len r = (rtail r + length (rbuf r) - rhead r) mod length (rbuf r)"

section \<open>Bounded queues\<close>

text \<open>
  What a client of the ring may rely on: a queue of at most \<open>cap\<close> samples that refuses when it
  is full and is empty only when nothing is queued.
\<close>

fun push_all :: "('q \<Rightarrow> 'f \<Rightarrow> (bool \<times> 'q) option) \<Rightarrow> 'q \<Rightarrow> 'f list \<Rightarrow> 'q option" where
  "push_all push q [] = Some q"
| "push_all push q (v # vs) = (case push q v of None \<Rightarrow> None | Some (_, q') \<Rightarrow> push_all push q' vs)"

locale bounded_fifo =
  fixes push :: "'q \<Rightarrow> 'f \<Rightarrow> (bool \<times> 'q) option"
    and pop :: "'q \<Rightarrow> ('f option \<times> 'q) option"
    and size_of :: "'q \<Rightarrow> nat"
    and content :: "'q \<Rightarrow> 'f list"
    and inv :: "'q \<Rightarrow> bool"
    and cap :: nat
  assumes push_ok: "inv q \<Longrightarrow> \<exists>q'. push q v = Some (length (content q) < cap, q') \<and> inv q' \<and>
      content q' = (if length (content q) < cap then content q @ [v] else content q)"
    and pop_ok: "inv q \<Longrightarrow> \<exists>q'. inv q' \<and>
      (case content q of [] \<Rightarrow> pop q = Some (None, q') \<and> content q' = []
       | v # vs \<Rightarrow> pop q = Some (Some v, q') \<and> content q' = vs)"
    and size_ok: "inv q \<Longrightarrow> size_of q = length (content q)"
    and cap_ok: "inv q \<Longrightarrow> length (content q) \<le> cap"
begin

lemma push_cases:
  assumes "inv q"
  obtains q' where "push q v = Some (True, q')" "inv q'" "content q' = content q @ [v]" "length (content q) < cap"
  | q' where "push q v = Some (False, q')" "inv q'" "content q' = content q" "length (content q) = cap"
  using push_ok [OF assms, of v] cap_ok [OF assms] by (auto split: if_splits)

lemma pop_cases:
  assumes "inv q"
  obtains q' where "content q = []" "pop q = Some (None, q')" "inv q'" "content q' = []"
  | v vs q' where "content q = v # vs" "pop q = Some (Some v, q')" "inv q'" "content q' = vs"
  using pop_ok [OF assms] by (cases "content q") auto

text \<open>Pushing a sequence keeps what fits and drops the rest.\<close>

lemma push_all_ok:
  assumes "inv q"
  shows "\<exists>q'. push_all push q vs = Some q' \<and> inv q' \<and>
    content q' = content q @ take (cap - length (content q)) vs"
  using assms
proof (induction vs arbitrary: q)
  case Nil
  then show ?case by simp
next
  case (Cons v vs)
  from Cons.prems show ?case
  proof (cases rule: push_cases [where v = v])
    case (1 q1)
    then obtain q2 where "push_all push q1 vs = Some q2" "inv q2"
      "content q2 = content q1 @ take (cap - length (content q1)) vs"
      using Cons.IH by blast
    moreover have "cap - length (content q) = Suc (cap - length (content q1))" using 1 by simp
    ultimately show ?thesis using 1 by simp
  next
    case (2 q1)
    then obtain q2 where "push_all push q1 vs = Some q2" "inv q2"
      "content q2 = content q1 @ take (cap - length (content q1)) vs"
      using Cons.IH by blast
    then show ?thesis using 2 by simp
  qed
qed

end

section \<open>The ring is a bounded queue\<close>

definition ring_ok :: "nat \<Rightarrow> 'f ring \<Rightarrow> bool" where
  "ring_ok n r \<longleftrightarrow> length (rbuf r) = n \<and> rhead r < n \<and> rtail r < n"

definition slot :: "nat \<Rightarrow> nat \<Rightarrow> nat \<Rightarrow> nat" where
  "slot n h i = (h + i) mod n"

definition queued :: "'f ring \<Rightarrow> 'f list" where
  "queued r = map (\<lambda>i. rbuf r ! slot (length (rbuf r)) (rhead r) i) [0..<ring_len r]"

lemma mod_wrap: "a < 2 * n \<Longrightarrow> a mod n = (if a < n then a else a - (n :: nat))"
  by (simp add: mod_if)

lemma length_queued [simp]: "length (queued r) = ring_len r"
  by (simp add: queued_def)

lemma ring_new_ok: "0 < n \<Longrightarrow> ring_ok n (ring_new n z)"
  by (simp add: ring_ok_def ring_new_def)

lemma queued_new [simp]: "0 < n \<Longrightarrow> queued (ring_new n z) = []"
  by (simp add: queued_def ring_len_def ring_new_def)

lemma ring_len_eq:
  assumes "ring_ok n r"
  shows "ring_len r = (if rhead r \<le> rtail r then rtail r - rhead r else rtail r + n - rhead r)"
  using assms by (auto simp: ring_ok_def ring_len_def mod_wrap)

lemma ring_len_lt: "ring_ok n r \<Longrightarrow> ring_len r < n"
  by (simp add: ring_ok_def ring_len_def)

lemma slot_len: "ring_ok n r \<Longrightarrow> slot n (rhead r) (ring_len r) = rtail r"
  by (auto simp: ring_len_eq slot_def mod_wrap ring_ok_def)

lemma slot_inj: "h < n \<Longrightarrow> i < n \<Longrightarrow> j < n \<Longrightarrow> slot n h i = slot n h j \<longleftrightarrow> i = j"
  by (auto simp: slot_def mod_wrap split: if_splits)

lemma slot_lt: "0 < n \<Longrightarrow> slot n h i < n"
  by (simp add: slot_def)

lemma slot_0 [simp]: "h < n \<Longrightarrow> slot n h 0 = h"
  by (simp add: slot_def)

lemma slot_Suc: "slot n (Suc h mod n) i = slot n h (Suc i)"
  by (simp add: slot_def mod_add_left_eq)

lemma ring_full:
  assumes "ring_ok n r"
  shows "(rtail r + 1) mod n = rhead r \<longleftrightarrow> ring_len r = n - 1"
proof -
  have "(rtail r + 1) mod n = (if rtail r + 1 = n then 0 else rtail r + 1)"
    using assms by (auto simp: ring_ok_def)
  then show ?thesis using assms unfolding ring_len_eq [OF assms]
    by (auto simp: ring_ok_def)
qed

lemma ring_empty: "ring_ok n r \<Longrightarrow> rhead r = rtail r \<longleftrightarrow> ring_len r = 0"
  by (auto simp: ring_len_eq ring_ok_def split: if_splits)

text \<open>Writing the cell at the tail, then publishing the new tail.\<close>

lemma ring_write_queued:
  assumes "ring_ok n r"
  shows "queued (r\<lparr>rbuf := (rbuf r)[rtail r := v]\<rparr>) = queued r"
proof -
  have n: "length (rbuf r) = n" using assms by (simp add: ring_ok_def)
  have "slot n (rhead r) i \<noteq> rtail r" if "i < ring_len r" for i
    using slot_inj [of "rhead r" n i "ring_len r"] slot_len [OF assms] that
      ring_len_lt [OF assms] assms by (auto simp: ring_ok_def)
  then have "rtail r \<noteq> slot n (rhead r) i" if "i < ring_len r" for i
    using that by metis
  then show ?thesis by (auto simp: queued_def ring_len_def n intro!: map_cong)
qed

lemma ring_publish_len:
  assumes "ring_ok n r" "(rtail r + 1) mod n \<noteq> rhead r"
  shows "ring_len (r\<lparr>rtail := (rtail r + 1) mod n\<rparr>) = Suc (ring_len r)"
proof -
  have m: "(rtail r + 1) mod n = (if rtail r + 1 = n then 0 else rtail r + 1)"
    using assms by (auto simp: ring_ok_def)
  have "ring_ok n (r\<lparr>rtail := (rtail r + 1) mod n\<rparr>)" using assms by (auto simp: ring_ok_def)
  from ring_len_eq [OF this] ring_len_eq [OF assms(1)] show ?thesis
    using assms unfolding m by (auto simp: ring_ok_def split: if_splits)
qed

lemma ring_publish_queued:
  assumes "ring_ok n r" "(rtail r + 1) mod n \<noteq> rhead r"
  shows "queued (r\<lparr>rtail := (rtail r + 1) mod n\<rparr>) = queued r @ [rbuf r ! rtail r]"
  using assms slot_len [OF assms(1)] ring_publish_len [OF assms]
  by (simp add: queued_def ring_ok_def)

lemma ring_advance_queued:
  assumes "ring_ok n r" "rhead r \<noteq> rtail r"
  shows "queued r = rbuf r ! rhead r # queued (r\<lparr>rhead := (rhead r + 1) mod n\<rparr>)"
proof -
  have ok': "ring_ok n (r\<lparr>rhead := (rhead r + 1) mod n\<rparr>)" using assms by (auto simp: ring_ok_def)
  have m: "(rhead r + 1) mod n = (if rhead r + 1 = n then 0 else rhead r + 1)"
    using assms by (auto simp: ring_ok_def)
  have l: "ring_len r = Suc (ring_len (r\<lparr>rhead := (rhead r + 1) mod n\<rparr>))"
    using ring_len_eq [OF ok'] ring_len_eq [OF assms(1)] assms unfolding m
    by (auto simp: ring_ok_def split: if_splits)
  have n: "length (rbuf r) = n" "rhead r < n" using assms by (auto simp: ring_ok_def)
  show ?thesis
    unfolding queued_def l
    by (simp add: n slot_Suc upt_conv_Cons map_Suc_upt [symmetric] del: upt_Suc)
qed

interpretation fifo: bounded_fifo ring_push ring_pop ring_len queued "ring_ok (Suc cap)" cap for cap
proof (unfold_locales, goal_cases)
  case (1 q v)
  let ?n = "Suc cap"
  have n: "length (rbuf q) = ?n" "rtail q < ?n" using 1 by (auto simp: ring_ok_def)
  show ?case
  proof (cases "(rtail q + 1) mod ?n = rhead q")
    case True
    then show ?thesis using 1 ring_full [OF 1] by (simp add: ring_push_def n)
  next
    case False
    let ?r = "q\<lparr>rbuf := (rbuf q)[rtail q := v]\<rparr>"
    have ok: "ring_ok ?n ?r" using 1 by (simp add: ring_ok_def)
    have "queued (?r\<lparr>rtail := (rtail ?r + 1) mod ?n\<rparr>) = queued ?r @ [rbuf ?r ! rtail ?r]"
      by (rule ring_publish_queued [OF ok]) (use False in simp)
    moreover have "ring_ok ?n (?r\<lparr>rtail := (rtail ?r + 1) mod ?n\<rparr>)"
      using ok by (simp add: ring_ok_def)
    moreover have "ring_len q < cap"
      using False ring_full [OF 1] ring_len_lt [OF 1] by simp
    ultimately show ?thesis
      using False ring_write_queued [OF 1, of v] n by (simp add: ring_push_def Let_def)
  qed
next
  case (2 q)
  let ?n = "Suc cap"
  have n: "length (rbuf q) = ?n" "rhead q < ?n" using 2 by (auto simp: ring_ok_def)
  show ?case
  proof (cases "rhead q = rtail q")
    case True
    then have "queued q = []" using ring_empty [OF 2] by (simp add: queued_def)
    then show ?thesis using 2 True by (simp add: ring_pop_def)
  next
    case False
    have "ring_ok ?n (q\<lparr>rhead := (rhead q + 1) mod ?n\<rparr>)" using 2 by (auto simp: ring_ok_def)
    then show ?thesis using ring_advance_queued [OF 2 False] False n
      by (simp add: ring_pop_def Let_def)
  qed
next
  case (3 q)
  then show ?case by simp
next
  case (4 q)
  then show ?case using ring_len_lt [of "Suc cap" q] by simp
qed

section \<open>The two contexts interleaved\<close>

text \<open>
  The producer and the consumer at the granularity of their memory accesses. A program
  counter holds the local variables that are live: \<open>push\<close> has loaded the tail, then
  compared with the head, then written the cell, then it publishes the tail; \<open>pop\<close> has loaded
  the head, then compared with the tail, then read the cell, then it publishes the head. A
  finished call is labelled with its result, at the access that decides it.
\<close>

datatype 'f producer =
    P_idle
  | P_loaded 'f nat
  | P_room 'f nat nat
  | P_written 'f nat

datatype 'f consumer =
    C_idle
  | C_loaded nat
  | C_some nat
  | C_read nat 'f

datatype 'f event = Tau | Pushed 'f | Refused 'f | Popped 'f | Empty

record 'f chan =
  ring :: "'f ring"
  prod_at :: "'f producer"
  cons_at :: "'f consumer"

inductive chan_step :: "'f chan \<Rightarrow> 'f event \<Rightarrow> 'f chan \<Rightarrow> bool" where
  push_load: "prod_at s = P_idle \<Longrightarrow> chan_step s Tau (s\<lparr>prod_at := P_loaded v (rtail (ring s))\<rparr>)"
| push_full: "prod_at s = P_loaded v t \<Longrightarrow> (t + 1) mod length (rbuf (ring s)) = rhead (ring s) \<Longrightarrow>
    chan_step s (Refused v) (s\<lparr>prod_at := P_idle\<rparr>)"
| push_room: "prod_at s = P_loaded v t \<Longrightarrow> (t + 1) mod length (rbuf (ring s)) \<noteq> rhead (ring s) \<Longrightarrow>
    chan_step s Tau (s\<lparr>prod_at := P_room v t ((t + 1) mod length (rbuf (ring s)))\<rparr>)"
| push_write: "prod_at s = P_room v t n \<Longrightarrow> idx_set (rbuf (ring s)) t v = Some b \<Longrightarrow>
    chan_step s Tau (s\<lparr>ring := (ring s)\<lparr>rbuf := b\<rparr>, prod_at := P_written v n\<rparr>)"
| push_store: "prod_at s = P_written v n \<Longrightarrow>
    chan_step s (Pushed v) (s\<lparr>ring := (ring s)\<lparr>rtail := n\<rparr>, prod_at := P_idle\<rparr>)"
| pop_load: "cons_at s = C_idle \<Longrightarrow> chan_step s Tau (s\<lparr>cons_at := C_loaded (rhead (ring s))\<rparr>)"
| pop_empty: "cons_at s = C_loaded h \<Longrightarrow> h = rtail (ring s) \<Longrightarrow> chan_step s Empty (s\<lparr>cons_at := C_idle\<rparr>)"
| pop_some: "cons_at s = C_loaded h \<Longrightarrow> h \<noteq> rtail (ring s) \<Longrightarrow> chan_step s Tau (s\<lparr>cons_at := C_some h\<rparr>)"
| pop_read: "cons_at s = C_some h \<Longrightarrow> idx_get (rbuf (ring s)) h = Some v \<Longrightarrow>
    chan_step s Tau (s\<lparr>cons_at := C_read h v\<rparr>)"
| pop_store: "cons_at s = C_read h v \<Longrightarrow>
    chan_step s (Popped v) (s\<lparr>ring := (ring s)\<lparr>rhead := (h + 1) mod length (rbuf (ring s))\<rparr>, cons_at := C_idle\<rparr>)"

inductive chan_run :: "'f chan \<Rightarrow> 'f event list \<Rightarrow> 'f chan \<Rightarrow> bool" where
  run_nil: "chan_run s [] s"
| run_snoc: "chan_run s es s1 \<Longrightarrow> chan_step s1 e s2 \<Longrightarrow> chan_run s (es @ [e]) s2"

definition chan_new :: "nat \<Rightarrow> 'f \<Rightarrow> 'f chan" where
  "chan_new n z = \<lparr>ring = ring_new n z, prod_at = P_idle, cons_at = C_idle\<rparr>"

text \<open>The specification the events are replayed on: a queue of at most \<open>cap\<close> samples.\<close>

fun queue_step :: "nat \<Rightarrow> 'f list \<Rightarrow> 'f event \<Rightarrow> 'f list option" where
  "queue_step cap q Tau = Some q"
| "queue_step cap q (Pushed v) = (if length q < cap then Some (q @ [v]) else None)"
| "queue_step cap q (Refused v) = (if length q = cap then Some q else None)"
| "queue_step cap [] (Popped v) = None"
| "queue_step cap (x # q) (Popped v) = (if x = v then Some q else None)"
| "queue_step cap q Empty = (if q = [] then Some q else None)"

fun queue_run :: "nat \<Rightarrow> 'f list \<Rightarrow> 'f event list \<Rightarrow> 'f list option" where
  "queue_run cap q [] = Some q"
| "queue_run cap q (e # es) = (case queue_step cap q e of None \<Rightarrow> None | Some q' \<Rightarrow> queue_run cap q' es)"

lemma queue_run_snoc:
  "queue_run cap q es = Some q1 \<Longrightarrow> queue_step cap q1 e = Some q2 \<Longrightarrow> queue_run cap q (es @ [e]) = Some q2"
  by (induction es arbitrary: q) (auto split: option.splits)

text \<open>What each program counter knows.\<close>

fun prod_ok :: "'f ring \<Rightarrow> 'f producer \<Rightarrow> bool" where
  "prod_ok r P_idle = True"
| "prod_ok r (P_loaded v t) = (t = rtail r)"
| "prod_ok r (P_room v t n) = (t = rtail r \<and> n = (t + 1) mod length (rbuf r) \<and> n \<noteq> rhead r)"
| "prod_ok r (P_written v n) =
     (n = (rtail r + 1) mod length (rbuf r) \<and> n \<noteq> rhead r \<and> rbuf r ! rtail r = v)"

fun cons_ok :: "'f ring \<Rightarrow> 'f consumer \<Rightarrow> bool" where
  "cons_ok r C_idle = True"
| "cons_ok r (C_loaded h) = (h = rhead r)"
| "cons_ok r (C_some h) = (h = rhead r \<and> h \<noteq> rtail r)"
| "cons_ok r (C_read h v) = (h = rhead r \<and> h \<noteq> rtail r \<and> v = rbuf r ! h)"

definition chan_ok :: "nat \<Rightarrow> 'f chan \<Rightarrow> bool" where
  "chan_ok n s \<longleftrightarrow> ring_ok n (ring s) \<and> prod_ok (ring s) (prod_at s) \<and> cons_ok (ring s) (cons_at s)"

lemma chan_new_ok: "0 < n \<Longrightarrow> chan_ok n (chan_new n z)"
  by (simp add: chan_ok_def chan_new_def ring_new_ok)

text \<open>The guarantee each side gives the other: it never disturbs what the other has learnt.\<close>

lemma cons_write:
  assumes "ring_ok n r" "cons_ok r c"
  shows "cons_ok (r\<lparr>rbuf := (rbuf r)[rtail r := v]\<rparr>) c"
  using assms by (cases c) (auto simp: ring_ok_def)

lemma cons_publish:
  assumes "ring_ok n r" "(rtail r + 1) mod n \<noteq> rhead r" "cons_ok r c"
  shows "cons_ok (r\<lparr>rtail := (rtail r + 1) mod n\<rparr>) c"
  using assms by (cases c) auto

lemma prod_advance:
  assumes "ring_ok n r" "rhead r \<noteq> rtail r" "prod_ok r p"
  shows "prod_ok (r\<lparr>rhead := (rhead r + 1) mod n\<rparr>) p"
proof -
  have "(rtail r + 1) mod n \<noteq> (rhead r + 1) mod n"
    using assms by (auto simp: ring_ok_def mod_wrap split: if_splits)
  then show ?thesis using assms by (cases p) (auto simp: ring_ok_def)
qed

lemma chan_step_ok:
  assumes "chan_step s e s'" "chan_ok (Suc cap) s"
  shows "chan_ok (Suc cap) s' \<and> queue_step cap (queued (ring s)) e = Some (queued (ring s'))"
  using assms
proof (induction rule: chan_step.induct)
  case (push_full s v t)
  then show ?case using ring_full [of "Suc cap" "ring s"] by (auto simp: chan_ok_def ring_ok_def)
next
  case (push_write s v t n b)
  then have ok: "ring_ok (Suc cap) (ring s)" and t: "t = rtail (ring s)" and b: "b = (rbuf (ring s))[rtail (ring s) := v]"
    by (auto simp: chan_ok_def ring_ok_def idx_set_def split: if_splits)
  show ?case
    using push_write cons_write [OF ok, of "cons_at s" v] ring_write_queued [OF ok, of v] ok
    by (auto simp: chan_ok_def b t ring_ok_def)
next
  case (push_store s v n)
  then have ok: "ring_ok (Suc cap) (ring s)" and room: "(rtail (ring s) + 1) mod Suc cap \<noteq> rhead (ring s)"
    and n: "n = (rtail (ring s) + 1) mod Suc cap" and v: "rbuf (ring s) ! rtail (ring s) = v"
    and c: "cons_ok (ring s) (cons_at s)"
    by (auto simp: chan_ok_def ring_ok_def)
  have "ring_len (ring s) < cap"
    using ring_full [OF ok] room ring_len_lt [OF ok] by simp
  then show ?case
    using cons_publish [OF ok room c] ring_publish_queued [OF ok room] ok
    by (simp add: chan_ok_def n v ring_ok_def)
next
  case (pop_empty s h)
  then show ?case using ring_empty [of "Suc cap" "ring s"] by (auto simp: chan_ok_def queued_def)
next
  case (pop_store s h v)
  then have ok: "ring_ok (Suc cap) (ring s)" and ne: "rhead (ring s) \<noteq> rtail (ring s)"
    and h: "h = rhead (ring s)" and v: "v = rbuf (ring s) ! rhead (ring s)"
    and p: "prod_ok (ring s) (prod_at s)" and l: "length (rbuf (ring s)) = Suc cap"
    by (auto simp: chan_ok_def ring_ok_def)
  have "ring_ok (Suc cap) ((ring s)\<lparr>rhead := (rhead (ring s) + 1) mod Suc cap\<rparr>)"
    using ok by (simp add: ring_ok_def)
  then show ?case
    using prod_advance [OF ok ne p] ring_advance_queued [OF ok ne]
    by (simp add: chan_ok_def h v l)
qed (auto simp: chan_ok_def ring_ok_def split: if_splits)

lemma chan_run_ok:
  assumes "chan_run s es s'" "chan_ok (Suc cap) s"
  shows "chan_ok (Suc cap) s' \<and> queue_run cap (queued (ring s)) es = Some (queued (ring s'))"
  using assms
proof (induction rule: chan_run.induct)
  case (run_nil s)
  then show ?case by simp
next
  case (run_snoc s es s1 e s2)
  then show ?case using chan_step_ok [of s1 e s2 cap] queue_run_snoc by blast
qed

text \<open>The values of the calls that took effect.\<close>

fun pushed :: "'f event list \<Rightarrow> 'f list" where
  "pushed [] = []"
| "pushed (Pushed v # es) = v # pushed es"
| "pushed (_ # es) = pushed es"

fun popped :: "'f event list \<Rightarrow> 'f list" where
  "popped [] = []"
| "popped (Popped v # es) = v # popped es"
| "popped (_ # es) = popped es"

lemma queue_run_fifo: "queue_run cap q es = Some q' \<Longrightarrow> q @ pushed es = popped es @ q'"
proof (induction es arbitrary: q)
  case Nil
  then show ?case by simp
next
  case (Cons e es)
  then obtain q1 where q1: "queue_step cap q e = Some q1" "queue_run cap q1 es = Some q'"
    by (auto split: option.splits)
  then show ?case using Cons.IH [OF q1(2)]
    by (cases e; cases q) (auto split: if_splits)
qed

text \<open>Accesses left before the current call returns.\<close>

fun prod_left :: "'f producer \<Rightarrow> nat" where
  "prod_left P_idle = 0"
| "prod_left (P_loaded _ _) = 3"
| "prod_left (P_room _ _ _) = 2"
| "prod_left (P_written _ _) = 1"

fun cons_left :: "'f consumer \<Rightarrow> nat" where
  "cons_left C_idle = 0"
| "cons_left (C_loaded _) = 3"
| "cons_left (C_some _) = 2"
| "cons_left (C_read _ _) = 1"

lemma prod_progress:
  assumes "chan_ok n s" "prod_at s \<noteq> P_idle"
  shows "\<exists>e s'. chan_step s e s' \<and> cons_at s' = cons_at s \<and> prod_left (prod_at s') < prod_left (prod_at s)"
proof (cases "prod_at s")
  case P_idle
  with assms show ?thesis by simp
next
  case (P_loaded v t)
  show ?thesis
  proof (cases "(t + 1) mod length (rbuf (ring s)) = rhead (ring s)")
    case True
    show ?thesis by - (rule exI, rule exI, rule conjI, rule chan_step.push_full [OF P_loaded True], simp add: P_loaded)
  next
    case False
    show ?thesis by - (rule exI, rule exI, rule conjI, rule chan_step.push_room [OF P_loaded False], simp add: P_loaded)
  qed
next
  case (P_room v t n')
  have set: "idx_set (rbuf (ring s)) t v = Some ((rbuf (ring s))[t := v])"
    using assms P_room by (simp add: chan_ok_def ring_ok_def)
  show ?thesis by - (rule exI, rule exI, rule conjI, rule chan_step.push_write [OF P_room set], simp add: P_room)
next
  case (P_written v n')
  show ?thesis by - (rule exI, rule exI, rule conjI, rule chan_step.push_store [OF P_written], simp add: P_written)
qed

lemma cons_progress:
  assumes "chan_ok n s" "cons_at s \<noteq> C_idle"
  shows "\<exists>e s'. chan_step s e s' \<and> prod_at s' = prod_at s \<and> cons_left (cons_at s') < cons_left (cons_at s)"
proof (cases "cons_at s")
  case C_idle
  with assms show ?thesis by simp
next
  case (C_loaded h)
  show ?thesis
  proof (cases "h = rtail (ring s)")
    case True
    show ?thesis by - (rule exI, rule exI, rule conjI, rule chan_step.pop_empty [OF C_loaded True], simp add: C_loaded)
  next
    case False
    show ?thesis by - (rule exI, rule exI, rule conjI, rule chan_step.pop_some [OF C_loaded False], simp add: C_loaded)
  qed
next
  case (C_some h)
  have get: "idx_get (rbuf (ring s)) h = Some (rbuf (ring s) ! h)"
    using assms C_some by (simp add: chan_ok_def ring_ok_def)
  show ?thesis by - (rule exI, rule exI, rule conjI, rule chan_step.pop_read [OF C_some get], simp add: C_some)
next
  case (C_read h v)
  show ?thesis by - (rule exI, rule exI, rule conjI, rule chan_step.pop_store [OF C_read], simp add: C_read)
qed

lemma chan_run_Cons: "chan_step s e s1 \<Longrightarrow> chan_run s1 es s2 \<Longrightarrow> chan_run s (e # es) s2"
proof (rotate_tac, induction rule: chan_run.induct)
  case (run_nil s1)
  then show ?case using chan_run.run_snoc [OF chan_run.run_nil] by fastforce
next
  case (run_snoc s1 es s2 e' s3)
  then show ?case using chan_run.run_snoc [of s "e # es"] by simp
qed

text \<open>A call that is not interrupted takes exactly the accesses of \<open>ring_push\<close>, \<open>ring_pop\<close>.\<close>

lemma push_accesses:
  assumes "ring_push r v = Some (ok, r')"
  shows "chan_run \<lparr>ring = r, prod_at = P_idle, cons_at = c\<rparr>
    (if ok then [Tau, Tau, Tau, Pushed v] else [Tau, Refused v]) \<lparr>ring = r', prod_at = P_idle, cons_at = c\<rparr>"
proof (cases "(rtail r + 1) mod length (rbuf r) = rhead r")
  case True
  then have "\<not> ok" "r' = r" using assms by (auto simp: ring_push_def)
  then show ?thesis
    using chan_run_Cons [OF chan_step.push_load [where v = v]
      chan_run_Cons [OF chan_step.push_full chan_run.run_nil], of "\<lparr>ring = r, prod_at = P_idle, cons_at = c\<rparr>"] True
    by simp
next
  case False
  then obtain b where b: "idx_set (rbuf r) (rtail r) v = Some b" "ok"
    "r' = r\<lparr>rbuf := b, rtail := (rtail r + 1) mod length (rbuf r)\<rparr>"
    using assms by (auto simp: ring_push_def Let_def split: Option.bind_splits)
  then show ?thesis
    using chan_run_Cons [OF chan_step.push_load [where v = v]
      chan_run_Cons [OF chan_step.push_room
        chan_run_Cons [OF chan_step.push_write
          chan_run_Cons [OF chan_step.push_store chan_run.run_nil]]],
      of "\<lparr>ring = r, prod_at = P_idle, cons_at = c\<rparr>"] False
    by simp
qed

lemma pop_accesses:
  assumes "ring_pop r = Some (res, r')"
  shows "chan_run \<lparr>ring = r, prod_at = p, cons_at = C_idle\<rparr>
    (case res of None \<Rightarrow> [Tau, Empty] | Some v \<Rightarrow> [Tau, Tau, Tau, Popped v]) \<lparr>ring = r', prod_at = p, cons_at = C_idle\<rparr>"
proof (cases "rhead r = rtail r")
  case True
  then have "res = None" "r' = r" using assms by (auto simp: ring_pop_def)
  then show ?thesis
    using chan_run_Cons [OF chan_step.pop_load
      chan_run_Cons [OF chan_step.pop_empty chan_run.run_nil], of "\<lparr>ring = r, prod_at = p, cons_at = C_idle\<rparr>"] True
    by simp
next
  case False
  then obtain v where b: "idx_get (rbuf r) (rhead r) = Some v" "res = Some v"
    "r' = r\<lparr>rhead := (rhead r + 1) mod length (rbuf r)\<rparr>"
    using assms by (auto simp: ring_pop_def Let_def split: Option.bind_splits)
  then show ?thesis
    using chan_run_Cons [OF chan_step.pop_load
      chan_run_Cons [OF chan_step.pop_some
        chan_run_Cons [OF chan_step.pop_read
          chan_run_Cons [OF chan_step.pop_store chan_run.run_nil]]],
      of "\<lparr>ring = r, prod_at = p, cons_at = C_idle\<rparr>"] False
    by simp
qed

section \<open>Properties\<close>

text \<open>C4: whatever way the accesses of the producer and the consumer interleave, the ring is
  a FIFO queue of at most \<open>N - 1\<close> samples. Replayed at the access that decides each call, the
  results are those of the abstract queue: a push is refused only when \<open>N - 1\<close> samples are
  queued, a pop finds nothing only when none is, what has been popped followed by what is
  queued is exactly what has been pushed, in order. And the two sides never access the same
  cell at the same time.\<close>

theorem ring_linearizable:
  assumes "chan_run (chan_new (Suc cap) z) es s"
  shows "queue_run cap [] es = Some (queued (ring s)) \<and>
    pushed es = popped es @ queued (ring s) \<and>
    length (queued (ring s)) \<le> cap \<and>
    (\<nexists>v t n. prod_at s = P_room v t n \<and> cons_at s = C_some t)"
proof -
  have run: "chan_ok (Suc cap) s" "queue_run cap [] es = Some (queued (ring s))"
    using chan_run_ok [OF assms] chan_new_ok [of "Suc cap" z] by (auto simp: chan_new_def)
  moreover have "length (queued (ring s)) \<le> cap"
    using run(1) ring_len_lt [of "Suc cap" "ring s"] by (simp add: chan_ok_def)
  moreover have "\<nexists>v t n. prod_at s = P_room v t n \<and> cons_at s = C_some t"
    using run(1) by (auto simp: chan_ok_def)
  ultimately show ?thesis using queue_run_fifo by fastforce
qed

lemma ring_linearizable_witness:
  "queue_run 1 [] [Tau, Tau, Tau, Pushed (7 :: nat)] = Some [7]"
proof -
  let ?r = "\<lparr>rbuf = [7 :: nat, 0], rhead = 0, rtail = 1\<rparr>"
  have "ring_push (ring_new (Suc 1) 0) 7 = Some (True, ?r)"
    by (simp add: ring_push_def ring_new_def numeral_2_eq_2)
  from push_accesses [OF this, of C_idle]
  have "chan_run (chan_new (Suc 1) 0) [Tau, Tau, Tau, Pushed (7 :: nat)]
    \<lparr>ring = ?r, prod_at = P_idle, cons_at = C_idle\<rparr>"
    by (simp add: chan_new_def)
  from ring_linearizable [OF this] have "queue_run 1 [] [Tau, Tau, Tau, Pushed (7 :: nat)] = Some (queued ?r)"
    by simp
  moreover have "queued ?r = [7]" by code_simp
  ultimately show ?thesis by simp
qed

text \<open>The ring is wait-free. In every state any interleaving reaches, a context in the
  middle of a call can take its next access, without a panic and without the other context
  moving, and each such access brings it nearer to returning: a call is over after at most
  four accesses of its own.\<close>

theorem ring_wait_free:
  assumes "chan_run (chan_new (Suc cap) z) es s"
  shows "(prod_at s \<noteq> P_idle \<longrightarrow>
      (\<exists>e s'. chan_step s e s' \<and> cons_at s' = cons_at s \<and> prod_left (prod_at s') < prod_left (prod_at s))) \<and>
    (cons_at s \<noteq> C_idle \<longrightarrow>
      (\<exists>e s'. chan_step s e s' \<and> prod_at s' = prod_at s \<and> cons_left (cons_at s') < cons_left (cons_at s))) \<and>
    prod_left (prod_at s) \<le> 3 \<and> cons_left (cons_at s) \<le> 3"
proof -
  have "chan_ok (Suc cap) s"
    using chan_run_ok [OF assms] chan_new_ok [of "Suc cap" z] by simp
  moreover have "prod_left p \<le> 3" for p :: "'a producer" by (cases p) auto
  moreover have "cons_left c \<le> 3" for c :: "'a consumer" by (cases c) auto
  ultimately show ?thesis using prod_progress cons_progress by blast
qed

lemma ring_wait_free_witness:
  "\<exists>s. prod_at s = P_loaded (7 :: nat) 0 \<and>
    (\<exists>e s'. chan_step s e s' \<and> cons_at s' = cons_at s \<and> prod_left (prod_at s') < 3)"
proof -
  let ?s = "(chan_new (Suc 1) (0 :: nat))\<lparr>prod_at := P_loaded 7 0\<rparr>"
  have "chan_step (chan_new (Suc 1) 0) Tau ?s"
    using chan_step.push_load [of "chan_new (Suc 1) 0" "7 :: nat"] by (simp add: chan_new_def ring_new_def)
  then have "chan_run (chan_new (Suc 1) 0) [Tau] ?s" by (rule chan_run_Cons [OF _ chan_run.run_nil])
  from ring_wait_free [OF this] show ?thesis by (intro exI [of _ ?s]) simp
qed

end
