(* ===== verification/Reblock.thy ===== *)
theory Reblock
  imports Spsc
begin

text \<open>
  \<open>crates/daisy-dsp/src/reblock.rs\<close>: the sample FIFO that adapts the 48-frame callback to the 64-sample
  blocks of the convolver. It is a ring with a head and a length; the list of its queued samples is
  the abstraction, under which it is a bounded queue (the contract \<open>bounded_fifo\<close> of \<open>Spsc\<close>) whose block
  operations are append and take. A zero capacity divides by zero, which the model keeps (\<open>None\<close>).
\<close>

record 'f sample_fifo =
  sf_buf :: "'f list"
  sf_head :: nat
  sf_len :: nat

definition sf_new :: "nat \<Rightarrow> 'f \<Rightarrow> 'f sample_fifo" where
  "sf_new CAP zero = \<lparr>sf_buf = replicate CAP zero, sf_head = 0, sf_len = 0\<rparr>"

definition sf_is_empty :: "'f sample_fifo \<Rightarrow> bool" where
  "sf_is_empty q \<longleftrightarrow> sf_len q = 0"

definition sf_capacity :: "'f sample_fifo \<Rightarrow> nat" where
  "sf_capacity q = length (sf_buf q)"

definition sf_free :: "'f sample_fifo \<Rightarrow> nat" where
  "sf_free q = length (sf_buf q) - sf_len q"

text \<open>\<open>push\<close>: full is refused; \<open>% CAP\<close> panics for \<open>CAP = 0\<close>, which is always full.\<close>

definition sf_push :: "'f sample_fifo \<Rightarrow> 'f \<Rightarrow> (bool \<times> 'f sample_fifo) option" where
  "sf_push q x =
     (if sf_len q = length (sf_buf q) then Some (False, q)
      else do {
        let tail = (sf_head q + sf_len q) mod length (sf_buf q);
        b \<leftarrow> idx_set (sf_buf q) tail x;
        Some (True, q\<lparr>sf_buf := b, sf_len := sf_len q + 1\<rparr>)
      })"

fun sf_extend :: "'f sample_fifo \<Rightarrow> 'f list \<Rightarrow> (nat \<times> 'f sample_fifo) option" where
  "sf_extend q [] = Some (0, q)"
| "sf_extend q (x # xs) = do {
     (ok, q) \<leftarrow> sf_push q x;
     if \<not> ok then Some (0, q)
     else do { (n, q) \<leftarrow> sf_extend q xs; Some (n + 1, q) }
   }"

text \<open>\<open>pop\<close> into a slice of \<open>n\<close> slots; the slots written are returned.\<close>

fun sf_take :: "'f sample_fifo \<Rightarrow> nat \<Rightarrow> ('f list \<times> 'f sample_fifo) option" where
  "sf_take q 0 = Some ([], q)"
| "sf_take q (Suc n) = do {
     v \<leftarrow> idx_get (sf_buf q) (sf_head q);
     if sf_len q = 0 then None
     else do {
       (vs, q) \<leftarrow> sf_take (q\<lparr>sf_head := (sf_head q + 1) mod length (sf_buf q), sf_len := sf_len q - 1\<rparr>) n;
       Some (v # vs, q)
     }
   }"

definition sf_pop :: "'f sample_fifo \<Rightarrow> 'f list \<Rightarrow> (bool \<times> 'f list \<times> 'f sample_fifo) option" where
  "sf_pop q out =
     (if sf_len q < length out then Some (False, out, q)
      else do { (vs, q) \<leftarrow> sf_take q (length out); Some (True, vs, q) })"

definition sf_clear :: "'f sample_fifo \<Rightarrow> 'f sample_fifo" where
  "sf_clear q = q\<lparr>sf_head := 0, sf_len := 0\<rparr>"

section \<open>The queue it represents\<close>

definition sf_queue :: "'f sample_fifo \<Rightarrow> 'f list" where
  "sf_queue q = map (\<lambda>i. sf_buf q ! ((sf_head q + i) mod length (sf_buf q))) [0..<sf_len q]"

definition sf_ok :: "nat \<Rightarrow> 'f sample_fifo \<Rightarrow> bool" where
  "sf_ok cap q \<longleftrightarrow> length (sf_buf q) = cap \<and> sf_head q < cap \<and> sf_len q \<le> cap"

lemma length_sf_queue [simp]: "length (sf_queue q) = sf_len q"
  by (simp add: sf_queue_def)

lemma sf_new_ok: "0 < cap \<Longrightarrow> sf_ok cap (sf_new cap z) \<and> sf_queue (sf_new cap z) = []"
  by (simp add: sf_ok_def sf_new_def sf_queue_def)

lemma sf_clear_ok: "sf_ok cap q \<Longrightarrow> sf_ok cap (sf_clear q) \<and> sf_queue (sf_clear q) = []"
  by (auto simp: sf_ok_def sf_clear_def sf_queue_def)

lemma sf_push_ok:
  assumes "sf_ok cap q"
  shows "\<exists>q'. sf_push q v = Some (length (sf_queue q) < cap, q') \<and> sf_ok cap q' \<and>
    sf_queue q' = (if length (sf_queue q) < cap then sf_queue q @ [v] else sf_queue q)"
proof (cases "sf_len q = cap")
  case True
  then show ?thesis using assms by (auto simp: sf_push_def sf_ok_def)
next
  case False
  let ?n = "length (sf_buf q)" and ?t = "(sf_head q + sf_len q) mod length (sf_buf q)"
  have ok: "?n = cap" "sf_head q < cap" "sf_len q < cap" using assms False by (simp_all add: sf_ok_def)
  have ne: "(sf_head q + sf_len q) mod cap \<noteq> (sf_head q + i) mod cap" if "i < sf_len q" for i
  proof
    assume "(sf_head q + sf_len q) mod cap = (sf_head q + i) mod cap"
    then have "cap dvd (sf_head q + sf_len q) - (sf_head q + i)"
      by (metis mod_eq_dvd_iff_nat nat_add_left_cancel_le less_imp_le that)
    then have "cap dvd sf_len q - i" by simp
    moreover have "0 < sf_len q - i" "sf_len q - i < cap" using that ok by auto
    ultimately show False by (simp add: nat_dvd_not_less)
  qed
  have "sf_push q v = Some (True, q\<lparr>sf_buf := (sf_buf q)[?t := v], sf_len := sf_len q + 1\<rparr>)"
    using ok by (simp add: sf_push_def Let_def)
  moreover have "sf_queue (q\<lparr>sf_buf := (sf_buf q)[?t := v], sf_len := sf_len q + 1\<rparr>) = sf_queue q @ [v]"
    using ok ne by (auto simp: sf_queue_def nth_list_update)
  ultimately show ?thesis using ok by (simp add: sf_ok_def)
qed

lemma sf_extend_ok:
  "sf_ok cap q \<Longrightarrow> \<exists>q'. sf_extend q xs = Some (min (length xs) (cap - length (sf_queue q)), q') \<and> sf_ok cap q' \<and>
    sf_queue q' = sf_queue q @ take (cap - length (sf_queue q)) xs"
proof (induction xs arbitrary: q)
  case Nil
  then show ?case by simp
next
  case (Cons x xs)
  obtain q1 where q1: "sf_push q x = Some (length (sf_queue q) < cap, q1)" "sf_ok cap q1"
    "sf_queue q1 = (if length (sf_queue q) < cap then sf_queue q @ [x] else sf_queue q)"
    using sf_push_ok [OF Cons.prems, of x] by blast
  show ?case
  proof (cases "length (sf_queue q) < cap")
    case True
    have len: "length (sf_queue q1) = Suc (length (sf_queue q))" using q1(3) True by simp
    obtain k where k: "cap - length (sf_queue q) = Suc k" "cap - length (sf_queue q1) = k"
      using True len by (metis Suc_diff_Suc)
    obtain q2 where q2: "sf_extend q1 xs = Some (min (length xs) k, q2)" "sf_ok cap q2" "sf_queue q2 = sf_queue q1 @ take k xs"
      using Cons.IH [OF q1(2)] unfolding k(2) by blast
    have "sf_extend q (x # xs) = Some (min (length (x # xs)) (Suc k), q2)"
      using q1(1) q2(1) True by simp
    moreover have "sf_queue q2 = sf_queue q @ take (Suc k) (x # xs)" using q1(3) q2(3) True by simp
    ultimately show ?thesis unfolding k(1) using q2(2) by blast
  next
    case False
    then show ?thesis using q1 by simp
  qed
qed

lemma sf_take_ok:
  "sf_ok cap q \<Longrightarrow> n \<le> sf_len q \<Longrightarrow> \<exists>q'. sf_take q n = Some (take n (sf_queue q), q') \<and> sf_ok cap q' \<and>
    sf_queue q' = drop n (sf_queue q)"
proof (induction n arbitrary: q)
  case 0
  then show ?case by simp
next
  case (Suc n)
  let ?q = "q\<lparr>sf_head := (sf_head q + 1) mod length (sf_buf q), sf_len := sf_len q - 1\<rparr>"
  have ok: "length (sf_buf q) = cap" "sf_head q < cap" "0 < sf_len q" using Suc.prems by (simp_all add: sf_ok_def)
  have q: "sf_queue q = sf_buf q ! sf_head q # sf_queue ?q"
  proof -
    have "[0..<sf_len q] = 0 # map Suc [0..<sf_len q - 1]"
      using ok(3) by (simp add: map_Suc_upt upt_conv_Cons)
    then show ?thesis using ok by (simp add: sf_queue_def o_def mod_add_left_eq)
  qed
  have "sf_ok cap ?q" using Suc.prems ok by (auto simp: sf_ok_def)
  moreover have "n \<le> sf_len ?q" using Suc.prems by simp
  ultimately obtain q' where "sf_take ?q n = Some (take n (sf_queue ?q), q')" "sf_ok cap q'" "sf_queue q' = drop n (sf_queue ?q)"
    using Suc.IH [of ?q] by blast
  then show ?case using ok unfolding q by simp
qed

lemma sf_pop_ok:
  assumes "sf_ok cap q"
  shows "\<exists>q'. sf_pop q out = Some (length out \<le> length (sf_queue q),
      (if length out \<le> length (sf_queue q) then take (length out) (sf_queue q) else out), q') \<and> sf_ok cap q' \<and>
    sf_queue q' = (if length out \<le> length (sf_queue q) then drop (length out) (sf_queue q) else sf_queue q)"
proof (cases "length out \<le> sf_len q")
  case True
  then show ?thesis using sf_take_ok [OF assms True] by (auto simp: sf_pop_def)
next
  case False
  then show ?thesis using assms by (simp add: sf_pop_def)
qed

text \<open>One sample at a time it is the bounded queue of \<open>Spsc\<close>.\<close>

definition sf_pop1 :: "'f \<Rightarrow> 'f sample_fifo \<Rightarrow> ('f option \<times> 'f sample_fifo) option" where
  "sf_pop1 z q = do { (ok, out, q) \<leftarrow> sf_pop q [z]; Some (if ok then Some (hd out) else None, q) }"

interpretation sample_queue: bounded_fifo sf_push "sf_pop1 z" sf_len sf_queue "sf_ok cap" cap for z cap
proof (unfold_locales, goal_cases)
  case (1 q v)
  then show ?case by (rule sf_push_ok)
next
  case (2 q)
  then show ?case using sf_pop_ok [of cap q "[z]"]
    by (cases "sf_queue q") (auto simp: sf_pop1_def Suc_le_eq length_sf_queue [symmetric] simp del: length_sf_queue)
next
  case (3 q)
  then show ?case by simp
next
  case (4 q)
  then show ?case by (simp add: sf_ok_def)
qed

end
