(* ===== verification/Spatializer.thy ===== *)
theory Spatializer
  imports Convolver_Exact Reblock
begin

text \<open>
  The direct path of \<open>crates/daisy-spatializer/src/main.rs\<close>: a voice takes the 48-frame blocks of the codec
  callback, re-blocks them through the sample FIFOs of \<open>Reblock\<close> for the 64-sample stereo convolver
  of \<open>Convolver\<close>, and re-blocks the result back to 48 frames.
\<close>

definition B :: nat where "B = 64"
definition FRAMES :: nat where "FRAMES = 48"

definition stereo_scratch :: "nat \<Rightarrow> nat \<Rightarrow> nat option" where
  "stereo_scratch ir_len b =
     (if b = 0 then None
      else Some (let n = 2 * b; s = n div 2 + 1; p = div_ceil ir_len b in 2 * (4 * p * s + n + (2 * n + 2 * s))))"

record 'f voice =
  vo_conv :: "'f stereo_convolver"
  in_fifo :: "'f sample_fifo"
  out_l :: "'f sample_fifo"
  out_r :: "'f sample_fifo"

definition voice_new :: "'f flops \<Rightarrow> 'f list \<Rightarrow> 'f list \<Rightarrow> 'f list \<Rightarrow> 'f voice option" where
  "voice_new F ir_l ir_r scratch = do {
     conv \<leftarrow> StereoConvolver_new F ir_l ir_r B (fl_nat F 1) scratch;
     Some \<lparr>vo_conv = conv, in_fifo = sf_new 128 (fl_nat F 0), out_l = sf_new 256 (fl_nat F 0), out_r = sf_new 256 (fl_nat F 0)\<rparr>
   }"

text \<open>\<open>while self.in_fifo.pop(&mut blk)\<close>, with the local buffers passed along; \<open>None\<close> also if it does not end.\<close>

partial_function (option) voice_loop :: "'f flops \<Rightarrow> 'f list \<Rightarrow> 'f list \<Rightarrow> 'f list \<Rightarrow> 'f voice \<Rightarrow> 'f voice option" where
  "voice_loop F blk ol orr v = do {
     (got, blk, q) \<leftarrow> sf_pop (in_fifo v) blk;
     let v = v\<lparr>in_fifo := q\<rparr>;
     if \<not> got then Some v
     else do {
       ((ol, orr), conv) \<leftarrow> stereo_process_block F (vo_conv v) blk ol orr;
       (_, l) \<leftarrow> sf_extend (out_l v) ol;
       (_, r) \<leftarrow> sf_extend (out_r v) orr;
       voice_loop F blk ol orr (v\<lparr>vo_conv := conv, out_l := l, out_r := r\<rparr>)
     }
   }"

definition voice_process :: "'f flops \<Rightarrow> 'f voice \<Rightarrow> 'f list \<Rightarrow> 'f list \<Rightarrow> 'f list \<Rightarrow> ((bool \<times> 'f list \<times> 'f list) \<times> 'f voice) option" where
  "voice_process F v mono_in dl dr = do {
     (_, q) \<leftarrow> sf_extend (in_fifo v) mono_in;
     let zeros = replicate B (fl_nat F 0);
     v \<leftarrow> voice_loop F zeros zeros zeros (v\<lparr>in_fifo := q\<rparr>);
     if length dl \<le> sf_len (out_l v) then do {
       (_, dl, l) \<leftarrow> sf_pop (out_l v) dl;
       (_, dr, r) \<leftarrow> sf_pop (out_r v) dr;
       Some ((True, dl, dr), v\<lparr>out_l := l, out_r := r\<rparr>)
     } else Some ((False, dl, dr), v)
   }"

section \<open>The stereo convolver, fully wet\<close>

lemma mix_block_wet:
  "length ls = length xs \<Longrightarrow> length rs = length xs \<Longrightarrow> mix_block exact 0 1 ls rs xs = (ls, rs)"
proof (induction xs arbitrary: ls rs)
  case Nil
  then show ?case by simp
next
  case (Cons x xs)
  obtain l ls' r rs' where "ls = l # ls'" "rs = r # rs'" using Cons.prems by (metis length_Suc_conv)
  then show ?case using Cons by simp
qed

definition stereo_inv :: "nat \<Rightarrow> real list \<Rightarrow> real list \<Rightarrow> (nat \<Rightarrow> real) \<Rightarrow> nat \<Rightarrow> real stereo_convolver \<Rightarrow> bool" where
  "stereo_inv b hl hr x t sc \<longleftrightarrow> conv_inv b hl x t (sc_left sc) \<and> conv_inv b hr x t (sc_right sc) \<and> sc_dry sc = 0 \<and> sc_wet sc = 1"

lemma stereo_process_block_ok:
  assumes m: "m \<le> 10" "b = 2 ^ m" and sc: "stereo_inv b hl hr x t sc" and out: "length ol = b" "length orr = b"
  shows "\<exists>sc'. stereo_process_block exact sc (map (\<lambda>r. x (t * b + r)) [0..<b]) ol orr =
      Some ((map (\<lambda>r. fir hl x (t * b + r)) [0..<b], map (\<lambda>r. fir hr x (t * b + r)) [0..<b]), sc') \<and>
    stereo_inv b hl hr x (Suc t) sc'"
proof -
  have inv: "conv_inv b hl x t (sc_left sc)" "conv_inv b hr x t (sc_right sc)" "sc_dry sc = 0" "sc_wet sc = 1"
    using sc by (simp_all add: stereo_inv_def)
  obtain l r where "process_block exact (sc_left sc) (map (\<lambda>r. x (t * b + r)) [0..<b]) ol = Some (map (\<lambda>r. fir hl x (t * b + r)) [0..<b], l)"
    "conv_inv b hl x (Suc t) l"
    "process_block exact (sc_right sc) (map (\<lambda>r. x (t * b + r)) [0..<b]) orr = Some (map (\<lambda>r. fir hr x (t * b + r)) [0..<b], r)"
    "conv_inv b hr x (Suc t) r"
    using process_block_ok [OF m inv(1) out(1)] process_block_ok [OF m inv(2) out(2)] by blast
  then show ?thesis using inv by (simp add: stereo_process_block_def mix_block_wet stereo_inv_def)
qed

lemma StereoConvolver_new_ok:
  assumes b: "b = 2 ^ m" "3 \<le> m" "m \<le> 10"
    and len: "stereo_required_scratch (length hl) (length hr) b = Some (length scratch)"
  shows "\<exists>sc. StereoConvolver_new exact hl hr b 1 scratch = Some sc \<and> stereo_inv b hl hr x 0 sc"
proof -
  have b0: "0 < b" by (simp add: b)
  let ?l = "required (parts b hl) b" and ?r = "required (parts b hr) b"
  have L: "length scratch = ?l + ?r"
    using len by (simp add: stereo_required_scratch_def required_scratch_eq [OF b0])
  obtain l r where "Convolver_new exact hl b (take ?l scratch) = Some l" "conv_inv b hl x 0 l"
    "Convolver_new exact hr b (drop ?l scratch) = Some r" "conv_inv b hr x 0 r"
    using Convolver_new_ok [OF b, of "take ?l scratch" hl x] Convolver_new_ok [OF b, of "drop ?l scratch" hr x] L by auto
  then show ?thesis
    using len L by (simp add: StereoConvolver_new_def required_scratch_eq [OF b0] split_at_mut_ok stereo_inv_def Let_def)
qed

section \<open>The voice\<close>

definition voice_inv :: "real list \<Rightarrow> real list \<Rightarrow> (nat \<Rightarrow> real) \<Rightarrow> nat \<Rightarrow> nat \<Rightarrow> nat \<Rightarrow> real voice \<Rightarrow> bool" where
  "voice_inv hl hr x n t a v \<longleftrightarrow>
     stereo_inv B hl hr x t (vo_conv v) \<and> B * t \<le> n \<and>
     sf_ok 128 (in_fifo v) \<and> sf_queue (in_fifo v) = map x [B * t..<n] \<and>
     sf_ok 256 (out_l v) \<and> sf_queue (out_l v) = map (fir hl x) [a..<B * t] \<and>
     sf_ok 256 (out_r v) \<and> sf_queue (out_r v) = map (fir hr x) [a..<B * t]"

lemma voice_loop_ok:
  assumes "voice_inv hl hr x n t a v" "length blk = B" "length ol = B" "length orr = B" "a \<le> B * t" "n \<le> a + 256"
  shows "\<exists>v'. voice_loop exact blk ol orr v = Some v' \<and> voice_inv hl hr x n (n div B) a v'"
  using assms
proof (induction "n div B - t" arbitrary: t v blk ol orr)
  case 0
  note inv = \<open>voice_inv hl hr x n t a v\<close> [unfolded voice_inv_def]
  have "64 * t \<le> n" "n div 64 \<le> t" using 0(1) inv by (simp_all add: B_def)
  then have "t = n div B" unfolding B_def by linarith
  then have short: "length (sf_queue (in_fifo v)) < B" using inv by (simp add: B_def)
  obtain q where "sf_pop (in_fifo v) blk = Some (False, blk, q)" "sf_ok 128 q" "sf_queue q = sf_queue (in_fifo v)"
    using sf_pop_ok [of 128 "in_fifo v" blk] inv short 0(3) by auto
  then show ?case using inv \<open>t = n div B\<close> by (subst voice_loop.simps) (simp add: voice_inv_def)
next
  case (Suc d)
  note inv = Suc.prems(1) [unfolded voice_inv_def]
  have full: "B * Suc t \<le> n" using Suc.hyps(2) by (simp add: B_def)
  have split: "[B * t..<n] = [B * t..<B * Suc t] @ [B * Suc t..<n]"
    using full upt_add_eq_append [of "B * t" "B * Suc t" "n - B * Suc t"] by (simp add: B_def)
  have blk: "map x [B * t..<B * Suc t] = map (\<lambda>r. x (t * B + r)) [0..<B]"
    by (rule nth_equalityI) (simp_all add: mult.commute)
  obtain q where q: "sf_pop (in_fifo v) blk = Some (True, map (\<lambda>r. x (t * B + r)) [0..<B], q)" "sf_ok 128 q"
    "sf_queue q = map x [B * Suc t..<n]"
    using sf_pop_ok [of 128 "in_fifo v" blk] inv Suc.prems(2) unfolding split by (auto simp: blk [symmetric])
  have m: "6 \<le> (10::nat)" "B = 2 ^ 6" by (simp_all add: B_def)
  obtain sc where sc: "stereo_process_block exact (vo_conv v) (map (\<lambda>r. x (t * B + r)) [0..<B]) ol orr =
      Some ((map (\<lambda>r. fir hl x (t * B + r)) [0..<B], map (\<lambda>r. fir hr x (t * B + r)) [0..<B]), sc)"
    "stereo_inv B hl hr x (Suc t) sc"
    using stereo_process_block_ok [OF m _ Suc.prems(3,4)] inv by blast
  have room: "256 - length (map f [a..<B * t]) \<ge> B" for f :: "nat \<Rightarrow> real"
    using full Suc.prems(5,6) by (simp add: B_def)
  have app: "map f [a..<B * t] @ map (\<lambda>r. f (t * B + r)) [0..<B] = map f [a..<B * Suc t]" for f :: "nat \<Rightarrow> real"
    using Suc.prems(5) by (intro nth_equalityI) (auto simp: nth_append mult.commute intro!: arg_cong [where f = f])
  obtain nl l where l: "sf_extend (out_l v) (map (\<lambda>r. fir hl x (t * B + r)) [0..<B]) = Some (nl, l)" "sf_ok 256 l"
    "sf_queue l = map (fir hl x) [a..<B * Suc t]"
    using sf_extend_ok [of 256 "out_l v" "map (\<lambda>r. fir hl x (t * B + r)) [0..<B]"] inv room [of "fir hl x"] app [of "fir hl x"]
    by auto
  obtain nr r where r: "sf_extend (out_r v) (map (\<lambda>r. fir hr x (t * B + r)) [0..<B]) = Some (nr, r)" "sf_ok 256 r"
    "sf_queue r = map (fir hr x) [a..<B * Suc t]"
    using sf_extend_ok [of 256 "out_r v" "map (\<lambda>r. fir hr x (t * B + r)) [0..<B]"] inv room [of "fir hr x"] app [of "fir hr x"]
    by auto
  define v1 where "v1 = v\<lparr>in_fifo := q, vo_conv := sc, out_l := l, out_r := r\<rparr>"
  have "voice_inv hl hr x n (Suc t) a v1"
    using q sc l r full by (simp add: voice_inv_def v1_def)
  then have "\<exists>v'. voice_loop exact (map (\<lambda>r. x (t * B + r)) [0..<B]) (map (\<lambda>r. fir hl x (t * B + r)) [0..<B])
      (map (\<lambda>r. fir hr x (t * B + r)) [0..<B]) v1 = Some v' \<and> voice_inv hl hr x n (n div B) a v'"
    by (rule Suc.hyps(1) [rotated]) (use Suc.hyps(2) Suc.prems(5,6) in auto)
  then show ?case using q(1) sc(1) l(1) r(1) by (subst voice_loop.simps) (simp add: v1_def)
qed

text \<open>One callback: whatever the phase of 48 against 64, the queues never overflow and, but for the first, a full
  block is ready.\<close>

lemma voice_process_ok:
  assumes v: "voice_inv hl hr x (FRAMES * k) (FRAMES * k div B) (FRAMES * (k - 1)) v" and out: "length dl = FRAMES" "length dr = FRAMES"
  shows "\<exists>v'. voice_process exact v (map (\<lambda>r. x (FRAMES * k + r)) [0..<FRAMES]) dl dr =
      Some ((0 < k, if k = 0 then dl else map (fir hl x) [FRAMES * (k - 1)..<FRAMES * k],
        if k = 0 then dr else map (fir hr x) [FRAMES * (k - 1)..<FRAMES * k]), v') \<and>
    voice_inv hl hr x (FRAMES * Suc k) (FRAMES * Suc k div B) (FRAMES * k) v'"
proof -
  let ?n = "FRAMES * Suc k" and ?t = "FRAMES * k div B" and ?a = "FRAMES * (k - 1)" and ?t' = "FRAMES * Suc k div B"
  note inv = v [unfolded voice_inv_def]
  have num: "B * ?t \<le> FRAMES * k" "FRAMES * k - B * ?t < B" "?a \<le> B * ?t" "?n \<le> ?a + 256" "FRAMES * k \<le> B * ?t'" "B * ?t' \<le> ?n"
    by (simp_all add: B_def FRAMES_def)
  have app: "map x [B * ?t..<FRAMES * k] @ map (\<lambda>r. x (FRAMES * k + r)) [0..<FRAMES] = map x [B * ?t..<?n]"
    using num(1) by (intro nth_equalityI) (auto simp: nth_append intro!: arg_cong [where f = x])
  have fits: "FRAMES \<le> 128 - (FRAMES * k - B * ?t)" using num(2) by (simp add: B_def FRAMES_def)
  obtain c q where q: "sf_extend (in_fifo v) (map (\<lambda>r. x (FRAMES * k + r)) [0..<FRAMES]) = Some (c, q)" "sf_ok 128 q"
    "sf_queue q = map x [B * ?t..<?n]"
    using sf_extend_ok [of 128 "in_fifo v" "map (\<lambda>r. x (FRAMES * k + r)) [0..<FRAMES]"] inv fits app by auto
  have "voice_inv hl hr x ?n ?t ?a (v\<lparr>in_fifo := q\<rparr>)"
    using inv q le_trans [OF num(1), of ?n] by (simp add: voice_inv_def)
  from voice_loop_ok [OF this, of "replicate B 0" "replicate B 0" "replicate B 0"] num(3,4) obtain v1 where
    v1: "voice_loop exact (replicate B 0) (replicate B 0) (replicate B 0) (v\<lparr>in_fifo := q\<rparr>) = Some v1"
    "voice_inv hl hr x ?n ?t' ?a v1" by (auto simp del: mult_Suc_right)
  note inv1 = v1(2) [unfolded voice_inv_def]
  have len: "sf_len (out_l v1) = B * ?t' - ?a" using inv1 length_sf_queue [of "out_l v1"] by simp
  show ?thesis
  proof (cases "k = 0")
    case True
    then have "\<not> FRAMES \<le> sf_len (out_l v1)" unfolding len by (simp add: B_def FRAMES_def)
    then show ?thesis using q(1) v1 out True by (simp add: voice_process_def Let_def del: mult_Suc_right)
  next
    case False
    then have k: "?a + FRAMES = FRAMES * k" by (cases k) simp_all
    have split: "[?a..<B * ?t'] = [?a..<FRAMES * k] @ [FRAMES * k..<B * ?t']"
      using upt_add_eq_append [of ?a "FRAMES * k" "B * ?t' - FRAMES * k"] num(5) k by simp
    have w: "length [?a..<FRAMES * k] = FRAMES" using k by simp
    have ready: "FRAMES \<le> sf_len (out_l v1)" unfolding len using num(5) k by simp
    obtain l where l: "sf_pop (out_l v1) dl = Some (True, map (fir hl x) [?a..<FRAMES * k], l)" "sf_ok 256 l"
      "sf_queue l = map (fir hl x) [FRAMES * k..<B * ?t']"
      using sf_pop_ok [of 256 "out_l v1" dl] inv1 out(1) w unfolding split by (auto simp del: length_upt mult_Suc_right)
    obtain r where r: "sf_pop (out_r v1) dr = Some (True, map (fir hr x) [?a..<FRAMES * k], r)" "sf_ok 256 r"
      "sf_queue r = map (fir hr x) [FRAMES * k..<B * ?t']"
      using sf_pop_ok [of 256 "out_r v1" dr] inv1 out(2) w unfolding split by (auto simp del: length_upt mult_Suc_right)
    have "voice_inv hl hr x ?n ?t' (FRAMES * k) (v1\<lparr>out_l := l, out_r := r\<rparr>)"
      using inv1 l r by (simp add: voice_inv_def del: mult_Suc_right)
    then show ?thesis using q(1) v1(1) l(1) r(1) out ready False by (simp add: voice_process_def Let_def del: mult_Suc_right)
  qed
qed

text \<open>The callbacks of a run, each with the direct buffers at silence; what the callback adds to the mix.\<close>

fun voice_stream :: "'f flops \<Rightarrow> 'f voice \<Rightarrow> 'f list list \<Rightarrow> ((bool \<times> 'f list \<times> 'f list) list \<times> 'f voice) option" where
  "voice_stream F v [] = Some ([], v)"
| "voice_stream F v (m # ms) = do {
     (r, v) \<leftarrow> voice_process F v m (replicate FRAMES (fl_nat F 0)) (replicate FRAMES (fl_nat F 0));
     (rs, v) \<leftarrow> voice_stream F v ms;
     Some (r # rs, v)
   }"

abbreviation delayed :: "real list \<Rightarrow> (nat \<Rightarrow> real) \<Rightarrow> nat \<Rightarrow> real list" where
  "delayed h x k \<equiv> map (\<lambda>r. if k = 0 then 0 else fir h x (FRAMES * (k - 1) + r)) [0..<FRAMES]"

lemma voice_block_ok:
  assumes "voice_inv hl hr x (FRAMES * k) (FRAMES * k div B) (FRAMES * (k - 1)) v"
  shows "\<exists>v'. voice_process exact v (map (\<lambda>r. x (FRAMES * k + r)) [0..<FRAMES]) (replicate FRAMES 0) (replicate FRAMES 0) =
      Some ((0 < k, delayed hl x k, delayed hr x k), v') \<and>
    voice_inv hl hr x (FRAMES * Suc k) (FRAMES * Suc k div B) (FRAMES * k) v'"
proof -
  have blk: "(if k = 0 then replicate FRAMES 0 else map (fir h x) [FRAMES * (k - 1)..<FRAMES * k]) = delayed h x k" for h
    by (cases k) (auto intro!: nth_equalityI)
  show ?thesis using voice_process_ok [OF assms, of "replicate FRAMES 0" "replicate FRAMES 0"] unfolding blk by auto
qed

lemma voice_stream_ok:
  "voice_inv hl hr x (FRAMES * k) (FRAMES * k div B) (FRAMES * (k - 1)) v \<Longrightarrow>
    ms = map (\<lambda>j. map (\<lambda>r. x (FRAMES * j + r)) [0..<FRAMES]) [k..<k + n] \<Longrightarrow>
    \<exists>v'. voice_stream exact v ms = Some (map (\<lambda>j. (0 < j, delayed hl x j, delayed hr x j)) [k..<k + n], v')"
proof (induction n arbitrary: k v ms)
  case 0
  then show ?case by simp
next
  case (Suc n)
  obtain v1 where v1: "voice_process exact v (map (\<lambda>r. x (FRAMES * k + r)) [0..<FRAMES]) (replicate FRAMES 0) (replicate FRAMES 0) =
      Some ((0 < k, delayed hl x k, delayed hr x k), v1)"
    "voice_inv hl hr x (FRAMES * Suc k) (FRAMES * Suc k div B) (FRAMES * k) v1"
    using voice_block_ok [OF Suc.prems(1)] by (elim exE conjE)
  have u: "[k..<k + Suc n] = k # [Suc k..<Suc k + n]" by (simp add: upt_conv_Cons)
  have "\<exists>v'. voice_stream exact v1 (map (\<lambda>j. map (\<lambda>r. x (FRAMES * j + r)) [0..<FRAMES]) [Suc k..<Suc k + n]) =
      Some (map (\<lambda>j. (0 < j, delayed hl x j, delayed hr x j)) [Suc k..<Suc k + n], v')"
    by (rule Suc.IH [OF _ refl]) (use v1(2) in simp)
  then show ?case using v1(1) unfolding Suc.prems(2) u by auto
qed

text \<open>A voice as it is built, over a scratch of the length required.\<close>

lemma voice_new_ok:
  assumes "stereo_required_scratch (length hl) (length hr) B = Some (length scratch)"
  shows "\<exists>v. voice_new exact hl hr scratch = Some v \<and> voice_inv hl hr x 0 0 0 v"
proof -
  obtain sc where "StereoConvolver_new exact hl hr B 1 scratch = Some sc" "stereo_inv B hl hr x 0 sc"
    using StereoConvolver_new_ok [of B 6 hl hr scratch x] assms unfolding B_def by auto
  then show ?thesis by (simp add: voice_new_def voice_inv_def sf_new_ok)
qed

text \<open>The direct path of the spatializer, in exact arithmetic, for any pair of impulse responses: re-blocking 48 frames
  to 64 samples and back never overflows a queue, stalls only in the first callback, and otherwise delays by exactly
  one callback: each ear hears its impulse response convolved with the source, 48 samples late, with no sample lost
  or repeated.\<close>

theorem voice_delays_one_callback:
  assumes "stereo_required_scratch (length ir_l) (length ir_r) B = Some (length scratch)" "\<forall>m\<in>set frames. length m = FRAMES"
  shows "\<exists>v rs v'. voice_new exact ir_l ir_r scratch = Some v \<and> voice_stream exact v frames = Some (rs, v') \<and>
    map fst rs = map (\<lambda>k. 0 < k) [0..<length frames] \<and>
    concat (map (fst \<circ> snd) rs) =
      map (\<lambda>j. if j < FRAMES then 0 else fir ir_l (\<lambda>i. concat frames ! i) (j - FRAMES)) [0..<length (concat frames)] \<and>
    concat (map (snd \<circ> snd) rs) =
      map (\<lambda>j. if j < FRAMES then 0 else fir ir_r (\<lambda>i. concat frames ! i) (j - FRAMES)) [0..<length (concat frames)]"
proof -
  let ?x = "\<lambda>i. concat frames ! i"
  obtain v where new: "voice_new exact ir_l ir_r scratch = Some v" and "voice_inv ir_l ir_r ?x 0 0 0 v"
    using voice_new_ok [OF assms(1)] by blast
  then have "voice_inv ir_l ir_r ?x (FRAMES * 0) (FRAMES * 0 div B) (FRAMES * (0 - 1)) v" by simp
  moreover have "frames = map (\<lambda>j. map (\<lambda>r. ?x (FRAMES * j + r)) [0..<FRAMES]) [0..<0 + length frames]"
    using assms(2) by (intro nth_equalityI) (auto simp: concat_nth_block mult.commute intro!: nth_equalityI)
  ultimately obtain v' where run: "voice_stream exact v frames =
      Some (map (\<lambda>j. (0 < j, delayed ir_l ?x j, delayed ir_r ?x j)) [0..<length frames], v')"
    using voice_stream_ok [where hl = ir_l and hr = ir_r and x = ?x and k = 0 and v = v and ms = frames and n = "length frames"] by auto
  have all: "concat (map (delayed h ?x) [0..<length frames]) =
      map (\<lambda>j. if j < FRAMES then 0 else fir h ?x (j - FRAMES)) [0..<length (concat frames)]" for h
  proof -
    define g where "g = (\<lambda>i. if i < FRAMES then 0 else fir h ?x (i - FRAMES))"
    have d: "delayed h ?x = (\<lambda>j. map (\<lambda>r. g (j * FRAMES + r)) [0..<FRAMES])"
    proof
      fix j show "delayed h ?x j = map (\<lambda>r. g (j * FRAMES + r)) [0..<FRAMES]"
        by (cases j) (simp_all add: g_def mult.commute)
    qed
    have "concat (map (delayed h ?x) [0..<length frames]) = map g [0..<length frames * FRAMES]"
      unfolding d by (rule concat_map_upt)
    then show ?thesis unfolding g_def length_concat_blocks [OF assms(2)] .
  qed
  show ?thesis
    using new run all [of ir_l] all [of ir_r] by (simp add: o_def)
qed

lemma voice_delays_one_callback_witness:
  "\<exists>v rs v'. voice_new exact [1] [0, 1] (replicate 1548 0) = Some v \<and>
     voice_stream exact v [replicate 48 1, replicate 48 2] = Some (rs, v') \<and> map fst rs = [False, True] \<and>
     concat (map (fst \<circ> snd) rs) ! 48 = 1"
proof -
  have rq: "stereo_required_scratch (length [1 :: real]) (length [0, 1 :: real]) B = Some (length (replicate 1548 (0 :: real)))"
    by (simp add: stereo_required_scratch_def conv_required_scratch_def div_ceil_def B_def Let_def)
  have "\<forall>m\<in>set [replicate 48 1, replicate 48 (2 :: real)]. length m = FRAMES" by (simp add: FRAMES_def)
  from voice_delays_one_callback [OF rq this] obtain v rs v' where
    "voice_new exact [1] [0, 1] (replicate 1548 0) = Some v" "voice_stream exact v [replicate 48 1, replicate 48 2] = Some (rs, v')"
    "map fst rs = map (\<lambda>k. 0 < k) [0..<length [replicate 48 1, replicate 48 (2 :: real)]]"
    "concat (map (fst \<circ> snd) rs) = map (\<lambda>j. if j < FRAMES then 0 else fir [1] (\<lambda>i. concat [replicate 48 1, replicate 48 2] ! i) (j - FRAMES))
      [0..<length (concat [replicate 48 1, replicate 48 (2 :: real)])]"
    by (elim exE conjE)
  moreover from this(4) have "concat (map (fst \<circ> snd) rs) ! 48 = 1" by (simp add: FRAMES_def fir_def nth_append)
  moreover have "map (\<lambda>k. 0 < k) [0..<length [replicate 48 1, replicate 48 (2 :: real)]] = [False, True]"
    by (simp add: upt_conv_Cons)
  ultimately show ?thesis by auto
qed

end
