(* ===== verification/Delay.thy ===== *)
theory Delay
  imports Fft_Exact
begin

text \<open>
  \<open>crates/daisy-dsp/src/delay.rs\<close>: the ring-buffer delay line, with its integer and its interpolated
  taps, as the list of the samples written last; the interface \<open>tapped_line\<close> is what the effects
  built on it use. \<open>crates/daisy-dsp/src/filter.rs\<close>: the one-pole filter.
\<close>

section \<open>Arithmetic beyond the field operations\<close>

text \<open>Comparisons, minimum and maximum, the absolute value, conversion to an index (\<open>as usize\<close>: towards zero, negative numbers to zero, what is
  too great for 32 bits to the greatest) and the functions of \<open>libm\<close>.\<close>

record 'f fmath =
  fm :: "'f flops"
  f_le :: "'f \<Rightarrow> 'f \<Rightarrow> bool"
  f_lt :: "'f \<Rightarrow> 'f \<Rightarrow> bool"
  f_min :: "'f \<Rightarrow> 'f \<Rightarrow> 'f"
  f_max :: "'f \<Rightarrow> 'f \<Rightarrow> 'f"
  f_abs :: "'f \<Rightarrow> 'f"
  f_index :: "'f \<Rightarrow> nat"
  f_sin :: "'f \<Rightarrow> 'f"
  f_cos :: "'f \<Rightarrow> 'f"
  f_tan :: "'f \<Rightarrow> 'f"
  f_exp :: "'f \<Rightarrow> 'f"
  f_exp2 :: "'f \<Rightarrow> 'f"
  f_pow :: "'f \<Rightarrow> 'f \<Rightarrow> 'f"
  f_log10 :: "'f \<Rightarrow> 'f"
  f_sqrt :: "'f \<Rightarrow> 'f"
  f_atan2 :: "'f \<Rightarrow> 'f \<Rightarrow> 'f"
  f_round :: "'f \<Rightarrow> 'f"
  f_pi :: 'f

definition usize_of :: "real \<Rightarrow> nat" where
  "usize_of x = min (2 ^ 32 - 1) (nat \<lfloor>x\<rfloor>)"

lemma usize_of_small: "x < 2 ^ 32 \<Longrightarrow> usize_of x = nat \<lfloor>x\<rfloor>"
  by (simp add: usize_of_def floor_less_iff min_def)  linarith

lemma usize_of_le: "usize_of x \<le> nat \<lfloor>x\<rfloor>"
  by (simp add: usize_of_def)

definition exact_math :: "real fmath" where
  "exact_math = \<lparr>fm = exact, f_le = (\<le>), f_lt = (<), f_min = min, f_max = max, f_abs = abs, f_index = usize_of, f_sin = sin, f_cos = cos, f_tan = tan, f_exp = exp, f_exp2 = (\<lambda>x. 2 powr x), f_pow = (powr),
     f_log10 = log 10, f_sqrt = sqrt, f_atan2 = (\<lambda>y x. Arg (Complex x y)), f_round = (\<lambda>x. sgn x * of_int \<lfloor>\<bar>x\<bar> + 1 / 2\<rfloor>), f_pi = pi\<rparr>"

lemma exact_math_sel [simp]:
  "fm exact_math = exact" "f_le exact_math = (\<le>)" "f_lt exact_math = (<)" "f_min exact_math = min" "f_max exact_math = max" "f_abs exact_math = abs"
  "f_index exact_math = usize_of" "f_sin exact_math = sin"
  "f_cos exact_math = cos" "f_tan exact_math = tan" "f_log10 exact_math = log 10" "f_exp exact_math = exp" "f_pow exact_math = (powr)"
  "f_sqrt exact_math = sqrt" "f_atan2 exact_math y x = Arg (Complex x y)" "f_pi exact_math = pi"
  by (simp_all add: exact_math_def)

section \<open>The delay line\<close>

record 'f delay_line =
  dl_buf :: "'f list"
  dl_write :: nat

definition delay_new :: "'f flops \<Rightarrow> 'f list \<Rightarrow> 'f delay_line" where
  "delay_new F buf = \<lparr>dl_buf = map (\<lambda>_. fl_nat F 0) buf, dl_write = 0\<rparr>"

definition delay_len :: "'f delay_line \<Rightarrow> nat" where
  "delay_len d = length (dl_buf d)"

definition delay_is_empty :: "'f delay_line \<Rightarrow> bool" where
  "delay_is_empty d \<longleftrightarrow> dl_buf d = []"

definition delay_write :: "'f \<Rightarrow> 'f delay_line \<Rightarrow> 'f delay_line option" where
  "delay_write x d = do {
     buf \<leftarrow> idx_set (dl_buf d) (dl_write d) x;
     Some (d\<lparr>dl_buf := buf, dl_write := if dl_write d + 1 = length buf then 0 else dl_write d + 1\<rparr>)
   }"

text \<open>An empty buffer panics in the remainder.\<close>

definition delay_read :: "'f delay_line \<Rightarrow> nat \<Rightarrow> 'f option" where
  "delay_read d delay =
     (let n = length (dl_buf d) in
      if n = 0 then None
      else let k = min delay (n - 1); idx = (dl_write d + n - 1 - k) mod n in idx_get (dl_buf d) idx)"

definition read_frac :: "'f fmath \<Rightarrow> 'f delay_line \<Rightarrow> 'f \<Rightarrow> 'f option" where
  "read_frac M d delay =
     (let F = fm M; n = length (dl_buf d) in
      if n = 0 then None
      else
        let top = fl_nat F (n - 1);
            k = fl_clamp F delay (fl_nat F 0) top;
            i = f_index M k;
            frac = fl_sub F k (fl_nat F i)
        in do {
          a \<leftarrow> delay_read d i;
          b \<leftarrow> delay_read d (min (i + 1) (n - 1));
          Some (fl_add F a (fl_mul F (fl_sub F b a) frac))
        })"

definition delay_tick :: "'f delay_line \<Rightarrow> 'f \<Rightarrow> nat \<Rightarrow> ('f \<times> 'f delay_line) option" where
  "delay_tick d x delay = do { d \<leftarrow> delay_write x d; y \<leftarrow> delay_read d delay; Some (y, d) }"

definition delay_reset :: "'f flops \<Rightarrow> 'f delay_line \<Rightarrow> 'f delay_line" where
  "delay_reset F d = \<lparr>dl_buf = map (\<lambda>_. fl_nat F 0) (dl_buf d), dl_write = 0\<rparr>"

section \<open>The line as its history\<close>

text \<open>
  What an effect relies on: the line holds the last samples written, newest first, and a tap reads one of
  them, the oldest when it asks for more.
\<close>

locale tapped_line =
  fixes push :: "'a \<Rightarrow> 's \<Rightarrow> 's option"
    and tap :: "'s \<Rightarrow> nat \<Rightarrow> 'a option"
    and hist :: "'s \<Rightarrow> 'a list"
    and ok :: "'s \<Rightarrow> bool"
  assumes hist_ne: "ok s \<Longrightarrow> hist s \<noteq> []"
    and push: "ok s \<Longrightarrow> \<exists>s'. push x s = Some s' \<and> ok s' \<and> hist s' = x # butlast (hist s)"
    and tap: "ok s \<Longrightarrow> tap s d = Some (hist s ! min d (length (hist s) - 1))"
begin

lemma push_list:
  assumes "ok s"
  shows "\<exists>s'. for_in push xs s = Some s' \<and> ok s' \<and> hist s' = take (length (hist s)) (rev xs @ hist s)"
  using assms
proof (induction xs arbitrary: s)
  case (Cons x xs)
  obtain s1 where s1: "push x s = Some s1" "ok s1" "hist s1 = x # butlast (hist s)" using push [OF Cons.prems] by blast
  have ne: "hist s \<noteq> []" by (rule hist_ne [OF Cons.prems])
  then have len: "length (hist s1) = length (hist s)" by (simp add: s1(3))
  obtain s' where s': "for_in push xs s1 = Some s'" "ok s'" "hist s' = take (length (hist s)) (rev xs @ hist s1)"
    using Cons.IH [OF s1(2)] unfolding len by blast
  have "take (length (hist s)) (rev xs @ x # butlast (hist s)) = take (length (hist s)) (rev xs @ x # hist s)"
    using ne by (cases "length xs < length (hist s)")
      (auto simp: take_Cons' butlast_conv_take split: if_splits)
  then show ?case using s1 s' by simp
qed simp

text \<open>A tap of \<open>d\<close> samples on the line after the samples \<open>xs\<close>.\<close>

lemma tap_after:
  assumes "ok s" "d < length (hist s)" "for_in push xs s = Some s'"
  shows "tap s' d = Some (if d < length xs then xs ! (length xs - 1 - d) else hist s ! (d - length xs))"
proof -
  have s': "ok s'" "hist s' = take (length (hist s)) (rev xs @ hist s)" using push_list [OF assms(1), of xs] assms(3) by auto
  have "length (hist s') = length (hist s)" using s'(2) by simp
  then have "tap s' d = Some (hist s' ! d)" using tap [OF s'(1), of d] assms(2) by (simp add: min_absorb1)
  then show ?thesis using assms(2) by (simp add: s'(2) nth_append rev_nth)
qed

end

definition dl_hist :: "'f delay_line \<Rightarrow> 'f list" where
  "dl_hist d = (let n = length (dl_buf d) in map (\<lambda>k. dl_buf d ! ((dl_write d + n - 1 - k) mod n)) [0..<n])"

definition dl_ok :: "'f delay_line \<Rightarrow> bool" where
  "dl_ok d \<longleftrightarrow> dl_write d < length (dl_buf d)"

lemma length_dl_hist [simp]: "length (dl_hist d) = length (dl_buf d)"
  by (simp add: dl_hist_def Let_def)

lemma delay_read_hist: "dl_ok d \<Longrightarrow> delay_read d k = Some (dl_hist d ! min k (length (dl_hist d) - 1))"
  by (auto simp: delay_read_def dl_ok_def dl_hist_def Let_def)

lemma ring_back:
  assumes "(w::nat) < n" "k < n"
  shows "(w + n - 1 - k) mod n = (if k < w then w - 1 - k else w + n - 1 - k)"
proof (cases "k < w")
  case True
  then have "w + n - 1 - k = (w - 1 - k) + n" using assms by simp
  moreover have "w - 1 - k < n" using assms by simp
  ultimately show ?thesis using True by (metis mod_add_self2 mod_less)
qed (use assms in simp)

lemma delay_write_hist:
  assumes "dl_ok d"
  shows "\<exists>d'. delay_write x d = Some d' \<and> dl_ok d' \<and> dl_hist d' = x # butlast (dl_hist d)"
proof -
  let ?n = "length (dl_buf d)" and ?w = "dl_write d"
  have w: "?w < ?n" using assms by (simp add: dl_ok_def)
  define w' where "w' = (if ?w + 1 = ?n then 0 else ?w + 1)"
  define d' where "d' = d\<lparr>dl_buf := (dl_buf d)[?w := x], dl_write := w'\<rparr>"
  have w': "w' < ?n" using w by (auto simp: w'_def)
  have "delay_write x d = Some d'" using w by (auto simp: delay_write_def d'_def w'_def)
  moreover have "dl_hist d' = x # butlast (dl_hist d)"
  proof (rule nth_equalityI)
    fix k assume "k < length (dl_hist d')"
    then have k: "k < ?n" by (simp add: d'_def)
    have "dl_hist d' ! k = (dl_buf d)[?w := x] ! ((w' + ?n - 1 - k) mod ?n)" using k by (simp add: dl_hist_def d'_def Let_def)
    also have "\<dots> = (x # butlast (dl_hist d)) ! k"
    proof (cases k)
      case 0
      then have "(w' + ?n - 1 - k) mod ?n = ?w" unfolding ring_back [OF w' k] using w by (auto simp: w'_def)
      then show ?thesis using 0 w by simp
    next
      case (Suc j)
      then have j: "j < ?n" "j < ?n - 1" using k by simp_all
      have "(w' + ?n - 1 - k) mod ?n = (?w + ?n - 1 - j) mod ?n" "(?w + ?n - 1 - j) mod ?n \<noteq> ?w"
        unfolding ring_back [OF w' k] ring_back [OF w j(1)] using w j Suc by (auto simp: w'_def)
      then show ?thesis using Suc j by (simp add: nth_butlast dl_hist_def Let_def)
    qed
    finally show "dl_hist d' ! k = (x # butlast (dl_hist d)) ! k" .
  qed (use w in \<open>simp add: d'_def\<close>)
  ultimately show ?thesis using w' by (auto simp: dl_ok_def d'_def)
qed

interpretation dline: tapped_line delay_write delay_read dl_hist dl_ok
proof
  show "dl_ok s \<Longrightarrow> dl_hist s \<noteq> []" for s :: "'a delay_line"
    by (metis dl_ok_def length_dl_hist length_greater_0_conv less_nat_zero_code list.size(3) not_gr_zero)
qed (rule delay_write_hist delay_read_hist; assumption)+

end
