(* ===== verification/Room.thy ===== *)
theory Room
  imports Delay
begin

text \<open>
  \<open>crates/daisy-dsp/src/room.rs\<close>: early reflections as interpolated taps of one delay line, and the pattern
  of taps of a small room; \<open>OnePole\<close> of \<open>crates/daisy-dsp/src/filter.rs\<close>.
\<close>

section \<open>The one-pole filter\<close>

record 'f one_pole =
  op_a :: 'f
  op_b :: 'f
  op_z :: 'f
  op_high :: bool

definition lowpass :: "'f fmath \<Rightarrow> 'f \<Rightarrow> 'f \<Rightarrow> 'f one_pole" where
  "lowpass M sample_rate cutoff =
     (let F = fm M;
          a = f_exp M (fl_div F (fl_mul F (fl_mul F (fl_neg F (fl_nat F 2)) (f_pi M)) cutoff) sample_rate) in
      \<lparr>op_a = a, op_b = fl_sub F (fl_nat F 1) a, op_z = fl_nat F 0, op_high = False\<rparr>)"

definition highpass :: "'f fmath \<Rightarrow> 'f \<Rightarrow> 'f \<Rightarrow> 'f one_pole" where
  "highpass M sample_rate cutoff = (lowpass M sample_rate cutoff)\<lparr>op_high := True\<rparr>"

definition op_tick :: "'f flops \<Rightarrow> 'f one_pole \<Rightarrow> 'f \<Rightarrow> 'f \<times> 'f one_pole" where
  "op_tick F p x =
     (let z = fl_add F (fl_mul F (op_b p) x) (fl_mul F (op_a p) (op_z p)) in
      (if op_high p then fl_sub F x z else z, p\<lparr>op_z := z\<rparr>))"

text \<open>A block: as many samples as both slices have.\<close>

fun op_process :: "'f flops \<Rightarrow> 'f one_pole \<Rightarrow> 'f list \<Rightarrow> 'f list \<Rightarrow> 'f list \<times> 'f one_pole" where
  "op_process F p (x # xs) (_ # out) =
     (let (y, p) = op_tick F p x; (ys, p) = op_process F p xs out in (y # ys, p))"
| "op_process F p _ out = (out, p)"

definition op_reset :: "'f flops \<Rightarrow> 'f one_pole \<Rightarrow> 'f one_pole" where
  "op_reset F p = p\<lparr>op_z := fl_nat F 0\<rparr>"

section \<open>Early reflections\<close>

record 'f er_tap =
  t_delay :: 'f
  t_gain_l :: 'f
  t_gain_r :: 'f

record 'f early_reflections =
  er_line :: "'f delay_line"
  er_taps :: "'f er_tap list"

definition er_new :: "'f flops \<Rightarrow> 'f list \<Rightarrow> 'f er_tap list \<Rightarrow> 'f early_reflections" where
  "er_new F buf taps = \<lparr>er_line = delay_new F buf, er_taps = taps\<rparr>"

definition er_tap_sum :: "'f fmath \<Rightarrow> 'f delay_line \<Rightarrow> 'f er_tap \<Rightarrow> 'f \<times> 'f \<Rightarrow> ('f \<times> 'f) option" where
  "er_tap_sum M line t = (\<lambda>(l, r). do {
     s \<leftarrow> read_frac M line (t_delay t);
     Some (fl_add (fm M) l (fl_mul (fm M) s (t_gain_l t)), fl_add (fm M) r (fl_mul (fm M) s (t_gain_r t)))
   })"

definition er_tick :: "'f fmath \<Rightarrow> 'f early_reflections \<Rightarrow> 'f \<Rightarrow> (('f \<times> 'f) \<times> 'f early_reflections) option" where
  "er_tick M er x = do {
     line \<leftarrow> delay_write x (er_line er);
     lr \<leftarrow> for_in (er_tap_sum M line) (er_taps er) (fl_nat (fm M) 0, fl_nat (fm M) 0);
     Some (lr, er\<lparr>er_line := line\<rparr>)
   }"

fun er_process :: "'f fmath \<Rightarrow> 'f early_reflections \<Rightarrow> 'f list \<Rightarrow> 'f list \<Rightarrow> 'f list \<Rightarrow>
    (('f list \<times> 'f list) \<times> 'f early_reflections) option" where
  "er_process M er (x # xs) (_ # ol) (_ # orr) = do {
     ((l, r), er) \<leftarrow> er_tick M er x;
     ((ls, rs), er) \<leftarrow> er_process M er xs ol orr;
     Some ((l # ls, r # rs), er)
   }"
| "er_process M er _ ol orr = Some ((ol, orr), er)"

definition er_reset :: "'f flops \<Rightarrow> 'f early_reflections \<Rightarrow> 'f early_reflections" where
  "er_reset F er = er\<lparr>er_line := delay_reset F (er_line er)\<rparr>"

text \<open>The pattern of a small room; decimal constants are quotients of integers.\<close>

definition CROSS :: "'f flops \<Rightarrow> 'f" where
  "CROSS F = fl_div F (fl_nat F 1) (fl_nat F 4)"

definition room_tap :: "'f fmath \<Rightarrow> nat \<Rightarrow> 'f \<Rightarrow> 'f \<Rightarrow> 'f \<Rightarrow> nat \<Rightarrow> 'f er_tap" where
  "room_tap M n sample_rate first_ms spread_ms i =
     (let F = fm M;
          frac = if 1 < n then fl_div F (fl_nat F i) (fl_nat F (n - 1)) else fl_nat F 0;
          jitter = fl_mul F (fl_div F (fl_nat F 13) (fl_nat F 100))
            (f_sin M (fl_mul F (fl_nat F i) (fl_div F (fl_nat F 2399) (fl_nat F 1000))));
          ms = fl_add F first_ms (fl_mul F (fl_sub F spread_ms first_ms) (fl_clamp F (fl_add F frac jitter) (fl_nat F 0) (fl_nat F 1)));
          delay = fl_mul F (fl_mul F ms (fl_div F (fl_nat F 1) (fl_nat F 1000))) sample_rate;
          g = fl_div F first_ms ms;
          (gl, gr) = if i mod 2 = 0 then (g, fl_mul F (CROSS F) g) else (fl_mul F (CROSS F) g, g) in
      \<lparr>t_delay = delay, t_gain_l = gl, t_gain_r = gr\<rparr>)"

definition room_taps :: "'f fmath \<Rightarrow> 'f er_tap list \<Rightarrow> 'f \<Rightarrow> 'f \<Rightarrow> 'f \<Rightarrow> 'f er_tap list" where
  "room_taps M taps sample_rate first_ms spread_ms = map (room_tap M (length taps) sample_rate first_ms spread_ms) [0..<length taps]"

section \<open>What a tap hears\<close>

text \<open>The source \<open>x\<close>, silent before its start, \<open>d\<close> samples before the last of the first \<open>n\<close>; between samples
  interpolated.\<close>

definition past :: "(nat \<Rightarrow> real) \<Rightarrow> nat \<Rightarrow> nat \<Rightarrow> real" where
  "past x n d = (if d < n then x (n - 1 - d) else 0)"

definition past_at :: "(nat \<Rightarrow> real) \<Rightarrow> nat \<Rightarrow> real \<Rightarrow> real" where
  "past_at x n d = (let i = nat \<lfloor>d\<rfloor> in past x n i + (past x n (i + 1) - past x n i) * (d - real i))"

definition line_inv :: "(nat \<Rightarrow> real) \<Rightarrow> nat \<Rightarrow> nat \<Rightarrow> real delay_line \<Rightarrow> bool" where
  "line_inv x len n d \<longleftrightarrow> dl_ok d \<and> dl_hist d = map (past x n) [0..<len]"

lemma past_Suc: "past x (Suc n) 0 = x n" "past x (Suc n) (Suc d) = past x n d"
  by (simp_all add: past_def)

lemma line_inv_new: "buf \<noteq> [] \<Longrightarrow> line_inv x (length buf) 0 (delay_new exact buf)"
  by (auto simp: line_inv_def delay_new_def dl_ok_def dl_hist_def past_def Let_def)

lemma line_inv_write:
  assumes "line_inv x len n d"
  shows "\<exists>d'. delay_write (x n) d = Some d' \<and> line_inv x len (Suc n) d'"
proof -
  have d: "dl_ok d" "dl_hist d = map (past x n) [0..<len]" using assms by (simp_all add: line_inv_def)
  have "0 < len" using dline.hist_ne [OF d(1)] d(2) by simp
  then obtain k where k: "len = Suc k" by (cases len) simp_all
  have "x n # butlast (map (past x n) [0..<len]) = map (past x (Suc n)) [0..<len]"
    unfolding k by (rule nth_equalityI) (auto simp: nth_Cons past_Suc nth_append split: nat.splits simp del: upt_Suc simp: nth_butlast)
  then show ?thesis using dline.push [OF d(1), of "x n"] by (auto simp: line_inv_def d(2))
qed

lemma line_inv_len: "line_inv x len n d \<Longrightarrow> length (dl_buf d) = len"
  by (metis length_dl_hist length_map length_upt line_inv_def minus_nat.diff_0)

lemma read_frac_past:
  assumes d: "line_inv x len n line" and k: "0 \<le> k" "k \<le> real (len - 1)" and len: "0 < len" "len \<le> 2 ^ 32"
  shows "read_frac exact_math line k = Some (past_at x n k)"
proof -
  have ok: "dl_ok line" "dl_hist line = map (past x n) [0..<len]" using d by (simp_all add: line_inv_def)
  have n: "length (dl_buf line) = len" by (rule line_inv_len [OF d])
  define i where "i = nat \<lfloor>k\<rfloor>"
  have i: "i \<le> len - 1" unfolding i_def using k by linarith
  have "len - 1 < 2 ^ 32" using len by simp
  then have "k < 2 ^ 32" using k(2) of_nat_less_iff [of "len - 1" "2 ^ 32", where 'a = real] by simp
  from usize_of_small [OF this] have u: "usize_of k = i" by (simp add: i_def)
  have rd: "delay_read line j = Some (past x n (min j (len - 1)))" for j
    using dline.tap [OF ok(1), of j] len by (simp add: ok(2) n min_less_iff_disj)
  have edge: "(past x n (min (i + 1) (len - 1)) - past x n i) * (k - real i) = (past x n (i + 1) - past x n i) * (k - real i)"
  proof (cases "i + 1 \<le> len - 1")
    case False
    then have "i = len - 1" using i by simp
    then have "k = real i" using k unfolding i_def by linarith
    then show ?thesis by simp
  qed (simp add: min_absorb1)
  have "max k 0 = k" using k by simp
  then have "max (min k (real (len - 1))) 0 = k" "max 0 (min k (real (len - 1))) = k" "max k (min 0 (real (len - 1))) = k" using k by auto
  then show ?thesis
    using k len i edge by (simp add: read_frac_def n rd Let_def u i_def [symmetric] past_at_def min_absorb1 max_absorb1 max_absorb2)
qed

section \<open>The reflections\<close>

definition reflections :: "(real er_tap \<Rightarrow> real) \<Rightarrow> real er_tap list \<Rightarrow> (nat \<Rightarrow> real) \<Rightarrow> nat \<Rightarrow> real" where
  "reflections gain taps x n = (\<Sum>t\<leftarrow>taps. past_at x (Suc n) (t_delay t) * gain t)"

definition taps_fit :: "nat \<Rightarrow> real er_tap list \<Rightarrow> bool" where
  "taps_fit len taps \<longleftrightarrow> list_all (\<lambda>t. 0 \<le> t_delay t \<and> t_delay t \<le> real (len - 1)) taps"

lemma tap_sums:
  assumes d: "line_inv x len n line" and len: "0 < len" "len \<le> 2 ^ 32"
  shows "taps_fit len taps \<Longrightarrow> for_in (er_tap_sum exact_math line) taps (l, r) =
    Some (l + (\<Sum>t\<leftarrow>taps. past_at x n (t_delay t) * t_gain_l t), r + (\<Sum>t\<leftarrow>taps. past_at x n (t_delay t) * t_gain_r t))"
proof (induction taps arbitrary: l r)
  case (Cons t taps)
  have "read_frac exact_math line (t_delay t) = Some (past_at x n (t_delay t))"
    using Cons.prems by (intro read_frac_past [OF d _ _ len]) (simp_all add: taps_fit_def)
  moreover have "taps_fit len taps" using Cons.prems by (simp add: taps_fit_def)
  ultimately show ?case using Cons.IH by (simp add: er_tap_sum_def add.assoc)
qed simp

definition er_inv :: "(nat \<Rightarrow> real) \<Rightarrow> nat \<Rightarrow> real er_tap list \<Rightarrow> nat \<Rightarrow> real early_reflections \<Rightarrow> bool" where
  "er_inv x len taps n er \<longleftrightarrow> line_inv x len n (er_line er) \<and> er_taps er = taps \<and> 0 < len \<and> len \<le> 2 ^ 32 \<and> taps_fit len taps"

lemma er_tick_ok:
  assumes "er_inv x len taps n er"
  shows "\<exists>er'. er_tick exact_math er (x n) = Some ((reflections t_gain_l taps x n, reflections t_gain_r taps x n), er') \<and>
    er_inv x len taps (Suc n) er'"
proof -
  have er: "line_inv x len n (er_line er)" "er_taps er = taps" "0 < len" "len \<le> 2 ^ 32" "taps_fit len taps"
    using assms by (simp_all add: er_inv_def)
  obtain line where line: "delay_write (x n) (er_line er) = Some line" "line_inv x len (Suc n) line"
    using line_inv_write [OF er(1)] by blast
  show ?thesis
    using line er tap_sums [OF line(2) er(3-5), of 0 0] by (simp add: er_tick_def reflections_def er_inv_def)
qed

lemma er_process_ok:
  "er_inv x len taps n er \<Longrightarrow> length ol = c \<Longrightarrow> length orr = c \<Longrightarrow>
    \<exists>er'. er_process exact_math er (map x [n..<n + c]) ol orr =
      Some ((map (reflections t_gain_l taps x) [n..<n + c], map (reflections t_gain_r taps x) [n..<n + c]), er') \<and>
    er_inv x len taps (n + c) er'"
proof (induction c arbitrary: n er ol orr)
  case (Suc c)
  obtain o1 ol' o2 orr' where o: "ol = o1 # ol'" "orr = o2 # orr'" "length ol' = c" "length orr' = c"
    using Suc.prems(2,3) by (metis length_Suc_conv)
  have u: "[n..<n + Suc c] = n # [Suc n..<Suc n + c]" by (simp add: upt_conv_Cons)
  obtain er1 where er1: "er_tick exact_math er (x n) = Some ((reflections t_gain_l taps x n, reflections t_gain_r taps x n), er1)"
    "er_inv x len taps (Suc n) er1" using er_tick_ok [OF Suc.prems(1)] by blast
  from Suc.IH [OF er1(2) o(3,4)] show ?case unfolding u o(1,2) using er1(1) by auto
qed simp

end
