(* ===== verification/Reverb.thy ===== *)
theory Reverb
  imports Room
begin

text \<open>
  \<open>crates/daisy-dsp/src/reverb.rs\<close>: the feedback delay network, eight modulated delay lines and four
  all-pass diffusers in one borrowed buffer, fed back through a Householder matrix. In exact arithmetic no
  read or write leaves its line, whatever the input, and the matrix preserves energy.
\<close>

section \<open>The network\<close>

definition LINES :: nat where "LINES = 8"
definition NDIFF :: nat where "NDIFF = 4"

definition DELAYS :: "nat list" where
  "DELAYS = [1009, 1103, 1201, 1301, 1399, 1499, 1601, 1699]"

definition DIFF_DELAYS :: "nat list" where
  "DIFF_DELAYS = [149, 211, 293, 379]"

definition DIFF_G :: "'f flops \<Rightarrow> 'f" where
  "DIFF_G F = fl_div F (fl_nat F 7) (fl_nat F 10)"

definition array_sum :: "nat list \<Rightarrow> nat" where
  "array_sum a = foldl (+) 0 a"

definition REQUIRED_BUF :: nat where
  "REQUIRED_BUF = array_sum DELAYS + array_sum DIFF_DELAYS"

record 'f fdn =
  fd_buf :: "'f list"
  fd_start :: "nat list"
  fd_delay :: "nat list"
  fd_pos :: "nat list"
  fd_damp :: "'f one_pole list"
  fd_fb :: "'f list"
  fd_diff_start :: "nat list"
  fd_diff_delay :: "nat list"
  fd_diff_pos :: "nat list"
  fd_mod_x :: "'f list"
  fd_mod_y :: "'f list"
  fd_mod_eps :: "'f list"
  fd_mod_depth :: 'f
  fd_dry :: 'f
  fd_wet :: 'f

text \<open>\<open>start[i] = acc; acc += len[i]\<close>.\<close>

fun starts :: "nat \<Rightarrow> nat list \<Rightarrow> nat list" where
  "starts acc [] = []"
| "starts acc (d # ds) = acc # starts (acc + d) ds"

definition fdn_new :: "'f fmath \<Rightarrow> 'f list \<Rightarrow> 'f \<Rightarrow> 'f \<Rightarrow> 'f \<Rightarrow> 'f \<Rightarrow> 'f fdn option" where
  "fdn_new M buf sample_rate rt60_s damping_hz mix =
     (if length buf < REQUIRED_BUF then None
      else let F = fm M; rational = (\<lambda>n d. fl_div F (fl_nat F n) (fl_nat F d));
          ph = (\<lambda>i. fl_mul F (fl_nat F i) (rational 79 100));
          rate = (\<lambda>i. fl_add F (rational 6 10) (fl_mul F (rational 14 100) (fl_nat F i))) in
        Some \<lparr>fd_buf = replicate REQUIRED_BUF (fl_nat F 0) @ drop REQUIRED_BUF buf,
          fd_start = starts 0 DELAYS, fd_delay = DELAYS, fd_pos = replicate LINES 0,
          fd_damp = replicate LINES (lowpass M sample_rate damping_hz),
          fd_fb = map (\<lambda>d. f_pow M (fl_nat F 10)
            (fl_div F (fl_mul F (fl_neg F (fl_nat F 3)) (fl_nat F d)) (fl_mul F rt60_s sample_rate))) DELAYS,
          fd_diff_start = starts (array_sum DELAYS) DIFF_DELAYS, fd_diff_delay = DIFF_DELAYS, fd_diff_pos = replicate NDIFF 0,
          fd_mod_x = map (\<lambda>i. f_cos M (ph i)) [0..<LINES], fd_mod_y = map (\<lambda>i. f_sin M (ph i)) [0..<LINES],
          fd_mod_eps = map (\<lambda>i. fl_mul F (fl_nat F 2) (f_sin M (fl_div F (fl_mul F (f_pi M) (rate i)) sample_rate))) [0..<LINES],
          fd_mod_depth = fl_nat F 5, fd_dry = fl_sub F (fl_nat F 1) mix, fd_wet = mix\<rparr>)"

definition wrap_at :: "nat \<Rightarrow> nat \<Rightarrow> nat" where
  "wrap_at d p = (if p + 1 = d then 0 else p + 1)"

text \<open>One Schroeder all-pass of the input diffusion.\<close>

definition diffuse :: "'f fmath \<Rightarrow> nat \<Rightarrow> 'f \<times> 'f fdn \<Rightarrow> ('f \<times> 'f fdn) option" where
  "diffuse M k = (\<lambda>(xd, r). let F = fm M in do {
     s \<leftarrow> idx_get (fd_diff_start r) k;
     p \<leftarrow> idx_get (fd_diff_pos r) k;
     let idx = s + p;
     bufout \<leftarrow> idx_get (fd_buf r) idx;
     let v = fl_add F xd (fl_mul F (DIFF_G F) bufout);
     buf \<leftarrow> idx_set (fd_buf r) idx v;
     d \<leftarrow> idx_get (fd_diff_delay r) k;
     pos \<leftarrow> idx_set (fd_diff_pos r) k (wrap_at d p);
     Some (fl_sub F bufout (fl_mul F (DIFF_G F) v), r\<lparr>fd_buf := buf, fd_diff_pos := pos\<rparr>)
   })"

text \<open>The delayed output of line \<open>i\<close>, read at its slowly modulated position.\<close>

definition read_position :: "'f fmath \<Rightarrow> 'f \<Rightarrow> 'f \<Rightarrow> nat \<Rightarrow> nat \<Rightarrow> 'f" where
  "read_position M depth x d pos =
     (let F = fm M;
          rp = fl_add F (fl_nat F pos) (fl_mul F (fl_mul F depth (fl_half F)) (fl_add F x (fl_nat F 1))) in
      if f_le M (fl_nat F d) rp then fl_sub F rp (fl_nat F d) else rp)"

definition read_line :: "'f fmath \<Rightarrow> nat \<Rightarrow> 'f list \<times> 'f fdn \<Rightarrow> ('f list \<times> 'f fdn) option" where
  "read_line M i = (\<lambda>(s, r). let F = fm M in do {
     x \<leftarrow> idx_get (fd_mod_x r) i;
     y \<leftarrow> idx_get (fd_mod_y r) i;
     e \<leftarrow> idx_get (fd_mod_eps r) i;
     let x = fl_add F x (fl_mul F e y);
     let y = fl_sub F y (fl_mul F e x);
     mx \<leftarrow> idx_set (fd_mod_x r) i x;
     my \<leftarrow> idx_set (fd_mod_y r) i y;
     d \<leftarrow> idx_get (fd_delay r) i;
     p \<leftarrow> idx_get (fd_pos r) i;
     let rp = read_position M (fd_mod_depth r) x d p;
     let i0 = f_index M rp;
     let frac = fl_sub F rp (fl_nat F i0);
     let i1 = (if d \<le> i0 + 1 then 0 else i0 + 1);
     base \<leftarrow> idx_get (fd_start r) i;
     a \<leftarrow> idx_get (fd_buf r) (base + i0);
     b \<leftarrow> idx_get (fd_buf r) (base + i1);
     s \<leftarrow> idx_set s i (fl_add F a (fl_mul F (fl_sub F b a) frac));
     Some (s, r\<lparr>fd_mod_x := mx, fd_mod_y := my\<rparr>)
   })"

text \<open>The two orthogonal taps of the eight outputs; \<open>0.354\<close> as a quotient.\<close>

fun signed_sum :: "'f flops \<Rightarrow> bool list \<Rightarrow> 'f list \<Rightarrow> 'f \<Rightarrow> 'f" where
  "signed_sum F (p # ps) (s # ss) acc = signed_sum F ps ss (if p then fl_add F acc s else fl_sub F acc s)"
| "signed_sum F _ _ acc = acc"

definition hadamard :: "'f flops \<Rightarrow> bool list \<Rightarrow> 'f list \<Rightarrow> 'f option" where
  "hadamard F signs s = (case s of [] \<Rightarrow> None
     | s0 # ss \<Rightarrow> Some (fl_mul F (fl_div F (fl_nat F 354) (fl_nat F 1000)) (signed_sum F signs ss s0)))"

definition damp_line :: "'f flops \<Rightarrow> 'f list \<Rightarrow> nat \<Rightarrow> 'f list \<times> 'f fdn \<Rightarrow> ('f list \<times> 'f fdn) option" where
  "damp_line F s i = (\<lambda>(t, r). do {
     si \<leftarrow> idx_get s i;
     filt \<leftarrow> idx_get (fd_damp r) i;
     let (y, filt) = op_tick F filt si;
     damp \<leftarrow> idx_set (fd_damp r) i filt;
     g \<leftarrow> idx_get (fd_fb r) i;
     t \<leftarrow> idx_set t i (fl_mul F y g);
     Some (t, r\<lparr>fd_damp := damp\<rparr>)
   })"

definition mix_level :: "'f flops \<Rightarrow> 'f list \<Rightarrow> 'f" where
  "mix_level F t = fl_mul F (foldl (fl_add F) (fl_nat F 0) t) (fl_div F (fl_nat F 2) (fl_nat F LINES))"

definition inject :: "'f flops \<Rightarrow> 'f \<Rightarrow> 'f list \<Rightarrow> 'f \<Rightarrow> nat \<Rightarrow> 'f fdn \<Rightarrow> 'f fdn option" where
  "inject F xd t h i r = do {
     s \<leftarrow> idx_get (fd_start r) i;
     p \<leftarrow> idx_get (fd_pos r) i;
     ti \<leftarrow> idx_get t i;
     buf \<leftarrow> idx_set (fd_buf r) (s + p) (fl_add F xd (fl_sub F ti h));
     d \<leftarrow> idx_get (fd_delay r) i;
     pos \<leftarrow> idx_set (fd_pos r) i (wrap_at d p);
     Some (r\<lparr>fd_buf := buf, fd_pos := pos\<rparr>)
   }"

definition fdn_tick :: "'f fmath \<Rightarrow> 'f fdn \<Rightarrow> 'f \<Rightarrow> (('f \<times> 'f) \<times> 'f fdn) option" where
  "fdn_tick M r x = (let F = fm M in do {
     (xd, r) \<leftarrow> for_in (diffuse M) [0..<NDIFF] (x, r);
     (s, r) \<leftarrow> for_in (read_line M) [0..<LINES] (replicate LINES (fl_nat F 0), r);
     wet_l \<leftarrow> hadamard F [True, True, True, False, False, False, False] s;
     wet_r \<leftarrow> hadamard F [False, True, False, False, True, False, True] s;
     (t, r) \<leftarrow> for_in (damp_line F s) [0..<LINES] (replicate LINES (fl_nat F 0), r);
     let h = mix_level F t;
     r \<leftarrow> for_in (inject F xd t h) [0..<LINES] r;
     Some ((fl_add F (fl_mul F (fd_dry r) x) (fl_mul F (fd_wet r) wet_l),
       fl_add F (fl_mul F (fd_dry r) x) (fl_mul F (fd_wet r) wet_r)), r)
   })"

fun fdn_process :: "'f fmath \<Rightarrow> 'f fdn \<Rightarrow> 'f list \<Rightarrow> 'f list \<Rightarrow> 'f list \<Rightarrow> (('f list \<times> 'f list) \<times> 'f fdn) option" where
  "fdn_process M r (x # xs) (_ # ol) (_ # orr) = do {
     ((a, b), r) \<leftarrow> fdn_tick M r x;
     ((ls, rs), r) \<leftarrow> fdn_process M r xs ol orr;
     Some ((a # ls, b # rs), r)
   }"
| "fdn_process M r _ ol orr = Some ((ol, orr), r)"

definition fdn_reset :: "'f flops \<Rightarrow> 'f fdn \<Rightarrow> 'f fdn option" where
  "fdn_reset F r =
     (if length (fd_buf r) < REQUIRED_BUF then None
      else Some (r\<lparr>fd_buf := replicate REQUIRED_BUF (fl_nat F 0) @ drop REQUIRED_BUF (fd_buf r), fd_pos := replicate LINES 0,
        fd_diff_pos := replicate NDIFF 0, fd_damp := map (op_reset F) (fd_damp r)\<rparr>))"

section \<open>The feedback matrix\<close>

text \<open>What line \<open>i\<close> is fed, but for the input: \<open>t[i]\<close> less a quarter of the sum of all.\<close>

lemma foldl_sum: "foldl (+) a t = a + sum_list t" for t :: "real list"
  by (induction t arbitrary: a) (simp_all add: add.assoc)

lemma householder_lossless:
  assumes "length t = LINES"
  shows "(\<Sum>v\<leftarrow>map (\<lambda>ti. ti - mix_level exact t) t. v\<^sup>2) = (\<Sum>v\<leftarrow>t. v\<^sup>2)"
proof -
  define h where "h = mix_level exact t"
  have h: "4 * h = sum_list t" by (simp add: h_def mix_level_def foldl_sum LINES_def)
  have "(\<Sum>v\<leftarrow>map (\<lambda>ti. ti - h) t. v\<^sup>2) = (\<Sum>v\<leftarrow>t. v\<^sup>2) - 2 * h * sum_list t + real (length t) * h\<^sup>2"
    by (induction t) (simp_all add: power2_diff algebra_simps)
  also have "\<dots> = (\<Sum>v\<leftarrow>t. v\<^sup>2)" unfolding h [symmetric] assms LINES_def by (simp add: power2_eq_square)
  finally show ?thesis by (simp add: h_def)
qed

section \<open>No access leaves its line\<close>

text \<open>The oscillator that moves the read positions keeps a quadratic form, and so stays bounded.\<close>

lemma oscillator_invariant:
  fixes x y e :: real
  shows "(x + e * y)\<^sup>2 + e * (x + e * y) * (y - e * (x + e * y)) + (y - e * (x + e * y))\<^sup>2 = x\<^sup>2 + e * x * y + y\<^sup>2"
  by (simp add: power2_eq_square algebra_simps)

lemma oscillator_bound:
  fixes x y e :: real
  assumes "\<bar>e\<bar> \<le> 1" "x\<^sup>2 + e * x * y + y\<^sup>2 \<le> 3 / 2"
  shows "\<bar>x\<bar> \<le> 3 / 2"
proof -
  have "0 \<le> (y + e * x / 2)\<^sup>2" by simp
  then have "(1 - e\<^sup>2 / 4) * x\<^sup>2 \<le> x\<^sup>2 + e * x * y + y\<^sup>2" by (simp add: power2_eq_square algebra_simps)
  moreover have "e\<^sup>2 \<le> 1" using assms(1) abs_square_le_1 by blast
  then have "3 / 4 * x\<^sup>2 \<le> (1 - e\<^sup>2 / 4) * x\<^sup>2" by (intro mult_right_mono) simp_all
  ultimately have "x\<^sup>2 \<le> 2" using assms(2) by simp
  also have "(2 :: real) \<le> (3 / 2)\<^sup>2" by (simp add: power2_eq_square)
  finally have "\<bar>x\<bar> \<le> \<bar>3 / 2\<bar>" by (rule abs_le_square_iff [THEN iffD2])
  then show ?thesis by simp
qed

lemma read_position_range:
  assumes x: "\<bar>x\<bar> \<le> 3 / 2" and p: "p < d" and d: "8 \<le> d"
  shows "nat \<lfloor>read_position exact_math 5 x d p\<rfloor> < d"
proof -
  define rp where "rp = real p + 5 / 2 * (x + 1)"
  have rp: "rp \<le> real p + 25 / 4" using x by (simp add: rp_def abs_le_iff)
  have pos: "read_position exact_math 5 x d p = (if real d \<le> rp then rp - real d else rp)"
    by (simp add: read_position_def rp_def Let_def)
  show ?thesis
  proof (cases "real d \<le> rp")
    case True
    have "real p < real d" "8 \<le> real d" using p d by simp_all
    then have "rp - real d < real d" using rp by linarith
    then have "\<lfloor>rp - real d\<rfloor> < int d" by linarith
    then show ?thesis using True d unfolding pos by simp
  next
    case False
    then have "\<lfloor>rp\<rfloor> < int d" by linarith
    then show ?thesis using False d unfolding pos by simp
  qed
qed

lemma starts_delays: "starts 0 DELAYS = [0, 1009, 2112, 3313, 4614, 6013, 7512, 9113]" "array_sum DELAYS = 10812"
  "starts 10812 DIFF_DELAYS = [10812, 10961, 11172, 11465]" "REQUIRED_BUF = 11844"
  by (simp_all add: DELAYS_def DIFF_DELAYS_def REQUIRED_BUF_def array_sum_def)

definition fdn_ok :: "real fdn \<Rightarrow> bool" where
  "fdn_ok r \<longleftrightarrow> REQUIRED_BUF \<le> length (fd_buf r) \<and> fd_start r = starts 0 DELAYS \<and> fd_delay r = DELAYS \<and>
     length (fd_pos r) = 8 \<and> (\<forall>i<8. fd_pos r ! i < DELAYS ! i) \<and> length (fd_damp r) = 8 \<and> length (fd_fb r) = 8 \<and>
     fd_diff_start r = starts (array_sum DELAYS) DIFF_DELAYS \<and> fd_diff_delay r = DIFF_DELAYS \<and>
     length (fd_diff_pos r) = 4 \<and> (\<forall>k<4. fd_diff_pos r ! k < DIFF_DELAYS ! k) \<and>
     length (fd_mod_x r) = 8 \<and> length (fd_mod_y r) = 8 \<and> length (fd_mod_eps r) = 8 \<and> fd_mod_depth r = 5 \<and>
     (\<forall>i<8. \<bar>fd_mod_eps r ! i\<bar> \<le> 1 \<and>
        (fd_mod_x r ! i)\<^sup>2 + fd_mod_eps r ! i * fd_mod_x r ! i * fd_mod_y r ! i + (fd_mod_y r ! i)\<^sup>2 \<le> 3 / 2)"

lemma all_lines: "(\<forall>i<8. P i) \<longleftrightarrow> P 0 \<and> P 1 \<and> P 2 \<and> P 3 \<and> P 4 \<and> P 5 \<and> P 6 \<and> P 7" for P :: "nat \<Rightarrow> bool"
  by (simp add: eval_nat_numeral All_less_Suc conj_ac)

lemma all_diffusers: "(\<forall>i<4. P i) \<longleftrightarrow> P 0 \<and> P 1 \<and> P 2 \<and> P 3" for P :: "nat \<Rightarrow> bool"
  by (simp add: eval_nat_numeral All_less_Suc conj_ac)

text \<open>Where each line and each diffuser lies in the buffer.\<close>

lemma line_room: "i < 8 \<Longrightarrow> i < length DELAYS \<and> i < length (starts 0 DELAYS) \<and> 8 \<le> DELAYS ! i \<and> starts 0 DELAYS ! i + DELAYS ! i \<le> REQUIRED_BUF"
proof -
  have "\<forall>i<8. i < length DELAYS \<and> i < length (starts 0 DELAYS) \<and> 8 \<le> DELAYS ! i \<and> starts 0 DELAYS ! i + DELAYS ! i \<le> REQUIRED_BUF"
    unfolding all_lines starts_delays by (simp add: DELAYS_def)
  then show "i < 8 \<Longrightarrow> ?thesis" by blast
qed

lemma diffuser_room: "k < 4 \<Longrightarrow> k < length DIFF_DELAYS \<and> k < length (starts (array_sum DELAYS) DIFF_DELAYS) \<and> 1 < DIFF_DELAYS ! k \<and>
    starts (array_sum DELAYS) DIFF_DELAYS ! k + DIFF_DELAYS ! k \<le> REQUIRED_BUF"
proof -
  have "\<forall>k<4. k < length DIFF_DELAYS \<and> k < length (starts (array_sum DELAYS) DIFF_DELAYS) \<and> 1 < DIFF_DELAYS ! k \<and>
      starts (array_sum DELAYS) DIFF_DELAYS ! k + DIFF_DELAYS ! k \<le> REQUIRED_BUF"
    unfolding all_diffusers starts_delays by (simp add: DIFF_DELAYS_def)
  then show "k < 4 \<Longrightarrow> ?thesis" by blast
qed

lemma wrap_at_less: "p < d \<Longrightarrow> wrap_at d p < d"
  by (auto simp: wrap_at_def)

lemma diffuse_ok:
  assumes k: "k < 4" and r: "fdn_ok r"
  shows "\<exists>y r'. diffuse exact_math k (xd, r) = Some (y, r') \<and> fdn_ok r'"
proof -
  note ok = r [unfolded fdn_ok_def]
  have p: "fd_diff_pos r ! k < DIFF_DELAYS ! k" using ok k by blast
  note room = diffuser_room [OF k]
  have idx: "starts (array_sum DELAYS) DIFF_DELAYS ! k + fd_diff_pos r ! k < length (fd_buf r)" using ok p room by linarith
  have w: "wrap_at (DIFF_DELAYS ! k) (fd_diff_pos r ! k) < DIFF_DELAYS ! k" by (rule wrap_at_less [OF p])
  show ?thesis using ok room k idx w by (auto simp: diffuse_def Let_def fdn_ok_def nth_list_update)
qed

lemma read_line_ok:
  assumes i: "i < 8" and r: "fdn_ok r" and s: "length s = 8"
  shows "\<exists>s' r'. read_line exact_math i (s, r) = Some (s', r') \<and> length s' = 8 \<and> fdn_ok r'"
proof -
  note ok = r [unfolded fdn_ok_def]
  define x y e where "x = fd_mod_x r ! i" and "y = fd_mod_y r ! i" and "e = fd_mod_eps r ! i"
  define x' where "x' = x + e * y"
  define y' where "y' = y - e * x'"
  have e: "\<bar>e\<bar> \<le> 1" and q: "x\<^sup>2 + e * x * y + y\<^sup>2 \<le> 3 / 2" and p: "fd_pos r ! i < DELAYS ! i"
    using ok i unfolding x_def y_def e_def by blast+
  have q': "x'\<^sup>2 + e * x' * y' + y'\<^sup>2 \<le> 3 / 2" using q unfolding y'_def x'_def oscillator_invariant .
  note room = line_room [OF i]
  define i0 where "i0 = usize_of (read_position exact_math 5 x' (DELAYS ! i) (fd_pos r ! i))"
  have i0: "i0 < DELAYS ! i"
    unfolding i0_def by (rule le_less_trans [OF usize_of_le read_position_range], rule oscillator_bound [OF e q'], rule p) (use room in simp)
  define i1 where "i1 = (if DELAYS ! i \<le> i0 + 1 then 0 else i0 + 1)"
  have i1: "i1 < DELAYS ! i" using room by (auto simp: i1_def)
  have idx: "starts 0 DELAYS ! i + i0 < length (fd_buf r)" "starts 0 DELAYS ! i + i1 < length (fd_buf r)" using ok i0 i1 room by linarith+
  have pick: "(if DELAYS ! i \<le> Suc i0 then 0 else Suc i0) = i1" by (simp add: i1_def)
  have "\<exists>v. read_line exact_math i (s, r) = Some (s[i := v], r\<lparr>fd_mod_x := (fd_mod_x r)[i := x'], fd_mod_y := (fd_mod_y r)[i := y']\<rparr>)"
    using ok room i s idx
    by (simp add: read_line_def Let_def x_def [symmetric] y_def [symmetric] e_def [symmetric] x'_def [symmetric] y'_def [symmetric]
        i0_def [symmetric] pick) (intro conjI impI; rule exI, rule refl)
  moreover have "fdn_ok (r\<lparr>fd_mod_x := (fd_mod_x r)[i := x'], fd_mod_y := (fd_mod_y r)[i := y']\<rparr>)"
    using ok i q' e by (auto simp: fdn_ok_def nth_list_update e_def)
  ultimately show ?thesis using s by auto
qed

lemma damp_line_ok:
  assumes i: "i < 8" and r: "fdn_ok r" and len: "length s = 8" "length t = 8"
  shows "\<exists>t' r'. damp_line exact s i (t, r) = Some (t', r') \<and> length t' = 8 \<and> fdn_ok r'"
  using r i len by (simp add: damp_line_def fdn_ok_def split_def Let_def)

lemma inject_ok:
  assumes i: "i < 8" and r: "fdn_ok r" and len: "length t = 8"
  shows "\<exists>r'. inject exact xd t h i r = Some r' \<and> fdn_ok r'"
proof -
  note ok = r [unfolded fdn_ok_def]
  have p: "fd_pos r ! i < DELAYS ! i" using ok i by blast
  note room = line_room [OF i]
  have idx: "starts 0 DELAYS ! i + fd_pos r ! i < length (fd_buf r)" using ok p room by linarith
  have w: "wrap_at (DELAYS ! i) (fd_pos r ! i) < DELAYS ! i" by (rule wrap_at_less [OF p])
  show ?thesis using ok room i len idx w by (auto simp: inject_def fdn_ok_def nth_list_update)
qed

lemma fdn_tick_ok:
  assumes r: "fdn_ok r"
  shows "\<exists>y r'. fdn_tick exact_math r x = Some (y, r') \<and> fdn_ok r'"
proof -
  have "\<exists>s. for_in (diffuse exact_math) [0..<NDIFF] (x, r) = Some s \<and> fdn_ok (snd s)"
  proof (rule for_in_upt [where I = "\<lambda>_ s. fdn_ok (snd s)"])
    fix i and s :: "real \<times> real fdn"
    assume "i < NDIFF" "fdn_ok (snd s)"
    then show "\<exists>s'. diffuse exact_math i s = Some s' \<and> fdn_ok (snd s')"
      using diffuse_ok [of i "snd s" "fst s"] by (auto simp: NDIFF_def)
  qed (use r in \<open>simp_all add: NDIFF_def\<close>)
  then obtain xd r1 where r1: "for_in (diffuse exact_math) [0..<NDIFF] (x, r) = Some (xd, r1)" "fdn_ok r1" by auto
  have "\<exists>s. for_in (read_line exact_math) [0..<LINES] (replicate LINES 0, r1) = Some s \<and> length (fst s) = 8 \<and> fdn_ok (snd s)"
  proof (rule for_in_upt [where I = "\<lambda>_ s. length (fst s) = 8 \<and> fdn_ok (snd s)"])
    fix i and s :: "real list \<times> real fdn"
    assume "i < LINES" "length (fst s) = 8 \<and> fdn_ok (snd s)"
    then show "\<exists>s'. read_line exact_math i s = Some s' \<and> length (fst s') = 8 \<and> fdn_ok (snd s')"
      using read_line_ok [of i "snd s" "fst s"] by (auto simp: LINES_def)
  qed (use r1 in \<open>simp_all add: LINES_def\<close>)
  then obtain s r2 where r2: "for_in (read_line exact_math) [0..<LINES] (replicate LINES 0, r1) = Some (s, r2)" "length s = 8" "fdn_ok r2"
    by auto
  obtain s0 ss where s: "s = s0 # ss" using r2(2) by (cases s) simp_all
  have "\<exists>t. for_in (damp_line exact s) [0..<LINES] (replicate LINES 0, r2) = Some t \<and> length (fst t) = 8 \<and> fdn_ok (snd t)"
  proof (rule for_in_upt [where I = "\<lambda>_ s. length (fst s) = 8 \<and> fdn_ok (snd s)"])
    fix i and t :: "real list \<times> real fdn"
    assume "i < LINES" "length (fst t) = 8 \<and> fdn_ok (snd t)"
    then show "\<exists>t'. damp_line exact s i t = Some t' \<and> length (fst t') = 8 \<and> fdn_ok (snd t')"
      using damp_line_ok [of i "snd t" s "fst t"] r2(2) by (auto simp: LINES_def)
  qed (use r2 in \<open>simp_all add: LINES_def\<close>)
  then obtain t r3 where r3: "for_in (damp_line exact s) [0..<LINES] (replicate LINES 0, r2) = Some (t, r3)" "length t = 8" "fdn_ok r3"
    by auto
  have "\<exists>r'. for_in (inject exact xd t (mix_level exact t)) [0..<LINES] r3 = Some r' \<and> fdn_ok r'"
    by (rule for_in_upt [where I = "\<lambda>_. fdn_ok"]) (use r3 in \<open>auto simp: LINES_def intro: inject_ok\<close>)
  then obtain r4 where "for_in (inject exact xd t (mix_level exact t)) [0..<LINES] r3 = Some r4" "fdn_ok r4" by (elim exE conjE)
  then show ?thesis using r1(1) r2(1) r3(1) by (simp add: fdn_tick_def Let_def hadamard_def s)
qed

lemma fdn_process_ok:
  "fdn_ok r \<Longrightarrow> length ol = length xs \<Longrightarrow> length orr = length xs \<Longrightarrow>
    \<exists>ls rs r'. fdn_process exact_math r xs ol orr = Some ((ls, rs), r') \<and> length ls = length xs \<and> length rs = length xs \<and> fdn_ok r'"
proof (induction xs arbitrary: r ol orr)
  case (Cons x xs)
  obtain o1 ol' o2 orr' where o: "ol = o1 # ol'" "orr = o2 # orr'" "length ol' = length xs" "length orr' = length xs"
    using Cons.prems(2,3) by (metis length_Suc_conv length_Cons)
  obtain a b r1 where "fdn_tick exact_math r x = Some ((a, b), r1)" "fdn_ok r1" using fdn_tick_ok [OF Cons.prems(1)] by fast
  moreover from Cons.IH [OF this(2) o(3,4)] obtain ls rs r' where
    "fdn_process exact_math r1 xs ol' orr' = Some ((ls, rs), r')" "length ls = length xs" "length rs = length xs" "fdn_ok r'" by blast
  ultimately show ?case by (simp add: o(1,2))
qed simp

text \<open>Blocks compose: the size of the blocks does not matter.\<close>

lemma fdn_process_append:
  "length ol = length xs \<Longrightarrow> length orr = length xs \<Longrightarrow>
    fdn_process M r xs ol orr = Some ((ls, rs), r1) \<Longrightarrow> fdn_process M r1 ys ol' orr' = Some ((ls', rs'), r2) \<Longrightarrow>
    fdn_process M r (xs @ ys) (ol @ ol') (orr @ orr') = Some ((ls @ ls', rs @ rs'), r2)"
proof (induction xs arbitrary: r ol orr ls rs)
  case (Cons x xs)
  obtain o1 ol1 o2 orr1 where o: "ol = o1 # ol1" "orr = o2 # orr1" "length ol1 = length xs" "length orr1 = length xs"
    using Cons.prems(1,2) by (metis length_Suc_conv length_Cons)
  then show ?case using Cons.prems(3,4) Cons.IH [OF o(3,4)] by (auto split: option.splits prod.splits bind_splits)
qed simp

lemma fdn_new_ok:
  assumes len: "REQUIRED_BUF \<le> length buf" and sr: "10 \<le> sr"
  shows "\<exists>r. fdn_new exact_math buf sr rt60 damping mix = Some r \<and> fdn_ok r"
proof -
  let ?rate = "\<lambda>i. 6 / 10 + 14 / 100 * real i" and ?ph = "\<lambda>i. real i * (79 / 100)"
  have eps: "\<bar>2 * sin (pi * ?rate i / sr)\<bar> \<le> 1" if i: "i < 8" for i
  proof -
    have "?rate i \<le> 16 / 10" using i by simp
    then have "?rate i / sr \<le> 16 / 100" using sr by (simp add: divide_le_eq)
    then have "?rate i / sr \<le> 1 / 6" by linarith
    from mult_left_mono [OF this, of pi] have "pi * ?rate i / sr \<le> pi / 6" by (simp only: times_divide_eq_right mult_1_right) simp
    moreover have "0 \<le> pi * ?rate i / sr" using sr by simp
    moreover define w where "w = pi * ?rate i / sr"
    ultimately have w: "0 \<le> w" "w \<le> pi / 6" by simp_all
    have "sin w \<le> sin (pi / 6)" using w pi_gt_zero by (intro sin_monotone_2pi_le) linarith+
    moreover have "0 \<le> sin w" using w pi_gt_zero by (intro sin_ge_zero) linarith+
    ultimately have "0 \<le> sin w" "sin w \<le> 1 / 2" by (simp_all add: sin_30)
    then show ?thesis unfolding w_def by simp
  qed
  have q: "(cos p)\<^sup>2 + e * cos p * sin p + (sin p)\<^sup>2 \<le> 3 / 2" if "\<bar>e\<bar> \<le> 1" for e p :: real
  proof -
    have "\<bar>e * (cos p * sin p)\<bar> \<le> \<bar>cos p * sin p\<bar>" unfolding abs_mult using that by (intro mult_left_le_one_le) simp_all
    moreover have "0 \<le> (cos p - sin p)\<^sup>2" "0 \<le> (cos p + sin p)\<^sup>2" by simp_all
    then have "\<bar>cos p * sin p\<bar> \<le> 1 / 2" by (simp add: power2_sum power2_diff abs_le_iff)
    ultimately have "e * (cos p * sin p) \<le> 1 / 2" by linarith
    then show ?thesis using sin_cos_squared_add [of p] unfolding mult.assoc by linarith
  qed
  have qi: "(cos (?ph i))\<^sup>2 + 2 * sin (pi * ?rate i / sr) * cos (?ph i) * sin (?ph i) + (sin (?ph i))\<^sup>2 \<le> 3 / 2" if "i < 8" for i
    by (rule q [OF eps [OF that]])
  have "\<forall>i<8. (0::nat) < DELAYS ! i" "\<forall>k<4. (0::nat) < DIFF_DELAYS ! k"
    unfolding all_lines all_diffusers by (simp_all add: DELAYS_def DIFF_DELAYS_def)
  moreover have "length DELAYS = 8" by (simp add: DELAYS_def)
  ultimately show ?thesis
    using len eps qi by (auto simp: fdn_new_def Let_def fdn_ok_def LINES_def NDIFF_def algebra_simps)
qed

end
