(* ===== verification/Render.thy ===== *)
theory Render
  imports Spatializer Reverb
begin

text \<open>
  The whole render of \<open>crates/daisy-spatializer/src/main.rs\<close>: two voices (\<open>Spatializer\<close>) and one shared room, the
  air absorption, the early reflections (\<open>Room\<close>) and the late reverberation (\<open>Reverb\<close>), in each codec
  callback. The measured impulse responses of \<open>hrir_data.rs\<close> are parameters.
\<close>

section \<open>The callback\<close>

definition SR :: "'f flops \<Rightarrow> 'f" where "SR F = fl_nat F 48000"
definition NTAPS :: nat where "NTAPS = 8"
definition EARLY_BUF_LEN :: nat where "EARLY_BUF_LEN = 2048"
definition ER_FIRST_MS :: "'f flops \<Rightarrow> 'f" where "ER_FIRST_MS F = fl_nat F 8"
definition ER_SPREAD_MS :: "'f flops \<Rightarrow> 'f" where "ER_SPREAD_MS F = fl_nat F 40"
definition REVERB_RT60_S :: "'f flops \<Rightarrow> 'f" where "REVERB_RT60_S F = fl_half F"
definition REVERB_DAMPING_HZ :: "'f flops \<Rightarrow> 'f" where "REVERB_DAMPING_HZ F = fl_nat F 6000"
definition AIR_CUTOFF_HZ :: "'f flops \<Rightarrow> 'f" where "AIR_CUTOFF_HZ F = fl_nat F 7000"
definition DRY :: "'f flops \<Rightarrow> 'f" where "DRY F = fl_div F (fl_nat F 7) (fl_nat F 10)"
definition WET_EARLY :: "'f flops \<Rightarrow> 'f" where "WET_EARLY F = fl_half F"
definition WET_LATE :: "'f flops \<Rightarrow> 'f" where "WET_LATE F = fl_div F (fl_nat F 35) (fl_nat F 100)"

record 'f dsp =
  voice1 :: "'f voice"
  voice2 :: "'f voice"
  early :: "'f early_reflections"
  reverb :: "'f fdn"
  air_lp :: "'f one_pole"

text \<open>The interleaved block of the codec, one mono source per channel; its length is that of the array type.\<close>

definition deinterleave :: "'f list \<Rightarrow> ('f list \<times> 'f list) option" where
  "deinterleave inp =
     (if length inp = 2 * FRAMES then Some (map (\<lambda>f. inp ! (2 * f)) [0..<FRAMES], map (\<lambda>f. inp ! (2 * f + 1)) [0..<FRAMES])
      else None)"

definition mix_ear :: "'f flops \<Rightarrow> 'f list \<Rightarrow> 'f list \<Rightarrow> 'f list \<Rightarrow> 'f list \<Rightarrow> nat \<Rightarrow> 'f" where
  "mix_ear F d1 d2 e r f =
     fl_add F (fl_add F (fl_mul F (DRY F) (fl_add F (d1 ! f) (d2 ! f))) (fl_mul F (WET_EARLY F) (e ! f))) (fl_mul F (WET_LATE F) (r ! f))"

definition spatialize :: "'f fmath \<Rightarrow> 'f dsp option \<Rightarrow> 'f list \<Rightarrow> 'f list \<Rightarrow> ('f list \<times> 'f dsp option) option" where
  "spatialize M state inp outp = (let F = fm M in case state of
     None \<Rightarrow> Some (map (\<lambda>_. fl_nat F 0) outp, None)
   | Some d \<Rightarrow> do {
       (m1, m2) \<leftarrow> deinterleave inp;
       let silence = replicate FRAMES (fl_nat F 0);
       ((_, d1l, d1r), v1) \<leftarrow> voice_process F (voice1 d) m1 silence silence;
       ((_, d2l, d2r), v2) \<leftarrow> voice_process F (voice2 d) m2 silence silence;
       let room_in = map (\<lambda>f. fl_mul F (fl_half F) (fl_add F (m1 ! f) (m2 ! f))) [0..<FRAMES];
       let (send, lp) = op_process F (air_lp d) room_in silence;
       ((el, er), ea) \<leftarrow> er_process M (early d) send silence silence;
       ((rl, rr), rv) \<leftarrow> fdn_process M (reverb d) send silence silence;
       Some (concat (map (\<lambda>f. [mix_ear F d1l d2l el rl f, mix_ear F d1r d2r er rr f]) [0..<FRAMES]),
         Some \<lparr>voice1 = v1, voice2 = v2, early = ea, reverb = rv, air_lp = lp\<rparr>)
     })"

text \<open>\<open>init_dsp\<close> over the zeroed statics; \<open>SCRATCH\<close> follows from the length of the first response.\<close>

definition init_dsp :: "'f fmath \<Rightarrow> 'f list \<Rightarrow> 'f list \<Rightarrow> 'f list \<Rightarrow> 'f list \<Rightarrow> 'f dsp option" where
  "init_dsp M left_l left_r right_l right_r = (let F = fm M; zero = fl_nat F 0 in do {
     scratch \<leftarrow> stereo_scratch (length left_l) B;
     v1 \<leftarrow> voice_new F left_l left_r (replicate scratch zero);
     v2 \<leftarrow> voice_new F right_l right_r (replicate scratch zero);
     let taps = room_taps M (replicate NTAPS \<lparr>t_delay = zero, t_gain_l = zero, t_gain_r = zero\<rparr>) (SR F) (ER_FIRST_MS F) (ER_SPREAD_MS F);
     let ea = er_new F (replicate EARLY_BUF_LEN zero) taps;
     rv \<leftarrow> fdn_new M (replicate REQUIRED_BUF zero) (SR F) (REVERB_RT60_S F) (REVERB_DAMPING_HZ F) (fl_nat F 1);
     Some \<lparr>voice1 = v1, voice2 = v2, early = ea, reverb = rv, air_lp = lowpass M (SR F) (AIR_CUTOFF_HZ F)\<rparr>
   })"

text \<open>The callbacks of a run, each with its input and output buffer.\<close>

fun render_run :: "'f fmath \<Rightarrow> 'f dsp option \<Rightarrow> ('f list \<times> 'f list) list \<Rightarrow> ('f list list \<times> 'f dsp option) option" where
  "render_run M d [] = Some ([], d)"
| "render_run M d ((inp, outp) # bs) = do {
     (o1, d) \<leftarrow> spatialize M d inp outp;
     (os, d) \<leftarrow> render_run M d bs;
     Some (o1 # os, d)
   }"

section \<open>The air absorption\<close>

definition air :: "real \<Rightarrow> (nat \<Rightarrow> real) \<Rightarrow> nat \<Rightarrow> real" where
  "air a x n = (\<Sum>k\<le>n. (1 - a) * a ^ (n - k) * x k)"

lemma air_Suc: "air a x (Suc n) = (1 - a) * x (Suc n) + a * air a x n"
proof -
  have "(\<Sum>k\<le>n. (1 - a) * a ^ (Suc n - k) * x k) = a * (\<Sum>k\<le>n. (1 - a) * a ^ (n - k) * x k)"
    unfolding sum_distrib_left by (rule sum.cong) (simp_all add: Suc_diff_le)
  then show ?thesis by (simp add: air_def)
qed

definition op_inv :: "real \<Rightarrow> (nat \<Rightarrow> real) \<Rightarrow> nat \<Rightarrow> real one_pole \<Rightarrow> bool" where
  "op_inv a x n p \<longleftrightarrow> op_a p = a \<and> op_b p = 1 - a \<and> \<not> op_high p \<and> op_z p = (if n = 0 then 0 else air a x (n - 1))"

lemma op_tick_ok: "op_inv a x n p \<Longrightarrow> \<exists>p'. op_tick exact p (x n) = (air a x n, p') \<and> op_inv a x (Suc n) p'"
  by (cases n) (simp_all add: op_inv_def op_tick_def Let_def air_Suc, simp add: air_def)

lemma op_process_ok:
  "op_inv a x n p \<Longrightarrow> length outp = c \<Longrightarrow>
    \<exists>p'. op_process exact p (map x [n..<n + c]) outp = (map (air a x) [n..<n + c], p') \<and> op_inv a x (n + c) p'"
proof (induction c arbitrary: n p outp)
  case (Suc c)
  obtain o1 outp' where o: "outp = o1 # outp'" "length outp' = c" using Suc.prems(2) by (metis length_Suc_conv)
  have u: "[n..<n + Suc c] = n # [Suc n..<Suc n + c]" by (simp add: upt_conv_Cons)
  obtain p1 where p1: "op_tick exact p (x n) = (air a x n, p1)" "op_inv a x (Suc n) p1" using op_tick_ok [OF Suc.prems(1)] by blast
  from Suc.IH [OF p1(2) o(2)] show ?case unfolding u o(1) using p1(1) by auto
qed simp


section \<open>One callback\<close>

definition source1 :: "(nat \<Rightarrow> real) \<Rightarrow> nat \<Rightarrow> real" where
  "source1 w i = w (2 * i)"

definition source2 :: "(nat \<Rightarrow> real) \<Rightarrow> nat \<Rightarrow> real" where
  "source2 w i = w (2 * i + 1)"

definition mono_mix :: "(nat \<Rightarrow> real) \<Rightarrow> nat \<Rightarrow> real" where
  "mono_mix w i = (source1 w i + source2 w i) / 2"

definition absorption :: real where
  "absorption = exp (- 2 * pi * 7000 / 48000)"

definition send :: "(nat \<Rightarrow> real) \<Rightarrow> nat \<Rightarrow> real" where
  "send w = air absorption (mono_mix w)"

definition direct :: "real list \<Rightarrow> (nat \<Rightarrow> real) \<Rightarrow> nat \<Rightarrow> real" where
  "direct h x i = (if i < FRAMES then 0 else fir h x (i - FRAMES))"

text \<open>Frame \<open>i\<close> of the output: the sources in their directions, the reflections, the late reverberation.\<close>

definition ear :: "real list \<Rightarrow> real list \<Rightarrow> (real er_tap \<Rightarrow> real) \<Rightarrow> real er_tap list \<Rightarrow> (nat \<Rightarrow> real) \<Rightarrow> nat \<Rightarrow> real \<Rightarrow> real" where
  "ear h1 h2 gain taps w i late = 7 / 10 * (direct h1 (source1 w) i + direct h2 (source2 w) i) +
     1 / 2 * reflections gain taps (send w) i + 35 / 100 * late"

definition dsp_inv :: "real list \<Rightarrow> real list \<Rightarrow> real list \<Rightarrow> real list \<Rightarrow> real er_tap list \<Rightarrow> (nat \<Rightarrow> real) \<Rightarrow> nat \<Rightarrow> real dsp \<Rightarrow> bool" where
  "dsp_inv ll lr rl rr taps w k d \<longleftrightarrow>
     voice_inv ll lr (source1 w) (FRAMES * k) (FRAMES * k div B) (FRAMES * (k - 1)) (voice1 d) \<and>
     voice_inv rl rr (source2 w) (FRAMES * k) (FRAMES * k div B) (FRAMES * (k - 1)) (voice2 d) \<and>
     op_inv absorption (mono_mix w) (FRAMES * k) (air_lp d) \<and>
     er_inv (send w) EARLY_BUF_LEN taps (FRAMES * k) (early d) \<and> fdn_ok (reverb d)"

lemma delayed_direct: "delayed h x k = map (\<lambda>f. direct h x (FRAMES * k + f)) [0..<FRAMES]"
  by (cases k) (simp_all add: direct_def)

lemma deinterleave_ok:
  "deinterleave (map (\<lambda>j. w (2 * FRAMES * k + j)) [0..<2 * FRAMES]) =
    Some (map (\<lambda>r. source1 w (FRAMES * k + r)) [0..<FRAMES], map (\<lambda>r. source2 w (FRAMES * k + r)) [0..<FRAMES])"
  by (auto simp: deinterleave_def source1_def source2_def algebra_simps)

lemma spatialize_ok:
  assumes d: "dsp_inv ll lr rl rr taps w k d"
  shows "\<exists>ls rs rv d'. fdn_process exact_math (reverb d) (map (send w) [FRAMES * k..<FRAMES * k + FRAMES]) (replicate FRAMES 0) (replicate FRAMES 0) =
      Some ((ls, rs), rv) \<and> length ls = FRAMES \<and> length rs = FRAMES \<and>
    spatialize exact_math (Some d) (map (\<lambda>j. w (2 * FRAMES * k + j)) [0..<2 * FRAMES]) outp =
      Some (concat (map (\<lambda>f. [ear ll rl t_gain_l taps w (FRAMES * k + f) (ls ! f), ear lr rr t_gain_r taps w (FRAMES * k + f) (rs ! f)])
        [0..<FRAMES]), Some d') \<and>
    dsp_inv ll lr rl rr taps w (Suc k) d' \<and> reverb d' = rv"
proof -
  let ?n = "FRAMES * k" and ?z = "replicate FRAMES (0 :: real)"
  note inv = d [unfolded dsp_inv_def]
  obtain v1 where v1: "voice_process exact (voice1 d) (map (\<lambda>r. source1 w (?n + r)) [0..<FRAMES]) ?z ?z =
      Some ((0 < k, delayed ll (source1 w) k, delayed lr (source1 w) k), v1)"
    "voice_inv ll lr (source1 w) (FRAMES * Suc k) (FRAMES * Suc k div B) (FRAMES * k) v1"
    using voice_block_ok [of ll lr "source1 w" k "voice1 d"] inv by blast
  obtain v2 where v2: "voice_process exact (voice2 d) (map (\<lambda>r. source2 w (?n + r)) [0..<FRAMES]) ?z ?z =
      Some ((0 < k, delayed rl (source2 w) k, delayed rr (source2 w) k), v2)"
    "voice_inv rl rr (source2 w) (FRAMES * Suc k) (FRAMES * Suc k div B) (FRAMES * k) v2"
    using voice_block_ok [of rl rr "source2 w" k "voice2 d"] inv by blast
  have room: "map (\<lambda>f. 1 / 2 * (map (\<lambda>r. source1 w (?n + r)) [0..<FRAMES] ! f + map (\<lambda>r. source2 w (?n + r)) [0..<FRAMES] ! f)) [0..<FRAMES] =
      map (mono_mix w) [?n..<?n + FRAMES]"
    by (rule nth_equalityI) (simp_all add: mono_mix_def)
  obtain lp where lp: "op_process exact (air_lp d) (map (mono_mix w) [?n..<?n + FRAMES]) ?z = (map (send w) [?n..<?n + FRAMES], lp)"
    "op_inv absorption (mono_mix w) (?n + FRAMES) lp"
    using op_process_ok [of absorption "mono_mix w" ?n "air_lp d" ?z FRAMES] inv by (auto simp: send_def)
  obtain ea where ea: "er_process exact_math (early d) (map (send w) [?n..<?n + FRAMES]) ?z ?z =
      Some ((map (reflections t_gain_l taps (send w)) [?n..<?n + FRAMES], map (reflections t_gain_r taps (send w)) [?n..<?n + FRAMES]), ea)"
    "er_inv (send w) EARLY_BUF_LEN taps (?n + FRAMES) ea"
    using er_process_ok [of "send w" EARLY_BUF_LEN taps ?n "early d" ?z FRAMES ?z] inv by auto
  obtain ls rs rv where rv: "fdn_process exact_math (reverb d) (map (send w) [?n..<?n + FRAMES]) ?z ?z = Some ((ls, rs), rv)"
    "length ls = FRAMES" "length rs = FRAMES" "fdn_ok rv"
    using fdn_process_ok [of "reverb d" ?z "map (send w) [?n..<?n + FRAMES]" ?z] inv by auto
  define d' where "d' = \<lparr>voice1 = v1, voice2 = v2, early = ea, reverb = rv, air_lp = lp\<rparr>"
  have mixed: "mix_ear exact (delayed h1 (source1 w) k) (delayed h2 (source2 w) k) (map (reflections g taps (send w)) [?n..<?n + FRAMES]) late f =
      ear h1 h2 g taps w (?n + f) (late ! f)" if "f < FRAMES" for h1 h2 g late f
    using that unfolding delayed_direct by (simp add: mix_ear_def ear_def DRY_def WET_EARLY_def WET_LATE_def)
  have "spatialize exact_math (Some d) (map (\<lambda>j. w (2 * FRAMES * k + j)) [0..<2 * FRAMES]) outp =
      Some (concat (map (\<lambda>f. [mix_ear exact (delayed ll (source1 w) k) (delayed rl (source2 w) k) (map (reflections t_gain_l taps (send w)) [?n..<?n + FRAMES]) ls f,
        mix_ear exact (delayed lr (source1 w) k) (delayed rr (source2 w) k) (map (reflections t_gain_r taps (send w)) [?n..<?n + FRAMES]) rs f]) [0..<FRAMES]), Some d')"
    unfolding spatialize_def deinterleave_ok Let_def by (simp add: v1 v2 lp ea rv d'_def room del: times_divide_eq_left)
  moreover have "map (\<lambda>f. [mix_ear exact (delayed ll (source1 w) k) (delayed rl (source2 w) k) (map (reflections t_gain_l taps (send w)) [?n..<?n + FRAMES]) ls f,
        mix_ear exact (delayed lr (source1 w) k) (delayed rr (source2 w) k) (map (reflections t_gain_r taps (send w)) [?n..<?n + FRAMES]) rs f]) [0..<FRAMES] =
      map (\<lambda>f. [ear ll rl t_gain_l taps w (?n + f) (ls ! f), ear lr rr t_gain_r taps w (?n + f) (rs ! f)]) [0..<FRAMES]"
    by (rule map_cong [OF refl]) (simp add: mixed)
  moreover have "dsp_inv ll lr rl rr taps w (Suc k) d'"
    using v1(2) v2(2) lp(2) ea(2) rv(4) by (simp add: dsp_inv_def d'_def add.commute)
  ultimately show ?thesis using rv by (intro exI conjI) (auto simp: d'_def)
qed


section \<open>A run\<close>

lemma render_run_ok:
  "dsp_inv ll lr rl rr taps w k d \<Longrightarrow>
    map fst bs = map (\<lambda>j. map (\<lambda>i. w (2 * FRAMES * j + i)) [0..<2 * FRAMES]) [k..<k + n] \<Longrightarrow>
    \<exists>ls rs rv os d'. fdn_process exact_math (reverb d) (map (send w) [FRAMES * k..<FRAMES * (k + n)])
        (replicate (FRAMES * n) 0) (replicate (FRAMES * n) 0) = Some ((ls, rs), rv) \<and>
      render_run exact_math (Some d) bs = Some (os, Some d') \<and>
      concat os = concat (map (\<lambda>i. [ear ll rl t_gain_l taps w i (ls ! (i - FRAMES * k)), ear lr rr t_gain_r taps w i (rs ! (i - FRAMES * k))])
        [FRAMES * k..<FRAMES * (k + n)])"
proof (induction n arbitrary: k d bs)
  case (Suc n)
  let ?n = "FRAMES * k" and ?m = "FRAMES * Suc k" and ?e = "FRAMES * (k + Suc n)"
  let ?out = "\<lambda>ls rs n i. [ear ll rl t_gain_l taps w i (ls ! (i - n)), ear lr rr t_gain_r taps w i (rs ! (i - n))]"
  have u: "[k..<k + Suc n] = k # [Suc k..<Suc k + n]" by (simp add: upt_conv_Cons)
  obtain inp outp bs' where bs: "bs = (inp, outp) # bs'" "inp = map (\<lambda>j. w (2 * FRAMES * k + j)) [0..<2 * FRAMES]"
    "map fst bs' = map (\<lambda>j. map (\<lambda>i. w (2 * FRAMES * j + i)) [0..<2 * FRAMES]) [Suc k..<Suc k + n]"
    using Suc.prems(2) unfolding u by (cases bs) auto
  obtain l1 r1 rv1 d1 where d1: "fdn_process exact_math (reverb d) (map (send w) [?n..<?n + FRAMES]) (replicate FRAMES 0) (replicate FRAMES 0) =
      Some ((l1, r1), rv1)" "length l1 = FRAMES" "length r1 = FRAMES"
    "spatialize exact_math (Some d) inp outp =
      Some (concat (map (\<lambda>f. [ear ll rl t_gain_l taps w (?n + f) (l1 ! f), ear lr rr t_gain_r taps w (?n + f) (r1 ! f)]) [0..<FRAMES]), Some d1)"
    "dsp_inv ll lr rl rr taps w (Suc k) d1" "reverb d1 = rv1"
    unfolding bs(2) using spatialize_ok [OF Suc.prems(1), of outp] by (elim exE conjE)
  obtain l2 r2 rv2 os d2 where d2: "fdn_process exact_math (reverb d1) (map (send w) [?m..<FRAMES * (Suc k + n)])
      (replicate (FRAMES * n) 0) (replicate (FRAMES * n) 0) = Some ((l2, r2), rv2)"
    "render_run exact_math (Some d1) bs' = Some (os, Some d2)"
    "concat os = concat (map (?out l2 r2 ?m) [?m..<FRAMES * (Suc k + n)])"
    using Suc.IH [OF d1(5) bs(3)] by (elim exE conjE)
  have e: "FRAMES * (Suc k + n) = ?e" "?n + FRAMES = ?m" "?m \<le> ?e" by simp_all
  have split: "[?n..<?e] = [?n..<?m] @ [?m..<?e]" using upt_add_eq_append [of ?n ?m "?e - ?m"] e(3) by simp
  have "fdn_process exact_math (reverb d) (map (send w) [?n..<?m] @ map (send w) [?m..<?e])
      (replicate FRAMES 0 @ replicate (FRAMES * n) 0) (replicate FRAMES 0 @ replicate (FRAMES * n) 0) = Some ((l1 @ l2, r1 @ r2), rv2)"
  proof (rule fdn_process_append)
    show "fdn_process exact_math (reverb d) (map (send w) [?n..<?m]) (replicate FRAMES 0) (replicate FRAMES 0) = Some ((l1, r1), rv1)"
      using d1(1) unfolding e(2) .
    show "fdn_process exact_math rv1 (map (send w) [?m..<?e]) (replicate (FRAMES * n) 0) (replicate (FRAMES * n) 0) = Some ((l2, r2), rv2)"
      using d2(1) unfolding d1(6) e(1) .
  qed simp_all
  then have late: "fdn_process exact_math (reverb d) (map (send w) [?n..<?e]) (replicate (FRAMES * Suc n) 0) (replicate (FRAMES * Suc n) 0) =
      Some ((l1 @ l2, r1 @ r2), rv2)" unfolding split by (simp add: replicate_add)
  have head: "map (?out (l1 @ l2) (r1 @ r2) ?n) [?n..<?m] =
      map (\<lambda>f. [ear ll rl t_gain_l taps w (?n + f) (l1 ! f), ear lr rr t_gain_r taps w (?n + f) (r1 ! f)]) [0..<FRAMES]"
    by (rule nth_equalityI) (use d1(2,3) in \<open>simp_all add: nth_append\<close>)
  have tail: "map (?out (l1 @ l2) (r1 @ r2) ?n) [?m..<?e] = map (?out l2 r2 ?m) [?m..<?e]"
    by (rule map_cong [OF refl]) (use d1(2,3) in \<open>auto simp: nth_append add.commute\<close>)
  have "concat (map (?out (l1 @ l2) (r1 @ r2) ?n) [?n..<?e]) =
      concat (map (\<lambda>f. [ear ll rl t_gain_l taps w (?n + f) (l1 ! f), ear lr rr t_gain_r taps w (?n + f) (r1 ! f)]) [0..<FRAMES]) @ concat os"
    unfolding split map_append head tail concat_append d2(3) e(1) ..
  moreover have "render_run exact_math (Some d) bs = Some
      (concat (map (\<lambda>f. [ear ll rl t_gain_l taps w (?n + f) (l1 ! f), ear lr rr t_gain_r taps w (?n + f) (r1 ! f)]) [0..<FRAMES]) # os, Some d2)"
    unfolding bs(1) using d1(4) d2(2) by simp
  ultimately show ?case using late by (intro exI conjI) (assumption, assumption, simp)
qed (auto intro!: exI)

text \<open>The pattern of the room: no reflection comes before 8 or after 40 milliseconds, so none precedes the direct
  sound and all fit their delay line.\<close>

definition the_taps :: "real er_tap list" where
  "the_taps = room_taps exact_math (replicate NTAPS \<lparr>t_delay = 0, t_gain_l = 0, t_gain_r = 0\<rparr>) 48000 8 40"

lemma the_taps_range: "t \<in> set the_taps \<Longrightarrow> 384 \<le> t_delay t \<and> t_delay t \<le> 1920"
proof -
  have "384 \<le> (8 + (40 - 8) * max 0 (min 1 z)) * (1 / 1000) * 48000 \<and> (8 + (40 - 8) * max 0 (min 1 z)) * (1 / 1000) * 48000 \<le> (1920 :: real)" for z
    by (simp add: max_def min_def)
  then show "t \<in> set the_taps \<Longrightarrow> ?thesis"
    by (auto simp: the_taps_def room_taps_def room_tap_def Let_def split: prod.splits)
qed

lemma the_taps_fit: "taps_fit EARLY_BUF_LEN the_taps"
  unfolding taps_fit_def list_all_iff EARLY_BUF_LEN_def by (auto dest: the_taps_range)

lemma init_dsp_ok:
  assumes len: "length lr = length ll" "length rl = length ll" "length rr = length ll" and ne: "ll \<noteq> []"
  shows "\<exists>d. init_dsp exact_math ll lr rl rr = Some d \<and> er_taps (early d) = the_taps \<and>
    fdn_new exact_math (replicate REQUIRED_BUF 0) 48000 (1 / 2) 6000 1 = Some (reverb d) \<and> dsp_inv ll lr rl rr the_taps w 0 d"
proof -
  obtain sc where sc: "stereo_scratch (length ll) B = Some sc" by (simp add: stereo_scratch_def B_def)
  have "0 < div_ceil (length ll) B" using ne by (cases ll) (simp_all add: div_ceil_def B_def div_greater_zero_iff)
  then have "max (div_ceil (length ll) B) 1 = div_ceil (length ll) B" by simp
  then have rq: "stereo_required_scratch (length ll) (length ll) B = Some sc"
    using sc by (simp add: stereo_scratch_def stereo_required_scratch_def conv_required_scratch_def B_def Let_def)
  obtain v1 where v1: "voice_new exact ll lr (replicate sc 0) = Some v1" "voice_inv ll lr (source1 w) 0 0 0 v1"
    using voice_new_ok [of ll lr "replicate sc 0" "source1 w"] rq len by auto
  obtain v2 where v2: "voice_new exact rl rr (replicate sc 0) = Some v2" "voice_inv rl rr (source2 w) 0 0 0 v2"
    using voice_new_ok [of rl rr "replicate sc 0" "source2 w"] rq len by auto
  obtain r where r: "fdn_new exact_math (replicate REQUIRED_BUF 0) 48000 (1 / 2) 6000 1 = Some r" "fdn_ok r"
    using fdn_new_ok [of "replicate REQUIRED_BUF 0" 48000 "1 / 2" 6000 1] by auto
  have air: "op_inv absorption (mono_mix w) 0 (lowpass exact_math 48000 7000)"
    by (simp add: op_inv_def lowpass_def absorption_def Let_def)
  have "er_inv (send w) EARLY_BUF_LEN the_taps 0 (er_new exact (replicate EARLY_BUF_LEN 0) the_taps)"
    using line_inv_new [of "replicate EARLY_BUF_LEN 0" "send w"] the_taps_fit by (simp add: er_inv_def er_new_def EARLY_BUF_LEN_def)
  then show ?thesis
    using sc v1 v2 r air by (simp add: init_dsp_def Let_def SR_def ER_FIRST_MS_def ER_SPREAD_MS_def REVERB_RT60_S_def REVERB_DAMPING_HZ_def
        AIR_CUTOFF_HZ_def dsp_inv_def the_taps_def [symmetric]) (simp add: er_new_def)
qed

text \<open>C11: The spatializer, in exact arithmetic, for any four impulse responses of one length, from its initialisation
  over any run of callbacks: it never panics, and frame \<open>i\<close> of each ear is 0.7 of the two sources convolved with
  that ear's responses, one callback late, plus 0.5 of the early reflections and 0.35 of the late reverberation of
  the mixed and low-passed sources. The blocks of the callbacks leave no trace: the reverberation is that of the
  whole stream in one call. No reflection comes sooner than 384 samples, so none precedes the direct sound.\<close>

theorem spatializer_renders:
  assumes "length left_r = length left_l" "length right_l = length left_l" "length right_r = length left_l" "left_l \<noteq> []"
    "\<forall>b\<in>set blocks. length (fst b) = 2 * FRAMES"
  shows "\<exists>d os d' late_l late_r r. init_dsp exact_math left_l left_r right_l right_r = Some d \<and>
    (\<forall>t\<in>set (er_taps (early d)). 384 \<le> t_delay t \<and> t_delay t \<le> 1920) \<and>
    render_run exact_math (Some d) blocks = Some (os, Some d') \<and>
    fdn_process exact_math (reverb d) (map (send ((!) (concat (map fst blocks)))) [0..<FRAMES * length blocks])
      (replicate (FRAMES * length blocks) 0) (replicate (FRAMES * length blocks) 0) = Some ((late_l, late_r), r) \<and>
    concat os = concat (map (\<lambda>i.
      [ear left_l right_l t_gain_l (er_taps (early d)) ((!) (concat (map fst blocks))) i (late_l ! i),
       ear left_r right_r t_gain_r (er_taps (early d)) ((!) (concat (map fst blocks))) i (late_r ! i)]) [0..<FRAMES * length blocks])"
proof -
  let ?w = "(!) (concat (map fst blocks))"
  obtain d where d: "init_dsp exact_math left_l left_r right_l right_r = Some d" "er_taps (early d) = the_taps"
    "dsp_inv left_l left_r right_l right_r the_taps ?w 0 d" using init_dsp_ok [OF assms(1-4), of ?w] by (elim exE conjE)
  have "\<forall>m\<in>set (map fst blocks). length m = 2 * FRAMES" using assms(5) by auto
  then have "map fst blocks = map (\<lambda>j. map (\<lambda>i. ?w (2 * FRAMES * j + i)) [0..<2 * FRAMES]) [0..<0 + length blocks]"
    by (intro nth_equalityI) (auto simp: concat_nth_block mult.commute intro!: nth_equalityI)
  from render_run_ok [OF d(3) this] show ?thesis
    unfolding d(2) using d(1) the_taps_range by (auto simp: d(2))
qed


lemma spatializer_renders_witness:
  "\<exists>d os d'. init_dsp exact_math [1] [1] [1] [1] = Some d \<and>
     render_run exact_math (Some d) [(replicate 96 1, replicate 96 0), (replicate 96 2, replicate 96 7)] = Some (os, Some d')"
proof -
  have "\<forall>b\<in>set [(replicate 96 1, replicate 96 0), (replicate 96 2, replicate 96 (7 :: real))]. length (fst b :: real list) = 2 * FRAMES"
    by (simp add: FRAMES_def)
  from spatializer_renders [OF _ _ _ _ this, of "[1]" "[1]" "[1]" "[1]"] show ?thesis
    by simp (elim exE conjE, intro exI conjI, assumption+)
qed

end
