(* ===== verification/Stft.thy ===== *)
theory Stft
  imports Delay
begin

text \<open>
  \<open>crates/daisy-dsp/src/stft.rs\<close>: the short-time Fourier transform with Hann windows before and after and
  a hop of a quarter frame, and its two clients, the spectral freeze and the phase-vocoder pitch
  shifter, over a parameter arithmetic. The closure that rewrites the spectrum is a function with its
  captured state passed along. In exact arithmetic an untouched spectrum gives the input back, three
  quarters of a frame late.
\<close>

section \<open>The transform\<close>

record 'f stft =
  st_win :: "'f list"
  st_inbuf :: "'f list"
  st_frame :: "'f list"
  st_ola :: "'f list"
  st_spec_re :: "'f list"
  st_spec_im :: "'f list"
  st_sre :: "'f list"
  st_sim :: "'f list"
  st_hop :: nat
  st_norm :: 'f

definition hann :: "'f fmath \<Rightarrow> nat \<Rightarrow> nat \<Rightarrow> 'f" where
  "hann M N i =
     (let F = fm M; TAU = fl_mul F (fl_nat F 2) (f_pi M) in
      fl_sub F (fl_half F) (fl_mul F (fl_half F) (f_cos M (fl_div F (fl_mul F TAU (fl_nat F i)) (fl_nat F N)))))"

definition stft_new :: "'f fmath \<Rightarrow> nat \<Rightarrow> 'f stft option" where
  "stft_new M N =
     (if \<not> (is_power_of_two N \<and> 64 \<le> N) then None
      else let F = fm M; hop = N div 4; win = map (hann M N) [0..<N]; zeros = replicate N (fl_nat F 0) in do {
        norm \<leftarrow> step_loop (\<lambda>k norm. do {
          w \<leftarrow> idx_get win k;
          Some (fl_add F norm (fl_mul F w w)) }) N hop (N div 2 mod hop) (fl_nat F 0);
        Some \<lparr>st_win = win, st_inbuf = zeros, st_frame = zeros, st_ola = zeros, st_spec_re = zeros,
          st_spec_im = zeros, st_sre = zeros, st_sim = zeros, st_hop = hop, st_norm = norm\<rparr>
      })"

definition stft_hop :: "nat \<Rightarrow> nat" where
  "stft_hop N = N div 4"

definition stft_latency :: "nat \<Rightarrow> nat" where
  "stft_latency N = N - N div 4"

text \<open>\<open>buf.copy_within(hop.., 0); buf[N - hop..] = tail\<close>, where \<open>copy_from_slice\<close> panics on unequal lengths.\<close>

definition slide :: "nat \<Rightarrow> nat \<Rightarrow> 'f list \<Rightarrow> 'f list \<Rightarrow> 'f list option" where
  "slide N hop buf new =
     (let moved = drop hop buf @ drop (length buf - hop) buf in
      if length new = N - (N - hop) \<and> hop \<le> length buf then Some (take (N - hop) moved @ new) else None)"

definition stft_process_hop ::
  "'f fmath \<Rightarrow> nat \<Rightarrow> ('c \<Rightarrow> 'f planar \<Rightarrow> ('f planar \<times> 'c) option) \<Rightarrow> 'c \<Rightarrow> 'f stft \<Rightarrow> 'f list \<Rightarrow> 'f list \<Rightarrow>
    ('f list \<times> 'c \<times> 'f stft) option" where
  "stft_process_hop M N spectrum c st in_hop out_hop =
     (let F = fm M; hop = st_hop st; half = N div 2 in do {
        inbuf \<leftarrow> slide N hop (st_inbuf st) in_hop;
        let frame = map2 (fl_mul F) inbuf (st_win st);
        (sre, sim) \<leftarrow> RealFft_new (take half (st_sre st)) (take half (st_sim st));
        ((sre, sim), re, im) \<leftarrow> RealFft_forward F (sre, sim) frame (take (half + 1) (st_spec_re st), take (half + 1) (st_spec_im st));
        ((re, im), c) \<leftarrow> spectrum c (re, im);
        (sre, sim) \<leftarrow> RealFft_new sre sim;
        ((sre, sim), frame) \<leftarrow> RealFft_inverse F (sre, sim) (re, im) frame;
        ola \<leftarrow> slide N hop (st_ola st) (replicate hop (fl_nat F 0));
        let inv_norm = fl_div F (fl_nat F 1) (st_norm st);
        let ola = map (\<lambda>(o', y, w). fl_add F o' (fl_mul F (fl_mul F y w) inv_norm)) (zip ola (zip frame (st_win st)));
        if length out_hop \<noteq> hop then None
        else Some (take hop ola, c, st\<lparr>st_inbuf := inbuf, st_frame := frame, st_ola := ola,
          st_spec_re := re @ drop (half + 1) (st_spec_re st), st_spec_im := im @ drop (half + 1) (st_spec_im st),
          st_sre := sre @ drop half (st_sre st), st_sim := sim @ drop half (st_sim st)\<rparr>)
      })"

section \<open>Spectral freeze\<close>

record 'f spectral_freeze =
  sz_stft :: "'f stft"
  sz_mag :: "'f list"
  sz_phase :: "'f list"
  sz_frozen :: bool
  sz_captured :: bool

definition freeze_new :: "'f fmath \<Rightarrow> nat \<Rightarrow> 'f spectral_freeze option" where
  "freeze_new M N = do {
     st \<leftarrow> stft_new M N;
     let zeros = replicate N (fl_nat (fm M) 0);
     Some \<lparr>sz_stft = st, sz_mag = zeros, sz_phase = zeros, sz_frozen = False, sz_captured = False\<rparr>
   }"

definition set_frozen :: "bool \<Rightarrow> 'f spectral_freeze \<Rightarrow> 'f spectral_freeze" where
  "set_frozen frozen sz = sz\<lparr>sz_frozen := frozen, sz_captured := sz_captured sz \<and> frozen\<rparr>"

text \<open>The closure, over \<open>(captured, mag, phase)\<close>.\<close>

definition magnitude :: "'f fmath \<Rightarrow> 'f \<Rightarrow> 'f \<Rightarrow> 'f" where
  "magnitude M r i = (let F = fm M in f_sqrt M (fl_add F (fl_mul F r r) (fl_mul F i i)))"

definition capture_bin :: "'f fmath \<Rightarrow> 'f planar \<Rightarrow> nat \<Rightarrow> 'f list \<times> 'f list \<Rightarrow> ('f list \<times> 'f list) option" where
  "capture_bin M z k = (\<lambda>(mag, phase). do {
     r \<leftarrow> idx_get (fst z) k;
     i \<leftarrow> idx_get (snd z) k;
     mag \<leftarrow> idx_set mag k (magnitude M r i);
     phase \<leftarrow> idx_set phase k (f_atan2 M i r);
     Some (mag, phase)
   })"

definition sustain_bin :: "'f fmath \<Rightarrow> nat \<Rightarrow> 'f list \<Rightarrow> nat \<Rightarrow> 'f list \<times> 'f planar \<Rightarrow> ('f list \<times> 'f planar) option" where
  "sustain_bin M N mag k = (\<lambda>(phase, re, im). let F = fm M; hop = N div 4; TAU = fl_mul F (fl_nat F 2) (f_pi M) in do {
     p \<leftarrow> idx_get phase k;
     let p = fl_add F p (fl_div F (fl_mul F TAU (fl_nat F (k * hop))) (fl_nat F N));
     phase \<leftarrow> idx_set phase k p;
     m \<leftarrow> idx_get mag k;
     re \<leftarrow> idx_set re k (fl_mul F m (f_cos M p));
     im \<leftarrow> idx_set im k (fl_mul F m (f_sin M p));
     Some (phase, re, im)
   })"

definition freeze_spectrum ::
  "'f fmath \<Rightarrow> nat \<Rightarrow> bool \<Rightarrow> bool \<times> 'f list \<times> 'f list \<Rightarrow> 'f planar \<Rightarrow> ('f planar \<times> bool \<times> 'f list \<times> 'f list) option" where
  "freeze_spectrum M N frozen = (\<lambda>(captured, mag, phase) z.
     if \<not> frozen then Some (z, captured, mag, phase)
     else if \<not> captured then do {
       (mag, phase) \<leftarrow> for_in (capture_bin M z) [0..<N div 2 + 1] (mag, phase);
       Some (z, True, mag, phase)
     }
     else do {
       (phase, z) \<leftarrow> for_in (sustain_bin M N mag) [0..<N div 2 + 1] (phase, z);
       Some (z, True, mag, phase)
     })"

definition freeze_process_hop ::
  "'f fmath \<Rightarrow> nat \<Rightarrow> 'f spectral_freeze \<Rightarrow> 'f list \<Rightarrow> 'f list \<Rightarrow> ('f list \<times> 'f spectral_freeze) option" where
  "freeze_process_hop M N sz in_hop out_hop = do {
     (out, (captured, mag, phase), st) \<leftarrow>
       stft_process_hop M N (freeze_spectrum M N (sz_frozen sz)) (sz_captured sz, sz_mag sz, sz_phase sz) (sz_stft sz) in_hop out_hop;
     Some (out, sz\<lparr>sz_stft := st, sz_captured := captured, sz_mag := mag, sz_phase := phase\<rparr>)
   }"

section \<open>The phase vocoder\<close>

definition wrap_phase :: "'f fmath \<Rightarrow> 'f \<Rightarrow> 'f" where
  "wrap_phase M x = (let F = fm M; TAU = fl_mul F (fl_nat F 2) (f_pi M) in fl_sub F x (fl_mul F TAU (f_round M (fl_div F x TAU))))"

record 'f vocoder =
  pv_prev_phase :: "'f list"
  pv_sum_phase :: "'f list"
  pv_mag :: "'f list"
  pv_freq :: "'f list"
  pv_syn_mag :: "'f list"
  pv_syn_freq :: "'f list"

record 'f pitch_shifter =
  ps_stft :: "'f stft"
  ps_ratio :: 'f
  ps_vocoder :: "'f vocoder"

definition shifter_new :: "'f fmath \<Rightarrow> nat \<Rightarrow> 'f \<Rightarrow> 'f pitch_shifter option" where
  "shifter_new M N ratio = do {
     st \<leftarrow> stft_new M N;
     let F = fm M; let zeros = replicate N (fl_nat F 0);
     Some \<lparr>ps_stft = st, ps_ratio = f_max M ratio (fl_div F (fl_nat F 1) (fl_nat F 20)),
       ps_vocoder = \<lparr>pv_prev_phase = zeros, pv_sum_phase = zeros, pv_mag = zeros, pv_freq = zeros, pv_syn_mag = zeros, pv_syn_freq = zeros\<rparr>\<rparr>
   }"

definition set_ratio :: "'f fmath \<Rightarrow> 'f \<Rightarrow> 'f pitch_shifter \<Rightarrow> 'f pitch_shifter" where
  "set_ratio M ratio ps = ps\<lparr>ps_ratio := f_max M ratio (fl_div (fm M) (fl_nat (fm M) 1) (fl_nat (fm M) 20))\<rparr>"

definition set_semitones :: "'f fmath \<Rightarrow> 'f \<Rightarrow> 'f pitch_shifter \<Rightarrow> 'f pitch_shifter" where
  "set_semitones M semitones ps =
     set_ratio M (f_exp2 M (fl_div (fm M) semitones (fl_nat (fm M) 12))) ps"

definition analyse_bin :: "'f fmath \<Rightarrow> nat \<Rightarrow> 'f planar \<Rightarrow> nat \<Rightarrow> 'f vocoder \<Rightarrow> 'f vocoder option" where
  "analyse_bin M N z k vo =
     (let F = fm M; hop = fl_nat F (N div 4); n = fl_nat F N; TAU = fl_mul F (fl_nat F 2) (f_pi M) in do {
        r \<leftarrow> idx_get (fst z) k;
        i \<leftarrow> idx_get (snd z) k;
        let phase = f_atan2 M i r;
        let expected = fl_div F (fl_mul F (fl_mul F TAU (fl_nat F k)) hop) n;
        prev \<leftarrow> idx_get (pv_prev_phase vo) k;
        let dp = wrap_phase M (fl_sub F (fl_sub F phase prev) expected);
        prev_phase \<leftarrow> idx_set (pv_prev_phase vo) k phase;
        mag \<leftarrow> idx_set (pv_mag vo) k (magnitude M r i);
        freq \<leftarrow> idx_set (pv_freq vo) k (fl_add F (fl_nat F k) (fl_div F (fl_mul F dp n) (fl_mul F TAU hop)));
        Some (vo\<lparr>pv_prev_phase := prev_phase, pv_mag := mag, pv_freq := freq\<rparr>)
      })"

definition clear_to :: "'f flops \<Rightarrow> nat \<Rightarrow> 'f list \<Rightarrow> 'f list option" where
  "clear_to F half xs = (if half < length xs then Some (replicate (half + 1) (fl_nat F 0) @ drop (half + 1) xs) else None)"

definition remap_bin :: "'f fmath \<Rightarrow> nat \<Rightarrow> 'f \<Rightarrow> nat \<Rightarrow> 'f vocoder \<Rightarrow> 'f vocoder option" where
  "remap_bin M half ratio k vo =
     (let F = fm M; j = f_index M (f_round M (fl_mul F (fl_nat F k) ratio)) in
      if j \<le> half then do {
        m \<leftarrow> idx_get (pv_mag vo) k;
        s \<leftarrow> idx_get (pv_syn_mag vo) j;
        syn_mag \<leftarrow> idx_set (pv_syn_mag vo) j (fl_add F s m);
        f \<leftarrow> idx_get (pv_freq vo) k;
        syn_freq \<leftarrow> idx_set (pv_syn_freq vo) j (fl_mul F f ratio);
        Some (vo\<lparr>pv_syn_mag := syn_mag, pv_syn_freq := syn_freq\<rparr>)
      } else Some vo)"

definition synthesise_bin :: "'f fmath \<Rightarrow> nat \<Rightarrow> nat \<Rightarrow> 'f vocoder \<times> 'f planar \<Rightarrow> ('f vocoder \<times> 'f planar) option" where
  "synthesise_bin M N j = (\<lambda>(vo, re, im).
     let F = fm M; hop = fl_nat F (N div 4); n = fl_nat F N; TAU = fl_mul F (fl_nat F 2) (f_pi M) in do {
     p \<leftarrow> idx_get (pv_sum_phase vo) j;
     f \<leftarrow> idx_get (pv_syn_freq vo) j;
     let ph = fl_add F p (fl_div F (fl_mul F (fl_mul F TAU hop) f) n);
     sum_phase \<leftarrow> idx_set (pv_sum_phase vo) j ph;
     m \<leftarrow> idx_get (pv_syn_mag vo) j;
     re \<leftarrow> idx_set re j (fl_mul F m (f_cos M ph));
     im \<leftarrow> idx_set im j (fl_mul F m (f_sin M ph));
     Some (vo\<lparr>pv_sum_phase := sum_phase\<rparr>, re, im)
   })"

definition shift_spectrum :: "'f fmath \<Rightarrow> nat \<Rightarrow> 'f \<Rightarrow> 'f vocoder \<Rightarrow> 'f planar \<Rightarrow> ('f planar \<times> 'f vocoder) option" where
  "shift_spectrum M N ratio vo z =
     (let half = N div 2 in do {
        vo \<leftarrow> for_in (analyse_bin M N z) [0..<half + 1] vo;
        syn_mag \<leftarrow> clear_to (fm M) half (pv_syn_mag vo);
        syn_freq \<leftarrow> clear_to (fm M) half (pv_syn_freq vo);
        vo \<leftarrow> for_in (remap_bin M half ratio) [0..<half + 1] (vo\<lparr>pv_syn_mag := syn_mag, pv_syn_freq := syn_freq\<rparr>);
        (vo, z) \<leftarrow> for_in (synthesise_bin M N) [0..<half + 1] (vo, z);
        Some (z, vo)
      })"

definition shifter_process_hop ::
  "'f fmath \<Rightarrow> nat \<Rightarrow> 'f pitch_shifter \<Rightarrow> 'f list \<Rightarrow> 'f list \<Rightarrow> ('f list \<times> 'f pitch_shifter) option" where
  "shifter_process_hop M N ps in_hop out_hop = do {
     (out, vo, st) \<leftarrow> stft_process_hop M N (shift_spectrum M N (ps_ratio ps)) (ps_vocoder ps) (ps_stft ps) in_hop out_hop;
     Some (out, ps\<lparr>ps_stft := st, ps_vocoder := vo\<rparr>)
   }"

lemma run_hops_total:
  assumes "\<And>s x. ok s \<Longrightarrow> length x = h \<Longrightarrow> \<exists>y s'. f s x = Some (y, s') \<and> length y = h \<and> ok s'"
  shows "ok s \<Longrightarrow> \<forall>x\<in>set xs. length x = h \<Longrightarrow>
    \<exists>ys s'. run_steps f s xs = Some (ys, s') \<and> map length ys = replicate (length xs) h \<and> ok s'"
proof (induction xs arbitrary: s)
  case (Cons x xs)
  obtain y s1 where "f s x = Some (y, s1)" "length y = h" "ok s1" using assms [of s x] Cons.prems by auto
  moreover from Cons.IH [OF this(3)] obtain ys s' where "run_steps f s1 xs = Some (ys, s')" "map length ys = replicate (length xs) h" "ok s'"
    using Cons.prems(2) by auto
  ultimately show ?case by simp
qed simp

section \<open>No hop panics\<close>

lemma real_inverse_total:
  assumes F: "tables_ok F" and m: "m \<le> 11"
    and len: "planar_len (2 ^ m) scratch" "planar_len (2 ^ m + 1) x" "length out = 2 * 2 ^ m"
  shows "\<exists>sc out'. real_inverse F scratch x out (2 * 2 ^ m) = Some (sc, out') \<and> planar_len (2 ^ m) sc \<and> length out' = 2 * 2 ^ m"
proof -
  let ?l = "2 ^ m :: nat" and ?st = "TW_MASTER div (2 * 2 ^ m)"
  have "\<exists>z. for_in (unsplit_bin F x ?l ?st) [0..<?l] scratch = Some z \<and> planar_len ?l z"
  proof (rule for_in_upt [where I = "\<lambda>_. planar_len ?l", OF len(1)])
    fix k and z :: "'a planar"
    assume k: "k < ?l" and z: "planar_len ?l z"
    obtain c s where "tw F (k * ?st) = Some (c, s)" using tw_total [OF F] by blast
    then show "\<exists>z'. unsplit_bin F x ?l ?st k z = Some z' \<and> planar_len ?l z'"
      using k z len(2) by (cases z) (simp add: unsplit_bin_def planar_len_def Let_def cmul_def)
  qed simp
  then obtain z where z: "for_in (unsplit_bin F x ?l ?st) [0..<?l] scratch = Some z" "planar_len ?l z" by (elim exE conjE)
  obtain z1 where z1: "fft_in_place F True z = Some z1" "planar_len ?l z1"
    using fft_in_place_total [OF F z(2) m, of True] by (elim exE conjE)
  obtain out' where out': "for_in (unpack_sample z1) [0..<?l] out = Some out'" "length out' = 2 * ?l"
    using unpack_ok [of z1 ?l out] z1(2) len(3) by (auto simp: planar_len_def)
  have "real_inverse F scratch x out (2 * ?l) = Some (z1, out')"
    using len z(1) z1(1) out'(1) by (simp add: real_inverse_def planar_len_def Let_def)
  then show ?thesis using z1(2) out'(2) by blast
qed

lemma length_slide: "slide N hop buf new = Some buf' \<Longrightarrow> length buf = N \<Longrightarrow> hop \<le> N \<Longrightarrow> length buf' = N"
  by (auto simp: slide_def Let_def split: if_splits)

lemma slide_Some: "length buf = N \<Longrightarrow> length new = hop \<Longrightarrow> hop \<le> N \<Longrightarrow> slide N hop buf new = Some (drop hop buf @ new)"
  by (simp add: slide_def Let_def)

definition stft_ok :: "nat \<Rightarrow> 'f stft \<Rightarrow> bool" where
  "stft_ok N st \<longleftrightarrow> length (st_win st) = N \<and> length (st_inbuf st) = N \<and> length (st_frame st) = N \<and> length (st_ola st) = N \<and>
     length (st_spec_re st) = N \<and> length (st_spec_im st) = N \<and> length (st_sre st) = N \<and> length (st_sim st) = N \<and> st_hop st = N div 4"

text \<open>What \<open>process_hop\<close> asks of the closure it is given.\<close>

locale spectrum_client =
  fixes spectrum :: "'c \<Rightarrow> 'f planar \<Rightarrow> ('f planar \<times> 'c) option"
    and ok :: "'c \<Rightarrow> bool"
    and N :: nat
  assumes rewritten: "ok c \<Longrightarrow> planar_len (N div 2 + 1) z \<Longrightarrow>
    \<exists>z' c'. spectrum c z = Some (z', c') \<and> planar_len (N div 2 + 1) z' \<and> ok c'"
begin

lemma process_hop_total:
  assumes F: "tables_ok (fm M)" and N: "N = 2 * 2 ^ m" "6 \<le> m + 1" "m \<le> 11" and c: "ok c" and st: "stft_ok N st"
    and len: "length x = N div 4" "length out = N div 4"
  shows "\<exists>y c' st'. stft_process_hop M N spectrum c st x out = Some (y, c', st') \<and> length y = N div 4 \<and> ok c' \<and> stft_ok N st'"
proof -
  let ?l = "2 ^ m :: nat"
  have half: "N div 2 = ?l" "N div 4 \<le> N" "?l \<le> N" "?l + 1 \<le> N" using N(2) by (simp_all add: N(1))
  note st = st [unfolded stft_ok_def]
  define inbuf where "inbuf = drop (N div 4) (st_inbuf st) @ x"
  define frame where "frame = map2 (fl_mul (fm M)) inbuf (st_win st)"
  have sl: "slide N (N div 4) (st_inbuf st) x = Some inbuf" "length inbuf = N"
    using st len half by (simp_all add: slide_Some inbuf_def)
  have fr: "length frame = 2 * ?l" using sl(2) st N by (simp add: frame_def)
  obtain sre sim z where f: "real_forward (fm M) (take ?l (st_sre st), take ?l (st_sim st)) frame
      (take (?l + 1) (st_spec_re st), take (?l + 1) (st_spec_im st)) (2 * ?l) = Some ((sre, sim), z)"
    "planar_len ?l (sre, sim)" "planar_len (?l + 1) z"
    using real_forward_total [OF F N(3), of "(take ?l (st_sre st), take ?l (st_sim st))" frame "(take (?l + 1) (st_spec_re st), take (?l + 1) (st_spec_im st))"]
      st half fr by (auto simp: planar_len_def)
  obtain re im c' where sp: "spectrum c z = Some ((re, im), c')" "planar_len (?l + 1) (re, im)" "ok c'"
    using rewritten [OF c, of z] f(3) half by auto
  obtain sre' sim' frame' where i: "real_inverse (fm M) (sre, sim) (re, im) frame (2 * ?l) = Some ((sre', sim'), frame')"
    "planar_len ?l (sre', sim')" "length frame' = 2 * ?l"
    using real_inverse_total [OF F N(3) f(2) sp(2) fr] by auto
  define ola where "ola = drop (N div 4) (st_ola st) @ replicate (N div 4) (fl_nat (fm M) 0)"
  have ola: "slide N (N div 4) (st_ola st) (replicate (N div 4) (fl_nat (fm M) 0)) = Some ola" "length ola = N"
    using st half by (simp_all add: slide_Some ola_def)
  have news: "RealFft_new (take ?l (st_sre st)) (take ?l (st_sim st)) = Some (take ?l (st_sre st), take ?l (st_sim st))"
    "RealFft_new sre sim = Some (sre, sim)"
    using st half f(2) by (simp_all add: RealFft_new_def planar_len_def)
  show ?thesis
    using st half sl ola news f i sp len fr N(1)
    by (simp add: stft_process_hop_def RealFft_forward_def RealFft_inverse_def RealFft_n_def Let_def frame_def [symmetric]
        planar_len_def stft_ok_def mult.commute)
qed

end

end
