(* ===== verification/Stft_Exact.thy ===== *)
theory Stft_Exact
  imports Stft
begin

text \<open>
  The clients of \<open>Stft\<close> meet the contract of \<open>process_hop\<close> over any arithmetic, so that no hop of the spectral
  freeze or of the phase vocoder panics; and in exact arithmetic the left_alone transform is a pure delay.
\<close>

section \<open>The clients\<close>

definition left_alone :: "unit \<Rightarrow> 'f planar \<Rightarrow> ('f planar \<times> unit) option" where
  "left_alone c z = Some (z, c)"

interpretation identity_client: spectrum_client left_alone "\<lambda>_. True" N for N
  by unfold_locales (simp add: left_alone_def)

definition freeze_ok :: "nat \<Rightarrow> bool \<times> 'f list \<times> 'f list \<Rightarrow> bool" where
  "freeze_ok N = (\<lambda>(_, mag, phase). length mag = N \<and> length phase = N)"

lemma freeze_spectrum_total:
  assumes N: "N div 2 + 1 \<le> N" and c: "freeze_ok N c" and z: "planar_len (N div 2 + 1) z"
  shows "\<exists>z' c'. freeze_spectrum M N frozen c z = Some (z', c') \<and> planar_len (N div 2 + 1) z' \<and> freeze_ok N c'"
proof -
  obtain captured mag phase where cs: "c = (captured, mag, phase)" by (cases c)
  have len: "length mag = N" "length phase = N" using c by (simp_all add: freeze_ok_def cs)
  have cap: "\<exists>mp. for_in (capture_bin M z) [0..<N div 2 + 1] (mag, phase) = Some mp \<and> length (fst mp) = N \<and> length (snd mp) = N"
  proof (rule for_in_upt [where I = "\<lambda>_ mp. length (fst mp) = N \<and> length (snd mp) = N"])
    fix k and mp :: "'a list \<times> 'a list"
    assume "k < N div 2 + 1" "length (fst mp) = N \<and> length (snd mp) = N"
    then show "\<exists>mp'. capture_bin M z k mp = Some mp' \<and> length (fst mp') = N \<and> length (snd mp') = N"
      using N z by (cases mp) (simp add: capture_bin_def planar_len_def)
  qed (use len in simp_all)
  have sus: "\<exists>pz. for_in (sustain_bin M N mag) [0..<N div 2 + 1] (phase, z) = Some pz \<and> length (fst pz) = N \<and> planar_len (N div 2 + 1) (snd pz)"
  proof (rule for_in_upt [where I = "\<lambda>_ pz. length (fst pz) = N \<and> planar_len (N div 2 + 1) (snd pz)"])
    fix k and pz :: "'a list \<times> 'a planar"
    assume "k < N div 2 + 1" "length (fst pz) = N \<and> planar_len (N div 2 + 1) (snd pz)"
    then show "\<exists>pz'. sustain_bin M N mag k pz = Some pz' \<and> length (fst pz') = N \<and> planar_len (N div 2 + 1) (snd pz')"
      using N len by (cases pz) (auto simp: sustain_bin_def planar_len_def Let_def)
  qed (use len z in simp_all)
  obtain m p where mp: "for_in (capture_bin M z) [0..<N div 2 + 1] (mag, phase) = Some (m, p)" "length m = N" "length p = N"
    using cap by (elim exE conjE) (metis prod.collapse)
  obtain q y where pz: "for_in (sustain_bin M N mag) [0..<N div 2 + 1] (phase, z) = Some (q, y)" "length q = N" "planar_len (N div 2 + 1) y"
    using sus by (elim exE conjE) (metis prod.collapse)
  obtain d where "freeze_spectrum M N frozen c z = Some d" "planar_len (N div 2 + 1) (fst d)" "freeze_ok N (snd d)"
    using mp pz z len by (cases frozen; cases captured) (simp_all add: freeze_spectrum_def cs freeze_ok_def del: upt_Suc)
  then show ?thesis by (intro exI [of _ "fst d"] exI [of _ "snd d"]) simp
qed

interpretation freeze_client: spectrum_client "freeze_spectrum M N frozen" "\<lambda>c. freeze_ok N c \<and> N div 2 + 1 \<le> N" N for M N frozen
proof
  fix c :: "bool \<times> 'a list \<times> 'a list" and z :: "'a planar"
  assume "freeze_ok N c \<and> N div 2 + 1 \<le> N" "planar_len (N div 2 + 1) z"
  then show "\<exists>z' c'. freeze_spectrum M N frozen c z = Some (z', c') \<and> planar_len (N div 2 + 1) z' \<and> freeze_ok N c' \<and> N div 2 + 1 \<le> N"
    using freeze_spectrum_total [of N c z M frozen] by simp
qed

definition vocoder_ok :: "nat \<Rightarrow> 'f vocoder \<Rightarrow> bool" where
  "vocoder_ok N pv \<longleftrightarrow> length (pv_prev_phase pv) = N \<and> length (pv_sum_phase pv) = N \<and> length (pv_mag pv) = N \<and>
     length (pv_freq pv) = N \<and> length (pv_syn_mag pv) = N \<and> length (pv_syn_freq pv) = N"

text \<open>Whatever index the rounding of \<open>k * ratio\<close> gives, only those up to half a frame are used.\<close>

lemma shift_spectrum_total:
  assumes N: "N div 2 + 1 \<le> N" and pv: "vocoder_ok N pv" and z: "planar_len (N div 2 + 1) z"
  shows "\<exists>z' pv'. shift_spectrum M N ratio pv z = Some (z', pv') \<and> planar_len (N div 2 + 1) z' \<and> vocoder_ok N pv'"
proof -
  have "\<exists>v. for_in (analyse_bin M N z) [0..<N div 2 + 1] pv = Some v \<and> vocoder_ok N v"
  proof (rule for_in_upt [where I = "\<lambda>_. vocoder_ok N", OF pv])
    fix k and v :: "'a vocoder"
    assume "k < N div 2 + 1" "vocoder_ok N v"
    then show "\<exists>v'. analyse_bin M N z k v = Some v' \<and> vocoder_ok N v'"
      using N z by (simp add: analyse_bin_def vocoder_ok_def planar_len_def Let_def)
  qed simp
  then obtain v1 where v1: "for_in (analyse_bin M N z) [0..<N div 2 + 1] pv = Some v1" "vocoder_ok N v1" by (elim exE conjE)
  obtain sm sf where cl: "clear_to (fm M) (N div 2) (pv_syn_mag v1) = Some sm" "clear_to (fm M) (N div 2) (pv_syn_freq v1) = Some sf"
    "length sm = N" "length sf = N"
    using v1(2) N by (simp add: clear_to_def vocoder_ok_def)
  have "\<exists>v. for_in (remap_bin M (N div 2) ratio) [0..<N div 2 + 1] (v1\<lparr>pv_syn_mag := sm, pv_syn_freq := sf\<rparr>) = Some v \<and> vocoder_ok N v"
  proof (rule for_in_upt [where I = "\<lambda>_. vocoder_ok N"])
    fix k and v :: "'a vocoder"
    assume "k < N div 2 + 1" "vocoder_ok N v"
    then show "\<exists>v'. remap_bin M (N div 2) ratio k v = Some v' \<and> vocoder_ok N v'"
      using N by (auto simp: remap_bin_def vocoder_ok_def Let_def)
  qed (use v1(2) cl in \<open>simp_all add: vocoder_ok_def\<close>)
  then obtain v2 where v2: "for_in (remap_bin M (N div 2) ratio) [0..<N div 2 + 1] (v1\<lparr>pv_syn_mag := sm, pv_syn_freq := sf\<rparr>) = Some v2"
    "vocoder_ok N v2" by (elim exE conjE)
  have "\<exists>vz. for_in (synthesise_bin M N) [0..<N div 2 + 1] (v2, z) = Some vz \<and> vocoder_ok N (fst vz) \<and> planar_len (N div 2 + 1) (snd vz)"
  proof (rule for_in_upt [where I = "\<lambda>_ vz. vocoder_ok N (fst vz) \<and> planar_len (N div 2 + 1) (snd vz)"])
    fix k and vz :: "'a vocoder \<times> 'a planar"
    assume "k < N div 2 + 1" "vocoder_ok N (fst vz) \<and> planar_len (N div 2 + 1) (snd vz)"
    then show "\<exists>vz'. synthesise_bin M N k vz = Some vz' \<and> vocoder_ok N (fst vz') \<and> planar_len (N div 2 + 1) (snd vz')"
      using N by (cases vz) (auto simp: synthesise_bin_def vocoder_ok_def planar_len_def Let_def)
  qed (use v2(2) z in simp_all)
  then obtain vz where vz: "for_in (synthesise_bin M N) [0..<N div 2 + 1] (v2, z) = Some vz" "vocoder_ok N (fst vz)"
    "planar_len (N div 2 + 1) (snd vz)" by (elim exE conjE)
  have "shift_spectrum M N ratio pv z = Some (snd vz, fst vz)"
    using v1(1) cl(1,2) v2(1) vz(1) by (simp add: shift_spectrum_def Let_def split_def del: upt_Suc)
  then show ?thesis using vz(2,3) by (intro exI conjI)
qed

interpretation vocoder_client: spectrum_client "shift_spectrum M N ratio" "\<lambda>pv. vocoder_ok N pv \<and> N div 2 + 1 \<le> N" N for M N ratio
proof
  fix c :: "'a vocoder" and z :: "'a planar"
  assume "vocoder_ok N c \<and> N div 2 + 1 \<le> N" "planar_len (N div 2 + 1) z"
  then show "\<exists>z' c'. shift_spectrum M N ratio c z = Some (z', c') \<and> planar_len (N div 2 + 1) z' \<and> vocoder_ok N c' \<and> N div 2 + 1 \<le> N"
    using shift_spectrum_total [of N c z M ratio] by simp
qed

lemma stft_new_total:
  assumes "is_power_of_two N" "64 \<le> N"
  shows "\<exists>st. stft_new M N = Some st \<and> stft_ok N st"
proof -
  obtain m where m: "N = 2 ^ m" using assms(1) unfolding is_power_of_two_iff by blast
  have "2 \<le> m"
  proof (rule ccontr)
    assume "\<not> 2 \<le> m"
    then have "m = 0 \<or> m = 1" by auto
    then show False using assms(2) m by auto
  qed
  then obtain j where "m = Suc (Suc j)" by (metis Suc_le_D le_Suc_eq numeral_2_eq_2)
  then have N: "N = 4 * 2 ^ j" by (simp add: m)
  have hop: "N div 2 mod (N div 4) = 0" "N div 4 dvd N" "0 < N div 4" by (simp_all add: N)
  have "\<exists>s. step_loop (\<lambda>k norm. do { w \<leftarrow> idx_get (map (hann M N) [0..<N]) k;
      Some (fl_add (fm M) norm (fl_mul (fm M) w w)) }) N (N div 4) 0 (fl_nat (fm M) 0) = Some s \<and> True"
  proof (rule step_loop_inv [where I = "\<lambda>_ _. True", OF _ hop(2,3)])
    fix b :: nat and s :: 'a
    assume "b + N div 4 \<le> N"
    then have "b < N" using hop(3) by simp
    then show "\<exists>s'. (do { w \<leftarrow> idx_get (map (hann M N) [0..<N]) b; Some (fl_add (fm M) s (fl_mul (fm M) w w)) }) = Some s' \<and> True" by simp
  qed simp
  then obtain s where "step_loop (\<lambda>k norm. do { w \<leftarrow> idx_get (map (hann M N) [0..<N]) k;
      Some (fl_add (fm M) norm (fl_mul (fm M) w w)) }) N (N div 4) 0 (fl_nat (fm M) 0) = Some s" by (elim exE conjE)
  then show ?thesis using assms hop(1) by (simp add: stft_new_def stft_ok_def Let_def)
qed

section \<open>Overlap-add\<close>

lemma hann_exact: "hann exact_math N i = 1 / 2 - 1 / 2 * cos (2 * pi * real i / real N)"
  by (simp add: hann_def Let_def)

text \<open>The part of the squared windows that has reached position \<open>i\<close> of the accumulator.\<close>

definition overlap :: "nat \<Rightarrow> nat \<Rightarrow> real" where
  "overlap N i = (\<Sum>j<4. if i + j * (N div 4) < N then (hann exact_math N (i + j * (N div 4)))\<^sup>2 else 0)"

lemma sum_four: "(\<Sum>j<4. f j) = f 0 + f 1 + f 2 + f 3" for f :: "nat \<Rightarrow> real"
  by (simp add: eval_nat_numeral)

lemma overlap_full:
  assumes N: "N = 4 * h" and h: "0 < h" and i: "i < h"
  shows "overlap N i = 3 / 2"
proof -
  define a where "a = 2 * pi * real i / real N"
  have ang: "2 * pi * real (i + j * h) / real N = a + real j * (pi / 2)" for j
    using h by (simp add: a_def N field_simps)
  have c: "cos (a + pi / 2) = - sin a" "cos (a + pi) = - cos a" "cos (a + 3 * pi / 2) = sin a"
  proof -
    show "cos (a + pi / 2) = - sin a" by (simp add: cos_add)
    show "cos (a + pi) = - cos a" by simp
    have "cos (a + 3 * pi / 2) = cos ((a + pi / 2) + pi)" by (simp add: field_simps)
    also have "\<dots> = - cos (a + pi / 2)" by (rule cos_periodic_pi)
    also have "\<dots> = sin a" by (simp add: cos_add)
    finally show "cos (a + 3 * pi / 2) = sin a" .
  qed
  have w: "hann exact_math N (i + j * h) = 1 / 2 - 1 / 2 * cos (a + real j * (pi / 2))" for j
    unfolding hann_exact ang ..
  have h4: "N div 4 = h" by (simp add: N)
  have lt: "i + j * h < N" if "j < 4" for j
  proof -
    have "j * h \<le> 3 * h" using that by (intro mult_le_mono) simp_all
    then show ?thesis using i unfolding N by linarith
  qed
  have "overlap N i = (\<Sum>j<4. (1 / 2 - 1 / 2 * cos (a + real j * (pi / 2)))\<^sup>2)"
    unfolding overlap_def h4 by (intro sum.cong refl) (simp only: lt lessThan_iff if_True w)
  also have "\<dots> = (1 / 2 - 1 / 2 * cos a)\<^sup>2 + (1 / 2 + 1 / 2 * sin a)\<^sup>2 + (1 / 2 + 1 / 2 * cos a)\<^sup>2 + (1 / 2 - 1 / 2 * sin a)\<^sup>2"
    using c by (simp add: eval_nat_numeral)
  also have "\<dots> = 1 + ((sin a)\<^sup>2 + (cos a)\<^sup>2) / 2"
    by (simp only: power2_sum power2_diff power_mult_distrib) (simp add: power_divide)
  finally show ?thesis unfolding sin_cos_squared_add by simp
qed

lemma overlap_step:
  assumes N: "N = 4 * h" and h: "0 < h" and i: "i < N"
  shows "overlap N i = (if i + h < N then overlap N (i + h) else 0) + (hann exact_math N i)\<^sup>2"
proof -
  define q where "q = (\<lambda>j. if i + j * h < N then (hann exact_math N (i + j * h))\<^sup>2 else 0)"
  have h4: "N div 4 = h" by (simp add: N)
  have shift: "i + h + j * h = i + Suc j * h" for j by simp
  have "overlap N i = (\<Sum>j<4. q j)" "overlap N (i + h) = (\<Sum>j<4. q (Suc j))"
    unfolding overlap_def q_def h4 shift by simp_all
  moreover have "q 4 = 0" "q 0 = (hann exact_math N i)\<^sup>2" using i by (simp_all add: q_def N)
  moreover have "q 1 = 0" "q 2 = 0" "q 3 = 0" if "\<not> i + h < N" using that by (simp_all add: q_def)
  ultimately show ?thesis unfolding sum_four by (simp add: eval_nat_numeral)
qed

lemma stft_norm:
  assumes N: "N = 4 * h" and h: "0 < h"
  shows "step_loop (\<lambda>k norm. do { w \<leftarrow> idx_get (map (hann exact_math N) [0..<N]) k; Some (norm + w * w) }) N (N div 4) 0 0 = Some (3 / 2)"
proof -
  let ?w = "hann exact_math N"
  define f where "f = (\<lambda>k norm. do { w \<leftarrow> idx_get (map ?w [0..<N]) k; Some (norm + w * w) })"
  have go: "step_loop f N h b s = step_loop f N h (b + h) (s + ?w b * ?w b)" if "b < N" for b s
    using that h by (subst step_loop.simps) (simp add: f_def)
  have stop: "step_loop f N h b s = Some s" if "\<not> b < N" for b s
    using that by (subst step_loop.simps) simp
  have e: "0 + h = h" "h + h = 2 * h" "2 * h + h = 3 * h" "3 * h + h = 4 * h" by simp_all
  have lt: "0 < N" "h < N" "2 * h < N" "3 * h < N" "\<not> 4 * h < N" using h by (simp_all add: N)
  have h4: "N div 4 = h" by (simp add: N)
  note chain = go [OF lt(1), unfolded e] go [OF lt(2), unfolded e] go [OF lt(3), unfolded e] go [OF lt(4), unfolded e] stop [OF lt(5)]
  have "step_loop f N h 0 0 = Some (?w 0 * ?w 0 + ?w h * ?w h + ?w (2 * h) * ?w (2 * h) + ?w (3 * h) * ?w (3 * h))"
    by (simp only: chain) simp
  also have "?w 0 * ?w 0 + ?w h * ?w h + ?w (2 * h) * ?w (2 * h) + ?w (3 * h) * ?w (3 * h) = overlap N 0"
    unfolding overlap_def h4 sum_four using lt by (simp add: power2_eq_square)
  finally have "step_loop f N h 0 0 = Some (3 / 2)" using overlap_full [OF N h h] by simp
  then show ?thesis by (simp add: f_def N)
qed

section \<open>Reconstruction\<close>

text \<open>The signal \<open>x\<close> after \<open>N\<close> samples of silence.\<close>

definition padded :: "(nat \<Rightarrow> real) \<Rightarrow> nat \<Rightarrow> nat \<Rightarrow> real" where
  "padded x N i = (if i < N then 0 else x (i - N))"

definition stft_inv :: "nat \<Rightarrow> (nat \<Rightarrow> real) \<Rightarrow> nat \<Rightarrow> real stft \<Rightarrow> bool" where
  "stft_inv N x t st \<longleftrightarrow> stft_ok N st \<and> st_win st = map (hann exact_math N) [0..<N] \<and> st_norm st = 3 / 2 \<and>
     st_inbuf st = map (\<lambda>i. padded x N (t * (N div 4) + i)) [0..<N] \<and>
     st_ola st = map (\<lambda>i. padded x N (t * (N div 4) + i) * overlap N i / (3 / 2)) [0..<N]"

lemma stft_inv_new:
  assumes "is_power_of_two N" "64 \<le> N" "N = 4 * h"
  shows "\<exists>st. stft_new exact_math N = Some st \<and> stft_inv N x 0 st"
proof -
  have h: "0 < h" using assms(2,3) by simp
  have "N div 2 mod (N div 4) = 0" by (simp add: assms(3))
  then obtain st where st: "stft_new exact_math N = Some st" "st_win st = map (hann exact_math N) [0..<N]" "st_norm st = 3 / 2"
    "st_inbuf st = replicate N 0" "st_ola st = replicate N 0"
    using assms(1,2) stft_norm [OF assms(3) h] by (simp add: stft_new_def Let_def)
  have "stft_ok N st" using stft_new_total [OF assms(1,2), of exact_math] st(1) by auto
  moreover have "replicate N 0 = map (\<lambda>i. padded x N (0 * (N div 4) + i)) [0..<N]"
    "replicate N 0 = map (\<lambda>i. padded x N (0 * (N div 4) + i) * overlap N i / (3 / 2)) [0..<N]"
    by (auto intro!: nth_equalityI simp: padded_def)
  ultimately show ?thesis using st unfolding stft_inv_def by (intro exI [of _ st] conjI) simp_all
qed

text \<open>A hop whose closure leaves the spectrum alone transforms the windowed frame there and back.\<close>

lemma process_hop_identity:
  assumes N: "N = 4 * h" "N = 2 * 2 ^ m" "6 \<le> m + 1" "m \<le> 10" and st: "stft_inv N x t st"
    and keep: "\<And>z. spectrum c z = Some (z, c)" and out: "length out = h"
  shows "\<exists>st'. stft_process_hop exact_math N spectrum c st (map (\<lambda>r. x (t * h + r)) [0..<h]) out =
      Some (map (\<lambda>r. padded x N (Suc t * h + r)) [0..<h], c, st') \<and> stft_inv N x (Suc t) st'"
proof -
  let ?l = "2 ^ m :: nat" and ?in = "map (\<lambda>r. x (t * h + r)) [0..<h]"
  have h0: "0 < h" using N(1,2) by (cases h) simp_all
  then have hop: "N div 4 = h" "N div 2 = ?l" "?l \<le> N" "?l + 1 \<le> N" "h \<le> N" using N by simp_all
  have ok: "stft_ok N st" and win: "st_win st = map (hann exact_math N) [0..<N]" and norm: "st_norm st = 3 / 2"
    and inb: "st_inbuf st = map (\<lambda>i. padded x N (t * h + i)) [0..<N]"
    and ol: "st_ola st = map (\<lambda>i. padded x N (t * h + i) * overlap N i / (3 / 2)) [0..<N]"
    using st by (simp_all add: stft_inv_def hop)
  note lens = ok [unfolded stft_ok_def hop]
  define inbuf where "inbuf = map (\<lambda>i. padded x N (Suc t * h + i)) [0..<N]"
  have inbuf: "drop h (st_inbuf st) @ ?in = inbuf"
    unfolding inb inbuf_def padded_def
    by (rule nth_equalityI) (auto simp: N(1) nth_append add.commute add.left_commute intro!: arg_cong [where f = x])
  have sl: "slide N h (st_inbuf st) ?in = Some inbuf"
    using slide_Some [of "st_inbuf st" N ?in h] lens hop(5) by (simp add: inbuf)
  define frame where "frame = map2 (fl_mul exact) inbuf (st_win st)"
  have fr: "length frame = 2 * ?l" using lens by (simp add: frame_def inbuf_def N(2))
  obtain sre sim z where f: "real_forward exact (take ?l (st_sre st), take ?l (st_sim st)) frame
      (take (?l + 1) (st_spec_re st), take (?l + 1) (st_spec_im st)) (2 * ?l) = Some ((sre, sim), z)"
    "length sre = ?l" "length sim = ?l" "length (fst z) = ?l + 1" "length (snd z) = ?l + 1"
    "\<forall>k \<le> ?l. cx z k = dft (2 * ?l) (\<lambda>t. of_real (frame ! t)) k"
    using real_forward_ok [OF N(4), of "(take ?l (st_sre st), take ?l (st_sim st))" frame "(take (?l + 1) (st_spec_re st), take (?l + 1) (st_spec_im st))"]
      lens hop fr by auto
  obtain re im where z: "z = (re, im)" by (cases z)
  obtain sre' sim' where i: "real_inverse exact (sre, sim) (re, im) frame (2 * ?l) = Some ((sre', sim'), frame)"
    "length sre' = ?l" "length sim' = ?l"
    using real_inverse_ok [OF N(4), of "(sre, sim)" z frame frame] f fr z by auto
  define ola where "ola = drop h (st_ola st) @ replicate h (fl_nat exact 0)"
  define ola' where "ola' = map (\<lambda>(o', y, w). fl_add exact o' (fl_mul exact (fl_mul exact y w) (fl_div exact (fl_nat exact 1) (st_norm st))))
    (zip ola (zip frame (st_win st)))"
  have lo: "length ola = N" using lens hop(5) by (simp add: ola_def)
  have ola': "ola' = map (\<lambda>i. padded x N (Suc t * h + i) * overlap N i / (3 / 2)) [0..<N]"
  proof (rule nth_equalityI)
    fix i assume "i < length ola'"
    then have i: "i < N" using lo lens fr N(2) by (simp add: ola'_def)
    have "ola ! i = (if i + h < N then padded x N (Suc t * h + i) * overlap N (i + h) / (3 / 2) else 0)"
      using i lens by (auto simp: ola_def ol nth_append algebra_simps)
    moreover have "frame ! i = padded x N (Suc t * h + i) * hann exact_math N i"
      using i lens by (simp add: frame_def inbuf_def win)
    ultimately have "ola' ! i = padded x N (Suc t * h + i) * overlap N i / (3 / 2)"
      using i lo lens fr N(2) overlap_step [OF N(1) h0 i] by (simp add: ola'_def win norm power2_eq_square algebra_simps add_divide_distrib)
    then show "ola' ! i = map (\<lambda>i. padded x N (Suc t * h + i) * overlap N i / (3 / 2)) [0..<N] ! i" using i by simp
  qed (use lo lens fr N(2) in \<open>simp add: ola'_def\<close>)
  have "take h ola' = map (\<lambda>r. padded x N (Suc t * h + r)) [0..<h]"
    unfolding ola' using hop(5) overlap_full [OF N(1)] by (intro nth_equalityI) simp_all
  note head = this
  have news: "RealFft_new (take ?l (st_sre st)) (take ?l (st_sim st)) = Some (take ?l (st_sre st), take ?l (st_sim st))"
    "RealFft_new sre sim = Some (sre, sim)"
    using lens hop f by (simp_all add: RealFft_new_def)
  have fwd: "RealFft_forward exact (take ?l (st_sre st), take ?l (st_sim st)) frame (take (?l + 1) (st_spec_re st), take (?l + 1) (st_spec_im st)) =
      Some ((sre, sim), re, im)"
    using f(1) lens hop(3) by (simp add: RealFft_forward_def RealFft_n_def z mult.commute [of ?l 2])
  have inverse: "RealFft_inverse exact (sre, sim) (re, im) frame = Some ((sre', sim'), frame)"
    using i(1) f(2) by (simp add: RealFft_inverse_def RealFft_n_def mult.commute [of ?l 2])
  have "slide N h (st_ola st) (replicate h (fl_nat exact 0)) = Some ola" using lens hop by (simp add: slide_Some ola_def)
  moreover have "st_hop st = h" using lens by simp
  ultimately have "stft_process_hop exact_math N spectrum c st ?in out =
      Some (map (\<lambda>r. padded x N (Suc t * h + r)) [0..<h], c, st\<lparr>st_inbuf := inbuf, st_frame := frame, st_ola := ola',
        st_spec_re := re @ drop (?l + 1) (st_spec_re st), st_spec_im := im @ drop (?l + 1) (st_spec_im st),
        st_sre := sre' @ drop ?l (st_sre st), st_sim := sim' @ drop ?l (st_sim st)\<rparr>)"
    unfolding stft_process_hop_def Let_def hop
    by (simp add: sl frame_def [symmetric] news fwd keep inverse ola'_def [symmetric] head out del: exact_sel One_nat_def)
  moreover have "stft_inv N x (Suc t) (st\<lparr>st_inbuf := inbuf, st_frame := frame, st_ola := ola',
        st_spec_re := re @ drop (?l + 1) (st_spec_re st), st_spec_im := im @ drop (?l + 1) (st_spec_im st),
        st_sre := sre' @ drop ?l (st_sre st), st_sim := sim' @ drop ?l (st_sim st)\<rparr>)"
    unfolding stft_inv_def stft_ok_def hop using lens win norm fr f(2-5) i(2,3) z hop N(2) by (simp add: inbuf_def ola')
  ultimately show ?thesis by blast
qed

lemma run_hops_delay:
  assumes step: "\<And>t s. I t s \<Longrightarrow> \<exists>s'. f s (map (\<lambda>r. x (t * h + r)) [0..<h]) = Some (map (\<lambda>r. y (t * h + r)) [0..<h], s') \<and> I (Suc t) s'"
  shows "I t s \<Longrightarrow> \<exists>s'. run_steps f s (map (\<lambda>j. map (\<lambda>r. x (j * h + r)) [0..<h]) [t..<t + n]) =
    Some (map (\<lambda>j. map (\<lambda>r. y (j * h + r)) [0..<h]) [t..<t + n], s') \<and> I (t + n) s'"
proof (induction n arbitrary: t s)
  case (Suc n)
  have u: "[t..<t + Suc n] = t # [Suc t..<Suc t + n]" by (simp add: upt_conv_Cons)
  obtain s1 where "f s (map (\<lambda>r. x (t * h + r)) [0..<h]) = Some (map (\<lambda>r. y (t * h + r)) [0..<h], s1)" "I (Suc t) s1"
    using step [OF Suc.prems] by blast
  with Suc.IH [OF this(2)] show ?case unfolding u by auto
qed simp

lemma blocks_of:
  assumes "\<forall>b\<in>set bs. length b = h"
  shows "bs = map (\<lambda>j. map (\<lambda>r. concat bs ! (j * h + r)) [0..<h]) [0..<length bs]"
  using assms by (intro nth_equalityI) (auto simp: concat_nth_block intro!: nth_equalityI)

lemma frame_size:
  assumes "is_power_of_two N" "64 \<le> N" "N \<le> 4096"
  obtains m h where "N = 2 * 2 ^ m" "N = 4 * h" "6 \<le> m + 1" "m \<le> 11" "N \<le> 2048 \<Longrightarrow> m \<le> 10" "0 < h"
proof -
  obtain n where n: "N = 2 ^ n" using assms(1) unfolding is_power_of_two_iff by blast
  have "6 \<le> n" by (rule power_le_imp_le_exp [of "2::nat"]) (use assms(2) n in simp_all)
  moreover have "n \<le> 12" by (rule power_le_imp_le_exp [of "2::nat"]) (use assms(3) n in simp_all)
  moreover have "n \<le> 11" if "N \<le> 2048" by (rule power_le_imp_le_exp [of "2::nat"]) (use that n in simp_all)
  ultimately obtain m where m: "n = Suc (Suc m)" "4 \<le> m" "m \<le> 10" "N \<le> 2048 \<Longrightarrow> m \<le> 9"
    by (cases n; cases "n - 1") auto
  show thesis by (rule that [of "Suc m" "2 ^ m"]) (use n m in simp_all)
qed

text \<open>C18: the short-time transform reconstructs. In exact arithmetic, for every frame size from 64 to 2048 that is a power of
  two, hops of a quarter frame whose spectrum is left alone come back as they were, late by the latency the
  code states, three quarters of a frame; and the spectral freeze that is not held is that same delay.\<close>

theorem stft_reconstructs:
  assumes "is_power_of_two N" "64 \<le> N" "N \<le> 2048" "\<forall>x\<in>set hops. length x = stft_hop N"
  shows "\<exists>st ys st'. stft_new exact_math N = Some st \<and>
      run_steps (\<lambda>st x. map_option (\<lambda>(y, _, st). (y, st)) (stft_process_hop exact_math N left_alone () st x x)) st hops = Some (ys, st') \<and>
      concat ys = map (\<lambda>i. if i < stft_latency N then 0 else concat hops ! (i - stft_latency N)) [0..<length (concat hops)] \<and>
    (\<exists>sz sz'. freeze_new exact_math N = Some sz \<and>
      run_steps (\<lambda>sz x. freeze_process_hop exact_math N sz x x) sz hops = Some (ys, sz'))"
proof -
  have "N \<le> 4096" using assms(3) by simp
  from frame_size [OF assms(1,2) this] obtain m h where size: "N = 2 * 2 ^ m" "N = 4 * h" "6 \<le> m + 1" "N \<le> 2048 \<Longrightarrow> m \<le> 10" "0 < h"
    by metis
  then have N: "N = 2 * 2 ^ m" "N = 4 * h" "6 \<le> m + 1" "m \<le> 10" "0 < h" using assms(3) by simp_all
  have hop: "stft_hop N = h" "stft_latency N = 3 * h" by (simp_all add: stft_hop_def stft_latency_def N(2))
  define x where "x = (\<lambda>i. concat hops ! i)"
  define y where "y = (\<lambda>i. if i < 3 * h then 0 else x (i - 3 * h))"
  have late: "padded x N (Suc t * h + r) = y (t * h + r)" for t r
    unfolding padded_def by (auto simp: y_def N(2) intro!: arg_cong [where f = x])
  have hops: "hops = map (\<lambda>j. map (\<lambda>r. x (j * h + r)) [0..<h]) [0..<0 + length hops]"
    using blocks_of [of hops h] assms(4) by (simp add: hop x_def)
  obtain st where st: "stft_new exact_math N = Some st" "stft_inv N x 0 st" using stft_inv_new [OF assms(1,2) N(2)] by blast
  define f where "f = (\<lambda>(st :: real stft) x. map_option (\<lambda>(y, _, st). (y, st)) (stft_process_hop exact_math N left_alone () st x x))"
  have fstep: "\<exists>st'. f st (map (\<lambda>r. x (t * h + r)) [0..<h]) = Some (map (\<lambda>r. y (t * h + r)) [0..<h], st') \<and> stft_inv N x (Suc t) st'"
    if "stft_inv N x t st" for t st
    using process_hop_identity [OF N(2,1,3,4) that, of left_alone "()" "map (\<lambda>r. x (t * h + r)) [0..<h]"]
    by (auto simp: f_def left_alone_def late [simplified])
  obtain st' where run: "run_steps f st hops = Some (map (\<lambda>j. map (\<lambda>r. y (j * h + r)) [0..<h]) [0..<length hops], st')"
    using run_hops_delay [where I = "stft_inv N x" and f = f, OF fstep st(2), where n = "length hops"] hops by auto
  have "concat (map (\<lambda>j. map (\<lambda>r. y (j * h + r)) [0..<h]) [0..<length hops]) = map y [0..<length hops * h]"
    by (rule concat_map_upt)
  also have "length hops * h = length (concat hops)" using length_concat_blocks [of hops h] assms(4) by (simp add: hop)
  finally have out: "concat (map (\<lambda>j. map (\<lambda>r. y (j * h + r)) [0..<h]) [0..<length hops]) = map y [0..<length (concat hops)]" .
  define I where "I = (\<lambda>t (sz :: real spectral_freeze). stft_inv N x t (sz_stft sz) \<and> \<not> sz_frozen sz)"
  have gstep: "\<exists>sz'. freeze_process_hop exact_math N sz (map (\<lambda>r. x (t * h + r)) [0..<h]) (map (\<lambda>r. x (t * h + r)) [0..<h]) =
      Some (map (\<lambda>r. y (t * h + r)) [0..<h], sz') \<and> I (Suc t) sz'" if "I t sz" for t sz
    using process_hop_identity [OF N(2,1,3,4), of x t "sz_stft sz" "freeze_spectrum exact_math N (sz_frozen sz)"
        "(sz_captured sz, sz_mag sz, sz_phase sz)" "map (\<lambda>r. x (t * h + r)) [0..<h]"] that
    by (force simp: I_def freeze_process_hop_def freeze_spectrum_def late [simplified])
  obtain sz where sz: "freeze_new exact_math N = Some sz" "I 0 sz"
    using st by (simp add: freeze_new_def I_def Let_def)
  obtain sz' where "run_steps (\<lambda>sz x. freeze_process_hop exact_math N sz x x) sz hops =
      Some (map (\<lambda>j. map (\<lambda>r. y (j * h + r)) [0..<h]) [0..<length hops], sz')"
    using run_hops_delay [where I = I and f = "\<lambda>sz x. freeze_process_hop exact_math N sz x x", OF gstep sz(2), where n = "length hops"] hops by auto
  then show ?thesis using st(1) run out sz(1) unfolding f_def hop y_def x_def by blast
qed

theorem stft_reconstructs_witness:
  "\<exists>st ys st'. stft_new exact_math 64 = Some st \<and>
    run_steps (\<lambda>st x. map_option (\<lambda>(y, _, st). (y, st)) (stft_process_hop exact_math 64 left_alone () st x x)) st
      (replicate 4 (replicate 16 5)) = Some (ys, st') \<and> concat ys ! 47 = 0 \<and> concat ys ! 48 = 5"
proof -
  have "is_power_of_two 64" using is_power_of_two_pow [of 6] by simp
  moreover have "\<forall>x\<in>set (replicate 4 (replicate 16 (5 :: real))). length x = stft_hop 64" by (simp add: stft_hop_def)
  ultimately obtain st ys st' where "stft_new exact_math 64 = Some st"
    "run_steps (\<lambda>st x. map_option (\<lambda>(y, _, st). (y, st)) (stft_process_hop exact_math 64 left_alone () st x x)) st
      (replicate 4 (replicate 16 5)) = Some (ys, st')"
    "concat ys = map (\<lambda>i. if i < stft_latency 64 then 0 else concat (replicate 4 (replicate 16 5)) ! (i - stft_latency 64))
      [0..<length (concat (replicate 4 (replicate 16 (5 :: real))))]"
    using stft_reconstructs [of 64 "replicate 4 (replicate 16 5)"] by auto
  moreover have "concat (replicate 4 (replicate 16 5)) ! 0 = (5 :: real)" by (simp add: numeral_eq_Suc)
  moreover have "length (concat (replicate 4 (replicate 16 (5 :: real)))) = 64" by (simp add: length_concat sum_list_replicate)
  ultimately show ?thesis by (auto simp: stft_latency_def)
qed

text \<open>No hop of the spectral effects panics. Over any arithmetic, rounding and infinities included, and any table of
  the size the build script emits, for every frame size of at least 64 the transform serves: the freeze, held or not,
  and the vocoder, at any ratio, can be built, and take any number of hops, each giving a hop of samples.\<close>

theorem spectral_effects_total:
  assumes "length (TW_COS (fm M)) = TW_MASTER" "length (TW_SIN (fm M)) = TW_MASTER"
    and "is_power_of_two N" "64 \<le> N" "N \<le> 4096"
    and "\<forall>x\<in>set hops. length x = N div 4"
  shows "(\<exists>sz ys sz'. freeze_new M N = Some sz \<and>
      run_steps (\<lambda>sz x. freeze_process_hop M N sz x x) (set_frozen frozen sz) hops = Some (ys, sz') \<and>
      map length ys = replicate (length hops) (N div 4)) \<and>
    (\<exists>ps ys ps'. shifter_new M N ratio = Some ps \<and>
      run_steps (\<lambda>ps x. shifter_process_hop M N ps x x) ps hops = Some (ys, ps') \<and>
      map length ys = replicate (length hops) (N div 4))"
proof -
  have F: "tables_ok (fm M)" using assms(1,2) by (simp add: tables_ok_def)
  obtain m h where N: "N = 2 * 2 ^ m" "6 \<le> m + 1" "m \<le> 11" by (rule frame_size [OF assms(3-5)])
  have half: "N div 2 + 1 \<le> N" using assms(4) by simp
  obtain st where st: "stft_new M N = Some st" "stft_ok N st" using stft_new_total [OF assms(3,4)] by blast
  define fok :: "'a spectral_freeze \<Rightarrow> bool"
    where "fok = (\<lambda>sz. stft_ok N (sz_stft sz) \<and> freeze_ok N (sz_captured sz, sz_mag sz, sz_phase sz))"
  have fstep: "\<exists>y sz'. freeze_process_hop M N sz x x = Some (y, sz') \<and> length y = N div 4 \<and> fok sz'"
    if "fok sz" "length x = N div 4" for sz x
    using freeze_client.process_hop_total [OF F N _ _ that(2,2), of "(sz_captured sz, sz_mag sz, sz_phase sz)" "sz_stft sz" M "sz_frozen sz"] that(1) half
    by (force simp: freeze_process_hop_def fok_def)
  define vok :: "'a pitch_shifter \<Rightarrow> bool" where "vok = (\<lambda>ps. stft_ok N (ps_stft ps) \<and> vocoder_ok N (ps_vocoder ps))"
  have vstep: "\<exists>y ps'. shifter_process_hop M N ps x x = Some (y, ps') \<and> length y = N div 4 \<and> vok ps'"
    if "vok ps" "length x = N div 4" for ps x
    using vocoder_client.process_hop_total [OF F N _ _ that(2,2), of "ps_vocoder ps" "ps_stft ps" M "ps_ratio ps"] that(1) half
    by (force simp: shifter_process_hop_def vok_def)
  obtain sz where sz: "freeze_new M N = Some sz" "fok (set_frozen frozen sz)"
    using st by (simp add: freeze_new_def fok_def freeze_ok_def set_frozen_def Let_def)
  obtain ps where ps: "shifter_new M N ratio = Some ps" "vok ps"
    using st by (simp add: shifter_new_def vok_def vocoder_ok_def Let_def)
  show ?thesis
    using sz(1) ps(1) run_hops_total [where f = "\<lambda>sz x. freeze_process_hop M N sz x x" and ok = fok, OF fstep sz(2) assms(6)]
      run_hops_total [where f = "\<lambda>ps x. shifter_process_hop M N ps x x" and ok = vok, OF vstep ps(2) assms(6)] by blast
qed

theorem spectral_effects_total_witness:
  "\<exists>sz ys sz'. freeze_new exact_math 64 = Some sz \<and>
    run_steps (\<lambda>sz x. freeze_process_hop exact_math 64 sz x x) (set_frozen True sz) [replicate 16 1, replicate 16 2] = Some (ys, sz') \<and>
    map length ys = [16, 16]"
proof -
  have "length (TW_COS (fm exact_math)) = TW_MASTER" "length (TW_SIN (fm exact_math)) = TW_MASTER"
    by (simp_all add: exact_def)
  moreover have "is_power_of_two 64" using is_power_of_two_pow [of 6] by simp
  moreover have "\<forall>x\<in>set [replicate 16 1, replicate 16 (2 :: real)]. length x = 64 div 4" by simp
  ultimately show ?thesis
    using spectral_effects_total [of exact_math 64 "[replicate 16 1, replicate 16 2]" True 1] by auto
qed

end
