(* ===== verification/Noise.thy ===== *)
theory Noise
  imports Fft_Exact
begin

text \<open>
  \<open>crates/daisy-dsp/src/noise.rs\<close>: the xorshift generator of the granular and noise effects. One
  step is a linear map of the 32 bits; its powers are computed in the field of polynomials modulo
  its characteristic polynomial, and the order of the map is \<open>2 ^ 32 - 1\<close>: from any seed the generator
  runs through every nonzero word before it repeats.
\<close>

section \<open>The generator\<close>

record prng =
  p_state :: "32 word"

definition prng_new :: "32 word \<Rightarrow> prng" where
  "prng_new seed = \<lparr>p_state = if seed = 0 then 0x9E3779B9 else seed\<rparr>"

definition next_u32 :: "prng \<Rightarrow> 32 word \<times> prng" where
  "next_u32 p =
     (let x = p_state p;
          x = x XOR push_bit 13 x;
          x = x XOR drop_bit 17 x;
          x = x XOR push_bit 5 x in
      (x, p\<lparr>p_state := x\<rparr>))"

definition next_f32 :: "'f flops \<Rightarrow> prng \<Rightarrow> 'f \<times> prng" where
  "next_f32 F p =
     (let (w, p) = next_u32 p; bits24 = drop_bit 8 w in
      (fl_sub F (fl_mul F (fl_nat F (unat bits24)) (fl_div F (fl_nat F 2) (fl_nat F 16777216))) (fl_nat F 1), p))"

text \<open>\<open>fill\<close>: the slice is overwritten sample by sample.\<close>

fun prng_fill :: "'f flops \<Rightarrow> 'f list \<Rightarrow> prng \<Rightarrow> 'f list \<times> prng" where
  "prng_fill F [] p = ([], p)"
| "prng_fill F (_ # out) p =
     (let (y, p) = next_f32 F p; (ys, p) = prng_fill F out p in (y # ys, p))"

section \<open>One step as a linear map\<close>

definition xorshift :: "32 word \<Rightarrow> 32 word" where
  "xorshift x =
     (let x = x XOR push_bit 13 x; x = x XOR drop_bit 17 x in x XOR push_bit 5 x)"

lemma next_u32_xorshift: "next_u32 p = (xorshift (p_state p), p\<lparr>p_state := xorshift (p_state p)\<rparr>)"
  by (simp add: next_u32_def xorshift_def Let_def)

lemma xorshift_xor: "xorshift (a XOR b) = xorshift a XOR xorshift b"
  by (simp add: xorshift_def Let_def push_bit_xor drop_bit_xor ac_simps)

lemma xorshift_0 [simp]: "xorshift 0 = 0"
  by (simp add: xorshift_def)

abbreviation xs_pow :: "nat \<Rightarrow> 32 word \<Rightarrow> 32 word" where
  "xs_pow n \<equiv> xorshift ^^ n"

lemma xs_pow_0 [simp]: "xs_pow n 0 = 0"
  by (induction n) simp_all

lemma xs_pow_xor: "xs_pow n (a XOR b) = xs_pow n a XOR xs_pow n b"
  by (induction n) (simp_all add: xorshift_xor)

text \<open>The same step on the integer value, for evaluation.\<close>

definition shl13_int :: "int \<Rightarrow> int" where "shl13_int x = x XOR (x * 8192) mod 4294967296"
definition shr17_int :: "int \<Rightarrow> int" where "shr17_int x = x XOR x div 131072"
definition shl5_int :: "int \<Rightarrow> int" where "shl5_int x = x XOR (x * 32) mod 4294967296"

definition xorshift_int :: "int \<Rightarrow> int" where
  "xorshift_int x = shl5_int (shr17_int (shl13_int x))"

lemma uint_xorshift: "uint (xorshift w) = xorshift_int (uint w)"
proof -
  have l: "uint (push_bit k v) = (uint v * 2 ^ k) mod 4294967296" for k and v :: "32 word"
    unfolding unsigned_push_bit_eq by (simp add: push_bit_eq_mult take_bit_eq_mod)
  have r: "uint (drop_bit k v) = uint v div 2 ^ k" for k and v :: "32 word"
    unfolding unsigned_drop_bit_eq by (simp add: drop_bit_eq_div bintr_uint)
  have steps: "uint (push_bit 13 v) = (uint v * 8192) mod 4294967296" "uint (drop_bit 17 v) = uint v div 131072"
    "uint (push_bit 5 v) = (uint v * 32) mod 4294967296" for v :: "32 word"
    using l [of 13 v] r [of 17 v] l [of 5 v] by simp_all
  show ?thesis
    by (simp only: xorshift_def xorshift_int_def shl13_int_def shr17_int_def shl5_int_def Let_def uint_xor steps)
qed

lemma xor_eq_0: "a XOR b = 0 \<Longrightarrow> a = b" for a b :: "32 word"
proof -
  assume "a XOR b = 0"
  then have "(a XOR b) XOR b = 0 XOR b" by simp
  then show "a = b" by (simp add: xor.assoc)
qed

section \<open>Polynomials in the step\<close>

text \<open>\<open>act n q v\<close> applies the polynomial whose coefficients are the low \<open>n\<close> bits of \<open>q\<close>.\<close>

fun act :: "nat \<Rightarrow> int \<Rightarrow> 32 word \<Rightarrow> 32 word" where
  "act 0 q v = 0"
| "act (Suc n) q v = (if odd q then v else 0) XOR xorshift (act n (q div 2) v)"

lemma int_xor_halves: "odd (q XOR r) \<longleftrightarrow> odd q \<noteq> odd r" "(q XOR r) div 2 = q div 2 XOR r div 2" for q r :: int
  using drop_bit_xor [of 1 q r] by (auto simp: even_xor_iff drop_bit_eq_div)

lemma act_0 [simp]: "act n 0 v = 0" "act n q 0 = 0"
  by (induction n arbitrary: q) simp_all

lemma act_1: "act (Suc n) 1 v = v"
  by simp

lemma act_xor: "act n (q XOR r) v = act n q v XOR act n r v"
  by (induction n arbitrary: q r) (auto simp: int_xor_halves xorshift_xor ac_simps)

lemma act_xor_word: "act n q (v XOR w) = act n q v XOR act n q w"
  by (induction n arbitrary: q) (auto simp: xorshift_xor ac_simps)

lemma act_xorshift: "act n q (xorshift v) = xorshift (act n q v)"
  by (induction n arbitrary: q) (auto simp: xorshift_xor)

lemma act_pow: "act n q (xs_pow m v) = xs_pow m (act n q v)"
  by (induction m) (simp_all add: act_xorshift)

lemma act_Suc: "0 \<le> q \<Longrightarrow> q < 2 ^ n \<Longrightarrow> act (Suc n) q v = act n q v"
proof (induction n arbitrary: q)
  case (Suc n)
  have "act (Suc (Suc n)) q v = (if odd q then v else 0) XOR xorshift (act (Suc n) (q div 2) v)" by (rule act.simps(2))
  also have "act (Suc n) (q div 2) v = act n (q div 2) v" using Suc.prems by (intro Suc.IH) simp_all
  finally show ?case by simp
next
  case 0
  then have "q = 0" by simp
  then show ?case by simp
qed

lemma act_top: "0 \<le> q \<Longrightarrow> q < 2 ^ n \<Longrightarrow> act (Suc n) (2 ^ n + q) v = xs_pow n v XOR act n q v"
proof (induction n arbitrary: q)
  case (Suc n)
  have "act (Suc (Suc n)) (2 ^ Suc n + q) v =
      (if odd q then v else 0) XOR xorshift (act (Suc n) (2 ^ n + q div 2) v)"
    by (subst act.simps(2)) simp
  also have "act (Suc n) (2 ^ n + q div 2) v = xs_pow n v XOR act n (q div 2) v"
    using Suc.prems by (intro Suc.IH) simp_all
  finally show ?case by (simp add: xorshift_xor ac_simps)
next
  case 0
  then have "q = 0" by simp
  then show ?case by simp
qed

text \<open>The characteristic polynomial, checked on the 32 unit vectors.\<close>

definition char_low :: int where
  "char_low = 0x3EC241"

fun act_int :: "nat \<Rightarrow> int \<Rightarrow> int \<Rightarrow> int" where
  "act_int 0 q v = 0"
| "act_int (Suc n) q v = (if odd q then v else 0) XOR xorshift_int (act_int n (q div 2) v)"

lemma uint_act: "uint (act n q v) = act_int n q (uint v)"
  by (induction n arbitrary: q) (simp_all add: uint_xor uint_xorshift Let_def)

fun iterate_int :: "nat \<Rightarrow> int \<Rightarrow> int" where
  "iterate_int 0 v = v"
| "iterate_int (Suc n) v = iterate_int n (xorshift_int v)"

lemma uint_xs_pow: "uint (xs_pow n v) = iterate_int n (uint v)"
  by (induction n arbitrary: v) (simp_all add: funpow_swap1 uint_xorshift [symmetric])

fun char_upto :: "nat \<Rightarrow> int \<Rightarrow> bool" where
  "char_upto 0 v \<longleftrightarrow> True"
| "char_upto (Suc n) v \<longleftrightarrow> iterate_int 32 v = act_int 32 char_low v \<and> char_upto n (v * 2)"

lemma char_upto_nth: "char_upto n v \<Longrightarrow> j < n \<Longrightarrow> iterate_int 32 (v * 2 ^ j) = act_int 32 char_low (v * 2 ^ j)"
proof (induction n arbitrary: v j)
  case (Suc n)
  show ?case
  proof (cases j)
    case (Suc i)
    have "v * 2 ^ j = v * 2 * 2 ^ i" by (simp add: Suc)
    then show ?thesis using Suc.IH [of "v * 2" i] Suc.prems Suc by (simp only: char_upto.simps)
  qed (use Suc.prems in simp)
qed simp

lemma char_units: "char_upto 32 1"
  by code_simp

lemma linear_on_units:
  fixes f :: "32 word \<Rightarrow> 32 word"
  assumes lin: "\<And>a b. f (a XOR b) = f a XOR f b" and units: "\<And>j. j < 32 \<Longrightarrow> f (push_bit j 1) = 0"
  shows "f v = 0"
proof -
  have "f 0 XOR f 0 = f 0" using lin [of 0 0] by simp
  then have f0: "f 0 = 0" by simp
  have "n \<le> 32 \<Longrightarrow> f (take_bit n v) = 0" for n
  proof (induction n)
    case (Suc n)
    have "take_bit (Suc n) v = take_bit n v XOR (if bit v n then push_bit n 1 else 0)"
      by (rule bit_word_eqI) (auto simp: bit_simps less_Suc_eq)
    then show ?case using Suc units [of n] by (simp add: lin f0)
  qed (simp add: f0)
  from this [of 32] show ?thesis using take_bit_length_eq [of v] by simp
qed

lemma char_poly: "xs_pow 32 v = act 32 char_low v"
proof -
  have "xs_pow 32 v XOR act 32 char_low v = 0"
  proof (rule linear_on_units [where f = "\<lambda>v. xs_pow 32 v XOR act 32 char_low v"])
    fix j :: nat assume j: "j < 32"
    then have "iterate_int 32 (2 ^ j) = act_int 32 char_low (2 ^ j)"
      using char_upto_nth [OF char_units] by simp
    moreover have "uint (push_bit j 1 :: 32 word) = 2 ^ j"
      unfolding unsigned_push_bit_eq by (subst take_bit_int_eq_self) (use j in \<open>simp_all add: push_bit_eq_mult power_strict_increasing [of j 32 "2::int", simplified]\<close>)
    ultimately have "xs_pow 32 (push_bit j 1) = act 32 char_low (push_bit j 1)"
      by (simp only: word_uint_eq_iff uint_xs_pow uint_act)
    then show "xs_pow 32 (push_bit j 1) XOR act 32 char_low (push_bit j 1) = 0" by simp
  qed (simp add: xs_pow_xor act_xor_word ac_simps)
  then show ?thesis by (rule xor_eq_0)
qed

section \<open>Arithmetic modulo the characteristic polynomial\<close>

definition mul_x :: "int \<Rightarrow> int" where
  "mul_x q = (let y = q * 2 in if y < 4294967296 then y else (y - 4294967296) XOR char_low)"

fun mul_poly :: "nat \<Rightarrow> int \<Rightarrow> int \<Rightarrow> int" where
  "mul_poly 0 a b = 0"
| "mul_poly (Suc n) a b = (if odd a then b else 0) XOR mul_x (mul_poly n (a div 2) b)"

definition reduced :: "int \<Rightarrow> bool" where
  "reduced q \<longleftrightarrow> 0 \<le> q \<and> q < 2 ^ 32"

lemma reduced_xor: "reduced a \<Longrightarrow> reduced b \<Longrightarrow> reduced (a XOR b)"
  unfolding reduced_def using XOR_lower XOR_upper by blast

lemma reduced_0 [simp]: "reduced 0" and reduced_char: "reduced char_low"
  by (simp_all add: reduced_def char_low_def)

lemma mul_x:
  assumes "reduced q"
  shows "reduced (mul_x q)" "act 32 (mul_x q) v = xorshift (act 32 q v)"
proof -
  have q: "0 \<le> q" "q < 2 ^ 32" using assms by (simp_all add: reduced_def)
  have dbl: "act (Suc 32) (q * 2) v = xorshift (act 32 q v)" by (subst act.simps(2)) simp
  have "reduced (mul_x q) \<and> act 32 (mul_x q) v = xorshift (act 32 q v)"
  proof (cases "q * 2 < 4294967296")
    case True
    then have lt: "0 \<le> q * 2" "q * 2 < 2 ^ 32" using q by simp_all
    from act_Suc [OF lt, of v] show ?thesis using True lt dbl by (simp add: mul_x_def Let_def reduced_def del: act.simps)
  next
    case False
    define z where "z = q * 2 - 4294967296"
    have z: "0 \<le> z" "z < 2 ^ 32" using False q by (simp_all add: z_def)
    have e: "q * 2 = 2 ^ 32 + z" by (simp add: z_def)
    have "mul_x q = z XOR char_low" using False by (simp add: mul_x_def Let_def z_def)
    moreover have "act (Suc 32) (q * 2) v = xs_pow 32 v XOR act 32 z v"
      unfolding e by (rule act_top [OF z])
    moreover have "reduced (z XOR char_low)" using z by (intro reduced_xor reduced_char) (simp add: reduced_def)
    ultimately show ?thesis using dbl by (simp only: act_xor char_poly) (simp only: xor.commute)
  qed
  then show "reduced (mul_x q)" "act 32 (mul_x q) v = xorshift (act 32 q v)" by simp_all
qed

lemma mul_poly:
  assumes "reduced b"
  shows "reduced (mul_poly n a b)" "act 32 (mul_poly n a b) v = act n a (act 32 b v)"
proof (induction n arbitrary: a)
  case (Suc n)
  {
    case 1
    show ?case using Suc.IH(1) assms by (auto intro!: reduced_xor mul_x(1))
  next
    case 2
    have "act 32 (mul_poly (Suc n) a b) v = act 32 (if odd a then b else 0) v XOR xorshift (act 32 (mul_poly n (a div 2) b) v)"
      by (simp only: mul_poly.simps act_xor mul_x(2) [OF Suc.IH(1)])
    then show ?case unfolding Suc.IH(2) by (cases "odd a") (simp_all only: if_True if_False act.simps(2) act_0 not_False_eq_True not_True_eq_False)
  }
qed simp_all

text \<open>\<open>q\<close> stands for the \<open>m\<close>-th power of the step.\<close>

definition stands :: "int \<Rightarrow> nat \<Rightarrow> bool" where
  "stands q m \<longleftrightarrow> reduced q \<and> (\<forall>v. act 32 q v = xs_pow m v)"

lemma stands_mul: "stands a m \<Longrightarrow> stands b n \<Longrightarrow> stands (mul_poly 32 a b) (m + n)"
  by (simp add: stands_def mul_poly funpow_add)

lemma stands_1: "stands 1 0"
  by (simp add: stands_def reduced_def eval_nat_numeral)

lemma stands_2: "stands 2 1"
  by (simp add: stands_def reduced_def eval_nat_numeral)

fun square_table :: "nat \<Rightarrow> int \<Rightarrow> int list" where
  "square_table 0 q = []"
| "square_table (Suc n) q = q # square_table n (mul_poly 32 q q)"

lemma square_table: "stands q m \<Longrightarrow> i < n \<Longrightarrow> stands (square_table n q ! i) (m * 2 ^ i)"
proof (induction n arbitrary: q m i)
  case (Suc n)
  show ?case
  proof (cases i)
    case (Suc j)
    have "stands (square_table n (mul_poly 32 q q) ! j) ((m + m) * 2 ^ j)"
      using Suc.IH [OF stands_mul [OF Suc.prems(1) Suc.prems(1)]] Suc.prems(2) Suc by simp
    then show ?thesis using Suc by (simp add: mult_2 [symmetric] mult.assoc mult.left_commute)
  qed (use Suc.prems in simp)
qed simp

definition squares :: "int list" where
  "squares = [2, 4, 16, 256, 65536, 4112961, 2573789269, 1025682015, 2405747689, 1307030159, 3391529118, 1525938494,
     1490328289, 2829428954, 4161757618, 2714920527, 2158849658, 884273183, 274208893, 3385840597, 1033474035, 4027944051,
     24948731, 2795503976, 401353665, 288403763, 1381364412, 3559370703, 3883041375, 2868251731, 1915450702, 3880800320, 2]"

lemma squares_table: "square_table 33 2 = squares"
  by code_simp

lemma stands_square: "i < 33 \<Longrightarrow> stands (squares ! i) (2 ^ i)"
  using square_table [OF stands_2, of i 33] by (simp only: squares_table) simp

fun mul_squares :: "nat list \<Rightarrow> int" where
  "mul_squares [] = 1"
| "mul_squares (k # ks) = mul_poly 32 (squares ! k) (mul_squares ks)"

lemma stands_squares: "\<forall>k\<in>set ks. k < 33 \<Longrightarrow> stands (mul_squares ks) (sum_list (map (\<lambda>k. 2 ^ k) ks))"
  by (induction ks) (simp_all add: stands_1 stands_mul stands_square)

section \<open>The order of the step\<close>

definition period :: nat where
  "period = 4294967295"

lemma xorshift_inj: "xorshift v = xorshift w \<Longrightarrow> v = w"
proof -
  assume e: "xorshift v = xorshift w"
  define d where "d = v XOR w"
  have d0: "xorshift d = 0" using e by (simp add: d_def xorshift_xor)
  have "act 32 char_low d = d XOR xorshift (act 31 (char_low div 2) d)"
  proof -
    have "odd char_low" by (simp add: char_low_def)
    then have "act (Suc 31) char_low d = d XOR xorshift (act 31 (char_low div 2) d)" by (simp only: act.simps if_True not_False_eq_True)
    then show ?thesis by (simp only: Suc_numeral semiring_norm)
  qed
  moreover have "xorshift (act 31 (char_low div 2) d) = 0"
    by (simp add: act_xorshift [symmetric] d0)
  moreover have "xs_pow 32 d = xs_pow 31 (xorshift d)"
    using funpow_swap1 [of xorshift 31 d] funpow.simps(2) [of 31 xorshift] by (simp only: Suc_numeral semiring_norm o_apply)
  ultimately have "d = 0" using char_poly [of d] d0 by simp
  then show "v = w" unfolding d_def by (rule xor_eq_0)
qed

lemma xs_pow_inj: "xs_pow n v = xs_pow n w \<Longrightarrow> v = w"
  by (induction n) (auto dest: xorshift_inj)

lemma stands_period: "stands 2 (Suc period)"
proof -
  have "squares ! 32 = 2" by (simp add: squares_def)
  moreover have "2 ^ 32 = Suc period" by (simp add: period_def)
  ultimately show ?thesis using stands_square [of 32] by (simp only: less_numeral_simps num.simps) simp
qed

lemma stands_unique: "stands q m \<Longrightarrow> stands q n \<Longrightarrow> xs_pow m v = xs_pow n v"
  unfolding stands_def by metis

lemma xs_pow_period: "xs_pow period v = v"
proof -
  have "xorshift (xs_pow period v) = xorshift v"
    using stands_unique [OF stands_period stands_2, of v] by simp
  then show ?thesis by (rule xorshift_inj)
qed

text \<open>A power that fixes a nonzero word is excluded by an inverse, for each maximal divisor of the period.\<close>

lemma no_fixpoint:
  assumes "stands q a" "stands r b" "mul_poly 32 s (q XOR r) = 1" "xs_pow a v = xs_pow b v"
  shows "v = 0"
proof -
  have "reduced (q XOR r)" using assms(1,2) by (auto simp: stands_def intro: reduced_xor)
  from mul_poly(2) [OF this, of 32 s v] have "act 32 1 v = act 32 s (act 32 (q XOR r) v)" by (simp only: assms(3))
  also have "act 32 (q XOR r) v = 0" using assms(1,2,4) by (simp add: act_xor stands_def)
  finally show ?thesis using stands_1 by (simp add: stands_def)
qed

lemma inverse_65537: "mul_poly 32 0x68A39009 (mul_squares [16] XOR mul_squares [0]) = 1"
  by code_simp

lemma inverse_257: "mul_poly 32 0xA18F3E18 (mul_squares [24, 8] XOR mul_squares [16, 0]) = 1"
  by code_simp

lemma inverse_17: "mul_poly 32 0x900EC41F (mul_squares [28, 20, 12, 4] XOR mul_squares [24, 16, 8, 0]) = 1"
  by code_simp

lemma inverse_5:
  "mul_poly 32 0x9A1B191C (mul_squares [2, 6, 10, 14, 18, 22, 26, 30] XOR mul_squares [0, 4, 8, 12, 16, 20, 24, 28]) = 1"
  by code_simp

lemma inverse_3:
  "mul_poly 32 1 (mul_squares [1, 3, 5, 7, 9, 11, 13, 15, 17, 19, 21, 23, 25, 27, 29, 31] XOR
    mul_squares [0, 2, 4, 6, 8, 10, 12, 14, 16, 18, 20, 22, 24, 26, 28, 30]) = 1"
  by code_simp

lemma maximal_divisors:
  assumes "p \<in> {3, 5, 17, 257, 65537}" "xs_pow (period div p) v = v"
  shows "v = 0"
proof -
  have shift: "xs_pow a v = xs_pow b v" if "xs_pow m v = v" "a = b + m" for a b m
    using that by (simp add: funpow_add)
  note nf = no_fixpoint [OF stands_squares stands_squares]
  consider "p = 3" | "p = 5" | "p = 17" | "p = 257" | "p = 65537" using assms(1) by auto
  then show ?thesis
  proof cases
    case 1
    then show ?thesis by (intro nf [OF _ _ inverse_3] shift [OF assms(2)]) (simp_all add: period_def)
  next
    case 2
    then show ?thesis by (intro nf [OF _ _ inverse_5] shift [OF assms(2)]) (simp_all add: period_def)
  next
    case 3
    then show ?thesis by (intro nf [OF _ _ inverse_17] shift [OF assms(2)]) (simp_all add: period_def)
  next
    case 4
    then show ?thesis by (intro nf [OF _ _ inverse_257] shift [OF assms(2)]) (simp_all add: period_def)
  next
    case 5
    then show ?thesis by (intro nf [OF _ _ inverse_65537] shift [OF assms(2)]) (simp_all add: period_def)
  qed
qed

lemma xs_pow_mult: "xs_pow a v = v \<Longrightarrow> xs_pow (a * n) v = v"
  by (induction n) (simp_all add: funpow_add)

lemma xs_pow_gcd:
  assumes "xs_pow a v = v" "xs_pow b v = v" "a \<noteq> 0"
  shows "xs_pow (gcd a b) v = v"
proof -
  obtain x y where "a * x = b * y + gcd a b" using bezout_nat [OF assms(3)] by blast
  then have "xs_pow (gcd a b) (xs_pow (b * y) v) = xs_pow (a * x) v"
    by (simp only: add.commute [of "b * y"] funpow_add o_apply)
  then show ?thesis using xs_pow_mult assms by simp
qed

text \<open>3, 5, 17, 257 and 65537 are prime, by trial division.\<close>

fun no_divisor :: "int \<Rightarrow> nat \<Rightarrow> int \<Rightarrow> bool" where
  "no_divisor p 0 d \<longleftrightarrow> True"
| "no_divisor p (Suc n) d \<longleftrightarrow> p mod d \<noteq> 0 \<and> no_divisor p n (d + 1)"

lemma no_divisor: "no_divisor p n d \<Longrightarrow> d \<le> e \<Longrightarrow> e < d + int n \<Longrightarrow> \<not> e dvd p"
proof (induction n arbitrary: d)
  case (Suc n)
  then show ?case by (cases "d = e") (auto simp: dvd_eq_mod_eq_0)
qed simp

lemma trial_division: "no_divisor 3 1 2" "no_divisor 5 2 2" "no_divisor 17 4 2" "no_divisor 257 16 2" "no_divisor 65537 256 2"
  by code_simp+

lemma divisors_trivial:
  fixes d p :: nat
  assumes "no_divisor (int p) n 2" "p < (n + 2) * (n + 2)" "0 < p" "d dvd p"
  shows "d = 1 \<or> d = p"
proof -
  obtain e where e: "p = d * e" using assms(4) by (rule dvdE)
  have big: "x = 1 \<or> n + 2 \<le> x" if "x dvd p" for x
  proof (rule ccontr)
    assume h: "\<not> (x = 1 \<or> n + 2 \<le> x)"
    have "x \<noteq> 0" using that assms(3) by (intro notI) simp
    then have "\<not> int x dvd int p" using h by (intro no_divisor [OF assms(1)]) simp_all
    then show False using that by simp
  qed
  have "\<not> (n + 2 \<le> d \<and> n + 2 \<le> e)" using assms(2) mult_le_mono [of "n + 2" d "n + 2" e] e by auto
  moreover have "e dvd p" using e by simp
  ultimately have "d = 1 \<or> e = 1" using big [OF assms(4)] big [of e] by auto
  then show ?thesis using e by auto
qed

lemma coprime_or_dvd:
  fixes p k :: nat
  assumes "\<And>d. d dvd p \<Longrightarrow> d = 1 \<or> d = p"
  shows "coprime p k \<or> p dvd k"
proof -
  have "gcd p k = 1 \<or> gcd p k = p" by (rule assms) simp
  then show ?thesis by (metis coprime_iff_gcd_eq_1 gcd_dvd2)
qed

lemma trial_coprime:
  "no_divisor (int p) n 2 \<Longrightarrow> p < (n + 2) * (n + 2) \<Longrightarrow> 0 < p \<Longrightarrow> \<not> p dvd k \<Longrightarrow> coprime p k"
  using coprime_or_dvd [of p k] divisors_trivial [of p n] by blast

lemma period_factor:
  fixes k :: nat
  assumes "k dvd period" "k \<noteq> 1"
  shows "\<exists>p\<in>{3, 5, 17, 257, 65537}. p dvd k"
proof (rule ccontr)
  assume "\<not> ?thesis"
  then have n: "\<not> 3 dvd k" "\<not> 5 dvd k" "\<not> 17 dvd k" "\<not> 257 dvd k" "\<not> 65537 dvd k" by auto
  have "coprime 3 k" "coprime 5 k" "coprime 17 k" "coprime 257 k" "coprime 65537 k"
    using trial_coprime [of 3 1 k] trial_coprime [of 5 2 k] trial_coprime [of 17 4 k] trial_coprime [of 257 16 k]
      trial_coprime [of 65537 256 k] trial_division n by (simp_all only: of_nat_numeral) simp_all
  then have "coprime (3 * (5 * (17 * (257 * 65537)))) k" by (intro coprime_mult_left_iff [THEN iffD2] conjI)
  then have "coprime period k" by (simp add: period_def)
  then have "k = 1" using assms(1) by (metis coprime_absorb_right nat_dvd_1_iff_1)
  then show False using assms(2) by simp
qed

lemma xs_pow_fixpoint:
  assumes "v \<noteq> 0" "xs_pow d v = v" "d < period"
  shows "d = 0"
proof (rule ccontr)
  assume "d \<noteq> 0"
  define g where "g = gcd d period"
  have g: "xs_pow g v = v" unfolding g_def using \<open>d \<noteq> 0\<close> by (intro xs_pow_gcd assms(2) xs_pow_period)
  have "g dvd period" "g \<le> d" using \<open>d \<noteq> 0\<close> by (simp_all add: g_def gcd_le1_nat)
  then obtain k where k: "period = g * k" by (elim dvdE)
  have kd: "k dvd period" unfolding k by simp
  have "k \<noteq> 1" using k \<open>g \<le> d\<close> assms(3) by auto
  with kd obtain p where p: "p \<in> {3, 5, 17, 257, 65537}" "p dvd k" using period_factor by blast
  then obtain j where "k = p * j" by (elim dvdE)
  then have pj: "period = p * (g * j)" unfolding k by (simp only: mult.left_commute)
  have "0 < p" using p(1) by auto
  then have "period div p = g * j" unfolding pj by (rule nonzero_mult_div_cancel_left [OF less_imp_neq [symmetric]])
  then have "xs_pow (period div p) v = v" using xs_pow_mult [OF g] by simp
  then show False using maximal_divisors [OF p(1)] assms(1) by simp
qed

section \<open>The sequence\<close>

fun prng_after :: "nat \<Rightarrow> prng \<Rightarrow> prng" where
  "prng_after 0 p = p"
| "prng_after (Suc n) p = prng_after n (snd (next_u32 p))"

lemma prng_after: "p_state (prng_after n p) = xs_pow n (p_state p)"
  by (induction n arbitrary: p) (simp_all add: next_u32_xorshift funpow_swap1)

lemma seed_nonzero: "p_state (prng_new s) \<noteq> 0"
  by (simp add: prng_new_def)

lemma output_after: "fst (next_u32 (prng_after n (prng_new s))) = xs_pow n (xorshift (p_state (prng_new s)))"
  by (simp add: next_u32_xorshift prng_after funpow_swap1)

lemma xs_pow_bij:
  assumes "v \<noteq> 0"
  shows "bij_betw (\<lambda>n. xs_pow n v) {..<period} (UNIV - {0})"
proof -
  have less: "xs_pow i v \<noteq> xs_pow j v" if "i < j" "j < period" for i j
  proof
    assume e: "xs_pow i v = xs_pow j v"
    have split: "xs_pow j v = xs_pow i (xs_pow (j - i) v)" using that(1) funpow_add [of i "j - i" xorshift] by simp
    have "v = xs_pow (j - i) v" by (rule xs_pow_inj [OF trans [OF e split]])
    from xs_pow_fixpoint [OF assms this [symmetric]] have "j - i = 0" using that by linarith
    then show False using that(1) by simp
  qed
  then have inj: "inj_on (\<lambda>n. xs_pow n v) {..<period}"
    unfolding inj_on_def by (metis lessThan_iff linorder_neqE_nat)
  have sub: "(\<lambda>n. xs_pow n v) ` {..<period} \<subseteq> UNIV - {0}"
  proof (rule image_subsetI)
    fix n
    have "xs_pow n v \<noteq> xs_pow n 0" using assms xs_pow_inj by blast
    then show "xs_pow n v \<in> UNIV - {0}" by simp
  qed
  have "card (UNIV - {0 :: 32 word}) = period" by (simp add: card_Diff_subset card_word period_def)
  then have "(\<lambda>n. xs_pow n v) ` {..<period} = UNIV - {0}"
    using card_image [OF inj] by (intro card_subset_eq sub) simp_all
  then show ?thesis using inj by (simp add: bij_betw_def)
qed

lemma next_f32_range: "fst (next_f32 exact p) \<in> {-1..<1}"
proof -
  have "unat (drop_bit 8 w) < 16777216" for w :: "32 word"
  proof -
    have "unat w < 4294967296" using unsigned_less [of w, where 'a = nat] by simp
    then have "unat w div 256 < 16777216" by (simp add: less_mult_imp_div_less)
    then show ?thesis by (simp add: drop_bit_eq_div unat_div)
  qed
  then have lt: "real (unat (drop_bit 8 (fst (next_u32 p)))) < 16777216" by (metis of_nat_less_iff of_nat_numeral)
  define u where "u = real (unat (drop_bit 8 (fst (next_u32 p))))"
  have "0 \<le> u" "u < 16777216" using lt by (simp_all only: u_def of_nat_0_le_iff)
  moreover have "fst (next_f32 exact p) = u * (2 / 16777216) - 1"
    by (simp only: next_f32_def split_def Let_def exact_sel fst_conv u_def [symmetric])
  ultimately show ?thesis by simp
qed

text \<open>C20: from any seed the noise generator has the full period: its first \<open>2 ^ 32 - 1\<close> outputs are the nonzero
  words, each exactly once, and then they repeat; every sample it makes of them lies in \<open>[-1, 1)\<close>.\<close>

theorem prng_full_period:
  "bij_betw (\<lambda>n. fst (next_u32 (prng_after n (prng_new seed)))) {..<2 ^ 32 - 1} (UNIV - {0}) \<and>
   fst (next_u32 (prng_after (n + (2 ^ 32 - 1)) (prng_new seed))) = fst (next_u32 (prng_after n (prng_new seed))) \<and>
   fst (next_f32 exact (prng_after n (prng_new seed))) \<in> {-1..<1}"
proof (intro conjI)
  let ?v = "xorshift (p_state (prng_new seed))"
  have v: "?v \<noteq> 0" using seed_nonzero xorshift_inj [of _ 0] xorshift_0 by metis
  have p: "2 ^ 32 - 1 = period" by (simp add: period_def)
  show "bij_betw (\<lambda>n. fst (next_u32 (prng_after n (prng_new seed)))) {..<2 ^ 32 - 1} (UNIV - {0})"
    unfolding output_after p by (rule xs_pow_bij [OF v])
  show "fst (next_u32 (prng_after (n + (2 ^ 32 - 1)) (prng_new seed))) = fst (next_u32 (prng_after n (prng_new seed)))"
    unfolding output_after p by (simp only: funpow_add o_apply xs_pow_period)
  show "fst (next_f32 exact (prng_after n (prng_new seed))) \<in> {-1..<1}" by (rule next_f32_range)
qed

end
