(* ===== verification/Freeze.thy ===== *)
theory Freeze
  imports Delay
begin

text \<open>
  \<open>crates/daisy-dsp/src/freeze.rs\<close>: capture and hold, and the linear envelope of \<open>env.rs\<close>.
\<close>

section \<open>The capture\<close>

record 'f freeze =
  fz_buf :: "'f list"
  fz_cap_len :: nat
  fz_xfade :: nat
  fz_period :: nat
  fz_write_pos :: nat
  fz_play_pos :: nat
  fz_frozen :: bool

definition fz_new :: "'f flops \<Rightarrow> 'f list \<Rightarrow> nat \<Rightarrow> 'f freeze option" where
  "fz_new F buf xfade_samples =
     (let cap_len = length buf; xfade = max 1 (min xfade_samples (cap_len div 4)) in
      if \<not> 8 \<le> cap_len then None
      else Some \<lparr>fz_buf = map (\<lambda>_. fl_nat F 0) buf, fz_cap_len = cap_len, fz_xfade = xfade, fz_period = cap_len - xfade,
        fz_write_pos = 0, fz_play_pos = 0, fz_frozen = False\<rparr>)"

definition is_frozen :: "'f freeze \<Rightarrow> bool" where
  "is_frozen z = fz_frozen z"

text \<open>One sample of the crossfade of the tail into the head.\<close>

definition crossfade :: "'f flops \<Rightarrow> nat \<Rightarrow> nat \<Rightarrow> nat \<Rightarrow> 'f list \<Rightarrow> 'f list option" where
  "crossfade F period xfade i buf = (let f = fl_div F (fl_nat F i) (fl_nat F xfade) in do {
     head \<leftarrow> idx_get buf i;
     tail \<leftarrow> idx_get buf (period + i);
     idx_set buf i (fl_add F (fl_mul F f head) (fl_mul F (fl_sub F (fl_nat F 1) f) tail))
   })"

definition rotate_left :: "nat \<Rightarrow> nat \<Rightarrow> 'a list \<Rightarrow> 'a list option" where
  "rotate_left n mid xs =
     (if length xs < n \<or> n < mid then None else Some (drop mid (take n xs) @ take mid (take n xs) @ drop n xs))"

definition fz_freeze :: "'f flops \<Rightarrow> 'f freeze \<Rightarrow> 'f freeze option" where
  "fz_freeze F z =
     (if fz_frozen z then Some z
      else do {
        buf \<leftarrow> rotate_left (fz_cap_len z) (fz_write_pos z) (fz_buf z);
        buf \<leftarrow> for_in (crossfade F (fz_period z) (fz_xfade z)) [0..<fz_xfade z] buf;
        Some (z\<lparr>fz_buf := buf, fz_play_pos := 0, fz_frozen := True\<rparr>)
      })"

definition fz_unfreeze :: "'f freeze \<Rightarrow> 'f freeze" where
  "fz_unfreeze z = z\<lparr>fz_frozen := False\<rparr>"

definition fz_tick :: "'f freeze \<Rightarrow> 'f \<Rightarrow> ('f \<times> 'f freeze) option" where
  "fz_tick z x =
     (if fz_frozen z then do {
        y \<leftarrow> idx_get (fz_buf z) (fz_play_pos z);
        Some (y, z\<lparr>fz_play_pos := (if fz_play_pos z + 1 = fz_period z then 0 else fz_play_pos z + 1)\<rparr>)
      } else do {
        buf \<leftarrow> idx_set (fz_buf z) (fz_write_pos z) x;
        Some (x, z\<lparr>fz_buf := buf, fz_write_pos := (if fz_write_pos z + 1 = fz_cap_len z then 0 else fz_write_pos z + 1)\<rparr>)
      })"

definition fz_reset :: "'f flops \<Rightarrow> 'f freeze \<Rightarrow> 'f freeze" where
  "fz_reset F z = z\<lparr>fz_buf := map (\<lambda>_. fl_nat F 0) (fz_buf z), fz_write_pos := 0, fz_play_pos := 0, fz_frozen := False\<rparr>"

section \<open>The envelope\<close>

record 'f envelope =
  en_attack_inc :: 'f
  en_release_dec :: 'f
  en_y :: 'f
  en_gate :: bool

definition env_new :: "'f fmath \<Rightarrow> 'f \<Rightarrow> 'f \<Rightarrow> 'f \<Rightarrow> 'f envelope" where
  "env_new M sample_rate attack_s release_s = (let F = fm M; one = fl_nat F 1 in
     \<lparr>en_attack_inc = fl_div F one (f_max M (fl_mul F attack_s sample_rate) one),
      en_release_dec = fl_div F one (f_max M (fl_mul F release_s sample_rate) one), en_y = fl_nat F 0, en_gate = False\<rparr>)"

definition env_gate :: "bool \<Rightarrow> 'f envelope \<Rightarrow> 'f envelope" where
  "env_gate on e = e\<lparr>en_gate := on\<rparr>"

definition env_value :: "'f envelope \<Rightarrow> 'f" where
  "env_value e = en_y e"

definition env_tick :: "'f fmath \<Rightarrow> 'f envelope \<Rightarrow> 'f \<times> 'f envelope" where
  "env_tick M e = (let F = fm M;
       y = if en_gate e then f_min M (fl_add F (en_y e) (en_attack_inc e)) (fl_nat F 1)
           else f_max M (fl_sub F (en_y e) (en_release_dec e)) (fl_nat F 0) in
     (y, e\<lparr>en_y := y\<rparr>))"

definition env_reset :: "'f flops \<Rightarrow> 'f envelope \<Rightarrow> 'f envelope" where
  "env_reset F e = e\<lparr>en_y := fl_nat F 0, en_gate := False\<rparr>"

section \<open>Recording\<close>

text \<open>The ring, the oldest sample first, and what the state promises.\<close>

definition fz_hist :: "'f freeze \<Rightarrow> 'f list" where
  "fz_hist z = drop (fz_write_pos z) (fz_buf z) @ take (fz_write_pos z) (fz_buf z)"

definition fz_ok :: "nat \<Rightarrow> nat \<Rightarrow> 'f freeze \<Rightarrow> bool" where
  "fz_ok cap x z \<longleftrightarrow> 8 \<le> cap \<and> 1 \<le> x \<and> 4 * x \<le> cap \<and> length (fz_buf z) = cap \<and> fz_cap_len z = cap \<and> fz_xfade z = x \<and>
     fz_period z = cap - x \<and> fz_write_pos z < cap \<and> fz_play_pos z < cap - x"

lemma fz_new_ok:
  assumes "8 \<le> length buf"
  shows "\<exists>z. fz_new F buf xf = Some z \<and> fz_ok (length buf) (max 1 (min xf (length buf div 4))) z \<and> \<not> fz_frozen z \<and>
    fz_write_pos z = 0 \<and> fz_hist z = replicate (length buf) (fl_nat F 0)"
  using assms by (auto simp: fz_new_def Let_def fz_ok_def fz_hist_def map_replicate_const)

lemma fz_tick_live:
  assumes "fz_ok cap x z" "\<not> fz_frozen z"
  shows "\<exists>z'. fz_tick z v = Some (v, z') \<and> fz_ok cap x z' \<and> \<not> fz_frozen z' \<and> fz_hist z' = tl (fz_hist z) @ [v]"
  using assms ring_push [of "fz_write_pos z" "fz_buf z" v] by (auto simp: fz_tick_def fz_ok_def fz_hist_def Let_def split: if_splits)

lemma fz_record:
  "fz_ok cap x z \<Longrightarrow> \<not> fz_frozen z \<Longrightarrow>
    \<exists>z'. run_steps fz_tick z xs = Some (xs, z') \<and> fz_ok cap x z' \<and> \<not> fz_frozen z' \<and> fz_hist z' = drop (length xs) (fz_hist z @ xs)"
proof (induction xs arbitrary: z)
  case (Cons v xs)
  obtain z1 where z1: "fz_tick z v = Some (v, z1)" "fz_ok cap x z1" "\<not> fz_frozen z1" "fz_hist z1 = tl (fz_hist z) @ [v]"
    using fz_tick_live [OF Cons.prems] by blast
  have "fz_hist z \<noteq> []" using Cons.prems(1) by (auto simp: fz_ok_def fz_hist_def)
  then have "drop (length xs) (fz_hist z1 @ xs) = drop (length (v # xs)) (fz_hist z @ v # xs)"
    unfolding z1(4) by (cases "fz_hist z") simp_all
  then show ?case using z1(1) Cons.IH [OF z1(2,3)] by auto
qed simp

lemma record_position:
  "fz_ok cap x z \<Longrightarrow> \<not> fz_frozen z \<Longrightarrow> run_steps fz_tick z xs = Some (ys, z') \<Longrightarrow>
    fz_write_pos z' = (fz_write_pos z + length xs) mod cap"
proof (induction xs arbitrary: z ys)
  case Nil
  then show ?case by (simp add: fz_ok_def)
next
  case (Cons v xs)
  obtain z1 where z1: "fz_tick z v = Some (v, z1)" "fz_ok cap x z1" "\<not> fz_frozen z1" using fz_tick_live [OF Cons.prems(1,2)] by blast
  have "fz_write_pos z1 = (fz_write_pos z + 1) mod cap" using z1(1) Cons.prems(1,2) by (auto simp: fz_tick_def fz_ok_def)
  moreover obtain ys' where "run_steps fz_tick z1 xs = Some (ys', z')" using Cons.prems(3) z1(1) by (auto split: bind_splits)
  ultimately show ?case using Cons.IH [OF z1(2,3)] by (simp add: mod_simps)
qed

section \<open>Holding\<close>

text \<open>The loop of a recording \<open>h\<close> with a crossfade of \<open>x\<close> samples.\<close>

definition looped :: "nat \<Rightarrow> real list \<Rightarrow> nat \<Rightarrow> real" where
  "looped x h i = (if i < x then real i / real x * h ! i + (1 - real i / real x) * h ! (length h - x + i) else h ! i)"

lemma fz_freeze_ok:
  assumes z: "fz_ok cap x z" "\<not> fz_frozen z"
  shows "\<exists>z'. fz_freeze exact z = Some z' \<and> fz_ok cap x z' \<and> fz_frozen z' \<and> fz_play_pos z' = 0 \<and> fz_write_pos z' = fz_write_pos z \<and>
    fz_buf z' = map (looped x (fz_hist z)) [0..<cap]"
proof -
  note ok = z(1) [unfolded fz_ok_def]
  define h where "h = fz_hist z"
  have h: "length h = cap" using ok by (simp add: h_def fz_hist_def)
  have rot: "rotate_left cap (fz_write_pos z) (fz_buf z) = Some h" using ok by (simp add: rotate_left_def h_def fz_hist_def)
  have "\<exists>b. for_in (crossfade exact (cap - x) x) [0..<x] h = Some b \<and> b = map (\<lambda>j. if j < x then looped x h j else h ! j) [0..<cap]"
  proof (rule for_in_upt [where I = "\<lambda>i b. b = map (\<lambda>j. if j < i then looped x h j else h ! j) [0..<cap]"])
    show "h = map (\<lambda>j. if j < 0 then looped x h j else h ! j) [0..<cap]" by (rule nth_equalityI) (simp_all add: h)
    fix i b assume i: "i < x" and b: "b = map (\<lambda>j. if j < i then looped x h j else h ! j) [0..<cap]"
    have "4 * x \<le> cap" using ok by simp
    then have "i < cap" "cap - x + i < cap" "\<not> cap - x + i < i" using i by linarith+
    moreover have "b[i := looped x h i] = map (\<lambda>j. if j < Suc i then looped x h j else h ! j) [0..<cap]"
      unfolding b by (rule nth_equalityI) (auto simp: nth_list_update less_Suc_eq)
    ultimately show "\<exists>b'. crossfade exact (cap - x) x i b = Some b' \<and> b' = map (\<lambda>j. if j < Suc i then looped x h j else h ! j) [0..<cap]"
      using i by (simp add: crossfade_def Let_def b looped_def h)
  qed simp
  moreover have "map (\<lambda>j. if j < x then looped x h j else h ! j) [0..<cap] = map (looped x h) [0..<cap]"
    by (rule map_cong) (simp_all add: looped_def)
  ultimately show ?thesis using z rot ok by (simp add: fz_freeze_def h_def fz_ok_def)
qed

lemma fz_play:
  "fz_ok cap x z \<Longrightarrow> fz_frozen z \<Longrightarrow>
    \<exists>z'. run_steps fz_tick z zs = Some (map (\<lambda>k. fz_buf z ! ((fz_play_pos z + k) mod (cap - x))) [0..<length zs], z') \<and>
      fz_ok cap x z' \<and> fz_frozen z' \<and> fz_buf z' = fz_buf z \<and> fz_write_pos z' = fz_write_pos z"
proof (induction zs arbitrary: z)
  case (Cons v zs)
  note ok = Cons.prems(1) [unfolded fz_ok_def]
  define q where "q = (if fz_play_pos z + 1 = cap - x then 0 else fz_play_pos z + 1)"
  have q: "(q + k) mod (cap - x) = (fz_play_pos z + Suc k) mod (cap - x)" for k
  proof (cases "fz_play_pos z + 1 = cap - x")
    case True
    then have "fz_play_pos z + Suc k = (cap - x) + k" by linarith
    then have "(fz_play_pos z + Suc k) mod (cap - x) = k mod (cap - x)" by (metis mod_add_self1)
    then show ?thesis using True by (simp add: q_def)
  qed (simp add: q_def)
  define z1 where "z1 = z\<lparr>fz_play_pos := q\<rparr>"
  have "fz_play_pos z < length (fz_buf z)" using ok by linarith
  then have z1: "fz_tick z v = Some (fz_buf z ! fz_play_pos z, z1)" using ok Cons.prems(2) by (simp add: fz_tick_def z1_def q_def)
  have "fz_ok cap x z1" "fz_frozen z1" using Cons.prems ok by (auto simp: z1_def fz_ok_def q_def)
  from Cons.IH [OF this] obtain z' where z': "run_steps fz_tick z1 zs = Some (map (\<lambda>k. fz_buf z ! ((q + k) mod (cap - x))) [0..<length zs], z')"
    "fz_ok cap x z'" "fz_frozen z'" "fz_buf z' = fz_buf z" "fz_write_pos z' = fz_write_pos z" by (auto simp: z1_def)
  have "map (\<lambda>k. fz_buf z ! ((fz_play_pos z + k) mod (cap - x))) [0..<length (v # zs)] =
      fz_buf z ! fz_play_pos z # map (\<lambda>k. fz_buf z ! ((q + k) mod (cap - x))) [0..<length zs]"
    unfolding q using ok by (simp add: map_upt_Suc del: upt_Suc)
  then show ?case using z1 z' by (intro exI [of _ z']) (simp add: q [symmetric])
qed simp


section \<open>Capture and hold\<close>

text \<open>A hold loops the recording. In exact arithmetic, for every buffer of at least 8 samples and every crossfade
  length: samples pass through while live; a hold then repeats, for ever and whatever comes in, a loop of the last
  samples recorded, whose wrap from end to start is the recording's own step from one sample to the next.\<close>

theorem freeze_loops:
  assumes "8 \<le> length buf"
  shows "\<exists>x z z1 z2 z3. 1 \<le> x \<and> 4 * x \<le> length buf \<and> fz_new exact buf xfade_samples = Some z \<and>
    run_steps fz_tick z recorded = Some (recorded, z1) \<and> fz_freeze exact z1 = Some z2 \<and>
    run_steps fz_tick z2 ignored =
      Some (map (\<lambda>k. looped x (drop (length recorded) (replicate (length buf) 0 @ recorded)) (k mod (length buf - x))) [0..<length ignored], z3) \<and>
    looped x (drop (length recorded) (replicate (length buf) 0 @ recorded)) (length buf - x - 1) =
      drop (length recorded) (replicate (length buf) 0 @ recorded) ! (length buf - x - 1) \<and>
    looped x (drop (length recorded) (replicate (length buf) 0 @ recorded)) 0 =
      drop (length recorded) (replicate (length buf) 0 @ recorded) ! (length buf - x)"
proof -
  let ?cap = "length buf" and ?h = "drop (length recorded) (replicate (length buf) 0 @ recorded)"
  define x where "x = max 1 (min xfade_samples (length buf div 4))"
  have x: "1 \<le> x" "4 * x \<le> ?cap" using assms by (auto simp: x_def)
  obtain z where z: "fz_new exact buf xfade_samples = Some z" "fz_ok ?cap x z" "\<not> fz_frozen z" "fz_hist z = replicate ?cap 0"
    using fz_new_ok [OF assms, of exact xfade_samples] by (auto simp: x_def)
  obtain z1 where z1: "run_steps fz_tick z recorded = Some (recorded, z1)" "fz_ok ?cap x z1" "\<not> fz_frozen z1" "fz_hist z1 = ?h"
    using fz_record [OF z(2,3), of recorded] z(4) by auto
  obtain z2 where z2: "fz_freeze exact z1 = Some z2" "fz_ok ?cap x z2" "fz_frozen z2" "fz_play_pos z2 = 0"
    "fz_buf z2 = map (looped x ?h) [0..<?cap]" using fz_freeze_ok [OF z1(2,3)] unfolding z1(4) by blast
  have "fz_buf z2 ! (k mod (?cap - x)) = looped x ?h (k mod (?cap - x))" for k
  proof -
    have "k mod (?cap - x) < ?cap - x" using x by (intro mod_less_divisor) linarith
    then show ?thesis unfolding z2(5) by simp
  qed
  then obtain z3 where "run_steps fz_tick z2 ignored = Some (map (\<lambda>k. looped x ?h (k mod (?cap - x))) [0..<length ignored], z3)"
    using fz_play [OF z2(2,3), of ignored] z2(4) by auto
  moreover have "\<not> ?cap - x - 1 < x" using x by linarith
  moreover have "length ?h = ?cap" by simp
  ultimately show ?thesis using x z(1) z1(1) z2(1) by (intro exI [of _ x] exI conjI) (simp_all add: looped_def)
qed

lemma freeze_loops_witness:
  "\<exists>z z1 z2 z3 ys. fz_new exact (replicate 8 0) 1 = Some z \<and> run_steps fz_tick z [1, 2, 3] = Some ([1, 2, 3], z1) \<and>
    fz_freeze exact z1 = Some z2 \<and> run_steps fz_tick z2 (replicate 7 9) = Some (ys, z3) \<and> length ys = 7"
proof -
  have "8 \<le> length (replicate 8 (0 :: real))" by simp
  from freeze_loops [OF this, of 1 "[1, 2, 3]" "replicate 7 9"] show ?thesis by (elim exE conjE) (intro exI conjI, assumption+, simp)
qed

text \<open>Recording again after a hold. The hold has turned the buffer so that its oldest sample comes first, but the
  write position stays where it was.\<close>

lemma record_after_hold:
  assumes z: "fz_ok cap x z" "fz_frozen z" and fits: "fz_write_pos z + length ys \<le> cap"
  shows "\<exists>z'. run_steps fz_tick (fz_unfreeze z) ys = Some (ys, z') \<and> fz_ok cap x z' \<and> \<not> fz_frozen z' \<and>
    fz_hist z' = drop (fz_write_pos z + length ys) (fz_buf z) @ take (fz_write_pos z) (fz_buf z) @ ys"
proof -
  have "fz_ok cap x (fz_unfreeze z)" "\<not> fz_frozen (fz_unfreeze z)" using z by (simp_all add: fz_ok_def fz_unfreeze_def)
  from fz_record [OF this, of ys] obtain z' where z': "run_steps fz_tick (fz_unfreeze z) ys = Some (ys, z')" "fz_ok cap x z'" "\<not> fz_frozen z'"
    "fz_hist z' = drop (length ys) (drop (fz_write_pos z) (fz_buf z) @ take (fz_write_pos z) (fz_buf z) @ ys)"
    by (auto simp: fz_hist_def fz_unfreeze_def)
  moreover have "length ys \<le> length (drop (fz_write_pos z) (fz_buf z))" using z(1) fits by (simp add: fz_ok_def)
  ultimately show ?thesis by (auto simp: add.commute)
qed

text \<open>C19: a second hold plays a scrambled recording. After a hold and its release the buffer \<open>b\<close> is in the order of time
  from its start, but recording goes on at the stale write position \<open>w\<close>: after \<open>m\<close> more samples the next hold loops
  \<open>b\<close> from \<open>w + m\<close>, then its first \<open>w\<close> samples, which are older, then the new ones, with a jump at each seam. The last
  samples recorded, which the documentation promises, would be \<open>b\<close> from \<open>m\<close>, then the new ones.\<close>

theorem second_freeze_scrambles:
  assumes "8 \<le> length buf" "fz_new exact buf xfade_samples = Some z" "run_steps fz_tick z first = Some (first, z1)"
    "fz_freeze exact z1 = Some z2" "run_steps fz_tick z2 ignored = Some (loop, z3)"
    "fz_write_pos z3 + length second \<le> length buf"
  shows "fz_write_pos z3 = length first mod length buf \<and>
    (\<exists>z4 z5. run_steps fz_tick (fz_unfreeze z3) second = Some (second, z4) \<and> fz_freeze exact z4 = Some z5 \<and>
      fz_buf z5 = map (looped (fz_xfade z) (drop (fz_write_pos z3 + length second) (fz_buf z2) @ take (fz_write_pos z3) (fz_buf z2) @ second))
        [0..<length buf])"
proof -
  let ?cap = "length buf"
  define x where "x = max 1 (min xfade_samples (length buf div 4))"
  have z: "fz_ok ?cap x z" "\<not> fz_frozen z" "fz_write_pos z = 0"
    using fz_new_ok [OF assms(1), of exact xfade_samples] assms(2) by (auto simp: x_def)
  have z1: "fz_ok ?cap x z1" "\<not> fz_frozen z1" using fz_record [OF z(1,2), of first] assms(3) by auto
  have z2: "fz_ok ?cap x z2" "fz_frozen z2" "fz_write_pos z2 = fz_write_pos z1" using fz_freeze_ok [OF z1] assms(4) by auto
  have z3: "fz_ok ?cap x z3" "fz_frozen z3" "fz_buf z3 = fz_buf z2" "fz_write_pos z3 = fz_write_pos z2"
    using fz_play [OF z2(1,2), of ignored] assms(5) by auto
  obtain z4 where z4: "run_steps fz_tick (fz_unfreeze z3) second = Some (second, z4)" "fz_ok ?cap x z4" "\<not> fz_frozen z4"
    "fz_hist z4 = drop (fz_write_pos z3 + length second) (fz_buf z2) @ take (fz_write_pos z3) (fz_buf z2) @ second"
    using record_after_hold [OF z3(1,2) assms(6)] unfolding z3(3) by blast
  have "fz_write_pos z3 = length first mod ?cap" using record_position [OF z(1,2) assms(3)] z(3) z2(3) z3(4) by simp
  moreover have "fz_xfade z = x" using z(1) by (simp add: fz_ok_def)
  moreover obtain z5 where "fz_freeze exact z4 = Some z5" "fz_buf z5 = map (looped x (fz_hist z4)) [0..<?cap]"
    using fz_freeze_ok [OF z4(2,3)] by blast
  ultimately show ?thesis using z4(1) unfolding z4(4) by auto
qed


lemma second_freeze_scrambles_witness:
  "\<exists>z3 z4 z5. fz_write_pos z3 = 4 \<and> run_steps fz_tick (fz_unfreeze z3) [13, 14] = Some ([13, 14], z4) \<and> fz_freeze exact z4 = Some z5"
proof -
  have buf: "8 \<le> length (replicate 8 (0 :: real))" by simp
  obtain z where z: "fz_new exact (replicate 8 0) 1 = Some z" "fz_ok 8 1 z" "\<not> fz_frozen z"
    using fz_new_ok [OF buf, of exact 1] by auto
  obtain z1 where z1: "run_steps fz_tick z [1, 2, 3, 4, 5, 6, 7, 8, 9, 10, 11, 12] = Some ([1, 2, 3, 4, 5, 6, 7, 8, 9, 10, 11, 12], z1)"
    "fz_ok 8 1 z1" "\<not> fz_frozen z1" using fz_record [OF z(2,3)] by blast
  obtain z2 where z2: "fz_freeze exact z1 = Some z2" using fz_freeze_ok [OF z1(2,3)] by blast
  have idle: "run_steps fz_tick z2 [] = Some ([], z2)" by simp
  have w: "fz_write_pos z1 = 4 \<and> fz_write_pos z2 = 4"
  proof -
    have "fz_write_pos z = 0" using z(1) by (auto simp: fz_new_def Let_def)
    then have "fz_write_pos z1 = 4" using record_position [OF z(2,3) z1(1)] by simp
    then show ?thesis using fz_freeze_ok [OF z1(2,3)] z2 by auto
  qed
  have fits: "fz_write_pos z2 + length [13, 14 :: real] \<le> length (replicate 8 (0 :: real))" using w by simp
  show ?thesis using second_freeze_scrambles [OF buf z(1) z1(1) z2 idle fits] w by auto
qed

end
