(* ===== verification/Granular.thy ===== *)
theory Granular
  imports Noise Delay
begin

text \<open>
  \<open>crates/daisy-dsp/src/granular.rs\<close> and the window table of \<open>window.rs\<close>: a cloud of windowed grains read from a
  ring of recent input.
\<close>

section \<open>The window\<close>

definition hann_window :: "'f fmath \<Rightarrow> nat \<Rightarrow> 'f list" where
  "hann_window M N = (let F = fm M; denom = fl_nat F (N - 1); TAU = fl_mul F (fl_nat F 2) (f_pi M) in
     map (\<lambda>i. fl_sub F (fl_half F) (fl_mul F (fl_half F) (f_cos M (fl_div F (fl_mul F TAU (fl_nat F i)) denom)))) [0..<N])"

definition window_at :: "'f fmath \<Rightarrow> 'f list \<Rightarrow> 'f \<Rightarrow> 'f option" where
  "window_at M tab phase = (let F = fm M; N = length tab; x = fl_mul F phase (fl_nat F (N - 1)); i = f_index M x in
     if N - 1 \<le> i then idx_get tab (N - 1)
     else do {
       a \<leftarrow> idx_get tab i;
       b \<leftarrow> idx_get tab (i + 1);
       Some (fl_add F a (fl_mul F (fl_sub F b a) (fl_sub F x (fl_nat F i))))
     })"

section \<open>The cloud\<close>

definition MAX_GRAINS :: nat where "MAX_GRAINS = 12"
definition WIN_N :: nat where "WIN_N = 1024"

record 'f grain =
  gr_active :: bool
  gr_pos :: 'f
  gr_rate :: 'f
  gr_prog :: 'f
  gr_prog_inc :: 'f
  gr_gain_l :: 'f
  gr_gain_r :: 'f

definition grain_silent :: "'f flops \<Rightarrow> 'f grain" where
  "grain_silent F = (let zero = fl_nat F 0 in
     \<lparr>gr_active = False, gr_pos = zero, gr_rate = fl_nat F 1, gr_prog = zero, gr_prog_inc = zero, gr_gain_l = zero, gr_gain_r = zero\<rparr>)"

record 'f granular =
  gn_buf :: "'f list"
  gn_mask :: nat
  gn_capf :: 'f
  gn_write_pos :: nat
  gn_frozen :: bool
  gn_rng :: prng
  gn_win :: "'f list"
  gn_grains :: "'f grain list"
  gn_spawn_interval :: nat
  gn_spawn_timer :: nat
  gn_next_spawn :: nat
  gn_grain_len :: 'f
  gn_backoff_min :: nat
  gn_spray :: nat
  gn_pitch :: 'f
  gn_detune :: 'f
  gn_pan_spread :: 'f

definition granular_new :: "'f fmath \<Rightarrow> 'f list \<Rightarrow> 'f \<Rightarrow> 32 word \<Rightarrow> 'f granular option" where
  "granular_new M buf sample_rate seed = (let F = fm M; cap = length buf in
     if \<not> (4096 \<le> cap \<and> is_power_of_two cap) then None
     else let grain_len = fl_mul F (fl_div F (fl_nat F 8) (fl_nat F 100)) sample_rate;
         spawn_interval = max (f_index M grain_len div 6) 1 in
       Some \<lparr>gn_buf = map (\<lambda>_. fl_nat F 0) buf, gn_mask = cap - 1, gn_capf = fl_nat F cap, gn_write_pos = 0, gn_frozen = False,
         gn_rng = prng_new seed, gn_win = hann_window M WIN_N, gn_grains = replicate MAX_GRAINS (grain_silent F),
         gn_spawn_interval = spawn_interval, gn_spawn_timer = 0, gn_next_spawn = spawn_interval, gn_grain_len = grain_len,
         gn_backoff_min = f_index M grain_len, gn_spray = cap div 2, gn_pitch = fl_nat F 1, gn_detune = fl_nat F 0,
         gn_pan_spread = fl_nat F 1\<rparr>)"

definition set_grain_len :: "'f fmath \<Rightarrow> 'f \<Rightarrow> 'f \<Rightarrow> 'f granular \<Rightarrow> 'f granular" where
  "set_grain_len M sample_rate seconds g = (let len = f_max M (fl_mul (fm M) seconds sample_rate) (fl_nat (fm M) 1) in
     g\<lparr>gn_grain_len := len, gn_backoff_min := f_index M len\<rparr>)"

definition set_density :: "'f fmath \<Rightarrow> 'f \<Rightarrow> 'f \<Rightarrow> 'f granular \<Rightarrow> 'f granular" where
  "set_density M sample_rate grains_per_s g =
     (let n = max (f_index M (fl_div (fm M) sample_rate (f_max M grains_per_s (fl_nat (fm M) 1)))) 1 in
      g\<lparr>gn_spawn_interval := n, gn_next_spawn := n\<rparr>)"

definition set_pitch :: "'f \<Rightarrow> 'f granular \<Rightarrow> 'f granular" where
  "set_pitch ratio g = g\<lparr>gn_pitch := ratio\<rparr>"

definition set_detune :: "'f fmath \<Rightarrow> 'f \<Rightarrow> 'f granular \<Rightarrow> 'f granular" where
  "set_detune M amount g = g\<lparr>gn_detune := f_max M amount (fl_nat (fm M) 0)\<rparr>"

definition set_pan_spread :: "'f flops \<Rightarrow> 'f \<Rightarrow> 'f granular \<Rightarrow> 'f granular" where
  "set_pan_spread F spread g = g\<lparr>gn_pan_spread := fl_clamp F spread (fl_nat F 0) (fl_nat F 1)\<rparr>"

definition granular_set_frozen :: "bool \<Rightarrow> 'f granular \<Rightarrow> 'f granular" where
  "granular_set_frozen frozen g = g\<lparr>gn_frozen := frozen\<rparr>"

definition granular_is_frozen :: "'f granular \<Rightarrow> bool" where
  "granular_is_frozen g = gn_frozen g"

definition ring_read_frac :: "'f fmath \<Rightarrow> 'f granular \<Rightarrow> 'f \<Rightarrow> 'f option" where
  "ring_read_frac M g pos = (let F = fm M; i = f_index M pos in do {
     a \<leftarrow> idx_get (gn_buf g) (i AND gn_mask g);
     b \<leftarrow> idx_get (gn_buf g) ((i + 1) AND gn_mask g);
     Some (fl_add F a (fl_mul F (fl_sub F b a) (fl_sub F pos (fl_nat F i))))
   })"

text \<open>The first free slot.\<close>

fun free_slot :: "'f grain list \<Rightarrow> nat option" where
  "free_slot [] = None"
| "free_slot (g # gs) = (if \<not> gr_active g then Some 0 else map_option Suc (free_slot gs))"

definition spawn :: "'f fmath \<Rightarrow> 'f granular \<Rightarrow> 'f granular option" where
  "spawn M g = (case free_slot (gn_grains g) of
     None \<Rightarrow> Some g
   | Some slot \<Rightarrow>
       let F = fm M; half = fl_half F; one = fl_nat F 1;
         (w, rng) = next_u32 (gn_rng g);
         backoff = gn_backoff_min g + unat w mod max (gn_spray g) 1;
         start = (gn_write_pos g + length (gn_buf g) - (backoff AND gn_mask g)) AND gn_mask g;
         (p, rng) = next_f32 F rng;
         pan = fl_add F half (fl_mul F (fl_mul F half (gn_pan_spread g)) p);
         angle = fl_mul F pan (fl_div F (f_pi M) (fl_nat F 2));
         (d, rng) = next_f32 F rng in do {
       grains \<leftarrow> idx_set (gn_grains g) slot
         \<lparr>gr_active = True, gr_pos = fl_nat F start, gr_rate = fl_mul F (gn_pitch g) (fl_add F one (fl_mul F (gn_detune g) d)),
          gr_prog = fl_nat F 0, gr_prog_inc = fl_div F one (gn_grain_len g), gr_gain_l = f_cos M angle, gr_gain_r = f_sin M angle\<rparr>;
       Some (g\<lparr>gn_grains := grains, gn_rng := rng\<rparr>)
     })"

definition grain_tick :: "'f fmath \<Rightarrow> nat \<Rightarrow> ('f \<times> 'f \<times> 'f) \<times> 'f granular \<Rightarrow> (('f \<times> 'f \<times> 'f) \<times> 'f granular) option" where
  "grain_tick M gi = (\<lambda>((l, r, wsum), g). let F = fm M in do {
     gr \<leftarrow> idx_get (gn_grains g) gi;
     if \<not> gr_active gr then Some ((l, r, wsum), g)
     else do {
       w \<leftarrow> window_at M (gn_win g) (gr_prog gr);
       v \<leftarrow> ring_read_frac M g (gr_pos gr);
       let s = fl_mul F v w;
       let pos = fl_add F (gr_pos gr) (gr_rate gr);
       let pos = (if f_le M (gn_capf g) pos then fl_sub F pos (gn_capf g) else pos);
       let prog = fl_add F (gr_prog gr) (gr_prog_inc gr);
       let active = (if f_le M (fl_nat F 1) prog then False else gr_active gr);
       grains \<leftarrow> idx_set (gn_grains g) gi (gr\<lparr>gr_pos := pos, gr_prog := prog, gr_active := active\<rparr>);
       Some ((fl_add F l (fl_mul F s (gr_gain_l gr)), fl_add F r (fl_mul F s (gr_gain_r gr)), fl_add F wsum w), g\<lparr>gn_grains := grains\<rparr>)
     }
   })"

definition record_sample :: "'f granular \<Rightarrow> 'f \<Rightarrow> 'f granular option" where
  "record_sample g x =
     (if gn_frozen g then Some g
      else do {
        buf \<leftarrow> idx_set (gn_buf g) (gn_write_pos g) x;
        Some (g\<lparr>gn_buf := buf, gn_write_pos := (gn_write_pos g + 1) AND gn_mask g\<rparr>)
      })"

definition schedule :: "'f fmath \<Rightarrow> 'f granular \<Rightarrow> 'f granular option" where
  "schedule M g = (let g = g\<lparr>gn_spawn_timer := gn_spawn_timer g + 1\<rparr> in
     if gn_spawn_timer g < gn_next_spawn g then Some g
     else do {
       g \<leftarrow> spawn M (g\<lparr>gn_spawn_timer := 0\<rparr>);
       let F = fm M;
       let (v, rng) = next_f32 F (gn_rng g);
       let j = fl_mul F (fl_mul F (fl_nat F (gn_spawn_interval g)) (fl_half F)) v;
       Some (g\<lparr>gn_rng := rng, gn_next_spawn := f_index M (f_max M (fl_add F (fl_nat F (gn_spawn_interval g)) j) (fl_nat F 1))\<rparr>)
     })"

definition granular_tick :: "'f fmath \<Rightarrow> 'f granular \<Rightarrow> 'f \<Rightarrow> (('f \<times> 'f) \<times> 'f granular) option" where
  "granular_tick M g x = (let F = fm M; zero = fl_nat F 0 in do {
     g \<leftarrow> record_sample g x;
     g \<leftarrow> schedule M g;
     ((l, r, wsum), g) \<leftarrow> for_in (grain_tick M) [0..<MAX_GRAINS] ((zero, zero, zero), g);
     let norm = fl_div F (fl_nat F 1) (f_max M wsum (fl_div F (fl_nat F 1) (fl_nat F 10)));
     Some ((fl_mul F l norm, fl_mul F r norm), g)
   })"

fun granular_process :: "'f fmath \<Rightarrow> 'f granular \<Rightarrow> 'f list \<Rightarrow> 'f list \<Rightarrow> 'f list \<Rightarrow> (('f list \<times> 'f list) \<times> 'f granular) option" where
  "granular_process M g (x # xs) (_ # ol) (_ # orr) = do {
     ((l, r), g) \<leftarrow> granular_tick M g x;
     ((ls, rs), g) \<leftarrow> granular_process M g xs ol orr;
     Some ((l # ls, r # rs), g)
   }"
| "granular_process M g _ ol orr = Some ((ol, orr), g)"

definition granular_reset :: "'f flops \<Rightarrow> 'f granular \<Rightarrow> 'f granular" where
  "granular_reset F g = g\<lparr>gn_buf := map (\<lambda>_. fl_nat F 0) (gn_buf g), gn_write_pos := 0, gn_frozen := False, gn_spawn_timer := 0,
     gn_next_spawn := gn_spawn_interval g, gn_grains := replicate MAX_GRAINS (grain_silent F)\<rparr>"

section \<open>No access leaves the ring\<close>

text \<open>What keeps every index in bounds, over any arithmetic.\<close>

definition gn_ok :: "'f granular \<Rightarrow> bool" where
  "gn_ok g \<longleftrightarrow> (\<exists>k. length (gn_buf g) = 2 ^ k \<and> gn_mask g = 2 ^ k - 1) \<and> gn_write_pos g < length (gn_buf g) \<and>
     length (gn_grains g) = MAX_GRAINS \<and> length (gn_win g) = WIN_N"

lemma masked: "i AND (2 ^ k - 1) < (2 ^ k :: nat)"
proof -
  have "i AND (2 ^ k - 1) = i mod 2 ^ k" by (metis mask_eq_exp_minus_1 take_bit_eq_mask take_bit_eq_mod)
  then show ?thesis by simp
qed

lemma gn_ok_masked: "gn_ok g \<Longrightarrow> i AND gn_mask g < length (gn_buf g)"
proof -
  assume "gn_ok g"
  then obtain k where "length (gn_buf g) = 2 ^ k" "gn_mask g = 2 ^ k - 1" unfolding gn_ok_def by (elim conjE exE)
  then show ?thesis using masked [of i k] by (simp only:)
qed

lemma granular_new_ok:
  assumes "4096 \<le> length buf" "is_power_of_two (length buf)"
  shows "\<exists>g. granular_new M buf sr seed = Some g \<and> gn_ok g \<and> length (gn_buf g) = length buf"
proof -
  obtain k where "length buf = 2 ^ k" using assms(2) unfolding is_power_of_two_iff by blast
  then show ?thesis using assms by (auto simp: granular_new_def Let_def gn_ok_def hann_window_def)
qed

lemma window_at_total: "length tab = WIN_N \<Longrightarrow> \<exists>w. window_at M tab p = Some w"
  by (auto simp: window_at_def Let_def WIN_N_def)

lemma ring_read_total: "gn_ok g \<Longrightarrow> \<exists>v. ring_read_frac M g p = Some v"
  using gn_ok_masked [of g] by (simp add: ring_read_frac_def Let_def)

lemma free_slot_less: "free_slot gs = Some i \<Longrightarrow> i < length gs"
  by (induction gs arbitrary: i) (auto split: if_splits)

lemma spawn_total: "gn_ok g \<Longrightarrow> \<exists>g'. spawn M g = Some g' \<and> gn_ok g'"
  using free_slot_less [of "gn_grains g"]
  by (auto simp: spawn_def gn_ok_def Let_def split: option.splits prod.splits)

lemma grain_tick_total:
  assumes "gi < MAX_GRAINS" "gn_ok (snd z)"
  shows "\<exists>z'. grain_tick M gi z = Some z' \<and> gn_ok (snd z')"
proof -
  obtain l r w g where z: "z = ((l, r, w), g)" by (metis prod_cases3 surj_pair)
  have g: "gn_ok g" "gi < length (gn_grains g)" using assms by (simp_all add: z gn_ok_def)
  have "length (gn_win g) = WIN_N" using g(1) by (simp add: gn_ok_def)
  from window_at_total [OF this] obtain w' where w': "window_at M (gn_win g) (gr_prog (gn_grains g ! gi)) = Some w'" by blast
  obtain v where "ring_read_frac M g (gr_pos (gn_grains g ! gi)) = Some v" using ring_read_total [OF g(1)] by blast
  then show ?thesis using g w' by (simp add: z grain_tick_def Let_def) (simp add: gn_ok_def)
qed

lemma record_total: "gn_ok g \<Longrightarrow> \<exists>g'. record_sample g x = Some g' \<and> gn_ok g'"
  using gn_ok_masked [of g "gn_write_pos g + 1"] by (auto simp: record_sample_def gn_ok_def)

lemma schedule_total:
  assumes "gn_ok g"
  shows "\<exists>g'. schedule M g = Some g' \<and> gn_ok g'"
proof -
  have "gn_ok (g\<lparr>gn_spawn_timer := 0\<rparr>)" using assms by (simp add: gn_ok_def)
  then obtain g1 where "spawn M (g\<lparr>gn_spawn_timer := 0\<rparr>) = Some g1" "gn_ok g1" using spawn_total by blast
  then show ?thesis using assms by (auto simp: schedule_def Let_def gn_ok_def split: prod.splits)
qed

lemma granular_tick_total:
  assumes "gn_ok g"
  shows "\<exists>y g'. granular_tick M g x = Some (y, g') \<and> gn_ok g'"
proof -
  obtain g1 where g1: "record_sample g x = Some g1" "gn_ok g1" using record_total [OF assms] by blast
  obtain g2 where g2: "schedule M g1 = Some g2" "gn_ok g2" using schedule_total [OF g1(2)] by blast
  have "\<exists>z. for_in (grain_tick M) [0..<MAX_GRAINS] ((fl_nat (fm M) 0, fl_nat (fm M) 0, fl_nat (fm M) 0), g2) = Some z \<and> gn_ok (snd z)"
    by (rule for_in_upt [where I = "\<lambda>_ z. gn_ok (snd z)"]) (use g2(2) grain_tick_total in auto)
  then show ?thesis using g1(1) g2(1) by (auto simp: granular_tick_def Let_def)
qed


section \<open>The cloud is never louder than its input\<close>

lemma lerp_bound:
  fixes a b t A :: real
  assumes "\<bar>a\<bar> \<le> A" "\<bar>b\<bar> \<le> A" "0 \<le> t" "t \<le> 1"
  shows "\<bar>a + (b - a) * t\<bar> \<le> A"
proof -
  have "a + (b - a) * t = (1 - t) * a + t * b" by (simp add: algebra_simps)
  moreover have "\<bar>(1 - t) * a\<bar> \<le> (1 - t) * A" "\<bar>t * b\<bar> \<le> t * A" using assms by (simp_all add: abs_mult mult_left_mono)
  moreover have "(1 - t) * A + t * A = A" by (simp add: algebra_simps)
  ultimately show ?thesis by linarith
qed

lemma frac_range: "0 \<le> x \<Longrightarrow> x < 2 ^ 32 \<Longrightarrow> 0 \<le> x - real (usize_of x) \<and> x - real (usize_of x) \<le> 1" for x :: real
  by (simp add: usize_of_small) linarith

lemma hann_window_range: "i < N \<Longrightarrow> 0 \<le> hann_window exact_math N ! i \<and> hann_window exact_math N ! i \<le> 1"
proof -
  assume "i < N"
  moreover have "0 \<le> 1 / 2 - cos z / 2 \<and> 1 / 2 - cos z / 2 \<le> 1" for z :: real using cos_ge_minus_one [of z] cos_le_one [of z] by linarith
  ultimately show ?thesis by (simp add: hann_window_def Let_def del: le_diff_eq diff_le_eq)
qed

lemma window_at_range:
  assumes "0 \<le> p"
  shows "\<exists>w. window_at exact_math (hann_window exact_math WIN_N) p = Some w \<and> 0 \<le> w \<and> w \<le> 1"
proof -
  define T where "T = hann_window exact_math WIN_N"
  have len: "length T = 1024" by (simp add: T_def hann_window_def WIN_N_def)
  have T: "0 \<le> T ! i \<and> T ! i \<le> 1" if "i < 1024" for i using hann_window_range [of i WIN_N] that by (simp add: T_def WIN_N_def)
  define x where "x = p * 1023"
  define i where "i = usize_of x"
  show ?thesis
  proof (cases "1023 \<le> i")
    case True
    then have "window_at exact_math T p = Some (T ! 1023)" by (simp add: window_at_def Let_def len x_def [symmetric] i_def [symmetric])
    then show ?thesis using T [of 1023] unfolding T_def [symmetric] by simp
  next
    case False
    have "0 \<le> x" using assms by (simp add: x_def)
    moreover have "x < 2 ^ 32"
    proof (rule ccontr)
      assume "\<not> x < 2 ^ 32"
      then have "4294967296 \<le> \<lfloor>x\<rfloor>" by (simp add: le_floor_iff)
      then have "4294967296 \<le> nat \<lfloor>x\<rfloor>" by linarith
      then show False using False by (simp add: i_def usize_of_def)
    qed
    ultimately have t: "0 \<le> x - real i \<and> x - real i \<le> 1" using frac_range [of x] by (simp add: i_def)
    have "0 \<le> T ! i" "T ! i \<le> 1" "0 \<le> T ! (i + 1)" "T ! (i + 1) \<le> 1" using T [of i] T [of "i + 1"] False by auto
    then have "\<bar>(T ! i - 1 / 2) + ((T ! (i + 1) - 1 / 2) - (T ! i - 1 / 2)) * (x - real i)\<bar> \<le> 1 / 2"
      using t by (intro lerp_bound) linarith+
    then have "\<bar>(T ! i + (T ! (i + 1) - T ! i) * (x - real i)) - 1 / 2\<bar> \<le> 1 / 2" by (simp add: algebra_simps)
    then have "0 \<le> T ! i + (T ! (i + 1) - T ! i) * (x - real i) \<and> T ! i + (T ! (i + 1) - T ! i) * (x - real i) \<le> 1" by linarith
    moreover have "window_at exact_math T p = Some (T ! i + (T ! (i + 1) - T ! i) * (x - real i))"
      using False by (simp add: window_at_def Let_def len x_def [symmetric] i_def [symmetric])
    ultimately show ?thesis unfolding T_def [symmetric] by blast
  qed
qed

definition grain_ok :: "real \<Rightarrow> real grain \<Rightarrow> bool" where
  "grain_ok cap gr \<longleftrightarrow> 0 \<le> gr_pos gr \<and> gr_pos gr < cap \<and> 0 \<le> gr_rate gr \<and> gr_rate gr \<le> cap \<and> 0 \<le> gr_prog gr \<and> 0 \<le> gr_prog_inc gr \<and> \<bar>gr_gain_l gr\<bar> \<le> 1 \<and> \<bar>gr_gain_r gr\<bar> \<le> 1"

definition gn_bounded :: "real \<Rightarrow> real granular \<Rightarrow> bool" where
  "gn_bounded A g \<longleftrightarrow> gn_ok g \<and> 0 \<le> A \<and> (\<forall>v\<in>set (gn_buf g). \<bar>v\<bar> \<le> A) \<and> 0 \<le> gn_pitch g \<and> gn_pitch g \<le> 2048 \<and>
     0 \<le> gn_detune g \<and> gn_detune g \<le> 1 \<and> 0 < gn_grain_len g \<and> gn_win g = hann_window exact_math WIN_N \<and>
     4096 \<le> length (gn_buf g) \<and> length (gn_buf g) < 2 ^ 32 \<and> gn_capf g = real (length (gn_buf g)) \<and>
     (\<forall>gr\<in>set (gn_grains g). grain_ok (gn_capf g) gr)"

lemma ring_read_bound:
  assumes g: "gn_bounded A g" and p: "0 \<le> p" "p < gn_capf g"
  shows "\<exists>v. ring_read_frac exact_math g p = Some v \<and> \<bar>v\<bar> \<le> A"
proof -
  have m: "i AND gn_mask g < length (gn_buf g)" for i using g by (intro gn_ok_masked) (simp add: gn_bounded_def)
  have "\<bar>gn_buf g ! (i AND gn_mask g)\<bar> \<le> A" for i using g m [of i] by (simp add: gn_bounded_def)
  note b = this
  define i where "i = usize_of p"
  have "gn_capf g < 2 ^ 32" using g by (simp add: gn_bounded_def)
  then have "0 \<le> p - real i" "p - real i \<le> 1" using frac_range [of p] p unfolding i_def by linarith+
  with b have "\<bar>gn_buf g ! (i AND gn_mask g) + (gn_buf g ! ((i + 1) AND gn_mask g) - gn_buf g ! (i AND gn_mask g)) * (p - real i)\<bar> \<le> A"
    by (intro lerp_bound) simp_all
  moreover have "ring_read_frac exact_math g p =
      Some (gn_buf g ! (i AND gn_mask g) + (gn_buf g ! ((i + 1) AND gn_mask g) - gn_buf g ! (i AND gn_mask g)) * (p - real i))"
    using m [of i] m [of "i + 1"] by (simp add: ring_read_frac_def Let_def i_def [symmetric])
  ultimately show ?thesis by blast
qed

lemma grain_tick_bound:
  assumes gi: "gi < MAX_GRAINS" and g: "gn_bounded A g" and w: "0 \<le> w" "\<bar>l\<bar> \<le> A * w" "\<bar>r\<bar> \<le> A * w"
  shows "\<exists>l' r' w' g'. grain_tick exact_math gi ((l, r, w), g) = Some ((l', r', w'), g') \<and> gn_bounded A g' \<and> 0 \<le> w' \<and> \<bar>l'\<bar> \<le> A * w' \<and> \<bar>r'\<bar> \<le> A * w'"
proof -
  define gr where "gr = gn_grains g ! gi"
  have len: "gi < length (gn_grains g)" using gi g by (simp add: gn_bounded_def gn_ok_def)
  then have gr: "grain_ok (gn_capf g) gr" using g unfolding gn_bounded_def gr_def by (metis nth_mem)
  have A: "0 \<le> A" using g by (simp add: gn_bounded_def)
  obtain u where u: "window_at exact_math (gn_win g) (gr_prog gr) = Some u" "0 \<le> u" "u \<le> 1"
    using window_at_range [of "gr_prog gr"] gr g by (auto simp: gn_bounded_def grain_ok_def)
  obtain v where v: "ring_read_frac exact_math g (gr_pos gr) = Some v" "\<bar>v\<bar> \<le> A"
    using ring_read_bound [OF g, of "gr_pos gr"] gr by (auto simp: grain_ok_def)
  show ?thesis
  proof (cases "gr_active gr")
    case False
    then show ?thesis using g w len by (auto simp: grain_tick_def gr_def Let_def)
  next
    case True
    have vu: "\<bar>v * u\<bar> \<le> A * u" using u v by (simp add: abs_mult mult_right_mono)
    have s: "\<bar>v * u * k\<bar> \<le> A * u" if "\<bar>k\<bar> \<le> 1" for k
    proof -
      have "\<bar>v * u\<bar> * \<bar>k\<bar> \<le> \<bar>v * u\<bar>" using that by (intro mult_left_le) simp_all
      then show ?thesis using vu by (simp add: abs_mult)
    qed
    have gain: "\<bar>gr_gain_l gr\<bar> \<le> 1" "\<bar>gr_gain_r gr\<bar> \<le> 1" using gr by (simp_all add: grain_ok_def)
    have sum: "\<bar>l + v * u * gr_gain_l gr\<bar> \<le> A * (w + u)" "\<bar>r + v * u * gr_gain_r gr\<bar> \<le> A * (w + u)"
      using s [OF gain(1)] s [OF gain(2)] w(2,3) unfolding distrib_left by linarith+
    define pos where "pos = (if gn_capf g \<le> gr_pos gr + gr_rate gr then gr_pos gr + gr_rate gr - gn_capf g else gr_pos gr + gr_rate gr)"
    define gr' where "gr' = gr\<lparr>gr_pos := pos, gr_prog := gr_prog gr + gr_prog_inc gr,
      gr_active := (if 1 \<le> gr_prog gr + gr_prog_inc gr then False else gr_active gr)\<rparr>"
    have "grain_ok (gn_capf g) gr'" using gr by (simp add: gr'_def grain_ok_def pos_def)
    then have "gn_bounded A (g\<lparr>gn_grains := (gn_grains g)[gi := gr']\<rparr>)"
      using g by (auto simp: gn_bounded_def gn_ok_def dest!: set_update_subset_insert [THEN subsetD])
    moreover have "grain_tick exact_math gi ((l, r, w), g) =
        Some ((l + v * u * gr_gain_l gr, r + v * u * gr_gain_r gr, w + u), g\<lparr>gn_grains := (gn_grains g)[gi := gr']\<rparr>)"
    proof -
      have "ring_read_frac exact_math g (gr_pos (gn_grains g ! gi)) = Some v" "window_at exact_math (gn_win g) (gr_prog (gn_grains g ! gi)) = Some u"
        using u(1) v(1) by (simp_all add: gr_def)
      then show ?thesis using len True by (simp add: grain_tick_def Let_def gr_def gr'_def pos_def)
    qed
    ultimately show ?thesis using sum w(1) u(2) by (metis add_nonneg_nonneg)
  qed
qed


lemma record_bounded:
  assumes "gn_bounded A g" "\<bar>x\<bar> \<le> A"
  shows "\<exists>g'. record_sample g x = Some g' \<and> gn_bounded A g'"
proof -
  have "\<exists>g'. record_sample g x = Some g' \<and> gn_ok g'" using assms(1) by (intro record_total) (simp add: gn_bounded_def)
  then obtain g' where g': "record_sample g x = Some g'" "gn_ok g'" by blast
  then have "gn_bounded A g'"
    using assms by (auto simp: record_sample_def gn_bounded_def idx_set_def split: if_splits dest!: set_update_subset_insert [THEN subsetD])
  then show ?thesis using g'(1) by blast
qed

lemma spawned_rate:
  assumes "0 \<le> p" "p \<le> 2048" "0 \<le> d" "d \<le> 1" "4096 \<le> cap"
  shows "0 \<le> p * (1 + d * fst (next_f32 exact q)) \<and> p * (1 + d * fst (next_f32 exact q)) \<le> cap"
proof -
  define u where "u = d * fst (next_f32 exact q)"
  have "\<bar>fst (next_f32 exact q)\<bar> \<le> 1" using next_f32_range [of q] by (simp add: abs_le_iff)
  then have "\<bar>u\<bar> \<le> 1" unfolding u_def abs_mult using assms(3,4) by (intro mult_le_one) simp_all
  then have "0 \<le> 1 + u" "1 + u \<le> 2" by linarith+
  then have "0 \<le> p * (1 + u)" "p * (1 + u) \<le> 2048 * 2"
    using assms(1,2) by (simp, intro mult_mono) simp_all
  then show ?thesis using assms(5) unfolding u_def by linarith
qed

lemma started_inside: "gn_bounded A g \<Longrightarrow> real (i AND gn_mask g) < gn_capf g"
  using gn_ok_masked [of g i] by (simp add: gn_bounded_def)

lemma spawn_bounded:
  assumes g: "gn_bounded A g"
  shows "\<exists>g'. spawn exact_math g = Some g' \<and> gn_bounded A g'"
proof (cases "free_slot (gn_grains g)")
  case None
  then show ?thesis using g by (simp add: spawn_def)
next
  case (Some slot)
  have len: "slot < length (gn_grains g)" by (rule free_slot_less [OF Some])
  note b = g [unfolded gn_bounded_def]
  have rate: "0 \<le> gn_pitch g * (1 + gn_detune g * fst (next_f32 exact q)) \<and>
      gn_pitch g * (1 + gn_detune g * fst (next_f32 exact q)) \<le> real (length (gn_buf g))" for q
    by (rule spawned_rate) (use b in auto)
  have "\<exists>gr rng. spawn exact_math g = Some (g\<lparr>gn_grains := (gn_grains g)[slot := gr], gn_rng := rng\<rparr>) \<and> grain_ok (gn_capf g) gr"
    unfolding spawn_def Some Let_def split_def option.case idx_set_Some [OF len] Option.bind.simps
    by (rule exI, rule exI, rule conjI, rule refl)
      (use b rate started_inside [OF g] in \<open>simp add: grain_ok_def\<close>)
  then obtain gr rng where "spawn exact_math g = Some (g\<lparr>gn_grains := (gn_grains g)[slot := gr], gn_rng := rng\<rparr>)" "grain_ok (gn_capf g) gr" by blast
  then show ?thesis using b by (auto simp: gn_bounded_def gn_ok_def dest!: set_update_subset_insert [THEN subsetD])
qed

lemma gn_bounded_schedule [simp]:
  "gn_bounded A (g\<lparr>gn_spawn_timer := t\<rparr>) = gn_bounded A g" "gn_bounded A (g\<lparr>gn_rng := q\<rparr>) = gn_bounded A g"
  "gn_bounded A (g\<lparr>gn_next_spawn := n\<rparr>) = gn_bounded A g" "gn_bounded A (g\<lparr>gn_spawn_interval := n\<rparr>) = gn_bounded A g"
  "gn_bounded A (g\<lparr>gn_pan_spread := s\<rparr>) = gn_bounded A g" "gn_bounded A (g\<lparr>gn_frozen := f\<rparr>) = gn_bounded A g"
  "gn_bounded A (g\<lparr>gn_backoff_min := n\<rparr>) = gn_bounded A g"
  by (simp_all add: gn_bounded_def gn_ok_def)

lemma schedule_bounded:
  assumes g: "gn_bounded A g"
  shows "\<exists>g'. schedule exact_math g = Some g' \<and> gn_bounded A g'"
proof -
  obtain g1 where "spawn exact_math (g\<lparr>gn_spawn_timer := 0\<rparr>) = Some g1" "gn_bounded A g1"
    using spawn_bounded [of A "g\<lparr>gn_spawn_timer := 0\<rparr>"] g by auto
  then show ?thesis using g by (auto simp: schedule_def Let_def split: prod.splits)
qed

lemma granular_tick_bounded:
  assumes g: "gn_bounded A g" and x: "\<bar>x\<bar> \<le> A"
  shows "\<exists>l r g'. granular_tick exact_math g x = Some ((l, r), g') \<and> gn_bounded A g' \<and> \<bar>l\<bar> \<le> A \<and> \<bar>r\<bar> \<le> A"
proof -
  obtain g1 where g1: "record_sample g x = Some g1" "gn_bounded A g1" using record_bounded [OF g x] by blast
  obtain g2 where g2: "schedule exact_math g1 = Some g2" "gn_bounded A g2" using schedule_bounded [OF g1(2)] by blast
  let ?I = "\<lambda>(_ :: nat) z. gn_bounded A (snd z) \<and> 0 \<le> snd (snd (fst z)) \<and> \<bar>fst (fst z)\<bar> \<le> A * snd (snd (fst z)) \<and>
    \<bar>fst (snd (fst z))\<bar> \<le> A * snd (snd (fst z))"
  have "\<exists>z. for_in (grain_tick exact_math) [0..<MAX_GRAINS] ((0, 0, 0), g2) = Some z \<and> ?I MAX_GRAINS z"
  proof (rule for_in_upt [where I = ?I])
    fix i and z :: "(real \<times> real \<times> real) \<times> real granular"
    assume i: "i < MAX_GRAINS" and z: "?I i z"
    obtain l r w g where e: "z = ((l, r, w), g)" by (metis prod_cases3 surj_pair)
    show "\<exists>z'. grain_tick exact_math i z = Some z' \<and> ?I (Suc i) z'"
      using grain_tick_bound [OF i, of A g w l r] z by (auto simp: e)
  qed (use g2 in simp_all)
  then obtain l r w g3 where z: "for_in (grain_tick exact_math) [0..<MAX_GRAINS] ((0, 0, 0), g2) = Some ((l, r, w), g3)"
    "gn_bounded A g3" "0 \<le> w" "\<bar>l\<bar> \<le> A * w" "\<bar>r\<bar> \<le> A * w" by auto
  define n where "n = max w (1 / 10)"
  have A: "0 \<le> A" using g by (simp add: gn_bounded_def)
  have n: "0 < n" "w \<le> n" by (simp_all add: n_def)
  have le: "\<bar>y * (1 / n)\<bar> \<le> A" if "\<bar>y\<bar> \<le> A * w" for y
  proof -
    have "\<bar>y\<bar> \<le> A * n" using that mult_left_mono [OF n(2) A] by linarith
    then show ?thesis using n(1) by (simp add: abs_mult divide_le_eq)
  qed
  have "granular_tick exact_math g x = Some ((l * (1 / n), r * (1 / n)), g3)"
    using g1(1) g2(1) z(1) by (simp add: granular_tick_def Let_def n_def)
  then show ?thesis using z(2) le [OF z(4)] le [OF z(5)] by blast
qed

lemma granular_process_bounded:
  "gn_bounded A g \<Longrightarrow> \<forall>x\<in>set xs. \<bar>x\<bar> \<le> A \<Longrightarrow> length ol = length xs \<Longrightarrow> length orr = length xs \<Longrightarrow>
    \<exists>ls rs g'. granular_process exact_math g xs ol orr = Some ((ls, rs), g') \<and> gn_bounded A g' \<and> (\<forall>y\<in>set ls \<union> set rs. \<bar>y\<bar> \<le> A)"
proof (induction xs arbitrary: g ol orr)
  case (Cons x xs)
  obtain o1 ol' o2 orr' where o: "ol = o1 # ol'" "orr = o2 # orr'" "length ol' = length xs" "length orr' = length xs"
    using Cons.prems(3,4) by (metis length_Suc_conv length_Cons)
  obtain l r g1 where t: "granular_tick exact_math g x = Some ((l, r), g1)" "gn_bounded A g1" "\<bar>l\<bar> \<le> A" "\<bar>r\<bar> \<le> A"
    using granular_tick_bounded [OF Cons.prems(1), of x] Cons.prems(2) by auto
  obtain ls rs g' where "granular_process exact_math g1 xs ol' orr' = Some ((ls, rs), g')" "gn_bounded A g'" "\<forall>y\<in>set ls \<union> set rs. \<bar>y\<bar> \<le> A"
    using Cons.IH [OF t(2) _ o(3,4)] Cons.prems(2) by auto
  then show ?case using t by (simp add: o(1,2))
qed simp

text \<open>Any use of the cloud: its blocks and its knobs, in any order.\<close>

datatype 'f cloud_call = Render_Block "'f list" | Grain_Len 'f 'f | Density 'f 'f | Pitch 'f | Detune 'f | Pan_Spread 'f | Hold bool | Reset

fun cloud_step :: "'f fmath \<Rightarrow> 'f granular \<Rightarrow> 'f cloud_call \<Rightarrow> (('f list \<times> 'f list) \<times> 'f granular) option" where
  "cloud_step M g (Render_Block xs) = granular_process M g xs xs xs"
| "cloud_step M g (Grain_Len sr s) = Some (([], []), set_grain_len M sr s g)"
| "cloud_step M g (Density sr n) = Some (([], []), set_density M sr n g)"
| "cloud_step M g (Pitch p) = Some (([], []), set_pitch p g)"
| "cloud_step M g (Detune d) = Some (([], []), set_detune M d g)"
| "cloud_step M g (Pan_Spread s) = Some (([], []), set_pan_spread (fm M) s g)"
| "cloud_step M g (Hold b) = Some (([], []), granular_set_frozen b g)"
| "cloud_step M g Reset = Some (([], []), granular_reset (fm M) g)"

fun call_ok :: "real \<Rightarrow> real cloud_call \<Rightarrow> bool" where
  "call_ok A (Render_Block xs) \<longleftrightarrow> list_all (\<lambda>x. \<bar>x\<bar> \<le> A) xs"
| "call_ok A (Pitch p) \<longleftrightarrow> 0 \<le> p \<and> p \<le> 2048"
| "call_ok A (Detune d) \<longleftrightarrow> d \<le> 1"
| "call_ok A _ \<longleftrightarrow> True"

lemma silent_ok: "1 \<le> cap \<Longrightarrow> grain_ok cap (grain_silent exact)"
  by (simp add: grain_ok_def grain_silent_def)

lemma cloud_step_bounded:
  assumes g: "gn_bounded A g" and c: "call_ok A c"
  shows "\<exists>ls rs g'. cloud_step exact_math g c = Some ((ls, rs), g') \<and> gn_bounded A g' \<and> (\<forall>y\<in>set ls \<union> set rs. \<bar>y\<bar> \<le> A)"
proof (cases c)
  case (Render_Block xs)
  then show ?thesis using granular_process_bounded [OF g, of xs xs xs] c by (auto simp: list_all_iff)
next
  case Reset
  have "gn_bounded A (granular_reset exact g)"
    using g silent_ok by (auto simp: gn_bounded_def gn_ok_def granular_reset_def)
  then show ?thesis using Reset by simp
qed (use g c in \<open>auto simp: gn_bounded_def gn_ok_def set_grain_len_def set_density_def set_pitch_def set_detune_def set_pan_spread_def
  granular_set_frozen_def Let_def\<close>)

text \<open>A rate below zero is not wrapped: a position before the start of the ring is read by extending the line through
  the first two samples, without bound.\<close>

lemma negative_position_extrapolates:
  assumes "gn_ok g" "4096 \<le> length (gn_buf g)" "0 \<le> p"
  shows "ring_read_frac exact_math g (- p) = Some (gn_buf g ! 0 - (gn_buf g ! 1 - gn_buf g ! 0) * p)"
proof -
  obtain k where k: "length (gn_buf g) = 2 ^ k" "gn_mask g = 2 ^ k - 1" using assms(1) unfolding gn_ok_def by (elim conjE exE)
  have "k \<noteq> 0" using assms(2) k(1) by (cases k) simp_all
  then have "odd (gn_mask g)" unfolding k(2) by (cases k) simp_all
  then have "1 AND gn_mask g = 1" by (simp add: one_and_eq odd_iff_mod_2_eq_one)
  moreover have "usize_of (- p) = 0" using assms(3) by (simp add: usize_of_def)
  moreover have "0 < length (gn_buf g)" using assms(2) by linarith
  ultimately show ?thesis using gn_ok_masked [OF assms(1), of 1]
    by (simp add: ring_read_frac_def Let_def idx_get_def algebra_simps)
qed

text \<open>C21: the granular cloud is safe and never louder than its input. In exact arithmetic, over any buffer a slice can
  be whose length is a power of two of at least 4096, and any sequence of blocks and knob changes, with
  input up to \<open>A\<close>, pitch ratios from 0 to 2048 and a detune of at most one: no call panics, and no output
  sample of either channel is greater than \<open>A\<close>, however many grains overlap. The setters do not enforce
  the ranges of pitch and detune; outside them a grain can run backwards out of the ring
  (\<open>negative_position_extrapolates\<close>).\<close>

theorem granular_cloud_bounded:
  assumes "4096 \<le> length buf" "length buf < 2 ^ 32" "is_power_of_two (length buf)" "0 < sample_rate" "0 \<le> A" "\<forall>c\<in>set calls. call_ok A c"
  shows "\<exists>g ys g'. granular_new exact_math buf sample_rate seed = Some g \<and> run_steps (cloud_step exact_math) g calls = Some (ys, g') \<and>
    (\<forall>(ls, rs)\<in>set ys. \<forall>y\<in>set ls \<union> set rs. \<bar>y\<bar> \<le> A)"
proof -
  have run: "\<exists>ys g'. run_steps (cloud_step exact_math) g cs = Some (ys, g') \<and> (\<forall>(ls, rs)\<in>set ys. \<forall>y\<in>set ls \<union> set rs. \<bar>y\<bar> \<le> A)"
    if "gn_bounded A g" "\<forall>c\<in>set cs. call_ok A c" for g cs
    using that
  proof (induction cs arbitrary: g)
    case (Cons c cs)
    obtain ls rs g1 where "cloud_step exact_math g c = Some ((ls, rs), g1)" "gn_bounded A g1" "\<forall>y\<in>set ls \<union> set rs. \<bar>y\<bar> \<le> A"
      using cloud_step_bounded [OF Cons.prems(1), of c] Cons.prems(2) by auto
    moreover obtain ys g' where "run_steps (cloud_step exact_math) g1 cs = Some (ys, g')" "\<forall>(ls, rs)\<in>set ys. \<forall>y\<in>set ls \<union> set rs. \<bar>y\<bar> \<le> A"
      using Cons.IH [OF calculation(2)] Cons.prems(2) by auto
    ultimately show ?case by auto
  qed simp
  obtain g where g: "granular_new exact_math buf sample_rate seed = Some g" "gn_ok g"
    using granular_new_ok [OF assms(1,3), of exact_math sample_rate seed] by blast
  then have "gn_bounded A g"
    using assms silent_ok by (auto simp: gn_bounded_def granular_new_def Let_def split: if_splits)
  then show ?thesis using run assms(6) g(1) by blast
qed

lemma granular_cloud_bounded_witness:
  "\<exists>g ys g'. granular_new exact_math (replicate 4096 0) 48000 7 = Some g \<and>
     run_steps (cloud_step exact_math) g [Render_Block [1, -1], Pitch 2, Hold True, Render_Block [1]] = Some (ys, g') \<and>
     (\<forall>(ls, rs)\<in>set ys. \<forall>y\<in>set ls \<union> set rs. \<bar>y\<bar> \<le> 1)"
proof -
  have "is_power_of_two (length (replicate 4096 (0 :: real)))" using is_power_of_two_pow [of 12] by simp
  moreover have "\<forall>c\<in>set [Render_Block [1, -1], Pitch 2, Hold True, Render_Block [1]]. call_ok 1 c" by simp
  ultimately show ?thesis
    using granular_cloud_bounded [of "replicate 4096 0" 48000 1] by (simp del: run_steps.simps)
qed

end
