(* ===== verification/Pad.thy ===== *)
theory Pad
  imports Freeze Granular Reverb
begin

text \<open>
  \<open>crates/daisy-dsp/src/pad.rs\<close>: the pad generator, a held or granulated texture (\<open>Freeze\<close>, \<open>Granular\<close>)
  swelled by an envelope into the reverberator (\<open>Reverb\<close>) and mixed with the dry input.
\<close>

section \<open>The generator\<close>

definition MAX_BLOCK :: nat where "MAX_BLOCK = 64"

datatype texture = Texture_Freeze | Texture_Granular

record 'f pad_drone =
  pd_freeze :: "'f freeze"
  pd_granular :: "'f granular"
  pd_reverb :: "'f fdn"
  pd_env :: "'f envelope"
  pd_mode :: texture
  pd_dry :: 'f
  pd_pad :: 'f
  pd_rev_mix :: 'f

definition pad_new ::
  "'f fmath \<Rightarrow> 'f list \<Rightarrow> 'f list \<Rightarrow> 'f list \<Rightarrow> 'f \<Rightarrow> 'f \<Rightarrow> 'f \<Rightarrow> 'f \<Rightarrow> nat \<Rightarrow> 32 word \<Rightarrow> 'f pad_drone option" where
  "pad_new M freeze_buf granular_buf reverb_buf sample_rate rt60_s damping_hz swell_s xfade_samples seed = (let F = fm M in do {
     z \<leftarrow> fz_new F freeze_buf xfade_samples;
     g \<leftarrow> granular_new M granular_buf sample_rate seed;
     r \<leftarrow> fdn_new M reverb_buf sample_rate rt60_s damping_hz (fl_nat F 1);
     Some \<lparr>pd_freeze = z, pd_granular = g, pd_reverb = r, pd_env = env_new M sample_rate swell_s swell_s, pd_mode = Texture_Freeze,
       pd_dry = fl_nat F 1, pd_pad = fl_div F (fl_nat F 6) (fl_nat F 10), pd_rev_mix = fl_div F (fl_nat F 7) (fl_nat F 10)\<rparr>
   })"

definition pad_set_mode :: "texture \<Rightarrow> 'f pad_drone \<Rightarrow> 'f pad_drone" where
  "pad_set_mode mode p = p\<lparr>pd_mode := mode\<rparr>"

definition pad_set_freeze :: "'f flops \<Rightarrow> bool \<Rightarrow> 'f pad_drone \<Rightarrow> 'f pad_drone option" where
  "pad_set_freeze F on p = do {
     p \<leftarrow> (case pd_mode p of
         Texture_Freeze \<Rightarrow>
           if on then do { z \<leftarrow> fz_freeze F (pd_freeze p); Some (p\<lparr>pd_freeze := z\<rparr>) }
           else Some (p\<lparr>pd_freeze := fz_unfreeze (pd_freeze p)\<rparr>)
       | Texture_Granular \<Rightarrow> Some (p\<lparr>pd_granular := granular_set_frozen on (pd_granular p)\<rparr>));
     Some (p\<lparr>pd_env := env_gate on (pd_env p)\<rparr>)
   }"

definition pad_is_frozen :: "'f pad_drone \<Rightarrow> bool" where
  "pad_is_frozen p = (case pd_mode p of Texture_Freeze \<Rightarrow> is_frozen (pd_freeze p) | Texture_Granular \<Rightarrow> granular_is_frozen (pd_granular p))"

definition pad_set_dry :: "'f \<Rightarrow> 'f pad_drone \<Rightarrow> 'f pad_drone" where
  "pad_set_dry level p = p\<lparr>pd_dry := level\<rparr>"

definition pad_set_pad :: "'f \<Rightarrow> 'f pad_drone \<Rightarrow> 'f pad_drone" where
  "pad_set_pad level p = p\<lparr>pd_pad := level\<rparr>"

definition pad_set_reverb_mix :: "'f flops \<Rightarrow> 'f \<Rightarrow> 'f pad_drone \<Rightarrow> 'f pad_drone" where
  "pad_set_reverb_mix F mix p = p\<lparr>pd_rev_mix := fl_clamp F mix (fl_nat F 0) (fl_nat F 1)\<rparr>"

text \<open>The active texture over one block, in stereo.\<close>

definition texture_block :: "'f fmath \<Rightarrow> 'f pad_drone \<Rightarrow> 'f list \<Rightarrow> (('f list \<times> 'f list) \<times> 'f pad_drone) option" where
  "texture_block M p mono_in = (case pd_mode p of
     Texture_Freeze \<Rightarrow> do {
       (ys, z) \<leftarrow> run_steps fz_tick (pd_freeze p) mono_in;
       Some ((ys, ys), p\<lparr>pd_freeze := z\<rparr>)
     }
   | Texture_Granular \<Rightarrow> do {
       let silence = replicate (length mono_in) (fl_nat (fm M) 0);
       (lr, g) \<leftarrow> granular_process M (pd_granular p) mono_in silence silence;
       Some (lr, p\<lparr>pd_granular := g\<rparr>)
     })"

text \<open>The levels of the envelope over \<open>n\<close> samples.\<close>

fun env_levels :: "'f fmath \<Rightarrow> nat \<Rightarrow> 'f envelope \<Rightarrow> 'f list \<times> 'f envelope" where
  "env_levels M 0 e = ([], e)"
| "env_levels M (Suc n) e = (let (y, e) = env_tick M e; (ys, e) = env_levels M n e in (y # ys, e))"

definition pad_blend :: "'f flops \<Rightarrow> 'f pad_drone \<Rightarrow> 'f list \<Rightarrow> 'f list \<Rightarrow> 'f list \<Rightarrow> nat \<Rightarrow> 'f" where
  "pad_blend F p inp t wet i = (let dm = fl_sub F (fl_nat F 1) (pd_rev_mix p) in
     fl_add F (fl_mul F (pd_dry p) (inp ! i))
       (fl_mul F (pd_pad p) (fl_add F (fl_mul F dm (t ! i)) (fl_mul F (pd_rev_mix p) (wet ! i)))))"

definition pad_process ::
  "'f fmath \<Rightarrow> 'f pad_drone \<Rightarrow> 'f list \<Rightarrow> 'f list \<Rightarrow> 'f list \<Rightarrow> 'f list \<Rightarrow> (('f list \<times> 'f list) \<times> 'f pad_drone) option" where
  "pad_process M p in_l in_r out_l out_r = (let F = fm M; n = length in_l; half = fl_half F in
     if MAX_BLOCK < n \<or> length in_r < n \<or> length out_l < n \<or> length out_r < n then None
     else do {
       let mono_in = map (\<lambda>i. fl_mul F half (fl_add F (in_l ! i) (in_r ! i))) [0..<n];
       ((tl, tr), p) \<leftarrow> texture_block M p mono_in;
       let (es, e) = env_levels M n (pd_env p);
       let tl = map (\<lambda>i. fl_mul F (tl ! i) (es ! i)) [0..<n];
       let tr = map (\<lambda>i. fl_mul F (tr ! i) (es ! i)) [0..<n];
       let send = map (\<lambda>i. fl_mul F half (fl_add F (tl ! i) (tr ! i))) [0..<n];
       let silence = replicate n (fl_nat F 0);
       ((wet_l, wet_r), r) \<leftarrow> fdn_process M (pd_reverb p) send silence silence;
       Some ((map (pad_blend F p in_l tl wet_l) [0..<n] @ drop n out_l, map (pad_blend F p in_r tr wet_r) [0..<n] @ drop n out_r),
         p\<lparr>pd_env := e, pd_reverb := r\<rparr>)
     })"

definition pad_reset :: "'f flops \<Rightarrow> 'f pad_drone \<Rightarrow> 'f pad_drone option" where
  "pad_reset F p = do {
     r \<leftarrow> fdn_reset F (pd_reverb p);
     Some (p\<lparr>pd_freeze := fz_reset F (pd_freeze p), pd_granular := granular_reset F (pd_granular p), pd_reverb := r,
       pd_env := env_reset F (pd_env p)\<rparr>)
   }"

section \<open>No call panics\<close>

definition pad_ok :: "real pad_drone \<Rightarrow> bool" where
  "pad_ok p \<longleftrightarrow> (\<exists>cap x. fz_ok cap x (pd_freeze p)) \<and> gn_ok (pd_granular p) \<and> fdn_ok (pd_reverb p)"

lemma fz_run_total: "fz_ok cap x z \<Longrightarrow> \<exists>ys z'. run_steps fz_tick z xs = Some (ys, z') \<and> fz_ok cap x z'"
  by (cases "fz_frozen z") (meson fz_play fz_record)+

lemma granular_process_total:
  "gn_ok g \<Longrightarrow> length ol = length xs \<Longrightarrow> length orr = length xs \<Longrightarrow>
    \<exists>lr g'. granular_process M g xs ol orr = Some (lr, g') \<and> gn_ok g'"
proof (induction xs arbitrary: g ol orr)
  case (Cons x xs)
  obtain o1 ol' o2 orr' where o: "ol = o1 # ol'" "orr = o2 # orr'" "length ol' = length xs" "length orr' = length xs"
    using Cons.prems(2,3) by (metis length_Suc_conv length_Cons)
  obtain y g1 where y: "granular_tick M g x = Some (y, g1)" "gn_ok g1" using granular_tick_total [OF Cons.prems(1)] by blast
  obtain lr g' where "granular_process M g1 xs ol' orr' = Some (lr, g')" "gn_ok g'" using Cons.IH [OF y(2) o(3,4)] by blast
  then show ?case using y(1) by (cases y, cases lr) (simp add: o(1,2))
qed simp

lemma texture_block_total:
  assumes "pad_ok p"
  shows "\<exists>lr p'. texture_block exact_math p xs = Some (lr, p') \<and> pad_ok p'"
proof (cases "pd_mode p")
  case Texture_Freeze
  obtain cap x where z: "fz_ok cap x (pd_freeze p)" using assms by (auto simp: pad_ok_def)
  obtain ys z' where "run_steps fz_tick (pd_freeze p) xs = Some (ys, z')" "fz_ok cap x z'" using fz_run_total [OF z] by blast
  then show ?thesis using assms Texture_Freeze by (auto simp: texture_block_def pad_ok_def)
next
  case Texture_Granular
  have "gn_ok (pd_granular p)" using assms by (simp add: pad_ok_def)
  then obtain lr g' where "granular_process exact_math (pd_granular p) xs (replicate (length xs) 0) (replicate (length xs) 0) = Some (lr, g')" "gn_ok g'"
    using granular_process_total [of "pd_granular p" "replicate (length xs) 0" xs "replicate (length xs) 0" exact_math] by auto
  then show ?thesis using assms Texture_Granular by (auto simp: texture_block_def pad_ok_def)
qed

lemma pad_process_total:
  assumes p: "pad_ok p" and len: "length xl \<le> MAX_BLOCK" "length xr = length xl" "length ol = length xl" "length orr = length xl"
  shows "\<exists>ls rs p'. pad_process exact_math p xl xr ol orr = Some ((ls, rs), p') \<and> length ls = length xl \<and> length rs = length xl \<and> pad_ok p'"
proof -
  obtain tl tr p1 where p1: "texture_block exact_math p (map (\<lambda>i. 1 / 2 * (xl ! i + xr ! i)) [0..<length xl]) = Some ((tl, tr), p1)" "pad_ok p1"
    using texture_block_total [OF p, of "map (\<lambda>i. 1 / 2 * (xl ! i + xr ! i)) [0..<length xl]"] by auto
  obtain es e where es: "env_levels exact_math (length xl) (pd_env p1) = (es, e)" by (metis surj_pair)
  have r: "fdn_ok (pd_reverb p1)" using p1(2) by (simp add: pad_ok_def)
  obtain wl wr r' where "fdn_process exact_math (pd_reverb p1)
      (map (\<lambda>i. 1 / 2 * (map (\<lambda>i. tl ! i * es ! i) [0..<length xl] ! i + map (\<lambda>i. tr ! i * es ! i) [0..<length xl] ! i)) [0..<length xl])
      (replicate (length xl) 0) (replicate (length xl) 0) = Some ((wl, wr), r')" "fdn_ok r'"
    using fdn_process_ok [OF r, of "replicate (length xl) 0" "map (\<lambda>i. 1 / 2 * (map (\<lambda>i. tl ! i * es ! i) [0..<length xl] ! i +
      map (\<lambda>i. tr ! i * es ! i) [0..<length xl] ! i)) [0..<length xl]" "replicate (length xl) 0"] by auto
  then show ?thesis using p1 es len
    by (simp add: pad_process_def Let_def del: times_divide_eq_left) (simp add: pad_ok_def)
qed

text \<open>Any use of the pad.\<close>

datatype 'f pad_call = Pad_Block "'f list" "'f list" | Pad_Mode texture | Pad_Freeze bool | Pad_Levels 'f 'f 'f | Pad_Reset

fun pad_step :: "'f fmath \<Rightarrow> 'f pad_drone \<Rightarrow> 'f pad_call \<Rightarrow> (('f list \<times> 'f list) \<times> 'f pad_drone) option" where
  "pad_step M p (Pad_Block xl xr) = pad_process M p xl xr xl xr"
| "pad_step M p (Pad_Mode m) = Some (([], []), pad_set_mode m p)"
| "pad_step M p (Pad_Freeze on) = do { p \<leftarrow> pad_set_freeze (fm M) on p; Some (([], []), p) }"
| "pad_step M p (Pad_Levels d l m) = Some (([], []), pad_set_reverb_mix (fm M) m (pad_set_pad l (pad_set_dry d p)))"
| "pad_step M p Pad_Reset = do { p \<leftarrow> pad_reset (fm M) p; Some (([], []), p) }"

fun pad_call_ok :: "'f pad_call \<Rightarrow> bool" where
  "pad_call_ok (Pad_Block xl xr) \<longleftrightarrow> length xl \<le> MAX_BLOCK \<and> length xr = length xl"
| "pad_call_ok _ \<longleftrightarrow> True"

fun pad_frames :: "'f pad_call \<Rightarrow> nat" where
  "pad_frames (Pad_Block xl xr) = length xl"
| "pad_frames _ = 0"

lemma fdn_reset_ok: "fdn_ok r \<Longrightarrow> \<exists>r'. fdn_reset exact r = Some r' \<and> fdn_ok r'"
proof -
  assume r: "fdn_ok r"
  have "\<forall>i<8. (0::nat) < DELAYS ! i" "\<forall>k<4. (0::nat) < DIFF_DELAYS ! k"
    unfolding all_lines all_diffusers by (simp_all add: DELAYS_def DIFF_DELAYS_def)
  then show ?thesis using r by (auto simp: fdn_reset_def fdn_ok_def LINES_def NDIFF_def)
qed

lemma pad_step_total:
  assumes p: "pad_ok p" and c: "pad_call_ok c"
  shows "\<exists>ls rs p'. pad_step exact_math p c = Some ((ls, rs), p') \<and> length ls = pad_frames c \<and> length rs = pad_frames c \<and> pad_ok p'"
proof (cases c)
  case (Pad_Block xl xr)
  then show ?thesis using pad_process_total [OF p, of xl xr xl xr] c by auto
next
  case (Pad_Freeze on)
  obtain cap x where z: "fz_ok cap x (pd_freeze p)" using p by (auto simp: pad_ok_def)
  have "\<exists>z'. fz_freeze exact (pd_freeze p) = Some z' \<and> fz_ok cap x z'"
    using fz_freeze_ok [OF z] z by (cases "fz_frozen (pd_freeze p)") (auto simp: fz_freeze_def)
  then obtain z' where "fz_freeze exact (pd_freeze p) = Some z'" "fz_ok cap x z'" by blast
  moreover have "fz_ok cap x (fz_unfreeze (pd_freeze p))" using z by (simp add: fz_ok_def fz_unfreeze_def)
  moreover have "gn_ok (granular_set_frozen on (pd_granular p))" using p by (simp add: pad_ok_def gn_ok_def granular_set_frozen_def)
  ultimately show ?thesis using p Pad_Freeze by (auto simp: pad_set_freeze_def pad_ok_def split: texture.splits)
next
  case Pad_Reset
  obtain r' where r': "fdn_reset exact (pd_reverb p) = Some r'" "fdn_ok r'" using fdn_reset_ok p by (auto simp: pad_ok_def)
  obtain cap x where "fz_ok cap x (pd_freeze p)" using p by (auto simp: pad_ok_def)
  then have "fz_ok cap x (fz_reset exact (pd_freeze p))" by (auto simp: fz_ok_def fz_reset_def)
  moreover have "gn_ok (granular_reset exact (pd_granular p))" using p by (auto simp: pad_ok_def gn_ok_def granular_reset_def)
  ultimately show ?thesis using Pad_Reset r' by (auto simp: pad_reset_def pad_ok_def)
qed (use p in \<open>auto simp: pad_set_mode_def pad_set_reverb_mix_def pad_set_pad_def pad_set_dry_def pad_ok_def\<close>)

text \<open>C23: the pad never panics. In exact arithmetic, over buffers of the sizes the code asks for and from a sample rate
  of 10 Hz, any sequence of blocks of at most 64 frames, texture switches, holds, releases, level changes and resets, in
  any order, returns, and every block gives as many frames as it takes.\<close>

theorem pad_total:
  assumes "8 \<le> length freeze_buf" "4096 \<le> length granular_buf" "is_power_of_two (length granular_buf)"
    "REQUIRED_BUF \<le> length reverb_buf" "10 \<le> sample_rate" "\<forall>c\<in>set calls. pad_call_ok c"
  shows "\<exists>p ys p'. pad_new exact_math freeze_buf granular_buf reverb_buf sample_rate rt60_s damping_hz swell_s xfade seed = Some p \<and>
    run_steps (pad_step exact_math) p calls = Some (ys, p') \<and>
    map (\<lambda>(ls, rs). (length ls, length rs)) ys = map (\<lambda>c. (pad_frames c, pad_frames c)) calls"
proof -
  have run: "\<exists>ys p'. run_steps (pad_step exact_math) p cs = Some (ys, p') \<and>
      map (\<lambda>(ls, rs). (length ls, length rs)) ys = map (\<lambda>c. (pad_frames c, pad_frames c)) cs"
    if "pad_ok p" "\<forall>c\<in>set cs. pad_call_ok c" for p cs
    using that
  proof (induction cs arbitrary: p)
    case (Cons c cs)
    obtain ls rs p1 where "pad_step exact_math p c = Some ((ls, rs), p1)" "length ls = pad_frames c" "length rs = pad_frames c" "pad_ok p1"
      using pad_step_total [OF Cons.prems(1), of c] Cons.prems(2) by auto
    moreover obtain ys p' where "run_steps (pad_step exact_math) p1 cs = Some (ys, p')"
      "map (\<lambda>(ls, rs). (length ls, length rs)) ys = map (\<lambda>c. (pad_frames c, pad_frames c)) cs"
      using Cons.IH [OF calculation(4)] Cons.prems(2) by auto
    ultimately show ?case by auto
  qed simp
  obtain z where z: "fz_new exact freeze_buf xfade = Some z" "fz_ok (length freeze_buf) (max 1 (min xfade (length freeze_buf div 4))) z"
    using fz_new_ok [OF assms(1)] by blast
  obtain g where g: "granular_new exact_math granular_buf sample_rate seed = Some g" "gn_ok g" using granular_new_ok [OF assms(2,3)] by blast
  obtain r where r: "fdn_new exact_math reverb_buf sample_rate rt60_s damping_hz 1 = Some r" "fdn_ok r" using fdn_new_ok [OF assms(4,5)] by blast
  obtain p where p: "pad_new exact_math freeze_buf granular_buf reverb_buf sample_rate rt60_s damping_hz swell_s xfade seed = Some p" "pad_ok p"
    using z g r by (auto simp: pad_new_def Let_def pad_ok_def)
  then show ?thesis using run [OF p(2) assms(6)] by blast
qed

lemma pad_total_witness:
  "\<exists>p ys p'. pad_new exact_math (replicate 8 0) (replicate 4096 0) (replicate 11844 0) 48000 2 6000 1 2 7 = Some p \<and>
     run_steps (pad_step exact_math) p [Pad_Block [1, 2] [3, 4], Pad_Freeze True, Pad_Mode Texture_Granular, Pad_Block [1] [1], Pad_Reset] = Some (ys, p') \<and>
     map (\<lambda>(ls, rs). (length ls, length rs)) ys = [(2, 2), (0, 0), (0, 0), (1, 1), (0, 0)]"
proof -
  let ?calls = "[Pad_Block [1, 2] [3, 4], Pad_Freeze True, Pad_Mode Texture_Granular, Pad_Block [1] [1], Pad_Reset] :: real pad_call list"
  have sizes: "8 \<le> length (replicate 8 (0 :: real))" "4096 \<le> length (replicate 4096 (0 :: real))"
    "is_power_of_two (length (replicate 4096 (0 :: real)))" "REQUIRED_BUF \<le> length (replicate 11844 (0 :: real))" "10 \<le> (48000 :: real)"
    using is_power_of_two_pow [of 12] by (simp_all add: starts_delays(4))
  have "\<forall>c\<in>set ?calls. pad_call_ok c" by (simp add: MAX_BLOCK_def)
  from pad_total [OF sizes this, of 2 6000 1 2 7] show ?thesis by (simp add: numeral_2_eq_2 del: run_steps.simps)
qed

end
