(* ===== verification/Dynamics.thy ===== *)
theory Dynamics
  imports Delay
begin

text \<open>
  \<open>crates/daisy-dsp/src/dynamics.rs\<close> and the scalar helpers of \<open>math.rs\<close> it uses: envelope follower, compressor,
  noise gate and lookahead limiter.
\<close>

section \<open>Decibels and time constants\<close>

definition db_to_lin :: "'f fmath \<Rightarrow> 'f \<Rightarrow> 'f" where
  "db_to_lin M db = (let F = fm M in f_pow M (fl_nat F 10) (fl_mul F db (fl_div F (fl_nat F 1) (fl_nat F 20))))"

definition lin_to_db :: "'f fmath \<Rightarrow> 'f \<Rightarrow> 'f" where
  "lin_to_db M x = fl_mul (fm M) (fl_nat (fm M) 20) (f_log10 M x)"

definition ballistic :: "'f fmath \<Rightarrow> 'f \<Rightarrow> 'f \<Rightarrow> 'f" where
  "ballistic M tau_s sample_rate = (let F = fm M in
     if f_le M tau_s (fl_nat F 0) then fl_nat F 0
     else f_exp M (fl_div F (fl_neg F (fl_nat F 1)) (fl_mul F tau_s sample_rate)))"

section \<open>Envelope follower\<close>

record 'f envelope_follower =
  ef_att :: 'f
  ef_rel :: 'f
  ef_env :: 'f

definition follower_new :: "'f fmath \<Rightarrow> 'f \<Rightarrow> 'f \<Rightarrow> 'f \<Rightarrow> 'f envelope_follower" where
  "follower_new M sample_rate attack_s release_s =
     \<lparr>ef_att = ballistic M attack_s sample_rate, ef_rel = ballistic M release_s sample_rate, ef_env = fl_nat (fm M) 0\<rparr>"

definition follower_tick :: "'f fmath \<Rightarrow> 'f envelope_follower \<Rightarrow> 'f \<Rightarrow> 'f \<times> 'f envelope_follower" where
  "follower_tick M e x = (let F = fm M; a = f_abs M x; coef = if f_lt M (ef_env e) a then ef_att e else ef_rel e;
       env = fl_add F a (fl_mul F coef (fl_sub F (ef_env e) a)) in
     (env, e\<lparr>ef_env := env\<rparr>))"

definition follower_value :: "'f envelope_follower \<Rightarrow> 'f" where
  "follower_value e = ef_env e"

definition follower_reset :: "'f flops \<Rightarrow> 'f envelope_follower \<Rightarrow> 'f envelope_follower" where
  "follower_reset F e = e\<lparr>ef_env := fl_nat F 0\<rparr>"

section \<open>Compressor\<close>

record 'f compressor =
  cp_thr_db :: 'f
  cp_slope :: 'f
  cp_knee_db :: 'f
  cp_makeup_db :: 'f
  cp_att :: 'f
  cp_rel :: 'f
  cp_yl :: 'f

definition compressor_new :: "'f fmath \<Rightarrow> 'f \<Rightarrow> 'f \<Rightarrow> 'f \<Rightarrow> 'f \<Rightarrow> 'f \<Rightarrow> 'f \<Rightarrow> 'f \<Rightarrow> 'f compressor" where
  "compressor_new M sample_rate threshold_db ratio knee_db attack_s release_s makeup_db = (let F = fm M in
     \<lparr>cp_thr_db = threshold_db, cp_slope = fl_sub F (fl_div F (fl_nat F 1) (f_max M ratio (fl_nat F 1))) (fl_nat F 1),
      cp_knee_db = f_max M knee_db (fl_nat F 0), cp_makeup_db = makeup_db, cp_att = ballistic M attack_s sample_rate,
      cp_rel = ballistic M release_s sample_rate, cp_yl = fl_nat F 0\<rparr>)"

definition compute_gain_db :: "'f fmath \<Rightarrow> 'f compressor \<Rightarrow> 'f \<Rightarrow> 'f" where
  "compute_gain_db M c x_db = (let F = fm M; over = fl_sub F x_db (cp_thr_db c); over2 = fl_mul F (fl_nat F 2) over; knee = cp_knee_db c in
     if f_lt M (fl_nat F 0) knee \<and> f_lt M (fl_neg F knee) over2 \<and> f_lt M over2 knee then
       let d = fl_add F over (fl_mul F knee (fl_half F)) in fl_div F (fl_mul F (cp_slope c) (fl_mul F d d)) (fl_mul F (fl_nat F 2) knee)
     else if f_le M over (fl_nat F 0) then fl_nat F 0
     else fl_mul F (cp_slope c) over)"

text \<open>The smallest level told apart from silence: \<open>1.0e-9\<close>.\<close>

definition quiet :: "'f flops \<Rightarrow> 'f" where
  "quiet F = fl_div F (fl_nat F 1) (fl_nat F 1000000000)"

definition compressor_tick :: "'f fmath \<Rightarrow> 'f compressor \<Rightarrow> 'f \<Rightarrow> 'f \<times> 'f compressor" where
  "compressor_tick M c x = (let F = fm M;
       x_db = lin_to_db M (f_max M (f_abs M x) (quiet F));
       target = compute_gain_db M c x_db;
       coef = if f_lt M target (cp_yl c) then cp_att c else cp_rel c;
       yl = fl_add F target (fl_mul F coef (fl_sub F (cp_yl c) target)) in
     (fl_mul F x (db_to_lin M (fl_add F yl (cp_makeup_db c))), c\<lparr>cp_yl := yl\<rparr>))"

definition compressor_reset :: "'f flops \<Rightarrow> 'f compressor \<Rightarrow> 'f compressor" where
  "compressor_reset F c = c\<lparr>cp_yl := fl_nat F 0\<rparr>"

section \<open>Noise gate\<close>

record 'f gate =
  gt_thr_db :: 'f
  gt_floor_lin :: 'f
  gt_att :: 'f
  gt_rel :: 'f
  gt_hold_samples :: nat
  gt_held :: nat
  gt_gain :: 'f
  gt_det :: "'f envelope_follower"

text \<open>\<open>as u32\<close> saturates.\<close>

definition gate_new :: "'f fmath \<Rightarrow> 'f \<Rightarrow> 'f \<Rightarrow> 'f \<Rightarrow> 'f \<Rightarrow> 'f \<Rightarrow> 'f \<Rightarrow> 'f gate" where
  "gate_new M sample_rate threshold_db floor_db attack_s hold_s release_s = (let F = fm M in
     \<lparr>gt_thr_db = threshold_db, gt_floor_lin = db_to_lin M floor_db, gt_att = ballistic M attack_s sample_rate,
      gt_rel = ballistic M release_s sample_rate, gt_hold_samples = min (f_index M (fl_mul F hold_s sample_rate)) (2 ^ 32 - 1),
      gt_held = 0, gt_gain = fl_nat F 0,
      gt_det = follower_new M sample_rate (fl_nat F 0) (fl_div F (fl_nat F 1) (fl_nat F 100))\<rparr>)"

definition gate_tick :: "'f fmath \<Rightarrow> 'f gate \<Rightarrow> 'f \<Rightarrow> 'f \<times> 'f gate" where
  "gate_tick M g x = (let F = fm M;
       (env, det) = follower_tick M (gt_det g) x;
       open_now = f_lt M (gt_thr_db g) (lin_to_db M (f_max M env (quiet F)));
       held = if open_now then gt_hold_samples g else gt_held g - 1;
       target = if open_now \<or> 0 < held then fl_nat F 1 else gt_floor_lin g;
       coef = if f_lt M (gt_gain g) target then gt_att g else gt_rel g;
       gain = fl_add F target (fl_mul F coef (fl_sub F (gt_gain g) target)) in
     (fl_mul F x gain, g\<lparr>gt_held := held, gt_gain := gain, gt_det := det\<rparr>))"

definition gate_reset :: "'f flops \<Rightarrow> 'f gate \<Rightarrow> 'f gate" where
  "gate_reset F g = g\<lparr>gt_gain := fl_nat F 0, gt_held := 0, gt_det := follower_reset F (gt_det g)\<rparr>"

section \<open>Limiter\<close>

text \<open>The lookahead \<open>LA\<close> is the length of the ring.\<close>

record 'f limiter =
  lm_ceiling :: 'f
  lm_ring :: "'f list"
  lm_pos :: nat
  lm_gain :: 'f
  lm_rel :: 'f

definition limiter_new :: "'f fmath \<Rightarrow> nat \<Rightarrow> 'f \<Rightarrow> 'f \<Rightarrow> 'f \<Rightarrow> 'f limiter" where
  "limiter_new M la sample_rate ceil release_s = (let F = fm M in
     \<lparr>lm_ceiling = f_max M ceil (fl_div F (fl_nat F 1) (fl_nat F 1000000)), lm_ring = replicate la (fl_nat F 0), lm_pos = 0,
      lm_gain = fl_nat F 1, lm_rel = ballistic M release_s sample_rate\<rparr>)"

definition limiter_tick :: "'f fmath \<Rightarrow> 'f limiter \<Rightarrow> 'f \<Rightarrow> ('f \<times> 'f limiter) option" where
  "limiter_tick M l x = (let F = fm M; one = fl_nat F 1 in do {
     out_sample \<leftarrow> idx_get (lm_ring l) (lm_pos l);
     ring \<leftarrow> idx_set (lm_ring l) (lm_pos l) x;
     let peak = foldl (\<lambda>p v. f_max M p (f_abs M v)) (fl_nat F 0) ring;
     let target = (if f_lt M (lm_ceiling l) peak then fl_div F (lm_ceiling l) peak else one);
     let gain = (if f_lt M target (lm_gain l) then target
       else f_min M (fl_add F target (fl_mul F (lm_rel l) (fl_sub F (lm_gain l) target))) target);
     Some (fl_mul F out_sample gain,
       l\<lparr>lm_ring := ring, lm_pos := (if lm_pos l + 1 = length (lm_ring l) then 0 else lm_pos l + 1), lm_gain := gain\<rparr>)
   })"

definition limiter_latency :: "'f limiter \<Rightarrow> nat" where
  "limiter_latency l = length (lm_ring l)"

definition limiter_reset :: "'f flops \<Rightarrow> 'f limiter \<Rightarrow> 'f limiter" where
  "limiter_reset F l = l\<lparr>lm_ring := replicate (length (lm_ring l)) (fl_nat F 0), lm_pos := 0, lm_gain := fl_nat F 1\<rparr>"

section \<open>Bounds\<close>

lemma ballistic_range: "0 < sr \<Longrightarrow> 0 \<le> ballistic exact_math t sr \<and> ballistic exact_math t sr < 1"
  by (auto simp: ballistic_def Let_def)

text \<open>The ballistics move a value towards its target and never past it.\<close>

lemma glide_between:
  fixes c y t :: real
  assumes "0 \<le> c" "c < 1"
  shows "min y t \<le> t + c * (y - t)" "t + c * (y - t) \<le> max y t"
proof -
  have e: "t + c * (y - t) = c * y + (1 - c) * t" by (simp add: algebra_simps)
  have "c * min y t + (1 - c) * min y t \<le> c * y + (1 - c) * t" using assms by (intro add_mono mult_left_mono) simp_all
  then show "min y t \<le> t + c * (y - t)" unfolding e by (simp add: algebra_simps)
  have "c * y + (1 - c) * t \<le> c * max y t + (1 - c) * max y t" using assms by (intro add_mono mult_left_mono) simp_all
  then show "t + c * (y - t) \<le> max y t" unfolding e by (simp add: algebra_simps)
qed

lemma follower_bounds:
  assumes "0 \<le> ef_att e" "ef_att e < 1" "0 \<le> ef_rel e" "ef_rel e < 1" "0 \<le> ef_env e"
  shows "0 \<le> fst (follower_tick exact_math e x) \<and> fst (follower_tick exact_math e x) \<le> max (ef_env e) \<bar>x\<bar>"
proof -
  define k where "k = (if ef_env e < \<bar>x\<bar> then ef_att e else ef_rel e)"
  have k: "0 \<le> k" "k < 1" using assms by (auto simp: k_def)
  have "fst (follower_tick exact_math e x) = \<bar>x\<bar> + k * (ef_env e - \<bar>x\<bar>)" by (simp add: follower_tick_def Let_def k_def)
  moreover have "0 \<le> min (ef_env e) \<bar>x\<bar>" using assms by simp
  ultimately show ?thesis using glide_between [OF k, where y = "ef_env e" and t = "\<bar>x\<bar>"] by (intro conjI; linarith)
qed

text \<open>A compressor only turns down: its gain never passes the make-up gain.\<close>

lemma compressor_turns_down:
  assumes c: "cp_slope c \<le> 0" "0 \<le> cp_att c" "cp_att c < 1" "0 \<le> cp_rel c" "cp_rel c < 1" "cp_yl c \<le> 0"
  shows "\<bar>fst (compressor_tick exact_math c x)\<bar> \<le> \<bar>x\<bar> * db_to_lin exact_math (cp_makeup_db c) \<and>
    cp_yl (snd (compressor_tick exact_math c x)) \<le> 0"
proof -
  have target: "compute_gain_db exact_math c z \<le> 0" for z
    using c(1) by (auto simp: compute_gain_db_def Let_def mult_nonpos_nonneg divide_nonpos_pos)
  define t where "t = compute_gain_db exact_math c (lin_to_db exact_math (max \<bar>x\<bar> (quiet exact)))"
  define k where "k = (if t < cp_yl c then cp_att c else cp_rel c)"
  have "t + k * (cp_yl c - t) \<le> max (cp_yl c) t" using c by (intro glide_between) (auto simp: k_def)
  then have y: "t + k * (cp_yl c - t) \<le> 0" using c(6) target unfolding t_def by (meson max.bounded_iff order_trans)
  have "db_to_lin exact_math (t + k * (cp_yl c - t) + cp_makeup_db c) \<le> db_to_lin exact_math (cp_makeup_db c)"
    using y by (simp add: db_to_lin_def Let_def)
  then have "\<bar>x\<bar> * db_to_lin exact_math (t + k * (cp_yl c - t) + cp_makeup_db c) \<le> \<bar>x\<bar> * db_to_lin exact_math (cp_makeup_db c)"
    by (rule mult_left_mono) simp
  moreover have "0 \<le> db_to_lin exact_math z" for z by (simp add: db_to_lin_def Let_def)
  ultimately show ?thesis using y
    by (simp add: compressor_tick_def Let_def t_def [symmetric] k_def [symmetric] abs_mult)
qed


section \<open>The limiter's promise\<close>

text \<open>The samples in the ring, the oldest first.\<close>

definition lm_hist :: "'f limiter \<Rightarrow> 'f list" where
  "lm_hist l = drop (lm_pos l) (lm_ring l) @ take (lm_pos l) (lm_ring l)"

definition lm_ok :: "'f limiter \<Rightarrow> bool" where
  "lm_ok l \<longleftrightarrow> lm_pos l < length (lm_ring l)"

definition peak_of :: "real list \<Rightarrow> real" where
  "peak_of vs = foldl (\<lambda>p v. max p \<bar>v\<bar>) 0 vs"

lemma foldl_max_abs: "foldl (\<lambda>p v. max p \<bar>v\<bar>) a vs = Max (insert a (abs ` set vs))" for a :: real
proof (induction vs arbitrary: a)
  case (Cons v vs)
  have "insert a (insert \<bar>v\<bar> (abs ` set vs)) = insert a {\<bar>v\<bar>} \<union> abs ` set vs" by auto
  moreover have "Max (insert (max a \<bar>v\<bar>) (abs ` set vs)) = Max (insert a (insert \<bar>v\<bar> (abs ` set vs)))"
    by (cases "vs = []") (simp_all add: max.assoc)
  ultimately show ?case by (simp add: Cons.IH)
qed simp

lemma peak_of_le: "peak_of vs \<le> b \<longleftrightarrow> 0 \<le> b \<and> (\<forall>v\<in>set vs. \<bar>v\<bar> \<le> b)"
  unfolding peak_of_def foldl_max_abs by auto

lemma peak_of_set: "set vs = set ws \<Longrightarrow> peak_of vs = peak_of ws"
  by (simp add: peak_of_def foldl_max_abs)

definition lm_target :: "real \<Rightarrow> real list \<Rightarrow> real" where
  "lm_target c h = (if c < peak_of h then c / peak_of h else 1)"

definition lm_glide :: "real \<Rightarrow> real \<Rightarrow> real \<Rightarrow> real" where
  "lm_glide rel gain target = (if target < gain then target else min (target + rel * (gain - target)) target)"

text \<open>One sample: the oldest leaves before the peak is taken.\<close>

lemma limiter_tick_eq:
  assumes "lm_ok l"
  shows "\<exists>l'. limiter_tick exact_math l x = Some (hd (lm_hist l) * lm_gain l', l') \<and> lm_ok l' \<and> lm_hist l' = tl (lm_hist l) @ [x] \<and>
    lm_gain l' = lm_glide (lm_rel l) (lm_gain l) (lm_target (lm_ceiling l) (lm_hist l')) \<and> lm_ceiling l' = lm_ceiling l \<and> lm_rel l' = lm_rel l"
proof -
  let ?r = "lm_ring l" and ?p = "lm_pos l"
  have p: "?p < length ?r" using assms by (simp add: lm_ok_def)
  define l' where "l' = l\<lparr>lm_ring := ?r[?p := x], lm_pos := (if ?p + 1 = length ?r then 0 else ?p + 1),
    lm_gain := lm_glide (lm_rel l) (lm_gain l) (lm_target (lm_ceiling l) (?r[?p := x]))\<rparr>"
  have sel: "lm_gain l' = lm_glide (lm_rel l) (lm_gain l) (lm_target (lm_ceiling l) (?r[?p := x]))" "lm_ceiling l' = lm_ceiling l"
    "lm_rel l' = lm_rel l" by (simp_all add: l'_def)
  have hd: "hd (lm_hist l) = ?r ! ?p" unfolding lm_hist_def by (rule ring_oldest [OF p])
  have "lm_hist l' = tl (lm_hist l) @ [x]"
    using ring_push [OF p, of x] by (simp add: lm_hist_def l'_def Let_def)
  moreover have "set (lm_hist l') = set (?r[?p := x])"
    unfolding lm_hist_def set_ring by (simp add: l'_def)
  from peak_of_set [OF this] have "lm_target (lm_ceiling l) (?r[?p := x]) = lm_target (lm_ceiling l) (lm_hist l')"
    by (simp only: lm_target_def)
  moreover have "limiter_tick exact_math l x = Some (?r ! ?p * lm_gain l', l')"
    using p by (simp add: limiter_tick_def Let_def l'_def lm_target_def lm_glide_def peak_of_def)
  moreover have "lm_ok l'" using p by (auto simp: lm_ok_def l'_def)
  ultimately show ?thesis unfolding hd [symmetric] using sel by (intro exI [of _ l'] conjI) (simp_all only:)
qed

text \<open>Once a peak has been heard the gain is low enough for it, for as long as it is in the ring.\<close>

definition lm_inv :: "real \<Rightarrow> real \<Rightarrow> real list \<Rightarrow> real limiter \<Rightarrow> bool" where
  "lm_inv c rel h l \<longleftrightarrow> lm_ok l \<and> lm_ceiling l = c \<and> lm_rel l = rel \<and> lm_hist l = h \<and> 0 < lm_gain l \<and> lm_gain l \<le> 1 \<and>
     (\<forall>v\<in>set h. \<bar>v\<bar> * lm_gain l \<le> c)"

lemma lm_target_range: "0 < c \<Longrightarrow> 0 < lm_target c h \<and> lm_target c h \<le> 1 \<and> (\<forall>v\<in>set h. \<bar>v\<bar> * lm_target c h \<le> c)"
proof -
  assume c: "0 < c"
  have le: "\<bar>v\<bar> \<le> peak_of h" if "v \<in> set h" for v using that peak_of_le [of h "peak_of h"] by simp
  show ?thesis
  proof (cases "c < peak_of h")
    case True
    then have "\<bar>v\<bar> * (c / peak_of h) \<le> c" if "v \<in> set h" for v
      using le [OF that] c by (simp add: divide_le_eq mult.commute)
    then show ?thesis using True c by (simp add: lm_target_def)
  next
    case False
    then have "\<bar>v\<bar> \<le> c" if "v \<in> set h" for v using le [OF that] by linarith
    then show ?thesis using False c by (simp add: lm_target_def)
  qed
qed


lemma lm_glide_range:
  assumes "0 < g" "g \<le> 1" "0 < t" "t \<le> 1" "0 \<le> rel" "rel < 1"
  shows "0 < lm_glide rel g t \<and> lm_glide rel g t \<le> t \<and> lm_glide rel g t \<le> max g (rel * g + (1 - rel))"
proof (cases "t < g")
  case True
  then show ?thesis using assms by (simp add: lm_glide_def max_def)
next
  case False
  have "t + rel * (g - t) = rel * g + (1 - rel) * t" by (simp add: algebra_simps)
  moreover have "(1 - rel) * t \<le> 1 - rel" using assms by (intro mult_left_le) simp_all
  moreover have "0 \<le> rel * g" "0 < (1 - rel) * t" using assms by simp_all
  ultimately have "0 < t + rel * (g - t)" "t + rel * (g - t) \<le> rel * g + (1 - rel)" by linarith+
  then show ?thesis using False assms by (auto simp: lm_glide_def max_def min_def)
qed

lemma limiter_tick_ok:
  assumes l: "lm_inv c rel h l" and c: "0 < c" "0 \<le> rel" "rel < 1" and h: "h \<noteq> []"
  shows "\<exists>y l'. limiter_tick exact_math l x = Some (y, l') \<and> lm_inv c rel (tl h @ [x]) l' \<and>
    \<bar>y\<bar> \<le> max c (rel * c + (1 - rel) * \<bar>hd h\<bar>)"
proof -
  note inv = l [unfolded lm_inv_def]
  obtain l' where l': "limiter_tick exact_math l x = Some (hd h * lm_gain l', l')" "lm_ok l'" "lm_hist l' = tl h @ [x]"
    "lm_gain l' = lm_glide rel (lm_gain l) (lm_target c (tl h @ [x]))" "lm_ceiling l' = c" "lm_rel l' = rel"
    using limiter_tick_eq [of l x] inv by auto
  note t = lm_target_range [OF c(1), of "tl h @ [x]"]
  have g: "0 < lm_gain l'" "lm_gain l' \<le> lm_target c (tl h @ [x])" "lm_gain l' \<le> max (lm_gain l) (rel * lm_gain l + (1 - rel))"
    unfolding l'(4) using lm_glide_range [of "lm_gain l" "lm_target c (tl h @ [x])" rel] inv t c by simp_all
  have "\<bar>v\<bar> * lm_gain l' \<le> c" if "v \<in> set (tl h @ [x])" for v
  proof -
    have "\<bar>v\<bar> * lm_gain l' \<le> \<bar>v\<bar> * lm_target c (tl h @ [x])" using g(2) by (simp add: mult_left_mono)
    also have "\<dots> \<le> c" using t that by blast
    finally show ?thesis .
  qed
  then have "lm_inv c rel (tl h @ [x]) l'" using l' g(1,2) t by (auto simp: lm_inv_def)
  moreover have "\<bar>hd h * lm_gain l'\<bar> \<le> max c (rel * c + (1 - rel) * \<bar>hd h\<bar>)"
  proof -
    have old: "\<bar>hd h\<bar> * lm_gain l \<le> c" using inv h by simp
    have "\<bar>hd h\<bar> * lm_gain l' \<le> \<bar>hd h\<bar> * max (lm_gain l) (rel * lm_gain l + (1 - rel))" using g(3) by (simp add: mult_left_mono)
    also have "\<dots> \<le> max c (rel * c + (1 - rel) * \<bar>hd h\<bar>)"
    proof (cases "lm_gain l \<le> rel * lm_gain l + (1 - rel)")
      case True
      have "rel * (\<bar>hd h\<bar> * lm_gain l) \<le> rel * c" using old c(2) by (rule mult_left_mono)
      then show ?thesis using True by (simp add: max_def algebra_simps)
    next
      case False
      then show ?thesis using old by (simp add: max_def)
    qed
    finally show ?thesis using g(1) by (simp add: abs_mult)
  qed
  ultimately show ?thesis using l'(1) by blast
qed

text \<open>The sample that leaves at time \<open>i\<close> of a ring that held \<open>h\<close> before the input \<open>xs\<close>.\<close>

lemma limiter_run_ok:
  assumes c: "0 < c" "0 \<le> rel" "rel < 1" and h: "h \<noteq> []"
  shows "lm_inv c rel h l \<Longrightarrow> \<exists>ys l'. run_steps (limiter_tick exact_math) l xs = Some (ys, l') \<and>
    (\<forall>i<length xs. \<bar>ys ! i\<bar> \<le> max c (rel * c + (1 - rel) * \<bar>(h @ xs) ! i\<bar>))"
  using h
proof (induction xs arbitrary: h l)
  case (Cons x xs)
  obtain y l1 where y: "limiter_tick exact_math l x = Some (y, l1)" "lm_inv c rel (tl h @ [x]) l1"
    "\<bar>y\<bar> \<le> max c (rel * c + (1 - rel) * \<bar>hd h\<bar>)" using limiter_tick_ok [OF Cons.prems(1) c Cons.prems(2)] by blast
  have "tl h @ [x] \<noteq> []" by simp
  from Cons.IH [OF y(2) this] obtain ys l' where ys: "run_steps (limiter_tick exact_math) l1 xs = Some (ys, l')"
    "\<forall>i<length xs. \<bar>ys ! i\<bar> \<le> max c (rel * c + (1 - rel) * \<bar>((tl h @ [x]) @ xs) ! i\<bar>)" by blast
  have "\<bar>(y # ys) ! i\<bar> \<le> max c (rel * c + (1 - rel) * \<bar>(h @ x # xs) ! i\<bar>)" if "i < length (x # xs)" for i
  proof (cases i)
    case 0
    then show ?thesis using y(3) Cons.prems(2) by (simp add: hd_conv_nth nth_append)
  next
    case (Suc j)
    have "((tl h @ [x]) @ xs) ! j = (h @ x # xs) ! Suc j" using Cons.prems(2) by (cases h) simp_all
    then show ?thesis using ys(2) [rule_format, of j] that Suc by simp
  qed
  then show ?case using y(1) ys(1) by auto
qed simp

text \<open>A signal under the ceiling keeps the gain at one.\<close>

lemma limiter_quiet:
  "lm_ok l \<Longrightarrow> lm_hist l = h \<Longrightarrow> lm_gain l = 1 \<Longrightarrow> 0 < lm_ceiling l \<Longrightarrow> \<forall>v\<in>set (h @ xs). \<bar>v\<bar> \<le> lm_ceiling l \<Longrightarrow> h \<noteq> [] \<Longrightarrow>
    \<exists>l'. run_steps (limiter_tick exact_math) l xs = Some (take (length xs) (h @ xs), l')"
proof (induction xs arbitrary: h l)
  case (Cons x xs)
  obtain l1 where l1: "limiter_tick exact_math l x = Some (hd h * lm_gain l1, l1)" "lm_ok l1" "lm_hist l1 = tl h @ [x]"
    "lm_gain l1 = lm_glide (lm_rel l) 1 (lm_target (lm_ceiling l) (tl h @ [x]))" "lm_ceiling l1 = lm_ceiling l"
    using limiter_tick_eq [OF Cons.prems(1), of x] Cons.prems(2,3) by auto
  have all: "\<forall>v\<in>set ((tl h @ [x]) @ xs). \<bar>v\<bar> \<le> lm_ceiling l" using Cons.prems(5,6) by (cases h) auto
  then have "peak_of (tl h @ [x]) \<le> lm_ceiling l" using Cons.prems(4) by (auto simp: peak_of_le)
  then have "lm_gain l1 = 1" unfolding l1(4) by (simp add: lm_target_def lm_glide_def)
  moreover obtain l' where "run_steps (limiter_tick exact_math) l1 xs = Some (take (length xs) ((tl h @ [x]) @ xs), l')"
    using Cons.IH [OF l1(2,3)] calculation all l1(5) Cons.prems(4) by auto
  ultimately show ?case using l1(1) Cons.prems(6) by (cases h) auto
qed simp


section \<open>What the limiter promises and what it does\<close>

text \<open>The limiter, in exact arithmetic and for every lookahead, ceiling and release: the output is the input
  late by the lookahead, unchanged if it never passes the ceiling; otherwise it stays under the ceiling but for
  what the release lets through in one sample, a fraction \<open>1 - rel\<close> of the excess of the sample that leaves.\<close>

theorem limiter_bounds:
  assumes "0 < la" "0 < sample_rate"
  shows "\<exists>ys l'. run_steps (limiter_tick exact_math) (limiter_new exact_math la sample_rate ceil release_s) xs = Some (ys, l') \<and>
    (\<forall>i<length xs. \<bar>ys ! i\<bar> \<le> max (max ceil (1 / 1000000))
      (ballistic exact_math release_s sample_rate * max ceil (1 / 1000000) +
       (1 - ballistic exact_math release_s sample_rate) * \<bar>(replicate la 0 @ xs) ! i\<bar>)) \<and>
    ((\<forall>x\<in>set xs. \<bar>x\<bar> \<le> max ceil (1 / 1000000)) \<longrightarrow> ys = take (length xs) (replicate la 0 @ xs))"
proof -
  define c where "c = max ceil (1 / 1000000 :: real)"
  define rel where "rel = ballistic exact_math release_s sample_rate"
  define l where "l = limiter_new exact_math la sample_rate ceil release_s"
  have c: "0 < c" "0 \<le> rel" "rel < 1" using ballistic_range [OF assms(2), of release_s] by (auto simp: c_def rel_def)
  have l: "lm_ok l" "lm_hist l = replicate la 0" "lm_gain l = 1" "lm_ceiling l = c" "lm_rel l = rel"
    using assms(1) by (simp_all add: l_def limiter_new_def lm_ok_def lm_hist_def c_def rel_def Let_def)
  have ne: "replicate la (0 :: real) \<noteq> []" using assms(1) by simp
  have "lm_inv c rel (replicate la 0) l" using l c by (simp add: lm_inv_def)
  from limiter_run_ok [OF c ne this, of xs] obtain ys l' where run: "run_steps (limiter_tick exact_math) l xs = Some (ys, l')"
    "\<forall>i<length xs. \<bar>ys ! i\<bar> \<le> max c (rel * c + (1 - rel) * \<bar>(replicate la 0 @ xs) ! i\<bar>)" by blast
  have "ys = take (length xs) (replicate la 0 @ xs)" if "\<forall>x\<in>set xs. \<bar>x\<bar> \<le> c"
  proof -
    have "\<forall>v\<in>set (replicate la 0 @ xs). \<bar>v\<bar> \<le> lm_ceiling l" using that c(1) l(4) by auto
    then show ?thesis using limiter_quiet [OF l(1-3) _ _ ne, of xs] run(1) c(1) l(4) by auto
  qed
  then show ?thesis using run unfolding c_def rel_def l_def by blast
qed

lemma limiter_bounds_witness:
  "\<exists>ys l'. run_steps (limiter_tick exact_math) (limiter_new exact_math 2 48000 1 0) [1 / 2, 1, 1 / 4] = Some (ys, l') \<and>
    ys = [0, 0, 1 / 2]"
proof -
  have "\<forall>x\<in>set [1 / 2, 1, 1 / 4]. \<bar>x\<bar> \<le> max 1 (1 / 1000000 :: real)" by simp
  then show ?thesis using limiter_bounds [of 2 48000 1 0 "[1 / 2, 1, 1 / 4]"] by (auto simp: numeral_2_eq_2)
qed

text \<open>The stretch of a lone peak through the ring: the gain holds at the ceiling over the peak.\<close>

lemma lone_peak_target: "0 < c \<Longrightarrow> c < p \<Longrightarrow> lm_target c (replicate a 0 @ p # replicate b 0) = c / p"
proof -
  assume c: "0 < c" "c < p"
  have "peak_of (replicate a 0 @ p # replicate b 0) = p"
  proof (rule antisym)
    show "peak_of (replicate a 0 @ p # replicate b 0) \<le> p" using c by (auto simp: peak_of_le)
    show "p \<le> peak_of (replicate a 0 @ p # replicate b 0)"
      using c peak_of_le [of "replicate a 0 @ p # replicate b 0" "peak_of (replicate a 0 @ p # replicate b 0)"] by simp
  qed
  then show ?thesis using c by (simp add: lm_target_def)
qed

lemma lone_peak_leaves:
  "lm_ok l \<Longrightarrow> lm_hist l = replicate a 0 @ p # replicate b 0 \<Longrightarrow> lm_gain l = c / p \<Longrightarrow> lm_ceiling l = c \<Longrightarrow> lm_rel l = rel \<Longrightarrow>
    0 < c \<Longrightarrow> c < p \<Longrightarrow> 0 \<le> rel \<Longrightarrow>
    \<exists>l'. run_steps (limiter_tick exact_math) l (replicate (Suc a) 0) = Some (replicate a 0 @ [rel * c + (1 - rel) * p], l')"
proof (induction a arbitrary: l b)
  case 0
  obtain l1 where l1: "limiter_tick exact_math l 0 = Some (hd (lm_hist l) * lm_gain l1, l1)"
    "lm_gain l1 = lm_glide rel (c / p) (lm_target c (replicate b 0 @ [0]))"
    using limiter_tick_eq [OF 0(1), of 0] 0 by auto
  have "peak_of (replicate b 0 @ [0]) \<le> 0" by (simp add: peak_of_le)
  then have "lm_target c (replicate b 0 @ [0]) = 1" using 0 by (simp add: lm_target_def)
  moreover have "c / p < 1" using 0 by simp
  moreover have "rel * (c / p - 1) \<le> 0" using calculation(2) 0 by (simp add: mult_nonneg_nonpos)
  ultimately have "lm_gain l1 = 1 + rel * (c / p - 1)" unfolding l1(2) by (simp add: lm_glide_def)
  then have "p * lm_gain l1 = rel * c + (1 - rel) * p" using 0 by (simp add: field_simps)
  then show ?case using l1(1) 0(2) by simp
next
  case (Suc a)
  obtain l1 where l1: "limiter_tick exact_math l 0 = Some (0 * lm_gain l1, l1)" "lm_ok l1"
    "lm_hist l1 = replicate a 0 @ p # replicate (Suc b) 0"
    "lm_gain l1 = lm_glide rel (c / p) (lm_target c (replicate a 0 @ p # replicate (Suc b) 0))" "lm_ceiling l1 = c" "lm_rel l1 = rel"
    using limiter_tick_eq [OF Suc.prems(1), of 0] Suc.prems(2-5) by (auto simp: replicate_append_same)
  have "lm_gain l1 = c / p" unfolding l1(4) lone_peak_target [OF Suc.prems(6,7)] by (simp add: lm_glide_def)
  from Suc.IH [OF l1(2,3) this l1(5,6) Suc.prems(6-8)] obtain l' where
    "run_steps (limiter_tick exact_math) l1 (replicate (Suc a) 0) = Some (replicate a 0 @ [rel * c + (1 - rel) * p], l')" by blast
  then have "run_steps (limiter_tick exact_math) l (0 # replicate (Suc a) 0) = Some (0 # replicate a 0 @ [rel * c + (1 - rel) * p], l')"
    using l1(1) by (simp del: replicate_Suc)
  then show ?case by (intro exI [of _ l']) (simp only: replicate_Suc append_Cons)
qed

text \<open>C12: the ceiling is not kept. The documentation guarantees an output of at most the ceiling, since "the sample
  being output is itself inside the window"; the code has already overwritten it, and takes the peak of the others. So after
  any peak over the ceiling followed by silence the gain is released one sample early, and the peak comes out
  over the ceiling, for every lookahead and every release; with no release time it comes out unlimited.\<close>

theorem limiter_exceeds_ceiling:
  assumes "0 < la" "0 < sample_rate" "1 / 1000000 \<le> ceil" "ceil < p"
  shows "\<exists>y l'. run_steps (limiter_tick exact_math) (limiter_new exact_math la sample_rate ceil release_s) (p # replicate la 0) =
      Some (replicate la 0 @ [y], l') \<and>
    y = ballistic exact_math release_s sample_rate * ceil + (1 - ballistic exact_math release_s sample_rate) * p \<and>
    ceil < y \<and> (release_s \<le> 0 \<longrightarrow> y = p)"
proof -
  define rel where "rel = ballistic exact_math release_s sample_rate"
  define l where "l = limiter_new exact_math la sample_rate ceil release_s"
  have rel: "0 \<le> rel" "rel < 1" using ballistic_range [OF assms(2), of release_s] by (auto simp: rel_def)
  have c: "0 < ceil" "max ceil (1 / 1000000) = ceil" using assms(3) by simp_all
  obtain a where a: "la = Suc a" using assms(1) by (cases la) simp_all
  have l: "lm_ok l" "lm_hist l = replicate la 0" "lm_gain l = 1" "lm_ceiling l = ceil" "lm_rel l = rel"
    using assms(1) c(2) by (simp_all add: l_def limiter_new_def lm_ok_def lm_hist_def rel_def Let_def)
  obtain l1 where l1: "limiter_tick exact_math l p = Some (0 * lm_gain l1, l1)" "lm_ok l1" "lm_hist l1 = replicate a 0 @ [p]"
    "lm_gain l1 = lm_glide rel 1 (lm_target ceil (replicate a 0 @ [p]))" "lm_ceiling l1 = ceil" "lm_rel l1 = rel"
    using limiter_tick_eq [OF l(1), of p] l a by auto
  have "ceil / p < 1" using assms(4) c(1) by simp
  then have g: "lm_gain l1 = ceil / p" using lone_peak_target [OF c(1) assms(4), of a 0] unfolding l1(4) by (simp add: lm_glide_def)
  obtain l' where "run_steps (limiter_tick exact_math) l1 (replicate la 0) = Some (replicate a 0 @ [rel * ceil + (1 - rel) * p], l')"
    using lone_peak_leaves [OF l1(2) _ g l1(5,6) c(1) assms(4) rel(1), of a 0] l1(3) a by auto
  then have run: "run_steps (limiter_tick exact_math) l (p # replicate la 0) = Some (replicate la 0 @ [rel * ceil + (1 - rel) * p], l')"
    using l1(1) by (simp only: run_steps.simps bind_simps) (simp add: a del: replicate_Suc, simp)
  have "(1 - rel) * ceil < (1 - rel) * p" using rel assms(4) by simp
  then have "ceil < rel * ceil + (1 - rel) * p" by (simp add: algebra_simps)
  moreover have "rel = 0" if "release_s \<le> 0" using that by (simp add: rel_def ballistic_def Let_def)
  ultimately show ?thesis using run unfolding l_def rel_def [symmetric] by auto
qed

lemma limiter_exceeds_ceiling_witness:
  "\<exists>l'. run_steps (limiter_tick exact_math) (limiter_new exact_math 2 48000 1 0) [2, 0, 0] = Some ([0, 0, 2], l')"
  using limiter_exceeds_ceiling [of 2 48000 1 2 0] by (auto simp: numeral_2_eq_2)

end
