(* ===== verification/Filters.thy ===== *)
theory Filters
  imports Delay
begin

text \<open>
  The second-order filters of \<open>crates/daisy-dsp/src/filter.rs\<close>: the biquad with the coefficients of the audio
  cookbook and the state-variable filter. Decimal constants are quotients of integers.
\<close>

section \<open>The biquad\<close>

datatype biquad_kind = Lowpass | Highpass | Bandpass | Peaking

record 'f biquad =
  bq_b0 :: 'f
  bq_b1 :: 'f
  bq_b2 :: 'f
  bq_a1 :: 'f
  bq_a2 :: 'f
  bq_z1 :: 'f
  bq_z2 :: 'f

definition biquad_new :: "'f fmath \<Rightarrow> 'f \<Rightarrow> biquad_kind \<Rightarrow> 'f \<Rightarrow> 'f \<Rightarrow> 'f \<Rightarrow> 'f biquad" where
  "biquad_new M sample_rate kind freq q gain_db = (let F = fm M; one = fl_nat F 1; two = fl_nat F 2; half = fl_half F;
       w0 = fl_div F (fl_mul F (fl_mul F two (f_pi M)) freq) sample_rate;
       cw = f_cos M w0; sw = f_sin M w0;
       alpha = fl_div F sw (fl_mul F two q);
       a = f_pow M (fl_nat F 10) (fl_div F gain_db (fl_nat F 40));
       mcw = fl_mul F (fl_neg F two) cw;
       (b0, b1, b2, a0, a1, a2) = (case kind of
          Lowpass \<Rightarrow> (fl_mul F (fl_sub F one cw) half, fl_sub F one cw, fl_mul F (fl_sub F one cw) half, fl_add F one alpha, mcw, fl_sub F one alpha)
        | Highpass \<Rightarrow> (fl_mul F (fl_add F one cw) half, fl_neg F (fl_add F one cw), fl_mul F (fl_add F one cw) half, fl_add F one alpha, mcw, fl_sub F one alpha)
        | Bandpass \<Rightarrow> (alpha, fl_nat F 0, fl_neg F alpha, fl_add F one alpha, mcw, fl_sub F one alpha)
        | Peaking \<Rightarrow> (fl_add F one (fl_mul F alpha a), mcw, fl_sub F one (fl_mul F alpha a), fl_add F one (fl_div F alpha a), mcw,
            fl_sub F one (fl_div F alpha a)));
       inv0 = fl_div F one a0 in
     \<lparr>bq_b0 = fl_mul F b0 inv0, bq_b1 = fl_mul F b1 inv0, bq_b2 = fl_mul F b2 inv0, bq_a1 = fl_mul F a1 inv0, bq_a2 = fl_mul F a2 inv0,
      bq_z1 = fl_nat F 0, bq_z2 = fl_nat F 0\<rparr>)"

definition biquad_lowpass :: "'f fmath \<Rightarrow> 'f \<Rightarrow> 'f \<Rightarrow> 'f \<Rightarrow> 'f biquad" where
  "biquad_lowpass M sample_rate freq q = biquad_new M sample_rate Lowpass freq q (fl_nat (fm M) 0)"

definition biquad_highpass :: "'f fmath \<Rightarrow> 'f \<Rightarrow> 'f \<Rightarrow> 'f \<Rightarrow> 'f biquad" where
  "biquad_highpass M sample_rate freq q = biquad_new M sample_rate Highpass freq q (fl_nat (fm M) 0)"

definition biquad_bandpass :: "'f fmath \<Rightarrow> 'f \<Rightarrow> 'f \<Rightarrow> 'f \<Rightarrow> 'f biquad" where
  "biquad_bandpass M sample_rate freq q = biquad_new M sample_rate Bandpass freq q (fl_nat (fm M) 0)"

definition biquad_peaking :: "'f fmath \<Rightarrow> 'f \<Rightarrow> 'f \<Rightarrow> 'f \<Rightarrow> 'f \<Rightarrow> 'f biquad" where
  "biquad_peaking M sample_rate freq q gain_db = biquad_new M sample_rate Peaking freq q gain_db"

definition biquad_tick :: "'f flops \<Rightarrow> 'f biquad \<Rightarrow> 'f \<Rightarrow> 'f \<times> 'f biquad" where
  "biquad_tick F f x = (let y = fl_add F (fl_mul F (bq_b0 f) x) (bq_z1 f);
       z1 = fl_add F (fl_sub F (fl_mul F (bq_b1 f) x) (fl_mul F (bq_a1 f) y)) (bq_z2 f);
       z2 = fl_sub F (fl_mul F (bq_b2 f) x) (fl_mul F (bq_a2 f) y) in
     (y, f\<lparr>bq_z1 := z1, bq_z2 := z2\<rparr>))"

text \<open>A block: as many samples as both slices have.\<close>

fun biquad_process :: "'f flops \<Rightarrow> 'f biquad \<Rightarrow> 'f list \<Rightarrow> 'f list \<Rightarrow> 'f list \<times> 'f biquad" where
  "biquad_process F f (x # xs) (_ # out) =
     (let (y, f) = biquad_tick F f x; (ys, f) = biquad_process F f xs out in (y # ys, f))"
| "biquad_process F f _ out = (out, f)"

definition biquad_reset :: "'f flops \<Rightarrow> 'f biquad \<Rightarrow> 'f biquad" where
  "biquad_reset F f = f\<lparr>bq_z1 := fl_nat F 0, bq_z2 := fl_nat F 0\<rparr>"

section \<open>The state-variable filter\<close>

record 'f svf_out =
  sv_lp :: 'f
  sv_bp :: 'f
  sv_hp :: 'f
  sv_notch :: 'f

record 'f svf =
  sv_k :: 'f
  sv_a1 :: 'f
  sv_a2 :: 'f
  sv_a3 :: 'f
  sv_ic1eq :: 'f
  sv_ic2eq :: 'f

definition svf_new :: "'f fmath \<Rightarrow> 'f \<Rightarrow> 'f \<Rightarrow> 'f \<Rightarrow> 'f svf" where
  "svf_new M sample_rate cutoff q = (let F = fm M; one = fl_nat F 1;
       g = f_tan M (fl_mul F (f_pi M) (fl_clamp F (fl_div F cutoff sample_rate) (fl_div F one (fl_nat F 100000)) (fl_div F (fl_nat F 49) (fl_nat F 100))));
       k = fl_div F one (f_max M q (fl_div F one (fl_nat F 10000)));
       a1 = fl_div F one (fl_add F one (fl_mul F g (fl_add F g k)));
       a2 = fl_mul F g a1;
       a3 = fl_mul F g a2 in
     \<lparr>sv_k = k, sv_a1 = a1, sv_a2 = a2, sv_a3 = a3, sv_ic1eq = fl_nat F 0, sv_ic2eq = fl_nat F 0\<rparr>)"

definition svf_tick :: "'f flops \<Rightarrow> 'f svf \<Rightarrow> 'f \<Rightarrow> 'f svf_out \<times> 'f svf" where
  "svf_tick F s x = (let two = fl_nat F 2;
       v3 = fl_sub F x (sv_ic2eq s);
       v1 = fl_add F (fl_mul F (sv_a1 s) (sv_ic1eq s)) (fl_mul F (sv_a2 s) v3);
       v2 = fl_add F (fl_add F (sv_ic2eq s) (fl_mul F (sv_a2 s) (sv_ic1eq s))) (fl_mul F (sv_a3 s) v3);
       hp = fl_sub F (fl_sub F x (fl_mul F (sv_k s) v1)) v2 in
     (\<lparr>sv_lp = v2, sv_bp = v1, sv_hp = hp, sv_notch = fl_add F v2 hp\<rparr>,
      s\<lparr>sv_ic1eq := fl_sub F (fl_mul F two v1) (sv_ic1eq s), sv_ic2eq := fl_sub F (fl_mul F two v2) (sv_ic2eq s)\<rparr>))"

definition svf_lp :: "'f flops \<Rightarrow> 'f svf \<Rightarrow> 'f \<Rightarrow> 'f \<times> 'f svf" where
  "svf_lp F s x = (let (out, s) = svf_tick F s x in (sv_lp out, s))"

definition svf_bp :: "'f flops \<Rightarrow> 'f svf \<Rightarrow> 'f \<Rightarrow> 'f \<times> 'f svf" where
  "svf_bp F s x = (let (out, s) = svf_tick F s x in (sv_bp out, s))"

definition svf_hp :: "'f flops \<Rightarrow> 'f svf \<Rightarrow> 'f \<Rightarrow> 'f \<times> 'f svf" where
  "svf_hp F s x = (let (out, s) = svf_tick F s x in (sv_hp out, s))"

definition svf_reset :: "'f flops \<Rightarrow> 'f svf \<Rightarrow> 'f svf" where
  "svf_reset F s = s\<lparr>sv_ic1eq := fl_nat F 0, sv_ic2eq := fl_nat F 0\<rparr>"

section \<open>The biquad rings down\<close>

text \<open>On silence a quadratic form of the state is multiplied by \<open>a2\<close> each sample; with complex poles it is positive.\<close>

definition bq_energy :: "real biquad \<Rightarrow> real" where
  "bq_energy f = bq_a2 f * (bq_z1 f)\<^sup>2 - bq_a1 f * bq_z1 f * bq_z2 f + (bq_z2 f)\<^sup>2"

lemma biquad_silence:
  "fst (biquad_tick exact f 0) = bq_z1 f" "bq_energy (snd (biquad_tick exact f 0)) = bq_a2 f * bq_energy f"
  "bq_a1 (snd (biquad_tick exact f 0)) = bq_a1 f" "bq_a2 (snd (biquad_tick exact f 0)) = bq_a2 f"
  by (simp_all add: biquad_tick_def Let_def bq_energy_def power2_eq_square algebra_simps)

lemma bq_energy_bound: "(bq_a2 f - (bq_a1 f)\<^sup>2 / 4) * (bq_z1 f)\<^sup>2 \<le> bq_energy f"
proof -
  have "0 \<le> (bq_z2 f - bq_a1 f * bq_z1 f / 2)\<^sup>2" by simp
  then show ?thesis by (simp add: bq_energy_def power2_eq_square algebra_simps)
qed

lemma biquad_silence_run:
  "fst (biquad_process exact f (replicate n 0) (replicate n 0)) ! i = bq_z1 (((\<lambda>f. snd (biquad_tick exact f 0)) ^^ i) f)" if "i < n"
  using that
proof (induction n arbitrary: f i)
  case (Suc n)
  show ?case
  proof (cases i)
    case 0
    then show ?thesis by (simp add: split_def Let_def biquad_silence)
  next
    case (Suc j)
    then show ?thesis using Suc.IH [of j "snd (biquad_tick exact f 0)"] Suc.prems
      by (simp add: split_def Let_def funpow_Suc_right del: funpow.simps)
  qed
qed simp

lemma biquad_coefficients:
  assumes "0 < sr" "0 < freq" "freq < sr / 2" "1 / 2 < q" "kind = Peaking \<longrightarrow> 0 \<le> gain_db"
  shows "\<exists>\<beta> w. 0 < \<beta> \<and> \<beta> < sin w \<and> bq_a1 (biquad_new exact_math sr kind freq q gain_db) = - 2 * cos w / (1 + \<beta>) \<and>
    bq_a2 (biquad_new exact_math sr kind freq q gain_db) = (1 - \<beta>) / (1 + \<beta>)"
proof -
  define w where "w = 2 * pi * freq / sr"
  define a where "a = (10 :: real) powr (gain_db / 40)"
  define \<beta> where "\<beta> = (if kind = Peaking then sin w / (2 * q) / a else sin w / (2 * q))"
  have "2 * freq / sr < 1" using assms by simp
  then have "pi * (2 * freq / sr) < pi * 1" using pi_gt_zero by (intro mult_strict_left_mono)
  then have "0 < w" "w < pi" using assms by (simp_all add: w_def mult_ac)
  then have s: "0 < sin w" by (rule sin_gt_zero)
  have d: "sin w / (2 * q) < sin w" using s assms(4) by (simp add: divide_less_eq)
  have p: "0 < sin w / (2 * q)" using s assms(4) by simp
  have "0 < \<beta> \<and> \<beta> < sin w"
  proof (cases "kind = Peaking")
    case True
    then have a: "1 \<le> a" using assms(5) by (simp add: a_def ge_one_powr_ge_zero)
    have "sin w / (2 * q) / a \<le> sin w / (2 * q) / 1" using p a by (intro divide_left_mono) simp_all
    moreover have "0 < sin w / (2 * q) / a" using divide_pos_pos [OF p, of a] a by linarith
    ultimately show ?thesis using True d by (simp add: \<beta>_def)
  qed (use p d in \<open>simp add: \<beta>_def\<close>)
  moreover have "bq_a1 (biquad_new exact_math sr kind freq q gain_db) = - 2 * cos w / (1 + \<beta>) \<and>
    bq_a2 (biquad_new exact_math sr kind freq q gain_db) = (1 - \<beta>) / (1 + \<beta>)"
    by (cases kind) (simp_all add: biquad_new_def Let_def \<beta>_def w_def a_def)
  ultimately show ?thesis by blast
qed

text \<open>The biquads are stable. In exact arithmetic, for every kind, frequency under the Nyquist frequency and quality over a half
  (for the peaking filter a boost), whatever state the filter is left in, on silence its output dies out
  geometrically: its square is at most a constant times a power of \<open>a2\<close>, a number strictly between minus one and one.\<close>

theorem biquad_rings_down:
  assumes "0 < sample_rate" "0 < freq" "freq < sample_rate / 2" "1 / 2 < q" "kind = Peaking \<longrightarrow> 0 \<le> gain_db"
    and "f = biquad_new exact_math sample_rate kind freq q gain_db"
  shows "0 < bq_a2 f \<and> bq_a2 f < 1 \<and> 0 < bq_a2 f - (bq_a1 f)\<^sup>2 / 4 \<and>
    (\<forall>i<n. (fst (biquad_process exact (f\<lparr>bq_z1 := z1, bq_z2 := z2\<rparr>) (replicate n 0) (replicate n 0)) ! i)\<^sup>2 \<le>
      bq_a2 f ^ i * bq_energy (f\<lparr>bq_z1 := z1, bq_z2 := z2\<rparr>) / (bq_a2 f - (bq_a1 f)\<^sup>2 / 4))"
proof -
  obtain \<beta> w where b: "0 < \<beta>" "\<beta> < sin w" "bq_a1 f = - 2 * cos w / (1 + \<beta>)" "bq_a2 f = (1 - \<beta>) / (1 + \<beta>)"
    using biquad_coefficients [OF assms(1-5)] unfolding assms(6) by blast
  have "\<beta> < 1" using b(2) sin_le_one [of w] by linarith
  then have a2: "0 < bq_a2 f" "bq_a2 f < 1" using b(1) by (simp_all add: b(4))
  have "bq_a2 f = (1 - \<beta>) * (1 + \<beta>) / (1 + \<beta>)\<^sup>2" using b(1) by (simp add: b(4) power2_eq_square)
  moreover have "(bq_a1 f)\<^sup>2 / 4 = (cos w)\<^sup>2 / (1 + \<beta>)\<^sup>2" by (simp add: b(3) power_divide power_mult_distrib)
  ultimately have "bq_a2 f - (bq_a1 f)\<^sup>2 / 4 = ((1 - \<beta>) * (1 + \<beta>) - (cos w)\<^sup>2) / (1 + \<beta>)\<^sup>2"
    by (simp add: diff_divide_distrib)
  also have "(1 - \<beta>) * (1 + \<beta>) - (cos w)\<^sup>2 = (sin w)\<^sup>2 - \<beta>\<^sup>2" by (simp add: cos_squared_eq power2_eq_square algebra_simps)
  also have "0 < ((sin w)\<^sup>2 - \<beta>\<^sup>2) / (1 + \<beta>)\<^sup>2" using b(1,2) by (intro divide_pos_pos) (simp_all add: power_strict_mono)
  finally have D: "0 < bq_a2 f - (bq_a1 f)\<^sup>2 / 4" .
  let ?f = "f\<lparr>bq_z1 := z1, bq_z2 := z2\<rparr>" and ?step = "\<lambda>f. snd (biquad_tick exact f 0)"
  have inv: "bq_energy ((?step ^^ i) ?f) = bq_a2 f ^ i * bq_energy ?f \<and> bq_a1 ((?step ^^ i) ?f) = bq_a1 f \<and> bq_a2 ((?step ^^ i) ?f) = bq_a2 f" for i
    by (induction i) (simp_all add: biquad_silence)
  have "(bq_z1 ((?step ^^ i) ?f))\<^sup>2 \<le> bq_a2 f ^ i * bq_energy ?f / (bq_a2 f - (bq_a1 f)\<^sup>2 / 4)" for i
    using bq_energy_bound [of "(?step ^^ i) ?f"] inv [of i] D by (simp add: pos_le_divide_eq mult.commute)
  then show ?thesis using a2 D biquad_silence_run [of _ n ?f] by simp
qed

lemma biquad_rings_down_witness:
  "let f = biquad_new exact_math 48000 Lowpass 1000 1 0 in 0 < bq_a2 f \<and> bq_a2 f < 1"
  using biquad_rings_down [of 48000 1000 1 Lowpass 0 _ 1 1 1] by (simp add: Let_def)

section \<open>The state-variable filter is passive\<close>

definition svf_energy :: "real svf \<Rightarrow> real" where
  "svf_energy s = (sv_ic1eq s)\<^sup>2 + (sv_ic2eq s)\<^sup>2"

text \<open>What the coefficients of a filter have in common.\<close>

definition svf_ok :: "real \<Rightarrow> real \<Rightarrow> real svf \<Rightarrow> bool" where
  "svf_ok g k s \<longleftrightarrow> 0 < g \<and> 0 < k \<and> sv_k s = k \<and> sv_a1 s = 1 / (1 + g * (g + k)) \<and> sv_a2 s = g * sv_a1 s \<and> sv_a3 s = g * sv_a2 s"

lemma svf_tick_eqs:
  assumes s: "svf_ok g k s" and t: "svf_tick exact s x = (out, s')"
  shows "svf_ok g k s'" "sv_ic1eq s = sv_bp out - g * sv_hp out" "sv_ic2eq s = sv_lp out - g * sv_bp out"
    "sv_ic1eq s' = sv_bp out + g * sv_hp out" "sv_ic2eq s' = sv_lp out + g * sv_bp out"
    "sv_hp out = x - k * sv_bp out - sv_lp out" "sv_notch out = x - k * sv_bp out"
proof -
  define d where "d = 1 + g * (g + k)"
  have gk: "0 < g" "0 < k" using s by (simp_all add: svf_ok_def)
  then have d: "0 < d" by (simp add: d_def add_pos_pos)
  have c: "sv_k s = k" "sv_a1 s = 1 / d" "sv_a2 s = g / d" "sv_a3 s = g * g / d" using s by (simp_all add: svf_ok_def d_def)
  have o: "out = fst (svf_tick exact s x)" "s' = snd (svf_tick exact s x)" using t by simp_all
  show "svf_ok g k s'" using s by (simp add: o svf_tick_def Let_def svf_ok_def)
  have bp: "sv_bp out = (sv_ic1eq s + g * (x - sv_ic2eq s)) / d" by (simp add: o svf_tick_def Let_def c add_divide_distrib)
  have lp: "sv_lp out = sv_ic2eq s + g * sv_bp out" using d unfolding bp by (simp add: o svf_tick_def Let_def c field_simps)
  show hp: "sv_hp out = x - k * sv_bp out - sv_lp out" by (simp add: o svf_tick_def Let_def c)
  show "sv_notch out = x - k * sv_bp out" using hp by (simp add: o svf_tick_def Let_def)
  show ic2: "sv_ic2eq s = sv_lp out - g * sv_bp out" using lp by simp
  have "d * sv_bp out = sv_ic1eq s + g * (x - sv_ic2eq s)" using d by (simp add: bp)
  then show ic1: "sv_ic1eq s = sv_bp out - g * sv_hp out" unfolding hp lp by (simp add: d_def algebra_simps)
  have "sv_ic1eq s' = 2 * sv_bp out - sv_ic1eq s" "sv_ic2eq s' = 2 * sv_lp out - sv_ic2eq s" by (simp_all add: o svf_tick_def Let_def)
  then show "sv_ic1eq s' = sv_bp out + g * sv_hp out" "sv_ic2eq s' = sv_lp out + g * sv_bp out" using ic1 ic2 by simp_all
qed

text \<open>The energy of the two integrators changes by the work of the input at the band-pass output.\<close>

lemma svf_work:
  assumes "svf_ok g k s" "svf_tick exact s x = (out, s')"
  shows "svf_energy s' = svf_energy s + 4 * g * sv_bp out * (x - k * sv_bp out)"
  unfolding svf_energy_def svf_tick_eqs(2-6) [OF assms]
  by (simp add: power2_eq_square algebra_simps)

lemma svf_new_ok: "svf_ok (tan (pi * max (1 / 100000) (min (49 / 100) (cutoff / sr)))) (1 / max q (1 / 10000)) (svf_new exact_math sr cutoff q)"
proof -
  define c where "c = max (1 / 100000) (min (49 / 100) (cutoff / sr))"
  have "0 < c" "c < 1 / 2" by (simp_all add: c_def)
  then have "0 < pi * c" "pi * c < pi / 2" using mult_strict_left_mono [of c "1 / 2" pi] by simp_all
  then have "0 < tan (pi * c)" by (rule tan_gt_zero)
  moreover have "0 < max q (1 / 10000 :: real)" by simp
  ultimately show ?thesis unfolding c_def by (simp add: svf_ok_def svf_new_def Let_def)
qed

lemma svf_balance_run:
  "svf_ok g k s \<Longrightarrow> run_steps (\<lambda>s x. Some (svf_tick exact s x)) s xs = Some (outs, s') \<Longrightarrow>
    (\<Sum>x\<leftarrow>xs. x\<^sup>2) + k / (2 * g) * svf_energy s =
      (\<Sum>o'\<leftarrow>outs. (sv_notch o')\<^sup>2) + (\<Sum>o'\<leftarrow>outs. (k * sv_bp o')\<^sup>2) + k / (2 * g) * svf_energy s'"
proof (induction xs arbitrary: s outs)
  case (Cons x xs)
  obtain out s1 where t: "svf_tick exact s x = (out, s1)" by (metis surj_pair)
  then obtain outs1 where r: "run_steps (\<lambda>s x. Some (svf_tick exact s x)) s1 xs = Some (outs1, s')" "outs = out # outs1"
    using Cons.prems(2) by (auto split: bind_splits)
  note e = svf_tick_eqs [OF Cons.prems(1) t]
  have gk: "0 < g" "0 < k" using Cons.prems(1) by (simp_all add: svf_ok_def)
  have "k / (2 * g) * (4 * g * sv_bp out * (x - k * sv_bp out)) = 2 * k * sv_bp out * (x - k * sv_bp out)" using gk by simp
  then have "k / (2 * g) * svf_energy s1 = k / (2 * g) * svf_energy s + 2 * k * sv_bp out * (x - k * sv_bp out)"
    unfolding svf_work [OF Cons.prems(1) t] distrib_left by simp
  moreover have "x\<^sup>2 = (sv_notch out)\<^sup>2 + (k * sv_bp out)\<^sup>2 + 2 * k * sv_bp out * (x - k * sv_bp out)"
    unfolding e(7) by (simp add: power2_eq_square algebra_simps)
  ultimately show ?case using Cons.IH [OF e(1) r(1)] r(2) by simp
qed simp

text \<open>C22: the state-variable filter is stable up to the Nyquist frequency. In exact arithmetic, for every sample rate, cutoff and
  quality and every input, its energy balances: what comes in leaves as the notch and the normalised band-pass response or is
  held in the two integrators, and what they hold is never negative. So neither response is ever stronger than the input.\<close>

theorem svf_balances:
  "\<exists>outs s'. run_steps (\<lambda>s x. Some (svf_tick exact s x)) (svf_new exact_math sample_rate cutoff q) xs = Some (outs, s') \<and>
    (\<Sum>x\<leftarrow>xs. x\<^sup>2) = (\<Sum>o'\<leftarrow>outs. (sv_notch o')\<^sup>2) + (\<Sum>o'\<leftarrow>outs. (sv_bp o' / max q (1 / 10000))\<^sup>2) +
      svf_energy s' / (2 * max q (1 / 10000) * tan (pi * max (1 / 100000) (min (49 / 100) (cutoff / sample_rate)))) \<and>
    0 \<le> svf_energy s' \<and> 0 < tan (pi * max (1 / 100000) (min (49 / 100) (cutoff / sample_rate)))"
proof -
  let ?s = "svf_new exact_math sample_rate cutoff q" and ?g = "tan (pi * max (1 / 100000) (min (49 / 100) (cutoff / sample_rate)))"
  obtain outs s' where r: "run_steps (\<lambda>s x. Some (svf_tick exact s x)) ?s xs = Some (outs, s')"
    using run_steps_total [of "svf_tick exact"] by blast
  have "svf_energy ?s = 0" by (simp add: svf_energy_def svf_new_def Let_def)
  then have "(\<Sum>x\<leftarrow>xs. x\<^sup>2) = (\<Sum>o'\<leftarrow>outs. (sv_notch o')\<^sup>2) + (\<Sum>o'\<leftarrow>outs. (1 / max q (1 / 10000) * sv_bp o')\<^sup>2) +
      1 / max q (1 / 10000) / (2 * ?g) * svf_energy s'"
    using svf_balance_run [OF svf_new_ok r] by simp
  moreover have "0 < ?g" using svf_new_ok [of cutoff sample_rate q] by (simp add: svf_ok_def)
  moreover have "0 \<le> svf_energy s'" by (simp add: svf_energy_def)
  ultimately show ?thesis using r by (intro exI [of _ outs] exI [of _ s']) (simp add: mult_ac)
qed

section \<open>The state-variable filter at its cutoff\<close>

text \<open>The steady state at the cutoff, at phase \<open>p\<close>.\<close>

definition svf_at :: "real \<Rightarrow> real \<Rightarrow> real \<Rightarrow> real svf \<Rightarrow> bool" where
  "svf_at g k p s \<longleftrightarrow> svf_ok g k s \<and> sv_ic1eq s = (sin p - g * cos p) / k \<and> sv_ic2eq s = (- cos p - g * sin p) / k"

lemma svf_at_step:
  assumes s: "svf_at (tan (w / 2)) k p s" and c: "cos (w / 2) \<noteq> 0"
  shows "\<exists>s'. svf_tick exact s (sin p) = (\<lparr>sv_lp = - cos p / k, sv_bp = sin p / k, sv_hp = cos p / k, sv_notch = 0\<rparr>, s') \<and>
    svf_at (tan (w / 2)) k (p + w) s'"
proof -
  define g where "g = tan (w / 2)"
  have ok: "svf_ok g k s" "sv_ic1eq s = (sin p - g * cos p) / k" "sv_ic2eq s = (- cos p - g * sin p) / k"
    using s by (simp_all add: svf_at_def g_def)
  have gk: "0 < g" "0 < k" using ok(1) by (simp_all add: svf_ok_def)
  obtain out s' where t: "svf_tick exact s (sin p) = (out, s')" by (metis surj_pair)
  note e = svf_tick_eqs [OF ok(1) t]
  define S T where "S = sin p / k" and "T = cos p / k"
  have S: "sin p = k * S" using gk by (simp add: S_def)
  have L: "sv_lp out = - T - g * S + g * sv_bp out" using e(3) unfolding ok(3) by (simp add: diff_divide_distrib S_def T_def)
  have "S - g * T = sv_bp out - g * (k * S - k * sv_bp out - sv_lp out)"
    using e(2) unfolding ok(2) e(6) S [symmetric] by (simp add: diff_divide_distrib S_def T_def)
  then have "S * (1 + g * g + g * k) = sv_bp out * (1 + g * g + g * k)" unfolding L by (simp add: algebra_simps)
  then have "sin p / k * (1 + g * g + g * k) = sv_bp out * (1 + g * g + g * k)" by (simp only: S_def)
  moreover have "1 + g * g + g * k \<noteq> 0" using gk by (metis add_pos_pos less_irrefl mult_pos_pos zero_less_one)
  ultimately have bp: "sv_bp out = sin p / k" by (metis mult_cancel_right)
  have lp: "sv_lp out = - cos p / k" using e(3) unfolding ok(3) bp by (simp add: diff_divide_distrib)
  have hp: "sv_hp out = cos p / k" using e(6) gk unfolding bp lp by simp
  have notch: "sv_notch out = 0" using e(7) gk unfolding bp by simp
  have gc: "g * cos (w / 2) = sin (w / 2)" using c by (simp add: g_def tan_def)
  have "(sin p + g * cos p) * cos (w / 2) = (sin (p + w) - g * cos (p + w)) * cos (w / 2)"
  proof -
    have "(sin p + g * cos p) * cos (w / 2) = sin p * cos (w / 2) + cos p * (g * cos (w / 2))" by (simp add: algebra_simps)
    also have "\<dots> = sin (p + w / 2)" unfolding gc by (simp add: sin_add)
    also have "\<dots> = sin ((p + w) - w / 2)" by (rule arg_cong [where f = sin]) linarith
    also have "\<dots> = sin (p + w) * cos (w / 2) - cos (p + w) * (g * cos (w / 2))" unfolding gc by (rule sin_diff)
    finally show ?thesis by (simp add: algebra_simps)
  qed
  then have "sin p + g * cos p = sin (p + w) - g * cos (p + w)" using c by simp
  then have ic1: "sv_ic1eq s' = (sin (p + w) - g * cos (p + w)) / k" using e(4) unfolding bp hp by (simp add: add_divide_distrib [symmetric])
  have "(- cos p + g * sin p) * cos (w / 2) = (- cos (p + w) - g * sin (p + w)) * cos (w / 2)"
  proof -
    have "(- cos p + g * sin p) * cos (w / 2) = - (cos p * cos (w / 2) - sin p * (g * cos (w / 2)))" by (simp add: algebra_simps)
    also have "\<dots> = - cos (p + w / 2)" unfolding gc by (simp add: cos_add)
    also have "\<dots> = - cos ((p + w) - w / 2)" by (rule arg_cong [where f = "\<lambda>t. - cos t"]) linarith
    also have "\<dots> = - (cos (p + w) * cos (w / 2) + sin (p + w) * (g * cos (w / 2)))" unfolding gc by (simp only: cos_diff)
    finally show ?thesis by (simp add: algebra_simps)
  qed
  then have "- cos p + g * sin p = - cos (p + w) - g * sin (p + w)" using c by (metis mult_cancel_right)
  moreover have "sv_ic2eq s' = (- cos p + g * sin p) / k" using e(5) unfolding bp lp by (simp add: add_divide_distrib diff_divide_distrib)
  ultimately have "sv_ic2eq s' = (- cos (p + w) - g * sin (p + w)) / k" by (simp only:)
  moreover have "out = \<lparr>sv_lp = - cos p / k, sv_bp = sin p / k, sv_hp = cos p / k, sv_notch = 0\<rparr>"
    using bp lp hp notch by simp
  ultimately show ?thesis using t e(1) ic1 by (simp add: svf_at_def g_def)
qed

lemma svf_at_run:
  "svf_at (tan (w / 2)) k (p + real m * w) s \<Longrightarrow> cos (w / 2) \<noteq> 0 \<Longrightarrow>
    \<exists>s'. run_steps (\<lambda>s x. Some (svf_tick exact s x)) s (map (\<lambda>n. sin (p + real n * w)) [m..<m + n]) =
      Some (map (\<lambda>n. let t = p + real n * w in \<lparr>sv_lp = - cos t / k, sv_bp = sin t / k, sv_hp = cos t / k, sv_notch = 0\<rparr>) [m..<m + n], s')"
proof (induction n arbitrary: m s)
  case (Suc n)
  have u: "[m..<m + Suc n] = m # [Suc m..<Suc m + n]" by (simp add: upt_conv_Cons)
  obtain s1 where s1: "svf_tick exact s (sin (p + real m * w)) = (\<lparr>sv_lp = - cos (p + real m * w) / k, sv_bp = sin (p + real m * w) / k,
      sv_hp = cos (p + real m * w) / k, sv_notch = 0\<rparr>, s1)" "svf_at (tan (w / 2)) k (p + real m * w + w) s1"
    using svf_at_step [OF Suc.prems] by blast
  have next_phase: "p + real m * w + w = p + real (Suc m) * w" by (simp add: algebra_simps)
  from Suc.IH [of "Suc m" s1] s1(2) Suc.prems(2) show ?case unfolding next_phase u using s1(1) by (auto simp: Let_def)
qed simp

text \<open>The filter at its cutoff. In exact arithmetic a sine at the cutoff frequency has a steady state in which the notch is
  silent and the band-pass response is the sine times the quality, the low-pass and high-pass responses a quarter period off it.
  The documentation says that the band-pass response has unity gain there; it has that only for a quality of one.\<close>

theorem svf_at_cutoff:
  assumes "1 / 100000 \<le> cutoff / sample_rate" "cutoff / sample_rate \<le> 49 / 100" "1 / 10000 \<le> q"
  shows "\<exists>ic1 ic2 s'. run_steps (\<lambda>s x. Some (svf_tick exact s x)) ((svf_new exact_math sample_rate cutoff q)\<lparr>sv_ic1eq := ic1, sv_ic2eq := ic2\<rparr>)
      (map (\<lambda>n. sin (real n * (2 * pi * cutoff / sample_rate))) [0..<len]) =
    Some (map (\<lambda>n. let t = real n * (2 * pi * cutoff / sample_rate) in
      \<lparr>sv_lp = - q * cos t, sv_bp = q * sin t, sv_hp = q * cos t, sv_notch = 0\<rparr>) [0..<len], s')"
proof -
  define w where "w = 2 * pi * cutoff / sample_rate"
  define s where "s = (svf_new exact_math sample_rate cutoff q)\<lparr>sv_ic1eq := - tan (w / 2) * q, sv_ic2eq := - q\<rparr>"
  have w: "w / 2 = pi * max (1 / 100000) (min (49 / 100) (cutoff / sample_rate))" using assms(1,2) by (simp add: w_def)
  have k: "1 / max q (1 / 10000) = 1 / q" using assms(3) by simp
  have ok: "svf_ok (tan (w / 2)) (1 / q) (svf_new exact_math sample_rate cutoff q)" using svf_new_ok [of cutoff sample_rate q] unfolding w k .
  have "svf_at (tan (w / 2)) (1 / q) (0 + real 0 * w) s" using ok by (simp add: svf_at_def s_def svf_ok_def)
  moreover have "tan (w / 2) \<noteq> 0" using ok by (simp add: svf_ok_def)
  then have "cos (w / 2) \<noteq> 0" by (auto simp: tan_def)
  ultimately obtain s' where "run_steps (\<lambda>s x. Some (svf_tick exact s x)) s (map (\<lambda>n. sin (0 + real n * w)) [0..<0 + len]) =
      Some (map (\<lambda>n. let t = 0 + real n * w in \<lparr>sv_lp = - cos t / (1 / q), sv_bp = sin t / (1 / q), sv_hp = cos t / (1 / q), sv_notch = 0\<rparr>) [0..<0 + len], s')"
    using svf_at_run by blast
  then show ?thesis unfolding w_def [symmetric] s_def by (intro exI) (simp add: mult_ac)
qed

lemma svf_at_cutoff_witness:
  "\<exists>ic1 ic2 s' out. run_steps (\<lambda>s x. Some (svf_tick exact s x)) ((svf_new exact_math 48000 12000 4)\<lparr>sv_ic1eq := ic1, sv_ic2eq := ic2\<rparr>) [0, 1] =
    Some (out, s') \<and> sv_bp (out ! 1) = 4"
proof -
  obtain ic1 ic2 s' where "run_steps (\<lambda>s x. Some (svf_tick exact s x)) ((svf_new exact_math 48000 12000 4)\<lparr>sv_ic1eq := ic1, sv_ic2eq := ic2\<rparr>)
      (map (\<lambda>n. sin (real n * (2 * pi * 12000 / 48000))) [0..<2]) =
    Some (map (\<lambda>n. let t = real n * (2 * pi * 12000 / 48000) in
      \<lparr>sv_lp = - 4 * cos t, sv_bp = 4 * sin t, sv_hp = 4 * cos t, sv_notch = 0\<rparr>) [0..<2], s')"
    using svf_at_cutoff [of 12000 48000 4 2] by auto
  moreover have "map (\<lambda>n. sin (real n * (2 * pi * 12000 / 48000))) [0..<2] = [0, 1]" by (simp add: upt_conv_Cons sin_pi_half)
  ultimately show ?thesis by (intro exI conjI) (assumption | simp add: Let_def sin_pi_half)+
qed

end
