(* ===== verification/Fft_Q15.thy ===== *)
theory Fft_Q15
  imports Fft
begin

text \<open>
  \<open>crates/daisy-dsp/src/fft_q15.rs\<close>: the fixed-point FFT on packed complex samples (real part in the
  low half of a 32-bit word, imaginary part in the high half), on the DSP instructions as the file
  emulates them, with the table of \<open>build.rs\<close>; what each packed operation does to the two halves, and
  that the transform returns exactly for the lengths its assertions admit.
\<close>

type_synonym i16 = "16 word"
type_synonym i32 = "32 word"

section \<open>Packed arithmetic\<close>

definition pack :: "i16 \<Rightarrow> i16 \<Rightarrow> i32" where
  "pack re im = push_bit 16 (scast im) OR (scast re AND 0xffff)"

definition lo16 :: "i32 \<Rightarrow> i32" where
  "lo16 x = scast (ucast x :: i16)"

definition hi16 :: "i32 \<Rightarrow> i32" where
  "hi16 x = signed_drop_bit 16 x"

definition sat_i16 :: "i32 \<Rightarrow> i16" where
  "sat_i16 v = word_of_int (max (- 32768) (min 32767 (sint v)))"

definition smusd :: "i32 \<Rightarrow> i32 \<Rightarrow> i32" where
  "smusd a b = lo16 a * lo16 b - hi16 a * hi16 b"

definition smuadx :: "i32 \<Rightarrow> i32 \<Rightarrow> i32" where
  "smuadx a b = lo16 a * hi16 b + hi16 a * lo16 b"

definition shadd16 :: "i32 \<Rightarrow> i32 \<Rightarrow> i32" where
  "shadd16 a b = pack (scast (signed_drop_bit 1 (lo16 a + lo16 b))) (scast (signed_drop_bit 1 (hi16 a + hi16 b)))"

definition shsub16 :: "i32 \<Rightarrow> i32 \<Rightarrow> i32" where
  "shsub16 a b = pack (scast (signed_drop_bit 1 (lo16 a - lo16 b))) (scast (signed_drop_bit 1 (hi16 a - hi16 b)))"

definition cmul_q15 :: "i32 \<Rightarrow> i32 \<Rightarrow> i32" where
  "cmul_q15 x w = pack (sat_i16 (signed_drop_bit 15 (smusd x w))) (sat_i16 (signed_drop_bit 15 (smuadx x w)))"

definition tw_q15 :: "i32 list \<Rightarrow> nat \<Rightarrow> nat \<Rightarrow> i32 option" where
  "tw_q15 TW_Q15 k stride = idx_get TW_Q15 ((k * stride) AND (TW_MASTER - 1))"

section \<open>The transform\<close>

definition swap_q15 :: "nat \<Rightarrow> nat \<Rightarrow> 'a list \<Rightarrow> 'a list option" where
  "swap_q15 i j x = do { a \<leftarrow> idx_get x i; b \<leftarrow> idx_get x j; x \<leftarrow> idx_set x i b; idx_set x j a }"

definition bit_reverse_q15 :: "'a list \<Rightarrow> 'a list option" where
  "bit_reverse_q15 x =
     (let n = length x in
      map_option snd (for_in (\<lambda>i (j, x).
        let j = rev_carry j (drop_bit 1 n) in
        if i < j then do { x \<leftarrow> swap_q15 i j x; Some (j, x) }
        else Some (j, x)) [1..<n] (0, x)))"

definition butterfly_q15 :: "i32 list \<Rightarrow> nat \<Rightarrow> nat \<Rightarrow> nat \<Rightarrow> nat \<Rightarrow> i32 list \<Rightarrow> i32 list option" where
  "butterfly_q15 T half stride base k x =
     (let i = base + k; j = i + half in do {
        w \<leftarrow> tw_q15 T k stride;
        xj \<leftarrow> idx_get x j;
        let t = cmul_q15 xj w;
        a \<leftarrow> idx_get x i;
        x \<leftarrow> idx_set x i (shadd16 a t);
        idx_set x j (shsub16 a t)
      })"

function stages_q15 :: "i32 list \<Rightarrow> nat \<Rightarrow> nat \<Rightarrow> i32 list \<Rightarrow> i32 list option" where
  "stages_q15 T l m x =
     (if m \<le> l \<and> 0 < m then
        let half = m div 2; stride = TW_MASTER div m in
        case step_loop (\<lambda>base. for_in (butterfly_q15 T half stride base) [0..<half]) l m 0 x of
          None \<Rightarrow> None
        | Some x \<Rightarrow> stages_q15 T l (m * 2) x
      else Some x)"
  by pat_completeness auto
termination by (relation "measure (\<lambda>(_, l, m, _). Suc l - m)") auto

declare stages_q15.simps [simp del]

definition cfft_q15 :: "i32 list \<Rightarrow> i32 list \<Rightarrow> i32 list option" where
  "cfft_q15 T x =
     (let l = length x in
      if \<not> is_power_of_two l then None
      else if \<not> l \<le> TW_MASTER then None
      else if l \<le> 1 then Some x
      else do { x \<leftarrow> bit_reverse_q15 x; stages_q15 T l 2 x })"

text \<open>The table of the build script, over the real cosine.\<close>

definition round_away :: "real \<Rightarrow> int" where
  "round_away v = (if 0 \<le> v then \<lfloor>v + 1 / 2\<rfloor> else - \<lfloor>- v + 1 / 2\<rfloor>)"

definition q15 :: "real \<Rightarrow> i16" where
  "q15 v = word_of_int (max (- 32768) (min 32767 (round_away (v * 32768))))"

definition q15_table :: "i32 list" where
  "q15_table = map (\<lambda>i. let angle = - 2 * pi * real i / real TW_MASTER in
     push_bit 16 (scast (q15 (sin angle))) OR (scast (q15 (cos angle)) AND 0xffff)) [0..<TW_MASTER]"

section \<open>Lanes\<close>

definition re_lane :: "i32 \<Rightarrow> int" where
  "re_lane x = sint (ucast x :: i16)"

definition im_lane :: "i32 \<Rightarrow> int" where
  "im_lane x = sint (ucast (drop_bit 16 x) :: i16)"

lemma sint_bounds16: "- 32768 \<le> sint (a :: i16)" "sint (a :: i16) \<le> 32767"
  using sint_greater_eq [of a] sint_less [of a] by simp_all

lemma lane_bounds: "- 32768 \<le> re_lane x" "re_lane x \<le> 32767" "- 32768 \<le> im_lane x" "im_lane x \<le> 32767"
  by (simp_all add: re_lane_def im_lane_def sint_bounds16)

lemma sint_small: "- 2147483648 \<le> v \<Longrightarrow> v < 2147483648 \<Longrightarrow> sint (word_of_int v :: i32) = v"
  unfolding sint_sbintrunc' by (rule signed_take_bit_int_eq_self) simp_all

lemma sint_small16: "- 32768 \<le> v \<Longrightarrow> v < 32768 \<Longrightarrow> sint (word_of_int v :: i16) = v"
  unfolding sint_sbintrunc' by (rule signed_take_bit_int_eq_self) simp_all

lemma lo16_lane: "lo16 x = word_of_int (re_lane x)"
  unfolding lo16_def re_lane_def by (rule scast_eq)

lemma hi16_lane: "hi16 x = word_of_int (im_lane x)"
proof -
  have "hi16 x = scast (ucast (drop_bit 16 x) :: i16)"
  proof (rule bit_word_eqI)
    fix n :: nat assume "n < LENGTH(32)"
    consider "n < 15" | "n = 15" | "16 \<le> n" by linarith
    then show "bit (hi16 x) n \<longleftrightarrow> bit (scast (ucast (drop_bit 16 x) :: i16) :: i32) n"
      using \<open>n < LENGTH(32)\<close> by cases (auto simp: hi16_def bit_simps not_less)
  qed
  then show ?thesis unfolding im_lane_def by (simp only: scast_eq)
qed

lemma mask16: "(0xffff :: i32) = mask 16"
  by (simp add: mask_eq_exp_minus_1)

lemma re_pack [simp]: "re_lane (pack r i) = sint r"
proof -
  have "(ucast (pack r i) :: i16) = r"
    by (rule bit_word_eqI) (auto simp: pack_def mask16 bit_simps)
  then show ?thesis by (simp add: re_lane_def)
qed

lemma im_pack [simp]: "im_lane (pack r i) = sint i"
proof -
  have "(ucast (drop_bit 16 (pack r i)) :: i16) = i"
    by (rule bit_word_eqI) (auto simp: pack_def mask16 bit_simps)
  then show ?thesis by (simp add: im_lane_def)
qed

text \<open>A halved sum of two halfwords is a halfword; nothing wraps.\<close>

lemma halved:
  assumes "- 65536 \<le> v" "v < 65536"
  shows "sint (scast (signed_drop_bit 1 (word_of_int v :: i32)) :: i16) = v div 2"
proof -
  have "sint (signed_drop_bit 1 (word_of_int v :: i32)) = v div 2"
    using assms by (simp add: sint_signed_drop_bit_eq drop_bit_eq_div sint_small)
  then have "(scast (signed_drop_bit 1 (word_of_int v :: i32)) :: i16) = word_of_int (v div 2)"
    by (simp only: scast_eq)
  moreover have "- 32768 \<le> v div 2" "v div 2 < 32768" using assms by linarith+
  ultimately show ?thesis by (simp only: sint_small16)
qed

lemma shadd16_lanes [simp]:
  "re_lane (shadd16 a b) = (re_lane a + re_lane b) div 2" "im_lane (shadd16 a b) = (im_lane a + im_lane b) div 2"
  unfolding shadd16_def lo16_lane hi16_lane wi_homs re_pack im_pack
  by (rule halved; use lane_bounds [of a] lane_bounds [of b] in linarith)+

lemma shsub16_lanes [simp]:
  "re_lane (shsub16 a b) = (re_lane a - re_lane b) div 2" "im_lane (shsub16 a b) = (im_lane a - im_lane b) div 2"
  unfolding shsub16_def lo16_lane hi16_lane wi_homs re_pack im_pack
  by (rule halved; use lane_bounds [of a] lane_bounds [of b] in linarith)+

definition clamp16 :: "int \<Rightarrow> int" where
  "clamp16 v = max (- 32768) (min 32767 v)"

lemma lane_product: "\<bar>re_lane a * v\<bar> \<le> 32768 * \<bar>v\<bar>" "\<bar>im_lane a * v\<bar> \<le> 32768 * \<bar>v\<bar>"
proof -
  have "\<bar>re_lane a\<bar> \<le> 32768" "\<bar>im_lane a\<bar> \<le> 32768" using lane_bounds [of a] by linarith+
  then show "\<bar>re_lane a * v\<bar> \<le> 32768 * \<bar>v\<bar>" "\<bar>im_lane a * v\<bar> \<le> 32768 * \<bar>v\<bar>"
    unfolding abs_mult by (simp_all add: mult_right_mono)
qed

lemma scaled:
  assumes "- 2147483648 \<le> v" "v < 2147483648"
  shows "sint (sat_i16 (signed_drop_bit 15 (word_of_int v))) = clamp16 (v div 32768)"
proof -
  have "sint (signed_drop_bit 15 (word_of_int v :: i32)) = v div 32768"
    using assms by (simp add: sint_signed_drop_bit_eq drop_bit_eq_div sint_small)
  moreover have "- 32768 \<le> clamp16 u" "clamp16 u < 32768" for u by (simp_all add: clamp16_def)
  ultimately show ?thesis unfolding sat_i16_def clamp16_def [symmetric] by (simp only: sint_small16)
qed

text \<open>The product fits its 32-bit accumulator unless the twiddle is the corner \<open>- 1 - j\<close>.\<close>

lemma cmul_q15_lanes:
  assumes w: "\<bar>re_lane w\<bar> + \<bar>im_lane w\<bar> < 65536"
  shows "re_lane (cmul_q15 x w) = clamp16 ((re_lane x * re_lane w - im_lane x * im_lane w) div 32768)"
    and "im_lane (cmul_q15 x w) = clamp16 ((re_lane x * im_lane w + im_lane x * re_lane w) div 32768)"
proof -
  note p = lane_product [of x "re_lane w"] lane_product [of x "im_lane w"]
  show "re_lane (cmul_q15 x w) = clamp16 ((re_lane x * re_lane w - im_lane x * im_lane w) div 32768)"
    unfolding cmul_q15_def smusd_def lo16_lane hi16_lane wi_homs re_pack
    by (rule scaled) (use w p in linarith)+
  show "im_lane (cmul_q15 x w) = clamp16 ((re_lane x * im_lane w + im_lane x * re_lane w) div 32768)"
    unfolding cmul_q15_def smuadx_def lo16_lane hi16_lane wi_homs im_pack
    by (rule scaled) (use w p in linarith)+
qed

section \<open>Memory safety\<close>

lemma bit_reverse_q15_ok:
  assumes "length x = 2 ^ m"
  shows "bit_reverse_q15 x = Some (map (\<lambda>p. x ! rev_bits m p) [0..<2 ^ m])"
proof -
  define h :: "nat \<times> 'a list \<Rightarrow> nat \<times> 'a planar" where "h = (\<lambda>(j, y). (j, (y, y)))"
  have sw: "swap_unchecked i k (y, y) = map_option (\<lambda>y. (y, y)) (swap_q15 i k y)" for i k and y :: "'a list"
    by (auto simp: swap_unchecked_def swap_q15_def idx_get_def idx_set_def)
  define fb :: "nat \<Rightarrow> nat \<times> 'a planar \<Rightarrow> (nat \<times> 'a planar) option" where "fb = (\<lambda>i (j, z).
      let j = rev_carry j (drop_bit 1 (2 ^ m)) in
      if i < j then do { z \<leftarrow> swap_unchecked i j z; Some (j, z) } else Some (j, z))"
  define gb :: "nat \<Rightarrow> nat \<times> 'a list \<Rightarrow> (nat \<times> 'a list) option" where "gb = (\<lambda>i (j, x).
      let j = rev_carry j (drop_bit 1 (2 ^ m)) in
      if i < j then do { x \<leftarrow> swap_q15 i j x; Some (j, x) } else Some (j, x))"
  have "fb i (h s) = map_option h (gb i s)" for i s
    by (cases s; cases "swap_q15 i (rev_carry (fst s) (drop_bit 1 (2 ^ m))) (snd s)")
      (simp_all add: fb_def gb_def h_def sw Let_def)
  from for_in_map [of fb h gb, OF this] have both: "for_in fb [1..<2 ^ m] (h (0, x)) = map_option h (for_in gb [1..<2 ^ m] (0, x))" .
  have "bit_reverse (2 ^ m) (x, x) = map_option snd (for_in fb [1..<2 ^ m] (h (0, x)))"
    by (simp add: bit_reverse_def fb_def h_def)
  also have "\<dots> = map_option (\<lambda>y. (y, y)) (map_option snd (for_in gb [1..<2 ^ m] (0, x)))"
    unfolding both by (simp add: option.map_comp o_def h_def split_def)
  also have "map_option snd (for_in gb [1..<2 ^ m] (0, x)) = bit_reverse_q15 x"
    unfolding bit_reverse_q15_def gb_def assms Let_def ..
  finally have "bit_reverse (2 ^ m) (x, x) = map_option (\<lambda>y. (y, y)) (bit_reverse_q15 x)" .
  then show ?thesis using bit_reverse_ok [OF assms assms] by (auto simp: map_option_case split: option.splits)
qed

lemma butterfly_q15_total:
  "length T = TW_MASTER \<Longrightarrow> length x = l \<Longrightarrow> base + k + half < l \<Longrightarrow>
    \<exists>x'. butterfly_q15 T half stride base k x = Some x' \<and> length x' = l"
  unfolding butterfly_q15_def tw_q15_def and_master Let_def by (simp add: TW_MASTER_def)

lemma stage_q15_total:
  assumes T: "length T = TW_MASTER" and x: "length x = l" and m: "2 * half dvd l" "0 < half"
  shows "\<exists>x'. step_loop (\<lambda>base. for_in (butterfly_q15 T half stride base) [0..<half]) l (2 * half) 0 x = Some x' \<and> length x' = l"
proof (rule step_loop_inv [where I = "\<lambda>_ x. length x = l", OF x m(1)])
  fix base and x :: "i32 list"
  assume "base + 2 * half \<le> l" and x: "length x = l"
  then show "\<exists>x'. for_in (butterfly_q15 T half stride base) [0..<half] x = Some x' \<and> length x' = l"
    by (intro for_in_upt [where I = "\<lambda>_ x. length x = l"]) (simp_all add: butterfly_q15_total [OF T])
qed (use m in simp)

lemma stages_q15_total:
  assumes T: "length T = TW_MASTER"
  shows "length x = 2 ^ n \<Longrightarrow> s \<le> n \<Longrightarrow> \<exists>x'. stages_q15 T (2 ^ n) (2 ^ Suc s) x = Some x' \<and> length x' = 2 ^ n"
proof (induction "n - s" arbitrary: s x)
  case 0
  then have "\<not> (2::nat) ^ Suc s \<le> 2 ^ n" by simp
  then show ?case using 0 by (subst stages_q15.simps) simp
next
  case (Suc d)
  then have s: "s < n" by simp
  have "2 ^ Suc s dvd (2::nat) ^ n" using s by (intro le_imp_power_dvd) simp
  then have dv: "2 * 2 ^ s dvd (2::nat) ^ n" by simp
  obtain x1 where x1: "step_loop (\<lambda>base. for_in (butterfly_q15 T (2 ^ s) (TW_MASTER div 2 ^ Suc s) base) [0..<2 ^ s]) (2 ^ n) (2 * 2 ^ s) 0 x = Some x1"
    "length x1 = 2 ^ n"
    using stage_q15_total [OF T Suc.prems(1) dv] by auto
  have "\<exists>x'. stages_q15 T (2 ^ n) (2 ^ Suc (Suc s)) x1 = Some x' \<and> length x' = 2 ^ n"
    by (rule Suc.hyps(1)) (use Suc.hyps(2) x1(2) s in auto)
  moreover have "2 ^ Suc s \<le> (2::nat) ^ n" using s by (intro power_increasing) auto
  ultimately show ?case using x1(1) by (subst stages_q15.simps) (simp add: Let_def mult.commute)
qed

lemma master_exponent: "2 ^ m \<le> (2048::nat) \<longleftrightarrow> m \<le> 11"
proof -
  have "(2::nat) ^ m \<le> 2 ^ 11 \<longleftrightarrow> m \<le> 11" by (rule power_increasing_iff) simp
  then show ?thesis by simp
qed

lemma cfft_q15_total:
  assumes T: "length T = TW_MASTER"
  shows "cfft_q15 T x \<noteq> None \<longleftrightarrow> (\<exists>m \<le> 11. length x = 2 ^ m)"
proof
  assume r: "cfft_q15 T x \<noteq> None"
  then have "is_power_of_two (length x)" and le: "length x \<le> 2048"
    by (auto simp: cfft_q15_def TW_MASTER_def Let_def split: if_splits)
  then obtain m where m: "length x = 2 ^ m" unfolding is_power_of_two_iff by (elim exE)
  have "m \<le> 11" using le unfolding m master_exponent .
  then show "\<exists>m \<le> 11. length x = 2 ^ m" using m by (intro exI conjI)
next
  assume "\<exists>m \<le> 11. length x = 2 ^ m"
  then obtain m where m: "m \<le> 11" "length x = 2 ^ m" by (elim exE conjE)
  have l: "length (map (\<lambda>p. x ! rev_bits m p) [0..<2 ^ m]) = 2 ^ m" by simp
  obtain y where y: "stages_q15 T (2 ^ m) 2 (map (\<lambda>p. x ! rev_bits m p) [0..<2 ^ m]) = Some y"
    using stages_q15_total [OF T l, of 0] by auto
  have "is_power_of_two (length x)" "length x \<le> TW_MASTER"
    using m unfolding is_power_of_two_iff TW_MASTER_def m(2) master_exponent by (blast, simp)
  then show "cfft_q15 T x \<noteq> None"
    using y bit_reverse_q15_ok [OF m(2)] m(2) by (simp add: cfft_q15_def Let_def del: not_None_eq)
qed

end
