(* ===== verification/Fft_Q15_Error.thy ===== *)
theory Fft_Q15_Error
  imports Fft_Q15
begin

text \<open>
  The fixed-point transform of \<open>Fft_Q15\<close> against the discrete Fourier transform: one butterfly adds
  at most two units of rounding, the twiddle product and the halved sum each rounding downwards, and
  the stages add these up.
\<close>

section \<open>One stage\<close>

text \<open>What a stage leaves at index \<open>p\<close>, from what it found.\<close>

definition stage_word :: "i32 list \<Rightarrow> nat \<Rightarrow> nat \<Rightarrow> i32 list \<Rightarrow> nat \<Rightarrow> i32" where
  "stage_word T half stride x p =
     (let k = p mod half; b = p - p mod (2 * half); w = T ! ((k * stride) mod TW_MASTER);
          t = cmul_q15 (x ! (b + k + half)) w in
      if p mod (2 * half) < half then shadd16 (x ! (b + k)) t else shsub16 (x ! (b + k)) t)"

lemma stage_word_lo: "k < q \<Longrightarrow> 2 * q dvd b \<Longrightarrow>
    stage_word T q stride x (b + k) = shadd16 (x ! (b + k)) (cmul_q15 (x ! (b + k + q)) (T ! ((k * stride) mod TW_MASTER)))"
proof -
  assume h: "k < q" "2 * q dvd b"
  then have "(b + k) mod (2 * q) = k" by (auto elim!: dvdE)
  moreover have "(b + k) mod q = k" using h by (auto elim!: dvdE simp: mult.assoc mult.left_commute [of 2])
  ultimately show ?thesis using h by (simp add: stage_word_def Let_def)
qed

lemma stage_word_hi: "k < q \<Longrightarrow> 2 * q dvd b \<Longrightarrow>
    stage_word T q stride x (b + k + q) = shsub16 (x ! (b + k)) (cmul_q15 (x ! (b + k + q)) (T ! ((k * stride) mod TW_MASTER)))"
proof -
  assume h: "k < q" "2 * q dvd b"
  then have "(b + k + q) mod (2 * q) = k + q" by (auto elim!: dvdE simp: add.assoc)
  moreover have "(b + k + q) mod q = k" using h by (auto elim!: dvdE simp: mult.assoc mult.left_commute [of 2])
  ultimately show ?thesis using h by (simp add: stage_word_def Let_def)
qed

lemma residue_pair:
  assumes "(d::nat) < 2 * q" "k < q"
  shows "d mod q = k \<longleftrightarrow> d = k \<or> d = k + q"
proof
  assume m: "d mod q = k"
  have "d div q < 2" using assms by (simp add: less_mult_imp_div_less)
  then have "d div q = 0 \<or> d div q = 1" by arith
  then show "d = k \<or> d = k + q" using m div_mult_mod_eq [of d q] by auto
qed (use assms in auto)

definition words :: "nat \<Rightarrow> (nat \<Rightarrow> i32) \<Rightarrow> i32 list \<Rightarrow> bool" where
  "words l w x \<longleftrightarrow> length x = l \<and> (\<forall>p<l. x ! p = w p)"

lemma butterfly_q15_words:
  assumes T: "length T = TW_MASTER" and half: "0 < half" and base: "2 * half dvd base" "base + 2 * half \<le> l" and k: "k < half"
    and mix: "\<And>b k p. mix b k p = (if p < b \<or> p < b + 2 * half \<and> (p - b) mod half < k then stage_word T half stride x p else x ! p)"
    and y: "words l (mix base k) y"
  shows "\<exists>y'. butterfly_q15 T half stride base k y = Some y' \<and> words l (mix base (Suc k)) y'"
proof -
  let ?i = "base + k" and ?j = "base + k + half"
  have j: "?j < l" "?i < l" using base(2) k by simp_all
  have len: "length y = l" and old: "\<And>p. p < l \<Longrightarrow> y ! p = mix base k p" using y by (auto simp: words_def)
  have rd: "y ! ?i = x ! ?i" "y ! ?j = x ! ?j"
    using j k residue_pair [of "k + half" half k] by (simp_all add: old mix add.assoc)
  define t where "t = cmul_q15 (x ! ?j) (T ! ((k * stride) mod TW_MASTER))"
  define y' where "y' = y[?i := shadd16 (x ! ?i) t, ?j := shsub16 (x ! ?i) t]"
  have "butterfly_q15 T half stride base k y = Some y'"
    unfolding butterfly_q15_def tw_q15_def and_master Let_def t_def y'_def
    using T j by (simp add: TW_MASTER_def len rd)
  moreover have "words l (mix base (Suc k)) y'"
  proof -
    have "y' ! p = mix base (Suc k) p" if p: "p < l" for p
    proof (cases "base \<le> p \<and> p < base + 2 * half \<and> (p - base) mod half = k")
      case True
      then have "p - base = k \<or> p - base = k + half" using residue_pair [of "p - base" half k] k by linarith
      then have "p = ?i \<or> p = ?j" using True by linarith
      then have "y' ! p = stage_word T half stride x p"
        using stage_word_lo [OF k base(1), of T stride x] stage_word_hi [OF k base(1), of T stride x] j half
        by (elim disjE) (simp_all add: y'_def t_def len)
      then show ?thesis using True by (simp add: mix)
    next
      case False
      have "p \<noteq> ?i" "p \<noteq> ?j" using False k residue_pair [of "p - base" half k] by auto
      then have "y' ! p = mix base k p" using old [OF p] by (simp add: y'_def)
      then show ?thesis using False by (auto simp: mix less_Suc_eq)
    qed
    then show ?thesis by (simp add: words_def y'_def len)
  qed
  ultimately show ?thesis by blast
qed

lemma stage_q15_words:
  assumes T: "length T = TW_MASTER" and x: "length x = l" and half: "2 * half dvd l" "0 < half"
  obtains y where "step_loop (\<lambda>base. for_in (butterfly_q15 T half stride base) [0..<half]) l (2 * half) 0 x = Some y"
    "length y = l" "\<forall>p<l. y ! p = stage_word T half stride x p"
proof -
  define mix where "mix = (\<lambda>b k p. if p < b \<or> p < b + 2 * half \<and> (p - b) mod half < k then stage_word T half stride x p else x ! p)"
  have mixe: "mix b k p = (if p < b \<or> p < b + 2 * half \<and> (p - b) mod half < k then stage_word T half stride x p else x ! p)" for b k p
    by (simp add: mix_def)
  have outer: "\<exists>y'. for_in (butterfly_q15 T half stride base) [0..<half] y = Some y' \<and> words l (mix (base + 2 * half) 0) y'"
    if base: "2 * half dvd base" "base + 2 * half \<le> l" and y: "words l (mix base 0) y" for base y
  proof -
    have "\<exists>y'. for_in (butterfly_q15 T half stride base) [0..<half] y = Some y' \<and> words l (mix base half) y'"
      by (rule for_in_upt [where I = "\<lambda>k. words l (mix base k)", OF y])
        (simp, rule butterfly_q15_words [OF T half(2) base _ mixe])
    moreover have "mix base half = mix (base + 2 * half) 0"
      using half(2) by (auto simp: mix_def fun_eq_iff)
    ultimately show ?thesis by simp
  qed
  have start: "words l (mix 0 0) x" using x by (simp add: words_def mix_def)
  have "\<exists>y. step_loop (\<lambda>base. for_in (butterfly_q15 T half stride base) [0..<half]) l (2 * half) 0 x = Some y \<and> words l (mix l 0) y"
    by (rule step_loop_inv [where I = "\<lambda>base. words l (mix base 0)", OF start half(1)]) (use half(2) in simp, rule outer)
  then show thesis using that by (auto simp: words_def mix_def)
qed

section \<open>Rounding\<close>

definition cq :: "i32 \<Rightarrow> complex" where
  "cq x = Complex (re_lane x) (im_lane x)"

lemma cmod_box:
  assumes "\<bar>Re z\<bar> \<le> d" "\<bar>Im z\<bar> \<le> d"
  shows "cmod z \<le> (14143 / 10000) * d"
proof (rule power2_le_imp_le)
  have "Re z ^ 2 \<le> d ^ 2" "Im z ^ 2 \<le> d ^ 2" using assms by (metis abs_ge_zero power2_abs power_mono)+
  moreover have "((14143 / 10000) * d) ^ 2 = (200024449 / 100000000) * d ^ 2" by (simp only: power_mult_distrib) (simp add: power2_eq_square)
  moreover have "0 \<le> d ^ 2" by simp
  ultimately show "cmod z ^ 2 \<le> ((14143 / 10000) * d) ^ 2" unfolding cmod_power2 by linarith
  show "0 \<le> (14143 / 10000) * d" using assms by simp
qed

lemma floor_div:
  fixes a :: int
  assumes "0 < d"
  shows "real_of_int (a div d) \<le> a / d" "a / d < real_of_int (a div d) + 1"
  unfolding floor_divide_of_int_eq [where 'a = real, symmetric] by linarith+

lemma half_lane: "\<bar>real_of_int (a div 2) - a / 2\<bar> \<le> 1 / 2"
proof -
  have "a = 2 * (a div 2) \<or> a = 2 * (a div 2) + 1" by presburger
  then have "real_of_int a = 2 * real_of_int (a div 2) \<or> real_of_int a = 2 * real_of_int (a div 2) + 1" by linarith
  then show ?thesis by linarith
qed

lemma shadd16_rounds: "cmod (cq (shadd16 a b) - (cq a + cq b) / 2) \<le> (7072 / 10000)"
proof -
  have "cmod (cq (shadd16 a b) - (cq a + cq b) / 2) \<le> (14143 / 10000) * (1 / 2)"
    by (rule cmod_box; use half_lane [of "re_lane a + re_lane b"] half_lane [of "im_lane a + im_lane b"] in \<open>simp add: cq_def\<close>)
  then show ?thesis by simp
qed

lemma shsub16_rounds: "cmod (cq (shsub16 a b) - (cq a - cq b) / 2) \<le> (7072 / 10000)"
proof -
  have "cmod (cq (shsub16 a b) - (cq a - cq b) / 2) \<le> (14143 / 10000) * (1 / 2)"
    by (rule cmod_box; use half_lane [of "re_lane a - re_lane b"] half_lane [of "im_lane a - im_lane b"] in \<open>simp add: cq_def\<close>)
  then show ?thesis by simp
qed

lemma cmul_q15_rounds:
  assumes x: "cmod (cq x) \<le> 32700" and w: "cmod (cq w) \<le> 32770"
  shows "cmod (cq (cmul_q15 x w) - cq x * cq w / 32768) \<le> (14143 / 10000)"
proof -
  define P where "P = re_lane x * re_lane w - im_lane x * im_lane w"
  define Q where "Q = re_lane x * im_lane w + im_lane x * re_lane w"
  have prod: "cq x * cq w = Complex P Q" by (simp add: cq_def P_def Q_def complex_eq_iff)
  have "cmod (Complex P Q) \<le> 32700 * 32770"
    unfolding prod [symmetric] norm_mult using x w by (intro mult_mono) simp_all
  then have "\<bar>real_of_int P\<bar> \<le> 1071579000" "\<bar>real_of_int Q\<bar> \<le> 1071579000"
    using abs_Re_le_cmod [of "Complex P Q"] abs_Im_le_cmod [of "Complex P Q"] by simp_all
  then have PQ: "\<bar>P\<bar> \<le> 1071579000" "\<bar>Q\<bar> \<le> 1071579000" by linarith+
  have clamp: "clamp16 (v div 32768) = v div 32768" if "\<bar>v\<bar> \<le> 1071579000" for v
    using that by (simp add: clamp16_def)
  have "\<bar>re_lane w\<bar> + \<bar>im_lane w\<bar> < 65536"
  proof -
    have "\<bar>real_of_int (re_lane w)\<bar> + \<bar>real_of_int (im_lane w)\<bar> < 65536"
    proof (rule power2_less_imp_less)
      have "(\<bar>u\<bar> + \<bar>v\<bar>) ^ 2 \<le> 2 * (u ^ 2 + v ^ 2)" for u v :: real
      proof -
        have "0 \<le> (\<bar>u\<bar> - \<bar>v\<bar>) ^ 2" by simp
        then show ?thesis by (simp add: power2_sum power2_diff)
      qed
      then have "(\<bar>real_of_int (re_lane w)\<bar> + \<bar>real_of_int (im_lane w)\<bar>) ^ 2 \<le> 2 * cmod (cq w) ^ 2"
        by (simp add: cmod_power2 cq_def)
      also have "\<dots> \<le> 2 * 32770 ^ 2" using power_mono [OF w, of 2] by simp
      finally show "(\<bar>real_of_int (re_lane w)\<bar> + \<bar>real_of_int (im_lane w)\<bar>) ^ 2 < 65536 ^ 2" by simp
    qed simp
    then show ?thesis by linarith
  qed
  from cmul_q15_lanes [OF this, of x] have lanes: "cq (cmul_q15 x w) = Complex (P div 32768) (Q div 32768)"
    unfolding P_def [symmetric] Q_def [symmetric] using clamp PQ by (simp add: cq_def)
  have "cmod (cq (cmul_q15 x w) - cq x * cq w / 32768) \<le> (14143 / 10000) * 1"
    unfolding lanes prod by (rule cmod_box; use floor_div [of 32768 P] floor_div [of 32768 Q] in simp)
  then show ?thesis by simp
qed

lemma mean_error:
  fixes s a b za zb :: complex
  assumes "cmod (s - (a + b) / 2) \<le> r" "cmod (a - za) \<le> e" "cmod (b - zb) \<le> f"
  shows "cmod (s - (za + zb) / 2) \<le> r + (e + f) / 2"
proof -
  have "s - (za + zb) / 2 = (s - (a + b) / 2) + ((a - za) + (b - zb)) / 2" by (simp add: field_simps)
  then have "cmod (s - (za + zb) / 2) \<le> cmod (s - (a + b) / 2) + cmod ((a - za) + (b - zb)) / 2"
    using norm_triangle_ineq [of "s - (a + b) / 2" "((a - za) + (b - zb)) / 2"] by (simp only: norm_divide) simp
  moreover have "cmod ((a - za) + (b - zb)) \<le> e + f"
    using norm_triangle_ineq [of "a - za" "b - zb"] assms by linarith
  moreover have "p \<le> x + y / 2 \<Longrightarrow> y \<le> q \<Longrightarrow> x \<le> r \<Longrightarrow> p \<le> r + q / 2" for p q x y :: real by linarith
  ultimately show ?thesis using assms(1) by blast
qed

text \<open>A butterfly on words within \<open>e\<close> of exact values, with a twiddle within 9/8 of its word.\<close>

lemma butterfly_rounds:
  assumes a: "cmod (cq a - za) \<le> e" and b: "cmod (cq b - zb) \<le> e" and e: "e \<le> 600"
    and zb: "cmod zb \<le> 32000" and w: "cmod (cq w - 32768 * u) \<le> 9 / 8" and u: "cmod u = 1"
  shows "cmod (cq (shadd16 a (cmul_q15 b w)) - (za + u * zb) / 2) \<le> e + 2"
    and "cmod (cq (shsub16 a (cmul_q15 b w)) - (za - u * zb) / 2) \<le> e + 2"
proof -
  let ?t = "cmul_q15 b w"
  have b': "cmod (cq b) \<le> 32600"
    using norm_triangle_ineq [of "cq b - zb" zb] b e zb by simp
  have "cmod (cq w) \<le> 32770"
    using norm_triangle_ineq [of "cq w - 32768 * u" "32768 * u"] w u by (simp add: norm_mult)
  from cmul_q15_rounds [OF _ this, of b] have r1: "cmod (cq ?t - cq b * cq w / 32768) \<le> (14143 / 10000)" using b' by simp
  have "cmod (cq b * ((cq w - 32768 * u) / 32768)) \<le> 32600 * (9 / 8 / 32768)"
    unfolding norm_mult norm_divide using b' w by (intro mult_mono) simp_all
  also have "cq b * ((cq w - 32768 * u) / 32768) = cq b * cq w / 32768 - u * cq b" by (simp add: field_simps)
  finally have r2: "cmod (cq b * cq w / 32768 - u * cq b) \<le> 28 / 25" by linarith
  have r3: "cmod (u * cq b - u * zb) \<le> e" using b u by (simp add: norm_mult right_diff_distrib [symmetric])
  have t: "cmod (cq ?t - u * zb) \<le> e + (25343 / 10000)"
  proof -
    have "cq ?t - u * zb = (cq ?t - cq b * cq w / 32768) + (cq b * cq w / 32768 - u * cq b) + (u * cq b - u * zb)" by simp
    then have "cmod (cq ?t - u * zb) \<le> cmod (cq ?t - cq b * cq w / 32768) + cmod (cq b * cq w / 32768 - u * cq b) + cmod (u * cq b - u * zb)"
      by (metis norm_triangle_ineq norm_triangle_mono order_refl)
    then show ?thesis using r1 r2 r3 by simp
  qed
  have below: "7072 / 10000 + (e + (e + 25343 / 10000)) / 2 \<le> e + 2" by (simp add: add_divide_distrib)
  show "cmod (cq (shadd16 a ?t) - (za + u * zb) / 2) \<le> e + 2"
    by (rule order_trans [OF mean_error [OF shadd16_rounds a t] below])
  have "cmod (cq (shsub16 a ?t) - (cq a + - cq ?t) / 2) \<le> (7072 / 10000)" using shsub16_rounds [of a ?t] by simp
  moreover have "cmod (- cq ?t - - (u * zb)) \<le> e + (25343 / 10000)"
    using t norm_minus_commute [of "u * zb" "cq ?t"] by simp
  ultimately have "cmod (cq (shsub16 a ?t) - (za + - (u * zb)) / 2) \<le> (7072 / 10000) + (e + (e + (25343 / 10000))) / 2"
    using a by (intro mean_error)
  from order_trans [OF this below] show "cmod (cq (shsub16 a ?t) - (za - u * zb) / 2) \<le> e + 2"
    unfolding diff_conv_add_uminus [of za] .
qed

section \<open>The stages\<close>

definition near_table :: "i32 list \<Rightarrow> bool" where
  "near_table T \<longleftrightarrow> length T = TW_MASTER \<and> (\<forall>i<TW_MASTER. cmod (cq (T ! i) - 32768 * wn TW_MASTER i) \<le> 9 / 8)"

definition near :: "real \<Rightarrow> nat \<Rightarrow> (nat \<Rightarrow> complex) \<Rightarrow> i32 list \<Rightarrow> bool" where
  "near e l z x \<longleftrightarrow> length x = l \<and> (\<forall>p<l. cmod (cq (x ! p) - z p) \<le> e)"

lemma dft_bound:
  assumes "\<And>t. cmod (x t) \<le> B"
  shows "cmod (dft n x k) \<le> real n * B"
proof -
  have "cmod (dft n x k) \<le> (\<Sum>t<n. cmod (x t * wn n (k * t)))" unfolding dft_def by (rule norm_sum)
  also have "\<dots> \<le> (\<Sum>t<n. B)" by (rule sum_mono) (simp add: norm_mult wn_def assms)
  finally show ?thesis by simp
qed

definition scaled_stage :: "nat \<Rightarrow> (nat \<Rightarrow> complex) \<Rightarrow> nat \<Rightarrow> nat \<Rightarrow> complex" where
  "scaled_stage m x s p = stage m x s p / 2 ^ s"

lemma scaled_stage_bound: "(\<And>t. cmod (x t) \<le> B) \<Longrightarrow> cmod (scaled_stage m x s p) \<le> B"
proof -
  assume B: "\<And>t. cmod (x t) \<le> B"
  have "cmod (stage m x s p) \<le> real (2 ^ s) * B"
    unfolding stage_def sub_dft_def by (rule dft_bound) (rule B)
  then show ?thesis by (simp add: scaled_stage_def norm_divide norm_power field_simps)
qed

lemma scaled_stage_step:
  assumes s: "s < m" and k: "k < 2 ^ s" and b: "2 * 2 ^ s dvd b"
  shows "scaled_stage m x (Suc s) (b + k) = (scaled_stage m x s (b + k) + wn (2 ^ Suc s) k * scaled_stage m x s (b + k + 2 ^ s)) / 2"
    and "scaled_stage m x (Suc s) (b + k + 2 ^ s) = (scaled_stage m x s (b + k) - wn (2 ^ Suc s) k * scaled_stage m x s (b + k + 2 ^ s)) / 2"
  unfolding scaled_stage_def radix2_stage [OF s, symmetric] radix2_lo [OF k b] radix2_hi [OF k b]
  by (simp_all add: field_simps)

lemma index_split:
  fixes p q :: nat
  assumes "0 < q"
  obtains b k where "k < q" "2 * q dvd b" "p = b + k \<or> p = b + k + q"
proof -
  have "p mod (2 * q) < 2 * q" using assms by simp
  from residue_pair [OF this, of "p mod (2 * q) mod q"] assms
  have r: "p mod (2 * q) = p mod (2 * q) mod q \<or> p mod (2 * q) = p mod (2 * q) mod q + q" by simp
  have "p = (p - p mod (2 * q)) + p mod (2 * q)" by simp
  then have "p = (p - p mod (2 * q)) + p mod (2 * q) mod q \<or> p = (p - p mod (2 * q)) + p mod (2 * q) mod q + q"
    using r by linarith
  moreover have "2 * q dvd p - p mod (2 * q)" by (rule dvd_minus_mod)
  ultimately show thesis using that assms by (metis mod_less_divisor)
qed

lemma stage_word_near:
  assumes T: "near_table T" and x: "near e (2 ^ m) (scaled_stage m X s) x" and e: "e \<le> 600"
    and X: "\<And>t. cmod (X t) \<le> 32000" and s: "s < m" "m \<le> 11" and p: "p < 2 ^ m"
  shows "cmod (cq (stage_word T (2 ^ s) (TW_MASTER div 2 ^ Suc s) x p) - scaled_stage m X (Suc s) p) \<le> e + 2"
proof -
  let ?q = "(2::nat) ^ s" and ?stride = "TW_MASTER div 2 ^ Suc s"
  obtain b k where k: "k < ?q" and b: "2 * ?q dvd b" and p': "p = b + k \<or> p = b + k + ?q"
    by (rule index_split [of ?q p]) auto
  have "b < 2 ^ m" using p' p by auto
  moreover have "2 * ?q dvd 2 ^ m" using s(1) le_imp_power_dvd [of "Suc s" m "2::nat"] by simp
  ultimately have bl: "b + 2 * ?q \<le> 2 ^ m"
  proof -
    assume "b < 2 ^ m" "2 * ?q dvd 2 ^ m"
    then have "0 < 2 ^ m - b" "2 * ?q dvd 2 ^ m - b" using b by (auto intro: dvd_diff_nat)
    then have "2 * ?q \<le> 2 ^ m - b" by (rule dvd_imp_le [rotated])
    then show ?thesis using \<open>b < 2 ^ m\<close> by linarith
  qed
  have lt: "b + k < 2 ^ m" "b + k + ?q < 2 ^ m" using bl k by simp_all
  have a: "cmod (cq (x ! (b + k)) - scaled_stage m X s (b + k)) \<le> e"
    and c: "cmod (cq (x ! (b + k + ?q)) - scaled_stage m X s (b + k + ?q)) \<le> e"
    using x lt by (simp_all add: near_def)
  have "wn TW_MASTER ((k * ?stride) mod TW_MASTER) = wn (2 ^ Suc s) k"
  proof -
    have "TW_MASTER = 2 ^ 11" by (simp add: TW_MASTER_def)
    moreover have "(2::nat) ^ 11 = 2 ^ (11 - Suc s) * 2 ^ Suc s" using s by (simp only: power_add [symmetric]) simp
    ultimately have M: "TW_MASTER = 2 ^ (11 - Suc s) * 2 ^ Suc s" by simp
    have "?stride = 2 ^ (11 - Suc s)" unfolding M by (rule nonzero_mult_div_cancel_right) simp
    then have "wn TW_MASTER (k * ?stride) = wn (2 ^ Suc s) k"
      using wn_scale [of "2 ^ (11 - Suc s)" "2 ^ Suc s" k] M by (simp add: mult.commute)
    then show ?thesis by (simp add: wn_mod TW_MASTER_def)
  qed
  moreover have "(k * ?stride) mod TW_MASTER < TW_MASTER" by (simp add: TW_MASTER_def)
  ultimately have w: "cmod (cq (T ! ((k * ?stride) mod TW_MASTER)) - 32768 * wn (2 ^ Suc s) k) \<le> 9 / 8"
    using T by (metis near_table_def)
  have u: "cmod (wn (2 ^ Suc s) k) = 1" by (simp add: wn_def)
  from p' show ?thesis
  proof
    assume "p = b + k"
    then show ?thesis
      unfolding stage_word_lo [OF k b] scaled_stage_step(1) [OF s(1) k b]
      using butterfly_rounds(1) [OF a c e scaled_stage_bound [OF X] w u]
      by (simp only: stage_word_lo [OF k b] scaled_stage_step(1) [OF s(1) k b])
  next
    assume "p = b + k + ?q"
    then show ?thesis
      using butterfly_rounds(2) [OF a c e scaled_stage_bound [OF X] w u]
      by (simp only: stage_word_hi [OF k b] scaled_stage_step(2) [OF s(1) k b])
  qed
qed

lemma stages_q15_near:
  assumes T: "near_table T" and X: "\<And>t. cmod (X t) \<le> 32000" and m: "m \<le> 11"
  shows "near (2 * real s) (2 ^ m) (scaled_stage m X s) x \<Longrightarrow> s \<le> m \<Longrightarrow>
    \<exists>y. stages_q15 T (2 ^ m) (2 ^ Suc s) x = Some y \<and> near (2 * real m) (2 ^ m) (scaled_stage m X m) y"
proof (induction "m - s" arbitrary: s x)
  case 0
  then have "\<not> (2::nat) ^ Suc s \<le> 2 ^ m" by simp
  then show ?case using 0 by (subst stages_q15.simps) simp
next
  case (Suc d)
  then have s: "s < m" by simp
  have "2 ^ Suc s dvd (2::nat) ^ m" using s by (intro le_imp_power_dvd) simp
  then have dv: "2 * 2 ^ s dvd (2::nat) ^ m" by simp
  have len: "length x = 2 ^ m" using Suc.prems(1) by (simp add: near_def)
  obtain y where y: "step_loop (\<lambda>base. for_in (butterfly_q15 T (2 ^ s) (TW_MASTER div 2 ^ Suc s) base) [0..<2 ^ s]) (2 ^ m) (2 * 2 ^ s) 0 x = Some y"
    "length y = 2 ^ m" "\<forall>p<2 ^ m. y ! p = stage_word T (2 ^ s) (TW_MASTER div 2 ^ Suc s) x p"
    by (rule stage_q15_words [of T x "2 ^ m" "2 ^ s"]) (use T len dv in \<open>auto simp: near_table_def\<close>)
  have "2 * real s \<le> 600" using s m by simp
  then have "near (2 * real (Suc s)) (2 ^ m) (scaled_stage m X (Suc s)) y"
    unfolding near_def using y(2,3) stage_word_near [OF T Suc.prems(1) _ X s m] by (simp add: add.commute)
  then have "\<exists>z. stages_q15 T (2 ^ m) (2 ^ Suc (Suc s)) y = Some z \<and> near (2 * real m) (2 ^ m) (scaled_stage m X m) z"
    by (rule Suc.hyps(1) [rotated]) (use Suc.hyps(2) s in auto)
  moreover have "2 ^ Suc s \<le> (2::nat) ^ m" using s by (intro power_increasing) auto
  ultimately show ?case using y(1) by (subst stages_q15.simps) (simp add: Let_def mult.commute)
qed

lemma cfft_q15_near:
  assumes T: "near_table T" and m: "m \<le> 11" and len: "length x = 2 ^ m"
    and x: "\<And>t. t < 2 ^ m \<Longrightarrow> cmod (cq (x ! t)) \<le> 32000"
  obtains y where "cfft_q15 T x = Some y" "length y = 2 ^ m"
    "\<And>k. k < 2 ^ m \<Longrightarrow> cmod (cq (y ! k) - dft (2 ^ m) (\<lambda>t. cq (x ! t)) k / 2 ^ m) \<le> 2 * real m"
proof -
  define X where "X = (\<lambda>t. if t < 2 ^ m then cq (x ! t) else 0)"
  have X: "cmod (X t) \<le> 32000" for t using x by (simp add: X_def)
  have dX: "dft (2 ^ m) X k = dft (2 ^ m) (\<lambda>t. cq (x ! t)) k" for k by (rule dft_cong) (simp add: X_def)
  let ?x0 = "map (\<lambda>p. x ! rev_bits m p) [0..<2 ^ m]"
  have x0: "near (2 * real 0) (2 ^ m) (scaled_stage m X 0) ?x0"
    by (simp add: near_def scaled_stage_def stage_0 X_def rev_bits_less)
  obtain y where y: "stages_q15 T (2 ^ m) 2 ?x0 = Some y" "near (2 * real m) (2 ^ m) (scaled_stage m X m) y"
    using stages_q15_near [OF T X m x0] by auto
  have p2: "is_power_of_two (length x)" "length x \<le> TW_MASTER"
    using m unfolding is_power_of_two_iff TW_MASTER_def len master_exponent by (blast, simp)
  have "cfft_q15 T x = Some y"
  proof (cases "m = 0")
    case True
    then have "?x0 = x" using len by (cases x) simp_all
    moreover have "stages_q15 T 1 2 ?x0 = Some ?x0" by (subst stages_q15.simps) simp
    ultimately show ?thesis using y(1) True p2 len by (simp add: cfft_q15_def Let_def)
  next
    case False
    then have "1 < (2::nat) ^ m" by (intro one_less_power) simp_all
    then have "\<not> 2 ^ m \<le> Suc 0" by linarith
    then show ?thesis using y(1) p2 bit_reverse_q15_ok [OF len] len by (simp add: cfft_q15_def Let_def)
  qed
  moreover have "cmod (cq (y ! k) - dft (2 ^ m) (\<lambda>t. cq (x ! t)) k / 2 ^ m) \<le> 2 * real m" if "k < 2 ^ m" for k
    using y(2) that by (simp add: near_def scaled_stage_def stage_all dX)
  ultimately show thesis using that y(2) by (simp add: near_def)
qed

section \<open>The table of the build script\<close>

lemma q15_near:
  assumes "\<bar>v\<bar> \<le> 1"
  shows "\<bar>real_of_int (sint (q15 v)) - v * 32768\<bar> \<le> (if v * 32768 \<le> 32767 then 1 / 2 else 1)"
proof -
  let ?r = "round_away (v * 32768)"
  have r: "\<bar>?r - v * 32768\<bar> \<le> 1 / 2"
    unfolding round_away_def by (cases "0 \<le> v * 32768") (simp_all only: if_True if_False, linarith+)
  have "sint (q15 v) = max (- 32768) (min 32767 ?r)"
    unfolding q15_def by (rule sint_small16) auto
  moreover have "- 32768 \<le> ?r" using r assms by linarith
  ultimately have s: "sint (q15 v) = min 32767 ?r" by simp
  show ?thesis
  proof (cases "?r \<le> 32767")
    case True
    then have "sint (q15 v) = ?r" using s by simp
    moreover have "w \<le> 1 / 2 \<Longrightarrow> w \<le> (if c then 1 / 2 else 1)" for w :: real and c by simp
    ultimately show ?thesis using r by (simp only:)
  next
    case False
    then have "32767 < v * 32768" "v * 32768 \<le> 32768" using r assms by linarith+
    then show ?thesis using False s by simp
  qed
qed

lemma q15_table_near: "near_table q15_table"
proof -
  have "cmod (cq (q15_table ! i) - 32768 * wn TW_MASTER i) \<le> 9 / 8" if i: "i < TW_MASTER" for i
  proof -
    define a where "a = - 2 * pi * real i / real TW_MASTER"
    have entry: "q15_table ! i = pack (q15 (cos a)) (q15 (sin a))"
      using i by (simp add: q15_table_def pack_def a_def Let_def)
    have "wn TW_MASTER i = cis a" by (simp add: wn_def a_def)
    then have z: "cq (q15_table ! i) - 32768 * wn TW_MASTER i =
        Complex (sint (q15 (cos a)) - cos a * 32768) (sint (q15 (sin a)) - sin a * 32768)"
      by (simp add: entry cq_def complex_eq_iff)
    let ?c = "\<bar>real_of_int (sint (q15 (cos a))) - cos a * 32768\<bar>" and ?s = "\<bar>real_of_int (sint (q15 (sin a))) - sin a * 32768\<bar>"
    note c = q15_near [OF abs_cos_le_one, of a] and s = q15_near [OF abs_sin_le_one, of a]
    have "\<not> (32767 < cos a * 32768 \<and> 32767 < sin a * 32768)"
    proof
      assume h: "32767 < cos a * 32768 \<and> 32767 < sin a * 32768"
      then have "1 / 2 < (cos a)\<^sup>2" "1 / 2 < (sin a)\<^sup>2"
        using power_strict_mono [of "32767 / 32768" "cos a" 2] power_strict_mono [of "32767 / 32768" "sin a" 2]
        by (simp_all add: power2_eq_square)
      then show False using sin_cos_squared_add [of a] by linarith
    qed
    then have "?c \<le> 1 / 2 \<and> ?s \<le> 1 \<or> ?c \<le> 1 \<and> ?s \<le> 1 / 2" using c s by (auto split: if_splits)
    then have "?c\<^sup>2 \<le> (1 / 2)\<^sup>2 \<and> ?s\<^sup>2 \<le> 1\<^sup>2 \<or> ?c\<^sup>2 \<le> 1\<^sup>2 \<and> ?s\<^sup>2 \<le> (1 / 2)\<^sup>2"
      by (metis abs_ge_zero power_mono)
    then have "(cmod (cq (q15_table ! i) - 32768 * wn TW_MASTER i))\<^sup>2 \<le> (9 / 8)\<^sup>2"
      unfolding z cmod_power2 by (auto simp: power2_eq_square)
    then show ?thesis by (rule power2_le_imp_le) simp
  qed
  then show ?thesis by (simp add: near_table_def q15_table_def)
qed

section \<open>The theorem\<close>

text \<open>C13: the fixed-point transform, on the build script's table, of any \<open>2 ^ m\<close> packed samples each of
  magnitude at most 32000, \<open>m \<le> 11\<close>, returns and leaves in every bin the discrete Fourier transform of the
  samples over the length, to within two units of the last place per stage. Samples of greater
  magnitude (up to 46341 with both halves at full scale), for which a product with a twiddle factor can
  saturate, are not covered.
\<close>

theorem cfft_q15_accurate:
  assumes "m \<le> 11" "length x = 2 ^ m" "\<forall>t<2 ^ m. cmod (cq (x ! t)) \<le> 32000" "k < 2 ^ m"
  shows "\<exists>y. cfft_q15 q15_table x = Some y \<and> length y = 2 ^ m \<and>
    cmod (cq (y ! k) - dft (2 ^ m) (\<lambda>t. cq (x ! t)) k / 2 ^ m) \<le> 2 * real m"
  by (rule cfft_q15_near [OF q15_table_near assms(1,2)]) (use assms(3,4) in auto)

theorem cfft_q15_accurate_witness:
  "\<exists>y. cfft_q15 q15_table [pack 1000 2000, pack 4000 (- 8000)] = Some y \<and> length y = 2 ^ 1 \<and>
    cmod (cq (y ! 1) - dft (2 ^ 1) (\<lambda>t. cq ([pack 1000 2000, pack 4000 (- 8000)] ! t)) 1 / 2 ^ 1) \<le> 2 * real 1"
proof (rule cfft_q15_accurate)
  show "\<forall>t<2 ^ 1. cmod (cq ([pack 1000 2000, pack 4000 (- 8000)] ! t)) \<le> 32000"
  proof (intro allI impI)
    fix t :: nat assume "t < 2 ^ 1"
    then have "t = 0 \<or> t = 1" by auto
    then show "cmod (cq ([pack 1000 2000, pack 4000 (- 8000)] ! t)) \<le> 32000"
      using cmod_le [of "cq (pack 1000 2000)"] cmod_le [of "cq (pack 4000 (- 8000))"] by (auto simp: cq_def)
  qed
qed simp_all

end
