(* ===== verification/March.thy ===== *)
theory March
  imports Prelude
begin

text \<open>
  The SDRAM test suite, \<open>crates/sdram-march/src/lib.rs\<close>: the test groups and phases as data,
  the generic runner \<open>run_phase\<close>, and its \<open>Harness\<close> trait as a record of state-passing
  operations (\<open>None\<close>: the operation panics or does not return). The locale
  \<open>store_harness\<close> is the contract of a harness over a memory with an address decoder and a
  per-cell read fault; under it a phase computes an abstract fold over the visited cells,
  from which what the suite reports follows exactly.
\<close>

type_synonym value_fn = "nat \<Rightarrow> u32"

definition v_zero :: value_fn where "v_zero i = 0"
definition v_ones :: value_fn where "v_ones i = NOT 0"
definition v_aaaa :: value_fn where "v_aaaa i = 0xAAAAAAAA"
definition v_5555 :: value_fn where "v_5555 i = 0x55555555"
definition v_own :: value_fn where "v_own i = of_nat i"

record phase =
  ph_label :: string
  ph_group :: nat
  ph_ascending :: bool
  ph_read :: "value_fn option"
  ph_write :: "value_fn option"

definition groups :: "string list" where
  "groups = [''Own-address'', ''Pattern 0x00000000'', ''Pattern 0xFFFFFFFF'',
     ''Pattern 0xAAAAAAAA'', ''Pattern 0x55555555'', ''March C-'']"

definition ngroups :: nat where
  "ngroups = length groups"

text \<open>The non-ASCII arrows of the March labels are written \<open>up\<close> and \<open>down\<close>.\<close>

definition mk_phase ::
  "string \<Rightarrow> nat \<Rightarrow> bool \<Rightarrow> value_fn option \<Rightarrow> value_fn option \<Rightarrow> phase" where
  "mk_phase l g a r w =
     \<lparr>ph_label = l, ph_group = g, ph_ascending = a, ph_read = r, ph_write = w\<rparr>"

definition suite :: "phase list" where
  "suite = [
     mk_phase ''write index'' 0 True None (Some v_own),
     mk_phase ''verify index'' 0 True (Some v_own) None,
     mk_phase ''write 0'' 1 True None (Some v_zero),
     mk_phase ''verify 0'' 1 True (Some v_zero) None,
     mk_phase ''write 1'' 2 True None (Some v_ones),
     mk_phase ''verify 1'' 2 True (Some v_ones) None,
     mk_phase ''write A'' 3 True None (Some v_aaaa),
     mk_phase ''verify A'' 3 True (Some v_aaaa) None,
     mk_phase ''write 5'' 4 True None (Some v_5555),
     mk_phase ''verify 5'' 4 True (Some v_5555) None,
     mk_phase ''M0 up w0'' 5 True None (Some v_zero),
     mk_phase ''M1 up r0,w1'' 5 True (Some v_zero) (Some v_ones),
     mk_phase ''M2 up r1,w0'' 5 True (Some v_ones) (Some v_zero),
     mk_phase ''M3 down r0,w1'' 5 False (Some v_zero) (Some v_ones),
     mk_phase ''M4 down r1,w0'' 5 False (Some v_ones) (Some v_zero),
     mk_phase ''M5 down r0'' 5 False (Some v_zero) None]"

definition fault_bits :: "u32 \<Rightarrow> u32 \<Rightarrow> u32" where
  "fault_bits expected got = expected XOR got"

subsection \<open>The harness and the runner\<close>

record 'h harness =
  h_read :: "nat \<Rightarrow> 'h \<Rightarrow> (u32 \<times> 'h) option"
  h_write :: "nat \<Rightarrow> u32 \<Rightarrow> 'h \<Rightarrow> 'h option"
  h_on_error :: "nat \<Rightarrow> u32 \<Rightarrow> u32 \<Rightarrow> 'h \<Rightarrow> 'h option"
  h_service :: "nat \<Rightarrow> 'h \<Rightarrow> (bool \<times> 'h) option"

text \<open>The body of the inner loop, at word index \<open>i\<close>.\<close>

definition visit_cell :: "phase \<Rightarrow> 'h harness \<Rightarrow> nat \<Rightarrow> 'h \<Rightarrow> 'h option" where
  "visit_cell ph H i h = do {
     h \<leftarrow> (case ph_read ph of
             None \<Rightarrow> Some h
           | Some expect \<Rightarrow> do {
               (got, h) \<leftarrow> h_read H i h;
               if got \<noteq> expect i then h_on_error H i (expect i) got h else Some h
             });
     (case ph_write ph of
        None \<Rightarrow> Some h
      | Some val \<Rightarrow> h_write H i (val i) h)
   }"

fun visit_cells :: "phase \<Rightarrow> 'h harness \<Rightarrow> nat list \<Rightarrow> 'h \<Rightarrow> 'h option" where
  "visit_cells ph H [] h = Some h"
| "visit_cells ph H (i # is) h = visit_cell ph H i h \<bind> visit_cells ph H is"

definition cell_index :: "phase \<Rightarrow> nat \<Rightarrow> nat \<Rightarrow> nat" where
  "cell_index ph words j = (if ph_ascending ph then j else words - 1 - j)"

text \<open>The outer loop: a chunk, then \<open>service\<close>, until done or aborted. \<open>chunk\<close> is at least 1.\<close>

function phase_loop :: "phase \<Rightarrow> nat \<Rightarrow> nat \<Rightarrow> 'h harness \<Rightarrow> nat \<Rightarrow> 'h \<Rightarrow> 'h option" where
  "phase_loop ph words chunk H ndone h =
     (if ndone < words \<and> 0 < chunk then do {
        let n = min (words - ndone) chunk;
        h \<leftarrow> visit_cells ph H (map (\<lambda>k. cell_index ph words (ndone + k)) [0..<n]) h;
        (go, h) \<leftarrow> h_service H (ndone + n) h;
        if go then phase_loop ph words chunk H (ndone + n) h else Some h
      }
      else Some h)"
  by pat_completeness auto
termination
  by (relation "measure (\<lambda>(ph, words, chunk, H, ndone, h). words - ndone)") auto

declare phase_loop.simps [simp del]

definition run_phase :: "phase \<Rightarrow> nat \<Rightarrow> nat \<Rightarrow> 'h harness \<Rightarrow> 'h \<Rightarrow> 'h option" where
  "run_phase ph words chunk H h = phase_loop ph words (max chunk 1) H 0 h"

text \<open>The suite, phase after phase, as the test's \<open>run_suite\<close> and the application do.\<close>

fun run_phases :: "phase list \<Rightarrow> nat \<Rightarrow> nat \<Rightarrow> 'h harness \<Rightarrow> 'h \<Rightarrow> 'h option" where
  "run_phases [] words chunk H h = Some h"
| "run_phases (ph # phs) words chunk H h =
     run_phase ph words chunk H h \<bind> run_phases phs words chunk H"

subsection \<open>The simulated memory of the crate's tests\<close>

record sim =
  sim_mem :: "u32 list"
  sim_fault :: "(nat \<times> u32) option"
  sim_errs :: "(nat \<times> u32 \<times> u32) list"
  sim_abort_after :: "u32 option"
  sim_services :: u32

definition sim_read :: "nat \<Rightarrow> sim \<Rightarrow> (u32 \<times> sim) option" where
  "sim_read i s = do {
     raw \<leftarrow> idx_get (sim_mem s) i;
     Some (case sim_fault s of
             Some (a, msk) \<Rightarrow> if a = i then raw AND NOT msk else raw
           | None \<Rightarrow> raw, s)
   }"

definition sim_write :: "nat \<Rightarrow> u32 \<Rightarrow> sim \<Rightarrow> sim option" where
  "sim_write i v s = do { m \<leftarrow> idx_set (sim_mem s) i v; Some (s\<lparr>sim_mem := m\<rparr>) }"

definition sim_on_error :: "nat \<Rightarrow> u32 \<Rightarrow> u32 \<Rightarrow> sim \<Rightarrow> sim option" where
  "sim_on_error i expected got s = Some (s\<lparr>sim_errs := sim_errs s @ [(i, expected, got)]\<rparr>)"

definition sim_service :: "nat \<Rightarrow> sim \<Rightarrow> (bool \<times> sim) option" where
  "sim_service d s =
     (let s = s\<lparr>sim_services := sim_services s + 1\<rparr>
      in Some (case sim_abort_after s of Some n \<Rightarrow> sim_services s < n | None \<Rightarrow> True, s))"

definition sim_harness :: "sim harness" where
  "sim_harness = \<lparr>h_read = sim_read, h_write = sim_write, h_on_error = sim_on_error,
     h_service = sim_service\<rparr>"

definition run_suite :: "nat \<Rightarrow> (nat \<times> u32) option \<Rightarrow> (nat \<times> u32 \<times> u32) list option" where
  "run_suite words fault = do {
     s \<leftarrow> run_phases suite words 4096 sim_harness
       \<lparr>sim_mem = replicate words 0, sim_fault = fault, sim_errs = [], sim_abort_after = None,
        sim_services = 0\<rparr>;
     Some (sim_errs s)
   }"

subsection \<open>The abstract effect of a phase\<close>

text \<open>
  A memory fault model: the address decoder \<open>dec\<close> says which cell an index reaches, and
  \<open>rdf\<close> what reading an index makes of the stored word. The abstract state is the cells and the
  errors reported so far.
\<close>

type_synonym astate = "(nat \<Rightarrow> u32) \<times> (nat \<times> u32 \<times> u32) list"

definition acell :: "(nat \<Rightarrow> u32 \<Rightarrow> u32) \<Rightarrow> (nat \<Rightarrow> nat) \<Rightarrow> phase \<Rightarrow> nat \<Rightarrow> astate \<Rightarrow> astate" where
  "acell rdf dec ph i a =
     ((case ph_write ph of None \<Rightarrow> fst a | Some val \<Rightarrow> (fst a)(dec i := val i)),
      snd a @ (case ph_read ph of
                 None \<Rightarrow> []
               | Some expect \<Rightarrow>
                   if rdf i (fst a (dec i)) \<noteq> expect i
                   then [(i, expect i, rdf i (fst a (dec i)))] else []))"

definition visit_order :: "phase \<Rightarrow> nat \<Rightarrow> nat list" where
  "visit_order ph words = map (cell_index ph words) [0..<words]"

definition aphase where
  "aphase rdf dec words ph a = fold (acell rdf dec ph) (visit_order ph words) a"

definition asuite where
  "asuite rdf dec words phs a = fold (aphase rdf dec words) phs a"

lemma visit_order_set [simp]: "set (visit_order ph words) = {..<words}"
proof (cases "ph_ascending ph")
  case False
  have "(\<lambda>j. words - 1 - j) ` {..<words} = {..<words}"
  proof (intro equalityI subsetI)
    fix i assume "i \<in> {..<words}"
    then have "i = words - 1 - (words - 1 - i)" "words - 1 - i < words" by auto
    then show "i \<in> (\<lambda>j. words - 1 - j) ` {..<words}" by blast
  qed auto
  with False show ?thesis by (auto simp: visit_order_def cell_index_def atLeast0LessThan)
qed (auto simp: visit_order_def cell_index_def)

lemma visit_order_distinct [simp]: "distinct (visit_order ph words)"
  by (auto simp: visit_order_def cell_index_def distinct_map inj_on_def)

lemma visit_order_ascending: "ph_ascending ph \<Longrightarrow> visit_order ph words = [0..<words]"
  by (simp add: visit_order_def cell_index_def map_idI)

lemma visit_order_descending: "\<not> ph_ascending ph \<Longrightarrow> visit_order ph words = rev [0..<words]"
  by (rule nth_equalityI) (auto simp: visit_order_def cell_index_def rev_nth)

subsection \<open>The contract of a harness over such a memory\<close>

locale store_harness =
  fixes H :: "'h harness"
    and ok :: "'h \<Rightarrow> bool"
    and cells :: "'h \<Rightarrow> nat \<Rightarrow> u32"
    and errs :: "'h \<Rightarrow> (nat \<times> u32 \<times> u32) list"
    and rdf :: "nat \<Rightarrow> u32 \<Rightarrow> u32"
    and dec :: "nat \<Rightarrow> nat"
    and words :: nat
  assumes read: "ok h \<Longrightarrow> i < words \<Longrightarrow>
      \<exists>h'. h_read H i h = Some (rdf i (cells h (dec i)), h') \<and> ok h' \<and> cells h' = cells h \<and>
           errs h' = errs h"
    and store: "ok h \<Longrightarrow> i < words \<Longrightarrow>
      \<exists>h'. h_write H i v h = Some h' \<and> ok h' \<and> cells h' = (cells h)(dec i := v) \<and>
           errs h' = errs h"
    and report: "ok h \<Longrightarrow> i < words \<Longrightarrow>
      \<exists>h'. h_on_error H i e g h = Some h' \<and> ok h' \<and> cells h' = cells h \<and>
           errs h' = errs h @ [(i, e, g)]"
    and serve: "ok h \<Longrightarrow>
      \<exists>go h'. h_service H d h = Some (go, h') \<and> ok h' \<and> cells h' = cells h \<and> errs h' = errs h"
begin

abbreviation abs :: "'h \<Rightarrow> astate" where
  "abs h \<equiv> (cells h, errs h)"

lemma visit_cell_refines:
  assumes "ok h" "i < words"
  shows "\<exists>h'. visit_cell ph H i h = Some h' \<and> ok h' \<and> abs h' = acell rdf dec ph i (abs h)"
proof -
  have rd: "\<exists>h1. (case ph_read ph of
             None \<Rightarrow> Some h
           | Some expect \<Rightarrow> do {
               (got, h) \<leftarrow> h_read H i h;
               if got \<noteq> expect i then h_on_error H i (expect i) got h else Some h
             }) = Some h1 \<and> ok h1 \<and> cells h1 = cells h \<and>
       errs h1 = snd (acell rdf dec ph i (abs h))"
  proof (cases "ph_read ph")
    case None
    then show ?thesis using assms by (simp add: acell_def)
  next
    case (Some expect)
    obtain h0 where h0: "h_read H i h = Some (rdf i (cells h (dec i)), h0)" "ok h0"
      "cells h0 = cells h" "errs h0 = errs h"
      using read [OF assms] by blast
    show ?thesis
      using report [OF h0(2) assms(2), of "expect i" "rdf i (cells h (dec i))"] h0 Some
      by (auto simp: acell_def)
  qed
  then obtain h1 where h1: "ok h1" "cells h1 = cells h"
      "errs h1 = snd (acell rdf dec ph i (abs h))"
      "visit_cell ph H i h = (case ph_write ph of None \<Rightarrow> Some h1 | Some val \<Rightarrow> h_write H i (val i) h1)"
    unfolding visit_cell_def by fastforce
  show ?thesis
  proof (cases "ph_write ph")
    case None
    then show ?thesis using h1 by (simp add: acell_def)
  next
    case (Some val)
    then show ?thesis using h1 store [OF h1(1) assms(2), of "val i"] by (auto simp: acell_def)
  qed
qed

lemma visit_cells_refine:
  "ok h \<Longrightarrow> \<forall>i\<in>set is. i < words \<Longrightarrow>
   \<exists>h'. visit_cells ph H is h = Some h' \<and> ok h' \<and> abs h' = fold (acell rdf dec ph) is (abs h)"
proof (induction "is" arbitrary: h)
  case Nil
  then show ?case by simp
next
  case (Cons i "is")
  obtain h1 where "visit_cell ph H i h = Some h1" "ok h1" "abs h1 = acell rdf dec ph i (abs h)"
    using visit_cell_refines [of h i ph] Cons.prems by auto
  with Cons.IH [of h1] Cons.prems(2) show ?case by auto
qed

text \<open>
  A phase visits a prefix of its order: all of it unless \<open>service\<close> asks to stop.
\<close>

lemma phase_loop_refines:
  "ok h \<Longrightarrow> 0 < chunk \<Longrightarrow> ndone \<le> words \<Longrightarrow>
   \<exists>h' n. phase_loop ph words chunk H ndone h = Some h' \<and> ok h' \<and> ndone \<le> n \<and> n \<le> words \<and>
     abs h' = fold (acell rdf dec ph) (map (cell_index ph words) [ndone..<n]) (abs h) \<and>
     ((\<forall>d h. ok h \<longrightarrow> map_option fst (h_service H d h) = Some True) \<longrightarrow> n = words)"
proof (induction "words - ndone" arbitrary: ndone h rule: less_induct)
  case less
  show ?case
  proof (cases "ndone < words")
    case False
    then show ?thesis using less.prems
      by (auto simp: phase_loop.simps intro!: exI [of _ words])
  next
    case True
    define n where "n = min (words - ndone) chunk"
    let ?is = "map (\<lambda>k. cell_index ph words (ndone + k)) [0..<n]"
    have n: "0 < n" "ndone + n \<le> words" using True less.prems(2) by (auto simp: n_def)
    have is_eq: "?is = map (cell_index ph words) [ndone..<ndone + n]"
      by (rule nth_equalityI) auto
    have "\<forall>i\<in>set ?is. i < words"
      using n by (auto simp: cell_index_def)
    from visit_cells_refine [OF less.prems(1) this, of ph] obtain h1 where
      h1: "visit_cells ph H ?is h = Some h1" "ok h1"
        "abs h1 = fold (acell rdf dec ph) ?is (abs h)" by blast
    obtain go h2 where h2: "h_service H (ndone + n) h1 = Some (go, h2)" "ok h2" "abs h2 = abs h1"
      using serve [OF h1(2), of "ndone + n"] by auto
    have eq: "phase_loop ph words chunk H ndone h =
        (if go then phase_loop ph words chunk H (ndone + n) h2 else Some h2)"
      using True less.prems(2) h1(1) h2(1) by (subst phase_loop.simps) (simp add: n_def Let_def)
    show ?thesis
    proof (cases go)
      case False
      then have neg: "\<not> (\<forall>d h. ok h \<longrightarrow> map_option fst (h_service H d h) = Some True)"
        using h1(2) h2(1) by (intro notI) (auto dest!: spec [of _ "ndone + n"] spec [of _ h1])
      have "abs h2 = fold (acell rdf dec ph) (map (cell_index ph words) [ndone..<ndone + n]) (abs h)"
        using h2(3) h1(3) by (simp add: is_eq)
      moreover have "phase_loop ph words chunk H ndone h = Some h2" using eq False by simp
      ultimately show ?thesis
        using h2(2) n neg by (intro exI [of _ h2] exI [of _ "ndone + n"] conjI) (simp_all, blast)
    next
      case True
      have "words - (ndone + n) < words - ndone" using n by simp
      from less.hyps [OF this h2(2) less.prems(2) n(2)] obtain h' k where
        h': "phase_loop ph words chunk H (ndone + n) h2 = Some h'" "ok h'" "ndone + n \<le> k" "k \<le> words"
          "abs h' = fold (acell rdf dec ph) (map (cell_index ph words) [ndone + n..<k]) (abs h2)"
          "(\<forall>d h. ok h \<longrightarrow> map_option fst (h_service H d h) = Some True) \<longrightarrow> k = words" by blast
      have "[ndone..<k] = [ndone..<ndone + n] @ [ndone + n..<k]"
        using h'(3) upt_add_eq_append [of ndone "ndone + n" "k - (ndone + n)"] by simp
      then show ?thesis
        using eq True h' h1(3) h2(3) by (auto simp: is_eq intro!: exI [of _ k])
    qed
  qed
qed

lemma run_phase_prefix:
  assumes "ok h"
  shows "\<exists>h' n. run_phase ph words chunk H h = Some h' \<and> ok h' \<and> n \<le> words \<and>
     abs h' = fold (acell rdf dec ph) (take n (visit_order ph words)) (abs h)"
proof -
  have "map (cell_index ph words) [0..<n] = take n (visit_order ph words)" if "n \<le> words" for n
    using that by (simp add: visit_order_def take_map)
  then show ?thesis
    using phase_loop_refines [OF assms, of "max chunk 1" 0 ph] by (fastforce simp: run_phase_def)
qed

end

text \<open>A harness that never asks to stop, as the default \<open>service\<close>.\<close>

locale live_harness = store_harness +
  assumes never_stops: "ok h \<Longrightarrow> map_option fst (h_service H d h) = Some True"
begin

lemma run_phase_refines:
  "ok h \<Longrightarrow>
   \<exists>h'. run_phase ph words chunk H h = Some h' \<and> ok h' \<and> abs h' = aphase rdf dec words ph (abs h)"
  using phase_loop_refines [of h "max chunk 1" 0 ph] never_stops
  by (auto simp: run_phase_def aphase_def visit_order_def)

lemma run_phases_refine:
  "ok h \<Longrightarrow>
   \<exists>h'. run_phases phs words chunk H h = Some h' \<and> ok h' \<and> abs h' = asuite rdf dec words phs (abs h)"
proof (induction phs arbitrary: h)
  case Nil
  then show ?case by (simp add: asuite_def)
next
  case (Cons ph phs)
  obtain h1 where "run_phase ph words chunk H h = Some h1" "ok h1"
    "abs h1 = aphase rdf dec words ph (abs h)"
    using run_phase_refines [OF Cons.prems, of ph chunk] by blast
  with Cons.IH [of h1] show ?case by (auto simp: asuite_def)
qed

end

subsection \<open>What a phase does to undistorted addresses\<close>

text \<open>With the identity decoder every cell is visited once, so a phase is a map over the cells.\<close>

definition phase_errors :: "(nat \<Rightarrow> u32 \<Rightarrow> u32) \<Rightarrow> phase \<Rightarrow> (nat \<Rightarrow> u32) \<Rightarrow> nat list \<Rightarrow> (nat \<times> u32 \<times> u32) list" where
  "phase_errors rdf ph m is =
     (case ph_read ph of None \<Rightarrow> []
      | Some expect \<Rightarrow>
          [(i, expect i, rdf i (m i)). i \<leftarrow> is, rdf i (m i) \<noteq> expect i])"

lemma phase_errors_Nil [simp]: "phase_errors rdf ph m [] = []"
  by (simp add: phase_errors_def split: option.splits)

lemma phase_errors_Cons:
  "phase_errors rdf ph m (i # is) = phase_errors rdf ph m [i] @ phase_errors rdf ph m is"
  by (simp add: phase_errors_def split: option.splits)

lemma phase_errors_cong:
  "(\<And>i. i \<in> set is \<Longrightarrow> m i = m' i) \<Longrightarrow> phase_errors rdf ph m is = phase_errors rdf ph m' is"
  by (induction "is") (auto simp: phase_errors_Cons [of rdf ph m] phase_errors_Cons [of rdf ph m']
      phase_errors_def split: option.splits)

lemma acell_id:
  "acell rdf (\<lambda>i. i) ph i (m, es) =
     ((case ph_write ph of None \<Rightarrow> m | Some val \<Rightarrow> m(i := val i)), es @ phase_errors rdf ph m [i])"
  by (simp add: acell_def phase_errors_def split: option.splits)

lemma fold_acell_id:
  "distinct is \<Longrightarrow>
   fold (acell rdf (\<lambda>i. i) ph) is (m, es) =
     ((case ph_write ph of None \<Rightarrow> m | Some val \<Rightarrow> (\<lambda>i. if i \<in> set is then val i else m i)),
      es @ phase_errors rdf ph m is)"
proof (induction "is" arbitrary: m es)
  case Nil
  then show ?case by (simp split: option.splits)
next
  case (Cons i "is")
  have cong: "phase_errors rdf ph (m(i := v)) is = phase_errors rdf ph m is" for v
    using Cons.prems by (intro phase_errors_cong) auto
  show ?case
    using Cons.IH Cons.prems
    by (cases "ph_write ph")
       (auto simp: acell_id cong phase_errors_Cons [of rdf ph m i "is"] fun_eq_iff)
qed

lemma aphase_id:
  "aphase rdf (\<lambda>i. i) words ph (m, es) =
     ((case ph_write ph of None \<Rightarrow> m | Some val \<Rightarrow> (\<lambda>i. if i < words then val i else m i)),
      es @ phase_errors rdf ph m (visit_order ph words))"
  by (auto simp: aphase_def fold_acell_id split: option.splits)

text \<open>The verifying passes of the suite, each over cells that hold what it expects.\<close>

lemma asuite_cells_suite:
  "\<exists>m'. asuite rdf (\<lambda>i. i) words suite (m, es) =
     (m', es @ concat (map (\<lambda>(f, ph). phase_errors rdf ph f (visit_order ph words))
       [(v_own, suite ! 1), (v_zero, suite ! 3), (v_ones, suite ! 5), (v_aaaa, suite ! 7),
        (v_5555, suite ! 9), (v_zero, suite ! 11), (v_ones, suite ! 12), (v_zero, suite ! 13),
        (v_ones, suite ! 14), (v_zero, suite ! 15)]))"
proof -
  have cong: "phase_errors rdf ph (\<lambda>i. if i < words then f i else g i) (visit_order ph words) =
      phase_errors rdf ph f (visit_order ph words)" for ph f g
    by (rule phase_errors_cong) simp
  have nr: "ph_read ph = None \<Longrightarrow> phase_errors rdf ph f is = []" for ph f "is"
    by (simp add: phase_errors_def)
  show ?thesis
    by (simp add: asuite_def suite_def aphase_id cong nr mk_phase_def)
qed


definition suite_values :: "nat \<Rightarrow> u32 set" where
  "suite_values i = {v_own i, v_zero i, v_ones i, v_aaaa i, v_5555 i}"

lemma in_phase_errors:
  "(i, e, g) \<in> set (phase_errors rdf ph f is) \<longleftrightarrow>
     i \<in> set is \<and> (\<exists>expect. ph_read ph = Some expect \<and> e = expect i) \<and> g = rdf i (f i) \<and> g \<noteq> e"
  by (cases "ph_read ph") (auto simp: phase_errors_def)

lemma suite_errors:
  "asuite rdf (\<lambda>i. i) words suite (m, es) = (m', es') \<Longrightarrow>
   (i, e, g) \<in> set es' \<longleftrightarrow>
     (i, e, g) \<in> set es \<or> (i < words \<and> e \<in> suite_values i \<and> g = rdf i e \<and> g \<noteq> e)"
  using asuite_cells_suite [of rdf words m es]
  by (auto simp: in_phase_errors suite_def mk_phase_def suite_values_def)

subsection \<open>Address decoders\<close>

text \<open>A decoder without aliases only renames the cells.\<close>

lemma acell_inj:
  assumes "inj_on dec {..<words}" "i < words" "\<forall>j<words. fst a (dec j) = fst b j" "snd a = snd b"
  shows "\<forall>j<words. fst (acell rdf dec ph i a) (dec j) = fst (acell rdf (\<lambda>i. i) ph i b) j"
    "snd (acell rdf dec ph i a) = snd (acell rdf (\<lambda>i. i) ph i b)"
  using assms by (auto simp: acell_def inj_on_def split: option.splits)

lemma fold_acell_inj:
  "inj_on dec {..<words} \<Longrightarrow> \<forall>i\<in>set is. i < words \<Longrightarrow> \<forall>j<words. fst a (dec j) = fst b j \<Longrightarrow>
   snd a = snd b \<Longrightarrow>
   (\<forall>j<words. fst (fold (acell rdf dec ph) is a) (dec j) = fst (fold (acell rdf (\<lambda>i. i) ph) is b) j) \<and>
   snd (fold (acell rdf dec ph) is a) = snd (fold (acell rdf (\<lambda>i. i) ph) is b)"
proof (induction "is" arbitrary: a b)
  case Nil
  then show ?case by simp
next
  case (Cons i "is")
  then show ?case using acell_inj [of dec words i a b rdf ph] by simp
qed

lemma asuite_inj:
  "inj_on dec {..<words} \<Longrightarrow> \<forall>j<words. fst a (dec j) = fst b j \<Longrightarrow> snd a = snd b \<Longrightarrow>
   snd (asuite rdf dec words phs a) = snd (asuite rdf (\<lambda>i. i) words phs b)"
proof (induction phs arbitrary: a b)
  case Nil
  then show ?case by (simp add: asuite_def)
next
  case (Cons ph phs)
  have "\<forall>i\<in>set (visit_order ph words). i < words" by simp
  from fold_acell_inj [OF Cons.prems(1) this Cons.prems(2,3), of rdf ph] Cons.IH [OF Cons.prems(1)]
  show ?case by (simp add: asuite_def aphase_def)
qed

text \<open>Errors are only ever added.\<close>

lemma fold_acell_mono: "set (snd a) \<subseteq> set (snd (fold (acell rdf dec ph) is a))"
proof (induction "is" arbitrary: a)
  case (Cons i "is")
  have "set (snd a) \<subseteq> set (snd (acell rdf dec ph i a))" by (auto simp: acell_def)
  with Cons [of "acell rdf dec ph i a"] show ?case by auto
qed simp

lemma asuite_mono: "set (snd a) \<subseteq> set (snd (asuite rdf dec words phs a))"
proof (induction phs arbitrary: a)
  case (Cons ph phs)
  have "set (snd a) \<subseteq> set (snd (aphase rdf dec words ph a))"
    by (simp add: aphase_def fold_acell_mono)
  with Cons [of "aphase rdf dec words ph a"] show ?case by (auto simp: asuite_def)
qed (simp add: asuite_def)

text \<open>With aliases, the ascending own-address write leaves each cell with its last index.\<close>

lemma fold_write_own:
  "fold (acell rdf dec (suite ! 0)) [0..<n] (m, es) =
     ((\<lambda>c. if \<exists>j<n. dec j = c then v_own (GREATEST j. j < n \<and> dec j = c) else m c), es)"
proof (induction n)
  case 0
  then show ?case by simp
next
  case (Suc n)
  have "(GREATEST j. j < Suc n \<and> dec j = dec n) = n"
    by (rule Greatest_equality) auto
  moreover have "(GREATEST j. j < Suc n \<and> dec j = c) = (GREATEST j. j < n \<and> dec j = c)"
    if "dec n \<noteq> c" for c
    using that less_antisym by (metis less_SucI)
  ultimately show ?case
    using Suc by (auto simp: acell_def suite_def mk_phase_def fun_eq_iff less_Suc_eq)
qed

lemma fold_read_only:
  "ph_write ph = None \<Longrightarrow>
   fold (acell rdf dec ph) is (m, es) = (m, es @ phase_errors (\<lambda>i. rdf i) ph (\<lambda>i. m (dec i)) is)"
  by (induction "is" arbitrary: es)
     (auto simp: acell_def phase_errors_def split: option.splits)

lemma aliased_suite_errs:
  assumes "i < j" "j < words" "dec i = dec j" "words \<le> 2 ^ 32"
  shows "\<exists>e g. (i, e, g) \<in> set (snd (asuite (\<lambda>i v. v) dec words suite (m, es)))"
proof -
  define k where "k = (GREATEST k. k < words \<and> dec k = dec i)"
  have P: "j < words \<and> dec j = dec i" using assms by simp
  have k: "k < words \<and> dec k = dec i"
    unfolding k_def by (rule GreatestI_nat [of "\<lambda>k. k < words \<and> dec k = dec i" _ words, OF P]) simp
  have "j \<le> k"
    unfolding k_def by (rule Greatest_le_nat [of "\<lambda>k. k < words \<and> dec k = dec i" _ words, OF P]) simp
  have ne: "v_own k \<noteq> v_own i"
    using k \<open>j \<le> k\<close> assms by (auto simp: v_own_def word_of_nat_eq_iff take_bit_nat_eq_self)
  have s: "suite = suite ! 0 # suite ! 1 # drop 2 suite" by (simp add: suite_def)
  have asc: "visit_order (suite ! 0) words = [0..<words]" "visit_order (suite ! 1) words = [0..<words]"
    by (auto intro!: visit_order_ascending simp: suite_def mk_phase_def)
  have ro: "ph_write (suite ! 1) = None" by (simp add: suite_def mk_phase_def)
  let ?m = "\<lambda>c. if \<exists>j<words. dec j = c then v_own (GREATEST j. j < words \<and> dec j = c) else m c"
  have "asuite (\<lambda>i v. v) dec words [suite ! 0, suite ! 1] (m, es) =
      (?m, es @ phase_errors (\<lambda>i v. v) (suite ! 1) (\<lambda>i. ?m (dec i)) [0..<words])"
    by (simp add: asuite_def aphase_def asc [unfolded One_nat_def] fold_write_own fold_read_only
        ro [unfolded One_nat_def])
  moreover have "(i, v_own i, v_own k) \<in> set (phase_errors (\<lambda>i v. v) (suite ! 1) (\<lambda>i. ?m (dec i)) [0..<words])"
    using assms ne k by (auto simp: in_phase_errors k_def suite_def mk_phase_def)
  ultimately have "(i, v_own i, v_own k) \<in> set (snd (asuite (\<lambda>i v. v) dec words [suite ! 0, suite ! 1] (m, es)))"
    by simp
  moreover have "asuite (\<lambda>i v. v) dec words suite (m, es) =
      asuite (\<lambda>i v. v) dec words (drop 2 suite) (asuite (\<lambda>i v. v) dec words [suite ! 0, suite ! 1] (m, es))"
    by (subst s) (simp add: asuite_def)
  ultimately show ?thesis
    using asuite_mono [of "asuite (\<lambda>i v. v) dec words [suite ! 0, suite ! 1] (m, es)"
        "\<lambda>i v. v" dec words "drop 2 suite"] by auto
qed

subsection \<open>The simulated memory meets the contract\<close>

definition sim_cells :: "sim \<Rightarrow> nat \<Rightarrow> u32" where
  "sim_cells s i = (if i < length (sim_mem s) then sim_mem s ! i else 0)"

definition stuck_read :: "(nat \<times> u32) option \<Rightarrow> nat \<Rightarrow> u32 \<Rightarrow> u32" where
  "stuck_read fault i v =
     (case fault of None \<Rightarrow> v | Some (a, msk) \<Rightarrow> if a = i then v AND NOT msk else v)"

definition sim_ok :: "nat \<Rightarrow> (nat \<times> u32) option \<Rightarrow> sim \<Rightarrow> bool" where
  "sim_ok words fault s \<longleftrightarrow> length (sim_mem s) = words \<and> sim_fault s = fault"

interpretation sim: store_harness sim_harness "sim_ok words fault" sim_cells sim_errs
    "stuck_read fault" "\<lambda>i. i" words for words fault
  by unfold_locales
     (auto simp: sim_harness_def sim_read_def sim_write_def sim_on_error_def sim_service_def
       sim_ok_def sim_cells_def stuck_read_def fun_eq_iff Let_def split: option.splits)

interpretation live_sim: live_harness sim_harness
    "\<lambda>s. sim_ok words fault s \<and> sim_abort_after s = None" sim_cells sim_errs
    "stuck_read fault" "\<lambda>i. i" words for words fault
  by unfold_locales
     (auto simp: sim_harness_def sim_read_def sim_write_def sim_on_error_def sim_service_def
       sim_ok_def sim_cells_def stuck_read_def fun_eq_iff Let_def split: option.splits)

subsection \<open>Properties\<close>

text \<open>C6: On a memory whose reads may be faulty (cell \<open>i\<close> holding \<open>v\<close> reads as \<open>rdf i v\<close>) and whose
  decoder does not alias, the whole suite returns, and reports exactly the reads the fault
  changes: at index \<open>i\<close>, for each of the index itself, all zeros, all ones and the two
  checkerboards that does not read back. In particular a sound memory reports nothing, and
  every stuck bit is reported, at its own index only.\<close>

theorem march_suite_exact:
  assumes "live_harness H ok cells errs rdf dec words" "inj_on dec {..<words}"
    and "ok h" "errs h = []"
  shows "\<exists>h'. run_phases suite words chunk H h = Some h' \<and>
     set (errs h') = {(i, e, rdf i e) | i e. i < words \<and> e \<in> suite_values i \<and> rdf i e \<noteq> e}"
proof -
  obtain h' where h': "run_phases suite words chunk H h = Some h'"
    "(cells h', errs h') = asuite rdf dec words suite (cells h, errs h)"
    using live_harness.run_phases_refine [OF assms(1,3), of suite chunk] by blast
  have "errs h' = snd (asuite rdf dec words suite (cells h, []))"
    using h'(2) assms(4) by (metis snd_conv)
  also have "\<dots> = snd (asuite rdf (\<lambda>i. i) words suite (\<lambda>i. cells h (dec i), []))"
    using assms(2) by (intro asuite_inj) auto
  finally have "asuite rdf (\<lambda>i. i) words suite (\<lambda>i. cells h (dec i), []) =
      (fst (asuite rdf (\<lambda>i. i) words suite (\<lambda>i. cells h (dec i), [])), errs h')" by simp
  from suite_errors [OF this] h'(1) show ?thesis by auto
qed

theorem march_suite_exact_witness:
  "\<exists>h'. run_phases suite 4 2 sim_harness
       \<lparr>sim_mem = [9, 9, 9, 9], sim_fault = Some (2, 1), sim_errs = [], sim_abort_after = None,
        sim_services = 0\<rparr> = Some h' \<and>
     set (sim_errs h') = {(i, e, stuck_read (Some (2, 1)) i e) | i e.
       i < 4 \<and> e \<in> suite_values i \<and> stuck_read (Some (2, 1)) i e \<noteq> e}"
  by (rule march_suite_exact [OF live_sim.live_harness_axioms [of 4 "Some (2, 1)"]])
     (auto simp: sim_ok_def)

text \<open>The crate's own simulated test: with no fault the suite is silent; with the bits \<open>msk\<close> of
  one in-range cell stuck at 0 it reports, only that cell is reported, and the differing bits of
  each report are stuck bits.\<close>

theorem run_suite_detects:
  "\<exists>es. run_suite words fault = Some es \<and>
     (es = [] \<longleftrightarrow> (\<forall>a msk. fault = Some (a, msk) \<longrightarrow> words \<le> a \<or> msk = 0)) \<and>
     (\<forall>(i, e, g)\<in>set es. i < words \<and> (\<exists>msk. fault = Some (i, msk) \<and> fault_bits e g = e AND msk))"
proof -
  let ?s = "\<lparr>sim_mem = replicate words 0, sim_fault = fault, sim_errs = [], sim_abort_after = None,
        sim_services = 0\<rparr>"
  have "sim_ok words fault ?s \<and> sim_abort_after ?s = None" by (simp add: sim_ok_def)
  from live_sim.run_phases_refine [OF this, of suite 4096] obtain s' where
    s': "run_phases suite words 4096 sim_harness ?s = Some s'"
      "asuite (stuck_read fault) (\<lambda>i. i) words suite (sim_cells ?s, sim_errs ?s) = (sim_cells s', sim_errs s')"
    by metis
  note errs = suite_errors [OF s'(2)]
  have mem: "(i, e, g) \<in> set (sim_errs s') \<longleftrightarrow>
      i < words \<and> e \<in> suite_values i \<and> g = stuck_read fault i e \<and> g \<noteq> e" for i e g
    using errs [of i e g] by simp
  have bits: "fault_bits e (e AND NOT msk) = e AND msk" for e msk :: u32
    unfolding fault_bits_def by (rule bit_word_eqI) (auto simp: bit_simps)
  have hit: "\<exists>x\<in>set (sim_errs s'). True" if "fault = Some (a, msk)" "a < words" "msk \<noteq> 0" for a msk
  proof -
    have "v_ones a AND NOT msk \<noteq> v_ones a"
    proof
      assume "v_ones a AND NOT msk = v_ones a"
      then have "NOT msk = NOT 0" by (simp add: v_ones_def)
      then show False using that(3) by (simp only: bit.compl_eq_compl_iff)
    qed
    then have "(a, v_ones a, v_ones a AND NOT msk) \<in> set (sim_errs s')"
      using that by (simp add: mem suite_values_def stuck_read_def)
    then show ?thesis by blast
  qed
  have loc: "\<exists>msk. fault = Some (i, msk) \<and> fault_bits e g = e AND msk \<and> msk \<noteq> 0"
    if "(i, e, g) \<in> set (sim_errs s')" for i e g
    using that by (auto simp: mem stuck_read_def bits split: option.splits if_splits)
  have "sim_errs s' = [] \<longleftrightarrow> (\<forall>a msk. fault = Some (a, msk) \<longrightarrow> words \<le> a \<or> msk = 0)"
  proof
    assume "sim_errs s' = []"
    then show "\<forall>a msk. fault = Some (a, msk) \<longrightarrow> words \<le> a \<or> msk = 0"
      using hit by (auto simp: not_le [symmetric])
  next
    assume none: "\<forall>a msk. fault = Some (a, msk) \<longrightarrow> words \<le> a \<or> msk = 0"
    have "(i, e, g) \<notin> set (sim_errs s')" for i e g
      using loc [of i e g] mem [of i e g] none by force
    then show "sim_errs s' = []" by (cases "sim_errs s'") auto
  qed
  moreover have "run_suite words fault = Some (sim_errs s')" using s'(1) by (simp add: run_suite_def)
  moreover have "i < words \<and> (\<exists>msk. fault = Some (i, msk) \<and> fault_bits e g = e AND msk)"
    if "(i, e, g) \<in> set (sim_errs s')" for i e g
    using loc [OF that] mem [of i e g] that by auto
  ultimately show ?thesis by (intro exI [of _ "sim_errs s'"] conjI) auto
qed

theorem run_suite_detects_witness:
  "\<exists>es. run_suite 8 (Some (3, 4)) = Some es \<and> es \<noteq> []"
  using run_suite_detects [of 8 "Some (3, 4)"] by auto

text \<open>A sound memory behind an address decoder, the setting of a mis-wired address line.\<close>

definition decoded_harness :: "(nat \<Rightarrow> nat) \<Rightarrow> astate harness" where
  "decoded_harness dec =
     \<lparr>h_read = (\<lambda>i a. Some (fst a (dec i), a)),
      h_write = (\<lambda>i v a. Some ((fst a)(dec i := v), snd a)),
      h_on_error = (\<lambda>i e g a. Some (fst a, snd a @ [(i, e, g)])),
      h_service = (\<lambda>d a. Some (True, a))\<rparr>"

interpretation decoded: live_harness "decoded_harness dec" "\<lambda>_. True" fst snd "\<lambda>i v. v" dec words
  for dec words
  by unfold_locales (auto simp: decoded_harness_def)

text \<open>C25: Over sound cells of at most \<open>2^32\<close> words the suite is silent exactly when no two word
  addresses reach the same cell: every aliasing fault of the address decoder is reported.\<close>

theorem march_detects_aliasing:
  assumes "live_harness H ok cells errs (\<lambda>i v. v) dec words" "words \<le> 2 ^ 32"
    and "ok h" "errs h = []"
  shows "\<exists>h'. run_phases suite words chunk H h = Some h' \<and> (errs h' = [] \<longleftrightarrow> inj_on dec {..<words})"
proof -
  obtain h' where h': "run_phases suite words chunk H h = Some h'"
    "(cells h', errs h') = asuite (\<lambda>i v. v) dec words suite (cells h, errs h)"
    using live_harness.run_phases_refine [OF assms(1,3), of suite chunk] by blast
  have e: "errs h' = snd (asuite (\<lambda>i v. v) dec words suite (cells h, []))"
    using h'(2) assms(4) by (metis snd_conv)
  have "errs h' = []" if inj: "inj_on dec {..<words}"
  proof -
    have "errs h' = snd (asuite (\<lambda>i v. v) (\<lambda>i. i) words suite (\<lambda>i. cells h (dec i), []))"
      unfolding e using inj by (intro asuite_inj) auto
    then have "asuite (\<lambda>i v. v) (\<lambda>i. i) words suite (\<lambda>i. cells h (dec i), []) =
      (fst (asuite (\<lambda>i v. v) (\<lambda>i. i) words suite (\<lambda>i. cells h (dec i), [])), errs h')" by simp
    from suite_errors [OF this] show ?thesis by (cases "errs h'") auto
  qed
  moreover have "errs h' \<noteq> []" if ninj: "\<not> inj_on dec {..<words}"
  proof -
    obtain i j where "i < words" "j < words" "i \<noteq> j" "dec i = dec j"
      using ninj unfolding inj_on_def lessThan_iff by blast
    then obtain i j where "i < j" "j < words" "dec i = dec j"
      by (metis linorder_neqE_nat)
    from aliased_suite_errs [OF this assms(2), of "cells h" "[]"] show ?thesis by (auto simp: e)
  qed
  ultimately show ?thesis using h'(1) by blast
qed

theorem march_detects_aliasing_witness:
  "\<exists>a. run_phases suite 4 2 (decoded_harness (\<lambda>i. i mod 2)) (\<lambda>_. 0, []) = Some a \<and> snd a \<noteq> []"
proof -
  have "\<not> inj_on (\<lambda>i::nat. i mod 2) {..<4}"
    using inj_onD [of "\<lambda>i::nat. i mod 2" "{..<4}" 0 2] by auto
  then show ?thesis
    using march_detects_aliasing [OF decoded.live_harness_axioms, of 4 "(\<lambda>_. 0, [])" 2 "\<lambda>i. i mod 2"]
    by auto
qed

text \<open>Whatever \<open>service\<close> answers, a phase has processed exactly a prefix of its visiting order
  when it returns: cells past the abort point are neither written nor checked.\<close>

theorem march_phase_prefix:
  assumes "store_harness H ok cells errs rdf dec words" "ok h"
  shows "\<exists>h' n. run_phase ph words chunk H h = Some h' \<and> n \<le> words \<and>
     (cells h', errs h') = fold (acell rdf dec ph) (take n (visit_order ph words)) (cells h, errs h)"
  using store_harness.run_phase_prefix [OF assms] by blast

theorem march_phase_prefix_witness:
  "\<exists>h' n. run_phase (suite ! 10) 4 1 sim_harness
       \<lparr>sim_mem = [7, 7, 7, 7], sim_fault = None, sim_errs = [], sim_abort_after = Some 2,
        sim_services = 0\<rparr> = Some h' \<and> n \<le> 4 \<and>
     (sim_cells h', sim_errs h') = fold (acell (stuck_read None) (\<lambda>i. i) (suite ! 10))
       (take n (visit_order (suite ! 10) 4))
       (sim_cells \<lparr>sim_mem = [7, 7, 7, 7], sim_fault = None, sim_errs = [], sim_abort_after = Some 2,
        sim_services = 0\<rparr>, [])"
  using march_phase_prefix [OF sim.store_harness_axioms [of 4 None], of
      "\<lparr>sim_mem = [7, 7, 7, 7], sim_fault = None, sim_errs = [], sim_abort_after = Some 2,
        sim_services = 0\<rparr>" "suite ! 10" 1]
  by (simp add: sim_ok_def)

end
