(* ===== verification/Sdram_App.thy ===== *)
theory Sdram_App
  imports March
begin

text \<open>
  The SDRAM test application, \<open>crates/daisy-sdram-test\<close>: the error log and test state of
  \<open>src/tui.rs\<close>, and of \<open>src/main.rs\<close> the keyboard, the \<open>Runner\<close> that implements the march
  suite's \<open>Harness\<close> over the memory-mapped SDRAM, and the control loop. The memory under test
  is a store with an address decoder and a read fault, as in \<open>March\<close>; the cycle counter and the
  bytes the terminal sends are streams of the environment, consumed in order. Drawing, which
  only produces output, is left out. An operation that does not return (a reboot key, a pause
  that is never ended) is \<open>None\<close>. The release profile disables overflow checks, so \<open>+\<close> and \<open>-\<close>
  wrap.
\<close>

section \<open>Error log and test state\<close>

definition ERRLOG_CAP :: nat where "ERRLOG_CAP = 8"

record errlog =
  el_buf :: "(u32 \<times> u32 \<times> u32) list"
  el_len :: nat
  el_head :: nat
  el_total :: u32

definition errlog_new :: errlog where
  "errlog_new = \<lparr>el_buf = replicate ERRLOG_CAP (0, 0, 0), el_len = 0, el_head = 0, el_total = 0\<rparr>"

definition errlog_push :: "u32 \<Rightarrow> u32 \<Rightarrow> u32 \<Rightarrow> errlog \<Rightarrow> errlog option" where
  "errlog_push addr e got l = do {
     b \<leftarrow> idx_set (el_buf l) (el_head l) (addr, e, got);
     Some (l\<lparr>el_buf := b, el_head := (el_head l + 1) mod ERRLOG_CAP,
            el_len := min (el_len l + 1) ERRLOG_CAP, el_total := sat_add (el_total l) 1\<rparr>)
   }"

definition errlog_recent :: "errlog \<Rightarrow> (u32 \<times> u32 \<times> u32) list" where
  "errlog_recent l = map (\<lambda>k. el_buf l ! ((el_head l + ERRLOG_CAP - 1 - k) mod ERRLOG_CAP)) [0..<el_len l]"

datatype status = Waiting | BringUp | Running | Paused | Stopped

record test_state =
  ts_status :: status
  ts_words :: nat
  ts_sdclk :: u32
  ts_pass :: u32
  ts_elapsed_s :: u32
  ts_throughput :: u32
  ts_cur_group :: nat
  ts_phase_label :: string
  ts_addr :: u32
  ts_phase_pct :: u16
  ts_group_errs :: "u32 list"
  ts_errlog :: errlog

definition test_state_new :: "nat \<Rightarrow> u32 \<Rightarrow> test_state" where
  "test_state_new words sdclk =
     \<lparr>ts_status = Waiting, ts_words = words, ts_sdclk = sdclk, ts_pass = 0, ts_elapsed_s = 0, ts_throughput = 0,
      ts_cur_group = 0, ts_phase_label = [], ts_addr = 0xC0000000, ts_phase_pct = 0,
      ts_group_errs = replicate ngroups 0, ts_errlog = errlog_new\<rparr>"

definition total_errs :: "test_state \<Rightarrow> u32" where
  "total_errs s = sum_list (ts_group_errs s)"

section \<open>The runner\<close>

definition CYCLES_PER_MS :: u32 where "CYCLES_PER_MS = 400000"
definition SDRAM_BASE :: u32 where "SDRAM_BASE = 0xC0000000"
definition SDRAM_SIZE :: nat where "SDRAM_SIZE = 64 * 1024 * 1024"
definition SDRAM_WORDS :: nat where "SDRAM_WORDS = SDRAM_SIZE div 4"
definition CHUNK :: nat where "CHUNK = push_bit 16 1"

text \<open>The environment: the memory's read fault and decoder, the successive values of the cycle
  counter, the bytes each poll of the terminal delivers.\<close>

record env =
  e_rdf :: "nat \<Rightarrow> u32 \<Rightarrow> u32"
  e_dec :: "nat \<Rightarrow> nat"
  e_dwt :: "nat \<Rightarrow> u32"
  e_rx :: "nat \<Rightarrow> u8 list"

record keys =
  k_toggle :: bool
  k_stop :: bool

text \<open>The keys of one poll's bytes; \<open>None\<close>: a reboot.\<close>

fun scan_keys :: "u8 list \<Rightarrow> keys \<Rightarrow> keys option" where
  "scan_keys [] k = Some k"
| "scan_keys (b # bs) k =
     (if b = 0x20 then scan_keys bs (k\<lparr>k_toggle := True\<rparr>)
      else if b = 0x73 \<or> b = 0x53 then scan_keys bs (k\<lparr>k_stop := True\<rparr>)
      else if b = 0x72 then None
      else if b = 0x62 then None
      else scan_keys bs k)"

definition poll_ui :: "env \<Rightarrow> nat \<Rightarrow> keys option" where
  "poll_ui E n = scan_keys (take 16 (e_rx E n)) \<lparr>k_toggle = False, k_stop = False\<rparr>"

text \<open>The runner's fields and what it borrows: the test state, the memory, and the positions in
  the two streams. \<open>r_hist\<close> records the calls of \<open>on_error\<close> with the current group; no
  operation reads it.\<close>

record runner =
  r_state :: test_state
  r_ascending :: bool
  r_processed :: u64
  r_last_done :: u32
  r_start_cyc :: u32
  r_stopped :: bool
  r_cells :: "nat \<Rightarrow> u32"
  r_polls :: nat
  r_ticks :: nat
  r_hist :: "(nat \<times> nat \<times> u32 \<times> u32) list"

definition sdram_rd :: "env \<Rightarrow> nat \<Rightarrow> runner \<Rightarrow> (u32 \<times> runner) option" where
  "sdram_rd E i r = Some (e_rdf E i (r_cells r (e_dec E i)), r)"

definition sdram_wr :: "env \<Rightarrow> nat \<Rightarrow> u32 \<Rightarrow> runner \<Rightarrow> runner option" where
  "sdram_wr E i v r = Some (r\<lparr>r_cells := (r_cells r)(e_dec E i := v)\<rparr>)"

definition begin_phase :: "runner \<Rightarrow> runner" where
  "begin_phase r = r\<lparr>r_last_done := 0\<rparr>"

definition update_stats :: "env \<Rightarrow> nat \<Rightarrow> runner \<Rightarrow> runner" where
  "update_stats E ndone r =
     (let processed = r_processed r + ucast (of_nat ndone - r_last_done r);
          elapsed_cyc = e_dwt E (r_ticks r) - r_start_cyc r;
          elapsed_ms = elapsed_cyc div CYCLES_PER_MS;
          s = (r_state r)\<lparr>ts_elapsed_s := elapsed_ms div 1000\<rparr>;
          s = (if elapsed_ms > 0
               then s\<lparr>ts_throughput := ucast (sat_mul processed 4 div ucast elapsed_ms div 1000)\<rparr> else s);
          s = s\<lparr>ts_phase_pct := ucast (of_nat ndone * 100 div of_nat SDRAM_WORDS :: u64)\<rparr>;
          word = (if r_ascending r then min ndone (SDRAM_WORDS - 1) else SDRAM_WORDS - ndone);
          s = s\<lparr>ts_addr := SDRAM_BASE + of_nat (word * 4)\<rparr>
      in r\<lparr>r_processed := processed, r_last_done := of_nat ndone, r_state := s, r_ticks := r_ticks r + 1\<rparr>)"

definition runner_on_error :: "nat \<Rightarrow> u32 \<Rightarrow> u32 \<Rightarrow> runner \<Rightarrow> runner option" where
  "runner_on_error i e got r =
     (let s = r_state r; g = ts_cur_group s in do {
        n \<leftarrow> idx_get (ts_group_errs s) g;
        errs \<leftarrow> idx_set (ts_group_errs s) g (sat_add n 1);
        l \<leftarrow> errlog_push (SDRAM_BASE + of_nat (i * 4)) e got (ts_errlog s);
        Some (r\<lparr>r_state := s\<lparr>ts_group_errs := errs, ts_errlog := l\<rparr>, r_hist := r_hist r @ [(g, i, e, got)]\<rparr>)
      })"

text \<open>The loop of \<open>service\<close>: a tick, and while paused further ticks.\<close>

partial_function (option) runner_service_loop :: "env \<Rightarrow> runner \<Rightarrow> (bool \<times> runner) option" where
  "runner_service_loop E r =
     Option.bind (poll_ui E (r_polls r)) (\<lambda>keys.
        let r = r\<lparr>r_polls := r_polls r + 1\<rparr> in
        if k_stop keys then Some (False, r\<lparr>r_stopped := True\<rparr>)
        else
          let r = (if k_toggle keys
              then r\<lparr>r_state := (r_state r)\<lparr>ts_status := (if ts_status (r_state r) = Paused then Running else Paused)\<rparr>\<rparr>
              else r) in
          if ts_status (r_state r) \<noteq> Paused then Some (True, r) else runner_service_loop E r)"

declare runner_service_loop.simps [code]

definition runner_service :: "env \<Rightarrow> nat \<Rightarrow> runner \<Rightarrow> (bool \<times> runner) option" where
  "runner_service E ndone r = runner_service_loop E (update_stats E ndone r)"

definition runner_harness :: "env \<Rightarrow> runner harness" where
  "runner_harness E = \<lparr>h_read = sdram_rd E, h_write = sdram_wr E, h_on_error = runner_on_error,
     h_service = runner_service E\<rparr>"

section \<open>The control loop\<close>

definition start_phase :: "phase \<Rightarrow> runner \<Rightarrow> runner" where
  "start_phase ph r =
     begin_phase (r\<lparr>r_state := (r_state r)\<lparr>ts_cur_group := ph_group ph, ts_phase_label := ph_label ph\<rparr>,
                   r_ascending := ph_ascending ph\<rparr>)"

fun app_phases :: "env \<Rightarrow> phase list \<Rightarrow> runner \<Rightarrow> runner option" where
  "app_phases E [] r = Some r"
| "app_phases E (ph # phs) r = do {
     r \<leftarrow> run_phase ph SDRAM_WORDS CHUNK (runner_harness E) (start_phase ph r);
     if r_stopped r then Some r else app_phases E phs r
   }"

record app =
  a_running :: bool
  a_pass :: u32
  a_state :: test_state
  a_led :: bool
  a_cells :: "nat \<Rightarrow> u32"
  a_polls :: nat
  a_ticks :: nat

definition idle_step :: "env \<Rightarrow> app \<Rightarrow> app option" where
  "idle_step E a =
     (let s = (a_state a)\<lparr>ts_status := Stopped\<rparr> in do {
        keys \<leftarrow> poll_ui E (a_polls a);
        let a = a\<lparr>a_state := s, a_polls := a_polls a + 1, a_led := (total_errs s = 0)\<rparr>;
        Some (if k_toggle keys
          then a\<lparr>a_running := True, a_pass := 0,
                 a_state := s\<lparr>ts_group_errs := replicate ngroups 0, ts_errlog := errlog_new\<rparr>\<rparr>
          else a)
      })"

definition pass_step :: "env \<Rightarrow> app \<Rightarrow> app option" where
  "pass_step E a =
     (let pass = a_pass a + 1;
          r = \<lparr>r_state = (a_state a)\<lparr>ts_pass := pass, ts_status := Running\<rparr>, r_ascending = True, r_processed = 0,
               r_last_done = 0, r_start_cyc = e_dwt E (a_ticks a), r_stopped = False, r_cells = a_cells a,
               r_polls = a_polls a, r_ticks = a_ticks a + 1, r_hist = []\<rparr>
      in do {
        r \<leftarrow> app_phases E suite r;
        Some \<lparr>a_running = \<not> r_stopped r, a_pass = pass, a_state = r_state r, a_led = (total_errs (r_state r) = 0),
              a_cells = r_cells r, a_polls = r_polls r, a_ticks = r_ticks r\<rparr>
      })"

definition app_step :: "env \<Rightarrow> app \<Rightarrow> app option" where
  "app_step E a = (if a_running a then pass_step E a else idle_step E a)"

section \<open>The error log keeps the latest failures\<close>

definition log_ok :: "errlog \<Rightarrow> (u32 \<times> u32 \<times> u32) list \<Rightarrow> bool" where
  "log_ok l xs \<longleftrightarrow> length (el_buf l) = ERRLOG_CAP \<and> el_head l = length xs mod ERRLOG_CAP \<and>
     el_len l = min (length xs) ERRLOG_CAP \<and> unat (el_total l) = min (length xs) (2 ^ 32 - 1) \<and>
     (\<forall>j. length xs \<le> j + ERRLOG_CAP \<and> j < length xs \<longrightarrow> el_buf l ! (j mod ERRLOG_CAP) = xs ! j)"

lemma log_ok_new: "log_ok errlog_new []"
  by (simp add: log_ok_def errlog_new_def ERRLOG_CAP_def)

lemma mod8_neq: "j < n \<Longrightarrow> n < j + 8 \<Longrightarrow> j mod 8 \<noteq> n mod (8 :: nat)"
  using mod_eq_dvd_iff_nat [of j n 8] dvd_imp_le [of 8 "n - j"] by auto

lemma log_ok_push:
  assumes "log_ok l xs"
  shows "\<exists>l'. errlog_push addr e got l = Some l' \<and> log_ok l' (xs @ [(addr, e, got)])"
proof -
  have b: "length (el_buf l) = 8" "el_head l = length xs mod 8" using assms by (auto simp: log_ok_def ERRLOG_CAP_def)
  let ?l = "l\<lparr>el_buf := (el_buf l)[length xs mod 8 := (addr, e, got)], el_head := (el_head l + 1) mod ERRLOG_CAP,
            el_len := min (el_len l + 1) ERRLOG_CAP, el_total := sat_add (el_total l) 1\<rparr>"
  have "errlog_push addr e got l = Some ?l"
    using b by (simp add: errlog_push_def)
  moreover have "el_buf ?l ! (j mod 8) = (xs @ [(addr, e, got)]) ! j" if "length xs < j + 8" "j \<le> length xs" for j
  proof (cases "j = length xs")
    case True
    then show ?thesis using b by simp
  next
    case False
    then have "j mod 8 \<noteq> length xs mod 8" using that by (intro mod8_neq) auto
    then show ?thesis using False that assms by (auto simp: log_ok_def ERRLOG_CAP_def nth_append)
  qed
  then have "\<forall>j. Suc (length xs) \<le> j + 8 \<and> j < Suc (length xs) \<longrightarrow> el_buf ?l ! (j mod 8) = (xs @ [(addr, e, got)]) ! j"
    by (simp only: Suc_le_eq less_Suc_eq_le) blast
  moreover have "unat (el_total ?l) = min (Suc (length xs)) (2 ^ 32 - 1)"
    using assms by (simp add: log_ok_def unat_sat_add)
  moreover have "el_head ?l = Suc (length xs) mod 8" unfolding b(2) by (simp add: ERRLOG_CAP_def mod_Suc_eq)
  moreover have "el_len ?l = min (Suc (length xs)) 8"
    using assms by (simp add: log_ok_def ERRLOG_CAP_def)
  moreover have "length (el_buf ?l) = 8" using b by simp
  ultimately have "errlog_push addr e got l = Some ?l \<and> log_ok ?l (xs @ [(addr, e, got)])"
    unfolding log_ok_def ERRLOG_CAP_def length_append_singleton by (intro conjI)
  then show ?thesis by blast
qed

lemma log_ok_recent:
  assumes "log_ok l xs"
  shows "errlog_recent l = take ERRLOG_CAP (rev xs)"
proof (rule nth_equalityI)
  show "length (errlog_recent l) = length (take ERRLOG_CAP (rev xs))"
    using assms by (simp add: errlog_recent_def log_ok_def min.commute)
next
  fix k assume "k < length (errlog_recent l)"
  then have k: "k < length xs" "k < 8" using assms by (auto simp: errlog_recent_def log_ok_def ERRLOG_CAP_def)
  have "length xs - 1 - k + 8 = (length xs mod 8 + 8 - 1 - k) + 8 * (length xs div 8)"
    using k mult_div_mod_eq [of 8 "length xs"] by linarith
  then have "(length xs - 1 - k + 8) mod 8 = ((length xs mod 8 + 8 - 1 - k) + 8 * (length xs div 8)) mod 8"
    by (simp only:)
  then have "(length xs mod 8 + 8 - 1 - k) mod 8 = (length xs - 1 - k) mod 8"
    by (simp only: mod_add_self2 mod_mult_self2)
  moreover have "el_buf l ! ((length xs - 1 - k) mod 8) = xs ! (length xs - 1 - k)"
  proof -
    have "length xs \<le> (length xs - 1 - k) + 8" "length xs - 1 - k < length xs" using k by linarith+
    then show ?thesis using assms unfolding log_ok_def ERRLOG_CAP_def by blast
  qed
  ultimately show "errlog_recent l ! k = take ERRLOG_CAP (rev xs) ! k"
    using assms k by (simp add: errlog_recent_def log_ok_def ERRLOG_CAP_def rev_nth)
qed

section \<open>The runner is a harness\<close>

definition untouched :: "env \<Rightarrow> bool" where
  "untouched E \<longleftrightarrow> (\<forall>n. \<forall>b\<in>set (e_rx E n). b \<notin> {0x20, 0x73, 0x53, 0x72, 0x62})"

lemma scan_keys_none: "\<forall>b\<in>set bs. b \<notin> {0x20, 0x73, 0x53, 0x72, 0x62} \<Longrightarrow> scan_keys bs k = Some k"
  by (induction bs) auto

lemma untouched_poll: "untouched E \<Longrightarrow> poll_ui E n = Some \<lparr>k_toggle = False, k_stop = False\<rparr>"
  unfolding poll_ui_def by (rule scan_keys_none) (auto simp: untouched_def dest: in_set_takeD)

definition log_entry :: "nat \<times> nat \<times> u32 \<times> u32 \<Rightarrow> u32 \<times> u32 \<times> u32" where
  "log_entry x = (SDRAM_BASE + of_nat (fst (snd x) * 4), snd (snd x))"

definition in_group :: "nat \<Rightarrow> (nat \<times> nat \<times> u32 \<times> u32) list \<Rightarrow> nat" where
  "in_group g h = length (filter (\<lambda>x. fst x = g) h)"

text \<open>Relative to the counts \<open>B\<close> and the log \<open>xs\<close> at the start of the pass.\<close>

definition runner_ok :: "(nat \<Rightarrow> nat) \<Rightarrow> (u32 \<times> u32 \<times> u32) list \<Rightarrow> runner \<Rightarrow> bool" where
  "runner_ok B xs r \<longleftrightarrow>
     ts_status (r_state r) = Running \<and> \<not> r_stopped r \<and> ts_cur_group (r_state r) < ngroups \<and>
     length (ts_group_errs (r_state r)) = ngroups \<and>
     (\<forall>g<ngroups. unat (ts_group_errs (r_state r) ! g) = min (B g + in_group g (r_hist r)) (2 ^ 32 - 1)) \<and>
     list_all (\<lambda>x. fst x < ngroups) (r_hist r) \<and>
     log_ok (ts_errlog (r_state r)) (xs @ map log_entry (r_hist r))"

lemma update_stats_frame [simp]:
  "r_cells (update_stats E d r) = r_cells r" "r_hist (update_stats E d r) = r_hist r"
  "r_stopped (update_stats E d r) = r_stopped r" "r_polls (update_stats E d r) = r_polls r"
  "ts_status (r_state (update_stats E d r)) = ts_status (r_state r)"
  "ts_cur_group (r_state (update_stats E d r)) = ts_cur_group (r_state r)"
  "ts_group_errs (r_state (update_stats E d r)) = ts_group_errs (r_state r)"
  "ts_errlog (r_state (update_stats E d r)) = ts_errlog (r_state r)"
  by (simp_all add: update_stats_def Let_def)

lemma service_untouched:
  assumes "untouched E" "ts_status (r_state r) = Running"
  shows "runner_service E d r = Some (True, (update_stats E d r)\<lparr>r_polls := r_polls r + 1\<rparr>)"
  unfolding runner_service_def
  by (subst runner_service_loop.simps) (simp add: untouched_poll [OF assms(1)] assms(2) Let_def)

lemma in_group_snoc [simp]: "in_group g (h @ [(k, x)]) = in_group g h + (if k = g then 1 else 0)"
  by (simp add: in_group_def)

lemma runner_on_error_ok:
  assumes "runner_ok B xs r"
  shows "\<exists>r'. runner_on_error i e g r = Some r' \<and> runner_ok B xs r' \<and> r_cells r' = r_cells r \<and>
    map snd (r_hist r') = map snd (r_hist r) @ [(i, e, g)]"
proof -
  define k where "k = ts_cur_group (r_state r)"
  define G where "G = ts_group_errs (r_state r)"
  have k: "k < ngroups" "length G = ngroups" using assms by (auto simp: runner_ok_def k_def G_def)
  obtain l' where l': "errlog_push (SDRAM_BASE + of_nat (i * 4)) e g (ts_errlog (r_state r)) = Some l'"
    "log_ok l' (xs @ map log_entry (r_hist r) @ [(SDRAM_BASE + of_nat (i * 4), e, g)])"
    using log_ok_push [of "ts_errlog (r_state r)" "xs @ map log_entry (r_hist r)"] assms
    by (fastforce simp: runner_ok_def)
  let ?r = "r\<lparr>r_state := (r_state r)\<lparr>ts_group_errs := G[k := sat_add (G ! k) 1], ts_errlog := l'\<rparr>,
    r_hist := r_hist r @ [(k, i, e, g)]\<rparr>"
  have "runner_on_error i e g r = Some ?r"
    using k l'(1) by (simp add: runner_on_error_def Let_def k_def G_def)
  moreover have "unat (G[k := sat_add (G ! k) 1] ! h) = min (B h + in_group h (r_hist r @ [(k, i, e, g)])) (2 ^ 32 - 1)"
    if "h < ngroups" for h
  proof -
    have "unat (G ! h) = min (B h + in_group h (r_hist r)) (2 ^ 32 - 1)"
      using assms that by (simp add: runner_ok_def G_def)
    then show ?thesis using k by (cases "h = k") (simp_all add: unat_sat_add)
  qed
  ultimately show ?thesis using assms k l'(2)
    by (intro exI [of _ ?r]) (simp add: runner_ok_def log_entry_def)
qed

interpretation run: live_harness "runner_harness E" "\<lambda>r. untouched E \<and> runner_ok B xs r" r_cells
    "\<lambda>r. map snd (r_hist r)" "e_rdf E" "e_dec E" words for E B xs words
proof (unfold_locales, goal_cases)
  case (1 h i)
  then show ?case by (simp add: runner_harness_def sdram_rd_def)
next
  case (2 h i v)
  then show ?case by (simp add: runner_harness_def sdram_wr_def runner_ok_def)
next
  case (3 h i e g)
  then show ?case using runner_on_error_ok [of B xs h i e g] by (auto simp: runner_harness_def)
next
  case (4 h d)
  then have "ts_status (r_state h) = Running" by (simp add: runner_ok_def)
  with 4 show ?case by (auto simp: runner_harness_def service_untouched runner_ok_def)
next
  case (5 h d)
  then have "ts_status (r_state h) = Running" by (simp add: runner_ok_def)
  with 5 show ?case by (auto simp: runner_harness_def service_untouched)
qed

section \<open>A pass\<close>

lemma word32_bound_le: "unat (w :: u32) \<le> 2 ^ 32 - 1"
proof -
  have "(2 :: nat) ^ 32 - 1 = 4294967295" by simp
  then show ?thesis using word32_bound [of w] by linarith
qed

lemma start_phase_ok: "ph_group ph < ngroups \<Longrightarrow> runner_ok B xs r \<Longrightarrow> runner_ok B xs (start_phase ph r)"
  by (simp add: start_phase_def begin_phase_def runner_ok_def)

lemma start_phase_frame [simp]:
  "r_cells (start_phase ph r) = r_cells r" "r_hist (start_phase ph r) = r_hist r"
  by (simp_all add: start_phase_def begin_phase_def)

lemma app_phases_refine:
  assumes "untouched E" "runner_ok B xs r" "list_all (\<lambda>ph. ph_group ph < ngroups) phs"
  shows "\<exists>r'. app_phases E phs r = Some r' \<and> runner_ok B xs r' \<and>
    (r_cells r', map snd (r_hist r')) = asuite (e_rdf E) (e_dec E) SDRAM_WORDS phs (r_cells r, map snd (r_hist r))"
  using assms(2,3)
proof (induction phs arbitrary: r)
  case Nil
  then show ?case by (simp add: asuite_def)
next
  case (Cons ph phs)
  have "untouched E \<and> runner_ok B xs (start_phase ph r)"
    using assms(1) start_phase_ok Cons.prems by simp
  from run.run_phase_refines [OF this, of ph SDRAM_WORDS CHUNK] obtain r1 where
    r1: "run_phase ph SDRAM_WORDS CHUNK (runner_harness E) (start_phase ph r) = Some r1" "runner_ok B xs r1"
    "(r_cells r1, map snd (r_hist r1)) = aphase (e_rdf E) (e_dec E) SDRAM_WORDS ph (r_cells r, map snd (r_hist r))"
    by auto
  have "\<not> r_stopped r1" using r1(2) by (simp add: runner_ok_def)
  with Cons.IH [OF r1(2)] Cons.prems(2) r1 show ?case by (auto simp: asuite_def)
qed

lemma suite_groups: "list_all (\<lambda>ph. ph_group ph < ngroups) suite"
  by (simp add: suite_def mk_phase_def ngroups_def groups_def)

lemma length_fold_acell: "length (snd (fold (acell rdf dec ph) is a)) \<le> length (snd a) + length is"
proof (induction "is" arbitrary: a)
  case (Cons i "is")
  have "length (snd (acell rdf dec ph i a)) \<le> Suc (length (snd a))"
    by (simp add: acell_def split: option.splits)
  with Cons.IH [of "acell rdf dec ph i a"] show ?case by simp
qed simp

lemma length_asuite: "length (snd (asuite rdf dec words phs a)) \<le> length (snd a) + length phs * words"
proof (induction phs arbitrary: a)
  case Nil
  then show ?case by (simp add: asuite_def)
next
  case (Cons ph phs)
  have "length (snd (aphase rdf dec words ph a)) \<le> length (snd a) + words"
    using length_fold_acell [of rdf dec ph "visit_order ph words" a] by (simp add: aphase_def visit_order_def)
  with Cons.IH [of "aphase rdf dec words ph a"] show ?case by (simp add: asuite_def)
qed

lemma sum_in_group: "list_all (\<lambda>x. fst x < n) h \<Longrightarrow> (\<Sum>g<n. in_group g h) = length h"
proof (induction h)
  case (Cons x h)
  have "(\<Sum>g<n. in_group g (x # h)) = (\<Sum>g<n. in_group g h + (if fst x = g then 1 else 0))"
    by (intro sum.cong) (auto simp: in_group_def)
  also have "\<dots> = (\<Sum>g<n. in_group g h) + 1" using Cons.prems by (simp add: sum.distrib)
  finally show ?case using Cons by simp
qed (simp add: in_group_def)

lemma unat_sum_list: "sum_list (map unat ws) < 2 ^ 32 \<Longrightarrow> unat (sum_list ws :: u32) = sum_list (map unat ws)"
  by (induction ws) (auto simp: unat_word_ariths)

lemma SDRAM_WORDS_eq: "SDRAM_WORDS = 16777216"
  by (simp add: SDRAM_WORDS_def SDRAM_SIZE_def)

lemma unat_total_errs:
  assumes "length G = ngroups" "\<forall>g<ngroups. unat (G ! g) = in_group g h" "list_all (\<lambda>x. fst x < ngroups) h"
    and "length h < 2 ^ 32"
  shows "unat (sum_list G :: u32) = length h"
proof -
  have "sum_list (map unat G) = (\<Sum>g<ngroups. in_group g h)"
    using assms(1,2) by (simp add: sum_list_sum_nth atLeast0LessThan)
  also have "\<dots> = length h" by (rule sum_in_group [OF assms(3)])
  finally show ?thesis using unat_sum_list [of G] assms(4) by simp
qed

text \<open>The runner at the start of a pass, and what a pass is: the phases from there.\<close>

definition pass_runner :: "env \<Rightarrow> app \<Rightarrow> runner" where
  "pass_runner E a = \<lparr>r_state = (a_state a)\<lparr>ts_pass := a_pass a + 1, ts_status := Running\<rparr>, r_ascending = True, r_processed = 0,
     r_last_done = 0, r_start_cyc = e_dwt E (a_ticks a), r_stopped = False, r_cells = a_cells a,
     r_polls = a_polls a, r_ticks = a_ticks a + 1, r_hist = []\<rparr>"

lemma pass_returns:
  assumes "untouched E" "length (ts_group_errs (a_state a)) = ngroups" "log_ok (ts_errlog (a_state a)) xs"
    and "B = (\<lambda>g. unat (ts_group_errs (a_state a) ! g))"
  shows "\<exists>r'. app_phases E suite (pass_runner E a) = Some r' \<and> runner_ok B xs r' \<and>
    (r_cells r', map snd (r_hist r')) = asuite (e_rdf E) (e_dec E) SDRAM_WORDS suite (a_cells a, [])"
proof -
  let ?r = "(pass_runner E a)\<lparr>r_state := (r_state (pass_runner E a))\<lparr>ts_cur_group := 0\<rparr>\<rparr>"
  have "app_phases E suite (pass_runner E a) = app_phases E suite ?r"
    by (simp add: suite_def start_phase_def begin_phase_def mk_phase_def)
  moreover have "runner_ok B xs ?r"
    using assms(2-4) word32_bound_le by (simp add: runner_ok_def pass_runner_def in_group_def ngroups_def groups_def)
  ultimately show ?thesis
    using app_phases_refine [OF assms(1) _ suite_groups, of B xs ?r] by (simp add: pass_runner_def)
qed

lemma pass_total:
  assumes "runner_ok B xs r'" "\<forall>g<ngroups. B g = 0" "es = map snd (r_hist r')" "length es \<le> 16 * SDRAM_WORDS"
  shows "unat (total_errs (r_state r')) = length es"
proof -
  have small: "length (r_hist r') < 2 ^ 32 - 1" using assms(3,4) by (simp add: SDRAM_WORDS_eq)
  have "in_group g (r_hist r') \<le> length (r_hist r')" for g by (simp add: in_group_def)
  with small have lt: "in_group g (r_hist r') < 2 ^ 32 - 1" for g by (meson le_less_trans)
  have "\<forall>g<ngroups. unat (ts_group_errs (r_state r') ! g) = in_group g (r_hist r')"
    using assms(1,2) lt by (auto simp: runner_ok_def min_def less_imp_le)
  then have "unat (total_errs (r_state r')) = length (r_hist r')"
    using assms(1) small unfolding total_errs_def by (intro unat_total_errs) (auto simp: runner_ok_def)
  then show ?thesis by (simp add: assms(3))
qed

text \<open>C27: a whole pass of the application over the 64 MiB. With nobody at the keyboard, on a
  memory whose reads may be faulty (word \<open>i\<close> holding \<open>v\<close> reads as \<open>rdf i v\<close>) and whose decoder
  does not alias, the pass returns and the next begins; what it reports is exactly the reads
  the fault changes, for the five values written to each word; the log shows the latest eight
  failures, latest first, at their bus addresses; and if no errors had been counted before, the
  total is the number of reports (no counter saturates or wraps) and the LED is steady exactly
  when the memory is sound.\<close>

theorem app_pass_verdict:
  assumes "untouched E" and "inj_on (e_dec E) {..<SDRAM_WORDS}" and "a_running a"
    and "length (ts_group_errs (a_state a)) = ngroups" and "log_ok (ts_errlog (a_state a)) xs"
  shows "\<exists>a' es. app_step E a = Some a' \<and> a_running a' \<and> a_pass a' = a_pass a + 1 \<and>
    set es = {(i, e, e_rdf E i e) | i e. i < SDRAM_WORDS \<and> e \<in> suite_values i \<and> e_rdf E i e \<noteq> e} \<and>
    errlog_recent (ts_errlog (a_state a')) =
      take 8 (rev (xs @ map (\<lambda>(i, e, g). (0xC0000000 + of_nat (i * 4), e, g)) es)) \<and>
    ((\<forall>g<ngroups. ts_group_errs (a_state a) ! g = 0) \<longrightarrow>
       unat (total_errs (a_state a')) = length es \<and> a_led a' = (es = []))"
proof -
  define B where "B = (\<lambda>g. unat (ts_group_errs (a_state a) ! g))"
  from pass_returns [OF assms(1,4,5) B_def] obtain r' where
    run: "app_phases E suite (pass_runner E a) = Some r'" and ok: "runner_ok B xs r'"
    and ref: "(r_cells r', map snd (r_hist r')) = asuite (e_rdf E) (e_dec E) SDRAM_WORDS suite (a_cells a, [])"
    by blast
  define es where "es = map snd (r_hist r')"
  define a' where "a' = \<lparr>a_running = \<not> r_stopped r', a_pass = a_pass a + 1, a_state = r_state r', a_led = (total_errs (r_state r') = 0),
    a_cells = r_cells r', a_polls = r_polls r', a_ticks = r_ticks r'\<rparr>"
  have step: "app_step E a = Some a'"
    using assms(3) run by (simp add: app_step_def pass_step_def Let_def pass_runner_def a'_def)
  have es: "es = snd (asuite (e_rdf E) (\<lambda>i. i) SDRAM_WORDS suite (\<lambda>i. a_cells a (e_dec E i), []))"
    using ref asuite_inj [OF assms(2), of "(a_cells a, [])" "(\<lambda>i. a_cells a (e_dec E i), [])" "e_rdf E" suite]
    unfolding es_def by (metis fst_conv snd_conv)
  have len: "length es \<le> 16 * SDRAM_WORDS"
    unfolding es using length_asuite [of "e_rdf E" "\<lambda>i. i" SDRAM_WORDS suite "(\<lambda>i. a_cells a (e_dec E i), [])"]
    by (simp add: suite_def)
  have "set es = {(i, e, e_rdf E i e) | i e. i < SDRAM_WORDS \<and> e \<in> suite_values i \<and> e_rdf E i e \<noteq> e}"
    using suite_errors [of "e_rdf E" SDRAM_WORDS "\<lambda>i. a_cells a (e_dec E i)" "[]"
        "fst (asuite (e_rdf E) (\<lambda>i. i) SDRAM_WORDS suite (\<lambda>i. a_cells a (e_dec E i), []))" es]
    unfolding es by auto
  moreover have "map log_entry (r_hist r') = map (\<lambda>(i, e, g). (0xC0000000 + of_nat (i * 4), e, g)) es"
    by (simp add: es_def log_entry_def SDRAM_BASE_def split_beta)
  then have "errlog_recent (ts_errlog (a_state a')) =
      take 8 (rev (xs @ map (\<lambda>(i, e, g). (0xC0000000 + of_nat (i * 4), e, g)) es))"
    using log_ok_recent [of "ts_errlog (r_state r')" "xs @ map log_entry (r_hist r')"] ok
    by (simp add: runner_ok_def a'_def ERRLOG_CAP_def)
  moreover have "unat (total_errs (a_state a')) = length es \<and> a_led a' = (es = [])"
    if "\<forall>g<ngroups. ts_group_errs (a_state a) ! g = 0"
    using pass_total [OF ok _ es_def len] that by (auto simp: a'_def B_def unat_eq_zero)
  moreover have "a_running a'" using ok by (simp add: a'_def runner_ok_def)
  moreover have "a_pass a' = a_pass a + 1" by (simp add: a'_def)
  ultimately show ?thesis using step by blast
qed

text \<open>The first pass over a memory with bit 0 of word 5 stuck at zero: two of its words fail.\<close>

definition stuck_env :: env where
  "stuck_env = \<lparr>e_rdf = (\<lambda>i v. if i = 5 then v AND NOT 1 else v), e_dec = (\<lambda>i. i), e_dwt = (\<lambda>n. 0), e_rx = (\<lambda>n. [])\<rparr>"

definition fresh_app :: app where
  "fresh_app = \<lparr>a_running = True, a_pass = 0, a_state = test_state_new SDRAM_WORDS 100, a_led = False,
     a_cells = (\<lambda>i. 0), a_polls = 0, a_ticks = 0\<rparr>"

lemma app_pass_verdict_witness:
  "\<exists>a' es. app_step stuck_env fresh_app = Some a' \<and> a_running a' \<and>
     (5 :: nat, 0xFFFFFFFF :: u32, 0xFFFFFFFE :: u32) \<in> set es \<and>
     unat (total_errs (a_state a')) = length es \<and> \<not> a_led a'"
proof -
  have h: "untouched stuck_env" "inj_on (e_dec stuck_env) {..<SDRAM_WORDS}" "a_running fresh_app"
    "length (ts_group_errs (a_state fresh_app)) = ngroups" "log_ok (ts_errlog (a_state fresh_app)) []"
    by (simp_all add: untouched_def stuck_env_def fresh_app_def test_state_new_def log_ok_new)
  from app_pass_verdict [OF h] show ?thesis
  proof (elim exE conjE)
    fix a' es
    assume step: "app_step stuck_env fresh_app = Some a'" and run: "a_running a'"
      and set: "set es = {(i, e, e_rdf stuck_env i e) | i e. i < SDRAM_WORDS \<and> e \<in> suite_values i \<and> e_rdf stuck_env i e \<noteq> e}"
      and tot: "(\<forall>g<ngroups. ts_group_errs (a_state fresh_app) ! g = 0) \<longrightarrow>
        unat (total_errs (a_state a')) = length es \<and> a_led a' = (es = [])"
    have "(5, v_ones 5, e_rdf stuck_env 5 (v_ones 5)) \<in> set es"
      unfolding set by (auto simp: SDRAM_WORDS_eq suite_values_def stuck_env_def v_ones_def)
    moreover have "v_ones 5 = 0xFFFFFFFF" "e_rdf stuck_env 5 0xFFFFFFFF = 0xFFFFFFFE"
      by (simp_all add: v_ones_def stuck_env_def)
    ultimately have mem: "(5, 0xFFFFFFFF, 0xFFFFFFFE) \<in> set es" by (simp only:)
    have "\<forall>g<ngroups. ts_group_errs (a_state fresh_app) ! g = 0"
      by (simp add: fresh_app_def test_state_new_def)
    with tot mem have "unat (total_errs (a_state a')) = length es" "\<not> a_led a'" by auto
    with step run mem show ?thesis by blast
  qed
qed

section \<open>What the panel shows\<close>

lemma unat_pct: "d \<le> SDRAM_WORDS \<Longrightarrow> unat (of_nat d * 100 div of_nat SDRAM_WORDS :: u64) = d * 100 div SDRAM_WORDS"
proof -
  assume "d \<le> SDRAM_WORDS"
  then have d: "d < 2 ^ 64" "d * 100 < 2 ^ 64" by (simp_all add: SDRAM_WORDS_eq)
  have "unat (of_nat (d * 100) :: u64) = d * 100"
    unfolding unsigned_of_nat using d by (simp add: take_bit_eq_mod flip: of_nat_mult)
  moreover have "unat (of_nat SDRAM_WORDS :: u64) = SDRAM_WORDS" by (simp add: SDRAM_WORDS_eq)
  ultimately show ?thesis by (simp add: unat_div_distrib)
qed

text \<open>The progress display. At every service call of a phase (\<open>d\<close> words done, of all the
  words) the percentage is exact and the address shown is that of the next word to test in
  either direction, inside the memory; but the elapsed time is measured on the 32-bit cycle
  counter from the start of the pass, so after \<open>T\<close> cycles it shows \<open>T mod 2^32\<close> of them and never
  more than ten seconds, whatever the pass has taken.\<close>

theorem stats_display:
  assumes "0 < d" and "d \<le> SDRAM_WORDS" and "e_dwt E (r_ticks r) = r_start_cyc r + of_nat T"
  shows "unat (ts_phase_pct (r_state (update_stats E d r))) = d * 100 div SDRAM_WORDS \<and>
    (\<exists>word < SDRAM_WORDS. ts_addr (r_state (update_stats E d r)) = SDRAM_BASE + of_nat (word * 4) \<and>
      word = (if r_ascending r then min d (SDRAM_WORDS - 1) else SDRAM_WORDS - d)) \<and>
    unat (ts_elapsed_s (r_state (update_stats E d r))) = T mod 2 ^ 32 div 400000000 \<and>
    ts_elapsed_s (r_state (update_stats E d r)) \<le> 10"
proof (intro conjI)
  have pct: "d * 100 div SDRAM_WORDS \<le> 100"
    using assms(2) div_le_mono [of "d * 100" "SDRAM_WORDS * 100" SDRAM_WORDS] by (simp add: SDRAM_WORDS_eq)
  then show "unat (ts_phase_pct (r_state (update_stats E d r))) = d * 100 div SDRAM_WORDS"
    using unat_pct [OF assms(2)]
    by (simp add: update_stats_def Let_def unsigned_ucast_eq take_bit_nat_eq_self)
  show "\<exists>word < SDRAM_WORDS. ts_addr (r_state (update_stats E d r)) = SDRAM_BASE + of_nat (word * 4) \<and>
      word = (if r_ascending r then min d (SDRAM_WORDS - 1) else SDRAM_WORDS - d)"
    using assms(1,2)
    by (intro exI [of _ "if r_ascending r then min d (SDRAM_WORDS - 1) else SDRAM_WORDS - d"])
      (auto simp: update_stats_def Let_def SDRAM_WORDS_eq)
  show el: "unat (ts_elapsed_s (r_state (update_stats E d r))) = T mod 2 ^ 32 div 400000000"
    by (simp add: update_stats_def Let_def assms(3) CYCLES_PER_MS_def unat_div_distrib unsigned_of_nat take_bit_eq_mod
        flip: div_mult2_eq)
  have "T mod 2 ^ 32 div 400000000 \<le> 10"
    using div_le_mono [of "T mod 2 ^ 32" "2 ^ 32 - 1" 400000000] mod_less_divisor [of "2 ^ 32" T] by simp
  then show "ts_elapsed_s (r_state (update_stats E d r)) \<le> 10"
    by (simp add: word_le_nat_alt el)
qed

text \<open>A minute into a pass, half way through a phase, the panel says 6 seconds.\<close>

definition minute_runner :: runner where
  "minute_runner = \<lparr>r_state = test_state_new SDRAM_WORDS 100, r_ascending = True, r_processed = 0, r_last_done = 0,
     r_start_cyc = 0, r_stopped = False, r_cells = (\<lambda>i. 0), r_polls = 0, r_ticks = 0, r_hist = []\<rparr>"

lemma stats_display_witness:
  "unat (ts_phase_pct (r_state (update_stats (stuck_env\<lparr>e_dwt := (\<lambda>n. 24000000000)\<rparr>) 8388608 minute_runner))) = 50 \<and>
   unat (ts_elapsed_s (r_state (update_stats (stuck_env\<lparr>e_dwt := (\<lambda>n. 24000000000)\<rparr>) 8388608 minute_runner))) = 6"
  using stats_display [of 8388608 "stuck_env\<lparr>e_dwt := (\<lambda>n. 24000000000)\<rparr>" minute_runner 24000000000]
  by (simp add: minute_runner_def SDRAM_WORDS_eq)

end
