(* ===== verification/Image.thy ===== *)
theory Image
  imports Prelude
begin

text \<open>
  Firmware images, from the linker to the bootloader: the vector-table plausibility check
  (daisy-bsp/src/boot_check.rs), the startup-RAM check and the ELF-to-binary conversion of the
  host tool (daisy-cli/src/elf.rs, cmd/check.rs) and its flash command (cmd/flash.rs).
  The ELF parser, the DFU transport and the build are parameters: a parsed program header is
  a record, a symbol table is a map.
\<close>

subsection \<open>Vector-table plausibility\<close>

definition app_base :: u32 where "app_base = 0x90000000"

definition app_end :: u32 where "app_end = 0x90800000"

definition is_valid_sram :: "u32 \<Rightarrow> bool" where
  "is_valid_sram msp \<longleftrightarrow>
     (0x20000000 \<le> msp \<and> msp \<le> 0x20020000)
     \<or> (0x24000000 \<le> msp \<and> msp \<le> 0x24080000)
     \<or> (0x30000000 \<le> msp \<and> msp \<le> 0x30050000)"

definition is_valid_reset :: "u32 \<Rightarrow> bool" where
  "is_valid_reset reset \<longleftrightarrow>
     reset AND 1 = 1 \<and> app_base \<le> reset AND NOT 1 \<and> reset AND NOT 1 < app_end"

definition is_plausible_image :: "u32 \<Rightarrow> u32 \<Rightarrow> bool" where
  "is_plausible_image msp reset \<longleftrightarrow> is_valid_sram msp \<and> is_valid_reset reset"

subsection \<open>Startup RAM check\<close>

text \<open>The region table; the third column, a display name, is kept as a string.\<close>

definition ram_regions :: "(u64 \<times> u64 \<times> string) list" where
  "ram_regions =
     [(0x20000000, 0x20020000, ''DTCM (128 KiB)''),
      (0x24000000, 0x24080000, ''AXI SRAM (512 KiB)''),
      (0x30000000, 0x30050000, ''D2 SRAM1..3 (288 KiB)'')]"

fun list_position :: "('a \<Rightarrow> bool) \<Rightarrow> 'a list \<Rightarrow> nat option" where
  "list_position p [] = None"
| "list_position p (x # xs) = (if p x then Some 0 else map_option Suc (list_position p xs))"

definition region_of :: "u64 \<Rightarrow> nat option" where
  "region_of addr = list_position (\<lambda>(lo, hi, _). lo \<le> addr \<and> addr \<le> hi) ram_regions"

text \<open>
  The two kinds of violation, carrying what their messages print. The check returns
  \<open>Inr ()\<close> for \<open>Ok(())\<close> and \<open>Inl\<close> the list of violations otherwise.
\<close>

datatype startup_err =
    DifferentRegions string string u64 string string u64 string
  | NotInRam string u64

type_synonym symbols = "string \<Rightarrow> u64 option"

definition walked_ranges :: "(string \<times> string \<times> string) list" where
  "walked_ranges =
     [(''.bss zero'', ''__sbss'', ''__ebss''),
      (''.data copy (dest)'', ''__sdata'', ''__edata'')]"

definition startup_symbols :: "string list" where
  "startup_symbols =
     [''__sbss'', ''__ebss'', ''__sdata'', ''__edata'', ''__sheap'', ''_stack_start'', ''_stack_end'']"

definition range_errs :: "symbols \<Rightarrow> string \<times> string \<times> string \<Rightarrow> startup_err list" where
  "range_errs sy = (\<lambda>(label, lo_name, hi_name).
     (case (sy lo_name, sy hi_name) of
        (Some lo, Some hi) \<Rightarrow>
          (case (region_of lo, region_of hi) of
             (Some a, Some b) \<Rightarrow>
               if a \<noteq> b
               then [DifferentRegions label lo_name lo (snd (snd (ram_regions ! a)))
                       hi_name hi (snd (snd (ram_regions ! b)))]
               else []
           | _ \<Rightarrow> [])
      | _ \<Rightarrow> []))"

definition symbol_errs :: "symbols \<Rightarrow> string \<Rightarrow> startup_err list" where
  "symbol_errs sy name =
     (case sy name of
        Some a \<Rightarrow> if region_of a = None then [NotInRam name a] else []
      | None \<Rightarrow> [])"

definition check_startup_ram_invariant :: "symbols \<Rightarrow> startup_err list + unit" where
  "check_startup_ram_invariant sy =
     (let errs = concat (map (range_errs sy) walked_ranges)
               @ concat (map (symbol_errs sy) startup_symbols)
      in if errs = [] then Inr () else Inl errs)"

text \<open>
  \<open>daisy check-elf\<close>: reading a file's symbols (the first failure ends the run) and checking
  each; \<open>Inl\<close> is an error of the command.
\<close>

datatype check_elf_error = ReadFailed | CheckFailed

fun check_elfs :: "('p \<Rightarrow> symbols option) \<Rightarrow> bool \<Rightarrow> 'p list \<Rightarrow> check_elf_error + unit" where
  "check_elfs read_symbols failed [] = (if failed then Inl CheckFailed else Inr ())"
| "check_elfs read_symbols failed (elf # elfs) =
     (case read_symbols elf of
        None \<Rightarrow> Inl ReadFailed
      | Some sy \<Rightarrow>
          (case check_startup_ram_invariant sy of
             Inr _ \<Rightarrow> check_elfs read_symbols failed elfs
           | Inl _ \<Rightarrow> check_elfs read_symbols True elfs))"

text \<open>The memory the chip really has: the same banks without the one-past-the-end address.\<close>

definition ram_mapped :: "u64 \<Rightarrow> bool" where
  "ram_mapped a \<longleftrightarrow>
     (0x20000000 \<le> a \<and> a < 0x20020000)
     \<or> (0x24000000 \<le> a \<and> a < 0x24080000)
     \<or> (0x30000000 \<le> a \<and> a < 0x30050000)"

lemma region_of_code:
  "region_of a =
     (if 0x20000000 \<le> a \<and> a \<le> 0x20020000 then Some 0
      else if 0x24000000 \<le> a \<and> a \<le> 0x24080000 then Some 1
      else if 0x30000000 \<le> a \<and> a \<le> 0x30050000 then Some 2 else None)"
  by (simp add: region_of_def ram_regions_def)

lemma region_cases:
  assumes "region_of a = Some r"
  obtains "r = 0" "0x20000000 \<le> a" "a \<le> 0x20020000"
    | "r = 1" "0x24000000 \<le> a" "a \<le> 0x24080000"
    | "r = 2" "0x30000000 \<le> a" "a \<le> 0x30050000"
  using assms by (auto simp: region_of_code split: if_splits)

lemma same_region_mapped:
  assumes "region_of lo = Some r" "region_of hi = Some r" "lo \<le> a" "a < hi"
  shows "ram_mapped a"
  using assms(1)
  by (cases rule: region_cases; use assms in \<open>auto simp: region_of_code ram_mapped_def
        word_le_nat_alt word_less_nat_alt split: if_splits\<close>)

lemma diff_region_unmapped:
  assumes "region_of lo = Some r" "region_of hi = Some s" "r \<noteq> s" "lo \<le> hi"
  shows "\<exists>a. lo \<le> a \<and> a < hi \<and> \<not> ram_mapped a"
proof -
  define gap :: u64 where "gap = (if r = 0 then 0x20020000 else 0x24080000)"
  have "lo \<le> gap \<and> gap < hi \<and> \<not> ram_mapped gap"
    using assms unfolding gap_def
    by (auto simp: region_of_code ram_mapped_def word_le_nat_alt word_less_nat_alt split: if_splits)
  then show ?thesis by blast
qed

lemma range_errs_Nil:
  "range_errs sy (l, x, y) = [] \<longleftrightarrow>
     (\<forall>lo hi r s. sy x = Some lo \<longrightarrow> sy y = Some hi \<longrightarrow> region_of lo = Some r \<longrightarrow> region_of hi = Some s
        \<longrightarrow> r = s)"
  by (auto simp: range_errs_def split: option.splits)

lemma symbol_errs_Nil:
  "symbol_errs sy x = [] \<longleftrightarrow> (\<forall>a. sy x = Some a \<longrightarrow> region_of a \<noteq> None)"
  by (auto simp: symbol_errs_def split: option.splits)

lemma walked_in_startup:
  "(l, x, y) \<in> set walked_ranges \<Longrightarrow> x \<in> set startup_symbols \<and> y \<in> set startup_symbols"
  by (auto simp: walked_ranges_def startup_symbols_def)

lemma check_ok_iff:
  "check_startup_ram_invariant sy = Inr () \<longleftrightarrow>
     (\<forall>w \<in> set walked_ranges. range_errs sy w = []) \<and>
     (\<forall>x \<in> set startup_symbols. symbol_errs sy x = [])"
  by (auto simp: check_startup_ram_invariant_def)

text \<open>C10: the startup-RAM check accepts a symbol table exactly when every startup symbol that is present
  (the ends of .bss and .data, the heap and the stack) lies in a RAM bank, one past its end
  included, and every address between the two ends of .bss, and of .data, whichever of them is the
  lower, is mapped memory: the startup loops that zero and copy them cannot reach a gap between
  banks. A single symbol in a gap is rejected though no loop walks there.\<close>

theorem startup_check_exact:
  "check_startup_ram_invariant sy = Inr () \<longleftrightarrow>
     (\<forall>x \<in> set startup_symbols. \<forall>a. sy x = Some a \<longrightarrow> region_of a \<noteq> None) \<and>
     (\<forall>(l, x, y) \<in> set walked_ranges. \<forall>lo hi a. sy x = Some lo \<longrightarrow> sy y = Some hi \<longrightarrow>
        min lo hi \<le> a \<longrightarrow> a < max lo hi \<longrightarrow> ram_mapped a)"
    (is "_ \<longleftrightarrow> ?S \<and> ?W")
proof -
  have key: "range_errs sy (l, x, y) = [] \<longleftrightarrow>
       (\<forall>lo hi a. sy x = Some lo \<longrightarrow> sy y = Some hi \<longrightarrow> min lo hi \<le> a \<longrightarrow> a < max lo hi \<longrightarrow> ram_mapped a)"
    if w: "(l, x, y) \<in> set walked_ranges" and S: ?S for l x y
  proof (cases "sy x = None \<or> sy y = None")
    case True
    then show ?thesis by (auto simp: range_errs_Nil)
  next
    case False
    then obtain lo hi where xy: "sy x = Some lo" "sy y = Some hi" by auto
    with S walked_in_startup [OF w] obtain r s where rs: "region_of lo = Some r" "region_of hi = Some s"
      by blast
    have "r = s \<longleftrightarrow> (\<forall>a. min lo hi \<le> a \<longrightarrow> a < max lo hi \<longrightarrow> ram_mapped a)"
      by (rule linorder_le_cases [of lo hi];
          metis rs same_region_mapped diff_region_unmapped min.absorb1 min.absorb2 max.absorb1 max.absorb2)
    then show ?thesis by (simp add: range_errs_Nil xy rs)
  qed
  have "(\<forall>w \<in> set walked_ranges. range_errs sy w = []) \<longleftrightarrow> ?W" if ?S
    using key [OF _ that] by fastforce
  then show ?thesis unfolding check_ok_iff symbol_errs_Nil by argo
qed

definition dtcm_symbols :: symbols where
  "dtcm_symbols = [''__sdata'' \<mapsto> 0x20000000, ''__edata'' \<mapsto> 0x200005C4, ''__sbss'' \<mapsto> 0x200005C4,
     ''__ebss'' \<mapsto> 0x20002794, ''_stack_start'' \<mapsto> 0x20020000]"

definition dragged_symbols :: symbols where
  "dragged_symbols = [''__sbss'' \<mapsto> 0x200005C4, ''__ebss'' \<mapsto> 0x30000600]"

theorem startup_check_exact_witness:
  "check_startup_ram_invariant dtcm_symbols = Inr () \<and> ram_mapped 0x20001000 \<and>
   check_startup_ram_invariant dragged_symbols \<noteq> Inr () \<and>
   check_startup_ram_invariant [''_stack_start'' \<mapsto> 0x22000000] \<noteq> Inr ()"
proof -
  have ok: "check_startup_ram_invariant dtcm_symbols = Inr ()" by code_simp
  have bad: "check_startup_ram_invariant dragged_symbols \<noteq> Inr ()" by code_simp
  from startup_check_exact [of dtcm_symbols] ok
  have "\<forall>lo hi a. dtcm_symbols ''__sbss'' = Some lo \<longrightarrow> dtcm_symbols ''__ebss'' = Some hi \<longrightarrow>
      min lo hi \<le> a \<longrightarrow> a < max lo hi \<longrightarrow> ram_mapped a" by (simp add: walked_ranges_def)
  from this [rule_format, of "0x200005C4" "0x20002794" "0x20001000"] have "ram_mapped 0x20001000"
    by (simp add: dtcm_symbols_def)
  moreover have "check_startup_ram_invariant [''_stack_start'' \<mapsto> 0x22000000] \<noteq> Inr ()"
    using startup_check_exact [of "[''_stack_start'' \<mapsto> 0x22000000]"]
    by (simp add: startup_symbols_def region_of_code)
  ultimately show ?thesis using ok bad by blast
qed

lemma and_not_mask: "(w :: 'a::len word) AND NOT (mask n) = push_bit n (drop_bit n w)"
  by (rule bit_word_eqI) (auto simp: bit_simps)

text \<open>The two copies of the RAM map agree: an initial stack pointer is accepted by the
  bootloader exactly when the host tool places it in one of its regions; and an accepted
  image leaves the reset handler, Thumb bit set, inside the execute-in-place window.\<close>

theorem plausible_image_exact:
  "is_plausible_image msp reset \<longleftrightarrow>
     region_of (ucast msp) \<noteq> None \<and> odd (unat reset) \<and>
     0x90000000 \<le> unat reset \<and> unat reset < 0x90800000"
proof -
  have lo: "unat (reset AND NOT 1) = 2 * (unat reset div 2)"
  proof -
    have half: "unat reset div 2 < 2147483648" using word32_bound [of reset] by linarith
    have "reset AND NOT 1 = push_bit 1 (drop_bit 1 reset)"
      using and_not_mask [of reset 1] by simp
    then show ?thesis
      using unat_mult_lem [of "drop_bit 1 reset" 2] half
      by (simp add: drop_bit_eq_div unat_div_distrib)
  qed
  have odd: "reset AND 1 = 1 \<longleftrightarrow> odd (unat reset)"
    by (simp add: and_one_eq odd_iff_mod_2_eq_one word_unat_eq_iff unat_mod_distrib) 
  have u: "unat (ucast msp :: u64) = unat msp"
  proof -
    have "unat msp < 2 ^ 64" by (rule order_less_trans [OF word32_bound]) simp
    then show ?thesis by (simp add: unsigned_ucast_eq take_bit_nat_eq_self)
  qed
  have "is_valid_sram msp \<longleftrightarrow> region_of (ucast msp) \<noteq> None"
    using u by (auto simp: is_valid_sram_def region_of_code word_le_nat_alt)
  then show ?thesis
    unfolding is_plausible_image_def is_valid_reset_def odd app_base_def app_end_def
      word_le_nat_alt word_less_nat_alt lo by (auto; presburger)
qed

subsection \<open>ELF to binary\<close>

text \<open>A program header as the parser gives it; \<open>ph_data\<close> is the result of reading its bytes.\<close>

record program_header =
  p_type :: u32
  p_paddr :: u32
  p_filesz :: u32
  ph_data :: "u8 list option"

definition PT_LOAD :: u32 where "PT_LOAD = 1"

datatype elf_error = NoSegments | SegmentData | ElfPanic

text \<open>
  Unsigned 32-bit addition and subtraction of the host binary: a build with overflow checks
  panics, a release build wraps. \<open>chk\<close> says which build it is.
\<close>

definition host_add :: "bool \<Rightarrow> u32 \<Rightarrow> u32 \<Rightarrow> u32 option" where
  "host_add chk a b = (if chk \<and> a + b < a then None else Some (a + b))"

definition host_sub :: "bool \<Rightarrow> u32 \<Rightarrow> u32 \<Rightarrow> u32 option" where
  "host_sub chk a b = (if chk \<and> a < b then None else Some (a - b))"

fun opt_map :: "('a \<Rightarrow> 'b option) \<Rightarrow> 'a list \<Rightarrow> 'b list option" where
  "opt_map f [] = Some []"
| "opt_map f (x # xs) =
     (case f x of None \<Rightarrow> None | Some y \<Rightarrow> map_option ((#) y) (opt_map f xs))"

text \<open>\<open>out[offset..offset + data.len()].copy_from_slice(data)\<close>\<close>

definition copy_into :: "u8 list \<Rightarrow> nat \<Rightarrow> u8 list \<Rightarrow> u8 list option" where
  "copy_into out off data =
     (if off + length data \<le> length out
      then Some (take off out @ data @ drop (off + length data) out) else None)"

fun place_segments :: "bool \<Rightarrow> u32 \<Rightarrow> u8 list \<Rightarrow> program_header list \<Rightarrow> elf_error + u8 list" where
  "place_segments chk base out [] = Inr out"
| "place_segments chk base out (ph # phs) =
     (case ph_data ph of
        None \<Rightarrow> Inl SegmentData
      | Some data \<Rightarrow>
          (case host_sub chk (p_paddr ph) base of
             None \<Rightarrow> Inl ElfPanic
           | Some off \<Rightarrow>
               (case copy_into out (unat off) data of
                  None \<Rightarrow> Inl ElfPanic
                | Some out' \<Rightarrow> place_segments chk base out' phs)))"

definition loadable :: "program_header list \<Rightarrow> program_header list" where
  "loadable phs = filter (\<lambda>ph. p_type ph = PT_LOAD \<and> 0 < p_filesz ph) phs"

definition elf_to_bin :: "bool \<Rightarrow> program_header list \<Rightarrow> elf_error + (u32 \<times> u8 list)" where
  "elf_to_bin chk phs =
     (let headers = loadable phs in
      if headers = [] then Inl NoSegments
      else
        let base = foldr min (map p_paddr headers) (p_paddr (hd headers)) in
        (case opt_map (\<lambda>ph. host_add chk (p_paddr ph) (p_filesz ph)) headers of
           None \<Rightarrow> Inl ElfPanic
         | Some ends \<Rightarrow>
             (case host_sub chk (foldr max ends (hd ends)) base of
                None \<Rightarrow> Inl ElfPanic
              | Some sz \<Rightarrow>
                  (case place_segments chk base (replicate (unat sz) 0xFF) headers of
                     Inl e \<Rightarrow> Inl e
                   | Inr out \<Rightarrow> Inr (base, out)))))"

text \<open>
  Abstract specification: the byte at an address is that of the last segment holding the
  address, and 0xFF, erased flash, where there is none.
\<close>

definition seg_covers :: "program_header \<Rightarrow> nat \<Rightarrow> bool" where
  "seg_covers ph a \<longleftrightarrow> unat (p_paddr ph) \<le> a \<and> a < unat (p_paddr ph) + unat (p_filesz ph)"

fun image_byte :: "program_header list \<Rightarrow> nat \<Rightarrow> u8 \<Rightarrow> u8" where
  "image_byte [] a d = d"
| "image_byte (ph # phs) a d =
     image_byte phs a (if seg_covers ph a then the (ph_data ph) ! (a - unat (p_paddr ph)) else d)"

text \<open>What the parser promises of a well-formed file: the data of a segment is as long as the
  header says. The segments also end inside the address space.\<close>

definition wf_segment :: "program_header \<Rightarrow> bool" where
  "wf_segment ph \<longleftrightarrow>
     (\<exists>d. ph_data ph = Some d \<and> length d = unat (p_filesz ph)) \<and>
     unat (p_paddr ph) + unat (p_filesz ph) < 2 ^ 32"

lemma opt_map_Some: "(\<forall>x \<in> set xs. f x = Some (g x)) \<Longrightarrow> opt_map f xs = Some (map g xs)"
  by (induction xs) auto

lemma foldr_min_le:
  "foldr min xs (z::u32) \<le> z" "x \<in> set xs \<Longrightarrow> foldr min xs z \<le> x"
  by (induction xs) (auto simp: min_le_iff_disj)

lemma foldr_max_ge:
  "(z::u32) \<le> foldr max xs z" "x \<in> set xs \<Longrightarrow> x \<le> foldr max xs z"
  by (induction xs) (auto simp: le_max_iff_disj)

lemma foldr_min_in: "foldr min xs (z::u32) \<in> insert z (set xs)"
  by (induction xs) (auto simp: min_def)

lemma foldr_max_in: "foldr max xs (z::u32) \<in> insert z (set xs)"
  by (induction xs) (auto simp: max_def)

lemma nth_copy_into:
  assumes "copy_into out off data = Some out'" "i < length out"
  shows "length out' = length out"
    "out' ! i = (if off \<le> i \<and> i < off + length data then data ! (i - off) else out ! i)"
  using assms by (auto simp: copy_into_def nth_append min_def split: if_splits)

lemma place_segments_spec:
  assumes "\<forall>ph \<in> set phs. wf_segment ph \<and> base \<le> p_paddr ph \<and>
      unat (p_paddr ph) + unat (p_filesz ph) \<le> unat base + length out"
  shows "\<exists>out'. place_segments chk base out phs = Inr out' \<and> length out' = length out \<and>
      (\<forall>i < length out. out' ! i = image_byte phs (unat base + i) (out ! i))"
  using assms
proof (induction phs arbitrary: out)
  case Nil
  then show ?case by simp
next
  case (Cons ph phs)
  then obtain d where d: "ph_data ph = Some d" "length d = unat (p_filesz ph)"
    and le: "base \<le> p_paddr ph"
    and fit: "unat (p_paddr ph) + unat (p_filesz ph) \<le> unat base + length out"
    by (auto simp: wf_segment_def)
  define off where "off = unat (p_paddr ph) - unat base"
  have sub: "host_sub chk (p_paddr ph) base = Some (p_paddr ph - base)"
    "unat (p_paddr ph - base) = off"
    using le by (auto simp: host_sub_def off_def unat_sub not_less)
  have leq: "unat base \<le> unat (p_paddr ph)" using le by (simp add: word_le_nat_alt)
  then have "off + length d \<le> length out"
    using fit d unfolding off_def by linarith
  then obtain out1 where out1: "copy_into out off d = Some out1"
    by (simp add: copy_into_def)
  have len1: "length out1 = length out"
    using out1 by (auto simp: copy_into_def min_def split: if_splits)
  from Cons.IH [of out1] Cons.prems len1 obtain out' where
    out': "place_segments chk base out1 phs = Inr out'" "length out' = length out"
      "\<forall>i < length out. out' ! i = image_byte phs (unat base + i) (out1 ! i)" by auto
  have "out1 ! i = (if seg_covers ph (unat base + i) then d ! (unat base + i - unat (p_paddr ph))
      else out ! i)" if "i < length out" for i
    using nth_copy_into(2) [OF out1 that] leq d(2) by (auto simp: seg_covers_def off_def add.commute)
  then show ?case using out' d sub out1 by auto
qed

text \<open>C26: converting a well-formed ELF succeeds in every build, starts at the lowest loaded
  physical address and ends at the highest loaded end, and its byte at each offset is that of
  the last loadable segment covering the address, or 0xFF in a gap.\<close>

theorem elf_to_bin_image:
  assumes wf: "\<forall>ph \<in> set (loadable phs). wf_segment ph" and ne: "loadable phs \<noteq> []"
  shows "\<exists>base out. elf_to_bin chk phs = Inr (base, out) \<and>
     base \<in> p_paddr ` set (loadable phs) \<and>
     (\<forall>ph \<in> set (loadable phs). unat base \<le> unat (p_paddr ph) \<and>
        unat (p_paddr ph) + unat (p_filesz ph) \<le> unat base + length out) \<and>
     (\<exists>ph \<in> set (loadable phs). unat (p_paddr ph) + unat (p_filesz ph) = unat base + length out) \<and>
     (\<forall>i < length out. out ! i = image_byte (loadable phs) (unat base + i) 0xFF)"
proof -
  let ?H = "loadable phs" and ?e = "\<lambda>ph. p_paddr ph + p_filesz ph"
  define base where "base = foldr min (map p_paddr ?H) (p_paddr (hd ?H))"
  define e where "e = foldr max (map ?e ?H) (?e (hd ?H))"
  have hd: "hd ?H \<in> set ?H" using ne by simp
  have ue: "unat (?e ph) = unat (p_paddr ph) + unat (p_filesz ph)" if "ph \<in> set ?H" for ph
    using wf that by (simp add: wf_segment_def unat_word_ariths)
  have base_in: "base \<in> p_paddr ` set ?H"
    using foldr_min_in [of "map p_paddr ?H" "p_paddr (hd ?H)"] hd unfolding base_def by auto
  have base_le: "base \<le> p_paddr ph" if "ph \<in> set ?H" for ph
    unfolding base_def by (rule foldr_min_le(2)) (use that in auto)
  have e_in: "e \<in> ?e ` set ?H"
    using foldr_max_in [of "map ?e ?H" "?e (hd ?H)"] hd unfolding e_def by auto
  have e_ge: "?e ph \<le> e" if "ph \<in> set ?H" for ph
    unfolding e_def by (rule foldr_max_ge(2)) (use that in auto)
  have ends: "opt_map (\<lambda>ph. host_add chk (p_paddr ph) (p_filesz ph)) ?H = Some (map ?e ?H)"
    by (rule opt_map_Some) (use ue in \<open>auto simp: host_add_def word_less_nat_alt\<close>)
  have "base \<le> e"
  proof -
    from e_in obtain ph where ph: "ph \<in> set ?H" "e = ?e ph" by auto
    have "p_paddr ph \<le> ?e ph" using ue [OF ph(1)] by (simp add: word_le_nat_alt)
    then show ?thesis using base_le [OF ph(1)] ph(2) by simp
  qed
  then have sub: "host_sub chk e base = Some (e - base)" "unat base + unat (e - base) = unat e"
    by (auto simp: host_sub_def unat_sub word_le_nat_alt not_less)
  have fits: "\<forall>ph \<in> set ?H. wf_segment ph \<and> base \<le> p_paddr ph \<and>
      unat (p_paddr ph) + unat (p_filesz ph) \<le> unat base + length (replicate (unat (e - base)) (0xFF::u8))"
    using wf base_le e_ge ue sub(2) by (auto simp: word_le_nat_alt)
  from place_segments_spec [OF this, of chk] obtain out where
    out: "place_segments chk base (replicate (unat (e - base)) 0xFF) ?H = Inr out"
      "length out = unat (e - base)"
      "\<forall>i < length out. out ! i = image_byte ?H (unat base + i) 0xFF" by auto
  have e: "foldr max (map ?e ?H) (hd (map ?e ?H)) = e" using ne by (simp add: e_def hd_map)
  have "elf_to_bin chk phs = Inr (base, out)"
    unfolding elf_to_bin_def Let_def base_def [symmetric] using ne ends sub(1) out(1) e by simp
  moreover have "\<exists>ph \<in> set ?H. unat (p_paddr ph) + unat (p_filesz ph) = unat base + length out"
    using e_in ue sub(2) out(2) by auto
  ultimately show ?thesis
    using base_in out fits by (auto simp: word_le_nat_alt)
qed

definition two_segments :: "program_header list" where
  "two_segments =
     [\<lparr>p_type = 1, p_paddr = 0x90000004, p_filesz = 2, ph_data = Some [1, 2]\<rparr>,
      \<lparr>p_type = 2, p_paddr = 0, p_filesz = 9, ph_data = None\<rparr>,
      \<lparr>p_type = 1, p_paddr = 0x90000000, p_filesz = 3, ph_data = Some [7, 8, 9]\<rparr>]"

theorem elf_to_bin_image_witness:
  "elf_to_bin True two_segments = Inr (0x90000000, [7, 8, 9, 0xFF, 1, 2]) \<and>
   (\<exists>base out. elf_to_bin True two_segments = Inr (base, out) \<and>
     base \<in> p_paddr ` set (loadable two_segments))"
proof -
  have "\<forall>ph \<in> set (loadable two_segments). wf_segment ph" "loadable two_segments \<noteq> []"
    by (simp_all add: two_segments_def loadable_def PT_LOAD_def wf_segment_def)
  from elf_to_bin_image [OF this, of True]
  have "\<exists>base out. elf_to_bin True two_segments = Inr (base, out) \<and>
     base \<in> p_paddr ` set (loadable two_segments)" by blast
  moreover have "elf_to_bin True two_segments = Inr (0x90000000, [7, 8, 9, 0xFF, 1, 2])"
    by code_simp
  ultimately show ?thesis by blast
qed

subsection \<open>The flash command\<close>

text \<open>
  \<open>parse_hex_u32\<close>. \<open>trim_start_matches\<close> removes the prefix as often as it occurs;
  \<open>u32::from_str_radix(s, 16)\<close> takes an optional leading plus, then at least one digit, and
  reports a value that does not fit. \<open>None\<close> stands for the error message.
\<close>

fun trim_start_matches :: "char \<Rightarrow> char \<Rightarrow> string \<Rightarrow> string" where
  "trim_start_matches p q (a # b # s) =
     (if a = p \<and> b = q then trim_start_matches p q s else a # b # s)"
| "trim_start_matches p q s = s"

definition hex_digit :: "char \<Rightarrow> nat option" where
  "hex_digit c =
     (let n = of_char c :: nat in
      if 48 \<le> n \<and> n \<le> 57 then Some (n - 48)
      else if 97 \<le> n \<and> n \<le> 102 then Some (n - 87)
      else if 65 \<le> n \<and> n \<le> 70 then Some (n - 55) else None)"

fun from_hex_digits :: "nat \<Rightarrow> string \<Rightarrow> nat option" where
  "from_hex_digits acc [] = Some acc"
| "from_hex_digits acc (c # s) =
     (case hex_digit c of
        None \<Rightarrow> None
      | Some d \<Rightarrow> if acc * 16 + d < 2 ^ 32 then from_hex_digits (acc * 16 + d) s else None)"

definition u32_from_hex :: "string \<Rightarrow> u32 option" where
  "u32_from_hex s =
     (let digits = (case s of c # r \<Rightarrow> if c = CHR ''+'' then r else s | [] \<Rightarrow> []) in
      if digits = [] then None else map_option of_nat (from_hex_digits 0 digits))"

definition parse_hex_u32 :: "string \<Rightarrow> u32 option" where
  "parse_hex_u32 s =
     u32_from_hex (trim_start_matches CHR ''0'' CHR ''X'' (trim_start_matches CHR ''0'' CHR ''x'' s))"

text \<open>
  \<open>flash::run\<close>. The environment: building a package, reading an ELF's symbols, converting it,
  and the DFU download, whose result is the command's.
\<close>

record 'p flash_args =
  package :: "string option"
  bootloader :: bool
  elf :: "'p option"
  address :: "u32 option"
  profile :: string
  features :: "string list"
  no_check :: bool

record 'p flash_env =
  build_firmware :: "string \<Rightarrow> string \<Rightarrow> string list \<Rightarrow> 'p option"
  read_symbols :: "'p \<Rightarrow> symbols option"
  elf_bin :: "'p \<Rightarrow> elf_error + (u32 \<times> u8 list)"

datatype flash_error =
    BuildFailed
  | RefusedStartup "startup_err list"
  | ConvertFailed elf_error
  | BootloaderAddress u32
  | AppAddress u32

definition default_package :: "bool \<Rightarrow> string" where
  "default_package b = (if b then ''daisy-boot'' else ''daisy-app-template'')"

text \<open>\<open>Inr (address, img)\<close>: the command goes on to download the image to the address.\<close>

definition flash_run :: "'p flash_env \<Rightarrow> 'p flash_args \<Rightarrow> flash_error + (u32 \<times> u8 list)" where
  "flash_run env args =
     (let elf_supplied = (elf args \<noteq> None) in
      case (case elf args of
              Some p \<Rightarrow> Some p
            | None \<Rightarrow>
                build_firmware env
                  (case package args of Some k \<Rightarrow> k | None \<Rightarrow> default_package (bootloader args))
                  (profile args) (features args)) of
        None \<Rightarrow> Inl BuildFailed
      | Some elf_path \<Rightarrow>
          (case (if no_check args then Inr ()
                 else (case read_symbols env elf_path of
                         Some sy \<Rightarrow> check_startup_ram_invariant sy
                       | None \<Rightarrow> Inr ())) of
             Inl errs \<Rightarrow> Inl (RefusedStartup errs)
           | Inr _ \<Rightarrow>
               (case elf_bin env elf_path of
                  Inl e \<Rightarrow> Inl (ConvertFailed e)
                | Inr (elf_base, img) \<Rightarrow>
                    (let addr = (case address args of Some a \<Rightarrow> a | None \<Rightarrow> elf_base) in
                     if bootloader args \<and> \<not> (0x08000000 \<le> addr \<and> addr \<le> 0x0801FFFF)
                     then Inl (BootloaderAddress addr)
                     else if \<not> bootloader args \<and> \<not> (0x90000000 \<le> addr \<and> addr \<le> 0x907FFFFF)
                       \<and> \<not> elf_supplied
                     then Inl (AppAddress addr)
                     else Inr (addr, img)))))"

text \<open>C30: what the flash command sends to a board: only the image its ELF converts to, never
  one whose readable symbol table breaks the startup check unless told to skip it, a bootloader only
  into internal flash and an application it built itself only into the QSPI window.\<close>

theorem flash_run_safe:
  assumes "flash_run env args = Inr (addr, img)"
  shows "\<exists>p base. elf_bin env p = Inr (base, img) \<and>
     (elf args = Some p \<or> elf args = None) \<and>
     addr = (case address args of Some a \<Rightarrow> a | None \<Rightarrow> base) \<and>
     (\<forall>sy. no_check args \<or> read_symbols env p \<noteq> Some sy \<or> check_startup_ram_invariant sy = Inr ()) \<and>
     (bootloader args \<longrightarrow> 0x08000000 \<le> addr \<and> addr < 0x08020000) \<and>
     (\<not> bootloader args \<and> elf args = None \<longrightarrow> app_base \<le> addr \<and> addr < app_end)"
proof -
  from assms obtain p base where p: "elf_bin env p = Inr (base, img)"
    "elf args = Some p \<or> elf args = None"
    "addr = (case address args of Some a \<Rightarrow> a | None \<Rightarrow> base)"
    "no_check args \<or> read_symbols env p = None \<or>
       (\<exists>sy. read_symbols env p = Some sy \<and> check_startup_ram_invariant sy = Inr ())"
    unfolding flash_run_def Let_def
    by (auto split: option.splits sum.splits prod.splits if_splits)
  moreover have "bootloader args \<longrightarrow> 0x08000000 \<le> addr \<and> addr \<le> 0x0801FFFF"
    "\<not> bootloader args \<and> elf args = None \<longrightarrow> 0x90000000 \<le> addr \<and> addr \<le> 0x907FFFFF"
    using assms unfolding flash_run_def Let_def
    by (auto split: option.splits sum.splits prod.splits if_splits)
  ultimately show ?thesis
    by (intro exI [of _ p] exI [of _ base])
       (auto simp: app_base_def app_end_def word_le_nat_alt word_less_nat_alt)
qed

definition demo_env :: "nat flash_env" where
  "demo_env = \<lparr>build_firmware = (\<lambda>_ _ _. Some 0), read_symbols = (\<lambda>_. Some dtcm_symbols),
     elf_bin = (\<lambda>_. Inr (0x90000000, [1, 2, 3]))\<rparr>"

definition demo_args :: "nat flash_args" where
  "demo_args = \<lparr>package = None, bootloader = False, elf = None, address = None,
     profile = ''release'', features = [], no_check = False\<rparr>"

theorem flash_run_safe_witness:
  "flash_run demo_env demo_args = Inr (0x90000000, [1, 2, 3]) \<and>
   app_base \<le> 0x90000000 \<and> check_startup_ram_invariant dtcm_symbols = Inr () \<and>
   flash_run demo_env (demo_args\<lparr>bootloader := True\<rparr>) = Inl (BootloaderAddress 0x90000000)"
proof -
  have ok: "check_startup_ram_invariant dtcm_symbols = Inr ()" by code_simp
  have run: "flash_run demo_env demo_args = Inr (0x90000000, [1, 2, 3])"
    by (simp add: flash_run_def demo_env_def demo_args_def ok)
  have no: "flash_run demo_env (demo_args\<lparr>bootloader := True\<rparr>) = Inl (BootloaderAddress 0x90000000)"
    by (simp add: flash_run_def demo_env_def demo_args_def ok)
  have a: "\<not> bootloader demo_args" "elf demo_args = None" "\<not> no_check demo_args"
    "\<And>p. read_symbols demo_env p = Some dtcm_symbols"
    by (simp_all add: demo_args_def demo_env_def)
  from flash_run_safe [OF run] a show ?thesis using run no by blast
qed

subsubsection \<open>Printing and parsing addresses\<close>

text \<open>\<open>{:x}\<close> in eight digits, as the tool's own messages print an address.\<close>

definition hex_char :: "nat \<Rightarrow> char" where
  "hex_char d = char_of (if d < 10 then d + 48 else d + 87)"

fun hex_digits :: "nat \<Rightarrow> nat \<Rightarrow> string" where
  "hex_digits 0 n = []"
| "hex_digits (Suc k) n = hex_digits k (n div 16) @ [hex_char (n mod 16)]"

definition hex8 :: "u32 \<Rightarrow> string" where
  "hex8 v = hex_digits 8 (unat v)"

lemma hex_digit_char [simp]: "d < 16 \<Longrightarrow> hex_digit (hex_char d) = Some d"
  by (auto simp: hex_digit_def hex_char_def Let_def)

lemma hex_char_neq: "d < 16 \<Longrightarrow> hex_char d \<noteq> CHR ''+''" "d < 16 \<Longrightarrow> hex_char d \<noteq> CHR ''x''"
  "d < 16 \<Longrightarrow> hex_char d \<noteq> CHR ''X''"
  by (auto simp: hex_char_def dest: arg_cong [where f = "of_char :: char \<Rightarrow> nat"] split: if_splits)

lemma from_hex_digits_append:
  "from_hex_digits acc (s @ t) =
     (case from_hex_digits acc s of None \<Rightarrow> None | Some m \<Rightarrow> from_hex_digits m t)"
  by (induction s arbitrary: acc) (auto split: option.splits)

lemma from_hex_digits_hex_digits:
  "n < 16 ^ k \<Longrightarrow> acc * 16 ^ k + n < 2 ^ 32 \<Longrightarrow>
     from_hex_digits acc (hex_digits k n) = Some (acc * 16 ^ k + n)"
proof (induction k arbitrary: n)
  case 0
  then show ?case by simp
next
  case (Suc k)
  have "acc * 16 ^ k + n div 16 < 2 ^ 32"
    using Suc.prems by (simp add: algebra_simps)
  with Suc have "from_hex_digits acc (hex_digits k (n div 16)) = Some (acc * 16 ^ k + n div 16)"
    by (simp add: less_mult_imp_div_less mult.commute)
  moreover have "(acc * 16 ^ k + n div 16) * 16 + n mod 16 = acc * 16 ^ Suc k + n"
    by (simp add: algebra_simps)
  ultimately show ?case using Suc.prems by (simp add: from_hex_digits_append)
qed

lemma hex_digits_set: "c \<in> set (hex_digits k n) \<Longrightarrow> \<exists>d < 16. c = hex_char d"
  by (induction k arbitrary: n) (auto intro: exI [of _ "_ mod 16"])

lemma length_hex_digits [simp]: "length (hex_digits k n) = k"
  by (induction k arbitrary: n) auto

lemma trim_nop: "q \<notin> set s \<Longrightarrow> trim_start_matches p q s = s"
  by (cases "(p, q, s)" rule: trim_start_matches.cases) auto

text \<open>An address printed in hexadecimal, bare or with either prefix, repeated or not,
  parses back to itself.\<close>

theorem parse_hex_roundtrip:
  assumes "pre \<in> {[], ''0x'', ''0X'', ''0x0x'', ''0x0X''}"
  shows "parse_hex_u32 (pre @ hex8 v) = Some v"
proof -
  have x: "CHR ''x'' \<notin> set (hex8 v)" "CHR ''X'' \<notin> set (hex8 v)" "CHR ''+'' \<notin> set (hex8 v)"
    unfolding hex8_def using hex_digits_set hex_char_neq by metis+
  have trim: "trim_start_matches CHR ''0'' CHR ''x'' (hex8 v) = hex8 v"
    "trim_start_matches CHR ''0'' CHR ''X'' (hex8 v) = hex8 v"
    using x by (simp_all add: trim_nop)
  have pre: "trim_start_matches CHR ''0'' CHR ''X'' (trim_start_matches CHR ''0'' CHR ''x'' (pre @ hex8 v))
      = hex8 v"
    using assms trim by auto
  have len: "length (hex8 v) = 8" by (simp add: hex8_def)
  then obtain c r where cr: "hex8 v = c # r" by (cases "hex8 v") auto
  with x have "c \<noteq> CHR ''+''" by auto
  moreover have "from_hex_digits 0 (hex8 v) = Some (unat v)"
    unfolding hex8_def using from_hex_digits_hex_digits [of "unat v" 8 0] by simp
  ultimately have "u32_from_hex (hex8 v) = Some v"
    by (simp add: u32_from_hex_def cr Let_def)
  then show ?thesis by (simp only: parse_hex_u32_def pre)
qed

theorem parse_hex_roundtrip_witness:
  "parse_hex_u32 ''0x90000000'' = Some 0x90000000 \<and> parse_hex_u32 ''9000_0000'' = None \<and>
   parse_hex_u32 ([] @ hex8 0x08000000) = Some 0x08000000"
proof -
  have "parse_hex_u32 ([] @ hex8 0x08000000) = Some 0x08000000"
    by (rule parse_hex_roundtrip) simp
  then show ?thesis
    by (simp add: parse_hex_u32_def u32_from_hex_def hex_digit_def)
qed

end
