(* ===== verification/Qspi.thy ===== *)
theory Qspi
  imports Prelude
begin

text \<open>
  The QUADSPI driver of the bootloader (daisy-boot/src/qspi.rs) with the two delay routines
  and the errata sequence it uses (daisy-boot/src/main.rs). The peripheral is a parameter, a
  record \<open>hw\<close> of register accesses over an opaque device state: every register read may
  answer anything, so no theorem relies on the hardware being ready. What is written is
  interpreted by \<open>board_hw\<close>, a board whose controller assembles command frames from the
  register writes and whose flash chip (the command state machine of the repository's
  IS25LP064A model) executes them.
\<close>

subsection \<open>The peripheral as the driver sees it\<close>

datatype qreg = QCR | QDCR | QSR | QFCR | QDLR | QCCR | QAR | QABR | QDR

record 's hw =
  hw_read :: "qreg \<Rightarrow> 's \<Rightarrow> u32 \<times> 's"
  hw_write :: "qreg \<Rightarrow> u32 \<Rightarrow> 's \<Rightarrow> 's"
  hw_cycles :: "'s \<Rightarrow> u32 \<times> 's"
  hw_burn :: "u32 \<Rightarrow> 's \<Rightarrow> 's"
  hw_xip :: "u32 \<Rightarrow> 's \<Rightarrow> u8 \<times> 's"
  hw_sysclk :: u32

definition CMD_WRITE_ENABLE :: u8 where "CMD_WRITE_ENABLE = 0x06"
definition CMD_READ_STATUS_REGISTER :: u8 where "CMD_READ_STATUS_REGISTER = 0x05"
definition CMD_WRITE_STATUS_REGISTER :: u8 where "CMD_WRITE_STATUS_REGISTER = 0x01"
definition CMD_PAGE_PROGRAM :: u8 where "CMD_PAGE_PROGRAM = 0x02"
definition CMD_SECTOR_ERASE_4K :: u8 where "CMD_SECTOR_ERASE_4K = 0x20"
definition CMD_FAST_READ_QUAD_IO :: u8 where "CMD_FAST_READ_QUAD_IO = 0xEB"
definition CMD_ENABLE_RESET :: u8 where "CMD_ENABLE_RESET = 0x66"
definition CMD_RESET_MEMORY :: u8 where "CMD_RESET_MEMORY = 0x99"
definition CMD_SET_READ_PARAMETERS :: u8 where "CMD_SET_READ_PARAMETERS = 0xC0"
definition STATUS_QE_BIT :: u8 where "STATUS_QE_BIT = push_bit 6 1"
definition STATUS_WIP_BIT :: u8 where "STATUS_WIP_BIT = push_bit 0 1"
definition READ_PARAMETERS_8_DUMMY :: u8 where "READ_PARAMETERS_8_DUMMY = 0xF0"
definition FSIZE_8MIB :: u32 where "FSIZE_8MIB = 22"
definition CMD_TIMEOUT_US :: u32 where "CMD_TIMEOUT_US = 20000"
definition WIP_TIMEOUT_US :: u32 where "WIP_TIMEOUT_US = 3000000"
definition SECTOR_SIZE :: nat where "SECTOR_SIZE = 4 * 1024"
definition PAGE_SIZE :: nat where "PAGE_SIZE = 256"

lemmas cmd_defs = CMD_WRITE_ENABLE_def CMD_READ_STATUS_REGISTER_def CMD_WRITE_STATUS_REGISTER_def
  CMD_PAGE_PROGRAM_def CMD_SECTOR_ERASE_4K_def CMD_FAST_READ_QUAD_IO_def CMD_ENABLE_RESET_def
  CMD_RESET_MEMORY_def CMD_SET_READ_PARAMETERS_def STATUS_QE_BIT_def STATUS_WIP_BIT_def
  READ_PARAMETERS_8_DUMMY_def

text \<open>The communication-configuration register, field by field as the code sets it; a field the
  code does not set keeps its reset value 0.\<close>

record ccr =
  fmode :: u32
  dmode :: u32
  dcyc :: u32
  absize :: u32
  abmode :: u32
  adsize :: u32
  admode :: u32
  imode :: u32
  instruction :: u8
  sioo :: bool

definition ccr0 :: ccr where
  "ccr0 = \<lparr>fmode = 0, dmode = 0, dcyc = 0, absize = 0, abmode = 0, adsize = 0, admode = 0,
     imode = 0, instruction = 0, sioo = False\<rparr>"

definition ccr_bits :: "ccr \<Rightarrow> u32" where
  "ccr_bits c =
     push_bit 28 (of_bool (sioo c)) OR push_bit 26 (fmode c) OR push_bit 24 (dmode c)
     OR push_bit 18 (dcyc c) OR push_bit 16 (absize c) OR push_bit 14 (abmode c)
     OR push_bit 12 (adsize c) OR push_bit 10 (admode c) OR push_bit 8 (imode c)
     OR ucast (instruction c)"

subsection \<open>Bounded waiting\<close>

definition MAX_ITERS :: u32 where "MAX_ITERS = 400000000"

function spin_loop :: "'s hw \<Rightarrow> ('s \<Rightarrow> bool \<times> 's) \<Rightarrow> u32 \<Rightarrow> u32 \<Rightarrow> u32 \<Rightarrow> 's \<Rightarrow> bool \<times> 's" where
  "spin_loop hw cond start deadline iters s =
     (let (c, s) = cond s in
      if c then (True, s)
      else
        let iters = iters + 1 in
        if MAX_ITERS \<le> iters then (False, s)
        else
          let (now, s) = hw_cycles hw s in
          if deadline \<le> now - start then (False, s)
          else spin_loop hw cond start deadline iters s)"
  by pat_completeness auto

termination
proof (relation "measure (\<lambda>(_, _, _, _, iters, _). unat (MAX_ITERS - 1 - iters))", goal_cases)
  case 1
  then show ?case by simp
next
  case (2 hw cond start deadline iters s)
  then have lt: "iters + 1 < MAX_ITERS" by auto
  then have "MAX_ITERS - 1 - iters \<noteq> 0" by (auto simp: MAX_ITERS_def algebra_simps)
  from unat_minus1_less [OF this] have "unat (MAX_ITERS - 1 - (iters + 1)) < unat (MAX_ITERS - 1 - iters)"
    by (simp only: diff_diff_eq add.assoc)
  then show ?case by (simp only: in_measure split_conv 2)
qed

declare spin_loop.simps [simp del]

definition spin_until :: "'s hw \<Rightarrow> u32 \<Rightarrow> ('s \<Rightarrow> bool \<times> 's) \<Rightarrow> 's \<Rightarrow> bool \<times> 's" where
  "spin_until hw timeout_us cond s =
     (let (start, s) = hw_cycles hw s;
          deadline_cycles = sat_mul timeout_us 400
      in spin_loop hw cond start deadline_cycles 0 s)"

text \<open>Waits on one register bit: busy (SR bit 5) clear, transfer complete (SR bit 1) or FIFO
  threshold (SR bit 2) set, abort (CR bit 1) clear. The result is discarded, as in the code.\<close>

definition reg_bit :: "'s hw \<Rightarrow> qreg \<Rightarrow> nat \<Rightarrow> bool \<Rightarrow> 's \<Rightarrow> bool \<times> 's" where
  "reg_bit hw r n v s = (let (x, s) = hw_read hw r s in (bit x n = v, s))"

definition wait_bit :: "'s hw \<Rightarrow> qreg \<Rightarrow> nat \<Rightarrow> bool \<Rightarrow> 's \<Rightarrow> 's" where
  "wait_bit hw r n v s = snd (spin_until hw CMD_TIMEOUT_US (reg_bit hw r n v) s)"

abbreviation "wait_busy_clear hw \<equiv> wait_bit hw QSR 5 False"
abbreviation "wait_tcf hw \<equiv> wait_bit hw QSR 1 True"
abbreviation "wait_ftf hw \<equiv> wait_bit hw QSR 2 True"
abbreviation "wait_abort_clear hw \<equiv> wait_bit hw QCR 1 False"

definition BURN_CHUNK :: u32 where "BURN_CHUNK = 4096"

function delay_loop :: "'s hw \<Rightarrow> u32 \<Rightarrow> u32 \<Rightarrow> u32 \<Rightarrow> u32 \<Rightarrow> 's \<Rightarrow> 's" where
  "delay_loop hw n start max_iters iters s =
     (let (now, s) = hw_cycles hw s in
      if n \<le> now - start then s
      else if max_iters \<le> iters then s
      else delay_loop hw n start max_iters (iters + 1) (hw_burn hw BURN_CHUNK s))"
  by pat_completeness auto

termination
proof (relation "measure (\<lambda>(_, _, _, max_iters, iters, _). unat max_iters - unat iters)", goal_cases)
  case 1
  then show ?case by simp
next
  case (2 hw n start max_iters iters s)
  then have "iters < max_iters" by (simp add: not_le)
  then have "unat (iters + 1) = unat iters + 1" "unat iters < unat max_iters"
    by (rule unat_plus1, simp add: word_less_nat_alt)
  then show ?case by simp
qed

declare delay_loop.simps [simp del]

definition delay_cycles :: "'s hw \<Rightarrow> u32 \<Rightarrow> 's \<Rightarrow> 's" where
  "delay_cycles hw n s =
     (let (start, s) = hw_cycles hw s;
          max_iters = sat_mul (sat_add (n div BURN_CHUNK) 64) 3
      in delay_loop hw n start max_iters 0 s)"

definition delay_ms :: "'s hw \<Rightarrow> u32 \<Rightarrow> 's \<Rightarrow> 's" where
  "delay_ms hw ms s = delay_cycles hw (sat_mul ms (hw_sysclk hw div 1000)) s"

definition delay_us :: "'s hw \<Rightarrow> u32 \<Rightarrow> 's \<Rightarrow> 's" where
  "delay_us hw us s = delay_cycles hw (sat_mul us (hw_sysclk hw div 1000000)) s"

subsection \<open>Commands\<close>

text \<open>\<open>cr.modify\<close>: read, change, write back. \<open>ctcf\<close> is bit 1 of the flag-clear register.\<close>

definition cr_set :: "'s hw \<Rightarrow> nat \<Rightarrow> 's \<Rightarrow> 's" where
  "cr_set hw n s = (let (v, s) = hw_read hw QCR s in hw_write hw QCR (set_bit n v) s)"

definition clear_tc :: "'s hw \<Rightarrow> 's \<Rightarrow> 's" where
  "clear_tc hw s = hw_write hw QFCR (set_bit 1 0) s"

definition single_byte_command :: "'s hw \<Rightarrow> u8 \<Rightarrow> 's \<Rightarrow> 's" where
  "single_byte_command hw cmd s =
     (let s = hw_write hw QCCR (ccr_bits (ccr0\<lparr>fmode := 0, dmode := 0, admode := 0, imode := 1,
                instruction := cmd\<rparr>)) s;
          s = wait_busy_clear hw s
      in clear_tc hw s)"

definition write_enable :: "'s hw \<Rightarrow> 's \<Rightarrow> 's" where
  "write_enable hw s =
     (let s = hw_write hw QCCR (ccr_bits (ccr0\<lparr>fmode := 0, dmode := 0, admode := 0, imode := 1,
                instruction := CMD_WRITE_ENABLE\<rparr>)) s;
          s = wait_busy_clear hw s
      in clear_tc hw s)"

definition write_status_register :: "'s hw \<Rightarrow> u8 \<Rightarrow> 's \<Rightarrow> 's" where
  "write_status_register hw value s =
     (let s = hw_write hw QDLR 0 s;
          s = hw_write hw QCCR (ccr_bits (ccr0\<lparr>fmode := 0, dmode := 1, admode := 0, imode := 1,
                instruction := CMD_WRITE_STATUS_REGISTER\<rparr>)) s;
          s = hw_write hw QDR (ucast value) s;
          s = wait_busy_clear hw s
      in clear_tc hw s)"

definition set_read_parameters :: "'s hw \<Rightarrow> u8 \<Rightarrow> 's \<Rightarrow> 's" where
  "set_read_parameters hw value s =
     (let s = hw_write hw QDLR 0 s;
          s = hw_write hw QCCR (ccr_bits (ccr0\<lparr>fmode := 0, dmode := 1, admode := 0, imode := 1,
                instruction := CMD_SET_READ_PARAMETERS\<rparr>)) s;
          s = hw_write hw QDR (ucast value) s;
          s = wait_busy_clear hw s
      in clear_tc hw s)"

definition status_register :: "'s hw \<Rightarrow> 's \<Rightarrow> u8 \<times> 's" where
  "status_register hw s =
     (let s = hw_write hw QDLR 0 s;
          s = hw_write hw QCCR (ccr_bits (ccr0\<lparr>fmode := 1, dmode := 1, dcyc := 0, admode := 0,
                imode := 1, instruction := CMD_READ_STATUS_REGISTER\<rparr>)) s;
          s = wait_tcf hw s;
          (value, s) = hw_read hw QDR s
      in (ucast value, clear_tc hw s))"

definition wip_clear :: "'s hw \<Rightarrow> 's \<Rightarrow> bool \<times> 's" where
  "wip_clear hw s = (let (v, s) = status_register hw s in (v AND STATUS_WIP_BIT = 0, s))"

definition wait_while_wip :: "'s hw \<Rightarrow> 's \<Rightarrow> 's" where
  "wait_while_wip hw s = snd (spin_until hw WIP_TIMEOUT_US (wip_clear hw) s)"

definition exit_continuous_read :: "'s hw \<Rightarrow> 's \<Rightarrow> 's" where
  "exit_continuous_read hw s =
     (let s = hw_write hw QDLR 0 s;
          s = hw_write hw QABR 0 s;
          s = hw_write hw QCCR (ccr_bits (ccr0\<lparr>fmode := 1, dmode := 3, dcyc := 6, absize := 0,
                abmode := 3, adsize := 2, admode := 3, imode := 0\<rparr>)) s;
          s = hw_write hw QAR 0 s;
          s = wait_tcf hw s;
          (_, s) = hw_read hw QDR s;
          s = clear_tc hw s;
          s = cr_set hw 1 s
      in wait_abort_clear hw s)"

definition enter_memory_mapped :: "'s hw \<Rightarrow> 's \<Rightarrow> 's" where
  "enter_memory_mapped hw s =
     (let s = exit_continuous_read hw s;
          s = single_byte_command hw CMD_ENABLE_RESET s;
          s = single_byte_command hw CMD_RESET_MEMORY s;
          s = delay_us hw 100 s;
          (sr, s) = status_register hw s;
          s = (if sr AND STATUS_QE_BIT = 0
               then let s = write_enable hw s;
                        s = write_status_register hw STATUS_QE_BIT s
                    in wait_while_wip hw s
               else s);
          s = set_read_parameters hw READ_PARAMETERS_8_DUMMY s;
          s = wait_busy_clear hw s;
          s = hw_write hw QABR 0xA0 s;
          s = hw_write hw QCCR (ccr_bits (ccr0\<lparr>fmode := 3, dmode := 3, dcyc := 6, absize := 0,
                abmode := 3, adsize := 2, admode := 3, imode := 1,
                instruction := CMD_FAST_READ_QUAD_IO, sioo := True\<rparr>)) s
      in delay_ms hw 1 s)"

definition init_memory_mapped :: "'s hw \<Rightarrow> 's \<Rightarrow> 's" where
  "init_memory_mapped hw s =
     (let s = hw_write hw QCR (push_bit 24 7) s;
          s = hw_write hw QDCR (push_bit 16 FSIZE_8MIB OR push_bit 8 2) s;
          s = cr_set hw 0 s
      in enter_memory_mapped hw s)"

text \<open>
  The errata sequence polls BUSY with no bound: it may not return, the value \<open>None\<close>.
\<close>

partial_function (option) busy_wait :: "'s hw \<Rightarrow> 's \<Rightarrow> 's option" where
  "busy_wait hw s =
     (let (v, s) = hw_read hw QSR s in if v AND 0x20 \<noteq> 0 then busy_wait hw s else Some s)"

definition qspi_errata_workaround :: "'s hw \<Rightarrow> 's \<Rightarrow> 's option" where
  "qspi_errata_workaround hw s =
     do {
       s \<leftarrow> busy_wait hw (hw_write hw QCR 0 s);
       let s = hw_write hw QCR 0xFF000001 s;
       let s = hw_write hw QCCR 0x20000000 s;
       let s = hw_write hw QCCR 0x20000000 s;
       let s = hw_write hw QCR 0 s;
       busy_wait hw s
     }"

definition exit_memory_mapped :: "'s hw \<Rightarrow> 's \<Rightarrow> 's option" where
  "exit_memory_mapped hw s =
     (let (saved_cr, s) = hw_read hw QCR s in
      do {
        s \<leftarrow> qspi_errata_workaround hw s;
        let s = hw_write hw QCR (saved_cr AND NOT 2) s;
        let s = cr_set hw 1 s;
        let s = wait_abort_clear hw s;
        Some (hw_write hw QFCR (set_bit 0 (set_bit 1 (set_bit 3 0))) s)
      })"

definition recover_flash_to_single_line :: "'s hw \<Rightarrow> 's \<Rightarrow> 's option" where
  "recover_flash_to_single_line hw s =
     do {
       s \<leftarrow> exit_memory_mapped hw s;
       let s = exit_continuous_read hw s;
       let s = single_byte_command hw CMD_ENABLE_RESET s;
       let s = single_byte_command hw CMD_RESET_MEMORY s;
       Some (delay_us hw 100 s)
     }"

definition erase_sector_4k :: "'s hw \<Rightarrow> u32 \<Rightarrow> 's \<Rightarrow> 's" where
  "erase_sector_4k hw addr s =
     (let s = write_enable hw s;
          s = hw_write hw QCCR (ccr_bits (ccr0\<lparr>fmode := 0, dmode := 0, dcyc := 0, adsize := 2,
                admode := 1, imode := 1, instruction := CMD_SECTOR_ERASE_4K\<rparr>)) s;
          s = hw_write hw QAR addr s;
          s = wait_busy_clear hw s;
          s = clear_tc hw s
      in wait_while_wip hw s)"

fun chunks4 :: "'a list \<Rightarrow> 'a list list" where
  "chunks4 [] = []"
| "chunks4 (x # xs) = take 4 (x # xs) # chunks4 (drop 3 xs)"

text \<open>A chunk copied into a zeroed 4-byte buffer and read as a little-endian word.\<close>

definition chunk_word :: "u8 list \<Rightarrow> u32" where
  "chunk_word ch =
     (let buf = ch @ drop (length ch) [0, 0, 0, 0]
      in u32_from_le (buf ! 0) (buf ! 1) (buf ! 2) (buf ! 3))"

definition push_chunk :: "'s hw \<Rightarrow> u8 list \<Rightarrow> 's \<Rightarrow> 's" where
  "push_chunk hw ch s = hw_write hw QDR (chunk_word ch) (wait_ftf hw s)"

definition program_page :: "'s hw \<Rightarrow> u32 \<Rightarrow> u8 list \<Rightarrow> 's \<Rightarrow> 's option" where
  "program_page hw addr data s =
     (if \<not> length data \<le> PAGE_SIZE then None
      else if data = [] then None
      else if addr AND NOT (of_nat PAGE_SIZE - 1)
           \<noteq> (addr + of_nat (length data) - 1) AND NOT (of_nat PAGE_SIZE - 1) then None
      else
        (let s = write_enable hw s;
             s = hw_write hw QDLR (of_nat (length data - 1)) s;
             s = hw_write hw QCCR (ccr_bits (ccr0\<lparr>fmode := 0, dmode := 1, dcyc := 0, adsize := 2,
                   admode := 1, imode := 1, instruction := CMD_PAGE_PROGRAM\<rparr>)) s;
             s = hw_write hw QAR addr s;
             s = fold (push_chunk hw) (chunks4 data) s;
             s = wait_busy_clear hw s;
             s = clear_tc hw s
         in Some (wait_while_wip hw s)))"

subsection \<open>The board: controller and flash chip\<close>

text \<open>
  The chip's latched state. A command is the byte stream of one chip-select: opcode, then
  its address, mode and data bytes. In continuous-read mode the chip takes the first bytes of any
  stream as an address and its fourth as mode bits; otherwise it decodes the opcode. The software
  reset takes every latched state to its power-on value, the Quad-Enable bit included, as
  \<open>PowerOnReset\<close> of the chip model does; opcodes the driver never sends are ignored.
\<close>

record chip =
  c_mem :: "nat \<Rightarrow> u8"
  c_ax :: bool
  c_wel :: bool
  c_qe :: bool
  c_params :: u8
  c_rsten :: bool

definition flash_size :: nat where "flash_size = 8 * 1024 * 1024"

definition addr24 :: "u8 \<Rightarrow> u8 \<Rightarrow> u8 \<Rightarrow> nat" where
  "addr24 a b c = (unat a * 65536 + unat b * 256 + unat c) mod flash_size"

definition erase_sector_mem :: "nat \<Rightarrow> (nat \<Rightarrow> u8) \<Rightarrow> nat \<Rightarrow> u8" where
  "erase_sector_mem a m = (\<lambda>x. if x div SECTOR_SIZE = a div SECTOR_SIZE then 0xFF else m x)"

fun program_mem :: "nat \<Rightarrow> nat \<Rightarrow> u8 list \<Rightarrow> (nat \<Rightarrow> u8) \<Rightarrow> nat \<Rightarrow> u8" where
  "program_mem a i [] m = m"
| "program_mem a i (b # bs) m =
     (let t = a - a mod PAGE_SIZE + (a mod PAGE_SIZE + i) mod PAGE_SIZE
      in program_mem a (Suc i) bs (m(t := m t AND b)))"

definition chip_op :: "u8 \<Rightarrow> u8 list \<Rightarrow> chip \<Rightarrow> chip" where
  "chip_op op rest c =
     (if op = 0x06 then c\<lparr>c_wel := True\<rparr>
      else if op = 0x99 then
        (if c_rsten c then c\<lparr>c_ax := False, c_wel := False, c_qe := False, c_params := 0xE0\<rparr> else c)
      else if op = 0xC0 then (case rest of v # _ \<Rightarrow> c\<lparr>c_params := v\<rparr> | [] \<Rightarrow> c)
      else if op = 0x01 then
        (if c_wel c then
           (case rest of v # _ \<Rightarrow> c\<lparr>c_qe := bit (last rest) 6, c_wel := False\<rparr>
                       | [] \<Rightarrow> c\<lparr>c_wel := False\<rparr>)
         else c)
      else if op = 0x20 then
        (if c_wel c then
           (case rest of a2 # a1 # a0 # _ \<Rightarrow>
               c\<lparr>c_mem := erase_sector_mem (addr24 a2 a1 a0) (c_mem c), c_wel := False\<rparr>
            | _ \<Rightarrow> c\<lparr>c_wel := False\<rparr>)
         else c)
      else if op = 0x02 then
        (if c_wel c then
           (case rest of a2 # a1 # a0 # bs \<Rightarrow>
               c\<lparr>c_mem := program_mem (addr24 a2 a1 a0) 0 bs (c_mem c), c_wel := False\<rparr>
            | _ \<Rightarrow> c\<lparr>c_wel := False\<rparr>)
         else c)
      else if op = 0xEB then
        (case rest of _ # _ # _ # m # _ \<Rightarrow> c\<lparr>c_ax := (m AND 0xF0 = 0xA0)\<rparr> | _ \<Rightarrow> c)
      else c)"

definition chip_frame :: "u8 list \<Rightarrow> chip \<Rightarrow> chip" where
  "chip_frame bs c =
     (if bs = [] then c
      else if c_ax c then
        (case bs of _ # _ # _ # m # _ \<Rightarrow> c\<lparr>c_ax := (m AND 0xF0 = 0xA0), c_rsten := False\<rparr>
                  | _ \<Rightarrow> c\<lparr>c_rsten := False\<rparr>)
      else
        (chip_op (hd bs) (tl bs) c)\<lparr>c_rsten := (hd bs = 0x66)\<rparr>)"

text \<open>What the chip answers to the status command: of the status byte, its Quad-Enable bit.\<close>

definition chip_status :: "u8 list \<Rightarrow> chip \<Rightarrow> bool option" where
  "chip_status bs c = (if bs = [0x05] \<and> \<not> c_ax c then Some (c_qe c) else None)"

text \<open>
  The controller. A frame starts with the write of the configuration register, or of the
  address register when it has an address phase; a write with a data phase waits for the bytes that
  the data-length register announces. Nothing starts while the controller is disabled, busy
  with a frame, or memory-mapped; disabling or aborting makes it idle. \<open>k_rx\<close> is the Quad-Enable bit of a
  received status byte that waits in the data register; reading the register, the next frame and
  an abort drop it.
\<close>

datatype kmode =
    KIdle
  | KAddr u32
  | KData u32 "u8 list" "u8 list"
  | KMapped u32

record ctl =
  k_cr :: u32
  k_dlr :: u32
  k_abr :: u32
  k_mode :: kmode
  k_rx :: "bool option"

definition fld :: "nat \<Rightarrow> nat \<Rightarrow> u32 \<Rightarrow> u32" where
  "fld off w v = take_bit w (drop_bit off v)"

definition op_bytes :: "u32 \<Rightarrow> u8 list" where
  "op_bytes c = (if fld 8 2 c = 0 then [] else [ucast c])"

definition addr_bytes :: "u32 \<Rightarrow> u8 list" where
  "addr_bytes a = [ucast (drop_bit 16 a), ucast (drop_bit 8 a), ucast a]"

definition mode_bytes :: "u32 \<Rightarrow> u32 \<Rightarrow> u8 list" where
  "mode_bytes c abr = (if fld 14 2 c = 0 then [] else [ucast abr])"

text \<open>After the command (and address) phases: send the frame, or wait for its data.\<close>

definition ctl_phase :: "u32 \<Rightarrow> u8 list \<Rightarrow> ctl \<times> chip \<Rightarrow> ctl \<times> chip" where
  "ctl_phase c bs = (\<lambda>(k, p).
     (if fld 24 2 c \<noteq> 0 \<and> fld 26 2 c = 0 then (k\<lparr>k_mode := KData c bs []\<rparr>, p)
      else (k\<lparr>k_mode := KIdle, k_rx := (if fld 24 2 c \<noteq> 0 then chip_status bs p else None)\<rparr>,
            chip_frame bs p)))"

definition ctl_write :: "qreg \<Rightarrow> u32 \<Rightarrow> ctl \<times> chip \<Rightarrow> ctl \<times> chip" where
  "ctl_write r v = (\<lambda>(k, p).
     (case r of
        QCR \<Rightarrow> (if bit v 0 \<and> \<not> bit v 1 then k\<lparr>k_cr := v\<rparr> else k\<lparr>k_cr := v AND NOT 2, k_mode := KIdle, k_rx := None\<rparr>, p)
      | QDLR \<Rightarrow> (k\<lparr>k_dlr := v\<rparr>, p)
      | QABR \<Rightarrow> (k\<lparr>k_abr := v\<rparr>, p)
      | QCCR \<Rightarrow>
          (if \<not> bit (k_cr k) 0 \<or> k_mode k \<noteq> KIdle then (k, p)
           else if fld 26 2 v = 3 then (k\<lparr>k_mode := KMapped v, k_rx := None\<rparr>, p)
           else if fld 10 2 v \<noteq> 0 then (k\<lparr>k_mode := KAddr v\<rparr>, p)
           else ctl_phase v (op_bytes v @ mode_bytes v (k_abr k)) (k, p))
      | QAR \<Rightarrow>
          (case k_mode k of
             KAddr c \<Rightarrow> ctl_phase c (op_bytes c @ addr_bytes v @ mode_bytes c (k_abr k)) (k, p)
           | _ \<Rightarrow> (k, p))
      | QDR \<Rightarrow>
          (case k_mode k of
             KData c bs ds \<Rightarrow>
               (let ds = ds @ u32_le_bytes v in
                if unat (k_dlr k) + 1 \<le> length ds
                then (k\<lparr>k_mode := KIdle, k_rx := None\<rparr>, chip_frame (bs @ take (unat (k_dlr k) + 1) ds) p)
                else (k\<lparr>k_mode := KData c bs ds\<rparr>, p))
           | _ \<Rightarrow> (k, p))
      | _ \<Rightarrow> (k, p)))"

text \<open>Reading a register: only the data register changes the controller.\<close>

definition ctl_read :: "qreg \<Rightarrow> ctl \<times> chip \<Rightarrow> ctl \<times> chip" where
  "ctl_read r = (\<lambda>(k, p). (if r = QDR then k\<lparr>k_rx := None\<rparr> else k, p))"

definition rx_byte :: "bool option \<Rightarrow> u32 \<Rightarrow> u32" where
  "rx_byte rx v = (case rx of None \<Rightarrow> v | Some True \<Rightarrow> set_bit 6 v | Some False \<Rightarrow> unset_bit 6 v)"

text \<open>
  A memory-mapped read at a bus address: with the quad-read configuration it is a frame to the
  chip; its byte is the flash's when the chip is in quad mode and its dummy cycles agree with
  the configuration (8 before the data: 2 of the mode byte, \<open>dcyc\<close> more), otherwise
  whatever the bus returns.
\<close>

definition dummy_cycles :: "u8 \<Rightarrow> nat" where
  "dummy_cycles p = [6, 4, 8, 10] ! unat (take_bit 2 (drop_bit 3 p))"

definition xip_aligned :: "u32 \<Rightarrow> chip \<Rightarrow> bool" where
  "xip_aligned c p \<longleftrightarrow> c_qe p \<and> ucast c = (0xEB :: u8) \<and> fld 14 2 c \<noteq> 0 \<and>
     dummy_cycles (c_params p) = 2 + unat (fld 18 5 c)"

definition xip_frame :: "u32 \<Rightarrow> u32 \<Rightarrow> u32 \<Rightarrow> chip \<Rightarrow> chip" where
  "xip_frame c abr a p =
     chip_frame ((if c_ax p then [] else op_bytes c) @ addr_bytes a @ mode_bytes c abr) p"

record 'h board =
  b_raw :: 'h
  b_ctl :: ctl
  b_chip :: chip
  b_burnt :: nat

definition on_ctl :: "(ctl \<times> chip \<Rightarrow> ctl \<times> chip) \<Rightarrow> 'h board \<Rightarrow> 'h board" where
  "on_ctl f b = (let (k, p) = f (b_ctl b, b_chip b) in b\<lparr>b_ctl := k, b_chip := p\<rparr>)"

text \<open>The board around an arbitrary raw device: writes reach the controller, the control
  register reads back what was written (its abort bit as the device answers), a status byte
  received is read with the chip's Quad-Enable bit, the rest of what is read is the device's answer.\<close>

definition board_hw :: "'h hw \<Rightarrow> 'h board hw" where
  "board_hw raw =
     \<lparr>hw_read = (\<lambda>r b. let (v, h) = hw_read raw r (b_raw b) in
        ((if r = QCR then (k_cr (b_ctl b) AND NOT 2) OR (v AND 2)
          else if r = QDR then rx_byte (k_rx (b_ctl b)) v else v),
         on_ctl (ctl_read r) (b\<lparr>b_raw := h\<rparr>))),
      hw_write = (\<lambda>r v b. on_ctl (ctl_write r v) (b\<lparr>b_raw := hw_write raw r v (b_raw b)\<rparr>)),
      hw_cycles = (\<lambda>b. let (v, h) = hw_cycles raw (b_raw b) in (v, b\<lparr>b_raw := h\<rparr>)),
      hw_burn = (\<lambda>n b. b\<lparr>b_raw := hw_burn raw n (b_raw b), b_burnt := b_burnt b + unat n\<rparr>),
      hw_xip = (\<lambda>a b. let (v, h) = hw_xip raw a (b_raw b); b = b\<lparr>b_raw := h\<rparr> in
        (case k_mode (b_ctl b) of
           KMapped c \<Rightarrow>
             ((if xip_aligned c (b_chip b) then c_mem (b_chip b) (unat (a AND 0x7FFFFF)) else v),
              b\<lparr>b_chip := xip_frame c (k_abr (b_ctl b)) a (b_chip b)\<rparr>)
         | _ \<Rightarrow> (v, b))),
      hw_sysclk = hw_sysclk raw\<rparr>"

text \<open>What a condition and a reading of the counter keep, a bounded wait keeps; and a wait
  reports success exactly when its last look at the condition was true.\<close>

lemma spin_loop_keeps:
  "(\<And>s. P s \<Longrightarrow> P (snd (cond s))) \<Longrightarrow> (\<And>s. P s \<Longrightarrow> P (snd (hw_cycles hw s))) \<Longrightarrow> P s \<Longrightarrow>
     P (snd (spin_loop hw cond start deadline iters s))"
proof (induction hw cond start deadline iters s rule: spin_loop.induct)
  case (1 hw cond start deadline iters s)
  obtain c s1 where c: "cond s = (c, s1)" by fastforce
  obtain now s2 where n: "hw_cycles hw s1 = (now, s2)" by fastforce
  have P1: "P s1" using "1.prems"(1) [OF "1.prems"(3)] c by simp
  have P2: "P s2" using "1.prems"(2) [OF P1] n by simp
  show ?case
    unfolding spin_loop.simps [of hw cond start deadline iters s]
    using P1 P2 "1.IH" [OF c [symmetric] refl _ refl _ n [symmetric] refl _ "1.prems"(1,2)] c n
    by (auto simp: Let_def)
qed

lemma spin_until_keeps:
  "(\<And>s. P s \<Longrightarrow> P (snd (cond s))) \<Longrightarrow> (\<And>s. P s \<Longrightarrow> P (snd (hw_cycles hw s))) \<Longrightarrow> P s \<Longrightarrow>
     P (snd (spin_until hw t cond s))"
  unfolding spin_until_def Let_def
  by (metis (no_types, lifting) case_prod_unfold spin_loop_keeps)

lemma delay_loop_keeps:
  "(\<And>s n. P s \<Longrightarrow> P (hw_burn hw n s)) \<Longrightarrow> (\<And>s. P s \<Longrightarrow> P (snd (hw_cycles hw s))) \<Longrightarrow> P s \<Longrightarrow>
     P (delay_loop hw n start m i s)"
proof (induction hw n start m i s rule: delay_loop.induct)
  case (1 hw n start m i s)
  obtain now s2 where c: "hw_cycles hw s = (now, s2)" by fastforce
  have P2: "P s2" using "1.prems"(2) [OF "1.prems"(3)] c by simp
  show ?case
    unfolding delay_loop.simps [of hw n start m i s]
    using P2 "1.IH" [OF c [symmetric] refl _ _ "1.prems"(1,2)] "1.prems"(1) [OF P2] c
    by (auto simp: Let_def)
qed

subsection \<open>The contract of a board\<close>

text \<open>
  What the driver's correctness needs of a board with a view of its controller and chip:
  writes act on the view as \<open>ctl_write\<close>, reads as \<open>ctl_read\<close>, nothing else does; the control register
  reads back, and a received status byte has the Quad-Enable bit the chip sent. Nothing is
  promised of the controller's status register, the cycle counter or the other data read.
  \<open>xip_ccr\<close> is the configuration of the memory-mapped read.
\<close>

definition xip_ccr :: u32 where
  "xip_ccr = ccr_bits (ccr0\<lparr>fmode := 3, dmode := 3, dcyc := 6, absize := 0,
                abmode := 3, adsize := 2, admode := 3, imode := 1,
                instruction := CMD_FAST_READ_QUAD_IO, sioo := True\<rparr>)"

definition ready :: "ctl \<Rightarrow> bool" where
  "ready k \<longleftrightarrow> bit (k_cr k) 0 \<and> \<not> bit (k_cr k) 1 \<and> k_mode k = KIdle"

definition recovered :: "chip \<Rightarrow> chip" where
  "recovered p = p\<lparr>c_ax := False, c_wel := False, c_qe := False, c_params := 0xE0, c_rsten := False\<rparr>"

locale qspi_board =
  fixes hw :: "'s hw" and view :: "'s \<Rightarrow> ctl \<times> chip"
  assumes read_view: "view (snd (hw_read hw r s)) = ctl_read r (view s)"
    and write_view: "view (hw_write hw r v s) = ctl_write r v (view s)"
    and cycles_view: "view (snd (hw_cycles hw s)) = view s"
    and burn_view: "view (hw_burn hw n s) = view s"
    and cr_read: "fst (hw_read hw QCR s) AND NOT 2 = k_cr (fst (view s)) AND NOT 2"
    and dr_read: "k_rx (fst (view s)) = Some b \<Longrightarrow> bit (fst (hw_read hw QDR s)) 6 = b"
begin

lemma readD: "hw_read hw r s = (v, s') \<Longrightarrow> r \<noteq> QDR \<Longrightarrow> view s' = view s"
  using read_view [of r s] by (simp add: ctl_read_def split: prod.splits)

lemma cyclesD: "hw_cycles hw s = (v, s') \<Longrightarrow> view s' = view s"
  using cycles_view [of s] by simp

lemma wait_bit_view [simp]: "r \<noteq> QDR \<Longrightarrow> view (wait_bit hw r n v s) = view s"
  unfolding wait_bit_def
  by (rule spin_until_keeps [where P = "\<lambda>s'. view s' = view s"])
     (auto simp: reg_bit_def cycles_view split: prod.splits dest: readD)

text \<open>The driver's state between commands: the controller enabled and idle, and the chip \<open>p\<close>.\<close>

definition rdy :: "'s \<Rightarrow> chip \<Rightarrow> bool" where
  "rdy s p \<longleftrightarrow> (\<exists>k. view s = (k, p) \<and> ready k)"

lemma rdy_wait [simp]:
  "rdy (wait_bit hw QSR n v s) p = rdy s p" "rdy (wait_bit hw QCR n v s) p = rdy s p"
  by (simp_all add: rdy_def)

lemma rdy_read_snd [simp]: "rdy s p \<Longrightarrow> rdy (snd (hw_read hw r s)) p"
  by (auto simp: rdy_def ready_def read_view ctl_read_def)

lemma rdy_FCR [simp]: "rdy (hw_write hw QFCR v s) p = rdy s p"
  by (auto simp: rdy_def write_view ctl_write_def split: prod.splits)

lemma clear_tc_view [simp]: "view (clear_tc hw s) = view s"
  by (cases "view s") (simp add: clear_tc_def write_view ctl_write_def)

lemma rdy_clear_tc [simp]: "rdy (clear_tc hw s) p = rdy s p"
  by (simp add: clear_tc_def)

lemma rdy_DLR [simp]: "rdy s p \<Longrightarrow> rdy (hw_write hw QDLR v s) p"
  by (auto simp: rdy_def ready_def write_view ctl_write_def)

lemma rdy_ABR [simp]: "rdy s p \<Longrightarrow> rdy (hw_write hw QABR v s) p"
  by (auto simp: rdy_def ready_def write_view ctl_write_def)

lemma rdy_DCR [simp]: "rdy s p \<Longrightarrow> rdy (hw_write hw QDCR v s) p"
  by (auto simp: rdy_def ready_def write_view ctl_write_def)

lemma rdy_cmd:
  assumes "rdy s p" "ucast v = op" "fld 26 2 v \<noteq> 3" "fld 10 2 v = 0"
    "fld 24 2 v = 0 \<or> fld 26 2 v \<noteq> 0" "fld 14 2 v = 0" "fld 8 2 v \<noteq> 0"
  shows "rdy (hw_write hw QCCR v s) (chip_frame [op] p)"
  using assms by (auto simp: rdy_def ready_def write_view ctl_write_def ctl_phase_def op_bytes_def
      mode_bytes_def)

lemma rdy_single_byte_command:
  "rdy s p \<Longrightarrow> cmd = CMD_ENABLE_RESET \<or> cmd = CMD_RESET_MEMORY \<Longrightarrow>
     rdy (single_byte_command hw cmd s) (chip_frame [cmd] p)"
  unfolding single_byte_command_def Let_def rdy_clear_tc rdy_wait
  by (rule rdy_cmd) (auto simp: ccr_bits_def ccr0_def fld_def cmd_defs)

lemma rdy_write_enable: "rdy s p \<Longrightarrow> rdy (write_enable hw s) (chip_frame [6] p)"
  unfolding write_enable_def Let_def rdy_clear_tc rdy_wait
  by (rule rdy_cmd) (auto simp: ccr_bits_def ccr0_def fld_def cmd_defs)

lemma chip_rdsr: "chip_frame [5] p = p\<lparr>c_rsten := False\<rparr>"
  by (simp add: chip_frame_def chip_op_def)

lemma status_command:
  assumes "rdy s p" "ucast c = (5 :: u8)" "fld 26 2 c = 1" "fld 10 2 c = 0" "fld 24 2 c \<noteq> 0"
    "fld 14 2 c = 0" "fld 8 2 c \<noteq> 0"
  shows "\<exists>k. view (hw_write hw QCCR c s) = (k\<lparr>k_rx := chip_status [5] p\<rparr>, p\<lparr>c_rsten := False\<rparr>) \<and> ready k"
proof -
  obtain k where k: "view s = (k, p)" "ready k" using assms(1) by (auto simp: rdy_def)
  have "view (hw_write hw QCCR c s) = ((k\<lparr>k_mode := KIdle\<rparr>)\<lparr>k_rx := chip_status [5] p\<rparr>, p\<lparr>c_rsten := False\<rparr>)"
    using k assms(2-) by (simp add: write_view ctl_write_def ctl_phase_def op_bytes_def mode_bytes_def
        ready_def chip_rdsr)
  then show ?thesis using k(2) by (intro exI [of _ "k\<lparr>k_mode := KIdle\<rparr>"]) (simp add: ready_def)
qed

lemma rdy_status_register:
  assumes "rdy s p" "status_register hw s = (v, s')"
  shows "rdy s' (p\<lparr>c_rsten := False\<rparr>)" "\<not> c_ax p \<Longrightarrow> bit v 6 \<longleftrightarrow> c_qe p"
proof -
  define c where "c = ccr_bits (ccr0\<lparr>fmode := 1, dmode := 1, dcyc := 0, admode := 0,
                imode := 1, instruction := CMD_READ_STATUS_REGISTER\<rparr>)"
  define s1 where "s1 = wait_tcf hw (hw_write hw QCCR c (hw_write hw QDLR 0 s))"
  have "\<exists>k. view (hw_write hw QCCR c (hw_write hw QDLR 0 s)) =
      (k\<lparr>k_rx := chip_status [5] p\<rparr>, p\<lparr>c_rsten := False\<rparr>) \<and> ready k"
    unfolding c_def
    by (rule status_command) (auto simp: assms(1) ccr_bits_def ccr0_def fld_def cmd_defs)
  then obtain k where k: "view s1 = (k\<lparr>k_rx := chip_status [5] p\<rparr>, p\<lparr>c_rsten := False\<rparr>)" "ready k"
    by (auto simp: s1_def)
  have s': "s' = clear_tc hw (snd (hw_read hw QDR s1))" "v = ucast (fst (hw_read hw QDR s1))"
    using assms(2) by (auto simp: status_register_def c_def s1_def Let_def split: prod.splits)
  show "rdy s' (p\<lparr>c_rsten := False\<rparr>)"
    unfolding s'(1) rdy_clear_tc using k by (intro rdy_read_snd) (auto simp: rdy_def ready_def)
  show "bit v 6 \<longleftrightarrow> c_qe p" if "\<not> c_ax p"
    using dr_read [of s1 "c_qe p"] that by (simp add: k s'(2) chip_status_def bit_simps)
qed

text \<open>A one-byte register write: length 0, the command, one data word.\<close>

lemma rdy_write_byte:
  assumes "rdy s p" "ucast v = op" "fld 26 2 v = 0" "fld 10 2 v = 0" "fld 24 2 v \<noteq> 0"
    "fld 14 2 v = 0" "fld 8 2 v \<noteq> 0"
  shows "rdy (hw_write hw QDR (ucast b) (hw_write hw QCCR v (hw_write hw QDLR 0 s)))
    (chip_frame [op, b] p)"
proof -
  have "ucast (ucast b :: u32) = b"
    by (rule bit_word_eqI) (auto simp: bit_simps)
  then show ?thesis
    using assms by (auto simp: rdy_def ready_def write_view ctl_write_def ctl_phase_def op_bytes_def
        mode_bytes_def u32_le_bytes_def Let_def)
qed

lemma rdy_write_status_register:
  "rdy s p \<Longrightarrow> rdy (write_status_register hw v s) (chip_frame [1, v] p)"
  unfolding write_status_register_def Let_def rdy_clear_tc rdy_wait
  by (rule rdy_write_byte) (auto simp: ccr_bits_def ccr0_def fld_def cmd_defs)

lemma rdy_set_read_parameters:
  "rdy s p \<Longrightarrow> rdy (set_read_parameters hw v s) (chip_frame [0xC0, v] p)"
  unfolding set_read_parameters_def Let_def rdy_clear_tc rdy_wait
  by (rule rdy_write_byte) (auto simp: ccr_bits_def ccr0_def fld_def cmd_defs)

lemma rdy_wait_while_wip: "rdy s p \<Longrightarrow> \<not> c_rsten p \<Longrightarrow> rdy (wait_while_wip hw s) p"
proof -
  assume s: "rdy s p" and p: "\<not> c_rsten p"
  then have eq: "p\<lparr>c_rsten := False\<rparr> = p" by simp
  have "rdy (snd (wip_clear hw s')) p" if "rdy s' p" for s'
    using rdy_status_register [OF that] by (auto simp: wip_clear_def eq split: prod.splits)
  moreover have "rdy (snd (hw_cycles hw s')) p" if "rdy s' p" for s'
    using that by (simp add: rdy_def cycles_view)
  ultimately show ?thesis
    unfolding wait_while_wip_def using s by (rule spin_until_keeps)
qed

lemma delay_view [simp]: "view (delay_cycles hw n s) = view s"
  unfolding delay_cycles_def Let_def
  by (auto split: prod.splits dest: cyclesD
      intro!: delay_loop_keeps [where P = "\<lambda>s'. view s' = view s"] simp: cycles_view burn_view)

lemma rdy_delay [simp]: "rdy (delay_us hw n s) p = rdy s p" "rdy (delay_ms hw n s) p = rdy s p"
  by (simp_all add: rdy_def delay_us_def delay_ms_def)

lemma cr_set_abort_view:
  "view s = (k, p) \<Longrightarrow> view (cr_set hw 1 s) = (k\<lparr>k_cr := k_cr k AND NOT 2, k_mode := KIdle, k_rx := None\<rparr>, p)"
proof -
  assume s: "view s = (k, p)"
  obtain v s' where r: "hw_read hw QCR s = (v, s')" by fastforce
  have "set_bit 1 v AND NOT 2 = v AND NOT 2"
    by (rule bit_word_eqI) (auto simp: bit_simps)
  moreover have "v AND NOT 2 = k_cr k AND NOT 2"
    using cr_read [of s] r s by simp
  ultimately show ?thesis
    using readD [OF r] s by (simp add: cr_set_def r write_view ctl_write_def bit_simps)
qed

lemma rdy_exit_continuous_read:
  assumes "rdy s p"
  shows "rdy (exit_continuous_read hw s) (p\<lparr>c_ax := False, c_rsten := False\<rparr>)"
proof -
  define c where "c = ccr_bits (ccr0\<lparr>fmode := 1, dmode := 3, dcyc := 6, absize := 0,
                abmode := 3, adsize := 2, admode := 3, imode := 0\<rparr>)"
  have f: "fld 26 2 c = 1" "fld 10 2 c = 3" "fld 8 2 c = 0" "fld 14 2 c = 3" "fld 24 2 c = 3"
    by (simp_all add: c_def ccr_bits_def ccr0_def fld_def)
  obtain k where k: "view s = (k, p)" "ready k" using assms by (auto simp: rdy_def)
  define s1 where "s1 = hw_write hw QAR 0 (hw_write hw QCCR c (hw_write hw QABR 0 (hw_write hw QDLR 0 s)))"
  have fr: "chip_frame [0, 0, 0, 0] p = p\<lparr>c_ax := False, c_rsten := False\<rparr>"
    by (simp add: chip_frame_def chip_op_def)
  have "view s1 = (k\<lparr>k_dlr := 0, k_abr := 0, k_mode := KIdle, k_rx := None\<rparr>, p\<lparr>c_ax := False, c_rsten := False\<rparr>)"
    using k f by (simp add: s1_def write_view ctl_write_def ready_def ctl_phase_def op_bytes_def
        addr_bytes_def mode_bytes_def fr chip_status_def)
  then have v2: "view (clear_tc hw (snd (hw_read hw QDR (wait_tcf hw s1)))) =
      (k\<lparr>k_dlr := 0, k_abr := 0, k_mode := KIdle, k_rx := None\<rparr>, p\<lparr>c_ax := False, c_rsten := False\<rparr>)"
    by (simp add: clear_tc_def write_view ctl_write_def read_view ctl_read_def)
  have "exit_continuous_read hw s =
      wait_abort_clear hw (cr_set hw 1 (clear_tc hw (snd (hw_read hw QDR (wait_tcf hw s1)))))"
    by (simp add: exit_continuous_read_def s1_def c_def Let_def case_prod_unfold)
  then show ?thesis
    using cr_set_abort_view [OF v2] k(2) by (simp add: rdy_def ready_def bit_simps)
qed

lemma chip_reset:
  "chip_frame [0x99] (chip_frame [0x66] (p\<lparr>c_ax := False, c_rsten := False\<rparr>)) = recovered p"
  by (simp add: chip_frame_def chip_op_def recovered_def)

lemma rdy_soft_reset:
  assumes "rdy s p"
  shows "rdy (single_byte_command hw CMD_RESET_MEMORY (single_byte_command hw CMD_ENABLE_RESET
     (exit_continuous_read hw s))) (recovered p)"
  using rdy_single_byte_command [OF rdy_single_byte_command [OF rdy_exit_continuous_read [OF assms],
      of CMD_ENABLE_RESET], of CMD_RESET_MEMORY]
  by (simp add: chip_reset cmd_defs)

text \<open>Entering memory-mapped mode: the chip reset, quad mode on, its dummy cycles set, and the
  controller mapped with the quad-read configuration.\<close>

definition mapped :: "'s \<Rightarrow> chip \<Rightarrow> bool" where
  "mapped s p \<longleftrightarrow> (\<exists>k. view s = (k\<lparr>k_mode := KMapped xip_ccr\<rparr>, p) \<and> ready k \<and> k_abr k = 0xA0)"

abbreviation quad_chip :: "chip \<Rightarrow> chip" where
  "quad_chip p \<equiv> (recovered p)\<lparr>c_params := 0xF0, c_qe := True\<rparr>"

lemma enter_memory_mapped_mapped:
  assumes "rdy s p"
  shows "mapped (enter_memory_mapped hw s) (quad_chip p)"
proof -
  define s1 where "s1 = delay_us hw 100 (single_byte_command hw CMD_RESET_MEMORY
      (single_byte_command hw CMD_ENABLE_RESET (exit_continuous_read hw s)))"
  have s1: "rdy s1 (recovered p)" unfolding s1_def using rdy_soft_reset [OF assms] by simp
  obtain sr s2 where sr: "status_register hw s1 = (sr, s2)" by fastforce
  have "\<not> bit sr 6"
    using rdy_status_register(2) [OF s1 sr] by (simp add: recovered_def)
  then have "sr AND STATUS_QE_BIT = 0"
    using and_exp_eq_0_iff_not_bit [of sr 6] by (simp add: STATUS_QE_BIT_def)
  have eq: "(recovered p)\<lparr>c_rsten := False\<rparr> = recovered p" by (simp add: recovered_def)
  have s2: "rdy s2 (recovered p)"
    using rdy_status_register(1) [OF s1 sr] by (simp add: eq)
  define s3 where "s3 = wait_while_wip hw (write_status_register hw STATUS_QE_BIT (write_enable hw s2))"
  have fr: "chip_frame [1, STATUS_QE_BIT] (chip_frame [6] (recovered p)) = (recovered p)\<lparr>c_qe := True\<rparr>"
    by (simp add: chip_frame_def chip_op_def recovered_def STATUS_QE_BIT_def bit_simps)
  have "rdy (write_status_register hw STATUS_QE_BIT (write_enable hw s2)) ((recovered p)\<lparr>c_qe := True\<rparr>)"
    using rdy_write_status_register [OF rdy_write_enable [OF s2], of STATUS_QE_BIT] by (simp add: fr)
  then have s3: "rdy s3 ((recovered p)\<lparr>c_qe := True\<rparr>)"
    unfolding s3_def by (rule rdy_wait_while_wip) (simp add: recovered_def)
  define s4 where "s4 = hw_write hw QABR 0xA0 (wait_busy_clear hw (set_read_parameters hw
      READ_PARAMETERS_8_DUMMY s3))"
  have fr4: "chip_frame [0xC0, READ_PARAMETERS_8_DUMMY] ((recovered p)\<lparr>c_qe := True\<rparr>) = quad_chip p"
    by (simp add: chip_frame_def chip_op_def recovered_def READ_PARAMETERS_8_DUMMY_def)
  have "rdy (wait_busy_clear hw (set_read_parameters hw READ_PARAMETERS_8_DUMMY s3)) (quad_chip p)"
    using rdy_set_read_parameters [OF s3, of READ_PARAMETERS_8_DUMMY] by (simp add: fr4)
  then obtain k where k: "view s4 = (k, quad_chip p)" "ready k" "k_abr k = 0xA0"
    unfolding s4_def by (auto simp: rdy_def ready_def write_view ctl_write_def)
  have "enter_memory_mapped hw s = delay_ms hw 1 (hw_write hw QCCR xip_ccr s4)"
    by (simp only: enter_memory_mapped_def s1_def [symmetric] sr s3_def s4_def xip_ccr_def Let_def
         prod.case \<open>sr AND STATUS_QE_BIT = 0\<close> if_True simp_thms)
  moreover have "fld 26 2 xip_ccr = 3"
    by (simp add: xip_ccr_def ccr_bits_def ccr0_def fld_def cmd_defs)
  then have "view (hw_write hw QCCR xip_ccr s4) = (k\<lparr>k_mode := KMapped xip_ccr, k_rx := None\<rparr>, quad_chip p)"
    using k by (simp add: write_view ctl_write_def ready_def)
  ultimately have "view (enter_memory_mapped hw s) =
      ((k\<lparr>k_rx := None\<rparr>)\<lparr>k_mode := KMapped xip_ccr\<rparr>, quad_chip p)"
    by (simp only: delay_ms_def delay_view) simp
  then show ?thesis
    unfolding mapped_def using k(2,3) by (intro exI [of _ "k\<lparr>k_rx := None\<rparr>"]) (simp add: ready_def)
qed

text \<open>Recovering from any mode, memory-mapped reads in progress included, when it returns.\<close>

lemma busy_wait_view_aux: "busy_wait h s = Some s' \<Longrightarrow> h = hw \<longrightarrow> view s' = view s"
proof (rule busy_wait.raw_induct [where P = "\<lambda>h s s'. h = hw \<longrightarrow> view s' = view s"])
  fix bw h s s'
  assume IH: "\<And>h s s'. bw h s = Some s' \<Longrightarrow> h = hw \<longrightarrow> view s' = view s"
    and step: "(let (v, s) = hw_read h QSR s in if v AND 0x20 \<noteq> 0 then bw h s else Some s) = Some s'"
  obtain v s1 where r: "hw_read h QSR s = (v, s1)" by fastforce
  then have "h = hw \<Longrightarrow> view s1 = view s" using readD by simp
  then show "h = hw \<longrightarrow> view s' = view s"
    using IH [of h s1 s'] step r by (auto split: if_splits)
qed

lemma busy_wait_view: "busy_wait hw s = Some s' \<Longrightarrow> view s' = view s"
  using busy_wait_view_aux by blast

lemma chip_frame_Nil [simp]: "chip_frame [] p = p"
  by (simp add: chip_frame_def)

lemma errata_view:
  assumes "view s = (k, p)" "qspi_errata_workaround hw s = Some s'"
  shows "view s' = (k\<lparr>k_cr := 0, k_mode := KIdle, k_rx := None\<rparr>, p)"
proof -
  obtain s1 where s1: "busy_wait hw (hw_write hw QCR 0 s) = Some s1"
    and s': "busy_wait hw (hw_write hw QCR 0 (hw_write hw QCCR 0x20000000
      (hw_write hw QCCR 0x20000000 (hw_write hw QCR 0xFF000001 s1)))) = Some s'"
    using assms(2) by (auto simp: qspi_errata_workaround_def split: Option.bind_splits)
  have "view s1 = (k\<lparr>k_cr := 0, k_mode := KIdle, k_rx := None\<rparr>, p)"
    using busy_wait_view [OF s1] assms(1) by (simp add: write_view ctl_write_def)
  then show ?thesis
    using busy_wait_view [OF s'] by (simp add: write_view ctl_write_def ctl_phase_def op_bytes_def
        mode_bytes_def fld_def)
qed

lemma exit_memory_mapped_rdy:
  assumes "view s = (k, p)" "bit (k_cr k) 0" "exit_memory_mapped hw s = Some s'"
  shows "rdy s' p"
proof -
  obtain v s0 where v: "hw_read hw QCR s = (v, s0)" by fastforce
  obtain s1 where s1: "qspi_errata_workaround hw s0 = Some s1"
    and s': "s' = hw_write hw QFCR (set_bit 0 (set_bit 1 (set_bit 3 0)))
      (wait_abort_clear hw (cr_set hw 1 (hw_write hw QCR (v AND NOT 2) s1)))"
    using assms(3) v by (auto simp: exit_memory_mapped_def split: Option.bind_splits)
  have v2: "v AND NOT 2 = k_cr k AND NOT 2"
    using cr_read [of s] v assms(1) by simp
  have b: "bit (v AND NOT 2) 0" "\<not> bit (v AND NOT 2) 1"
    using assms(2) unfolding v2 by (simp_all add: bit_simps)
  have "view s1 = (k\<lparr>k_cr := 0, k_mode := KIdle, k_rx := None\<rparr>, p)"
    by (rule errata_view [OF _ s1]) (simp add: readD [OF v] assms(1))
  then have "view (hw_write hw QCR (v AND NOT 2) s1) = (k\<lparr>k_cr := v AND NOT 2, k_mode := KIdle, k_rx := None\<rparr>, p)"
    using b by (simp add: write_view ctl_write_def)
  from cr_set_abort_view [OF this] b show ?thesis
    unfolding s' rdy_FCR rdy_wait by (simp add: rdy_def ready_def bit_simps)
qed

lemma recover_rdy:
  assumes "view s = (k, p)" "bit (k_cr k) 0" "recover_flash_to_single_line hw s = Some s'"
  shows "rdy s' (recovered p)"
proof -
  obtain s1 where s1: "exit_memory_mapped hw s = Some s1"
    and s': "s' = delay_us hw 100 (single_byte_command hw CMD_RESET_MEMORY
      (single_byte_command hw CMD_ENABLE_RESET (exit_continuous_read hw s1)))"
    using assms(3) by (auto simp: recover_flash_to_single_line_def split: Option.bind_splits)
  show ?thesis
    unfolding s' using rdy_soft_reset [OF exit_memory_mapped_rdy [OF assms(1,2) s1]] by simp
qed

text \<open>Erasing and programming a chip that is out of continuous mode.\<close>

lemma addr24_bytes: "addr24 (ucast (drop_bit 16 a)) (ucast (drop_bit 8 a)) (ucast (a :: u32))
    = unat a mod flash_size"
proof -
  have "unat (ucast (drop_bit 16 a) :: u8) = unat a div 65536 mod 256"
    "unat (ucast (drop_bit 8 a) :: u8) = unat a div 256 mod 256"
    "unat (ucast a :: u8) = unat a mod 256"
    by (simp_all add: unsigned_ucast_eq take_bit_eq_mod unsigned_drop_bit_eq drop_bit_eq_div
        unat_div_distrib)
  moreover have "(n div 65536 mod 256) * 65536 + (n div 256 mod 256) * 256 + n mod 256 = n mod 16777216"
    for n :: nat
    using mod_mult2_eq [of n 256 65536] mod_mult2_eq [of "n div 256" 256 256]
    by (simp add: div_mult2_eq [symmetric])
  moreover have "unat a mod 16777216 mod 8388608 = unat a mod 8388608"
    by (rule mod_mod_cancel) simp
  ultimately show ?thesis
    unfolding addr24_def flash_size_def by simp
qed

definition erased_sector :: "nat \<Rightarrow> chip \<Rightarrow> chip" where
  "erased_sector a p = p\<lparr>c_mem := erase_sector_mem a (c_mem p), c_wel := False, c_rsten := False\<rparr>"

definition programmed :: "nat \<Rightarrow> u8 list \<Rightarrow> chip \<Rightarrow> chip" where
  "programmed a ds p = p\<lparr>c_mem := program_mem a 0 ds (c_mem p), c_wel := False, c_rsten := False\<rparr>"

lemma chip_erase:
  "\<not> c_ax p \<Longrightarrow> chip_frame (0x20 # addr_bytes a) (chip_frame [6] p) =
     erased_sector (unat a mod flash_size) p"
  by (simp add: chip_frame_def chip_op_def erased_sector_def addr_bytes_def addr24_bytes)

lemma chip_program:
  "\<not> c_ax p \<Longrightarrow> chip_frame (0x02 # addr_bytes a @ ds) (chip_frame [6] p) =
     programmed (unat a mod flash_size) ds p"
  by (simp add: chip_frame_def chip_op_def programmed_def addr_bytes_def addr24_bytes)

lemma rdy_erase_sector_4k:
  assumes "rdy s p" "\<not> c_ax p"
  shows "rdy (erase_sector_4k hw a s) (erased_sector (unat a mod flash_size) p)"
proof -
  define c where "c = ccr_bits (ccr0\<lparr>fmode := 0, dmode := 0, dcyc := 0, adsize := 2,
                admode := 1, imode := 1, instruction := CMD_SECTOR_ERASE_4K\<rparr>)"
  have f: "fld 26 2 c = 0" "fld 10 2 c = 1" "fld 8 2 c = 1" "fld 14 2 c = 0" "fld 24 2 c = 0"
    "ucast c = (0x20 :: u8)"
    by (simp_all add: c_def ccr_bits_def ccr0_def fld_def cmd_defs)
  obtain k where k: "view (write_enable hw s) = (k, chip_frame [6] p)" "ready k"
    using rdy_write_enable [OF assms(1)] by (auto simp: rdy_def)
  have "view (hw_write hw QAR a (hw_write hw QCCR c (write_enable hw s))) =
      (k\<lparr>k_mode := KIdle, k_rx := None\<rparr>, chip_frame (0x20 # addr_bytes a) (chip_frame [6] p))"
    using k f by (simp add: write_view ctl_write_def ready_def ctl_phase_def op_bytes_def mode_bytes_def)
  then have "rdy (clear_tc hw (wait_busy_clear hw (hw_write hw QAR a (hw_write hw QCCR c
      (write_enable hw s))))) (erased_sector (unat a mod flash_size) p)"
    using k(2) by (simp add: rdy_def ready_def chip_erase [OF assms(2)])
  from rdy_wait_while_wip [OF this] show ?thesis
    by (simp add: erase_sector_4k_def c_def Let_def erased_sector_def)
qed

lemma chunk_word_bytes: "length ch \<le> 4 \<Longrightarrow> u32_le_bytes (chunk_word ch) = ch @ drop (length ch) [0, 0, 0, 0]"
  by (cases ch; cases "tl ch"; cases "tl (tl ch)"; cases "tl (tl (tl ch))")
     (auto simp: chunk_word_def)

lemma push_chunks_view:
  assumes "data \<noteq> []" "view s = (k\<lparr>k_mode := KData c bs ds\<rparr>, p)"
    "unat (k_dlr k) + 1 = length ds + length data"
  shows "view (fold (push_chunk hw) (chunks4 data) s) = (k\<lparr>k_mode := KIdle, k_rx := None\<rparr>, chip_frame (bs @ ds @ data) p)"
  using assms
proof (induction data arbitrary: s ds rule: chunks4.induct)
  case 1
  then show ?case by simp
next
  case (2 x xs)
  let ?ch = "take 4 (x # xs)" and ?rest = "drop 3 xs"
  have len: "length ?ch \<le> 4" by simp
  have v: "view (push_chunk hw ?ch s) = ctl_write QDR (chunk_word ?ch) (k\<lparr>k_mode := KData c bs ds\<rparr>, p)"
    using "2.prems"(2) by (simp add: push_chunk_def write_view)
  show ?case
  proof (cases "?rest = []")
    case True
    then have "?ch = x # xs" by simp
    then have "u32_le_bytes (chunk_word ?ch) = (x # xs) @ drop (length (x # xs)) [0, 0, 0, 0]"
      using chunk_word_bytes [OF len] by simp
    then have "view (push_chunk hw ?ch s) = (k\<lparr>k_mode := KIdle, k_rx := None\<rparr>, chip_frame (bs @ ds @ x # xs) p)"
      using v "2.prems"(3) by (auto simp: ctl_write_def Let_def)
    then show ?thesis using True by simp
  next
    case False
    then have l4: "length ?ch = 4" by simp
    then have "u32_le_bytes (chunk_word ?ch) = ?ch"
      using chunk_word_bytes [OF len] by simp
    moreover have "\<not> unat (k_dlr k) + 1 \<le> length (ds @ ?ch)"
      using "2.prems"(3) False by simp
    ultimately have "view (push_chunk hw ?ch s) = (k\<lparr>k_mode := KData c bs (ds @ ?ch)\<rparr>, p)"
      using v by (simp add: ctl_write_def Let_def del: take_Suc_Cons)
    moreover have "unat (k_dlr k) + 1 = length (ds @ ?ch) + length ?rest"
      using "2.prems"(3) False by simp
    ultimately have "view (fold (push_chunk hw) (chunks4 ?rest) (push_chunk hw ?ch s)) =
        (k\<lparr>k_mode := KIdle, k_rx := None\<rparr>, chip_frame (bs @ (ds @ ?ch) @ ?rest) p)"
      by (rule "2.IH" [OF False])
    moreover have "(ds @ ?ch) @ ?rest = ds @ x # xs"
      using append_take_drop_id [of 4 "x # xs"] by (simp del: append_take_drop_id)
    ultimately show ?thesis by simp
  qed
qed

lemma rdy_program_page:
  assumes "rdy s p" "\<not> c_ax p" and data: "data \<noteq> []" "length data \<le> PAGE_SIZE"
    and page: "a AND NOT (of_nat PAGE_SIZE - 1) = (a + of_nat (length data) - 1) AND NOT (of_nat PAGE_SIZE - 1)"
  shows "\<exists>s'. program_page hw a data s = Some s' \<and> rdy s' (programmed (unat a mod flash_size) data p)"
proof -
  define c where "c = ccr_bits (ccr0\<lparr>fmode := 0, dmode := 1, dcyc := 0, adsize := 2,
                   admode := 1, imode := 1, instruction := CMD_PAGE_PROGRAM\<rparr>)"
  have f: "fld 26 2 c = 0" "fld 10 2 c = 1" "fld 8 2 c = 1" "fld 14 2 c = 0" "fld 24 2 c = 1"
    "ucast c = (0x02 :: u8)"
    by (simp_all add: c_def ccr_bits_def ccr0_def fld_def cmd_defs)
  obtain k where k: "view (write_enable hw s) = (k, chip_frame [6] p)" "ready k"
    using rdy_write_enable [OF assms(1)] by (auto simp: rdy_def)
  define k1 where "k1 = k\<lparr>k_dlr := of_nat (length data - 1)\<rparr>"
  define s1 where "s1 = hw_write hw QAR a (hw_write hw QCCR c
      (hw_write hw QDLR (of_nat (length data - 1)) (write_enable hw s)))"
  have len: "unat (k_dlr k1) + 1 = length ([] :: u8 list) + length data"
    using data by (cases data) (auto simp: k1_def unat_of_nat PAGE_SIZE_def)
  have "view s1 = (k1\<lparr>k_mode := KData c (0x02 # addr_bytes a) []\<rparr>, chip_frame [6] p)"
    using k f by (simp add: s1_def k1_def write_view ctl_write_def ready_def ctl_phase_def
        op_bytes_def mode_bytes_def)
  from push_chunks_view [OF data(1) this len]
  have "view (fold (push_chunk hw) (chunks4 data) s1) =
      (k1\<lparr>k_mode := KIdle, k_rx := None\<rparr>, programmed (unat a mod flash_size) data p)"
    by (simp add: chip_program [OF assms(2)])
  then have "rdy (clear_tc hw (wait_busy_clear hw (fold (push_chunk hw) (chunks4 data) s1)))
      (programmed (unat a mod flash_size) data p)"
    using k(2) by (simp add: rdy_def ready_def k1_def)
  from rdy_wait_while_wip [OF this] show ?thesis
    using data page by (simp add: program_page_def s1_def c_def Let_def programmed_def)
qed

end

interpretation brd: qspi_board "board_hw raw" "\<lambda>b. (b_ctl b, b_chip b)" for raw
proof
  show "bit (fst (hw_read (board_hw raw) QDR s)) 6 = v" if "k_rx (fst (b_ctl s, b_chip s)) = Some v" for s v
    using that by (cases v) (auto simp: board_hw_def rx_byte_def bit_simps split: prod.split)
  show "(b_ctl (hw_burn (board_hw raw) n s), b_chip (hw_burn (board_hw raw) n s)) = (b_ctl s, b_chip s)"
    for n s by (simp add: board_hw_def)
  show "fst (hw_read (board_hw raw) QCR s) AND NOT 2 = k_cr (fst (b_ctl s, b_chip s)) AND NOT 2" for s
    by (cases "hw_read raw QCR (b_raw s)") (auto simp: board_hw_def intro!: bit_word_eqI simp: bit_simps)
qed (simp_all add: board_hw_def on_ctl_def Let_def split: prod.split)

subsection \<open>Every bounded wait is bounded\<close>

text \<open>The same device with a tally of how often the awaited condition is looked at.\<close>

definition tallied :: "'s hw \<Rightarrow> ('s \<times> nat) hw" where
  "tallied hw =
     \<lparr>hw_read = (\<lambda>r (s, n). let (v, s) = hw_read hw r s in (v, s, n)),
      hw_write = (\<lambda>r v (s, n). (hw_write hw r v s, n)),
      hw_cycles = (\<lambda>(s, n). let (v, s) = hw_cycles hw s in (v, s, n)),
      hw_burn = (\<lambda>k (s, n). (hw_burn hw k s, n)),
      hw_xip = (\<lambda>a (s, n). let (v, s) = hw_xip hw a s in (v, s, n)),
      hw_sysclk = hw_sysclk hw\<rparr>"

definition tallying :: "('s \<Rightarrow> bool \<times> 's) \<Rightarrow> 's \<times> nat \<Rightarrow> bool \<times> 's \<times> nat" where
  "tallying cond = (\<lambda>(s, n). let (c, s) = cond s in (c, s, Suc n))"

lemma spin_loop_tally:
  "case spin_loop (tallied hw) (tallying cond) start deadline iters (s, n) of (ok, s', n') \<Rightarrow>
     spin_loop hw cond start deadline iters s = (ok, s') \<and>
     n < n' \<and> n' \<le> n + unat (MAX_ITERS - 1 - iters) + 1 \<and>
     (ok \<longrightarrow> (\<exists>t. cond t = (True, s')))"
proof (induction hw cond start deadline iters s arbitrary: n rule: spin_loop.induct)
  case (1 hw cond start deadline iters s)
  obtain c s1 where c: "cond s = (c, s1)" by fastforce
  have tc: "tallying cond (s, n) = (c, s1, Suc n)" by (simp add: tallying_def c)
  obtain now s2 where w: "hw_cycles hw s1 = (now, s2)" by fastforce
  have tw: "hw_cycles (tallied hw) (s1, Suc n) = (now, s2, Suc n)" by (simp add: tallied_def w)
  show ?case
  proof (cases "\<not> c \<and> \<not> MAX_ITERS \<le> iters + 1 \<and> \<not> deadline \<le> now - start")
    case False
    then show ?thesis
      unfolding spin_loop.simps [of hw cond start deadline iters s]
        spin_loop.simps [of "tallied hw" "tallying cond" start deadline iters "(s, n)"]
      using c tc w tw by (auto simp: Let_def)
  next
    case True
    then have "iters + 1 < MAX_ITERS" by (simp add: not_le)
    then have "MAX_ITERS - 1 - iters \<noteq> 0" by (auto simp: MAX_ITERS_def algebra_simps)
    from unat_minus1_less [OF this]
    have less: "unat (MAX_ITERS - 1 - (iters + 1)) < unat (MAX_ITERS - 1 - iters)"
      by (simp only: diff_diff_eq add.assoc)
    have "spin_loop hw cond start deadline iters s = spin_loop hw cond start deadline (iters + 1) s2"
      "spin_loop (tallied hw) (tallying cond) start deadline iters (s, n) =
         spin_loop (tallied hw) (tallying cond) start deadline (iters + 1) (s2, Suc n)"
      using True c tc w tw by (simp_all add: spin_loop.simps [of hw cond start deadline iters s]
        spin_loop.simps [of "tallied hw" "tallying cond" start deadline iters "(s, n)"])
    moreover note "1.IH" [OF c [symmetric] refl _ refl _ w [symmetric] refl, of "Suc n"]
    ultimately show ?thesis using True less by (auto split: prod.splits)
  qed
qed

text \<open>No bounded wait can wedge the bootloader: on any device and for any condition it
  looks at the condition at least once and at most 400 million times, the tally changes
  nothing, and it reports success only on having just seen the condition true.\<close>

theorem spin_until_bounded:
  "\<exists>ok s' n. spin_until (tallied hw) t (tallying cond) (s, 0) = (ok, s', n) \<and>
     spin_until hw t cond s = (ok, s') \<and> 1 \<le> n \<and> n \<le> 400000000 \<and>
     (ok \<longrightarrow> (\<exists>u. cond u = (True, s')))"
proof -
  obtain start s1 where c: "hw_cycles hw s = (start, s1)" by fastforce
  then have tc: "hw_cycles (tallied hw) (s, 0) = (start, s1, 0)" by (simp add: tallied_def)
  obtain ok s' n where r: "spin_loop (tallied hw) (tallying cond) start (sat_mul t 400) 0 (s1, 0) = (ok, s', n)"
    by (metis surj_pair)
  have "unat (MAX_ITERS - 1 - 0) + 1 = 400000000" by (simp add: MAX_ITERS_def)
  with spin_loop_tally [of hw cond start "sat_mul t 400" 0 s1 0] r c tc show ?thesis
    by (auto simp: spin_until_def Let_def)
qed

text \<open>A device whose registers and counter read 0.\<close>

definition quiet_hw :: "unit hw" where
  "quiet_hw = \<lparr>hw_read = (\<lambda>_ h. (0, h)), hw_write = (\<lambda>_ _ h. h), hw_cycles = (\<lambda>h. (0, h)),
     hw_burn = (\<lambda>_ h. h), hw_xip = (\<lambda>_ h. (0, h)), hw_sysclk = 400000000\<rparr>"

theorem spin_until_bounded_witness:
  "spin_until (tallied quiet_hw) 7 (tallying (\<lambda>h. (True, h))) ((), 0) = (True, (), 1) \<and>
   snd (snd (spin_until (tallied quiet_hw) 7 (tallying (\<lambda>h. (False, h))) ((), 0))) \<le> 400000000"
proof -
  have "spin_until (tallied quiet_hw) 7 (tallying (\<lambda>h. (True, h))) ((), 0) = (True, (), 1)"
    by (simp add: spin_until_def spin_loop.simps tallied_def tallying_def quiet_hw_def)
  moreover from spin_until_bounded [of quiet_hw 7 "\<lambda>h. (False, h)" "()"]
  have "snd (snd (spin_until (tallied quiet_hw) 7 (tallying (\<lambda>h. (False, h))) ((), 0))) \<le> 400000000"
    by auto
  ultimately show ?thesis by blast
qed

text \<open>The exception is the errata sequence, whose two polls of the busy flag have no bound.\<close>

definition always_busy :: "'s hw \<Rightarrow> bool" where
  "always_busy hw \<longleftrightarrow> (\<forall>s. bit (fst (hw_read hw QSR s)) 5)"

lemma busy_wait_not_stuck: "busy_wait h s = Some s' \<Longrightarrow> \<not> always_busy h"
proof (rule busy_wait.raw_induct [where P = "\<lambda>h s s'. \<not> always_busy h"])
  fix bw h s s'
  assume IH: "\<And>h s s'. bw h s = Some s' \<Longrightarrow> \<not> always_busy h"
    and step: "(let (v, s) = hw_read h QSR s in if v AND 0x20 \<noteq> 0 then bw h s else Some s) = Some s'"
  show "\<not> always_busy h"
  proof
    assume b: "always_busy h"
    obtain v s1 where r: "hw_read h QSR s = (v, s1)" by fastforce
    have "bit v 5" using b r unfolding always_busy_def by (metis fst_conv)
    then have "bit (v AND 0x20) 5" by (simp add: bit_simps)
    then have "v AND 0x20 \<noteq> 0" by auto
    then show False using IH [of h s1 s'] step r b by simp
  qed
qed

lemma busy_wait_stuck: "always_busy hw \<Longrightarrow> busy_wait hw s = None"
  using busy_wait_not_stuck by (metis option.exhaust)

lemma recover_stuck: "always_busy hw \<Longrightarrow> recover_flash_to_single_line hw s = None"
  by (simp add: recover_flash_to_single_line_def exit_memory_mapped_def qspi_errata_workaround_def
      busy_wait_stuck split: prod.split)

subsection \<open>Delays\<close>

lemma delay_loop_sound:
  "s' = delay_loop (board_hw raw) n start m i s \<Longrightarrow> i \<le> m \<Longrightarrow>
     b_burnt s' \<le> b_burnt s + (unat m - unat i) * 4096 \<and>
     ((\<exists>t now. hw_cycles (board_hw raw) t = (now, s') \<and> n \<le> now - start) \<or>
      b_burnt s' = b_burnt s + (unat m - unat i) * 4096)"
proof (induction "board_hw raw" n start m i s rule: delay_loop.induct)
  case (1 n start m i s)
  obtain now s1 where c: "hw_cycles (board_hw raw) s = (now, s1)" by fastforce
  then have b1: "b_burnt s1 = b_burnt s" by (auto simp: board_hw_def split: prod.splits)
  show ?case
  proof (cases "n \<le> now - start \<or> m \<le> i")
    case True
    then have "s' = s1" using "1.prems"(1) c by (subst (asm) delay_loop.simps) auto
    then show ?thesis using True b1 c "1.prems"(2) by (auto simp: word_le_nat_alt)
  next
    case False
    define s2 where "s2 = hw_burn (board_hw raw) BURN_CHUNK s1"
    have b2: "b_burnt s2 = b_burnt s + 4096"
      using b1 by (simp add: s2_def board_hw_def BURN_CHUNK_def)
    have lt: "i < m" using False by (simp add: not_le)
    note u = unat_plus1 [OF lt]
    then have "i + 1 \<le> m" using lt by (simp add: word_le_nat_alt word_less_nat_alt)
    moreover have "s' = delay_loop (board_hw raw) n start m (i + 1) s2"
      using "1.prems"(1) c False by (subst (asm) delay_loop.simps) (simp add: s2_def)
    ultimately have ih: "b_burnt s' \<le> b_burnt s2 + (unat m - unat (i + 1)) * 4096 \<and>
       ((\<exists>t now. hw_cycles (board_hw raw) t = (now, s') \<and> n \<le> now - start) \<or>
        b_burnt s' = b_burnt s2 + (unat m - unat (i + 1)) * 4096)"
      using "1.hyps" [OF c [symmetric] refl] False unfolding s2_def by blast
    have "unat i < unat m" using lt by (simp add: word_less_nat_alt)
    then have "unat m - unat i = Suc (unat m - unat (i + 1))" unfolding u by arith
    then show ?thesis using ih b2 by (simp add: add.assoc)
  qed
qed

text \<open>A delay ends only once the cycle counter has been seen to advance by the requested
  amount or, should the counter be dead, after burning at least that many cycles; and it never
  burns more than three times the request plus a fixed margin.\<close>

theorem delay_cycles_sound:
  "let start = fst (hw_cycles (board_hw raw) s); s' = delay_cycles (board_hw raw) n s in
     ((\<exists>t now. hw_cycles (board_hw raw) t = (now, s') \<and> n \<le> now - start) \<or>
      unat n \<le> b_burnt s' - b_burnt s) \<and>
     b_burnt s' - b_burnt s \<le> 3 * (unat n + 64 * 4096)"
proof -
  define start where "start = fst (hw_cycles (board_hw raw) s)"
  define s' where "s' = delay_cycles (board_hw raw) n s"
  obtain s1 where c: "hw_cycles (board_hw raw) s = (start, s1)"
    using start_def by (metis fst_conv surj_pair)
  then have b1: "b_burnt s1 = b_burnt s" by (auto simp: board_hw_def split: prod.splits)
  define m where "m = sat_mul (sat_add (n div BURN_CHUNK) 64) 3"
  have "unat n < 4294967296" by simp
  then have "unat n div 4096 < 1048576" by linarith
  then have m: "unat m = 3 * (unat n div 4096 + 64)"
    by (simp add: m_def unat_sat_mul unat_sat_add BURN_CHUNK_def unat_div_distrib)
  have "s' = delay_loop (board_hw raw) n start m 0 s1"
    using s'_def c by (simp add: delay_cycles_def m_def Let_def)
  from delay_loop_sound [OF this] have d: "b_burnt s' \<le> b_burnt s + unat m * 4096"
    "(\<exists>t now. hw_cycles (board_hw raw) t = (now, s') \<and> n \<le> now - start) \<or>
      b_burnt s' = b_burnt s + unat m * 4096"
    by (auto simp: b1)
  have bnd: "k \<le> 3 * (k div 4096 + 64) * 4096 \<and> 3 * (k div 4096 + 64) * 4096 \<le> 3 * (k + 64 * 4096)"
    for k :: nat
  proof -
    define q where "q = k div 4096"
    have "4096 * q \<le> k" "k < 4096 * q + 4096"
      using div_mult_mod_eq [of k 4096] mod_less_divisor [of 4096 k] unfolding q_def by linarith+
    then show ?thesis unfolding q_def [symmetric] by (simp add: distrib_left distrib_right)
  qed
  have "unat n \<le> unat m * 4096" "unat m * 4096 \<le> 3 * (unat n + 64 * 4096)"
    using bnd [of "unat n"] unfolding m by simp_all
  then show ?thesis using d unfolding start_def s'_def Let_def by auto
qed

end
