(* ===== verification/Dfu_Mem.thy ===== *)
theory Dfu_Mem
  imports Qspi
begin

text \<open>
  The DFU memory of the bootloader (daisy-boot/src/dfu_mem.rs) over the QSPI driver: buffer
  store, page-by-page programming, sector and full erase, memory-mapped read-back, and the
  switching between the two controller modes. \<open>None\<close> is a call that never returns: a wait of the
  errata sequence that hangs, or a panic, after which the bootloader halts.
\<close>

definition FLASH_BASE :: u32 where "FLASH_BASE = 0x90000000"
definition FLASH_SIZE :: u32 where "FLASH_SIZE = 8 * 1024 * 1024"
definition FLASH_END :: u32 where "FLASH_END = FLASH_BASE + FLASH_SIZE"
definition TRANSFER_SIZE :: nat where "TRANSFER_SIZE = 128"

lemmas flash_consts = FLASH_BASE_def FLASH_SIZE_def FLASH_END_def

datatype dfu_err = StoreErr | AddressErr | ProgErr

record 's dfu =
  qspi :: 's
  buffer :: "u8 list"
  buffer_len :: nat
  in_mm_mode :: bool
  saw_write :: bool

definition dfu_new :: "'s hw \<Rightarrow> bool \<Rightarrow> 's \<Rightarrow> 's dfu option" where
  "dfu_new hw saw q =
     map_option (\<lambda>q. \<lparr>qspi = q, buffer = replicate TRANSFER_SIZE 0, buffer_len = 0,
       in_mm_mode = False, saw_write = saw\<rparr>) (recover_flash_to_single_line hw q)"

definition ensure_mm_mode :: "'s hw \<Rightarrow> 's dfu \<Rightarrow> 's dfu" where
  "ensure_mm_mode hw d =
     (if \<not> in_mm_mode d
      then d\<lparr>qspi := enter_memory_mapped hw (qspi d), in_mm_mode := True\<rparr> else d)"

definition ensure_indirect_mode :: "'s hw \<Rightarrow> 's dfu \<Rightarrow> 's dfu option" where
  "ensure_indirect_mode hw d =
     (if in_mm_mode d
      then map_option (\<lambda>q. d\<lparr>qspi := q, in_mm_mode := False\<rparr>)
             (recover_flash_to_single_line hw (qspi d))
      else Some d)"

definition release :: "'s dfu \<Rightarrow> 's" where
  "release d = qspi d"

definition contains :: "u32 \<Rightarrow> bool" where
  "contains addr \<longleftrightarrow> FLASH_BASE \<le> addr \<and> addr < FLASH_END"

definition contains_range :: "u32 \<Rightarrow> u32 \<Rightarrow> bool" where
  "contains_range addr len \<longleftrightarrow>
     (FLASH_BASE \<le> addr \<and> addr \<le> FLASH_END) \<and> len \<le> FLASH_END - addr"

definition store_write_buffer :: "u8 list \<Rightarrow> 's dfu \<Rightarrow> (dfu_err + unit) \<times> 's dfu" where
  "store_write_buffer src d =
     (let d = d\<lparr>saw_write := True\<rparr> in
      if length (buffer d) < length src then (Inl StoreErr, d)
      else (Inr (), d\<lparr>buffer := src @ drop (length src) (buffer d), buffer_len := length src\<rparr>))"

text \<open>\<open>read\<close>: a length beyond the buffer is cut to it; the bytes come from the mapped window.\<close>

primrec read_bytes :: "'s hw \<Rightarrow> u32 \<Rightarrow> nat \<Rightarrow> 's dfu \<Rightarrow> 's dfu" where
  "read_bytes hw address 0 d = d"
| "read_bytes hw address (Suc i) d =
     (let d = read_bytes hw address i d;
          (v, q) = hw_xip hw (address + of_nat i) (qspi d)
      in d\<lparr>qspi := q, buffer := (buffer d)[i := v]\<rparr>)"

definition dfu_read :: "'s hw \<Rightarrow> u32 \<Rightarrow> u32 \<Rightarrow> 's dfu \<Rightarrow> (dfu_err + u8 list) \<times> 's dfu" where
  "dfu_read hw address len d =
     (if \<not> contains_range address len then (Inl AddressErr, d)
      else
        let n = min (unat len) (length (buffer d));
            d = read_bytes hw address n (ensure_mm_mode hw d)
        in (Inr (take n (buffer d)), d))"

text \<open>\<open>program\<close>: the loop over pages. \<open>this_len\<close> is at least 1, so it ends.\<close>

definition page_bound :: "u32 \<Rightarrow> u32" where
  "page_bound this_flash = of_nat PAGE_SIZE - (this_flash AND (of_nat PAGE_SIZE - 1))"

lemma unat_page_bound: "unat (page_bound a) = PAGE_SIZE - unat a mod PAGE_SIZE"
proof -
  have m: "(255 :: u32) = mask 8" by (simp add: mask_eq_exp_minus_1)
  have u: "unat (a AND 255) = unat a mod 256"
    unfolding m by (simp add: take_bit_eq_mask [symmetric] unsigned_take_bit_eq take_bit_eq_mod
        unat_mod_distrib)
  moreover have "unat a mod 256 < 256" by simp
  ultimately have "(a AND 255) \<le> 256" unfolding word_le_nat_alt by simp
  then show ?thesis
    by (simp add: page_bound_def PAGE_SIZE_def unat_sub u)
qed

function program_loop :: "'s hw \<Rightarrow> u32 \<Rightarrow> nat \<Rightarrow> u8 list \<Rightarrow> nat \<Rightarrow> 's \<Rightarrow> 's option" where
  "program_loop hw flash_offset len buf written q =
     (if written < len then
        let this_flash = flash_offset + of_nat written;
            this_len = min (unat (page_bound this_flash)) (len - written)
        in if written + this_len \<le> length buf
           then (case program_page hw this_flash (take this_len (drop written buf)) q of
                   None \<Rightarrow> None
                 | Some q \<Rightarrow> program_loop hw flash_offset len buf (written + this_len) q)
           else None
      else Some q)"
  by pat_completeness auto

termination
proof (relation "measure (\<lambda>(_, _, len, _, written, _). len - written)", goal_cases)
  case 1
  then show ?case by simp
next
  case (2 hw off len buf written q this_flash this_len q')
  have "0 < unat (page_bound this_flash)" by (simp add: unat_page_bound PAGE_SIZE_def)
  then show ?case using 2 by simp
qed

declare program_loop.simps [simp del]

definition dfu_program :: "'s hw \<Rightarrow> u32 \<Rightarrow> u32 \<Rightarrow> 's dfu \<Rightarrow> ((dfu_err + unit) \<times> 's dfu) option" where
  "dfu_program hw address len d =
     (let d = d\<lparr>saw_write := True\<rparr> in
      if \<not> contains_range address len then Some (Inl AddressErr, d)
      else if buffer_len d < unat len then Some (Inl ProgErr, d)
      else do {
        d \<leftarrow> ensure_indirect_mode hw d;
        q \<leftarrow> program_loop hw (address - FLASH_BASE) (unat len) (buffer d) 0 (qspi d);
        Some (Inr (), d\<lparr>qspi := q\<rparr>)
      })"

definition dfu_erase :: "'s hw \<Rightarrow> u32 \<Rightarrow> 's dfu \<Rightarrow> ((dfu_err + unit) \<times> 's dfu) option" where
  "dfu_erase hw address d =
     (let d = d\<lparr>saw_write := True\<rparr> in
      if \<not> contains address then Some (Inl AddressErr, d)
      else do {
        d \<leftarrow> ensure_indirect_mode hw d;
        Some (Inr (), d\<lparr>qspi := erase_sector_4k hw (address - FLASH_BASE) (qspi d)\<rparr>)
      })"

lemma offset_step: "offset < FLASH_SIZE \<Longrightarrow> unat (offset + of_nat SECTOR_SIZE) = unat offset + SECTOR_SIZE"
  by (simp add: SECTOR_SIZE_def FLASH_SIZE_def word_less_nat_alt unat_word_ariths)

function erase_loop :: "'s hw \<Rightarrow> u32 \<Rightarrow> 's \<Rightarrow> 's" where
  "erase_loop hw offset q =
     (if offset < FLASH_SIZE
      then erase_loop hw (offset + of_nat SECTOR_SIZE) (erase_sector_4k hw offset q)
      else q)"
  by pat_completeness auto

termination
  by (relation "measure (\<lambda>(_, offset, _). unat FLASH_SIZE - unat offset)")
     (simp, simp add: offset_step, simp add: word_less_nat_alt SECTOR_SIZE_def)

declare erase_loop.simps [simp del]

definition dfu_erase_all :: "'s hw \<Rightarrow> 's dfu \<Rightarrow> ((dfu_err + unit) \<times> 's dfu) option" where
  "dfu_erase_all hw d =
     (let d = d\<lparr>saw_write := True\<rparr> in
      do {
        d \<leftarrow> ensure_indirect_mode hw d;
        Some (Inr (), d\<lparr>qspi := erase_loop hw 0 (qspi d)\<rparr>)
      })"

definition manifestation :: "'s hw \<Rightarrow> 's dfu \<Rightarrow> (dfu_err + unit) \<times> 's dfu" where
  "manifestation hw d = (Inr (), ensure_mm_mode hw d)"

subsection \<open>What programming and erasing do to the memory\<close>

lemma program_mem_page:
  "a mod PAGE_SIZE + i + length ds \<le> PAGE_SIZE \<Longrightarrow>
     program_mem a i ds m x =
       (if a + i \<le> x \<and> x < a + i + length ds then m x AND ds ! (x - (a + i)) else m x)"
proof (induction ds arbitrary: i m)
  case Nil
  then show ?case by auto
next
  case (Cons d ds)
  have le: "a mod PAGE_SIZE \<le> a" by (rule mod_less_eq_dividend)
  have "(a mod PAGE_SIZE + i) mod PAGE_SIZE = a mod PAGE_SIZE + i"
    using Cons.prems by simp
  then have t: "a - a mod PAGE_SIZE + (a mod PAGE_SIZE + i) mod PAGE_SIZE = a + i" using le by simp
  have "program_mem a i (d # ds) m x = program_mem a (Suc i) ds (m(a + i := m (a + i) AND d)) x"
    by (simp only: program_mem.simps t Let_def)
  also have "\<dots> = (if a + i \<le> x \<and> x < a + i + length (d # ds)
      then m x AND (d # ds) ! (x - (a + i)) else m x)"
  proof (cases "x = a + i")
    case True
    then show ?thesis using Cons.IH [of "Suc i"] Cons.prems by simp
  next
    case False
    then have "x - (a + i) = Suc (x - Suc (a + i))" if "a + i \<le> x" using that by simp
    then show ?thesis using Cons.IH [of "Suc i"] Cons.prems False by auto
  qed
  finally show ?case .
qed

lemma same_page:
  fixes a :: u32
  assumes "0 < n" "unat a mod PAGE_SIZE + n \<le> PAGE_SIZE" "unat a + n < 2 ^ 32"
  shows "a AND NOT (of_nat PAGE_SIZE - 1) = (a + of_nat n - 1) AND NOT (of_nat PAGE_SIZE - 1)"
proof -
  have m: "(255 :: u32) = mask 8" by (simp add: mask_eq_exp_minus_1)
  have n: "n < 2 ^ 32" using assms(3) by simp
  have an: "unat (a + of_nat n) = unat a + n"
    using assms(3) n by (simp add: unat_word_ariths unat_of_nat)
  then have "unat (a + of_nat n - 1) = unat a + n - 1"
    using assms(1) by (subst unat_minus_one) auto
  moreover have "(unat a + n - 1) div 256 = unat a div 256"
  proof -
    have "unat a + n - 1 = 256 * (unat a div 256) + (unat a mod 256 + n - 1)"
      using assms(1) by simp
    moreover have "unat a mod 256 + n - 1 < 256" using assms(1,2) by (simp add: PAGE_SIZE_def)
    ultimately show ?thesis by simp
  qed
  ultimately have "drop_bit 8 (a + of_nat n - 1) = drop_bit 8 a"
    by (simp add: word_unat_eq_iff drop_bit_eq_div unat_div_distrib)
  moreover have "a AND NOT 255 = push_bit 8 (drop_bit 8 a)" for a :: u32
    unfolding m by (rule bit_word_eqI) (auto simp: bit_simps)
  ultimately show ?thesis by (simp add: PAGE_SIZE_def)
qed

definition programmed_range :: "nat \<Rightarrow> nat \<Rightarrow> u8 list \<Rightarrow> (nat \<Rightarrow> u8) \<Rightarrow> nat \<Rightarrow> u8" where
  "programmed_range lo hi ds m = (\<lambda>x. if lo \<le> x \<and> x < hi then m x AND ds ! (x - lo) else m x)"

context qspi_board
begin

lemma program_loop_rdy:
  assumes "rdy q p" "\<not> c_ax p" "written \<le> len" "len \<le> length buf" "unat off + len \<le> flash_size"
  shows "\<exists>q' p'. program_loop hw off len buf written q = Some q' \<and> rdy q' p' \<and> \<not> c_ax p' \<and>
     c_mem p' = programmed_range (unat off + written) (unat off + len) (drop written buf) (c_mem p)"
  using assms
proof (induction "len - written" arbitrary: written q p rule: less_induct)
  case less
  show ?case
  proof (cases "written < len")
    case False
    with less.prems have "programmed_range (unat off + written) (unat off + len) (drop written buf) (c_mem p)
        = c_mem p" by (auto simp: programmed_range_def fun_eq_iff)
    with False less.prems show ?thesis by (subst program_loop.simps) auto
  next
    case True
    define a where "a = off + of_nat written"
    define n where "n = min (unat (page_bound a)) (len - written)"
    define ds where "ds = take n (drop written buf)"
    have w: "written < 2 ^ 32" using True less.prems(5) by (simp add: flash_size_def)
    then have ua: "unat a = unat off + written"
      using True less.prems(5) by (simp add: a_def flash_size_def unat_word_ariths unat_of_nat)
    then have ua': "unat a mod flash_size = unat off + written"
      using True less.prems(5) by simp
    have n: "0 < n" "unat a mod PAGE_SIZE + n \<le> PAGE_SIZE" "written + n \<le> len"
      using True by (auto simp: n_def unat_page_bound PAGE_SIZE_def min_def)
    have lds: "length ds = n" using n less.prems(4) by (simp add: ds_def)
    have page: "a AND NOT (of_nat PAGE_SIZE - 1) =
        (a + of_nat (length ds) - 1) AND NOT (of_nat PAGE_SIZE - 1)"
      unfolding lds using n less.prems(5) ua by (intro same_page) (auto simp: flash_size_def)
    have "ds \<noteq> []" "length ds \<le> PAGE_SIZE" using lds n by auto
    from rdy_program_page [OF less.prems(1,2) this page] obtain q1 where
      q1: "program_page hw a ds q = Some q1" "rdy q1 (programmed (unat off + written) ds p)"
      unfolding ua' by blast
    have m1: "c_mem (programmed (unat off + written) ds p) x =
        (if unat off + written \<le> x \<and> x < unat off + written + n
         then c_mem p x AND ds ! (x - (unat off + written)) else c_mem p x)" for x
      using program_mem_page [of "unat off + written" 0 ds] n(2) lds ua by (simp add: programmed_def)
    have "len - (written + n) < len - written" using n by simp
    from less.hyps [OF this q1(2) _ n(3) less.prems(4,5)] obtain q' p' where
      q': "program_loop hw off len buf (written + n) q1 = Some q'" "rdy q' p'" "\<not> c_ax p'"
        "c_mem p' = programmed_range (unat off + (written + n)) (unat off + len)
          (drop (written + n) buf) (c_mem (programmed (unat off + written) ds p))"
      using less.prems(2) by (auto simp: programmed_def)
    have "c_mem p' = programmed_range (unat off + written) (unat off + len) (drop written buf) (c_mem p)"
      unfolding q'(4) programmed_range_def m1 using n lds less.prems(4)
      by (auto simp: fun_eq_iff ds_def intro!: arg_cong [where f = "\<lambda>i. _ AND buf ! i"])
    moreover have "program_loop hw off len buf written q = Some q'"
      using True n less.prems(4) q1(1) q'(1)
      by (subst program_loop.simps) (simp add: Let_def a_def [symmetric] n_def [symmetric]
          ds_def [symmetric])
    ultimately show ?thesis using q' by blast
  qed
qed

lemma erase_loop_rdy:
  assumes "rdy q p" "\<not> c_ax p" "unat offset mod SECTOR_SIZE = 0"
  shows "\<exists>p'. rdy (erase_loop hw offset q) p' \<and> \<not> c_ax p' \<and>
     c_mem p' = (\<lambda>x. if unat offset \<le> x \<and> x < flash_size then 0xFF else c_mem p x)"
  using assms
proof (induction "unat FLASH_SIZE - unat offset" arbitrary: offset q p rule: less_induct)
  case less
  show ?case
  proof (cases "offset < FLASH_SIZE")
    case False
    then have "flash_size \<le> unat offset"
      by (simp add: FLASH_SIZE_def flash_size_def word_less_nat_alt)
    then have "c_mem p = (\<lambda>x. if unat offset \<le> x \<and> x < flash_size then 0xFF else c_mem p x)"
      by (auto simp: fun_eq_iff)
    then show ?thesis using less.prems False by (subst erase_loop.simps) auto
  next
    case True
    then have lt: "unat offset < flash_size"
      by (simp add: FLASH_SIZE_def flash_size_def word_less_nat_alt)
    define p1 where "p1 = erased_sector (unat offset) p"
    have r1: "rdy (erase_sector_4k hw offset q) p1"
      using rdy_erase_sector_4k [OF less.prems(1,2), of offset] lt by (simp add: p1_def)
    note st = offset_step [OF True]
    have "unat FLASH_SIZE - unat (offset + of_nat SECTOR_SIZE) < unat FLASH_SIZE - unat offset"
      using lt unfolding st by (simp add: SECTOR_SIZE_def FLASH_SIZE_def flash_size_def)
    from less.hyps [OF this r1] less.prems obtain p' where
      p': "rdy (erase_loop hw (offset + of_nat SECTOR_SIZE) (erase_sector_4k hw offset q)) p'"
        "\<not> c_ax p'" "c_mem p' = (\<lambda>x. if unat offset + SECTOR_SIZE \<le> x \<and> x < flash_size
          then 0xFF else c_mem p1 x)"
      by (auto simp: p1_def erased_sector_def st)
    have sec: "x div SECTOR_SIZE = unat offset div SECTOR_SIZE \<longleftrightarrow>
        unat offset \<le> x \<and> x < unat offset + SECTOR_SIZE" for x
      using less.prems(3) by (auto simp: SECTOR_SIZE_def)
    have "unat offset + SECTOR_SIZE \<le> flash_size"
      using lt less.prems(3) by (auto simp: SECTOR_SIZE_def flash_size_def)
    then have "c_mem p' = (\<lambda>x. if unat offset \<le> x \<and> x < flash_size then 0xFF else c_mem p x)"
      unfolding p'(3) by (auto simp: p1_def erased_sector_def erase_sector_mem_def sec)
    then show ?thesis using p' True by (subst erase_loop.simps) auto
  qed
qed

text \<open>The controller mode matches the flag, and out of mapped mode the chip decodes commands.\<close>

definition dfu_inv :: "'s dfu \<Rightarrow> chip \<Rightarrow> bool" where
  "dfu_inv d p \<longleftrightarrow> length (buffer d) = TRANSFER_SIZE \<and> buffer_len d \<le> TRANSFER_SIZE \<and>
     (if in_mm_mode d then mapped (qspi d) p \<and> c_params p = 0xF0
      else rdy (qspi d) p \<and> \<not> c_ax p)"

lemma ensure_indirect_inv:
  assumes "dfu_inv d p" "ensure_indirect_mode hw d = Some d'"
  shows "\<exists>p'. dfu_inv d' p' \<and> \<not> in_mm_mode d' \<and> rdy (qspi d') p' \<and> \<not> c_ax p' \<and> c_mem p' = c_mem p \<and>
     buffer d' = buffer d \<and> buffer_len d' = buffer_len d \<and> saw_write d' = saw_write d"
proof (cases "in_mm_mode d")
  case False
  then show ?thesis using assms by (auto simp: ensure_indirect_mode_def dfu_inv_def)
next
  case True
  then obtain q where q: "recover_flash_to_single_line hw (qspi d) = Some q"
    "d' = d\<lparr>qspi := q, in_mm_mode := False\<rparr>"
    using assms(2) by (auto simp: ensure_indirect_mode_def)
  from True assms(1) obtain k where k: "view (qspi d) = (k\<lparr>k_mode := KMapped xip_ccr\<rparr>, p)" "ready k"
    by (auto simp: dfu_inv_def mapped_def)
  then have "rdy q (recovered p)"
    by (intro recover_rdy [OF k(1) _ q(1)]) (simp add: ready_def)
  then show ?thesis using assms(1) q(2) by (auto simp: dfu_inv_def recovered_def)
qed

lemma ensure_mm_inv:
  assumes "dfu_inv d p"
  shows "\<exists>p'. dfu_inv (ensure_mm_mode hw d) p' \<and> in_mm_mode (ensure_mm_mode hw d) \<and>
     mapped (qspi (ensure_mm_mode hw d)) p' \<and> c_mem p' = c_mem p \<and>
     ((in_mm_mode d \<longrightarrow> c_qe p) \<longrightarrow> c_qe p') \<and> buffer (ensure_mm_mode hw d) = buffer d \<and> buffer_len (ensure_mm_mode hw d) = buffer_len d \<and>
     saw_write (ensure_mm_mode hw d) = saw_write d"
proof (cases "in_mm_mode d")
  case True
  then show ?thesis using assms by (auto simp: ensure_mm_mode_def dfu_inv_def)
next
  case False
  with assms have "rdy (qspi d) p" by (simp add: dfu_inv_def)
  from enter_memory_mapped_mapped [OF this] show ?thesis
    using assms False by (intro exI [of _ "quad_chip p"])
      (simp add: ensure_mm_mode_def dfu_inv_def recovered_def)
qed

lemma dfu_program_spec:
  assumes inv: "dfu_inv d p" and range: "contains_range a len" "unat len \<le> buffer_len d"
    and run: "dfu_program hw a len d = Some (r, d')"
  shows "\<exists>p'. r = Inr () \<and> dfu_inv d' p' \<and> saw_write d' \<and> \<not> in_mm_mode d' \<and> buffer d' = buffer d \<and>
     c_mem p' = programmed_range (unat (a - FLASH_BASE))
       (unat (a - FLASH_BASE) + unat len) (buffer d) (c_mem p)"
proof -
  have off: "unat (a - FLASH_BASE) + unat len \<le> flash_size"
    using range(1) by (auto simp: contains_range_def flash_consts flash_size_def word_le_nat_alt unat_sub)
  have inv': "dfu_inv (d\<lparr>saw_write := True\<rparr>) p" using inv by (simp add: dfu_inv_def)
  obtain d1 q where d1: "ensure_indirect_mode hw (d\<lparr>saw_write := True\<rparr>) = Some d1"
    and q: "program_loop hw (a - FLASH_BASE) (unat len) (buffer d1) 0 (qspi d1) = Some q"
    and r: "r = Inr ()" "d' = d1\<lparr>qspi := q\<rparr>"
    using run range by (auto simp: dfu_program_def Let_def split: Option.bind_splits)
  from ensure_indirect_inv [OF inv' d1] obtain p1 where p1: "dfu_inv d1 p1" "\<not> in_mm_mode d1"
    "rdy (qspi d1) p1" "\<not> c_ax p1" "c_mem p1 = c_mem p"
    "buffer d1 = buffer d" "buffer_len d1 = buffer_len d" "saw_write d1" by auto
  have "unat len \<le> length (buffer d1)" using p1(1,7) range(2) by (simp add: dfu_inv_def)
  from program_loop_rdy [OF p1(3,4) _ this off, of 0] q obtain p' where
    "rdy q p'" "\<not> c_ax p'"
    "c_mem p' = programmed_range (unat (a - FLASH_BASE)) (unat (a - FLASH_BASE) + unat len)
       (buffer d1) (c_mem p1)" by auto
  then show ?thesis using p1 r by (intro exI [of _ p']) (auto simp: dfu_inv_def)
qed

lemma dfu_program_returns:
  assumes inv: "dfu_inv d p" and "\<not> in_mm_mode d"
  shows "dfu_program hw a len d \<noteq> None"
proof (cases "contains_range a len \<and> unat len \<le> buffer_len d")
  case False
  then show ?thesis by (auto simp: dfu_program_def Let_def not_le)
next
  case True
  then have off: "unat (a - FLASH_BASE) + unat len \<le> flash_size"
    by (auto simp: contains_range_def flash_consts flash_size_def word_le_nat_alt unat_sub)
  have "unat len \<le> length (buffer d)" using inv True by (simp add: dfu_inv_def)
  moreover have "rdy (qspi d) p" "\<not> c_ax p" using assms by (simp_all add: dfu_inv_def)
  ultimately obtain q where "program_loop hw (a - FLASH_BASE) (unat len) (buffer d) 0 (qspi d) = Some q"
    using program_loop_rdy [OF _ _ _ _ off, of "qspi d" p 0 "buffer d"] by blast
  then show ?thesis
    using assms(2) True by (simp add: dfu_program_def Let_def ensure_indirect_mode_def not_less)
qed

lemma dfu_erase_spec:
  assumes inv: "dfu_inv d p" and range: "contains a" and run: "dfu_erase hw a d = Some (r, d')"
  shows "\<exists>p'. r = Inr () \<and> dfu_inv d' p' \<and> saw_write d' \<and> \<not> in_mm_mode d' \<and> buffer d' = buffer d \<and>
     buffer_len d' = buffer_len d \<and>
     c_mem p' = erase_sector_mem (unat (a - FLASH_BASE)) (c_mem p)"
proof -
  have off: "unat (a - FLASH_BASE) mod flash_size = unat (a - FLASH_BASE)"
    using range by (auto simp: contains_def flash_consts flash_size_def word_le_nat_alt
        word_less_nat_alt unat_sub)
  have inv': "dfu_inv (d\<lparr>saw_write := True\<rparr>) p" using inv by (simp add: dfu_inv_def)
  obtain d1 where d1: "ensure_indirect_mode hw (d\<lparr>saw_write := True\<rparr>) = Some d1"
    and r: "r = Inr ()" "d' = d1\<lparr>qspi := erase_sector_4k hw (a - FLASH_BASE) (qspi d1)\<rparr>"
    using run range by (auto simp: dfu_erase_def Let_def split: Option.bind_splits)
  from ensure_indirect_inv [OF inv' d1] obtain p1 where p1: "dfu_inv d1 p1" "\<not> in_mm_mode d1"
    "rdy (qspi d1) p1" "\<not> c_ax p1" "c_mem p1 = c_mem p"
    "buffer d1 = buffer d" "buffer_len d1 = buffer_len d" "saw_write d1" by auto
  from rdy_erase_sector_4k [OF p1(3,4), of "a - FLASH_BASE"] show ?thesis
    using p1 r off by (intro exI [of _ "erased_sector (unat (a - FLASH_BASE)) p1"])
      (auto simp: dfu_inv_def erased_sector_def)
qed

lemma dfu_erase_all_spec:
  assumes inv: "dfu_inv d p" and run: "dfu_erase_all hw d = Some (r, d')"
  shows "\<exists>p'. r = Inr () \<and> dfu_inv d' p' \<and> saw_write d' \<and> \<not> in_mm_mode d' \<and> buffer d' = buffer d \<and>
     buffer_len d' = buffer_len d \<and>
     c_mem p' = (\<lambda>x. if x < flash_size then 0xFF else c_mem p x)"
proof -
  have inv': "dfu_inv (d\<lparr>saw_write := True\<rparr>) p" using inv by (simp add: dfu_inv_def)
  obtain d1 where d1: "ensure_indirect_mode hw (d\<lparr>saw_write := True\<rparr>) = Some d1"
    and r: "r = Inr ()" "d' = d1\<lparr>qspi := erase_loop hw 0 (qspi d1)\<rparr>"
    using run by (auto simp: dfu_erase_all_def Let_def split: Option.bind_splits)
  from ensure_indirect_inv [OF inv' d1] obtain p1 where p1: "dfu_inv d1 p1" "\<not> in_mm_mode d1"
    "rdy (qspi d1) p1" "\<not> c_ax p1" "c_mem p1 = c_mem p"
    "buffer d1 = buffer d" "buffer_len d1 = buffer_len d" "saw_write d1" by auto
  from erase_loop_rdy [OF p1(3,4), of 0] obtain p' where
    "rdy (erase_loop hw 0 (qspi d1)) p'" "\<not> c_ax p'"
    "c_mem p' = (\<lambda>x. if x < flash_size then 0xFF else c_mem p1 x)" by auto
  then show ?thesis using p1 r by (intro exI [of _ p']) (auto simp: dfu_inv_def)
qed

end

text \<open>A board whose mapped window reads the flash when the read configuration fits the chip.\<close>

locale xip_board = qspi_board +
  assumes xip_view: "view s = (k, p) \<Longrightarrow> k_mode k = KMapped c \<Longrightarrow>
      view (snd (hw_xip hw a s)) = (k, xip_frame c (k_abr k) a p)"
    and xip_byte: "view s = (k, p) \<Longrightarrow> k_mode k = KMapped c \<Longrightarrow> xip_aligned c p \<Longrightarrow>
      fst (hw_xip hw a s) = c_mem p (unat (a AND 0x7FFFFF))"
begin

lemma xip_frame_quad: "xip_frame xip_ccr 0xA0 a p = p\<lparr>c_ax := True, c_rsten := False\<rparr>"
proof -
  have f: "fld 8 2 xip_ccr = 1" "fld 14 2 xip_ccr = 3" "ucast xip_ccr = (0xEB :: u8)"
    by (simp_all add: xip_ccr_def ccr_bits_def ccr0_def fld_def cmd_defs)
  show ?thesis
    by (simp add: xip_frame_def op_bytes_def mode_bytes_def addr_bytes_def f chip_frame_def chip_op_def)
qed

lemma xip_aligned_quad: "c_qe p \<Longrightarrow> c_params p = 0xF0 \<Longrightarrow> xip_aligned xip_ccr p"
proof -
  assume a: "c_qe p" "c_params p = 0xF0"
  have f: "fld 14 2 xip_ccr = 3" "ucast xip_ccr = (0xEB :: u8)" "fld 18 5 xip_ccr = 6"
    by (simp_all add: xip_ccr_def ccr_bits_def ccr0_def fld_def cmd_defs)
  show ?thesis using a by (simp add: xip_aligned_def f dummy_cycles_def)
qed

lemma mapped_xip:
  assumes "mapped s p" "c_params p = 0xF0" "hw_xip hw a s = (v, s')"
  shows "mapped s' (p\<lparr>c_ax := True, c_rsten := False\<rparr>)"
    "c_qe p \<Longrightarrow> v = c_mem p (unat (a AND 0x7FFFFF))"
proof -
  from assms(1) obtain k where k: "view s = (k\<lparr>k_mode := KMapped xip_ccr\<rparr>, p)" "ready k" "k_abr k = 0xA0"
    by (auto simp: mapped_def)
  show "mapped s' (p\<lparr>c_ax := True, c_rsten := False\<rparr>)"
    using xip_view [OF k(1), of xip_ccr a] k assms(3)
    by (auto simp: mapped_def xip_frame_quad)
  show "v = c_mem p (unat (a AND 0x7FFFFF))" if "c_qe p"
    using xip_byte [OF k(1) _ xip_aligned_quad [OF that assms(2)], of a] assms(3) by simp
qed

lemma window_index:
  assumes "contains_range a len" "i < unat len"
  shows "unat ((a + of_nat i) AND 0x7FFFFF) = unat (a - FLASH_BASE) + i"
proof -
  have r: "0x90000000 \<le> unat a" "unat a + unat len \<le> 0x90800000"
    using assms(1) by (auto simp: contains_range_def flash_consts word_le_nat_alt unat_sub)
  have i: "i < 2 ^ 32" using assms(2) unsigned_less [of len] by (simp add: less_trans)
  have "unat (a + of_nat i) = unat a + i"
    using r assms(2) i by (simp add: unat_word_ariths unat_of_nat)
  moreover have m: "(0x7FFFFF :: u32) = mask 23" by (simp add: mask_eq_exp_minus_1)
  ultimately have "unat ((a + of_nat i) AND 0x7FFFFF) = (unat a + i) mod 8388608"
    unfolding m by (simp add: take_bit_eq_mask [symmetric] unsigned_take_bit_eq take_bit_eq_mod unat_mod_distrib)
  also have "\<dots> = unat a - 0x90000000 + i"
  proof -
    have "unat a + i = (unat a - 0x90000000 + i) + 288 * 8388608" using r by simp
    moreover have "unat a - 0x90000000 + i < 8388608" using r assms(2) by simp
    ultimately show ?thesis by (metis mod_less mod_mult_self1)
  qed
  also have "unat a - 0x90000000 = unat (a - FLASH_BASE)"
    using r by (simp add: flash_consts unat_sub word_le_nat_alt)
  finally show ?thesis .
qed

lemma read_bytes_spec:
  assumes "dfu_inv d p" "in_mm_mode d" "contains_range a len" "n \<le> unat len" "n \<le> TRANSFER_SIZE"
  shows "\<exists>p'. dfu_inv (read_bytes hw a n d) p' \<and> in_mm_mode (read_bytes hw a n d) \<and>
     c_mem p' = c_mem p \<and> c_qe p' = c_qe p \<and> saw_write (read_bytes hw a n d) = saw_write d \<and>
     (c_qe p \<longrightarrow> (\<forall>i < n. buffer (read_bytes hw a n d) ! i = c_mem p (unat (a - FLASH_BASE) + i)))"
  using assms(4,5)
proof (induction n)
  case 0
  then show ?case using assms(1,2) by auto
next
  case (Suc n)
  define d1 where "d1 = read_bytes hw a n d"
  from Suc obtain p1 where p1: "dfu_inv d1 p1" "in_mm_mode d1" "c_mem p1 = c_mem p" "c_qe p1 = c_qe p"
    "saw_write d1 = saw_write d"
    "c_qe p \<longrightarrow> (\<forall>i < n. buffer d1 ! i = c_mem p (unat (a - FLASH_BASE) + i))"
    by (auto simp: d1_def)
  obtain v q where x: "hw_xip hw (a + of_nat n) (qspi d1) = (v, q)" by fastforce
  have m: "mapped (qspi d1) p1" "c_params p1 = 0xF0" and l: "length (buffer d1) = TRANSFER_SIZE"
    using p1(1,2) by (simp_all add: dfu_inv_def)
  have v: "v = c_mem p (unat (a - FLASH_BASE) + n)" if "c_qe p"
    using mapped_xip(2) [OF m x] that p1(3,4) window_index [OF assms(3), of n] Suc.prems by simp
  have "read_bytes hw a (Suc n) d = d1\<lparr>qspi := q, buffer := (buffer d1)[n := v]\<rparr>"
    by (simp add: d1_def [symmetric] x)
  then show ?case
    using mapped_xip(1) [OF m x] p1 l m v Suc.prems
    by (intro exI [of _ "p1\<lparr>c_ax := True, c_rsten := False\<rparr>"])
       (auto simp: dfu_inv_def nth_list_update less_Suc_eq)
qed

lemma dfu_read_spec:
  assumes inv: "dfu_inv d p" and range: "contains_range a len" and run: "dfu_read hw a len d = (r, d')"
  shows "\<exists>p' bs. r = Inr bs \<and> dfu_inv d' p' \<and> in_mm_mode d' \<and> saw_write d' = saw_write d \<and>
     c_mem p' = c_mem p \<and> length bs = min (unat len) TRANSFER_SIZE \<and>
     ((in_mm_mode d \<longrightarrow> c_qe p) \<longrightarrow> (\<forall>i < length bs. bs ! i = c_mem p (unat (a - FLASH_BASE) + i)))"
proof -
  define n where "n = min (unat len) (length (buffer d))"
  have l: "length (buffer d) = TRANSFER_SIZE" using inv by (simp add: dfu_inv_def)
  from ensure_mm_inv [OF inv] obtain p1 where p1: "dfu_inv (ensure_mm_mode hw d) p1"
    "in_mm_mode (ensure_mm_mode hw d)" "c_mem p1 = c_mem p" "(in_mm_mode d \<longrightarrow> c_qe p) \<longrightarrow> c_qe p1"
    "saw_write (ensure_mm_mode hw d) = saw_write d" by blast
  from read_bytes_spec [OF p1(1,2) range, of n] obtain p' where p':
    "dfu_inv (read_bytes hw a n (ensure_mm_mode hw d)) p'" "in_mm_mode (read_bytes hw a n (ensure_mm_mode hw d))"
    "c_mem p' = c_mem p1" "c_qe p' = c_qe p1"
    "saw_write (read_bytes hw a n (ensure_mm_mode hw d)) = saw_write (ensure_mm_mode hw d)"
    "c_qe p1 \<longrightarrow> (\<forall>i < n. buffer (read_bytes hw a n (ensure_mm_mode hw d)) ! i =
       c_mem p1 (unat (a - FLASH_BASE) + i))" by (auto simp: n_def l)
  have d': "d' = read_bytes hw a n (ensure_mm_mode hw d)" "r = Inr (take n (buffer d'))"
    using run range by (auto simp: dfu_read_def n_def Let_def)
  have "length (buffer d') = TRANSFER_SIZE" using p'(1) by (simp add: d'(1) dfu_inv_def)
  then have lt: "length (take n (buffer d')) = min (unat len) TRANSFER_SIZE" by (simp add: n_def l)
  show ?thesis
    using p' p1 d' lt by (intro exI [of _ p'] exI [of _ "take n (buffer d')"]) (auto simp: n_def l)
qed

end

interpretation xbrd: xip_board "board_hw raw" "\<lambda>b. (b_ctl b, b_chip b)" for raw
  by unfold_locales (auto simp: board_hw_def Let_def split: prod.splits)

subsection \<open>Properties over an arbitrary board\<close>

text \<open>Between calls of the DFU class: the buffer's bounds, the controller enabled and in the mode the
  flag says, and the chip decoding commands whenever the controller is in indirect mode.\<close>

definition dfu_ok :: "'h board dfu \<Rightarrow> bool" where
  "dfu_ok d \<longleftrightarrow> length (buffer d) = TRANSFER_SIZE \<and> buffer_len d \<le> TRANSFER_SIZE \<and>
     bit (k_cr (b_ctl (qspi d))) 0 \<and> \<not> bit (k_cr (b_ctl (qspi d))) 1 \<and>
     (if in_mm_mode d
      then k_mode (b_ctl (qspi d)) = KMapped xip_ccr \<and> k_abr (b_ctl (qspi d)) = 0xA0 \<and>
        c_params (b_chip (qspi d)) = 0xF0
      else k_mode (b_ctl (qspi d)) = KIdle \<and> \<not> c_ax (b_chip (qspi d)))"

abbreviation flash_mem :: "'h board dfu \<Rightarrow> nat \<Rightarrow> u8" where
  "flash_mem d \<equiv> c_mem (b_chip (qspi d))"

lemma dfu_inv_board: "brd.dfu_inv d p \<longleftrightarrow> dfu_ok d \<and> p = b_chip (qspi d)"
proof -
  have "brd.mapped q p \<longleftrightarrow> p = b_chip q \<and> k_mode (b_ctl q) = KMapped xip_ccr \<and> k_abr (b_ctl q) = 0xA0 \<and>
      bit (k_cr (b_ctl q)) 0 \<and> \<not> bit (k_cr (b_ctl q)) 1" (is "?l \<longleftrightarrow> ?r") for q :: "'a board"
  proof
    assume ?l then show ?r by (auto simp: brd.mapped_def ready_def)
  next
    assume ?r then show ?l
      unfolding brd.mapped_def
      by (intro exI [of _ "b_ctl q\<lparr>k_mode := KIdle\<rparr>"]) (simp add: ready_def)
  qed
  then show ?thesis
    by (auto simp: brd.dfu_inv_def dfu_ok_def brd.rdy_def ready_def)
qed

lemma dfu_program_board:
  assumes ok: "dfu_ok d" and run: "dfu_program (board_hw raw) a len d = Some (r, d')"
  shows "dfu_ok d' \<and> saw_write d' \<and>
     (if \<not> contains_range a len then r = Inl AddressErr \<and> flash_mem d' = flash_mem d
      else if buffer_len d < unat len then r = Inl ProgErr \<and> flash_mem d' = flash_mem d
      else r = Inr () \<and> \<not> in_mm_mode d' \<and>
        flash_mem d' = programmed_range (unat (a - FLASH_BASE))
        (unat (a - FLASH_BASE) + unat len) (buffer d) (flash_mem d))"
proof (cases "contains_range a len \<and> unat len \<le> buffer_len d")
  case False
  then show ?thesis using assms by (auto simp: dfu_program_def Let_def dfu_ok_def not_le split: if_splits)
next
  case True
  have "brd.dfu_inv d (b_chip (qspi d))" using ok by (simp add: dfu_inv_board)
  from brd.dfu_program_spec [OF this _ _ run] True show ?thesis
    by (auto simp: dfu_inv_board)
qed

lemma dfu_program_board_returns:
  "dfu_ok d \<Longrightarrow> \<not> in_mm_mode d \<Longrightarrow> \<exists>r d'. dfu_program (board_hw raw) a len d = Some (r, d')"
  using brd.dfu_program_returns [of d "b_chip (qspi d)" raw a len] by (auto simp: dfu_inv_board)

text \<open>C3: on any board, whatever its registers answer, programming writes exactly the
  requested bytes of the buffer into the flash (clearing bits only) and nothing else, rejects
  what leaves the flash or the buffer without touching it, and always returns from indirect
  mode: none of the driver's assertions fires and no slice is out of bounds.\<close>

theorem dfu_program_exact:
  assumes ok: "dfu_ok d"
  shows "(\<not> in_mm_mode d \<longrightarrow> (\<exists>r d'. dfu_program (board_hw raw) a len d = Some (r, d'))) \<and>
    (\<forall>r d'. dfu_program (board_hw raw) a len d = Some (r, d') \<longrightarrow> dfu_ok d' \<and> saw_write d' \<and>
     (if \<not> contains_range a len then r = Inl AddressErr \<and> flash_mem d' = flash_mem d
      else if buffer_len d < unat len then r = Inl ProgErr \<and> flash_mem d' = flash_mem d
      else r = Inr () \<and> flash_mem d' = programmed_range (unat (a - FLASH_BASE))
        (unat (a - FLASH_BASE) + unat len) (buffer d) (flash_mem d)))"
  using dfu_program_board [OF ok] dfu_program_board_returns [OF ok] by (auto split: if_splits)

text \<open>A concrete board around the quiet device; the chip's bytes are all erased.\<close>

definition demo_dfu :: "unit board dfu" where
  "demo_dfu =
     \<lparr>qspi = \<lparr>b_raw = (), b_ctl = \<lparr>k_cr = 1, k_dlr = 0, k_abr = 0, k_mode = KIdle, k_rx = None\<rparr>,
        b_chip = \<lparr>c_mem = (\<lambda>_. 0xFF), c_ax = False, c_wel = False, c_qe = False, c_params = 0xE0,
          c_rsten = False\<rparr>, b_burnt = 0\<rparr>,
      buffer = [1, 2, 3] @ replicate 125 0, buffer_len = 3, in_mm_mode = False, saw_write = False\<rparr>"

lemma demo_dfu_ok: "dfu_ok demo_dfu" "\<not> in_mm_mode demo_dfu"
  by (simp_all add: dfu_ok_def demo_dfu_def TRANSFER_SIZE_def)

theorem dfu_program_exact_witness:
  "\<exists>d'. dfu_program (board_hw quiet_hw) 0x900000FE 3 demo_dfu = Some (Inr (), d') \<and>
     flash_mem d' 0xFD = 0xFF \<and> flash_mem d' 0xFE = 1 \<and> flash_mem d' 0xFF = 2 \<and>
     flash_mem d' 0x100 = 3 \<and> flash_mem d' 0x101 = 0xFF"
proof -
  have rng: "contains_range 0x900000FE 3" "\<not> buffer_len demo_dfu < unat (3 :: u32)"
    by (simp_all add: contains_range_def flash_consts demo_dfu_def)
  note ex = dfu_program_exact [OF demo_dfu_ok(1), of quiet_hw "0x900000FE" 3]
  from ex demo_dfu_ok(2) obtain r d' where run:
    "dfu_program (board_hw quiet_hw) 0x900000FE 3 demo_dfu = Some (r, d')" by blast
  with ex rng have "r = Inr ()" "flash_mem d' = programmed_range 0xFE (0xFE + 3) (buffer demo_dfu) (flash_mem demo_dfu)"
    by (auto simp: FLASH_BASE_def)
  then show ?thesis using run by (simp add: programmed_range_def demo_dfu_def)
qed

text \<open>Erasing a sector, or the whole flash, sets exactly that range to 0xFF.\<close>

theorem dfu_erase_exact:
  assumes ok: "dfu_ok d"
  shows "(dfu_erase (board_hw raw) a d = Some (r, d') \<longrightarrow> dfu_ok d' \<and> saw_write d' \<and>
      (if contains a then r = Inr () \<and>
         flash_mem d' = (\<lambda>x. if x div SECTOR_SIZE = unat (a - FLASH_BASE) div SECTOR_SIZE then 0xFF
           else flash_mem d x)
       else r = Inl AddressErr \<and> flash_mem d' = flash_mem d)) \<and>
    (dfu_erase_all (board_hw raw) d = Some (r, d') \<longrightarrow> dfu_ok d' \<and> saw_write d' \<and> r = Inr () \<and>
      (\<forall>x < flash_size. flash_mem d' x = 0xFF) \<and> (\<forall>x \<ge> flash_size. flash_mem d' x = flash_mem d x))"
proof -
  have inv: "brd.dfu_inv d (b_chip (qspi d))" using ok by (simp add: dfu_inv_board)
  show ?thesis
  proof (intro conjI impI)
    assume run: "dfu_erase (board_hw raw) a d = Some (r, d')"
    show "dfu_ok d'" "saw_write d'"
      "if contains a then r = Inr () \<and>
         flash_mem d' = (\<lambda>x. if x div SECTOR_SIZE = unat (a - FLASH_BASE) div SECTOR_SIZE then 0xFF
           else flash_mem d x)
       else r = Inl AddressErr \<and> flash_mem d' = flash_mem d"
      using brd.dfu_erase_spec [OF inv _ run] run ok
      by (auto simp: dfu_inv_board erase_sector_mem_def dfu_erase_def Let_def dfu_ok_def split: if_splits)
  next
    assume run: "dfu_erase_all (board_hw raw) d = Some (r, d')"
    from brd.dfu_erase_all_spec [OF inv run]
    show "dfu_ok d'" "saw_write d'" "r = Inr ()" "\<forall>x < flash_size. flash_mem d' x = 0xFF"
      "\<forall>x \<ge> flash_size. flash_mem d' x = flash_mem d x"
      by (auto simp: dfu_inv_board)
  qed
qed

theorem dfu_erase_exact_witness:
  "\<exists>d'. dfu_erase (board_hw quiet_hw) 0x90001234 demo_dfu = Some (Inr (), d') \<and>
     flash_mem d' 0x1FFF = 0xFF \<and> dfu_ok d'"
proof -
  have c: "contains 0x90001234" by (simp add: contains_def flash_consts)
  obtain d' where run: "dfu_erase (board_hw quiet_hw) 0x90001234 demo_dfu = Some (Inr (), d')"
    using c demo_dfu_ok(2) by (simp add: dfu_erase_def ensure_indirect_mode_def Let_def)
  with dfu_erase_exact [OF demo_dfu_ok(1), of quiet_hw "0x90001234" "Inr ()" d'] c
  show ?thesis by (auto simp: SECTOR_SIZE_def FLASH_BASE_def)
qed

lemma dfu_read_board:
  assumes "dfu_ok d" "contains_range a len" "dfu_read (board_hw raw) a len d = (r, d')"
  shows "\<exists>bs. r = Inr bs \<and> dfu_ok d' \<and> in_mm_mode d' \<and> saw_write d' = saw_write d \<and>
     flash_mem d' = flash_mem d \<and> length bs = min (unat len) TRANSFER_SIZE \<and>
     ((in_mm_mode d \<longrightarrow> c_qe (b_chip (qspi d))) \<longrightarrow>
        (\<forall>i < length bs. bs ! i = flash_mem d (unat (a - FLASH_BASE) + i)))"
proof -
  have "brd.dfu_inv d (b_chip (qspi d))" using assms(1) by (simp add: dfu_inv_board)
  from xbrd.dfu_read_spec [OF this assms(2,3)] show ?thesis
    by (auto simp: dfu_inv_board)
qed

text \<open>C17: on any board and in either controller mode, a block of at most 128 bytes that is stored and then
  programmed into erased flash reads back through the memory-mapped window as that block, and reading
  changes no byte of the flash: the read path resets the chip, which clears its Quad-Enable bit,
  and sets the bit and the dummy cycles again before it maps the window. From
  indirect mode the programming always returns; from memory-mapped mode the claim is for the
  case that it does (the errata sequence on that path has no time limit).\<close>

theorem dfu_roundtrip:
  assumes ok: "dfu_ok d"
    and bs: "length bs \<le> TRANSFER_SIZE" "contains_range a (of_nat (length bs))"
    and erased: "\<forall>i < length bs. flash_mem d (unat (a - FLASH_BASE) + i) = 0xFF"
  shows "\<exists>d0. store_write_buffer bs d = (Inr (), d0) \<and>
     (\<not> in_mm_mode d \<longrightarrow> dfu_program (board_hw raw) a (of_nat (length bs)) d0 \<noteq> None) \<and>
     (\<forall>r d1. dfu_program (board_hw raw) a (of_nat (length bs)) d0 = Some (r, d1) \<longrightarrow> r = Inr () \<and>
       (\<exists>d2. dfu_read (board_hw raw) a (of_nat (length bs)) d1 = (Inr bs, d2) \<and>
         flash_mem d2 = flash_mem d1 \<and> dfu_ok d2))"
proof -
  let ?n = "of_nat (length bs) :: u32" and ?off = "unat (a - FLASH_BASE)"
  have n: "unat ?n = length bs" using bs(1) by (simp add: TRANSFER_SIZE_def unat_of_nat)
  define d0 where "d0 = d\<lparr>saw_write := True, buffer := bs @ drop (length bs) (buffer d), buffer_len := length bs\<rparr>"
  have l: "length (buffer d) = TRANSFER_SIZE" using ok(1) by (simp add: dfu_ok_def)
  have d0: "store_write_buffer bs d = (Inr (), d0)"
    using bs(1) l by (simp add: store_write_buffer_def d0_def)
  have ok0: "dfu_ok d0" using ok bs(1) l by (auto simp: dfu_ok_def d0_def)
  have ret: "\<not> in_mm_mode d \<longrightarrow> dfu_program (board_hw raw) a ?n d0 \<noteq> None"
    using dfu_program_board_returns [OF ok0] by (fastforce simp: d0_def)
  have "r = Inr () \<and> (\<exists>d2. dfu_read (board_hw raw) a ?n d1 = (Inr bs, d2) \<and>
      flash_mem d2 = flash_mem d1 \<and> dfu_ok d2)"
    if d1: "dfu_program (board_hw raw) a ?n d0 = Some (r, d1)" for r d1
  proof -
    from dfu_program_board [OF ok0 d1] bs(2) n have
      r: "r = Inr ()" "dfu_ok d1" "\<not> in_mm_mode d1"
      and m1: "flash_mem d1 = programmed_range ?off (?off + length bs) (buffer d0) (flash_mem d)"
      by (auto simp: d0_def)
    obtain r2 d2 where d2: "dfu_read (board_hw raw) a ?n d1 = (r2, d2)" by fastforce
    from dfu_read_board [OF r(2) bs(2) d2] obtain bs' where
      bs': "r2 = Inr bs'" "dfu_ok d2" "flash_mem d2 = flash_mem d1" "length bs' = length bs"
        "\<forall>i < length bs'. bs' ! i = flash_mem d1 (?off + i)"
      using r(3) n bs(1) by auto
    have "bs' = bs"
      using bs' erased by (intro nth_equalityI) (auto simp: m1 programmed_range_def d0_def nth_append)
    then show ?thesis using d2 r bs' by blast
  qed
  then show ?thesis using d0 ret by blast
qed

theorem dfu_roundtrip_witness:
  "\<exists>d0 d1 d2. store_write_buffer [9, 8] demo_dfu = (Inr (), d0) \<and>
     dfu_program (board_hw quiet_hw) 0x90000FFF 2 d0 = Some (Inr (), d1) \<and>
     dfu_read (board_hw quiet_hw) 0x90000FFF 2 d1 = (Inr [9, 8], d2)"
proof -
  have a: "length [9, 8 :: u8] \<le> TRANSFER_SIZE"
    "contains_range 0x90000FFF (of_nat (length [9, 8 :: u8]))"
    "\<forall>i < length [9, 8 :: u8]. flash_mem demo_dfu (unat (0x90000FFF - FLASH_BASE) + i) = 0xFF"
    by (simp_all add: demo_dfu_def TRANSFER_SIZE_def contains_range_def flash_consts)
  from dfu_roundtrip [OF demo_dfu_ok(1) a, of quiet_hw] demo_dfu_ok(2) show ?thesis by fastforce
qed

text \<open>C29: a controller whose busy flag never clears makes the DFU memory hang for ever: on
  start-up, and on the first write after a read-back, although every other wait of the driver
  is bounded.\<close>

theorem stuck_flash_wedges_dfu:
  assumes stuck: "always_busy hw"
  shows "dfu_new hw saw q = None \<and>
    (in_mm_mode d \<longrightarrow> dfu_erase_all hw d = None \<and>
       (contains a \<longrightarrow> dfu_erase hw a d = None) \<and>
       (contains_range a len \<and> unat len \<le> buffer_len d \<longrightarrow> dfu_program hw a len d = None))"
proof -
  have "ensure_indirect_mode hw e = None" if "in_mm_mode e" for e
    using that by (simp add: ensure_indirect_mode_def recover_stuck [OF stuck])
  then show ?thesis
    by (simp add: dfu_new_def recover_stuck [OF stuck] dfu_erase_all_def dfu_erase_def
        dfu_program_def Let_def not_less)
qed

theorem stuck_flash_wedges_dfu_witness:
  "dfu_new (quiet_hw\<lparr>hw_read := (\<lambda>_ h. (0x20, h))\<rparr>) False () = None"
proof -
  have "always_busy (quiet_hw\<lparr>hw_read := (\<lambda>_ h. (0x20, h))\<rparr>)"
    by (simp add: always_busy_def)
  from stuck_flash_wedges_dfu [OF this] show ?thesis by blast
qed

end
