(* ===== verification/Boot.thy ===== *)
theory Boot
  imports Image Dfu_Mem
begin

text \<open>
  The boot flow: Backup SRAM with the DFU-request flag (daisy-bsp/src/reset.rs) and the
  frozen-clocks hand-off (clocks.rs), the clock plan, and the bootloader's main function
  (daisy-boot/src/main.rs): the boot decision, the boot window, the service-mode loop and the
  jump. The layout of the third-party \<open>CoreClocks\<close> is a parameter.
\<close>

subsection \<open>Backup SRAM\<close>

text \<open>Words by byte address. A read or write without the peripheral clock (BKPRAMEN, bit 28)
  hard-faults, the value \<open>None\<close>; a write without the backup-domain write enable (DBP, bit 8) is
  dropped.\<close>

record bkp =
  pwr_cr1 :: u32
  rcc_ahb4enr :: u32
  sram :: "u32 \<Rightarrow> u32"

definition BACKUP_SRAM_BASE :: u32 where "BACKUP_SRAM_BASE = 0x38800000"
definition DFU_REQUEST_ADDR :: u32 where "DFU_REQUEST_ADDR = BACKUP_SRAM_BASE + 0x0FFC"
definition DFU_REQUEST_MAGIC :: u32 where "DFU_REQUEST_MAGIC = 0xB007D45E"

definition bkp_read :: "u32 \<Rightarrow> bkp \<Rightarrow> u32 option" where
  "bkp_read a s = (if bit (rcc_ahb4enr s) 28 then Some (sram s a) else None)"

definition bkp_write :: "u32 \<Rightarrow> u32 \<Rightarrow> bkp \<Rightarrow> bkp option" where
  "bkp_write a v s =
     (if \<not> bit (rcc_ahb4enr s) 28 then None
      else if bit (pwr_cr1 s) 8 then Some (s\<lparr>sram := (sram s)(a := v)\<rparr>) else Some s)"

definition enable_backup_sram :: "bkp \<Rightarrow> bkp" where
  "enable_backup_sram s =
     (let s = s\<lparr>pwr_cr1 := pwr_cr1 s OR push_bit 8 1\<rparr>
      in s\<lparr>rcc_ahb4enr := rcc_ahb4enr s OR push_bit 28 1\<rparr>)"

text \<open>A soft reset: the PWR and RCC registers go to their reset values, Backup SRAM is kept.\<close>

definition reboot :: "bkp \<Rightarrow> bkp" where
  "reboot s = s\<lparr>pwr_cr1 := 0xF000C000, rcc_ahb4enr := 0\<rparr>"

definition reboot_to_bootloader :: "bkp \<Rightarrow> bkp option" where
  "reboot_to_bootloader s =
     do {
       s \<leftarrow> bkp_write DFU_REQUEST_ADDR DFU_REQUEST_MAGIC (enable_backup_sram s);
       Some (reboot s)
     }"

definition take_dfu_request :: "bkp \<Rightarrow> (bool \<times> bkp) option" where
  "take_dfu_request s =
     do {
       v \<leftarrow> bkp_read DFU_REQUEST_ADDR s;
       let requested = (v = DFU_REQUEST_MAGIC);
       if requested
       then do { s \<leftarrow> bkp_write DFU_REQUEST_ADDR 0 s; Some (requested, s) }
       else Some (requested, s)
     }"

text \<open>The hand-off. \<open>CoreClocks\<close> is a type of the HAL: its size, its words in memory, how
  words are read back as a value, its \<open>sys_ck\<close> and its \<open>hsi48_ck\<close> are the parameter.\<close>

record 'c layout =
  cc_size :: nat
  cc_words :: "'c \<Rightarrow> u32 list"
  cc_of_words :: "u32 list \<Rightarrow> 'c"
  cc_sys_ck :: "'c \<Rightarrow> u32"
  cc_hsi48_ck :: "'c \<Rightarrow> u32 option"

definition HANDOFF_ADDR :: u32 where "HANDOFF_ADDR = 0x38800000"
definition HANDOFF_MAGIC :: u32 where "HANDOFF_MAGIC = 0xDA15C0C0"

definition handoff_enable :: "bkp \<Rightarrow> bkp" where
  "handoff_enable s =
     (let s = s\<lparr>pwr_cr1 := pwr_cr1 s OR push_bit 8 1\<rparr>
      in s\<lparr>rcc_ahb4enr := rcc_ahb4enr s OR push_bit 28 1\<rparr>)"

fun write_words :: "u32 \<Rightarrow> u32 list \<Rightarrow> bkp \<Rightarrow> bkp option" where
  "write_words a [] s = Some s"
| "write_words a (v # vs) s = do { s \<leftarrow> bkp_write a v s; write_words (a + 4) vs s }"

fun read_words :: "u32 \<Rightarrow> nat \<Rightarrow> bkp \<Rightarrow> u32 list option" where
  "read_words a 0 s = Some []"
| "read_words a (Suc n) s = do { v \<leftarrow> bkp_read a s; vs \<leftarrow> read_words (a + 4) n s; Some (v # vs) }"

definition handoff_words :: "'c layout \<Rightarrow> 'c \<Rightarrow> u32 list" where
  "handoff_words lay clocks = [HANDOFF_MAGIC, cc_sys_ck lay clocks] @ cc_words lay clocks"

definition stash :: "'c layout \<Rightarrow> 'c \<Rightarrow> bkp \<Rightarrow> bkp option" where
  "stash lay clocks s = write_words HANDOFF_ADDR (handoff_words lay clocks) (handoff_enable s)"

definition restore :: "'c layout \<Rightarrow> bkp \<Rightarrow> ('c option \<times> bkp) option" where
  "restore lay s =
     (let s = handoff_enable s in
      do {
        m \<leftarrow> bkp_read HANDOFF_ADDR s;
        if m \<noteq> HANDOFF_MAGIC then Some (None, s)
        else do {
          ws \<leftarrow> read_words HANDOFF_ADDR (2 + cc_size lay) s;
          let clocks = cc_of_words lay (drop 2 ws);
          if cc_sys_ck lay clocks = ws ! 1 then Some (Some clocks, s) else Some (None, s)
        }
      })"

subsection \<open>Clock plan\<close>

text \<open>What \<open>clocks::init\<close> asks the HAL to freeze, in Hz.\<close>

record clock_plan =
  cp_vos0 :: bool
  cp_hse :: nat
  cp_sys_ck :: nat
  cp_pll1_iterative :: bool
  cp_pll2_p :: nat
  cp_pll2_r :: nat
  cp_pll3_fractional :: bool
  cp_pll3_p :: nat

definition use_480 :: "u32 \<Rightarrow> bool" where
  "use_480 idcode \<longleftrightarrow> idcode AND 0x0FFF = 0x450 \<and> 0x2003 \<le> drop_bit 16 idcode"

definition clocks_init :: "u32 \<Rightarrow> clock_plan" where
  "clocks_init idcode =
     \<lparr>cp_vos0 = use_480 idcode, cp_hse = 16000000,
      cp_sys_ck = (if use_480 idcode then 480000000 else 400000000),
      cp_pll1_iterative = use_480 idcode, cp_pll2_p = 40000000, cp_pll2_r = 200000000,
      cp_pll3_fractional = True, cp_pll3_p = 49152000\<rparr>"

subsection \<open>The bootloader\<close>

definition BOOT_WINDOW_CYCLES :: u32 where "BOOT_WINDOW_CYCLES = 400000000 * 8"
definition ALIVE_HALF_PERIOD_CYCLES :: u32 where "ALIVE_HALF_PERIOD_CYCLES = 400000000 div 4"
definition SERVICE_HALF_PERIOD_CYCLES :: u32 where "SERVICE_HALF_PERIOD_CYCLES = 400000000 div 2"

text \<open>The AXI erratum gate of early init: the interconnect register is written on old silicon.\<close>

definition axi_workaround :: "u32 \<Rightarrow> u32 \<Rightarrow> u32" where
  "axi_workaround idcode fn_mod = (if idcode AND 0xFFFF0000 < 0x20000000 then 1 else fn_mod)"

definition read_word :: "'s hw \<Rightarrow> u32 \<Rightarrow> 's \<Rightarrow> u32 \<times> 's" where
  "read_word hw a q =
     (let (b0, q) = hw_xip hw a q;
          (b1, q) = hw_xip hw (a + 1) q;
          (b2, q) = hw_xip hw (a + 2) q;
          (b3, q) = hw_xip hw (a + 3) q
      in (u32_from_le b0 b1 b2 b3, q))"

datatype boot_path = ServiceMode | BootWindow

text \<open>
  The supply detector of the USB pins: PWR_CR3 over an opaque device whose reads may answer
  anything. USB33DEN is bit 24, USB33RDY bit 26; the wait for it has no bound and is \<open>None\<close> when it
  does not end.
\<close>

record 'p pwr_cr3 =
  cr3_read :: "'p \<Rightarrow> u32 \<times> 'p"
  cr3_write :: "u32 \<Rightarrow> 'p \<Rightarrow> 'p"

partial_function (option) usb33_wait :: "'p pwr_cr3 \<Rightarrow> 'p \<Rightarrow> 'p option" where
  "usb33_wait pw u = (let (v, u) = cr3_read pw u in if bit v 26 then Some u else usb33_wait pw u)"

definition usb33_enable :: "'p pwr_cr3 \<Rightarrow> 'p \<Rightarrow> 'p option" where
  "usb33_enable pw u =
     (let (v, u) = cr3_read pw u in usb33_wait pw (cr3_write pw (set_bit 24 v) u))"

text \<open>Up to the branch: stash the clocks (which enables Backup SRAM), consume the request, see that the
  USB kernel clock runs (a panic if not), switch the supply detector on, map the flash, look at the
  vector table, decide. \<open>None\<close> is the panic, a fault or a wait that does not end.\<close>

definition boot_decision ::
    "'c layout \<Rightarrow> 'c \<Rightarrow> 'p pwr_cr3 \<Rightarrow> 's hw \<Rightarrow> bkp \<Rightarrow> 'p \<Rightarrow> 's \<Rightarrow> (boot_path \<times> bkp \<times> 'p \<times> 's) option"
  where
  "boot_decision lay clocks pw hw s u q =
     do {
       s \<leftarrow> stash lay clocks s;
       (force_dfu, s) \<leftarrow> take_dfu_request s;
       _ \<leftarrow> cc_hsi48_ck lay clocks;
       u \<leftarrow> usb33_enable pw u;
       let q = init_memory_mapped hw q;
       let (msp, q) = read_word hw app_base q;
       let (rst, q) = read_word hw (app_base + 4) q;
       let qspi_looks_valid = is_plausible_image msp rst;
       Some ((if force_dfu \<or> \<not> qspi_looks_valid then ServiceMode else BootWindow), s, u, q)
     }"

text \<open>
  The boot window. A poll is the counter reading at the top of an iteration and whether
  the DFU memory has seen a write once the USB device has been polled; the outcome comes
  with the changes made to the LED. \<open>Pending\<close>: no exit within the given polls.
\<close>

datatype window_outcome = Pending | JumpToApp | CommitService

fun boot_window :: "u32 \<Rightarrow> bool \<Rightarrow> (u32 \<times> bool) list \<Rightarrow> window_outcome \<times> bool list" where
  "boot_window start led_on [] = (Pending, [])"
| "boot_window start led_on ((now, saw) # polls) =
     (let elapsed = now - start in
      if BOOT_WINDOW_CYCLES \<le> elapsed then (JumpToApp, [])
      else
        let should_be_on = ((elapsed div ALIVE_HALF_PERIOD_CYCLES) mod 2 = 0);
            led = (if should_be_on \<noteq> led_on then [should_be_on] else [])
        in if saw then (CommitService, led @ [True])
           else let (r, led') = boot_window start should_be_on polls in (r, led @ led'))"

text \<open>Service mode: the USB device states and the blink rate they select.\<close>

datatype usb_state = UsbDefault | UsbAddressed | UsbConfigured | UsbSuspend

definition service_half_period :: "usb_state \<Rightarrow> u32" where
  "service_half_period st =
     (case st of
        UsbDefault \<Rightarrow> SERVICE_HALF_PERIOD_CYCLES
      | UsbAddressed \<Rightarrow> SERVICE_HALF_PERIOD_CYCLES div 3
      | UsbConfigured \<Rightarrow> SERVICE_HALF_PERIOD_CYCLES div 5
      | UsbSuspend \<Rightarrow> - 1)"

definition service_led :: "u32 \<Rightarrow> usb_state \<Rightarrow> bool" where
  "service_led elapsed st =
     (let half_period = service_half_period st in
      if half_period = - 1 then True else (elapsed div half_period) mod 2 = 0)"

fun service_loop :: "u32 \<Rightarrow> bool \<Rightarrow> (usb_state \<times> u32) list \<Rightarrow> bool list" where
  "service_loop start led_on [] = []"
| "service_loop start led_on ((st, now) # polls) =
     (let should_be_on = service_led (now - start) st in
      (if should_be_on \<noteq> led_on then [should_be_on] else []) @ service_loop start should_be_on polls)"

text \<open>The stage pulses, as LED levels with the delay in ms that follows each; the last entry is
  the gap, at the level the LED has.\<close>

fun stage_pulses :: "nat \<Rightarrow> (bool \<times> nat) list" where
  "stage_pulses 0 = [(False, 1000)]"
| "stage_pulses (Suc n) = [(True, 200), (False, 200)] @ stage_pulses n"

text \<open>Handing over: the USB core is soft-disconnected (DCTL.SDIS), memory-mapped mode is entered
  again, and the vector table is loaded as the hardware would.\<close>

record cpu =
  vtor :: u32
  sp :: u32
  pc :: u32

definition soft_disconnect :: "u32 \<Rightarrow> u32" where
  "soft_disconnect dctl = dctl OR push_bit 1 1"

definition jump_to_app :: "'s hw \<Rightarrow> u32 \<Rightarrow> 's \<Rightarrow> cpu \<times> 's" where
  "jump_to_app hw base q =
     (let (m, q) = read_word hw base q;
          (r, q) = read_word hw (base + 4) q
      in (\<lparr>vtor = base, sp = m, pc = r\<rparr>, q))"

definition hand_over :: "'s hw \<Rightarrow> 's dfu \<Rightarrow> cpu \<times> 's" where
  "hand_over hw d = jump_to_app hw app_base (enter_memory_mapped hw (release d))"

subsection \<open>Backup SRAM: what is written is read, and once\<close>

definition bkp_on :: "bkp \<Rightarrow> bool" where
  "bkp_on s \<longleftrightarrow> bit (rcc_ahb4enr s) 28 \<and> bit (pwr_cr1 s) 8"

lemma enable_on [simp]: "bkp_on (enable_backup_sram s)" "bkp_on (handoff_enable s)"
  by (simp_all add: bkp_on_def enable_backup_sram_def handoff_enable_def Let_def bit_simps)

lemma enable_sram [simp]: "sram (enable_backup_sram s) = sram s" "sram (handoff_enable s) = sram s"
  by (simp_all add: enable_backup_sram_def handoff_enable_def Let_def)

lemma bkp_write_on: "bkp_on s \<Longrightarrow> bkp_write a v s = Some (s\<lparr>sram := (sram s)(a := v)\<rparr>)"
  by (simp add: bkp_write_def bkp_on_def)

lemma bkp_read_on: "bkp_on s \<Longrightarrow> bkp_read a s = Some (sram s a)"
  by (simp add: bkp_read_def bkp_on_def)

lemma bkp_on_sram [simp]: "bkp_on (s\<lparr>sram := m\<rparr>) = bkp_on s"
  by (simp add: bkp_on_def)

fun store_words :: "u32 \<Rightarrow> u32 list \<Rightarrow> (u32 \<Rightarrow> u32) \<Rightarrow> u32 \<Rightarrow> u32" where
  "store_words a [] m = m"
| "store_words a (v # vs) m = store_words (a + 4) vs (m(a := v))"

lemma write_words_on:
  "bkp_on s \<Longrightarrow> write_words a vs s = Some (s\<lparr>sram := store_words a vs (sram s)\<rparr>)"
  by (induction a vs s rule: write_words.induct) (auto simp: bkp_write_on)

lemma read_words_on:
  "bkp_on s \<Longrightarrow> read_words a n s = Some (map (\<lambda>i. sram s (a + 4 * of_nat i)) [0..<n])"
proof (induction a n s rule: read_words.induct)
  case (2 a n s)
  have "map (\<lambda>i. sram s (a + 4 * of_nat i)) [0..<Suc n] =
      sram s a # map (\<lambda>i. sram s (a + 4 + 4 * of_nat i)) [0..<n]"
    by (subst upt_conv_Cons) (simp_all add: map_Suc_upt [symmetric] algebra_simps del: upt_Suc)
  then show ?case using 2 by (simp add: bkp_read_on del: upt_Suc)
qed simp

lemma store_words_below:
  "unat a + 4 * length vs < 2 ^ 32 \<Longrightarrow> unat x < unat a \<or> unat a + 4 * length vs \<le> unat x \<Longrightarrow>
     store_words a vs m x = m x"
proof (induction vs arbitrary: a m)
  case (Cons v vs)
  have "unat (a + 4) = unat a + 4" using Cons.prems(1) by (simp add: unat_word_ariths)
  moreover have "x \<noteq> a" using Cons.prems(2) by auto
  ultimately show ?case using Cons by auto
qed simp

lemma store_words_nth:
  "unat a + 4 * length vs < 2 ^ 32 \<Longrightarrow> i < length vs \<Longrightarrow>
     store_words a vs m (a + 4 * of_nat i) = vs ! i"
proof (induction vs arbitrary: a m i)
  case (Cons v vs)
  have u: "unat (a + 4) = unat a + 4" using Cons.prems(1) by (simp add: unat_word_ariths)
  show ?case
  proof (cases i)
    case 0
    have "store_words (a + 4) vs (m(a := v)) a = (m(a := v)) a"
      by (rule store_words_below) (use u Cons.prems in auto)
    then show ?thesis using 0 by simp
  next
    case (Suc j)
    have "a + 4 * of_nat i = (a + 4) + 4 * of_nat j" by (simp add: Suc algebra_simps)
    moreover have "store_words (a + 4) vs (m(a := v)) (a + 4 + 4 * of_nat j) = vs ! j"
      by (rule Cons.IH) (use Cons.prems u Suc in auto)
    ultimately show ?thesis using Suc by (simp only: store_words.simps nth_Cons_Suc)
  qed
qed simp

text \<open>The layout both programs are built with: it reads back what it wrote, in its size, and the
  structure stays below the request word.\<close>

definition wf_layout :: "'c layout \<Rightarrow> bool" where
  "wf_layout lay \<longleftrightarrow> (\<forall>c. length (cc_words lay c) = cc_size lay \<and> cc_of_words lay (cc_words lay c) = c) \<and>
     4 * (2 + cc_size lay) \<le> 0xFFC"

lemma stash_on:
  "stash lay c s = Some ((handoff_enable s)\<lparr>sram := store_words HANDOFF_ADDR (handoff_words lay c) (sram s)\<rparr>)"
  by (simp add: stash_def write_words_on)

lemma length_handoff_words: "wf_layout lay \<Longrightarrow> length (handoff_words lay c) = 2 + cc_size lay"
  by (simp add: wf_layout_def handoff_words_def)

lemma handoff_room: "wf_layout lay \<Longrightarrow> unat HANDOFF_ADDR + 4 * length (handoff_words lay c) < 2 ^ 32"
  by (simp add: length_handoff_words) (simp add: wf_layout_def HANDOFF_ADDR_def)

lemma stash_keeps_flag:
  "wf_layout lay \<Longrightarrow> stash lay c s = Some s' \<Longrightarrow> sram s' DFU_REQUEST_ADDR = sram s DFU_REQUEST_ADDR"
proof -
  assume lay: "wf_layout lay" and st: "stash lay c s = Some s'"
  have "store_words HANDOFF_ADDR (handoff_words lay c) (sram s) DFU_REQUEST_ADDR = sram s DFU_REQUEST_ADDR"
    by (rule store_words_below [OF handoff_room [OF lay]])
       (use lay in \<open>simp add: length_handoff_words\<close>,
        use lay in \<open>simp add: wf_layout_def HANDOFF_ADDR_def DFU_REQUEST_ADDR_def BACKUP_SRAM_BASE_def\<close>)
  then show ?thesis using st by (auto simp: stash_on)
qed

text \<open>A hand-off in memory: its words at the base.\<close>

definition holds_handoff :: "'c layout \<Rightarrow> 'c \<Rightarrow> bkp \<Rightarrow> bool" where
  "holds_handoff lay c s \<longleftrightarrow>
     (\<forall>i < 2 + cc_size lay. sram s (HANDOFF_ADDR + 4 * of_nat i) = handoff_words lay c ! i)"

lemma stash_holds: "wf_layout lay \<Longrightarrow> stash lay c s = Some s' \<Longrightarrow> holds_handoff lay c s'"
  using store_words_nth [OF handoff_room, of lay _ c "sram s"]
  by (auto simp: stash_on holds_handoff_def length_handoff_words)

lemma holds_flag_write:
  assumes "wf_layout lay"
  shows "holds_handoff lay c (s\<lparr>sram := (sram s)(DFU_REQUEST_ADDR := v)\<rparr>) \<longleftrightarrow> holds_handoff lay c s"
proof -
  have "HANDOFF_ADDR + 4 * of_nat i \<noteq> DFU_REQUEST_ADDR" if "i < 2 + cc_size lay" for i
  proof
    assume eq: "HANDOFF_ADDR + 4 * of_nat i = DFU_REQUEST_ADDR"
    have "4 * i < 0xFFC" using that assms by (auto simp: wf_layout_def)
    then have "unat (HANDOFF_ADDR + 4 * of_nat i) = 0x38800000 + 4 * i"
      by (simp add: HANDOFF_ADDR_def unat_word_ariths unat_of_nat)
    with eq \<open>4 * i < 0xFFC\<close> show False
      by (simp add: DFU_REQUEST_ADDR_def BACKUP_SRAM_BASE_def)
  qed
  then show ?thesis by (simp add: holds_handoff_def)
qed

lemma restore_holds:
  assumes lay: "wf_layout lay" and h: "holds_handoff lay c s"
  shows "restore lay s = Some (Some c, handoff_enable s)"
proof -
  let ?s = "handoff_enable s"
  let ?ws = "map (\<lambda>i. sram s (HANDOFF_ADDR + 4 * of_nat i)) [0..<2 + cc_size lay]"
  have ws: "?ws = handoff_words lay c"
    using h lay by (intro nth_equalityI) (auto simp: holds_handoff_def length_handoff_words
        simp del: upt_Suc)
  have m: "sram s HANDOFF_ADDR = HANDOFF_MAGIC"
    using h by (auto simp: holds_handoff_def handoff_words_def dest!: spec [of _ 0])
  have "read_words HANDOFF_ADDR (2 + cc_size lay) ?s = Some (handoff_words lay c)"
    using read_words_on [of ?s HANDOFF_ADDR "2 + cc_size lay"] ws by simp
  moreover have "drop 2 (handoff_words lay c) = cc_words lay c"
    "handoff_words lay c ! 1 = cc_sys_ck lay c"
    by (simp_all add: handoff_words_def)
  ultimately show ?thesis
    using lay m by (simp add: restore_def Let_def bkp_read_on wf_layout_def)
qed

lemma take_dfu_request_on:
  "bkp_on s \<Longrightarrow> take_dfu_request s =
     Some (sram s DFU_REQUEST_ADDR = DFU_REQUEST_MAGIC,
       if sram s DFU_REQUEST_ADDR = DFU_REQUEST_MAGIC
       then s\<lparr>sram := (sram s)(DFU_REQUEST_ADDR := 0)\<rparr> else s)"
  by (simp add: take_dfu_request_def bkp_read_on bkp_write_on Let_def)

text \<open>An application that asks for the bootloader gets it, once: whatever is in Backup SRAM,
  the next boot takes the request after stashing the clocks, the boot after that does not, and
  the hand-off of the clocks survives both.\<close>

theorem dfu_request_once:
  assumes lay: "wf_layout lay"
  shows "\<exists>s1 s2 s3 s4 s5. reboot_to_bootloader s = Some s1 \<and>
     stash lay c s1 = Some s2 \<and> take_dfu_request s2 = Some (True, s3) \<and>
     restore lay s3 = Some (Some c, s4) \<and>
     stash lay c' (reboot s4) = Some s5 \<and> (\<exists>s6. take_dfu_request s5 = Some (False, s6) \<and>
       restore lay s6 = Some (Some c', handoff_enable s6))"
proof -
  define s1 where "s1 = reboot ((enable_backup_sram s)\<lparr>sram := (sram s)(DFU_REQUEST_ADDR := DFU_REQUEST_MAGIC)\<rparr>)"
  have r: "reboot_to_bootloader s = Some s1"
    by (simp add: reboot_to_bootloader_def bkp_write_on s1_def)
  obtain s2 where s2: "stash lay c s1 = Some s2" by (simp add: stash_on)
  then have on2: "bkp_on s2" by (auto simp: stash_on)
  have f2: "sram s2 DFU_REQUEST_ADDR = DFU_REQUEST_MAGIC"
    using stash_keeps_flag [OF lay s2] by (simp add: s1_def reboot_def)
  define s3 where "s3 = s2\<lparr>sram := (sram s2)(DFU_REQUEST_ADDR := 0)\<rparr>"
  have t3: "take_dfu_request s2 = Some (True, s3)"
    by (simp add: take_dfu_request_on [OF on2] f2 s3_def)
  have h3: "holds_handoff lay c s3"
    unfolding s3_def holds_flag_write [OF lay] by (rule stash_holds [OF lay s2])
  note r3 = restore_holds [OF lay h3]
  obtain s5 where s5: "stash lay c' (reboot (handoff_enable s3)) = Some s5" by (simp add: stash_on)
  then have on5: "bkp_on s5" by (auto simp: stash_on)
  have "sram s5 DFU_REQUEST_ADDR = 0"
    using stash_keeps_flag [OF lay s5] by (simp add: s3_def reboot_def)
  then have t5: "take_dfu_request s5 = Some (False, s5)"
    by (simp add: take_dfu_request_on [OF on5] DFU_REQUEST_MAGIC_def)
  note r5 = restore_holds [OF lay stash_holds [OF lay s5]]
  show ?thesis using r s2 t3 r3 s5 t5 r5 by blast
qed

text \<open>A three-word layout: the clock in the middle.\<close>

definition demo_layout :: "(u32 \<times> u32 \<times> u32) layout" where
  "demo_layout = \<lparr>cc_size = 3, cc_words = (\<lambda>(a, b, c). [a, b, c]),
     cc_of_words = (\<lambda>ws. (ws ! 0, ws ! 1, ws ! 2)), cc_sys_ck = (\<lambda>(a, b, c). b),
     cc_hsi48_ck = (\<lambda>_. Some 48000000)\<rparr>"

definition blank_bkp :: bkp where
  "blank_bkp = \<lparr>pwr_cr1 = 0, rcc_ahb4enr = 0, sram = (\<lambda>_. 0)\<rparr>"

lemma demo_layout_wf: "wf_layout demo_layout"
  by (auto simp: wf_layout_def demo_layout_def)

theorem dfu_request_once_witness:
  "\<exists>s1 s2 s3. reboot_to_bootloader blank_bkp = Some s1 \<and>
     stash demo_layout (1, 400000000, 3) s1 = Some s2 \<and> take_dfu_request s2 = Some (True, s3)"
  using dfu_request_once [OF demo_layout_wf, of blank_bkp "(1, 400000000, 3)" "(0, 0, 0)"] by blast

subsection \<open>The boot decision\<close>

context qspi_board
begin

lemma init_memory_mapped_mapped:
  assumes "view s = (k, p)"
  shows "mapped (init_memory_mapped hw s) (quad_chip p)"
proof -
  define s1 where "s1 = hw_write hw QDCR (push_bit 16 FSIZE_8MIB OR push_bit 8 2)
      (hw_write hw QCR (push_bit 24 7) s)"
  have v1: "view s1 = (k\<lparr>k_cr := 0x07000000, k_mode := KIdle, k_rx := None\<rparr>, p)"
    using assms by (simp add: s1_def write_view ctl_write_def)
  obtain v s2 where r: "hw_read hw QCR s1 = (v, s2)" by fastforce
  have v2: "view s2 = view s1" by (rule readD [OF r]) simp
  have "rdy (hw_write hw QCR (set_bit 0 v) s2) p"
    using v1 v2 by (auto simp: rdy_def ready_def write_view ctl_write_def bit_simps)
  then have "rdy (cr_set hw 0 s1) p" by (simp add: cr_set_def r)
  from enter_memory_mapped_mapped [OF this] show ?thesis
    by (simp add: init_memory_mapped_def s1_def Let_def)
qed

end

context xip_board
begin

lemma read_word_mapped:
  assumes "mapped s p" "c_params p = 0xF0" "c_qe p" "read_word hw (app_base + of_nat i) s = (w, s')"
    "i + 3 < flash_size"
  shows "w = u32_from_le (c_mem p i) (c_mem p (i + 1)) (c_mem p (i + 2)) (c_mem p (i + 3)) \<and>
    mapped s' (p\<lparr>c_ax := True, c_rsten := False\<rparr>)"
proof -
  let ?p = "p\<lparr>c_ax := True, c_rsten := False\<rparr>"
  have ix: "unat ((app_base + of_nat n) AND 0x7FFFFF) = n" if "n < flash_size" for n
  proof -
    have "contains_range FLASH_BASE FLASH_SIZE" "n < unat FLASH_SIZE"
      using that by (simp_all add: contains_range_def flash_consts flash_size_def)
    from window_index [OF this] show ?thesis by (simp add: app_base_def FLASH_BASE_def)
  qed
  obtain b0 s0 where b0: "hw_xip hw (app_base + of_nat i) s = (b0, s0)" by fastforce
  obtain b1 s1 where b1: "hw_xip hw (app_base + of_nat i + 1) s0 = (b1, s1)" by fastforce
  obtain b2 s2 where b2: "hw_xip hw (app_base + of_nat i + 2) s1 = (b2, s2)" by fastforce
  obtain b3 s3 where b3: "hw_xip hw (app_base + of_nat i + 3) s2 = (b3, s3)" by fastforce
  have a: "app_base + of_nat i + 1 = app_base + of_nat (i + 1)"
    "app_base + of_nat i + 2 = app_base + of_nat (i + 2)"
    "app_base + of_nat i + 3 = app_base + of_nat (i + 3)" by simp_all
  note m0 = mapped_xip [OF assms(1,2) b0]
  have q: "c_params ?p = 0xF0" "c_qe ?p" using assms(2,3) by simp_all
  note m1 = mapped_xip [OF m0(1) q(1) b1]
  have m1': "mapped s1 ?p" using m1(1) by simp
  note m2 = mapped_xip [OF m1' q(1) b2]
  have m2': "mapped s2 ?p" using m2(1) by simp
  note m3 = mapped_xip [OF m2' q(1) b3]
  have "w = u32_from_le b0 b1 b2 b3" "s' = s3"
    using assms(4) b0 b1 b2 b3 by (auto simp: read_word_def)
  moreover have "b0 = c_mem p i" using m0(2) assms(3,5) ix [of i] by simp
  moreover have "b1 = c_mem p (i + 1)" using m1(2) q(2) assms(5) ix [of "i + 1"] unfolding a by simp
  moreover have "b2 = c_mem p (i + 2)" using m2(2) q(2) assms(5) ix [of "i + 2"] unfolding a by simp
  moreover have "b3 = c_mem p (i + 3)" using m3(2) q(2) assms(5) ix [of "i + 3"] unfolding a by simp
  moreover have "mapped s3 ?p" using m3(1) by simp
  ultimately show ?thesis by simp
qed

end

definition flash_word :: "(nat \<Rightarrow> u8) \<Rightarrow> nat \<Rightarrow> u32" where
  "flash_word m i = u32_from_le (m i) (m (i + 1)) (m (i + 2)) (m (i + 3))"

lemma vector_table_read:
  assumes "brd.mapped q p" "c_params p = 0xF0" "c_qe p"
    and "read_word (board_hw raw) app_base q = (m, q1)"
    and "read_word (board_hw raw) (app_base + 4) q1 = (r, q2)"
  shows "m = flash_word (c_mem p) 0 \<and> r = flash_word (c_mem p) 4 \<and>
    brd.mapped q2 (p\<lparr>c_ax := True, c_rsten := False\<rparr>)"
proof -
  have fs: "0 + 3 < flash_size" "4 + 3 < flash_size" by (simp_all add: flash_size_def)
  have r0: "read_word (board_hw raw) (app_base + of_nat 0) q = (m, q1)"
    "read_word (board_hw raw) (app_base + of_nat 4) q1 = (r, q2)"
    using assms(4,5) by simp_all
  let ?p = "p\<lparr>c_ax := True, c_rsten := False\<rparr>"
  note 1 = xbrd.read_word_mapped [OF assms(1-3) r0(1) fs(1)]
  have p: "c_params ?p = 0xF0" "c_qe ?p" using assms(2,3) by simp_all
  from 1 have "brd.mapped q1 ?p" ..
  note 2 = xbrd.read_word_mapped [OF this p r0(2) fs(2)]
  from 1 2 show ?thesis by (simp add: flash_word_def)
qed

text \<open>The decision on a board, in every case.\<close>

lemma boot_decision_cases:
  assumes lay: "wf_layout lay"
  shows "case boot_decision lay c pw (board_hw raw) s u q of
       None \<Rightarrow> cc_hsi48_ck lay c = None \<or> usb33_enable pw u = None
     | Some (path, s', u', q') \<Rightarrow> cc_hsi48_ck lay c \<noteq> None \<and> usb33_enable pw u = Some u' \<and>
         (path = BootWindow \<longleftrightarrow> sram s DFU_REQUEST_ADDR \<noteq> DFU_REQUEST_MAGIC \<and>
            is_plausible_image (flash_word (c_mem (b_chip q)) 0) (flash_word (c_mem (b_chip q)) 4)) \<and>
         sram s' DFU_REQUEST_ADDR \<noteq> DFU_REQUEST_MAGIC \<and>
         restore lay s' = Some (Some c, handoff_enable s') \<and>
         c_mem (b_chip q') = c_mem (b_chip q) \<and> bit (k_cr (b_ctl q')) 0"
proof -
  let ?hw = "board_hw raw"
  obtain s1 where s1: "stash lay c s = Some s1" by (simp add: stash_on)
  then have on1: "bkp_on s1" by (auto simp: stash_on)
  note f1 = stash_keeps_flag [OF lay s1]
  define forced where "forced \<longleftrightarrow> sram s DFU_REQUEST_ADDR = DFU_REQUEST_MAGIC"
  define s2 where "s2 = (if forced then s1\<lparr>sram := (sram s1)(DFU_REQUEST_ADDR := 0)\<rparr> else s1)"
  have t: "take_dfu_request s1 = Some (forced, s2)"
    by (simp add: take_dfu_request_on [OF on1] f1 forced_def s2_def)
  have flag: "sram s2 DFU_REQUEST_ADDR \<noteq> DFU_REQUEST_MAGIC"
    using f1 by (auto simp: s2_def forced_def DFU_REQUEST_MAGIC_def)
  have "holds_handoff lay c s2"
    using stash_holds [OF lay s1] holds_flag_write [OF lay] by (simp add: s2_def)
  note rest = restore_holds [OF lay this]
  have m: "brd.mapped (init_memory_mapped ?hw q) (brd.quad_chip (b_chip q))"
    by (rule brd.init_memory_mapped_mapped [OF refl])
  obtain msp q1 where w1: "read_word ?hw app_base (init_memory_mapped ?hw q) = (msp, q1)" by fastforce
  obtain rst q2 where w2: "read_word ?hw (app_base + 4) q1 = (rst, q2)" by fastforce
  from vector_table_read [OF m _ _ w1 w2] have
    vt: "msp = flash_word (c_mem (b_chip q)) 0" "rst = flash_word (c_mem (b_chip q)) 4"
      "brd.mapped q2 ((brd.quad_chip (b_chip q))\<lparr>c_ax := True, c_rsten := False\<rparr>)"
    by (simp_all add: recovered_def)
  then have mem: "c_mem (b_chip q2) = c_mem (b_chip q)" "bit (k_cr (b_ctl q2)) 0"
    by (auto simp: brd.mapped_def recovered_def ready_def)
  define path where "path = (if forced \<or> \<not> is_plausible_image msp rst then ServiceMode else BootWindow)"
  have d: "boot_decision lay c pw ?hw s u q =
      (if cc_hsi48_ck lay c = None then None else map_option (\<lambda>u'. (path, s2, u', q2)) (usb33_enable pw u))"
    by (auto simp: boot_decision_def s1 t w1 w2 path_def Let_def split: option.splits Option.bind_splits)
  have p: "path = BootWindow \<longleftrightarrow> sram s DFU_REQUEST_ADDR \<noteq> DFU_REQUEST_MAGIC \<and>
        is_plausible_image (flash_word (c_mem (b_chip q)) 0) (flash_word (c_mem (b_chip q)) 4)"
    by (simp add: path_def forced_def vt)
  show ?thesis
    unfolding d using p flag rest mem by (cases "usb33_enable pw u") auto
qed

text \<open>The wait for the supply detector ends only on having seen it ready.\<close>

lemma usb33_wait_ready: "usb33_wait pw u = Some u' \<Longrightarrow> \<exists>w v. cr3_read pw w = (v, u') \<and> bit v 26"
proof (rule usb33_wait.raw_induct [where P = "\<lambda>pw u u'. \<exists>w v. cr3_read pw w = (v, u') \<and> bit v 26"])
  fix f pw u u'
  assume "\<And>pw u u'. f pw u = Some u' \<Longrightarrow> \<exists>w v. cr3_read pw w = (v, u') \<and> bit v 26"
    and "(let (v, u) = cr3_read pw u in if bit v 26 then Some u else f pw u) = Some u'"
  then show "\<exists>w v. cr3_read pw w = (v, u') \<and> bit v 26"
    by (cases "cr3_read pw u") (auto split: if_splits)
qed

lemma usb33_never_ready:
  assumes "\<And>w. \<not> bit (fst (cr3_read pw w)) 26"
  shows "usb33_enable pw u = None"
proof -
  have "usb33_wait pw w \<noteq> Some u'" for w u'
    using usb33_wait_ready [of pw w u'] assms by (metis fst_conv)
  then have "usb33_wait pw w = None" for w by (meson not_Some_eq)
  then show ?thesis by (simp add: usb33_enable_def split: prod.split)
qed

text \<open>C7: whatever the previous run left in Backup SRAM, in the flash controller and in the flash chip, its
  Quad-Enable bit included, and whatever the registers answer: the bootloader reaches its decision exactly
  when the USB clock HSI48 runs (it panics otherwise) and the unbounded wait for the USB supply
  detector ends. It then opens the boot window exactly when no application asked for DFU and the
  first two words of the flash are a plausible vector table, has cleared the request, left the
  frozen clocks for the application, and changed no byte of the flash.\<close>

theorem boot_decision_exact:
  assumes lay: "wf_layout lay"
  shows "(boot_decision lay c pw (board_hw raw) s u q = None \<longleftrightarrow>
       cc_hsi48_ck lay c = None \<or> usb33_enable pw u = None) \<and>
    (\<forall>path s' u' q'. boot_decision lay c pw (board_hw raw) s u q = Some (path, s', u', q') \<longrightarrow>
     (path = BootWindow \<longleftrightarrow> sram s DFU_REQUEST_ADDR \<noteq> DFU_REQUEST_MAGIC \<and>
        is_plausible_image (flash_word (c_mem (b_chip q)) 0) (flash_word (c_mem (b_chip q)) 4)) \<and>
     sram s' DFU_REQUEST_ADDR \<noteq> DFU_REQUEST_MAGIC \<and>
     restore lay s' = Some (Some c, handoff_enable s') \<and>
     c_mem (b_chip q') = c_mem (b_chip q))"
  using boot_decision_cases [OF lay, where c = c and pw = pw and raw = raw and s = s and u = u and q = q] by (auto split: option.splits)

text \<open>C16: the jump lands where the decision looked: once the boot window has ended with no write
  (the DFU memory as it was created, which leaves memory-mapped mode and resets the chip), the
  window is mapped again and the stack pointer and program counter handed to the
  processor are the words of the flash that were checked.\<close>

theorem jump_is_checked:
  assumes lay: "wf_layout lay"
    and decided: "boot_decision lay c pw (board_hw raw) s u q = Some (BootWindow, s', u', q')"
    and created: "dfu_new (board_hw raw) False q' = Some d"
  shows "\<exists>cp q''. hand_over (board_hw raw) d = (cp, q'') \<and> vtor cp = app_base \<and>
     sp cp = flash_word (c_mem (b_chip q)) 0 \<and> pc cp = flash_word (c_mem (b_chip q)) 4 \<and>
     is_plausible_image (sp cp) (pc cp)"
proof -
  let ?hw = "board_hw raw"
  from boot_decision_cases [OF lay, where c = c and pw = pw and raw = raw and s = s and u = u and q = q] decided have
    plaus: "is_plausible_image (flash_word (c_mem (b_chip q)) 0) (flash_word (c_mem (b_chip q)) 4)"
    and mem: "c_mem (b_chip q') = c_mem (b_chip q)" "bit (k_cr (b_ctl q')) 0"
    by (auto split: option.splits)
  from created obtain q1 where q1: "recover_flash_to_single_line ?hw q' = Some q1" "release d = q1"
    by (auto simp: dfu_new_def release_def)
  have "brd.rdy q1 (recovered (b_chip q'))"
    by (rule brd.recover_rdy [OF refl mem(2) q1(1)])
  note m = brd.enter_memory_mapped_mapped [OF this]
  obtain msp q2 where w1: "read_word ?hw app_base (enter_memory_mapped ?hw q1) = (msp, q2)" by fastforce
  obtain rst q3 where w2: "read_word ?hw (app_base + 4) q2 = (rst, q3)" by fastforce
  from vector_table_read [OF m _ _ w1 w2] have
    "msp = flash_word (c_mem (b_chip q)) 0" "rst = flash_word (c_mem (b_chip q)) 4"
    by (simp_all add: recovered_def mem)
  then show ?thesis
    using plaus q1(2) w1 w2 by (simp add: hand_over_def jump_to_app_def)
qed

text \<open>A board left mapped and in continuous-read mode, its flash holding a vector table.\<close>

definition image_mem :: "nat \<Rightarrow> u8" where
  "image_mem = (\<lambda>_. 0xFF)(0 := 0, 1 := 0, 2 := 0x04, 3 := 0x24, 4 := 0x01, 5 := 0x01, 6 := 0, 7 := 0x90)"

text \<open>A supply detector that is ready at once.\<close>

definition ready_cr3 :: "unit pwr_cr3" where
  "ready_cr3 = \<lparr>cr3_read = (\<lambda>u. (set_bit 26 0, u)), cr3_write = (\<lambda>_ u. u)\<rparr>"

lemma ready_cr3_ready: "usb33_enable ready_cr3 () = Some ()"
  by (simp add: usb33_enable_def usb33_wait.simps ready_cr3_def bit_simps)

definition warm_board :: "unit board" where
  "warm_board = \<lparr>b_raw = (), b_ctl = \<lparr>k_cr = 0x07000001, k_dlr = 0, k_abr = 0xA0, k_mode = KMapped xip_ccr, k_rx = None\<rparr>,
     b_chip = \<lparr>c_mem = image_mem, c_ax = True, c_wel = False, c_qe = True, c_params = 0xF0,
       c_rsten = False\<rparr>, b_burnt = 0\<rparr>"

lemma image_words: "flash_word image_mem 0 = 0x24040000" "flash_word image_mem 4 = 0x90000101"
  by (simp_all add: flash_word_def image_mem_def u32_from_le_def)

lemma image_plausible: "is_plausible_image 0x24040000 0x90000101"
  by (simp add: is_plausible_image_def is_valid_sram_def is_valid_reset_def app_base_def app_end_def)

theorem boot_decision_exact_witness:
  "\<exists>s' u' q'. boot_decision demo_layout (1, 2, 3) ready_cr3 (board_hw quiet_hw) blank_bkp () warm_board =
     Some (BootWindow, s', u', q')"
proof -
  let ?d = "boot_decision demo_layout (1, 2, 3) ready_cr3 (board_hw quiet_hw) blank_bkp () warm_board"
  note ex = boot_decision_exact [OF demo_layout_wf, of "(1, 2, 3)" ready_cr3 quiet_hw blank_bkp "()" warm_board]
  have "?d \<noteq> None" using ex by (simp add: ready_cr3_ready demo_layout_def)
  then obtain path s' u' q' where d: "?d = Some (path, s', u', q')" by auto
  with ex have "path = BootWindow \<longleftrightarrow> sram blank_bkp DFU_REQUEST_ADDR \<noteq> DFU_REQUEST_MAGIC \<and>
     is_plausible_image (flash_word (c_mem (b_chip warm_board)) 0) (flash_word (c_mem (b_chip warm_board)) 4)"
    by blast
  then have "path = BootWindow"
    by (simp add: warm_board_def image_words image_plausible blank_bkp_def DFU_REQUEST_MAGIC_def)
  with d show ?thesis by blast
qed

lemma quiet_recovers: "recover_flash_to_single_line (board_hw quiet_hw) q \<noteq> None"
proof -
  have "busy_wait (board_hw quiet_hw) b = Some b" for b
    by (subst busy_wait.simps) (simp add: board_hw_def quiet_hw_def on_ctl_def ctl_read_def)
  then show ?thesis
    by (auto simp: recover_flash_to_single_line_def exit_memory_mapped_def qspi_errata_workaround_def
        split: prod.split Option.bind_splits)
qed

theorem jump_is_checked_witness:
  "\<exists>s' u' q' d cp q''. boot_decision demo_layout (1, 2, 3) ready_cr3 (board_hw quiet_hw) blank_bkp () warm_board =
       Some (BootWindow, s', u', q') \<and> dfu_new (board_hw quiet_hw) False q' = Some d \<and>
     hand_over (board_hw quiet_hw) d = (cp, q'') \<and> sp cp = 0x24040000 \<and> pc cp = 0x90000101"
proof -
  let ?d = "boot_decision demo_layout (1, 2, 3) ready_cr3 (board_hw quiet_hw) blank_bkp () warm_board"
  have "case ?d of None \<Rightarrow> False | Some (path, _) \<Rightarrow> path = BootWindow"
    using boot_decision_cases [OF demo_layout_wf, where c = "(1, 2, 3)" and pw = ready_cr3 and
        raw = quiet_hw and s = blank_bkp and u = "()" and q = warm_board]
    by (auto simp: ready_cr3_ready demo_layout_def warm_board_def image_words image_plausible
        blank_bkp_def DFU_REQUEST_MAGIC_def split: option.splits)
  then obtain s' u' q' where dec: "?d = Some (BootWindow, s', u', q')" by (auto split: option.splits)
  obtain d where d: "dfu_new (board_hw quiet_hw) False q' = Some d"
    using quiet_recovers [of q'] by (auto simp: dfu_new_def)
  have m: "c_mem (b_chip warm_board) = image_mem" by (simp add: warm_board_def)
  from jump_is_checked [OF demo_layout_wf dec d] dec d show ?thesis
    by (auto simp: m image_words)
qed

subsection \<open>The boot window in real time\<close>

text \<open>The loop sees time through a 32-bit counter; the polls come at the real cycle counts \<open>t\<close>, no
  two further apart than what the counter's range leaves beyond the window.\<close>

fun gaps_ok :: "nat \<Rightarrow> (nat \<times> bool) list \<Rightarrow> bool" where
  "gaps_ok prev [] = True"
| "gaps_ok prev ((t, _) # ts) = (prev \<le> t \<and> t - prev \<le> 1094967296 \<and> gaps_ok t ts)"

lemma boot_window_step:
  "gaps_ok prev ts \<Longrightarrow> t0 \<le> prev \<Longrightarrow> prev - t0 < 3200000000 \<Longrightarrow>
   fst (boot_window (of_nat t0) led (map (\<lambda>(t, s). (of_nat t, s)) ts)) =
     (case dropWhile (\<lambda>(t, s). t - t0 < 3200000000 \<and> \<not> s) ts of
        [] \<Rightarrow> Pending
      | (t, _) # _ \<Rightarrow> if 3200000000 \<le> t - t0 then JumpToApp else CommitService)"
proof (induction ts arbitrary: prev led)
  case Nil
  then show ?case by simp
next
  case (Cons x ts)
  obtain t s where x: "x = (t, s)" by fastforce
  have t: "t0 \<le> t" "t - t0 < 4294967296" using Cons.prems x by auto
  then have u: "unat (of_nat t - of_nat t0 :: u32) = t - t0" by (intro elapsed32) simp_all
  then have w: "BOOT_WINDOW_CYCLES \<le> of_nat t - of_nat t0 \<longleftrightarrow> 3200000000 \<le> t - t0"
    by (simp add: word_le_nat_alt BOOT_WINDOW_CYCLES_def)
  show ?case
  proof (cases "t - t0 < 3200000000 \<and> \<not> s")
    case True
    then have "fst (boot_window (of_nat t0) b (map (\<lambda>(t, s). (of_nat t, s)) ts)) =
       (case dropWhile (\<lambda>(t, s). t - t0 < 3200000000 \<and> \<not> s) ts of
          [] \<Rightarrow> Pending
        | (t, _) # _ \<Rightarrow> if 3200000000 \<le> t - t0 then JumpToApp else CommitService)" for b
      using Cons.IH [of t] Cons.prems x t(1) by simp
    then show ?thesis using True w x by (simp add: Let_def case_prod_unfold)
  next
    case False
    then show ?thesis using w x by (auto simp: Let_def)
  qed
qed

text \<open>C31: the boot window is a window of real time in spite of the wrapping counter: it ends at
  the first poll that is 3.2e9 cycles in or has seen a flash write, whichever comes first, and the first
  kind jumps to the application while the second commits to service mode.\<close>

theorem boot_window_real_time:
  assumes "gaps_ok t0 ts"
  shows "fst (boot_window (of_nat t0) led (map (\<lambda>(t, s). (of_nat t, s)) ts)) =
     (case dropWhile (\<lambda>(t, s). t - t0 < 3200000000 \<and> \<not> s) ts of
        [] \<Rightarrow> Pending
      | (t, _) # _ \<Rightarrow> if 3200000000 \<le> t - t0 then JumpToApp else CommitService)"
  using boot_window_step [OF assms] by simp

theorem boot_window_real_time_witness:
  "fst (boot_window (of_nat 4000000000) False (map (\<lambda>(t, s). (of_nat t, s))
     [(5000000000, False), (6000000000, False), (7000000000, False), (7100000000, True)])) = CommitService"
proof -
  have "gaps_ok 4000000000 [(5000000000, False), (6000000000, False), (7000000000, False), (7100000000, True)]"
    by simp
  from boot_window_real_time [OF this, of False] show ?thesis by (simp del: boot_window.simps)
qed

end
