(* ===== verification/Serial_Tui.thy ===== *)
theory Serial_Tui
  imports Prelude
begin

text \<open>
  The serial terminal backend (ratatui-serial/src/lib.rs): escape-sequence output with cursor
  and style diffing over a byte sink that may fail, and the parser of cursor-position
  reports. The specification is a terminal, an interpreter of the bytes.
\<close>

subsection \<open>Writers and the backend's state\<close>

text \<open>A sink's \<open>write_all\<close> and \<open>flush\<close>; \<open>None\<close> is success. A failure of the code is the sink's error
  or a panic.\<close>

record ('w, 'e) writer =
  write_all :: "u8 list \<Rightarrow> 'w \<Rightarrow> 'e option \<times> 'w"
  wr_flush :: "'w \<Rightarrow> 'e option \<times> 'w"

datatype 'e failure = Transport 'e | Panic

datatype color =
    Reset | Black | Red | Green | Yellow | Blue | Magenta | Cyan | Gray | DarkGray
  | LightRed | LightGreen | LightYellow | LightBlue | LightMagenta | LightCyan | White
  | Indexed u8 | Rgb u8 u8 u8

type_synonym modifier = u16

record position =
  pos_x :: u16
  pos_y :: u16

record cell =
  symbol :: "u8 list"
  cell_fg :: color
  cell_bg :: color
  cell_mod :: modifier

record 'w backend =
  w :: 'w
  bsize :: "u16 \<times> u16"
  cursor :: position
  fg :: color
  bg :: color
  modifier :: modifier
  style_valid :: bool

type_synonym ('w, 'e) op = "'w backend \<Rightarrow> 'e failure option \<times> 'w backend"

text \<open>Sequencing with the early return of \<open>?\<close>.\<close>

definition seq :: "('w, 'e) op \<Rightarrow> ('w, 'e) op \<Rightarrow> ('w, 'e) op" where
  "seq f g = (\<lambda>b. case f b of (None, b) \<Rightarrow> g b | (Some e, b) \<Rightarrow> (Some e, b))"

fun seqs :: "('w, 'e) op list \<Rightarrow> ('w, 'e) op" where
  "seqs [] = (\<lambda>b. (None, b))"
| "seqs (f # fs) = seq f (seqs fs)"

definition update :: "('w backend \<Rightarrow> 'w backend) \<Rightarrow> ('w, 'e) op" where
  "update f = (\<lambda>b. (None, f b))"

definition ascii :: "string \<Rightarrow> u8 list" where
  "ascii s = map of_char s"

definition CSI :: "u8 list" where "CSI = [0x1B, 0x5B]"

definition backend_new :: "'w \<Rightarrow> u16 \<Rightarrow> u16 \<Rightarrow> 'w backend" where
  "backend_new writer columns rows =
     \<lparr>w = writer, bsize = (columns, rows), cursor = \<lparr>pos_x = 0, pos_y = 0\<rparr>, fg = Reset, bg = Reset,
      modifier = 0, style_valid = False\<rparr>"

definition resize :: "u16 \<Rightarrow> u16 \<Rightarrow> 'w backend \<Rightarrow> 'w backend" where
  "resize columns rows b = b\<lparr>bsize := (columns, rows)\<rparr>"

definition raw :: "('w, 'e) writer \<Rightarrow> u8 list \<Rightarrow> ('w, 'e) op" where
  "raw wr bytes b = (let (r, w') = write_all wr bytes (w b) in (map_option Transport r, b\<lparr>w := w'\<rparr>))"

text \<open>The digit loop of \<open>num\<close>: filled from the end of a 5-byte buffer.\<close>

function num_loop :: "u8 list \<Rightarrow> nat \<Rightarrow> u16 \<Rightarrow> (u8 list \<times> nat) option" where
  "num_loop buf i v =
     (if i = 0 then None
      else
        let i = i - 1 in
        (case idx_set buf i (0x30 + ucast (v mod 10)) of
           None \<Rightarrow> None
         | Some buf \<Rightarrow>
             (let v = v div 10 in
              if v = 0 then Some (buf, i) else num_loop buf i v)))"
  by pat_completeness auto
termination by (relation "measure (\<lambda>(_, i, _). i)") auto

declare num_loop.simps [simp del]

definition num :: "('w, 'e) writer \<Rightarrow> u16 \<Rightarrow> ('w, 'e) op" where
  "num wr n b =
     (case num_loop (replicate 5 0) 5 n of
        None \<Rightarrow> (Some Panic, b)
      | Some (buf, i) \<Rightarrow> raw wr (drop i buf) b)"

definition param :: "('w, 'e) writer \<Rightarrow> u16 \<Rightarrow> ('w, 'e) op" where
  "param wr n = seqs [raw wr (ascii '';''), num wr n]"

definition move_to :: "('w, 'e) writer \<Rightarrow> u16 \<Rightarrow> u16 \<Rightarrow> ('w, 'e) op" where
  "move_to wr x y =
     seqs [raw wr CSI, num wr (sat_add y 1), raw wr (ascii '';''), num wr (sat_add x 1),
       raw wr (ascii ''H''), update (\<lambda>b. b\<lparr>cursor := \<lparr>pos_x = x, pos_y = y\<rparr>\<rparr>)]"

definition color_params :: "('w, 'e) writer \<Rightarrow> color \<Rightarrow> bool \<Rightarrow> ('w, 'e) op" where
  "color_params wr c foreground =
     (let base = (if foreground then 30 else 40);
          bright = (if foreground then 90 else 100)
      in case c of
        Reset \<Rightarrow> seqs []
      | Black \<Rightarrow> param wr base
      | Red \<Rightarrow> param wr (base + 1)
      | Green \<Rightarrow> param wr (base + 2)
      | Yellow \<Rightarrow> param wr (base + 3)
      | Blue \<Rightarrow> param wr (base + 4)
      | Magenta \<Rightarrow> param wr (base + 5)
      | Cyan \<Rightarrow> param wr (base + 6)
      | Gray \<Rightarrow> param wr (base + 7)
      | DarkGray \<Rightarrow> param wr bright
      | LightRed \<Rightarrow> param wr (bright + 1)
      | LightGreen \<Rightarrow> param wr (bright + 2)
      | LightYellow \<Rightarrow> param wr (bright + 3)
      | LightBlue \<Rightarrow> param wr (bright + 4)
      | LightMagenta \<Rightarrow> param wr (bright + 5)
      | LightCyan \<Rightarrow> param wr (bright + 6)
      | White \<Rightarrow> param wr (bright + 7)
      | Indexed i \<Rightarrow>
          seqs [param wr (if foreground then 38 else 48), raw wr (ascii '';5;''), num wr (ucast i)]
      | Rgb r g b \<Rightarrow>
          seqs [param wr (if foreground then 38 else 48), raw wr (ascii '';2;''), num wr (ucast r),
            raw wr (ascii '';''), num wr (ucast g), raw wr (ascii '';''), num wr (ucast b)])"

text \<open>The modifier flags, bits 0 to 8, and their SGR codes.\<close>

definition modifier_codes :: "(modifier \<times> u16) list" where
  "modifier_codes = [(0x01, 1), (0x02, 2), (0x04, 3), (0x08, 4), (0x10, 5), (0x20, 6), (0x40, 7),
     (0x80, 8), (0x100, 9)]"

definition modifier_params :: "('w, 'e) writer \<Rightarrow> modifier \<Rightarrow> ('w, 'e) op" where
  "modifier_params wr m =
     seqs (map (\<lambda>(flag, code). if m AND flag = flag then param wr code else seqs []) modifier_codes)"

definition apply_style :: "('w, 'e) writer \<Rightarrow> cell \<Rightarrow> ('w, 'e) op" where
  "apply_style wr c b =
     (if style_valid b \<and> cell_fg c = fg b \<and> cell_bg c = bg b \<and> cell_mod c = modifier b
      then (None, b)
      else seqs [raw wr CSI, raw wr (ascii ''0''), modifier_params wr (cell_mod c),
             color_params wr (cell_fg c) True, color_params wr (cell_bg c) False, raw wr (ascii ''m''),
             update (\<lambda>b. b\<lparr>fg := cell_fg c, bg := cell_bg c, modifier := cell_mod c,
               style_valid := True\<rparr>)] b)"

definition request_size :: "('w, 'e) writer \<Rightarrow> ('w, 'e) op" where
  "request_size wr =
     seqs [raw wr ([0x1B] @ ascii ''7'' @ [0x1B] @ ascii ''[999;999H'' @ [0x1B] @ ascii ''[6n''
             @ [0x1B] @ ascii ''8''),
           update (\<lambda>b. b\<lparr>cursor := \<lparr>pos_x = - 1, pos_y = - 1\<rparr>\<rparr>)]"

fun draw :: "('w, 'e) writer \<Rightarrow> (u16 \<times> u16 \<times> cell) list \<Rightarrow> ('w, 'e) op" where
  "draw wr [] = (\<lambda>b. (None, b))"
| "draw wr ((x, y, c) # content) =
     seqs [(\<lambda>b. if pos_x (cursor b) \<noteq> x \<or> pos_y (cursor b) \<noteq> y then move_to wr x y b else (None, b)),
           apply_style wr c,
           raw wr (symbol c),
           update (\<lambda>b. b\<lparr>cursor := \<lparr>pos_x = sat_add x 1, pos_y = y\<rparr>\<rparr>),
           draw wr content]"

definition hide_cursor :: "('w, 'e) writer \<Rightarrow> ('w, 'e) op" where
  "hide_cursor wr = seqs [raw wr CSI, raw wr (ascii ''?25l'')]"

definition show_cursor :: "('w, 'e) writer \<Rightarrow> ('w, 'e) op" where
  "show_cursor wr = seqs [raw wr CSI, raw wr (ascii ''?25h'')]"

definition get_cursor_position :: "'w backend \<Rightarrow> position" where
  "get_cursor_position b = cursor b"

definition set_cursor_position :: "('w, 'e) writer \<Rightarrow> position \<Rightarrow> ('w, 'e) op" where
  "set_cursor_position wr p = move_to wr (pos_x p) (pos_y p)"

definition clear :: "('w, 'e) writer \<Rightarrow> ('w, 'e) op" where
  "clear wr = seqs [raw wr CSI, raw wr (ascii ''2J''), move_to wr 0 0,
     update (\<lambda>b. b\<lparr>style_valid := False\<rparr>)]"

datatype clear_type = ClearAll | AfterCursor | BeforeCursor | CurrentLine | UntilNewLine

definition clear_region :: "('w, 'e) writer \<Rightarrow> clear_type \<Rightarrow> ('w, 'e) op" where
  "clear_region wr t =
     seqs [raw wr CSI,
       (case t of
          ClearAll \<Rightarrow> raw wr (ascii ''2J'')
        | AfterCursor \<Rightarrow> raw wr (ascii ''0J'')
        | BeforeCursor \<Rightarrow> raw wr (ascii ''1J'')
        | CurrentLine \<Rightarrow> raw wr (ascii ''2K'')
        | UntilNewLine \<Rightarrow> raw wr (ascii ''0K''))]"

definition backend_flush :: "('w, 'e) writer \<Rightarrow> ('w, 'e) op" where
  "backend_flush wr b = (let (r, w') = wr_flush wr (w b) in (map_option Transport r, b\<lparr>w := w'\<rparr>))"

text \<open>The in-memory writer.\<close>

definition vec_writer :: "(u8 list, unit) writer" where
  "vec_writer = \<lparr>write_all = (\<lambda>bytes v. (None, v @ bytes)), wr_flush = (\<lambda>v. (None, v))\<rparr>"

subsection \<open>Cursor-position reports\<close>

datatype cpr_state = Idle | Esc | Bracket | Rows | Semi | Cols

record cpr =
  cstate :: cpr_state
  rows :: u16
  cols :: u16

definition cpr_new :: cpr where
  "cpr_new = \<lparr>cstate = Idle, rows = 0, cols = 0\<rparr>"

definition is_ascii_digit :: "u8 \<Rightarrow> bool" where
  "is_ascii_digit b \<longleftrightarrow> 0x30 \<le> b \<and> b \<le> 0x39"

definition restart :: "u8 \<Rightarrow> cpr \<Rightarrow> cpr" where
  "restart b p = p\<lparr>cstate := (if b = 0x1B then Esc else Idle)\<rparr>"

definition cpr_push :: "cpr \<Rightarrow> u8 \<Rightarrow> (u16 \<times> u16) option \<times> cpr" where
  "cpr_push p b =
     (case cstate p of
        Idle \<Rightarrow> (None, if b = 0x1B then p\<lparr>cstate := Esc\<rparr> else p)
      | Esc \<Rightarrow> (None, p\<lparr>cstate := (if b = 0x5B then Bracket else if b = 0x1B then Esc else Idle)\<rparr>)
      | Bracket \<Rightarrow>
          (None, if is_ascii_digit b then p\<lparr>rows := ucast (b - 0x30), cstate := Rows\<rparr> else restart b p)
      | Rows \<Rightarrow>
          (None,
           if is_ascii_digit b then p\<lparr>rows := sat_add (sat_mul (rows p) 10) (ucast (b - 0x30))\<rparr>
           else if b = 0x3B then p\<lparr>cols := 0, cstate := Semi\<rparr>
           else restart b p)
      | Semi \<Rightarrow>
          (None, if is_ascii_digit b then p\<lparr>cols := ucast (b - 0x30), cstate := Cols\<rparr> else restart b p)
      | Cols \<Rightarrow>
          (if is_ascii_digit b
           then (None, p\<lparr>cols := sat_add (sat_mul (cols p) 10) (ucast (b - 0x30))\<rparr>)
           else if b = 0x52 then (Some (cols p, rows p), p\<lparr>cstate := Idle\<rparr>)
           else (None, restart b p)))"

fun cpr_feed_from :: "(u16 \<times> u16) option \<Rightarrow> cpr \<Rightarrow> u8 list \<Rightarrow> (u16 \<times> u16) option \<times> cpr" where
  "cpr_feed_from lst p [] = (lst, p)"
| "cpr_feed_from lst p (b # bs) =
     (case cpr_push p b of
        (Some sz, p) \<Rightarrow> cpr_feed_from (Some sz) p bs
      | (None, p) \<Rightarrow> cpr_feed_from lst p bs)"

definition cpr_feed :: "cpr \<Rightarrow> u8 list \<Rightarrow> (u16 \<times> u16) option \<times> cpr" where
  "cpr_feed p bs = cpr_feed_from None p bs"

subsection \<open>The terminal\<close>

text \<open>
  A screen of glyphs with the style they were printed in, a cursor (column \<open>width\<close> is the
  pending wrap), a saved cursor, and the bytes it answers. A printed byte that is a UTF-8 continuation
  joins the glyph before it.
\<close>

record style =
  st_fg :: color
  st_bg :: color
  st_mod :: modifier

definition plain :: style where
  "plain = \<lparr>st_fg = Reset, st_bg = Reset, st_mod = 0\<rparr>"

datatype vmode = Ground | VEsc | VCsi "nat list" nat | VPrivate

record vt =
  width :: nat
  height :: nat
  col :: nat
  row :: nat
  pen :: style
  grid :: "nat \<times> nat \<Rightarrow> u8 list \<times> style"
  saved :: "nat \<times> nat"
  vmode :: vmode
  replies :: "u8 list"

fun dec :: "nat \<Rightarrow> u8 list" where
  "dec n = (if n < 10 then [of_nat (48 + n)] else dec (n div 10) @ [of_nat (48 + n mod 10)])"

declare dec.simps [simp del]

definition base_colors :: "color list" where
  "base_colors = [Black, Red, Green, Yellow, Blue, Magenta, Cyan, Gray]"

definition bright_colors :: "color list" where
  "bright_colors = [DarkGray, LightRed, LightGreen, LightYellow, LightBlue, LightMagenta, LightCyan, White]"

definition sgr1 :: "nat \<Rightarrow> style \<Rightarrow> style" where
  "sgr1 n s =
     (if n = 0 then plain
      else if n \<le> 9 then s\<lparr>st_mod := st_mod s OR push_bit (n - 1) 1\<rparr>
      else if 30 \<le> n \<and> n \<le> 37 then s\<lparr>st_fg := base_colors ! (n - 30)\<rparr>
      else if 40 \<le> n \<and> n \<le> 47 then s\<lparr>st_bg := base_colors ! (n - 40)\<rparr>
      else if 90 \<le> n \<and> n \<le> 97 then s\<lparr>st_fg := bright_colors ! (n - 90)\<rparr>
      else if 100 \<le> n \<and> n \<le> 107 then s\<lparr>st_bg := bright_colors ! (n - 100)\<rparr>
      else s)"

definition set_color :: "nat \<Rightarrow> color \<Rightarrow> style \<Rightarrow> style" where
  "set_color n c s = (if n = 38 then s\<lparr>st_fg := c\<rparr> else s\<lparr>st_bg := c\<rparr>)"

text \<open>Extended colours take their operands from the following parameters.\<close>

fun sgr :: "nat list \<Rightarrow> style \<Rightarrow> style" where
  "sgr [] s = s"
| "sgr [n] s = (if n = 38 \<or> n = 48 then s else sgr1 n s)"
| "sgr [n, k] s = (if n = 38 \<or> n = 48 then s else sgr [k] (sgr1 n s))"
| "sgr (n # k # i # ps) s =
     (if n = 38 \<or> n = 48 then
        (if k = 5 then sgr ps (set_color n (Indexed (of_nat i)) s)
         else case ps of
             g # b # ps' \<Rightarrow> sgr ps' (set_color n (Rgb (of_nat i) (of_nat g) (of_nat b)) s)
           | _ \<Rightarrow> s)
      else sgr (k # i # ps) (sgr1 n s))"

definition cup :: "nat \<Rightarrow> nat \<Rightarrow> vt \<Rightarrow> vt" where
  "cup r c t = t\<lparr>row := min (r - 1) (height t - 1), col := min (c - 1) (width t - 1)\<rparr>"

definition blank :: "u8 list \<times> style" where
  "blank = ([0x20], plain)"

definition csi_final :: "u8 \<Rightarrow> nat list \<Rightarrow> vt \<Rightarrow> vt" where
  "csi_final f ps t =
     (if f = 0x48 then (case ps of r # c # _ \<Rightarrow> cup r c t | _ \<Rightarrow> t)
      else if f = 0x6D then t\<lparr>pen := sgr ps (pen t)\<rparr>
      else if f = 0x4A \<and> ps = [2] then t\<lparr>grid := (\<lambda>_. blank)\<rparr>
      else if f = 0x6E \<and> ps = [6]
      then t\<lparr>replies := replies t @ CSI @ dec (row t + 1) @ [0x3B] @ dec (min (col t) (width t - 1) + 1) @ [0x52]\<rparr>
      else t)"

definition print :: "u8 \<Rightarrow> vt \<Rightarrow> vt" where
  "print b t =
     (if b AND 0xC0 = 0x80
      then t\<lparr>grid := (grid t)((col t - 1, row t) := (fst (grid t (col t - 1, row t)) @ [b],
               snd (grid t (col t - 1, row t))))\<rparr>
      else
        let t = (if col t < width t then t else t\<lparr>col := 0, row := min (row t + 1) (height t - 1)\<rparr>)
        in t\<lparr>grid := (grid t)((col t, row t) := ([b], pen t)), col := col t + 1\<rparr>)"

definition vt_step :: "vt \<Rightarrow> u8 \<Rightarrow> vt" where
  "vt_step t b =
     (case vmode t of
        Ground \<Rightarrow> if b = 0x1B then t\<lparr>vmode := VEsc\<rparr> else if b < 0x20 \<or> b = 0x7F then t else print b t
      | VEsc \<Rightarrow>
          if b = 0x5B then t\<lparr>vmode := VCsi [] 0\<rparr>
          else if b = 0x37 then t\<lparr>vmode := Ground, saved := (col t, row t)\<rparr>
          else if b = 0x38 then t\<lparr>vmode := Ground, col := fst (saved t), row := snd (saved t)\<rparr>
          else t\<lparr>vmode := Ground\<rparr>
      | VCsi ps n \<Rightarrow>
          if is_ascii_digit b then t\<lparr>vmode := VCsi ps (n * 10 + unat (b - 0x30))\<rparr>
          else if b = 0x3B then t\<lparr>vmode := VCsi (ps @ [n]) 0\<rparr>
          else if b = 0x3F then t\<lparr>vmode := VPrivate\<rparr>
          else (csi_final b (ps @ [n]) t)\<lparr>vmode := Ground\<rparr>
      | VPrivate \<Rightarrow> if is_ascii_digit b then t else t\<lparr>vmode := Ground\<rparr>)"

definition vt_run :: "vt \<Rightarrow> u8 list \<Rightarrow> vt" where
  "vt_run t bs = foldl vt_step t bs"

subsection \<open>Decimal numbers\<close>

lemma digit_byte: "ucast (v mod 10 :: u16) + 0x30 = (of_nat (48 + unat v mod 10) :: u8)"
proof -
  have "unat (v mod 10) = unat v mod 10" by (simp add: unat_mod_distrib)
  then have "(ucast (v mod 10) :: u8) = of_nat (unat v mod 10)"
    by (metis of_nat_unat)
  then show ?thesis by simp
qed

lemma num_loop_dec:
  "0 < i \<Longrightarrow> i \<le> length buf \<Longrightarrow> unat v < 10 ^ i \<Longrightarrow>
     \<exists>buf' i'. num_loop buf i v = Some (buf', i') \<and> drop i' buf' = dec (unat v) @ drop i buf"
proof (induction buf i v rule: num_loop.induct)
  case (1 buf i v)
  let ?d = "of_nat (48 + unat v mod 10) :: u8"
  let ?buf = "buf[i - 1 := ?d]"
  have set: "idx_set buf (i - 1) (0x30 + ucast (v mod 10)) = Some ?buf"
    using "1.prems" digit_byte [of v] by (simp add: add.commute)
  have div: "unat (v div 10) = unat v div 10" by (simp add: unat_div_distrib)
  then have z: "v div 10 = 0 \<longleftrightarrow> unat v < 10" by (simp add: word_unat_eq_iff div_eq_0_iff)
  have last: "drop (i - 1) ?buf = ?d # drop i buf"
    using "1.prems" Cons_nth_drop_Suc [of "i - 1" ?buf, symmetric] by simp
  show ?case
  proof (cases "unat v < 10")
    case True
    then show ?thesis
      using "1.prems" set last z by (simp add: num_loop.simps [of buf i v] dec.simps [of "unat v"] Let_def)
  next
    case False
    then have i: "1 < i" using "1.prems"(3) by (cases i; cases "i - 1") auto
    have small: "unat (v div 10) < 10 ^ (i - 1)"
      using "1.prems"(3) i unfolding div by (cases i) (auto simp: less_mult_imp_div_less mult.commute)
    have "i \<noteq> 0" "i - 1 \<le> length ?buf" using i "1.prems"(2) by simp_all
    from "1.IH" [OF this(1) refl set refl] this(2) False z i small obtain buf' i' where
      r: "num_loop ?buf (i - 1) (v div 10) = Some (buf', i')"
        "drop i' buf' = dec (unat v div 10) @ drop (i - 1) ?buf"
      unfolding div by auto
    have "num_loop buf i v = Some (buf', i')"
      using r(1) set z False i by (simp add: num_loop.simps [of buf i v])
    then show ?thesis
      using r(2) last False by (simp add: dec.simps [of "unat v"])
  qed
qed

lemma num_eq: "num wr n = raw wr (dec (unat n))"
proof
  fix b
  have "unat n < 2 ^ LENGTH(16)" by (rule unsigned_less)
  then have "unat n < 10 ^ 5" by simp
  then obtain buf i where "num_loop (replicate 5 0) 5 n = Some (buf, i)" "drop i buf = dec (unat n)"
    using num_loop_dec [of 5 "replicate 5 0" n] by auto
  then show "num wr n b = raw wr (dec (unat n)) b" by (simp add: num_def)
qed

subsection \<open>What an operation writes\<close>

text \<open>
  The contract of a sink: a successful \<open>write_all\<close> has appended the bytes to what the
  terminal at the other end has received. Nothing is promised of a failed one.
\<close>

locale byte_sink =
  fixes wr :: "('w, 'e) writer" and received :: "'w \<Rightarrow> u8 list"
  assumes appends: "write_all wr bs v = (None, v') \<Longrightarrow> received v' = received v @ bs"
begin

text \<open>An operation that only writes, and writes \<open>bs\<close> when it succeeds.\<close>

definition writes :: "('w, 'e) op \<Rightarrow> u8 list \<Rightarrow> bool" where
  "writes f bs \<longleftrightarrow>
     (\<forall>b b'. f b = (None, b') \<longrightarrow> (\<exists>v. b' = b\<lparr>w := v\<rparr> \<and> received v = received (w b) @ bs))"

lemma writes_raw: "writes (raw wr bs) bs"
  unfolding writes_def raw_def by (auto split: prod.splits dest: appends)

lemma writes_num: "writes (num wr n) (dec (unat n))"
  by (simp add: num_eq writes_raw)

lemma writes_seq: "writes f bs \<Longrightarrow> writes g cs \<Longrightarrow> writes (seq f g) (bs @ cs)"
  unfolding writes_def seq_def by (fastforce split: prod.splits option.splits)

lemma writes_Nil: "writes (seqs []) []"
  by (auto simp: writes_def intro!: exI [where P = "\<lambda>v. _ = _\<lparr>w := v\<rparr> \<and> _ v"])

lemma writes_Cons: "writes f bs \<Longrightarrow> writes (seqs fs) cs \<Longrightarrow> writes (seqs (f # fs)) (bs @ cs)"
  by (simp add: writes_seq)

lemma writes_param: "writes (param wr n) (0x3B # dec (unat n))"
  unfolding param_def
  using writes_Cons [OF writes_raw writes_Cons [OF writes_num writes_Nil], of "ascii '';''" n]
  by (simp add: ascii_def)

end

definition params_bytes :: "nat list \<Rightarrow> u8 list" where
  "params_bytes ps = concat (map (\<lambda>n. 0x3B # dec n) ps)"

lemma params_bytes_simps [simp]:
  "params_bytes [] = []" "params_bytes (n # ps) = 0x3B # dec n @ params_bytes ps"
  "params_bytes (ps @ qs) = params_bytes ps @ params_bytes qs"
  by (simp_all add: params_bytes_def)

text \<open>The SGR parameters of a colour and of a modifier set.\<close>

fun color_ps :: "color \<Rightarrow> bool \<Rightarrow> nat list" where
  "color_ps Reset f = []"
| "color_ps (Indexed i) f = [if f then 38 else 48, 5, unat i]"
| "color_ps (Rgb r g b) f = [if f then 38 else 48, 2, unat r, unat g, unat b]"
| "color_ps Black f = [if f then 30 else 40]"
| "color_ps Red f = [if f then 31 else 41]"
| "color_ps Green f = [if f then 32 else 42]"
| "color_ps Yellow f = [if f then 33 else 43]"
| "color_ps Blue f = [if f then 34 else 44]"
| "color_ps Magenta f = [if f then 35 else 45]"
| "color_ps Cyan f = [if f then 36 else 46]"
| "color_ps Gray f = [if f then 37 else 47]"
| "color_ps DarkGray f = [if f then 90 else 100]"
| "color_ps LightRed f = [if f then 91 else 101]"
| "color_ps LightGreen f = [if f then 92 else 102]"
| "color_ps LightYellow f = [if f then 93 else 103]"
| "color_ps LightBlue f = [if f then 94 else 104]"
| "color_ps LightMagenta f = [if f then 95 else 105]"
| "color_ps LightCyan f = [if f then 96 else 106]"
| "color_ps White f = [if f then 97 else 107]"

definition mod_ps :: "modifier \<Rightarrow> nat list" where
  "mod_ps m = concat (map (\<lambda>(flag, code). if m AND flag = flag then [unat code] else []) modifier_codes)"

lemma dec_5 [simp]: "dec 5 = [0x35]" and dec_2 [simp]: "dec 2 = [0x32]" and dec_0 [simp]: "dec 0 = [0x30]"
  by (simp_all add: dec.simps)

lemma unat_ucast_u8 [simp]: "unat (ucast (i :: u8) :: u16) = unat i"
proof -
  have "unat i < 2 ^ 16" by (rule order_less_trans [OF word8_bound]) simp
  then show ?thesis by (simp add: unsigned_ucast_eq take_bit_nat_eq_self)
qed

context byte_sink
begin

lemma writes_paramI: "unat n = k \<Longrightarrow> writes (param wr n) (0x3B # dec k)"
  using writes_param [of n] by simp

lemma writes_color: "writes (color_params wr c f) (params_bytes (color_ps c f))"
proof (cases "(c, f)" rule: color_ps.cases)
  case (2 i f')
  have "writes (seqs [param wr (if f then 38 else 48), raw wr (ascii '';5;''), num wr (ucast i)])
      ((0x3B # dec (unat (if f then 38 else 48 :: u16))) @ ascii '';5;'' @ dec (unat (ucast i :: u16)) @ [])"
    by (intro writes_Cons writes_Nil writes_param writes_raw writes_num)
  then show ?thesis using 2 by (cases f) (auto simp: color_params_def ascii_def)
next
  case (3 r g b f')
  have "writes (seqs [param wr (if f then 38 else 48), raw wr (ascii '';2;''), num wr (ucast r),
            raw wr (ascii '';''), num wr (ucast g), raw wr (ascii '';''), num wr (ucast b)])
      ((0x3B # dec (unat (if f then 38 else 48 :: u16))) @ ascii '';2;'' @ dec (unat (ucast r :: u16)) @
       ascii '';'' @ dec (unat (ucast g :: u16)) @ ascii '';'' @ dec (unat (ucast b :: u16)) @ [])"
    by (intro writes_Cons writes_Nil writes_param writes_raw writes_num)
  then show ?thesis using 3 by (cases f) (auto simp: color_params_def ascii_def)
qed (use writes_Nil in \<open>auto simp: color_params_def intro!: writes_paramI\<close>)

lemma writes_map:
  "(\<And>x. writes (f x) (g x)) \<Longrightarrow> writes (seqs (map f xs)) (concat (map g xs))"
proof (induction xs)
  case Nil
  then show ?case using writes_Nil by simp
next
  case (Cons x xs)
  from writes_seq [OF Cons.prems Cons.IH [OF Cons.prems]] show ?case by simp
qed

lemma writes_modifiers: "writes (modifier_params wr m) (params_bytes (mod_ps m))"
proof -
  let ?f = "\<lambda>(flag, code). if m AND flag = flag then param wr code else seqs []"
  let ?g = "\<lambda>(flag, code). if m AND flag = flag then 0x3B # dec (unat code) else ([] :: u8 list)"
  have "writes (?f x) (?g x)" for x
    using writes_param writes_Nil by (auto split: prod.split)
  from writes_map [where f = ?f and g = ?g, OF this]
  have "writes (modifier_params wr m) (concat (map ?g modifier_codes))"
    by (simp add: modifier_params_def)
  moreover have eq: "concat (map ?g ms) = params_bytes (concat (map (\<lambda>(flag, code).
      if m AND flag = flag then [unat code] else []) ms))" for ms
    by (induction ms) (auto split: prod.splits)
  ultimately show ?thesis unfolding mod_ps_def eq [symmetric] by simp
qed

text \<open>The whole style sequence, the cursor move, and what they leave in the backend's state.\<close>

definition style_bytes :: "cell \<Rightarrow> u8 list" where
  "style_bytes c = CSI @ [0x30] @ params_bytes (mod_ps (cell_mod c) @ color_ps (cell_fg c) True
     @ color_ps (cell_bg c) False) @ [0x6D]"

lemma seqs_append_update:
  assumes "writes (seqs fs) bs" "seqs (fs @ [update u]) b = (None, b')"
  shows "\<exists>v. b' = u (b\<lparr>w := v\<rparr>) \<and> received v = received (w b) @ bs"
proof -
  have "seqs (fs @ [update u]) b = (case seqs fs b of (None, b) \<Rightarrow> (None, u b) | (Some e, b) \<Rightarrow> (Some e, b))"
    by (induction fs arbitrary: b) (auto simp: seq_def update_def split: prod.splits option.splits)
  with assms show ?thesis
    unfolding writes_def by (fastforce split: prod.splits option.splits)
qed

lemma apply_style_effect:
  assumes "apply_style wr c b = (None, b')"
  shows "(style_valid b \<and> fg b = cell_fg c \<and> bg b = cell_bg c \<and> modifier b = cell_mod c \<and> b' = b) \<or>
     (\<exists>v. b' = b\<lparr>w := v, fg := cell_fg c, bg := cell_bg c, modifier := cell_mod c, style_valid := True\<rparr> \<and>
       received v = received (w b) @ style_bytes c)"
proof (cases "style_valid b \<and> cell_fg c = fg b \<and> cell_bg c = bg b \<and> cell_mod c = modifier b")
  case True
  then show ?thesis using assms by (auto simp: apply_style_def)
next
  case False
  have wr: "writes (seqs [raw wr CSI, raw wr (ascii ''0''), modifier_params wr (cell_mod c),
       color_params wr (cell_fg c) True, color_params wr (cell_bg c) False, raw wr (ascii ''m'')])
      (CSI @ ascii ''0'' @ params_bytes (mod_ps (cell_mod c)) @ params_bytes (color_ps (cell_fg c) True) @
       params_bytes (color_ps (cell_bg c) False) @ ascii ''m'' @ [])"
    by (intro writes_Cons writes_Nil writes_raw writes_modifiers writes_color)
  have "seqs ([raw wr CSI, raw wr (ascii ''0''), modifier_params wr (cell_mod c),
       color_params wr (cell_fg c) True, color_params wr (cell_bg c) False, raw wr (ascii ''m'')] @
       [update (\<lambda>b. b\<lparr>fg := cell_fg c, bg := cell_bg c, modifier := cell_mod c, style_valid := True\<rparr>)]) b = (None, b')"
    using assms False by (auto simp: apply_style_def)
  from seqs_append_update [OF wr this] show ?thesis
    by (auto simp: style_bytes_def ascii_def)
qed

definition move_bytes :: "u16 \<Rightarrow> u16 \<Rightarrow> u8 list" where
  "move_bytes x y = CSI @ dec (unat (sat_add y 1)) @ [0x3B] @ dec (unat (sat_add x 1)) @ [0x48]"

lemma move_to_effect:
  assumes "move_to wr x y b = (None, b')"
  shows "\<exists>v. b' = b\<lparr>w := v, cursor := \<lparr>pos_x = x, pos_y = y\<rparr>\<rparr> \<and> received v = received (w b) @ move_bytes x y"
proof -
  have wr: "writes (seqs [raw wr CSI, num wr (sat_add y 1), raw wr (ascii '';''), num wr (sat_add x 1),
       raw wr (ascii ''H'')])
      (CSI @ dec (unat (sat_add y 1)) @ ascii '';'' @ dec (unat (sat_add x 1)) @ ascii ''H'' @ [])"
    by (intro writes_Cons writes_Nil writes_raw writes_num)
  have "seqs ([raw wr CSI, num wr (sat_add y 1), raw wr (ascii '';''), num wr (sat_add x 1),
       raw wr (ascii ''H'')] @ [update (\<lambda>b. b\<lparr>cursor := \<lparr>pos_x = x, pos_y = y\<rparr>\<rparr>)]) b = (None, b')"
    using assms by (simp add: move_to_def)
  from seqs_append_update [OF wr this] show ?thesis
    by (auto simp: move_bytes_def ascii_def)
qed

end

subsection \<open>What the terminal makes of it\<close>

lemma vt_run_append: "vt_run t (bs @ cs) = vt_run (vt_run t bs) cs"
  by (simp add: vt_run_def)

lemma vt_run_Cons: "vt_run t (b # bs) = vt_run (vt_step t b) bs"
  by (simp add: vt_run_def)

lemma vt_run_Nil [simp]: "vt_run t [] = t"
  by (simp add: vt_run_def)

lemma digit_step:
  "d < 10 \<Longrightarrow> vmode t = VCsi ps n \<Longrightarrow> vt_step t (of_nat (48 + d)) = t\<lparr>vmode := VCsi ps (n * 10 + d)\<rparr>"
proof -
  assume d: "d < 10" and t: "vmode t = VCsi ps n"
  have u: "unat (of_nat (48 + d) :: u8) = 48 + d" using d by (simp add: unat_of_nat del: of_nat_add)
  have "is_ascii_digit (of_nat (48 + d))"
    unfolding is_ascii_digit_def word_le_nat_alt u using d by simp
  moreover have "unat (of_nat (48 + d) - 0x30 :: u8) = d"
    using d u by (subst unat_sub) (simp_all add: word_le_nat_alt del: of_nat_add)
  ultimately show ?thesis by (simp add: vt_step_def t del: of_nat_add)
qed

lemma vt_dec: "vmode t = VCsi ps 0 \<Longrightarrow> vt_run t (dec n) = t\<lparr>vmode := VCsi ps n\<rparr>"
proof (induction n rule: dec.induct)
  case (1 n)
  show ?case
  proof (cases "n < 10")
    case True
    then show ?thesis using digit_step [of n t ps 0] 1 by (simp add: dec.simps [of n] vt_run_Cons)
  next
    case False
    then have "vt_run t (dec (n div 10)) = t\<lparr>vmode := VCsi ps (n div 10)\<rparr>" using 1 by simp
    moreover have "n div 10 * 10 + n mod 10 = n" by simp
    ultimately show ?thesis
      using False digit_step [of "n mod 10" "t\<lparr>vmode := VCsi ps (n div 10)\<rparr>" ps "n div 10"]
      by (simp add: dec.simps [of n] vt_run_append vt_run_Cons)
  qed
qed

lemma vt_params:
  "vmode t = VCsi ps n \<Longrightarrow> \<not> is_ascii_digit f \<Longrightarrow> f \<noteq> 0x3B \<Longrightarrow> f \<noteq> 0x3F \<Longrightarrow>
     vt_run t (params_bytes qs @ [f]) = (csi_final f (ps @ n # qs) t)\<lparr>vmode := Ground\<rparr>"
proof (induction qs arbitrary: t ps n)
  case Nil
  then show ?case by (simp add: vt_run_Cons vt_step_def)
next
  case (Cons q qs)
  have "vt_step t 0x3B = t\<lparr>vmode := VCsi (ps @ [n]) 0\<rparr>"
    using Cons.prems(1) by (simp add: vt_step_def is_ascii_digit_def word_le_nat_alt)
  then have "vt_run t (params_bytes (q # qs) @ [f]) =
      vt_run (t\<lparr>vmode := VCsi (ps @ [n]) q\<rparr>) (params_bytes qs @ [f])"
    by (simp add: vt_run_Cons vt_run_append vt_dec)
  also have "\<dots> = (csi_final f ((ps @ [n]) @ q # qs) (t\<lparr>vmode := VCsi (ps @ [n]) q\<rparr>))\<lparr>vmode := Ground\<rparr>"
    by (rule Cons.IH) (use Cons.prems in auto)
  also have "\<dots> = (csi_final f (ps @ n # q # qs) t)\<lparr>vmode := Ground\<rparr>"
    by (simp add: csi_final_def cup_def split: list.splits)
  finally show ?case .
qed

lemma vt_csi:
  assumes "vmode t = Ground" "\<not> is_ascii_digit f" "f \<noteq> 0x3B" "f \<noteq> 0x3F"
  shows "vt_run t (CSI @ dec n @ params_bytes qs @ [f]) = (csi_final f (n # qs) t)\<lparr>vmode := Ground\<rparr>"
proof -
  have "vt_run t CSI = t\<lparr>vmode := VCsi [] 0\<rparr>"
    using assms(1) by (simp add: CSI_def vt_run_def vt_step_def)
  then have "vt_run t (CSI @ dec n @ params_bytes qs @ [f]) =
      vt_run (t\<lparr>vmode := VCsi [] n\<rparr>) (params_bytes qs @ [f])"
    by (simp add: vt_run_append vt_dec)
  also have "\<dots> = (csi_final f ([] @ n # qs) (t\<lparr>vmode := VCsi [] n\<rparr>))\<lparr>vmode := Ground\<rparr>"
    by (rule vt_params) (use assms in auto)
  finally show ?thesis by (simp add: csi_final_def cup_def split: list.splits)
qed

text \<open>The SGR parameters of a style, from any pen, set exactly that style.\<close>

lemma sgr_simple: "n \<noteq> 38 \<Longrightarrow> n \<noteq> 48 \<Longrightarrow> sgr (n # ps) s = sgr ps (sgr1 n s)"
  by (cases "(n # ps, s)" rule: sgr.cases) auto

lemma sgr_ext: "n = 38 \<or> n = 48 \<Longrightarrow> sgr (n # 5 # i # ps) s = sgr ps (set_color n (Indexed (of_nat i)) s)"
  "n = 38 \<or> n = 48 \<Longrightarrow> sgr (n # 2 # r # g # b # ps) s = sgr ps (set_color n (Rgb (of_nat r) (of_nat g) (of_nat b)) s)"
  by auto

lemma sgr_fg: "st_fg s = Reset \<Longrightarrow> sgr (color_ps c True @ ps) s = sgr ps (s\<lparr>st_fg := c\<rparr>)"
  by (cases s; cases "(c, True)" rule: color_ps.cases)
     (auto simp: sgr_simple sgr_ext sgr1_def base_colors_def bright_colors_def set_color_def
        simp del: sgr.simps(3,4))

lemma sgr_bg: "st_bg s = Reset \<Longrightarrow> sgr (color_ps c False @ ps) s = sgr ps (s\<lparr>st_bg := c\<rparr>)"
  by (cases s; cases "(c, False)" rule: color_ps.cases)
     (auto simp: sgr_simple sgr_ext sgr1_def base_colors_def bright_colors_def set_color_def
        simp del: sgr.simps(3,4))

lemma and_flag: "(m :: u16) AND push_bit k 1 = (if bit m k then push_bit k 1 else 0)"
  by (rule bit_word_eqI) (auto simp: bit_simps)

lemma sgr_mods:
  assumes "\<forall>(flag, code) \<in> set ms. 1 \<le> unat code \<and> unat code \<le> 9 \<and> flag = push_bit (unat code - 1) 1"
  shows "sgr (concat (map (\<lambda>(flag, code). if m AND flag = flag then [unat code] else []) ms) @ ps) s =
    sgr ps (s\<lparr>st_mod := st_mod s OR (m AND foldr (OR) (map fst ms) 0)\<rparr>)"
  using assms
proof (induction ms arbitrary: s)
  case Nil
  then show ?case by simp
next
  case (Cons x ms)
  obtain flag code where x: "x = (flag, code)" by fastforce
  with Cons.prems have c: "1 \<le> unat code" "unat code \<le> 9" "flag = push_bit (unat code - 1) 1" by auto
  have ih: "sgr (concat (map (\<lambda>(flag, code). if m AND flag = flag then [unat code] else []) ms) @ ps) s' =
    sgr ps (s'\<lparr>st_mod := st_mod s' OR (m AND foldr (OR) (map fst ms) 0)\<rparr>)" for s'
    using Cons by auto
  show ?case
  proof (cases "m AND flag = flag")
    case True
    have "sgr1 (unat code) s = s\<lparr>st_mod := st_mod s OR flag\<rparr>"
      using c by (simp add: sgr1_def)
    then show ?thesis
      using True c ih x by (simp add: sgr_simple or.assoc bit.conj_disj_distrib)
  next
    case False
    then have "m AND flag = 0"
      using and_flag [of m "unat code - 1"] unfolding c(3) by (metis (full_types))
    then show ?thesis using False ih x by (simp add: bit.conj_disj_distrib)
  qed
qed

lemma sgr_style:
  assumes "cell_mod c AND 0x1FF = cell_mod c"
  shows "sgr (0 # mod_ps (cell_mod c) @ color_ps (cell_fg c) True @ color_ps (cell_bg c) False) s =
    \<lparr>st_fg = cell_fg c, st_bg = cell_bg c, st_mod = cell_mod c\<rparr>"
proof -
  have codes: "\<forall>(flag, code) \<in> set modifier_codes. 1 \<le> unat code \<and> unat code \<le> 9 \<and>
      flag = push_bit (unat code - 1) 1"
    by (simp add: modifier_codes_def)
  have "foldr (OR) (map fst modifier_codes) 0 = 0x1FF" by (simp add: modifier_codes_def)
  then have "sgr (0 # mod_ps (cell_mod c) @ color_ps (cell_fg c) True @ color_ps (cell_bg c) False) s =
      sgr (color_ps (cell_fg c) True @ color_ps (cell_bg c) False) (plain\<lparr>st_mod := cell_mod c\<rparr>)"
    unfolding mod_ps_def
    by (subst sgr_simple) (simp_all add: sgr_mods [OF codes] sgr1_def plain_def assms)
  also have "\<dots> = sgr (color_ps (cell_bg c) False) (plain\<lparr>st_mod := cell_mod c, st_fg := cell_fg c\<rparr>)"
    by (rule sgr_fg) (simp add: plain_def)
  also have "\<dots> = sgr [] (plain\<lparr>st_mod := cell_mod c, st_fg := cell_fg c, st_bg := cell_bg c\<rparr>)"
    using sgr_bg [of "plain\<lparr>st_mod := cell_mod c, st_fg := cell_fg c\<rparr>" "cell_bg c" "[]"]
    by (simp add: plain_def)
  finally show ?thesis by (simp add: plain_def)
qed

subsection \<open>Drawing paints exactly the cells\<close>

text \<open>A cell the theorem is about: one glyph (a printable byte and its UTF-8 continuation bytes), the nine
  defined modifiers, inside the screen.\<close>

definition cell_ok :: "vt \<Rightarrow> u16 \<times> u16 \<times> cell \<Rightarrow> bool" where
  "cell_ok t = (\<lambda>(x, y, c). unat x < width t \<and> unat y < height t \<and> cell_mod c AND 0x1FF = cell_mod c \<and>
     (case symbol c of [] \<Rightarrow> False
      | b # bs \<Rightarrow> 0x20 \<le> b \<and> b \<noteq> 0x7F \<and> b AND 0xC0 \<noteq> 0x80 \<and> (\<forall>d \<in> set bs. d AND 0xC0 = 0x80)))"

definition paint :: "u16 \<times> u16 \<times> cell \<Rightarrow> (nat \<times> nat \<Rightarrow> u8 list \<times> style) \<Rightarrow> nat \<times> nat \<Rightarrow> u8 list \<times> style" where
  "paint = (\<lambda>(x, y, c) g. g((unat x, unat y) :=
     (symbol c, \<lparr>st_fg = cell_fg c, st_bg = cell_bg c, st_mod = cell_mod c\<rparr>)))"

text \<open>Backend and terminal agree: the tracked cursor is the terminal's (or is far off the
  screen), and the tracked style, when valid, is its pen.\<close>

definition in_sync :: "'w backend \<Rightarrow> vt \<Rightarrow> bool" where
  "in_sync b t \<longleftrightarrow> vmode t = Ground \<and>
     ((col t = unat (pos_x (cursor b)) \<and> row t = unat (pos_y (cursor b))) \<or>
      width t \<le> unat (pos_x (cursor b))) \<and>
     (style_valid b \<longrightarrow> pen t = \<lparr>st_fg = fg b, st_bg = bg b, st_mod = modifier b\<rparr>)"

lemma continuation_facts: "(d :: u8) AND 0xC0 = 0x80 \<Longrightarrow> d \<noteq> 0x1B \<and> \<not> d < 0x20 \<and> d \<noteq> 0x7F"
proof -
  assume d: "d AND 0xC0 = 0x80"
  then have "bit (d AND 0xC0) 7" by (simp add: bit_simps)
  then have "bit d 7" by (simp add: bit_simps)
  have "d \<noteq> 0x1B" "d \<noteq> 0x7F" using d by auto
  moreover have "\<not> d < 0x20"
  proof
    assume "d < 0x20"
    then have "unat d < 32" by (simp add: word_less_nat_alt)
    then have "drop_bit 7 d = 0"
      by (simp add: word_unat_eq_iff drop_bit_eq_div unat_div_distrib)
    then have "\<not> bit (drop_bit 7 d) 0" by simp
    with \<open>bit d 7\<close> show False by (simp add: bit_simps)
  qed
  ultimately show ?thesis by blast
qed

lemma vt_continuations:
  "vmode t = Ground \<Longrightarrow> 0 < col t \<Longrightarrow> \<forall>d \<in> set bs. d AND 0xC0 = 0x80 \<Longrightarrow> grid t (col t - 1, row t) = (g, st) \<Longrightarrow>
     vt_run t bs = t\<lparr>grid := (grid t)((col t - 1, row t) := (g @ bs, st))\<rparr>"
proof (induction bs arbitrary: t g)
  case Nil
  then have "(grid t)((col t - 1, row t) := (g, st)) = grid t" by (intro ext) simp
  then show ?case by simp
next
  case (Cons d bs)
  let ?t = "t\<lparr>grid := (grid t)((col t - 1, row t) := (g @ [d], st))\<rparr>"
  have "vt_step t d = ?t"
    using Cons.prems continuation_facts [of d] by (simp add: vt_step_def print_def)
  moreover have "vt_run ?t bs = ?t\<lparr>grid := (grid ?t)((col ?t - 1, row ?t) := ((g @ [d]) @ bs, st))\<rparr>"
    by (rule Cons.IH) (use Cons.prems in auto)
  ultimately show ?case by (simp add: vt_run_Cons) (simp add: fun_upd_def)
qed

lemma vt_glyph:
  assumes "vmode t = Ground" "col t < width t" "0x20 \<le> b" "b \<noteq> 0x7F" "b AND 0xC0 \<noteq> 0x80"
    "\<forall>d \<in> set bs. d AND 0xC0 = 0x80"
  shows "vt_run t (b # bs) = t\<lparr>grid := (grid t)((col t, row t) := (b # bs, pen t)), col := col t + 1\<rparr>"
proof -
  have "b \<noteq> 0x1B" "\<not> b < 0x20" using assms(3) by (auto simp: not_less)
  then have s: "vt_step t b = t\<lparr>grid := (grid t)((col t, row t) := ([b], pen t)), col := col t + 1\<rparr>" (is "_ = ?t")
    using assms by (simp add: vt_step_def print_def)
  have "vt_run ?t bs = ?t\<lparr>grid := (grid ?t)((col ?t - 1, row ?t) := ([b] @ bs, pen t))\<rparr>"
    by (rule vt_continuations) (use assms in auto)
  then show ?thesis by (simp add: vt_run_Cons s)
qed

lemma unat_sat1: "unat (x :: u16) < n \<Longrightarrow> n \<le> 65535 \<Longrightarrow> unat (sat_add x 1) = unat x + 1"
  by (simp add: unat_sat_add)

context byte_sink
begin

lemma vt_move:
  assumes "vmode t = Ground" "unat x < width t" "unat y < height t" "width t \<le> 65535" "height t \<le> 65535"
  shows "vt_run t (move_bytes x y) = t\<lparr>col := unat x, row := unat y\<rparr>"
proof -
  have "vt_run t (CSI @ dec (unat y + 1) @ params_bytes [unat x + 1] @ [0x48]) =
      (csi_final 0x48 [unat y + 1, unat x + 1] t)\<lparr>vmode := Ground\<rparr>"
    by (rule vt_csi) (use assms(1) in \<open>auto simp: is_ascii_digit_def word_le_nat_alt\<close>)
  moreover have "move_bytes x y = CSI @ dec (unat y + 1) @ params_bytes [unat x + 1] @ [0x48]"
    using unat_sat1 [OF assms(2,4)] unat_sat1 [OF assms(3,5)] by (simp add: move_bytes_def)
  moreover have "min (unat y) (height t - 1) = unat y" "min (unat x) (width t - 1) = unat x"
    using assms(2,3) by simp_all
  ultimately show ?thesis using assms(1) by (simp add: csi_final_def cup_def)
qed

lemma vt_style:
  assumes "vmode t = Ground" "cell_mod c AND 0x1FF = cell_mod c"
  shows "vt_run t (style_bytes c) = t\<lparr>pen := \<lparr>st_fg = cell_fg c, st_bg = cell_bg c, st_mod = cell_mod c\<rparr>\<rparr>"
proof -
  let ?ps = "mod_ps (cell_mod c) @ color_ps (cell_fg c) True @ color_ps (cell_bg c) False"
  have "vt_run t (CSI @ dec 0 @ params_bytes ?ps @ [0x6D]) = (csi_final 0x6D (0 # ?ps) t)\<lparr>vmode := Ground\<rparr>"
    by (rule vt_csi) (use assms(1) in \<open>auto simp: is_ascii_digit_def word_le_nat_alt\<close>)
  then show ?thesis
    using sgr_style [OF assms(2)] assms(1) by (simp add: style_bytes_def csi_final_def)
qed

lemma draw_cell:
  assumes run: "draw wr ((x, y, c) # cs) b = (None, b')"
    and sync: "in_sync b t" and ok: "cell_ok t (x, y, c)" and sz: "width t \<le> 65535" "height t \<le> 65535"
  shows "\<exists>b1 bs t1. draw wr cs b1 = (None, b') \<and> received (w b1) = received (w b) @ bs \<and>
     vt_run t bs = t1 \<and> in_sync b1 t1 \<and> grid t1 = paint (x, y, c) (grid t) \<and>
     width t1 = width t \<and> height t1 = height t \<and> replies t1 = replies t"
proof -
  let ?st = "\<lparr>st_fg = cell_fg c, st_bg = cell_bg c, st_mod = cell_mod c\<rparr>"
  have xy: "unat x < width t" "unat y < height t" and m: "cell_mod c AND 0x1FF = cell_mod c"
    using ok by (auto simp: cell_ok_def)
  have g: "vmode t = Ground" using sync by (simp add: in_sync_def)
  obtain b2 where b2: "(if pos_x (cursor b) \<noteq> x \<or> pos_y (cursor b) \<noteq> y then move_to wr x y b else (None, b)) = (None, b2)"
    using run by (auto simp: seq_def split: prod.splits option.splits if_splits)
  obtain b3 where b3: "apply_style wr c b2 = (None, b3)"
    using run b2 by (auto simp: seq_def split: prod.splits option.splits if_splits)
  obtain b4 where b4: "raw wr (symbol c) b3 = (None, b4)"
    using run b2 b3 by (auto simp: seq_def split: prod.splits option.splits if_splits)
  define b5 where "b5 = b4\<lparr>cursor := \<lparr>pos_x = sat_add x 1, pos_y = y\<rparr>\<rparr>"
  have rest: "draw wr cs b5 = (None, b')"
    using run b2 b3 b4 by (auto simp: seq_def update_def b5_def split: prod.splits option.splits if_splits)
  obtain mb where mb: "received (w b2) = received (w b) @ mb" "vt_run t mb = t\<lparr>col := unat x, row := unat y\<rparr>"
    "b2 = b\<lparr>w := w b2, cursor := \<lparr>pos_x = x, pos_y = y\<rparr>\<rparr>"
  proof (cases "pos_x (cursor b) \<noteq> x \<or> pos_y (cursor b) \<noteq> y")
    case True
    with b2 have "move_to wr x y b = (None, b2)" by simp
    from move_to_effect [OF this] show ?thesis
      using vt_move [OF g xy sz] by (intro that [of "move_bytes x y"]) auto
  next
    case False
    then have "col t = unat x \<and> row t = unat y" using sync xy(1) by (auto simp: in_sync_def)
    then have "t\<lparr>col := unat x, row := unat y\<rparr> = t" by simp
    moreover have "b\<lparr>w := w b, cursor := \<lparr>pos_x = x, pos_y = y\<rparr>\<rparr> = b"
      using False by (cases b; cases "cursor b") simp
    ultimately show ?thesis using b2 False by (intro that [of "[]"]) auto
  qed
  let ?t2 = "t\<lparr>col := unat x, row := unat y\<rparr>"
  have valid: "style_valid b2 = style_valid b" "fg b2 = fg b" "bg b2 = bg b" "modifier b2 = modifier b"
    by (subst mb(3), simp)+
  obtain sb where sb: "received (w b3) = received (w b2) @ sb" "vt_run ?t2 sb = ?t2\<lparr>pen := ?st\<rparr>"
    "style_valid b3" "fg b3 = cell_fg c" "bg b3 = cell_bg c" "modifier b3 = cell_mod c"
  proof -
    from apply_style_effect [OF b3] consider
        "style_valid b2" "fg b2 = cell_fg c" "bg b2 = cell_bg c" "modifier b2 = cell_mod c" "b3 = b2"
      | v where "b3 = b2\<lparr>w := v, fg := cell_fg c, bg := cell_bg c, modifier := cell_mod c, style_valid := True\<rparr>"
          "received v = received (w b2) @ style_bytes c" by blast
    then show ?thesis
    proof cases
      case 1
      then have "pen t = ?st" using sync valid by (simp add: in_sync_def)
      then have "?t2\<lparr>pen := ?st\<rparr> = ?t2" by simp
      then show ?thesis using 1 by (intro that [of "[]"]) simp_all
    next
      case 2
      have "vt_run ?t2 (style_bytes c) = ?t2\<lparr>pen := ?st\<rparr>" by (rule vt_style) (simp_all add: g m)
      then show ?thesis using 2 by (intro that [of "style_bytes c"]) simp_all
    qed
  qed
  let ?t3 = "?t2\<lparr>pen := ?st\<rparr>"
  have r4: "received (w b4) = received (w b3) @ symbol c" "b4 = b3\<lparr>w := w b4\<rparr>"
    using b4 by (auto simp: raw_def split: prod.splits dest: appends)
  have "vt_run ?t3 (symbol c) = ?t3\<lparr>grid := (grid ?t3)((col ?t3, row ?t3) := (symbol c, pen ?t3)), col := col ?t3 + 1\<rparr>"
  proof -
    from ok obtain s0 ss where s: "symbol c = s0 # ss" "0x20 \<le> s0" "s0 \<noteq> 0x7F" "s0 AND 0xC0 \<noteq> 0x80"
      "\<forall>d \<in> set ss. d AND 0xC0 = 0x80" by (auto simp: cell_ok_def split: list.splits)
    show ?thesis unfolding s(1) by (rule vt_glyph) (use s g xy in simp_all)
  qed
  then have v: "vt_run t (mb @ sb @ symbol c) = t\<lparr>pen := ?st, row := unat y,
      grid := paint (x, y, c) (grid t), col := unat x + 1\<rparr>" (is "_ = ?t4")
    by (simp add: vt_run_append mb(2) sb(2) paint_def)
  have s4: "style_valid b4" "fg b4 = cell_fg c" "bg b4 = cell_bg c" "modifier b4 = cell_mod c"
    by (subst r4(2), simp add: sb)+
  have "in_sync b5 ?t4"
    using s4 g unat_sat1 [OF xy(1) sz(1)] by (simp add: in_sync_def b5_def)
  then show ?thesis
    using rest v r4(1) sb(1) mb(1)
    by (intro exI [of _ b5] exI [of _ "mb @ sb @ symbol c"] exI [of _ ?t4]) (simp add: b5_def)
qed

lemma draw_paints:
  assumes "draw wr cells b = (None, b')" "in_sync b t" "\<forall>c \<in> set cells. cell_ok t c"
    "width t \<le> 65535" "height t \<le> 65535"
  shows "\<exists>bs. received (w b') = received (w b) @ bs \<and> in_sync b' (vt_run t bs) \<and>
     grid (vt_run t bs) = fold paint cells (grid t)"
  using assms
proof (induction cells arbitrary: b t)
  case Nil
  then show ?case by (auto intro!: exI [of _ "[]"])
next
  case (Cons cell cs)
  obtain x y c where cell: "cell = (x, y, c)" by (metis prod_cases3)
  from draw_cell [of x y c cs b b' t] Cons.prems cell obtain b1 bs t1 where
    1: "draw wr cs b1 = (None, b')" "received (w b1) = received (w b) @ bs" "vt_run t bs = t1"
      "in_sync b1 t1" "grid t1 = paint (x, y, c) (grid t)" "width t1 = width t" "height t1 = height t"
    by auto
  have "\<forall>c \<in> set cs. cell_ok t1 c" using Cons.prems(3) 1(6,7) by (auto simp: cell_ok_def)
  from Cons.IH [OF 1(1,4) this] 1(6,7) Cons.prems(4,5) obtain bs' where
    "received (w b') = received (w b1) @ bs'" "in_sync b' (vt_run t1 bs')"
    "grid (vt_run t1 bs') = fold paint cs (grid t1)" by auto
  then show ?case
    using 1 cell by (intro exI [of _ "bs @ bs'"]) (simp add: vt_run_append)
qed

end

interpretation vec: byte_sink vec_writer "\<lambda>v. v"
  by unfold_locales (simp add: vec_writer_def)

text \<open>The in-memory writer never fails, and neither does an operation on it.\<close>

definition succeeds :: "('w, 'e) op \<Rightarrow> bool" where
  "succeeds f \<longleftrightarrow> (\<forall>b. fst (f b) = None)"

lemma succeeds_seqs: "\<forall>f \<in> set fs. succeeds f \<Longrightarrow> succeeds (seqs fs)"
  by (induction fs) (auto simp: succeeds_def seq_def split: prod.splits option.splits, metis fst_conv option.simps(3))

lemma succeeds_basic [simp]: "succeeds (raw vec_writer bs)" "succeeds (num vec_writer n)" "succeeds (update f)"
  "succeeds (seqs [])"
  by (auto simp: succeeds_def raw_def vec_writer_def num_eq update_def)

lemma succeeds_param [simp]: "succeeds (param vec_writer n)"
  unfolding param_def by (rule succeeds_seqs) simp

lemma succeeds_color [simp]: "succeeds (color_params vec_writer c f)"
  unfolding color_params_def Let_def
  by (cases c) (auto simp del: seqs.simps intro!: succeeds_seqs)

lemma succeeds_move [simp]: "succeeds (move_to vec_writer x y)"
  unfolding move_to_def by (rule succeeds_seqs) simp

lemma succeeds_modifiers [simp]: "succeeds (modifier_params vec_writer m)"
  unfolding modifier_params_def by (rule succeeds_seqs) (auto simp del: seqs.simps)

lemma succeeds_style [simp]: "succeeds (apply_style vec_writer c)"
proof -
  have "succeeds (seqs [raw vec_writer CSI, raw vec_writer (ascii ''0''), modifier_params vec_writer (cell_mod c),
             color_params vec_writer (cell_fg c) True, color_params vec_writer (cell_bg c) False,
             raw vec_writer (ascii ''m''),
             update (\<lambda>b. b\<lparr>fg := cell_fg c, bg := cell_bg c, modifier := cell_mod c, style_valid := True\<rparr>)])"
    by (rule succeeds_seqs) simp
  then show ?thesis by (auto simp: succeeds_def apply_style_def)
qed

lemma succeeds_draw [simp]: "succeeds (draw vec_writer cells)"
proof (induction cells)
  case (Cons cell cs)
  obtain x y c where cell: "cell = (x, y, c)" by (metis prod_cases3)
  have "succeeds (\<lambda>b. if pos_x (cursor b) \<noteq> x \<or> pos_y (cursor b) \<noteq> y then move_to vec_writer x y b else (None, b))"
    using succeeds_move [of x y] by (simp add: succeeds_def)
  then show ?case unfolding cell draw.simps by (intro succeeds_seqs) (simp add: Cons)
qed (simp add: succeeds_def)

text \<open>C8: redrawing is exact: given a list of changed cells, the bytes the backend emits, however
  it skips cursor moves and styles, make a terminal it is in step with paint exactly those cells
  with their glyphs and styles, and leave the two in step for the next frame.\<close>

theorem draw_paints_cells:
  assumes "in_sync b t" "\<forall>c \<in> set cells. cell_ok t c" "width t \<le> 65535" "height t \<le> 65535"
  shows "\<exists>b' bs. draw vec_writer cells b = (None, b') \<and> w b' = w b @ bs \<and>
     in_sync b' (vt_run t bs) \<and> grid (vt_run t bs) = fold paint cells (grid t)"
proof -
  obtain r b' where d: "draw vec_writer cells b = (r, b')" by fastforce
  then have "r = None" using succeeds_draw [of cells] by (metis succeeds_def fst_conv)
  with d vec.draw_paints [of cells b b' t] assms show ?thesis by auto
qed

text \<open>An 80 by 24 terminal, blank, with its cursor at home.\<close>

definition demo_vt :: vt where
  "demo_vt = \<lparr>width = 80, height = 24, col = 0, row = 0, pen = plain, grid = (\<lambda>_. blank),
     saved = (0, 0), vmode = Ground, replies = []\<rparr>"

definition demo_cells :: "(u16 \<times> u16 \<times> cell) list" where
  "demo_cells =
     [(2, 1, \<lparr>symbol = [0x48], cell_fg = Green, cell_bg = Reset, cell_mod = 1\<rparr>),
      (3, 1, \<lparr>symbol = [0xC3, 0xA9], cell_fg = Green, cell_bg = Reset, cell_mod = 1\<rparr>),
      (79, 23, \<lparr>symbol = [0x78], cell_fg = Rgb 10 20 30, cell_bg = Indexed 200, cell_mod = 0\<rparr>)]"

theorem draw_paints_cells_witness:
  "\<exists>b' bs. draw vec_writer demo_cells (backend_new [] 80 24) = (None, b') \<and> w b' = bs \<and>
     grid (vt_run demo_vt bs) (3, 1) = ([0xC3, 0xA9], \<lparr>st_fg = Green, st_bg = Reset, st_mod = 1\<rparr>) \<and>
     grid (vt_run demo_vt bs) (4, 1) = blank"
proof -
  have "in_sync (backend_new [] 80 24) demo_vt"
    by (simp add: in_sync_def backend_new_def demo_vt_def)
  moreover have "\<forall>c \<in> set demo_cells. cell_ok demo_vt c"
    by (simp add: demo_cells_def demo_vt_def cell_ok_def word_le_nat_alt)
  moreover have "width demo_vt \<le> 65535" "height demo_vt \<le> 65535" by (simp_all add: demo_vt_def)
  ultimately obtain b' bs where "draw vec_writer demo_cells (backend_new [] 80 24) = (None, b')"
    "w b' = w (backend_new [] 80 24) @ bs"
    "grid (vt_run demo_vt bs) = fold paint demo_cells (grid demo_vt)"
    using draw_paints_cells by blast
  then show ?thesis by (simp add: demo_cells_def paint_def demo_vt_def backend_new_def)
qed

text \<open>Clearing brings any terminal that is not inside a sequence into step with the
  backend, whatever the two thought before, with a blank screen.\<close>

theorem clear_resynchronises:
  assumes "vmode t = Ground" "0 < width t" "0 < height t" "width t \<le> 65535" "height t \<le> 65535"
  shows "\<exists>b' bs. clear vec_writer b = (None, b') \<and> w b' = w b @ bs \<and> in_sync b' (vt_run t bs) \<and>
     grid (vt_run t bs) = (\<lambda>_. blank)"
proof -
  obtain r b1 where m: "move_to vec_writer 0 0 (b\<lparr>w := w b @ CSI @ ascii ''2J''\<rparr>) = (r, b1)" by fastforce
  then have "r = None" using succeeds_move [of 0 0] by (metis succeeds_def fst_conv)
  with vec.move_to_effect [of 0 0 "b\<lparr>w := w b @ CSI @ ascii ''2J''\<rparr>" b1] m obtain v where
    b1: "b1 = b\<lparr>w := v, cursor := \<lparr>pos_x = 0, pos_y = 0\<rparr>\<rparr>"
      "v = w b @ (CSI @ ascii ''2J'') @ vec.move_bytes 0 0" by auto
  have c: "clear vec_writer b = (None, b1\<lparr>style_valid := False\<rparr>)"
    using m \<open>r = None\<close> by (simp add: clear_def seq_def raw_def vec_writer_def update_def split: prod.splits)
  have "vt_run t (CSI @ dec 2 @ params_bytes [] @ [0x4A]) = (csi_final 0x4A [2] t)\<lparr>vmode := Ground\<rparr>"
    by (rule vt_csi) (use assms(1) in \<open>auto simp: is_ascii_digit_def word_le_nat_alt\<close>)
  then have v1: "vt_run t (CSI @ ascii ''2J'') = t\<lparr>grid := (\<lambda>_. blank)\<rparr>"
    using assms(1) by (simp add: ascii_def csi_final_def)
  have "vt_run t ((CSI @ ascii ''2J'') @ vec.move_bytes 0 0) = t\<lparr>grid := (\<lambda>_. blank), col := 0, row := 0\<rparr>"
    unfolding vt_run_append [of t "CSI @ ascii ''2J''"] v1
    using vec.vt_move [of "t\<lparr>grid := (\<lambda>_. blank)\<rparr>" 0 0] assms by simp
  then show ?thesis
    using c b1 assms(1) by (intro exI [of _ "b1\<lparr>style_valid := False\<rparr>"]
        exI [of _ "(CSI @ ascii ''2J'') @ vec.move_bytes 0 0"]) (simp add: in_sync_def)
qed

theorem clear_resynchronises_witness:
  "\<exists>b' bs. clear vec_writer (backend_new [] 80 24) = (None, b') \<and> w b' = bs \<and>
     in_sync b' (vt_run (demo_vt\<lparr>col := 17, row := 5, pen := plain\<lparr>st_mod := 3\<rparr>\<rparr>) bs)"
proof -
  let ?t = "demo_vt\<lparr>col := 17, row := 5, pen := plain\<lparr>st_mod := 3\<rparr>\<rparr>"
  have t: "vmode ?t = Ground" "0 < width ?t" "0 < height ?t" "width ?t \<le> 65535" "height ?t \<le> 65535"
    by (simp_all add: demo_vt_def)
  have "w (backend_new [] 80 24) = []" by (simp add: backend_new_def)
  with clear_resynchronises [OF t, of "backend_new [] 80 24"] obtain b' bs where
    "clear vec_writer (backend_new [] 80 24) = (None, b')" "w b' = bs" "in_sync b' (vt_run ?t bs)"
    by (metis append_Nil)
  then show ?thesis by blast
qed

subsection \<open>The size query\<close>

definition sat16 :: "nat \<Rightarrow> u16" where
  "sat16 n = of_nat (min n 65535)"

lemma unat_sat16: "unat (sat16 n) = min n 65535"
  by (simp add: sat16_def unat_of_nat)

lemma sat16_step: "d < 10 \<Longrightarrow> sat_add (sat_mul (sat16 q) 10) (of_nat d) = sat16 (q * 10 + d)"
  by (simp add: word_unat_eq_iff unat_sat_add unat_sat_mul unat_sat16 unat_of_nat min_def)

lemma digit_facts:
  "d < 10 \<Longrightarrow> is_ascii_digit (of_nat (48 + d)) \<and> (ucast ((of_nat (48 + d) :: u8) - 0x30) :: u16) = of_nat d \<and>
     (of_nat (48 + d) :: u8) \<noteq> 0x1B"
proof -
  assume d: "d < 10"
  have u: "unat (of_nat (48 + d) :: u8) = 48 + d" using d by (simp add: unat_of_nat del: of_nat_add)
  have "is_ascii_digit (of_nat (48 + d))"
    unfolding is_ascii_digit_def word_le_nat_alt u using d by simp
  moreover have "unat (of_nat (48 + d) - 0x30 :: u8) = d"
    using d u by (subst unat_sub) (simp_all add: word_le_nat_alt del: of_nat_add)
  then have "(ucast (of_nat (48 + d) - 0x30 :: u8) :: u16) = of_nat d"
    by (metis of_nat_unat)
  moreover have "(of_nat (48 + d) :: u8) \<noteq> 0x1B"
  proof
    assume "(of_nat (48 + d) :: u8) = 0x1B"
    then have "unat (of_nat (48 + d) :: u8) = 27" by (simp only: unat_numeral) simp
    then show False unfolding u by simp
  qed
  ultimately show ?thesis by blast
qed

lemma feed_append:
  "cpr_feed_from lst p (bs @ cs) = (case cpr_feed_from lst p bs of (l, q) \<Rightarrow> cpr_feed_from l q cs)"
  by (induction bs arbitrary: lst p) (auto split: prod.splits option.splits)

lemma feed_rows:
  "cstate p = Bracket \<Longrightarrow> cpr_feed_from lst p (dec n) = (lst, p\<lparr>cstate := Rows, rows := sat16 n\<rparr>)"
proof (induction n rule: dec.induct)
  case (1 n)
  show ?case
  proof (cases "n < 10")
    case True
    then show ?thesis
      using digit_facts [OF True] "1.prems" by (simp add: dec.simps [of n] cpr_push_def sat16_def)
  next
    case False
    note d = digit_facts [of "n mod 10"]
    have "cpr_feed_from lst p (dec (n div 10)) = (lst, p\<lparr>cstate := Rows, rows := sat16 (n div 10)\<rparr>)"
      using 1 False by simp
    then show ?thesis
      using False d sat16_step [of "n mod 10" "n div 10"]
      by (simp add: dec.simps [of n] feed_append cpr_push_def del: of_nat_add)
  qed
qed

lemma feed_cols:
  "cstate p = Semi \<Longrightarrow> cpr_feed_from lst p (dec n) = (lst, p\<lparr>cstate := Cols, cols := sat16 n\<rparr>)"
proof (induction n rule: dec.induct)
  case (1 n)
  show ?case
  proof (cases "n < 10")
    case True
    then show ?thesis
      using digit_facts [OF True] "1.prems" by (simp add: dec.simps [of n] cpr_push_def sat16_def)
  next
    case False
    note d = digit_facts [of "n mod 10"]
    have "cpr_feed_from lst p (dec (n div 10)) = (lst, p\<lparr>cstate := Cols, cols := sat16 (n div 10)\<rparr>)"
      using 1 False by simp
    then show ?thesis
      using False d sat16_step [of "n mod 10" "n div 10"]
      by (simp add: dec.simps [of n] feed_append cpr_push_def del: of_nat_add)
  qed
qed

lemma feed_esc: "cpr_feed_from lst p [0x1B] = (lst, p\<lparr>cstate := Esc\<rparr>)"
  by (cases "cstate p") (auto simp: cpr_push_def restart_def is_ascii_digit_def word_le_nat_alt)

lemma cpr_report_recognised_aux:
  "\<exists>q. cpr_feed p (pre @ CSI @ dec r @ [0x3B] @ dec c @ [0x52]) = (Some (sat16 c, sat16 r), q) \<and>
     cstate q = Idle"
proof -
  obtain l q where pre: "cpr_feed_from None p pre = (l, q)" by fastforce
  have nd: "\<not> is_ascii_digit 0x3B" "\<not> is_ascii_digit 0x52"
    by (simp_all add: is_ascii_digit_def word_le_nat_alt)
  have "cpr_feed_from l q ([0x1B] @ [0x5B]) = (l, q\<lparr>cstate := Bracket\<rparr>)"
    unfolding feed_append feed_esc by (simp add: cpr_push_def)
  then have csi: "cpr_feed_from l q CSI = (l, q\<lparr>cstate := Bracket\<rparr>)" by (simp add: CSI_def)
  show ?thesis
    unfolding cpr_feed_def feed_append [of _ _ pre] pre prod.case feed_append [of _ _ CSI] csi
    by (simp add: feed_append feed_rows feed_cols cpr_push_def nd)
qed

text \<open>A cursor report is recognised wherever it starts: after any bytes, keystrokes and
  broken reports included, the parser yields its columns and rows, saturated to 16 bits, and is
  idle again.\<close>

theorem cpr_report_recognised:
  "\<exists>q. cpr_feed p (pre @ CSI @ dec r @ [0x3B] @ dec c @ [0x52]) = (Some (sat16 c, sat16 r), q) \<and>
     cstate q = Idle"
  by (rule cpr_report_recognised_aux)

text \<open>Asking a terminal for its size works: the query leaves the terminal as it was but for its
  answer, and the parser makes of the answer the terminal's columns and rows, for any
  screen up to 999 by 999.\<close>

theorem size_query_roundtrip:
  assumes "vmode t = Ground" "0 < width t" "width t \<le> 999" "0 < height t" "height t \<le> 999"
    and "in_sync b t"
  shows "\<exists>b' bs ans. request_size vec_writer b = (None, b') \<and> w b' = w b @ bs \<and>
     replies (vt_run t bs) = replies t @ ans \<and> grid (vt_run t bs) = grid t \<and>
     in_sync b' (vt_run t bs) \<and>
     fst (cpr_feed p ans) = Some (of_nat (width t), of_nat (height t))"
proof -
  let ?q = "[0x1B] @ ascii ''7'' @ [0x1B] @ ascii ''[999;999H'' @ [0x1B] @ ascii ''[6n'' @ [0x1B] @ ascii ''8''"
  let ?ans = "CSI @ dec (height t) @ [0x3B] @ dec (width t) @ [0x52]"
  have d: "dec 999 = [0x39, 0x39, 0x39]" "dec 6 = [0x36]" by (simp_all add: dec.simps)
  have r: "request_size vec_writer b = (None, b\<lparr>w := w b @ ?q, cursor := \<lparr>pos_x = - 1, pos_y = - 1\<rparr>\<rparr>)"
    by (simp add: request_size_def seq_def raw_def vec_writer_def update_def)
  define t1 where "t1 = t\<lparr>saved := (col t, row t)\<rparr>"
  have s1: "vt_run t ([0x1B] @ ascii ''7'') = t1"
    using assms(1) by (simp add: vt_run_def vt_step_def ascii_def t1_def)
  have "vt_run t1 (CSI @ dec 999 @ params_bytes [999] @ [0x48]) = (csi_final 0x48 [999, 999] t1)\<lparr>vmode := Ground\<rparr>"
    by (rule vt_csi) (use assms(1) in \<open>auto simp: is_ascii_digit_def word_le_nat_alt t1_def\<close>)
  moreover have "min 998 (height t - 1) = height t - 1" "min 998 (width t - 1) = width t - 1"
    using assms by simp_all
  ultimately have s2: "vt_run t1 ([0x1B] @ ascii ''[999;999H'') = t1\<lparr>row := height t - 1, col := width t - 1\<rparr>"
    using assms(1) by (simp add: CSI_def d ascii_def csi_final_def cup_def t1_def)
  define t2 where "t2 = t1\<lparr>row := height t - 1, col := width t - 1\<rparr>"
  have "vt_run t2 (CSI @ dec 6 @ params_bytes [] @ [0x6E]) = (csi_final 0x6E [6] t2)\<lparr>vmode := Ground\<rparr>"
    by (rule vt_csi) (use assms(1) in \<open>auto simp: is_ascii_digit_def word_le_nat_alt t2_def t1_def\<close>)
  then have s3: "vt_run t2 ([0x1B] @ ascii ''[6n'') = t2\<lparr>replies := replies t @ ?ans\<rparr>"
    using assms by (simp add: CSI_def d ascii_def csi_final_def t2_def t1_def)
  have s4: "vt_run (t2\<lparr>replies := replies t @ ?ans\<rparr>) ([0x1B] @ ascii ''8'') =
      t\<lparr>saved := (col t, row t), replies := replies t @ ?ans\<rparr>"
    using assms(1) by (simp add: vt_run_def vt_step_def ascii_def t1_def t2_def)
  have "vt_run t ?q = vt_run (vt_run (vt_run (vt_run t ([0x1B] @ ascii ''7''))
      ([0x1B] @ ascii ''[999;999H'')) ([0x1B] @ ascii ''[6n'')) ([0x1B] @ ascii ''8'')"
    by (simp only: vt_run_append append_assoc)
  then have run: "vt_run t ?q = t\<lparr>saved := (col t, row t), replies := replies t @ ?ans\<rparr>"
    by (simp only: s1 s2 t2_def [symmetric] s3 s4)
  have "sat16 (width t) = of_nat (width t)" "sat16 (height t) = of_nat (height t)"
    using assms by (simp_all add: sat16_def)
  then have ans: "fst (cpr_feed p ?ans) = Some (of_nat (width t), of_nat (height t))"
    using cpr_report_recognised_aux [of p "[]" "height t" "width t"] by auto
  have m1: "unat (- 1 :: u16) = 65535" by (simp add: unsigned_minus_1_eq_mask mask_eq_exp_minus_1)
  have "in_sync (b\<lparr>w := w b @ ?q, cursor := \<lparr>pos_x = - 1, pos_y = - 1\<rparr>\<rparr>) (vt_run t ?q)"
    using assms unfolding run by (simp add: in_sync_def m1)
  then show ?thesis
    using r run ans by (intro exI [of _ "b\<lparr>w := w b @ ?q, cursor := \<lparr>pos_x = - 1, pos_y = - 1\<rparr>\<rparr>"]
        exI [of _ ?q] exI [of _ ?ans]) simp
qed

theorem size_query_roundtrip_witness:
  "\<exists>b' bs ans. request_size vec_writer (backend_new [] 80 24) = (None, b') \<and> w b' = w (backend_new [] 80 24) @ bs \<and>
     replies (vt_run demo_vt bs) = ans \<and> fst (cpr_feed cpr_new ans) = Some (80, 24)"
proof -
  have t: "vmode demo_vt = Ground" "0 < width demo_vt" "width demo_vt \<le> 999" "0 < height demo_vt"
    "height demo_vt \<le> 999" "in_sync (backend_new [] 80 24) demo_vt"
    by (simp_all add: demo_vt_def in_sync_def backend_new_def)
  have "replies demo_vt = []" "width demo_vt = 80" "height demo_vt = 24" by (simp_all add: demo_vt_def)
  with size_query_roundtrip [OF t, of cpr_new] show ?thesis by auto
qed

end
