(* ===== verification/Usb_Audio.thy ===== *)
theory Usb_Audio
  imports Spsc
begin

text \<open>
  The USB audio application, \<open>crates/daisy-usb-audio\<close>: the bridge between the UAC endpoints and
  the codec (\<open>codec.rs\<close>), the audio class itself (\<open>uac.rs\<close>: Feature Unit requests, alternate
  settings, feedback) and the interrupt handler that ties them together (\<open>main.rs\<close>,
  \<open>service_usb\<close>). The USB stack is outside the model: what its endpoints deliver is an argument
  of the handler, what the handler sends is in its result.

  Samples are \<open>f32\<close>; the operations of the float arithmetic the code uses are the record
  \<open>f32_ops\<close>, an argument of every definition that computes with samples, so that the theorems
  hold whatever the rounding.
\<close>

section \<open>Samples\<close>

record 'f f32_ops =
  f_int :: "int \<Rightarrow> 'f"
  f_mul :: "'f \<Rightarrow> 'f \<Rightarrow> 'f"
  f_div :: "'f \<Rightarrow> 'f \<Rightarrow> 'f"
  f_eq :: "'f \<Rightarrow> 'f \<Rightarrow> bool"
  f_clamp :: "'f \<Rightarrow> 'f \<Rightarrow> 'f \<Rightarrow> 'f"
  f_to_i16 :: "'f \<Rightarrow> u16"
  f_pow10 :: "'f \<Rightarrow> 'f"

text \<open>\<open>i16::from_le_bytes(..) as f32 / 32768.0 * gain\<close> and
  \<open>((s * gain).clamp(-1.0, 1.0) * 32767.0) as i16\<close>.\<close>

definition sample_in :: "'f f32_ops \<Rightarrow> 'f \<Rightarrow> u8 \<Rightarrow> u8 \<Rightarrow> 'f" where
  "sample_in F gain b0 b1 = f_mul F (f_div F (f_int F (sint (u16_from_le b0 b1))) (f_int F 32768)) gain"

definition sample_out :: "'f f32_ops \<Rightarrow> 'f \<Rightarrow> 'f \<Rightarrow> u8 list" where
  "sample_out F gain s =
     u16_le_bytes (f_to_i16 F (f_mul F (f_clamp F (f_mul F s gain) (f_int F (- 1)) (f_int F 1)) (f_int F 32767)))"

section \<open>codec.rs: between the rings and the endpoints\<close>

definition RING_LEN :: nat where "RING_LEN = 512"
definition RING_CAPACITY :: nat where "RING_CAPACITY = RING_LEN - 1"
definition BLOCK_SIZE :: nat where "BLOCK_SIZE = 48"

record 'f bridge =
  playback :: "'f ring"
  capture :: "'f ring"

definition bridge_new :: "'f f32_ops \<Rightarrow> 'f bridge" where
  "bridge_new F = \<lparr>playback = ring_new RING_LEN (f_int F 0), capture = ring_new RING_LEN (f_int F 0)\<rparr>"

definition playback_len :: "'f bridge \<Rightarrow> nat" where
  "playback_len b = ring_len (playback b)"

definition capture_len :: "'f bridge \<Rightarrow> nat" where
  "capture_len b = ring_len (capture b)"

text \<open>The body of the callback's loop for one index, then the loop over the indices left.\<close>

definition audio_cell ::
  "'f f32_ops \<Rightarrow> 'f list \<Rightarrow> nat \<Rightarrow> 'f list \<Rightarrow> 'f bridge \<Rightarrow> ('f list \<times> 'f bridge) option" where
  "audio_cell F inp i outp b = do {
     (s, p) \<leftarrow> ring_pop (playback b);
     outp \<leftarrow> idx_set outp i (case s of Some v \<Rightarrow> v | None \<Rightarrow> f_int F 0);
     x \<leftarrow> idx_get inp i;
     (_, c) \<leftarrow> ring_push (capture b) x;
     Some (outp, \<lparr>playback = p, capture = c\<rparr>)
   }"

fun audio_loop ::
  "'f f32_ops \<Rightarrow> 'f list \<Rightarrow> nat list \<Rightarrow> 'f list \<Rightarrow> 'f bridge \<Rightarrow> ('f list \<times> 'f bridge) option" where
  "audio_loop F inp [] outp b = Some (outp, b)"
| "audio_loop F inp (i # is) outp b =
     (case audio_cell F inp i outp b of
        None \<Rightarrow> None
      | Some (outp', b') \<Rightarrow> audio_loop F inp is outp' b')"

definition audio_process ::
  "'f f32_ops \<Rightarrow> 'f list \<Rightarrow> 'f list \<Rightarrow> 'f bridge \<Rightarrow> ('f list \<times> 'f bridge) option" where
  "audio_process F inp outp b = audio_loop F inp [0..<BLOCK_SIZE * 2] outp b"

fun push_playback_bytes :: "'f f32_ops \<Rightarrow> u8 list \<Rightarrow> 'f \<Rightarrow> 'f ring \<Rightarrow> 'f ring option" where
  "push_playback_bytes F (b0 # b1 # bytes) gain r =
     (case ring_push r (sample_in F gain b0 b1) of
        None \<Rightarrow> None
      | Some (_, r') \<Rightarrow> push_playback_bytes F bytes gain r')"
| "push_playback_bytes F _ gain r = Some r"

function (sequential) pop_capture_loop ::
  "'f f32_ops \<Rightarrow> u8 list \<Rightarrow> 'f \<Rightarrow> nat \<Rightarrow> 'f ring \<Rightarrow> (nat \<times> u8 list \<times> 'f ring) option" where
  "pop_capture_loop F out gain n r =
     (if n + 1 < length out then
        (case ring_pop r of
           None \<Rightarrow> None
         | Some (None, r') \<Rightarrow> Some (n, out, r')
         | Some (Some s, r') \<Rightarrow>
             pop_capture_loop F (out[n := sample_out F gain s ! 0, n + 1 := sample_out F gain s ! 1]) gain (n + 2) r')
      else Some (n, out, r))"
  by pat_completeness auto
termination
  by (relation "measure (\<lambda>(F, out, gain, n, r). length out - n)") auto

declare pop_capture_loop.simps [simp del]

definition pop_capture_bytes ::
  "'f f32_ops \<Rightarrow> u8 list \<Rightarrow> 'f \<Rightarrow> 'f ring \<Rightarrow> (nat \<times> u8 list \<times> 'f ring) option" where
  "pop_capture_bytes F out gain r = pop_capture_loop F out gain 0 r"

definition bridge_ok :: "'f bridge \<Rightarrow> bool" where
  "bridge_ok b \<longleftrightarrow> ring_ok RING_LEN (playback b) \<and> ring_ok RING_LEN (capture b)"

lemma ring_len_Suc: "RING_LEN = Suc RING_CAPACITY"
  by (simp add: RING_LEN_def RING_CAPACITY_def)

lemma bridge_new_ok: "bridge_ok (bridge_new F)"
  by (simp add: bridge_ok_def bridge_new_def ring_new_ok RING_LEN_def)

subsection \<open>The callback\<close>

lemma take_Cons_replicate: "m \<le> n \<Longrightarrow> take m (z # replicate n z) = replicate m z"
  by (cases m) auto

lemma audio_loop_ok:
  assumes "bridge_ok b" "length outp = k + length xs" "length inp = k + length xs"
  shows "\<exists>b'. audio_loop F inp [k..<k + length xs] outp b =
      Some (take k outp @ take (length xs) (queued (playback b) @ replicate (length xs) (f_int F 0)), b') \<and>
    bridge_ok b' \<and>
    queued (playback b') = drop (length xs) (queued (playback b)) \<and>
    queued (capture b') = queued (capture b) @
      take (RING_CAPACITY - length (queued (capture b))) (drop k inp)"
  using assms
proof (induction xs arbitrary: k outp b)
  case Nil
  then show ?case by simp
next
  case (Cons a xs)
  let ?z = "f_int F 0"
  have p: "ring_ok (Suc RING_CAPACITY) (playback b)" and c: "ring_ok (Suc RING_CAPACITY) (capture b)"
    using Cons.prems(1) by (auto simp: bridge_ok_def ring_len_Suc)
  obtain v p' where pop: "ring_pop (playback b) = Some (v, p')" "ring_ok (Suc RING_CAPACITY) p'"
    "queued p' = drop 1 (queued (playback b))"
    "(case v of Some v \<Rightarrow> v | None \<Rightarrow> ?z) = hd (queued (playback b) @ [?z])"
    using fifo.pop_ok [OF p] by (cases "queued (playback b)") fastforce+
  obtain ok c' where push: "ring_push (capture b) (inp ! k) = Some (ok, c')" "ring_ok (Suc RING_CAPACITY) c'"
    "queued c' = queued (capture b) @ take (RING_CAPACITY - length (queued (capture b))) [inp ! k]"
    using fifo.push_ok [OF c, of "inp ! k"] by (fastforce split: if_splits)
  define b1 where "b1 = \<lparr>playback = p', capture = c'\<rparr>"
  define o1 where "o1 = outp[k := hd (queued (playback b) @ [?z])]"
  have cell: "audio_cell F inp k outp b = Some (o1, b1)"
    using Cons.prems pop push by (simp add: audio_cell_def o1_def b1_def)
  have "bridge_ok b1" "length o1 = Suc k + length xs" "length inp = Suc k + length xs"
    using Cons.prems pop push by (auto simp: bridge_ok_def b1_def o1_def ring_len_Suc)
  from Cons.IH [OF this] obtain b' where b':
    "audio_loop F inp [Suc k..<Suc k + length xs] o1 b1 =
      Some (take (Suc k) o1 @ take (length xs) (queued (playback b1) @ replicate (length xs) ?z), b')"
    "bridge_ok b'" "queued (playback b') = drop (length xs) (queued (playback b1))"
    "queued (capture b') = queued (capture b1) @
      take (RING_CAPACITY - length (queued (capture b1))) (drop (Suc k) inp)"
    by blast
  have "drop k inp = inp ! k # drop (Suc k) inp"
    using Cons.prems by (simp add: Cons_nth_drop_Suc)
  moreover have "take (Suc k) o1 = take k outp @ [hd (queued (playback b) @ [?z])]"
    using Cons.prems by (simp add: o1_def take_Suc_conv_app_nth)
  moreover have "take (length (a # xs)) (queued (playback b) @ replicate (length (a # xs)) ?z) =
    hd (queued (playback b) @ [?z]) # take (length xs) (queued (playback b1) @ replicate (length xs) ?z)"
    by (cases "queued (playback b)") (auto simp: b1_def pop(3) take_Cons_replicate)
  moreover have "[k..<k + length (a # xs)] = k # [Suc k..<Suc k + length xs]"
    by (simp add: upt_conv_Cons del: upt_Suc)
  ultimately show ?case
    using cell b' push(3)
    by (intro exI [of _ b']) (auto simp: b1_def pop(3) take_Cons' simp del: upt_Suc)
qed

lemma audio_process_ok:
  assumes "bridge_ok b" "length inp = 96" "length outp = 96"
  shows "\<exists>b'. audio_process F inp outp b =
      Some (take 96 (queued (playback b) @ replicate 96 (f_int F 0)), b') \<and>
    bridge_ok b' \<and>
    queued (playback b') = drop 96 (queued (playback b)) \<and>
    queued (capture b') = queued (capture b) @ take (RING_CAPACITY - length (queued (capture b))) inp"
  using audio_loop_ok [of b outp 0 inp inp F] assms
  by (simp add: audio_process_def BLOCK_SIZE_def)

subsection \<open>Packets\<close>

text \<open>The samples of a packet, and the packet of a list of samples.\<close>

fun decode_packet :: "'f f32_ops \<Rightarrow> 'f \<Rightarrow> u8 list \<Rightarrow> 'f list" where
  "decode_packet F gain (b0 # b1 # bytes) = sample_in F gain b0 b1 # decode_packet F gain bytes"
| "decode_packet F gain _ = []"

definition encode_packet :: "'f f32_ops \<Rightarrow> 'f \<Rightarrow> 'f list \<Rightarrow> u8 list" where
  "encode_packet F gain ss = concat (map (sample_out F gain) ss)"

lemma length_sample_out [simp]: "length (sample_out F gain s) = 2"
  by (simp add: sample_out_def)

lemma length_encode_packet [simp]: "length (encode_packet F gain ss) = 2 * length ss"
  by (induction ss) (auto simp: encode_packet_def)

lemma length_decode_packet: "length (decode_packet F gain bytes) = length bytes div 2"
  by (induction F gain bytes rule: decode_packet.induct) auto

lemma push_playback_all:
  "push_playback_bytes F bytes gain r = push_all ring_push r (decode_packet F gain bytes)"
  by (induction F gain bytes arbitrary: r rule: decode_packet.induct) (auto split: option.splits)

lemma push_playback_ok:
  assumes "ring_ok RING_LEN r"
  shows "\<exists>r'. push_playback_bytes F bytes gain r = Some r' \<and> ring_ok RING_LEN r' \<and>
    queued r' = queued r @ take (RING_CAPACITY - length (queued r)) (decode_packet F gain bytes)"
  unfolding push_playback_all using assms fifo.push_all_ok [of RING_CAPACITY] ring_len_Suc by simp

lemma sample_out_pair: "sample_out F gain s = [sample_out F gain s ! 0, sample_out F gain s ! 1]"
  by (auto simp: list_eq_iff_nth_eq less_2_cases_iff nth_Cons')

lemma pop_capture_loop_ok:
  assumes "ring_ok RING_LEN r" "n \<le> length out"
    and "k = min (length (queued r)) ((length out - n) div 2)"
  shows "\<exists>out' r'. pop_capture_loop F out gain n r = Some (n + 2 * k, out', r') \<and>
    ring_ok RING_LEN r' \<and> queued r' = drop k (queued r) \<and> length out' = length out \<and>
    take (n + 2 * k) out' = take n out @ encode_packet F gain (take k (queued r))"
  using assms
proof (induction "length out - n" arbitrary: n out r k rule: less_induct)
  case less
  have ok: "ring_ok (Suc RING_CAPACITY) r" using less.prems(1) unfolding ring_len_Suc .
  show ?case
  proof (cases "n + 1 < length out")
    case False
    then have "(length out - n) div 2 = 0" using less.prems by auto
    then have k: "k = 0" using less.prems by simp
    show ?thesis using False less.prems(1,2) unfolding k
      by (simp add: pop_capture_loop.simps [of F out gain n r] encode_packet_def)
  next
    case True
    from ok show ?thesis
    proof (cases rule: fifo.pop_cases)
      case (1 r')
      then have k: "k = 0" using less.prems(3) by (simp only: list.size min_0L)
      show ?thesis using 1 True unfolding k
        by (simp add: pop_capture_loop.simps [of F out gain n r] encode_packet_def ring_len_Suc)
    next
      case (2 s ss r')
      let ?o = "out[n := sample_out F gain s ! 0, n + 1 := sample_out F gain s ! 1]"
      define j where "j = min (length ss) ((length out - (n + 2)) div 2)"
      then have j: "j = min (length (queued r')) ((length ?o - (n + 2)) div 2)" using 2(4) by simp
      have "length out - n = Suc (Suc (length out - (n + 2)))" using True by simp
      then have "(length out - n) div 2 = Suc ((length out - (n + 2)) div 2)" by simp
      then have k: "k = Suc j" using less.prems(3) 2(1) by (simp add: j_def)
      have "length ?o - (n + 2) < length out - n" "ring_ok RING_LEN r'" "n + 2 \<le> length ?o"
        using True 2(3) by (simp_all add: ring_len_Suc)
      from less.hyps [OF this j] obtain out' r2 where
        IH: "pop_capture_loop F ?o gain (n + 2) r' = Some (n + 2 + 2 * j, out', r2)"
        "ring_ok RING_LEN r2" "queued r2 = drop j (queued r')" "length out' = length ?o"
        "take (n + 2 + 2 * j) out' = take (n + 2) ?o @ encode_packet F gain (take j (queued r'))"
        by blast
      have "take (n + 2) ?o = take n out @ sample_out F gain s"
        using True by (subst sample_out_pair) (simp add: take_Suc_conv_app_nth)
      then show ?thesis
        using IH True 2 unfolding k
        by (simp add: pop_capture_loop.simps [of F out gain n r] encode_packet_def)
    qed
  qed
qed

lemma pop_capture_ok:
  fixes out :: "u8 list"
  assumes "ring_ok RING_LEN r"
  defines "k \<equiv> min (length (queued r)) (length out div 2)"
  shows "\<exists>out' r'. pop_capture_bytes F out gain r = Some (2 * k, out', r') \<and>
    ring_ok RING_LEN r' \<and> queued r' = drop k (queued r) \<and> length out' = length out \<and>
    take (2 * k) out' = encode_packet F gain (take k (queued r))"
  using pop_capture_loop_ok [OF assms(1), of 0 out k F gain]
  by (simp add: pop_capture_bytes_def k_def)

end
