(* ===== verification/Uac.thy ===== *)
theory Uac
  imports Prelude
begin

text \<open>
  The state of the USB audio class, \<open>crates/daisy-usb-audio/src/uac.rs\<close>: its interface and
  endpoint numbers, the alternate setting of each stream, mute and volume of the two Feature
  Units, and every method of \<open>UsbClass\<close> that reads or changes them. The descriptors are in
  \<open>Usb_Desc\<close>. A control transfer is its request and data stage; accepting it is in the result
  (\<open>let _ = xfer.accept_with(..)\<close> in the code, which drops the transfer's error).
\<close>

section \<open>Constants\<close>

definition SAMPLE_RATE :: u32 where "SAMPLE_RATE = 48000"
definition CHANNELS :: u8 where "CHANNELS = 2"
definition SUBFRAME_BYTES :: u8 where "SUBFRAME_BYTES = 2"
definition AUDIO_PACKET_SIZE :: u16 where
  "AUDIO_PACKET_SIZE = (ucast SAMPLE_RATE div 1000 + 1) * ucast CHANNELS * ucast SUBFRAME_BYTES"
definition FRAME_BYTES :: nat where "FRAME_BYTES = unat CHANNELS * unat SUBFRAME_BYTES"
definition NOMINAL_CAPTURE_BYTES :: nat where
  "NOMINAL_CAPTURE_BYTES = unat SAMPLE_RATE div 1000 * FRAME_BYTES"
definition NOMINAL_FEEDBACK_Q10_14 :: u32 where "NOMINAL_FEEDBACK_Q10_14 = push_bit 14 48"

definition SET_CUR :: u8 where "SET_CUR = 0x01"
definition GET_CUR :: u8 where "GET_CUR = 0x81"
definition GET_MIN :: u8 where "GET_MIN = 0x82"
definition GET_MAX :: u8 where "GET_MAX = 0x83"
definition GET_RES :: u8 where "GET_RES = 0x84"
definition SAMPLING_FREQ_CONTROL :: u8 where "SAMPLING_FREQ_CONTROL = 0x01"
definition FU_SPEAKER_ID :: u8 where "FU_SPEAKER_ID = 5"
definition FU_MIC_ID :: u8 where "FU_MIC_ID = 6"
definition MUTE_CONTROL :: u8 where "MUTE_CONTROL = 0x01"
definition VOLUME_CONTROL :: u8 where "VOLUME_CONTROL = 0x02"
definition VOL_MIN :: u16 where "VOL_MIN = - 60 * 256"
definition VOL_MAX :: u16 where "VOL_MAX = 0"
definition VOL_RES :: u16 where "VOL_RES = 256"
definition VOL_SILENCE :: u16 where "VOL_SILENCE = 0x8000"

lemmas uac_consts = SET_CUR_def GET_CUR_def GET_MIN_def GET_MAX_def GET_RES_def
  SAMPLING_FREQ_CONTROL_def FU_SPEAKER_ID_def FU_MIC_ID_def MUTE_CONTROL_def VOLUME_CONTROL_def

lemma AUDIO_PACKET_SIZE_eq [simp]: "AUDIO_PACKET_SIZE = 196"
  by (simp add: AUDIO_PACKET_SIZE_def SAMPLE_RATE_def CHANNELS_def SUBFRAME_BYTES_def)

lemma FRAME_BYTES_eq [simp]: "FRAME_BYTES = 4"
  by (simp add: FRAME_BYTES_def CHANNELS_def SUBFRAME_BYTES_def)

lemma NOMINAL_CAPTURE_BYTES_eq [simp]: "NOMINAL_CAPTURE_BYTES = 192"
  by (simp add: NOMINAL_CAPTURE_BYTES_def SAMPLE_RATE_def)

lemma NOMINAL_FEEDBACK_eq: "NOMINAL_FEEDBACK_Q10_14 = 786432"
  by (simp add: NOMINAL_FEEDBACK_Q10_14_def)

section \<open>State and requests\<close>

record uac =
  control_if :: u8
  stream_out_if :: u8
  stream_in_if :: u8
  ep_out :: u8
  ep_fb :: u8
  ep_in :: u8
  alt_out :: u8
  alt_in :: u8
  spk_mute :: bool
  spk_volume :: u16
  mic_mute :: bool
  mic_volume :: u16

datatype req_type = Standard | Class | Vendor | Reserved
datatype recipient = Device | Interface | Endpoint | Other | Reserved_recipient

record request =
  request_type :: req_type
  recipient :: recipient
  request :: u8
  req_value :: u16
  req_index :: u16

text \<open>\<open>new\<close> takes the numbers the bus allocator hands out, in the order it is asked.\<close>

definition uac_new :: "u8 \<Rightarrow> u8 \<Rightarrow> u8 \<Rightarrow> u8 \<Rightarrow> u8 \<Rightarrow> u8 \<Rightarrow> uac" where
  "uac_new ctl out_if in_if eo ef ei =
     \<lparr>control_if = ctl, stream_out_if = out_if, stream_in_if = in_if, ep_out = eo, ep_fb = ef, ep_in = ei,
      alt_out = 0, alt_in = 0, spk_mute = False, spk_volume = VOL_MAX, mic_mute = False, mic_volume = VOL_MAX\<rparr>"

definition fu_selector :: "uac \<Rightarrow> request \<Rightarrow> (u8 \<times> u8) option" where
  "fu_selector c req =
     (let entity = ucast (drop_bit 8 (req_index req)) in
      if request_type req = Class \<and> recipient req = Interface \<and>
         (entity = FU_SPEAKER_ID \<or> entity = FU_MIC_ID) \<and>
         ucast (req_index req AND 0xff) = control_if c
      then Some (entity, ucast (drop_bit 8 (req_value req)))
      else None)"

definition playback_active :: "uac \<Rightarrow> bool" where
  "playback_active c \<longleftrightarrow> alt_out c = 1"

definition capture_active :: "uac \<Rightarrow> bool" where
  "capture_active c \<longleftrightarrow> alt_in c = 1"

text \<open>\<open>Some bytes\<close>: the transfer is accepted with these bytes.\<close>

definition control_in :: "uac \<Rightarrow> request \<Rightarrow> u8 list option" where
  "control_in c req =
     (if request_type req = Class \<and> recipient req = Endpoint \<and> request req = GET_CUR \<and>
         ucast (drop_bit 8 (req_value req)) = SAMPLING_FREQ_CONTROL
      then Some (take 3 (u32_le_bytes SAMPLE_RATE))
      else case fu_selector c req of
        None \<Rightarrow> None
      | Some (entity, selector) \<Rightarrow>
          let (mute, volume) = (if entity = FU_MIC_ID then (mic_mute c, mic_volume c) else (spk_mute c, spk_volume c)) in
          if request req = GET_CUR \<and> selector = MUTE_CONTROL then Some [of_bool mute]
          else if request req = GET_CUR \<and> selector = VOLUME_CONTROL then Some (u16_le_bytes volume)
          else if request req = GET_MIN \<and> selector = VOLUME_CONTROL then Some (u16_le_bytes VOL_MIN)
          else if request req = GET_MAX \<and> selector = VOLUME_CONTROL then Some (u16_le_bytes VOL_MAX)
          else if request req = GET_RES \<and> selector = VOLUME_CONTROL then Some (u16_le_bytes VOL_RES)
          else None)"

text \<open>The first component is whether the transfer is accepted.\<close>

definition control_out :: "uac \<Rightarrow> request \<Rightarrow> u8 list \<Rightarrow> bool \<times> uac" where
  "control_out c req data =
     (if request_type req = Class \<and> recipient req = Endpoint \<and> request req = SET_CUR \<and>
         ucast (drop_bit 8 (req_value req)) = SAMPLING_FREQ_CONTROL
      then (True, c)
      else if request req = SET_CUR then
        (case fu_selector c req of
           None \<Rightarrow> (False, c)
         | Some (entity, selector) \<Rightarrow>
             let mic = (entity = FU_MIC_ID) in
             if selector = MUTE_CONTROL \<and> data \<noteq> [] then
               let m = (data ! 0 \<noteq> 0) in
               (True, if mic then c\<lparr>mic_mute := m\<rparr> else c\<lparr>spk_mute := m\<rparr>)
             else if selector = VOLUME_CONTROL \<and> 2 \<le> length data then
               let v = u16_from_le (data ! 0) (data ! 1) in
               (True, if mic then c\<lparr>mic_volume := v\<rparr> else c\<lparr>spk_volume := v\<rparr>)
             else (False, c))
      else (False, c))"

definition uac_reset :: "uac \<Rightarrow> uac" where
  "uac_reset c = c\<lparr>alt_out := 0, alt_in := 0\<rparr>"

definition get_alt_setting :: "uac \<Rightarrow> u8 \<Rightarrow> u8 option" where
  "get_alt_setting c iface =
     (if iface = stream_out_if c then Some (alt_out c)
      else if iface = stream_in_if c then Some (alt_in c)
      else None)"

definition set_alt_setting :: "uac \<Rightarrow> u8 \<Rightarrow> u8 \<Rightarrow> bool \<times> uac" where
  "set_alt_setting c iface alternative =
     (if alternative > 1 then (False, c)
      else if iface = stream_out_if c then (True, c\<lparr>alt_out := alternative\<rparr>)
      else if iface = stream_in_if c then (True, c\<lparr>alt_in := alternative\<rparr>)
      else (False, c))"

text \<open>\<open>gain_of\<close> over the parameters \<open>pow10 x = libm::powf(10.0, x)\<close>, division and the integers.\<close>

definition gain_of :: "(int \<Rightarrow> 'f) \<Rightarrow> ('f \<Rightarrow> 'f \<Rightarrow> 'f) \<Rightarrow> ('f \<Rightarrow> 'f) \<Rightarrow> bool \<Rightarrow> u16 \<Rightarrow> 'f" where
  "gain_of num fdiv pow10 mute volume =
     (if mute \<or> volume = VOL_SILENCE then num 0
      else pow10 (fdiv (fdiv (num (sint volume)) (num 256)) (num 20)))"

section \<open>Feature Units\<close>

text \<open>A request to Feature Unit \<open>entity\<close>, as a host writes it.\<close>

definition fu_request :: "uac \<Rightarrow> u8 \<Rightarrow> u8 \<Rightarrow> u8 \<Rightarrow> u8 \<Rightarrow> request" where
  "fu_request c entity req sel ch =
     \<lparr>request_type = Class, recipient = Interface, request = req,
      req_value = push_bit 8 (ucast sel) OR ucast ch,
      req_index = push_bit 8 (ucast entity) OR ucast (control_if c)\<rparr>"

lemma hi_byte: "ucast (drop_bit 8 (push_bit 8 (ucast (a :: u8)) OR ucast (b :: u8) :: u16)) = a"
  by (rule bit_word_eqI) (auto simp: bit_simps dest: bit_imp_le_length)

lemma lo_byte: "ucast ((push_bit 8 (ucast (a :: u8)) OR ucast (b :: u8) :: u16) AND 0xff) = b"
proof -
  have m: "(0xff :: u16) = mask 8" by (simp add: mask_eq_exp_minus_1)
  show ?thesis unfolding m by (rule bit_word_eqI) (auto simp: bit_simps dest: bit_imp_le_length)
qed

lemma fu_request_fields [simp]:
  "request_type (fu_request c entity req sel ch) = Class"
  "recipient (fu_request c entity req sel ch) = Interface"
  "request (fu_request c entity req sel ch) = req"
  "ucast (drop_bit 8 (req_index (fu_request c entity req sel ch))) = entity"
  "ucast (req_index (fu_request c entity req sel ch) AND 0xff) = control_if c"
  "ucast (drop_bit 8 (req_value (fu_request c entity req sel ch))) = sel"
  unfolding fu_request_def request.simps by (simp_all only: hi_byte lo_byte)

lemma fu_selector_request:
  "fu_selector c' (fu_request c entity req sel ch) =
     (if (entity = FU_SPEAKER_ID \<or> entity = FU_MIC_ID) \<and> control_if c = control_if c' then Some (entity, sel) else None)"
  by (simp add: fu_selector_def)

lemma fu_selector_cases:
  assumes "fu_selector c req = Some (e, s)"
  shows "e = FU_SPEAKER_ID \<or> e = FU_MIC_ID" "request_type req = Class" "recipient req = Interface"
  using assms by (auto simp: fu_selector_def Let_def split: if_splits)

text \<open>The controls of the two Feature Units, end to end. A well-formed SET_CUR is accepted
  and a GET_CUR then reads back what was set (a mute as 0 or 1, a volume byte for byte),
  every other control of either unit reads as before, and neither stream starts or stops.
  A write that is too short is not accepted and changes nothing.\<close>

theorem feature_unit_roundtrip:
  assumes "entity = FU_SPEAKER_ID \<or> entity = FU_MIC_ID"
    and "(acc, c') = control_out c (fu_request c entity SET_CUR sel ch) data"
  shows "acc = (sel = MUTE_CONTROL \<and> data \<noteq> [] \<or> sel = VOLUME_CONTROL \<and> 2 \<le> length data) \<and>
    (\<not> acc \<longrightarrow> c' = c) \<and>
    (\<forall>e s ch'. control_in c' (fu_request c e GET_CUR s ch') =
       (if acc \<and> e = entity \<and> s = sel
        then Some (if sel = MUTE_CONTROL then [of_bool (data ! 0 \<noteq> 0)] else take 2 data)
        else control_in c (fu_request c e GET_CUR s ch'))) \<and>
    alt_out c' = alt_out c \<and> alt_in c' = alt_in c"
proof -
  have sel: "fu_selector c (fu_request c entity SET_CUR sel ch) = Some (entity, sel)"
    using assms(1) by (simp add: fu_selector_request)
  have bytes: "u16_le_bytes (u16_from_le (data ! 0) (data ! 1)) = take 2 data" if len: "2 \<le> length data"
  proof -
    obtain a b ds where d: "data = a # b # ds"
      using len by (cases data; cases "tl data") auto
    have "ucast (u16_from_le a b) = a" "ucast (drop_bit 8 (u16_from_le a b)) = b"
      by (rule bit_word_eqI; auto simp add: u16_from_le_def bit_simps dest: bit_imp_le_length)+
    then show ?thesis by (simp add: d u16_le_bytes_def numeral_2_eq_2)
  qed
  consider (mute) "sel = MUTE_CONTROL" "data \<noteq> []" | (vol) "sel = VOLUME_CONTROL" "2 \<le> length data"
    | (bad) "\<not> (sel = MUTE_CONTROL \<and> data \<noteq> [] \<or> sel = VOLUME_CONTROL \<and> 2 \<le> length data)"
    by blast
  then show ?thesis
  proof cases
    case mute
    then have "acc" "c' = (if entity = FU_MIC_ID then c\<lparr>mic_mute := data ! 0 \<noteq> 0\<rparr> else c\<lparr>spk_mute := data ! 0 \<noteq> 0\<rparr>)"
      using assms(2) sel by (auto simp: control_out_def Let_def)
    then show ?thesis using assms(1) mute
      by (auto simp: control_in_def fu_selector_request uac_consts)
  next
    case vol
    then have "acc" "c' = (if entity = FU_MIC_ID then c\<lparr>mic_volume := u16_from_le (data ! 0) (data ! 1)\<rparr>
        else c\<lparr>spk_volume := u16_from_le (data ! 0) (data ! 1)\<rparr>)"
      using assms(2) sel by (auto simp: control_out_def Let_def uac_consts)
    then show ?thesis using assms(1) vol
      by (auto simp: control_in_def fu_selector_request uac_consts bytes [OF vol(2), simplified])
  next
    case bad
    then have "\<not> acc" "c' = c"
      using assms(2) sel by (auto simp: control_out_def Let_def)
    then show ?thesis using bad by auto
  qed
qed

text \<open>Raising the mute of the microphone unit of a device with control interface 2.\<close>

lemma feature_unit_roundtrip_witness:
  "control_in (snd (control_out (uac_new 2 3 4 1 0x82 0x83)
      (fu_request (uac_new 2 3 4 1 0x82 0x83) FU_MIC_ID SET_CUR MUTE_CONTROL 0) [1]))
    (fu_request (uac_new 2 3 4 1 0x82 0x83) FU_MIC_ID GET_CUR MUTE_CONTROL 0) = Some [1]"
  using feature_unit_roundtrip [of FU_MIC_ID
      "fst (control_out (uac_new 2 3 4 1 0x82 0x83) (fu_request (uac_new 2 3 4 1 0x82 0x83) FU_MIC_ID SET_CUR MUTE_CONTROL 0) [1])"
      "snd (control_out (uac_new 2 3 4 1 0x82 0x83) (fu_request (uac_new 2 3 4 1 0x82 0x83) FU_MIC_ID SET_CUR MUTE_CONTROL 0) [1])"
      "uac_new 2 3 4 1 0x82 0x83" MUTE_CONTROL 0 "[1]"]
  by simp

section \<open>Alternate settings\<close>

text \<open>
  The device around the class (\<open>vendor/usb-device/src/device.rs\<close>): its state, and what the bus does to it: a
  reset, SET_CONFIGURATION, SET_INTERFACE with its two 16-bit fields (the classes before this one
  decline its interfaces), a class request with data. The first component of a
  result is whether the transfer is accepted. What a reset does to the bus and to the control pipe is
  theirs; the requests for addresses and features never reach a class.
\<close>

datatype device_state = Dev_default | Dev_addressed | Dev_configured | Dev_suspend

record usb_device =
  device_state :: device_state
  suspended_device_state :: "device_state option"
  remote_wakeup_enabled :: bool
  pending_address :: u8
  audio :: uac

datatype usb_event = Bus_reset | Set_configuration u16 | Set_interface u16 u16 | Request_out request "u8 list"

definition device_reset :: "usb_device \<Rightarrow> usb_device" where
  "device_reset d = d\<lparr>device_state := Dev_default, suspended_device_state := None,
     remote_wakeup_enabled := False, pending_address := 0, audio := uac_reset (audio d)\<rparr>"

definition set_configuration :: "u16 \<Rightarrow> usb_device \<Rightarrow> bool \<times> usb_device" where
  "set_configuration v d =
     (if v = 1 then (True, d\<lparr>device_state := Dev_configured\<rparr>)
      else if v = 0 then
        (True, case device_state d of Dev_default \<Rightarrow> d | _ \<Rightarrow> d\<lparr>device_state := Dev_addressed\<rparr>)
      else (False, d))"

definition set_interface :: "u16 \<Rightarrow> u16 \<Rightarrow> usb_device \<Rightarrow> bool \<times> usb_device" where
  "set_interface index alt d =
     (if 255 < index \<or> 255 < alt then (False, d)
      else
        let (ok, c) = set_alt_setting (audio d) (ucast index) (ucast alt) in
        (ok \<or> alt = 0, d\<lparr>audio := c\<rparr>))"

fun device_step :: "usb_device \<Rightarrow> usb_event \<Rightarrow> usb_device" where
  "device_step d Bus_reset = device_reset d"
| "device_step d (Set_configuration v) = snd (set_configuration v d)"
| "device_step d (Set_interface index alt) = snd (set_interface index alt d)"
| "device_step d (Request_out req data) = d\<lparr>audio := snd (control_out (audio d) req data)\<rparr>"

definition device_run :: "usb_device \<Rightarrow> usb_event list \<Rightarrow> usb_device" where
  "device_run d es = foldl device_step d es"

lemma device_run_simps [simp]:
  "device_run d [] = d"
  "device_run d (es @ [e]) = device_step (device_run d es) e"
  by (simp_all add: device_run_def)

text \<open>The setting the host last selected, read off the events from the last to the first.\<close>

fun selected :: "u8 \<Rightarrow> usb_event list \<Rightarrow> u8" where
  "selected iface [] = 0"
| "selected iface (Bus_reset # es) = 0"
| "selected iface (Set_configuration _ # es) = selected iface es"
| "selected iface (Set_interface i a # es) = (if i = ucast iface \<and> a \<le> 1 then ucast a else selected iface es)"
| "selected iface (Request_out _ _ # es) = selected iface es"

lemma control_out_frame [simp]:
  "alt_out (snd (control_out c req data)) = alt_out c"
  "alt_in (snd (control_out c req data)) = alt_in c"
  "stream_out_if (snd (control_out c req data)) = stream_out_if c"
  "stream_in_if (snd (control_out c req data)) = stream_in_if c"
  by (auto simp: control_out_def Let_def split: option.splits if_splits)

lemma set_configuration_audio [simp]: "audio (snd (set_configuration v d)) = audio d"
  by (simp add: set_configuration_def split: device_state.split)

text \<open>Fields of 16 bits that hold a byte.\<close>

lemma unat_u8_le: "unat (b :: u8) \<le> 255"
proof -
  have "unat b < 2 ^ LENGTH(8)" by (rule unsigned_less)
  also have "2 ^ LENGTH(8) = (256 :: nat)" by simp
  finally show ?thesis by linarith
qed

lemma unat_byte:
  "unat (ucast (b :: u8) :: u16) = unat b"
  "i \<le> 255 \<Longrightarrow> unat (ucast (i :: u16) :: u8) = unat i"
proof -
  have "unat b < 65536" using unat_u8_le [of b] by linarith
  then show "unat (ucast b :: u16) = unat b"
    by (simp add: unsigned_ucast_eq take_bit_eq_mod)
  show "unat (ucast i :: u8) = unat i" if "i \<le> 255"
    using that by (simp add: unsigned_ucast_eq take_bit_eq_mod word_le_nat_alt)
qed

lemma byte_le: "ucast (b :: u8) \<le> (255 :: u16)"
  using unat_u8_le [of b] by (simp add: word_le_nat_alt unat_byte)

lemma byte_field: "(i :: u16) = ucast (b :: u8) \<longleftrightarrow> i \<le> 255 \<and> ucast i = b"
proof
  assume "i = ucast b"
  then have i: "i \<le> 255" "unat i = unat b" using byte_le [of b] by (simp_all add: unat_byte)
  then show "i \<le> 255 \<and> ucast i = b" using unat_byte(2) [OF i(1)] by (simp add: word_unat_eq_iff)
next
  assume "i \<le> 255 \<and> ucast i = b"
  then show "i = ucast b" using unat_byte(2) [of i] by (auto simp: word_unat_eq_iff unat_byte(1))
qed

lemma byte_setting: "(a :: u16) \<le> 255 \<Longrightarrow> (1 :: u8) < ucast a \<longleftrightarrow> \<not> a \<le> 1"
  by (simp add: word_less_nat_alt word_le_nat_alt unat_byte not_le)

lemma set_interface_audio:
  "audio (snd (set_interface i a d)) =
     (if a \<le> 1 \<and> i = ucast (stream_out_if (audio d)) then (audio d)\<lparr>alt_out := ucast a\<rparr>
      else if a \<le> 1 \<and> i = ucast (stream_in_if (audio d)) then (audio d)\<lparr>alt_in := ucast a\<rparr> else audio d)"
proof (cases "255 < i \<or> 255 < a")
  case True
  then have "\<not> (a \<le> 1 \<and> i \<le> 255)" by (auto simp: word_less_nat_alt word_le_nat_alt)
  then show ?thesis using True by (auto simp: set_interface_def byte_field)
next
  case False
  then have b: "i \<le> 255" "a \<le> 255" by (simp_all add: not_less)
  note s = byte_setting [OF b(2)]
  show ?thesis using False b(1)
    by (auto simp: set_interface_def set_alt_setting_def s byte_field)
qed

lemma device_step_ifs [simp]:
  "stream_out_if (audio (device_step d e)) = stream_out_if (audio d)"
  "stream_in_if (audio (device_step d e)) = stream_in_if (audio d)"
  by (cases e; simp add: device_reset_def uac_reset_def set_interface_audio)+

lemma device_run_ifs [simp]:
  "stream_out_if (audio (device_run d es)) = stream_out_if (audio d)"
  "stream_in_if (audio (device_run d es)) = stream_in_if (audio d)"
  by (induction es rule: rev_induct) auto

lemma device_run_alt:
  assumes "stream_out_if (audio d) \<noteq> stream_in_if (audio d)" "alt_out (audio d) = 0" "alt_in (audio d) = 0"
  shows "alt_out (audio (device_run d es)) = selected (stream_out_if (audio d)) (rev es) \<and>
    alt_in (audio (device_run d es)) = selected (stream_in_if (audio d)) (rev es)"
proof (induction es rule: rev_induct)
  case Nil
  then show ?case using assms by simp
next
  case (snoc e es)
  have "(ucast (stream_out_if (audio d)) :: u16) \<noteq> ucast (stream_in_if (audio d))"
    using assms(1) by (simp add: word_unat_eq_iff unat_byte)
  then show ?case using snoc assms(1)
    by (cases e) (auto simp: device_reset_def uac_reset_def set_interface_audio)
qed

lemma selected_le_1: "selected iface es \<le> 1"
proof (induction iface es rule: selected.induct)
  case (4 iface i a es)
  have "ucast a \<le> (1 :: u8)" if "a \<le> 1"
  proof -
    have "a \<le> 255" using that by (simp add: word_le_nat_alt)
    with byte_setting [OF this] that show ?thesis by (simp add: not_less)
  qed
  then show ?case using 4 by simp
qed auto

definition new_device :: "uac \<Rightarrow> usb_device" where
  "new_device c = \<lparr>device_state = Dev_default, suspended_device_state = None,
     remote_wakeup_enabled = False, pending_address = 0, audio = c\<rparr>"

text \<open>C32: the streams run exactly when the host said so in its SET_INTERFACE requests. Whatever bus resets,
  configurations, SET_INTERFACE requests (also ill-formed ones and ones for other interfaces) and
  class requests arrive, a stream is active iff the last of them to name its interface with
  setting 0 or 1 since the last bus reset selected setting 1; GET_INTERFACE reports that setting;
  and both streams are idle at start. SET_CONFIGURATION changes nothing of the class, also where the
  comments of the code say that it stops the streams: the vendored stack tells the classes of a bus
  reset only, so a stream left on stays on when the host deconfigures or configures the device again.\<close>

theorem streams_follow_host:
  assumes "out_if \<noteq> in_if"
  shows "let d = device_run (new_device (uac_new ctl out_if in_if eo ef ei)) es; c = audio d in
    playback_active c = (selected out_if (rev es) = 1) \<and>
    capture_active c = (selected in_if (rev es) = 1) \<and>
    get_alt_setting c out_if = Some (selected out_if (rev es)) \<and>
    get_alt_setting c in_if = Some (selected in_if (rev es)) \<and>
    selected out_if (rev es) \<le> 1 \<and> selected in_if (rev es) \<le> 1 \<and>
    audio (device_step d (Set_configuration v)) = c"
proof -
  let ?d = "new_device (uac_new ctl out_if in_if eo ef ei)"
  have d: "audio ?d = uac_new ctl out_if in_if eo ef ei" by (simp add: new_device_def)
  have "alt_out (audio (device_run ?d es)) = selected out_if (rev es)" "alt_in (audio (device_run ?d es)) = selected in_if (rev es)"
    using device_run_alt [of ?d es] assms unfolding d by (simp_all add: uac_new_def)
  moreover have "stream_out_if (audio (device_run ?d es)) = out_if" "stream_in_if (audio (device_run ?d es)) = in_if"
    unfolding device_run_ifs d by (simp_all add: uac_new_def)
  ultimately show ?thesis using assms selected_le_1
    by (simp add: Let_def playback_active_def capture_active_def get_alt_setting_def)
qed

text \<open>Playback selected, then an undefined setting, which is refused, then the device deconfigured; capture
  never selected.\<close>

lemma streams_follow_host_witness:
  "let es = [Bus_reset, Set_configuration 1, Set_interface 3 1, Set_interface 3 2, Set_configuration 0];
     c = audio (device_run (new_device (uac_new 2 3 4 1 0x82 0x83)) es) in
   playback_active c \<and> \<not> capture_active c"
  using streams_follow_host [where out_if = 3 and in_if = 4 and ctl = 2 and eo = 1 and ef = "0x82" and ei = "0x83"
      and es = "[Bus_reset, Set_configuration 1, Set_interface 3 1, Set_interface 3 2, Set_configuration 0]"]
  by (simp add: Let_def word_le_nat_alt word_unat_eq_iff)

end
