(* ===== verification/Usb_Service.thy ===== *)
theory Usb_Service
  imports Usb_Audio Uac
begin

text \<open>
  The interrupt handler of the USB audio application, \<open>service_usb\<close> of
  \<open>crates/daisy-usb-audio/src/main.rs\<close>, in its two builds: with the codec (packets to and from
  the rings, explicit feedback, capture packets sized by the ring) and without (playback looped
  back to capture). What \<open>poll\<close> does to the class is \<open>Uac.device_step\<close>; the packets the endpoints
  deliver are arguments, the serial port is a writer with a state of its own.
\<close>

section \<open>Definitions\<close>

definition playback_gain :: "'f f32_ops \<Rightarrow> uac \<Rightarrow> 'f" where
  "playback_gain F c = gain_of (f_int F) (f_div F) (f_pow10 F) (spk_mute c) (spk_volume c)"

definition capture_gain :: "'f f32_ops \<Rightarrow> uac \<Rightarrow> 'f" where
  "capture_gain F c = gain_of (f_int F) (f_div F) (f_pow10 F) (mic_mute c) (mic_volume c)"

text \<open>The three bytes \<open>write_feedback\<close> puts on the feedback endpoint.\<close>

definition write_feedback :: "u32 \<Rightarrow> u8 list" where
  "write_feedback v = take 3 (u32_le_bytes v)"

definition feedback_adj :: "nat \<Rightarrow> int" where
  "feedback_adj fill =
     (let err = int (RING_CAPACITY div 2) - int fill in
      max (- (2 ^ 14)) (min (2 ^ 14) (err * 64)))"

definition feedback :: "nat \<Rightarrow> u32" where
  "feedback fill = word_of_int (sint NOMINAL_FEEDBACK_Q10_14 + feedback_adj fill)"

definition capture_bytes :: "nat \<Rightarrow> nat" where
  "capture_bytes fill =
     (let target = RING_CAPACITY div 2 in
      if fill > target + 24 then NOMINAL_CAPTURE_BYTES + FRAME_BYTES
      else if fill + 24 < target then NOMINAL_CAPTURE_BYTES - FRAME_BYTES
      else NOMINAL_CAPTURE_BYTES)"

record sent =
  sent_feedback :: "u8 list option"
  sent_capture :: "u8 list option"
  sent_midi :: "u8 list option"

text \<open>
  Reading an endpoint into \<open>audio_buf\<close>: \<open>None\<close> is an error (\<open>WouldBlock\<close>), which leaves the
  buffer alone; a packet of \<open>n\<close> bytes overwrites its front, and slicing \<open>[..n]\<close> panics when
  \<open>n\<close> exceeds the buffer.
\<close>

definition read_into :: "u8 list \<Rightarrow> u8 list \<Rightarrow> u8 list option" where
  "read_into packet buf = (if length packet \<le> length buf then Some (packet @ drop (length packet) buf) else None)"

definition service_playback ::
  "'f f32_ops \<Rightarrow> uac \<Rightarrow> u8 list option \<Rightarrow> u8 list \<Rightarrow> 'f ring \<Rightarrow> (u8 list option \<times> u8 list \<times> 'f ring) option" where
  "service_playback F c packet buf r =
     (if playback_active c then do {
        (buf, r) \<leftarrow> (case packet of
            None \<Rightarrow> Some (buf, r)
          | Some p \<Rightarrow> do {
              buf \<leftarrow> read_into p buf;
              r \<leftarrow> push_playback_bytes F (take (length p) buf) (playback_gain F c) r;
              Some (buf, r)
            });
        Some (Some (write_feedback (feedback (ring_len r))), buf, r)
      }
      else Some (None, buf, r))"

definition service_capture ::
  "'f f32_ops \<Rightarrow> uac \<Rightarrow> u8 list \<Rightarrow> 'f ring \<Rightarrow> (u8 list option \<times> 'f ring) option" where
  "service_capture F c buf r =
     (if capture_active c then
        let bytes = capture_bytes (ring_len r) in
        if bytes \<le> length buf then do {
          (n, out, r) \<leftarrow> pop_capture_bytes F (take bytes buf) (capture_gain F c) r;
          Some (if n > 0 then Some (take n out) else None, r)
        }
        else None
      else Some (None, r))"

text \<open>The CDC echo: write what was read, as much as the port takes at a time.\<close>

partial_function (option) echo_loop :: "('w \<Rightarrow> u8 list \<Rightarrow> nat option \<times> 'w) \<Rightarrow> u8 list \<Rightarrow> nat \<Rightarrow> 'w \<Rightarrow> 'w option" where
  "echo_loop write buf written w =
     (if written < length buf then
        (case write w (drop written buf) of
           (Some n, w') \<Rightarrow> echo_loop write buf (written + n) w'
         | (None, w') \<Rightarrow> Some w')
      else Some w)"

declare echo_loop.simps [code]

definition echo :: "('w \<Rightarrow> u8 list \<Rightarrow> nat option \<times> 'w) \<Rightarrow> u8 list option \<Rightarrow> 'w \<Rightarrow> 'w option" where
  "echo write rx w = (case rx of None \<Rightarrow> Some w | Some buf \<Rightarrow> echo_loop write buf 0 w)"

definition service_usb ::
  "'f f32_ops \<Rightarrow> ('w \<Rightarrow> u8 list \<Rightarrow> nat option \<times> 'w) \<Rightarrow> bool \<Rightarrow> u8 list option \<Rightarrow> u8 list option \<Rightarrow> u8 list option \<Rightarrow>
     uac \<Rightarrow> 'f bridge \<Rightarrow> 'w \<Rightarrow> (sent \<times> 'f bridge \<times> 'w) option" where
  "service_usb F write polled rx packet midi c b w =
     (if \<not> polled then Some (\<lparr>sent_feedback = None, sent_capture = None, sent_midi = None\<rparr>, b, w)
      else do {
        w \<leftarrow> echo write rx w;
        (fb, buf, p) \<leftarrow> service_playback F c packet (replicate (unat AUDIO_PACKET_SIZE) 0) (playback b);
        (cap, r) \<leftarrow> service_capture F c buf (capture b);
        Some (\<lparr>sent_feedback = fb, sent_capture = cap, sent_midi = midi\<rparr>, \<lparr>playback = p, capture = r\<rparr>, w)
      })"

text \<open>The build without a codec.\<close>

definition scale_sample :: "'f f32_ops \<Rightarrow> 'f \<Rightarrow> u8 \<Rightarrow> u8 \<Rightarrow> u8 list" where
  "scale_sample F gain b0 b1 =
     u16_le_bytes (f_to_i16 F (f_mul F (f_clamp F (sample_in F gain b0 b1) (f_int F (- 1)) (f_int F 1)) (f_int F 32767)))"

fun scale_samples :: "'f f32_ops \<Rightarrow> 'f \<Rightarrow> u8 list \<Rightarrow> u8 list" where
  "scale_samples F gain (b0 # b1 # bytes) = scale_sample F gain b0 b1 @ scale_samples F gain bytes"
| "scale_samples F gain bytes = bytes"

definition apply_gain_i16le :: "'f f32_ops \<Rightarrow> u8 list \<Rightarrow> 'f \<Rightarrow> u8 list" where
  "apply_gain_i16le F buf gain = (if f_eq F gain (f_int F 1) then buf else scale_samples F gain buf)"

definition service_usb_loopback ::
  "'f f32_ops \<Rightarrow> ('w \<Rightarrow> u8 list \<Rightarrow> nat option \<times> 'w) \<Rightarrow> bool \<Rightarrow> u8 list option \<Rightarrow> u8 list option \<Rightarrow> u8 list option \<Rightarrow>
     uac \<Rightarrow> 'w \<Rightarrow> (sent \<times> 'w) option" where
  "service_usb_loopback F write polled rx packet midi c w =
     (if \<not> polled then Some (\<lparr>sent_feedback = None, sent_capture = None, sent_midi = None\<rparr>, w)
      else do {
        w \<leftarrow> echo write rx w;
        cap \<leftarrow> (if playback_active c \<and> capture_active c then
            let gain = f_mul F (playback_gain F c) (capture_gain F c) in
            (case packet of
               None \<Rightarrow> Some None
             | Some p \<Rightarrow> do {
                 buf \<leftarrow> read_into p (replicate (unat AUDIO_PACKET_SIZE) 0);
                 Some (Some (apply_gain_i16le F (take (length p) buf) gain))
               })
          else Some None);
        Some (\<lparr>sent_feedback = (if playback_active c then Some (write_feedback NOMINAL_FEEDBACK_Q10_14) else None),
          sent_capture = cap, sent_midi = midi\<rparr>, w)
      })"

section \<open>The echo\<close>

text \<open>A port that keeps its promise takes at least one byte, at most what it is offered, or
  reports an error; the loop then ends, having sent a front of the data.\<close>

definition port_ok :: "('w \<Rightarrow> u8 list \<Rightarrow> nat option \<times> 'w) \<Rightarrow> bool" where
  "port_ok write \<longleftrightarrow> (\<forall>w bs. bs \<noteq> [] \<longrightarrow> (case write w bs of (Some n, _) \<Rightarrow> 1 \<le> n \<and> n \<le> length bs | (None, _) \<Rightarrow> True))"

lemma echo_loop_returns:
  assumes "port_ok write"
  shows "\<exists>w'. echo_loop write buf written w = Some w'"
proof (induction "length buf - written" arbitrary: written w rule: less_induct)
  case less
  show ?case
  proof (cases "written < length buf")
    case False
    then show ?thesis by (subst echo_loop.simps) simp
  next
    case True
    obtain r w1 where r: "write w (drop written buf) = (r, w1)" by fastforce
    show ?thesis
    proof (cases r)
      case None
      then show ?thesis using True r by (subst echo_loop.simps) simp
    next
      case (Some n)
      then have "1 \<le> n"
        using assms True r unfolding port_ok_def by (force dest!: spec [of _ w] spec [of _ "drop written buf"])
      then show ?thesis using less.hyps [of "written + n" w1] True r Some
        by (subst echo_loop.simps) simp
    qed
  qed
qed

lemma echo_returns: "port_ok write \<Longrightarrow> \<exists>w'. echo write rx w = Some w'"
  by (cases rx) (auto simp: echo_def echo_loop_returns)

section \<open>Feedback and packet sizes\<close>

lemma sint_nominal: "sint NOMINAL_FEEDBACK_Q10_14 = 786432"
  by (simp add: NOMINAL_FEEDBACK_eq)

lemma feedback_adj_bounds: "- 16384 \<le> feedback_adj fill" "feedback_adj fill \<le> 16384"
  by (auto simp: feedback_adj_def Let_def)

lemma uint_feedback: "uint (feedback fill) = 786432 + feedback_adj fill"
proof -
  have "uint (word_of_int x :: u32) = x" if "0 \<le> x" "x < 2 ^ 32" for x
    using that by (simp add: unsigned_of_int take_bit_int_eq_self_iff)
  from this [of "786432 + feedback_adj fill"] show ?thesis
    unfolding feedback_def sint_nominal using feedback_adj_bounds [of fill] by simp
qed

lemma queued_Nil: "ring_len r = 0 \<Longrightarrow> queued r = []"
  by (simp flip: length_0_conv)

lemma capture_bytes_cases: "capture_bytes fill \<in> {188, 192, 196}"
  by (simp add: capture_bytes_def Let_def)

text \<open>The explicit feedback. Whatever the fill of the playback ring, the value fits the
  24 bits sent and the three bytes decode to it; it is the nominal 48.0 samples a frame, in
  10.14 fixed point, plus at most one sample either way; it asks for more than nominal exactly
  when the ring is below half, for less exactly when above, and never asks for more when the
  ring is fuller.\<close>

theorem feedback_steers:
  "uint (u32_from_le (write_feedback (feedback fill) ! 0) (write_feedback (feedback fill) ! 1)
      (write_feedback (feedback fill) ! 2) 0) = 48 * 2 ^ 14 + feedback_adj fill \<and>
   length (write_feedback (feedback fill)) = 3 \<and>
   feedback_adj fill \<in> {- (2 ^ 14) .. 2 ^ 14} \<and>
   (feedback_adj fill > 0 \<longleftrightarrow> fill < 255) \<and> (feedback_adj fill < 0 \<longleftrightarrow> fill > 255) \<and>
   feedback_adj (fill + extra) \<le> feedback_adj fill"
proof -
  let ?v = "feedback fill"
  have lt: "uint ?v < 16777216" using uint_feedback [of fill] feedback_adj_bounds [of fill] by simp
  moreover have "int (unat ?v) = uint ?v" by simp
  ultimately have "unat ?v < 16777216" by linarith
  then have "?v div 2 ^ 24 = 0" by (simp add: word_unat_eq_iff unat_div_distrib)
  then have hi: "drop_bit 24 ?v = 0" by (simp add: drop_bit_eq_div)
  have "u32_from_le (ucast ?v) (ucast (drop_bit 8 ?v)) (ucast (drop_bit 16 ?v)) (ucast (drop_bit 24 ?v)) = ?v"
    using u32_le_roundtrip [of ?v] by (simp add: u32_le_bytes_def)
  then have "u32_from_le (write_feedback ?v ! 0) (write_feedback ?v ! 1) (write_feedback ?v ! 2) 0 = ?v"
    by (simp add: write_feedback_def u32_le_bytes_def hi numeral_2_eq_2 numeral_3_eq_3)
  then show ?thesis using uint_feedback [of fill]
    by (auto simp: write_feedback_def feedback_adj_def Let_def RING_CAPACITY_def RING_LEN_def)
qed

lemma service_playback_ok:
  assumes "ring_ok RING_LEN p" "length buf0 = 196" "\<forall>pk. packet = Some pk \<longrightarrow> length pk \<le> 196"
    and "arrived = (case packet of Some pk \<Rightarrow> decode_packet F (playback_gain F c) pk | None \<Rightarrow> [])"
  shows "\<exists>fb buf p'. service_playback F c packet buf0 p = Some (fb, buf, p') \<and> ring_ok RING_LEN p' \<and> length buf = 196 \<and>
    (if playback_active c
     then queued p' = queued p @ take (RING_CAPACITY - length (queued p)) arrived \<and>
       fb = Some (write_feedback (feedback (length (queued p'))))
     else p' = p \<and> fb = None)"
proof (cases packet)
  case None
  then show ?thesis using assms by (simp add: service_playback_def)
next
  case (Some pk)
  then have "length pk \<le> 196" using assms(3) by simp
  then show ?thesis
    using Some assms push_playback_ok [OF assms(1), of F pk "playback_gain F c"]
    by (auto simp: service_playback_def read_into_def)
qed

lemma service_capture_ok:
  assumes "ring_ok RING_LEN r" "length buf = 196"
    and "k = min (length (queued r)) (capture_bytes (length (queued r)) div 2)"
  shows "\<exists>cap r'. service_capture F c buf r = Some (cap, r') \<and> ring_ok RING_LEN r' \<and>
    (if capture_active c
     then queued r' = drop k (queued r) \<and>
       cap = (if k = 0 then None else Some (encode_packet F (capture_gain F c) (take k (queued r))))
     else r' = r \<and> cap = None)"
  using pop_capture_ok [OF assms(1), where out = "take (capture_bytes (ring_len r)) buf" and F = F and gain = "capture_gain F c"]
    assms capture_bytes_cases [of "ring_len r"]
  by (auto simp: service_capture_def min_def queued_Nil)

text \<open>C14: one run of the interrupt handler. With the rings in order, packets no larger than
  the endpoint's, and a serial port that keeps its promise, the handler neither panics nor
  hangs. On an event, if playback is active the packet's samples, scaled by the speaker's
  gain, join the playback ring as far as there is room and the feedback for the resulting fill
  is sent; if capture is active the front of the capture ring is sent, scaled by the
  microphone's gain, in a packet of at most 47, 48 or 49 stereo samples; MIDI is returned. On
  an idle stream nothing is sent and its ring is not touched; without an event nothing is.\<close>

theorem service_usb_exact:
  assumes "bridge_ok b" and "port_ok write"
    and "\<forall>p. packet = Some p \<longrightarrow> length p \<le> 196"
  shows "\<exists>out b' w'. service_usb F write polled rx packet midi c b w = Some (out, b', w') \<and> bridge_ok b' \<and>
    (let arrived = (case packet of Some p \<Rightarrow> decode_packet F (playback_gain F c) p | None \<Rightarrow> []);
         room = RING_CAPACITY - length (queued (playback b));
         k = min (length (queued (capture b))) (capture_bytes (length (queued (capture b))) div 2)
     in (if polled \<and> playback_active c
         then queued (playback b') = queued (playback b) @ take room arrived \<and>
           sent_feedback out = Some (write_feedback (feedback (length (queued (playback b')))))
         else queued (playback b') = queued (playback b) \<and> sent_feedback out = None) \<and>
        (if polled \<and> capture_active c
         then queued (capture b') = drop k (queued (capture b)) \<and>
           sent_capture out = (if k = 0 then None
             else Some (encode_packet F (capture_gain F c) (take k (queued (capture b)))))
         else queued (capture b') = queued (capture b) \<and> sent_capture out = None) \<and>
        sent_midi out = (if polled then midi else None) \<and>
        capture_bytes (length (queued (capture b))) \<in> {4 * 47, 4 * 48, 4 * 49})"
proof (cases polled)
  case False
  then show ?thesis using assms(1) capture_bytes_cases by (simp add: service_usb_def)
next
  case True
  have p: "ring_ok RING_LEN (playback b)" and r: "ring_ok RING_LEN (capture b)"
    using assms(1) by (auto simp: bridge_ok_def)
  obtain w' where w: "echo write rx w = Some w'" using echo_returns [OF assms(2)] by blast
  define buf0 :: "u8 list" where "buf0 = replicate (unat AUDIO_PACKET_SIZE) 0"
  have l0: "length buf0 = 196" by (simp add: buf0_def)
  define arrived where "arrived = (case packet of Some p \<Rightarrow> decode_packet F (playback_gain F c) p | None \<Rightarrow> [])"
  from service_playback_ok [OF p l0 assms(3) arrived_def]
  obtain fb buf p' where play: "service_playback F c packet buf0 (playback b) = Some (fb, buf, p')"
    "ring_ok RING_LEN p'" "length buf = 196"
    "if playback_active c
     then queued p' = queued (playback b) @ take (RING_CAPACITY - length (queued (playback b))) arrived \<and>
       fb = Some (write_feedback (feedback (length (queued p'))))
     else p' = playback b \<and> fb = None"
    by blast
  define k where "k = min (length (queued (capture b))) (capture_bytes (length (queued (capture b))) div 2)"
  from service_capture_ok [OF r play(3) k_def, of F c]
  obtain cap r' where capt: "service_capture F c buf (capture b) = Some (cap, r')" "ring_ok RING_LEN r'"
    "if capture_active c
     then queued r' = drop k (queued (capture b)) \<and>
       cap = (if k = 0 then None else Some (encode_packet F (capture_gain F c) (take k (queued (capture b)))))
     else r' = capture b \<and> cap = None"
    by blast
  have run: "service_usb F write polled rx packet midi c b w =
      Some (\<lparr>sent_feedback = fb, sent_capture = cap, sent_midi = midi\<rparr>, \<lparr>playback = p', capture = r'\<rparr>, w')"
    using True w play(1) capt(1) by (simp add: service_usb_def buf0_def)
  have ok: "bridge_ok \<lparr>playback = p', capture = r'\<rparr>"
    using play(2) capt(2) by (simp add: bridge_ok_def)
  show ?thesis
    unfolding Let_def arrived_def [symmetric] k_def [symmetric]
    by (rule exI, rule exI, rule exI, rule conjI [OF run conjI [OF ok]])
       (use True play(4) capt(3) capture_bytes_cases [of "length (queued (capture b))"] in
         \<open>cases "playback_active c"; cases "capture_active c"; simp del: length_queued\<close>)
qed

text \<open>Arithmetic to evaluate the witnesses with: exact integers.\<close>

definition int_ops :: "int f32_ops" where
  "int_ops = \<lparr>f_int = id, f_mul = (*), f_div = (div), f_eq = (=), f_clamp = (\<lambda>x lo hi. max lo (min hi x)),
     f_to_i16 = word_of_int, f_pow10 = (\<lambda>_. 1)\<rparr>"

definition mute_port :: "unit \<Rightarrow> u8 list \<Rightarrow> nat option \<times> unit" where
  "mute_port w bs = (None, ())"

lemma mute_port_ok: "port_ok mute_port"
  by (simp add: port_ok_def mute_port_def)

lemma service_usb_exact_witness:
  "\<exists>out b' w'. service_usb int_ops mute_port True None (Some [1, 0, 2, 0]) None
     ((uac_new 2 3 4 1 0x82 0x83)\<lparr>alt_out := 1\<rparr>) (bridge_new int_ops) () = Some (out, b', w') \<and>
   length (queued (playback b')) = 2 \<and> sent_feedback out = Some (write_feedback (feedback 2))"
proof -
  define c where "c = (uac_new 2 3 4 1 0x82 0x83)\<lparr>alt_out := 1\<rparr>"
  have q: "queued (playback (bridge_new int_ops)) = []"
    by (simp add: bridge_new_def RING_LEN_def)
  have act: "playback_active c" by (simp add: playback_active_def c_def)
  have small: "\<forall>p. Some [1, 0, 2, 0] = Some p \<longrightarrow> length p \<le> 196" by simp
  obtain out b' w' where run: "service_usb int_ops mute_port True None (Some [1, 0, 2, 0]) None c (bridge_new int_ops) () = Some (out, b', w')"
    and l: "length (queued (playback b')) = 2"
    and fb: "sent_feedback out = Some (write_feedback (feedback (length (queued (playback b')))))"
    using service_usb_exact [OF bridge_new_ok [of int_ops] mute_port_ok small, of int_ops True None None c "()"]
    unfolding Let_def
    by (elim exE conjE) (simp add: q act RING_CAPACITY_def RING_LEN_def del: length_queued, metis length_Cons list.size(3) numeral_2_eq_2)
  have "sent_feedback out = Some (write_feedback (feedback 2))" using fb unfolding l .
  with run l show ?thesis unfolding c_def by blast
qed

text \<open>C33: what an overflow does to the channels. The ring holds 511 samples, an odd number, and
  each sample is dropped on its own: into a ring with 255 whole stereo frames a further frame
  puts its left sample only. From then on every frame lies one sample late: once the
  converter has taken two samples, the next frame's left sample lands in a right slot (an odd
  position), so left and right are exchanged until another odd number of drops.\<close>

theorem overflow_swaps_channels:
  assumes "ring_ok RING_LEN r" and "length (queued r) = 2 * 255"
  shows "\<exists>r1 r2 r3 r4 x y.
    push_playback_bytes F [l0, l1, r0, r1'] gain r = Some r1 \<and>
    queued r1 = queued r @ [sample_in F gain l0 l1] \<and>
    ring_pop r1 = Some (Some x, r2) \<and> ring_pop r2 = Some (Some y, r3) \<and>
    push_playback_bytes F [l2, l3, r2', r3'] gain r3 = Some r4 \<and>
    queued r4 = drop 2 (queued r) @ [sample_in F gain l0 l1, sample_in F gain l2 l3, sample_in F gain r2' r3'] \<and>
    odd (509 :: nat) \<and> queued r4 ! 509 = sample_in F gain l2 l3"
proof -
  obtain r1 where r1: "push_playback_bytes F [l0, l1, r0, r1'] gain r = Some r1" "ring_ok RING_LEN r1"
    "queued r1 = queued r @ [sample_in F gain l0 l1]"
    using push_playback_ok [OF assms(1), of F "[l0, l1, r0, r1']" gain] assms(2)
    by (auto simp: RING_CAPACITY_def RING_LEN_def simp del: length_queued)
  obtain x y qs where q: "queued r = x # y # qs" "length qs = 508"
    using assms(2) by (cases "queued r"; cases "tl (queued r)") (auto simp del: length_queued)
  obtain r2 where r2: "ring_pop r1 = Some (Some x, r2)" "ring_ok RING_LEN r2" "queued r2 = y # qs @ [sample_in F gain l0 l1]"
    using fifo.pop_ok [of RING_CAPACITY r1] r1 q by (auto simp: ring_len_Suc)
  obtain r3 where r3: "ring_pop r2 = Some (Some y, r3)" "ring_ok RING_LEN r3" "queued r3 = qs @ [sample_in F gain l0 l1]"
    using fifo.pop_ok [of RING_CAPACITY r2] r2 by (auto simp: ring_len_Suc)
  obtain r4 where r4: "push_playback_bytes F [l2, l3, r2', r3'] gain r3 = Some r4"
    "queued r4 = qs @ [sample_in F gain l0 l1, sample_in F gain l2 l3, sample_in F gain r2' r3']"
    using push_playback_ok [OF r3(2), of F "[l2, l3, r2', r3']" gain] r3(3) q(2)
    by (auto simp: RING_CAPACITY_def RING_LEN_def simp del: length_queued)
  have "queued r4 ! 509 = sample_in F gain l2 l3"
    using q(2) by (simp add: r4(2) nth_append)
  then show ?thesis
    using r1(1,3) r2(1) r3(1) r4 q by (intro exI conjI) (assumption | simp)+
qed

lemma overflow_swaps_channels_witness:
  "\<exists>r r1. ring_ok RING_LEN r \<and> push_playback_bytes int_ops [0, 1, 0, 2] 1 r = Some r1 \<and>
     queued r1 = queued r @ [sample_in int_ops 1 0 1]"
proof -
  obtain r where r: "ring_ok (Suc RING_CAPACITY) r" "queued r = replicate 510 (0 :: int)"
    using fifo.push_all_ok [OF ring_new_ok [of "Suc RING_CAPACITY" "0 :: int"], of "replicate 510 0"]
    by (auto simp: RING_CAPACITY_def RING_LEN_def simp del: length_queued)
  then have "ring_ok RING_LEN r" "length (queued r) = 2 * 255"
    by (simp_all add: ring_len_Suc del: length_queued)
  from overflow_swaps_channels [OF this, of int_ops 0 1 0 2 1 0 0 0 0] \<open>ring_ok RING_LEN r\<close>
  show ?thesis by blast
qed

text \<open>Scaling a buffer sample by sample.\<close>

lemma length_scale_sample [simp]: "length (scale_sample F gain b0 b1) = 2"
  by (simp add: scale_sample_def)

lemma length_scale_samples [simp]: "length (scale_samples F gain bytes) = length bytes"
  by (induction F gain bytes rule: scale_samples.induct) auto

lemma scale_samples_nth:
  "2 * i + 1 < length bytes \<Longrightarrow>
     take 2 (drop (2 * i) (scale_samples F gain bytes)) = scale_sample F gain (bytes ! (2 * i)) (bytes ! (2 * i + 1))"
proof (induction F gain bytes arbitrary: i rule: scale_samples.induct)
  case (1 F gain b0 b1 bytes)
  then show ?case by (cases i) auto
qed auto

lemma scale_samples_odd: "odd (length bytes) \<Longrightarrow> last (scale_samples F gain bytes) = last bytes"
proof (induction F gain bytes rule: scale_samples.induct)
  case (1 F gain b0 b1 bytes)
  then have "bytes \<noteq> []" by auto
  moreover from this have "scale_samples F gain bytes \<noteq> []"
    by (metis length_0_conv length_scale_samples)
  ultimately show ?case using 1 by simp
qed auto

text \<open>The loopback build. The handler always returns (the port keeping its promise, packets
  no larger than the endpoint's). It returns a packet only when both streams are active and one
  arrived; at unit gain that packet is the one received, byte for byte; otherwise it has its
  length, every sample is the received one scaled, and a trailing odd byte is left alone. The
  nominal rate is reported whenever playback is active.\<close>

theorem loopback_exact:
  assumes "port_ok write" and "\<forall>p. packet = Some p \<longrightarrow> length p \<le> 196"
  shows "\<exists>out w'. service_usb_loopback F write True rx packet midi c w = Some (out, w') \<and>
    sent_feedback out = (if playback_active c then Some (write_feedback NOMINAL_FEEDBACK_Q10_14) else None) \<and>
    (sent_capture out \<noteq> None \<longleftrightarrow> playback_active c \<and> capture_active c \<and> packet \<noteq> None) \<and>
    (\<forall>p q. packet = Some p \<and> sent_capture out = Some q \<longrightarrow>
       (let gain = f_mul F (playback_gain F c) (capture_gain F c) in
        if f_eq F gain (f_int F 1) then q = p
        else length q = length p \<and> (odd (length p) \<longrightarrow> last q = last p) \<and>
          (\<forall>i. 2 * i + 1 < length p \<longrightarrow>
             take 2 (drop (2 * i) q) = scale_sample F gain (p ! (2 * i)) (p ! (2 * i + 1)))))"
proof -
  obtain w' where w: "echo write rx w = Some w'" using echo_returns [OF assms(1)] by blast
  show ?thesis
  proof (cases packet)
    case None
    then show ?thesis by (auto simp: service_usb_loopback_def w)
  next
    case (Some p)
    then have p: "length p \<le> 196" using assms(2) by simp
    define gain where "gain = f_mul F (playback_gain F c) (capture_gain F c)"
    define q where "q = apply_gain_i16le F p gain"
    have run: "service_usb_loopback F write True rx packet midi c w =
      Some (\<lparr>sent_feedback = (if playback_active c then Some (write_feedback NOMINAL_FEEDBACK_Q10_14) else None),
        sent_capture = (if playback_active c \<and> capture_active c then Some q else None), sent_midi = midi\<rparr>, w')"
      using p by (simp add: service_usb_loopback_def w Some read_into_def q_def gain_def Let_def)
    have q: "if f_eq F gain (f_int F 1) then q = p
        else length q = length p \<and> (odd (length p) \<longrightarrow> last q = last p) \<and>
          (\<forall>i. 2 * i + 1 < length p \<longrightarrow>
             take 2 (drop (2 * i) q) = scale_sample F gain (p ! (2 * i)) (p ! (2 * i + 1)))"
      by (simp add: q_def apply_gain_i16le_def scale_samples_odd scale_samples_nth del: One_nat_def add_2_eq_Suc add_2_eq_Suc')
    show ?thesis
      unfolding Let_def gain_def [symmetric]
      by (rule exI, rule exI, rule conjI [OF run]) (use q Some in \<open>simp split: if_split_asm\<close>)
  qed
qed

lemma loopback_exact_witness:
  "\<exists>out. service_usb_loopback int_ops mute_port True None (Some [1, 0, 2]) None
     ((uac_new 2 3 4 1 0x82 0x83)\<lparr>alt_out := 1, alt_in := 1\<rparr>) () = Some (out, ()) \<and>
   sent_capture out = Some [1, 0, 2]"
proof -
  define c where "c = (uac_new 2 3 4 1 0x82 0x83)\<lparr>alt_out := 1, alt_in := 1\<rparr>"
  have act: "playback_active c" "capture_active c" by (simp_all add: playback_active_def capture_active_def c_def)
  have g: "f_eq int_ops (f_mul int_ops (playback_gain int_ops c) (capture_gain int_ops c)) (f_int int_ops 1)"
    by (simp add: int_ops_def playback_gain_def capture_gain_def gain_of_def c_def uac_new_def VOL_SILENCE_def VOL_MAX_def)
  have small: "\<forall>p. Some [1, 0, 2] = Some p \<longrightarrow> length p \<le> 196" by simp
  obtain out where run: "service_usb_loopback int_ops mute_port True None (Some [1, 0, 2]) None c () = Some (out, ())"
    and some: "sent_capture out \<noteq> None"
    and same: "\<And>p q. Some [1, 0, 2] = Some p \<Longrightarrow> sent_capture out = Some q \<Longrightarrow> q = p"
    using loopback_exact [OF mute_port_ok small, of int_ops None None c "()"] act g by (auto simp: Let_def)
  from some same have "sent_capture out = Some [1, 0, 2]" by fastforce
  with run show ?thesis unfolding c_def by blast
qed

end
