(* ===== verification/Usb_Desc.thy ===== *)
theory Usb_Desc
  imports Uac
begin

text \<open>
  USB configuration descriptors. The buffer-bounded \<open>DescriptorWriter\<close> of the vendored
  \<open>usb-device\<close> (\<open>vendor/usb-device/src/descriptor.rs\<close>), which patches interface and endpoint
  counts into bytes it has already written, refines a structured layout in which those counts
  are right by construction. The two classes' descriptor lists
  (\<open>crates/daisy-usb-audio/src/uac.rs\<close>, \<open>crates/daisy-midi/src/class.rs\<close>) are sequences of
  writer calls; a call that fails ends the sequence (\<open>?\<close>). The third class of the device, the
  serial port, is a crate outside the repository: any sequence of calls.
\<close>

section \<open>The writer\<close>

text \<open>\<open>Buffer_overflow\<close> and \<open>Invalid_state\<close> are errors of the stack, with which the control transfer is
  refused; \<open>Panicked\<close> is an access out of bounds, after which the device halts.\<close>

datatype desc_error = Buffer_overflow | Invalid_state | Panicked

record dwriter =
  wbuf :: "u8 list"
  position :: nat
  num_interfaces_mark :: "nat option"
  num_endpoints_mark :: "nat option"
  write_iads :: bool

definition dwriter_new :: "u8 list \<Rightarrow> dwriter" where
  "dwriter_new buf = \<lparr>wbuf = buf, position = 0, num_interfaces_mark = None, num_endpoints_mark = None, write_iads = False\<rparr>"

text \<open>The callback is given the size of the data area and returns the bytes it puts at its front.\<close>

definition write_with :: "u8 \<Rightarrow> (nat \<Rightarrow> desc_error + u8 list) \<Rightarrow> dwriter \<Rightarrow> desc_error + dwriter" where
  "write_with ty f w =
     (if position w + 2 > length (wbuf w) then Inl Buffer_overflow
      else
        let data_end = min (length (wbuf w)) (position w + 256) in
        case f (data_end - (position w + 2)) of
          Inl e \<Rightarrow> Inl e
        | Inr d \<Rightarrow>
            let total_len = length d + 2 in
            if position w + total_len > length (wbuf w) then Inl Buffer_overflow
            else Inr (w\<lparr>wbuf := take (position w) (wbuf w) @ [of_nat total_len, ty] @ d @ drop (position w + total_len) (wbuf w),
                        position := position w + total_len\<rparr>))"

definition desc_write :: "u8 \<Rightarrow> u8 list \<Rightarrow> dwriter \<Rightarrow> desc_error + dwriter" where
  "desc_write ty d = write_with ty (\<lambda>n. if length d > n then Inl Buffer_overflow else Inr d)"

text \<open>\<open>self.buf[mark] += 1\<close>.\<close>

definition bump :: "nat \<Rightarrow> dwriter \<Rightarrow> desc_error + dwriter" where
  "bump mark w = (if mark < length (wbuf w) then Inr (w\<lparr>wbuf := (wbuf w)[mark := wbuf w ! mark + 1]\<rparr>) else Inl Panicked)"

definition IAD :: u8 where "IAD = 11"
definition INTERFACE :: u8 where "INTERFACE = 4"
definition ENDPOINT :: u8 where "ENDPOINT = 5"
definition CONFIGURATION :: u8 where "CONFIGURATION = 2"

record config_desc =
  composite_with_iads :: bool
  self_powered :: bool
  supports_remote_wakeup :: bool
  max_power :: u8

definition bm_attributes :: "config_desc \<Rightarrow> u8" where
  "bm_attributes c = 0x80 OR (if self_powered c then 0x40 else 0) OR (if supports_remote_wakeup c then 0x20 else 0)"

definition configuration :: "config_desc \<Rightarrow> dwriter \<Rightarrow> desc_error + dwriter" where
  "configuration c w =
     desc_write CONFIGURATION [0, 0, 0, 1, 0, bm_attributes c, max_power c]
       (w\<lparr>num_interfaces_mark := Some (position w + 4), write_iads := composite_with_iads c\<rparr>)"

definition end_class :: "dwriter \<Rightarrow> dwriter" where
  "end_class w = w\<lparr>num_endpoints_mark := None\<rparr>"

text \<open>\<open>buf[2..4].copy_from_slice(..)\<close> panics when the buffer has fewer than four bytes.\<close>

definition end_configuration :: "dwriter \<Rightarrow> desc_error + dwriter" where
  "end_configuration w =
     (if 4 \<le> length (wbuf w)
      then Inr (w\<lparr>wbuf := take 2 (wbuf w) @ u16_le_bytes (of_nat (position w)) @ drop 4 (wbuf w)\<rparr>)
      else Inl Panicked)"

definition iad :: "u8 \<Rightarrow> u8 \<Rightarrow> u8 \<Rightarrow> u8 \<Rightarrow> u8 \<Rightarrow> dwriter \<Rightarrow> desc_error + dwriter" where
  "iad first_if count cls sub proto w =
     (if \<not> write_iads w then Inr w else desc_write IAD [first_if, count, cls, sub, proto, 0] w)"

definition interface_alt :: "u8 \<Rightarrow> u8 \<Rightarrow> u8 \<Rightarrow> u8 \<Rightarrow> u8 \<Rightarrow> dwriter \<Rightarrow> desc_error + dwriter" where
  "interface_alt number alt cls sub proto w =
     (case (if alt = 0 then (case num_interfaces_mark w of Some m \<Rightarrow> bump m w | None \<Rightarrow> Inl Invalid_state) else Inr w) of
        Inl e \<Rightarrow> Inl e
      | Inr w \<Rightarrow>
          desc_write INTERFACE [number, alt, 0, cls, sub, proto, 0] (w\<lparr>num_endpoints_mark := Some (position w + 4)\<rparr>))"

datatype iso_sync = NoSynchronization | Asynchronous | Adaptive | Synchronous

datatype iso_usage = Data_usage | Feedback | ImplicitFeedbackData

datatype ep_type = Control | Isochronous iso_sync iso_usage | Bulk | Interrupt

fun sync_bits :: "iso_sync \<Rightarrow> u8" where
  "sync_bits NoSynchronization = 0"
| "sync_bits Asynchronous = 1"
| "sync_bits Adaptive = 2"
| "sync_bits Synchronous = 3"

fun usage_bits :: "iso_usage \<Rightarrow> u8" where
  "usage_bits Data_usage = 0"
| "usage_bits Feedback = 1"
| "usage_bits ImplicitFeedbackData = 2"

fun to_bm_attributes :: "ep_type \<Rightarrow> u8" where
  "to_bm_attributes Control = 0"
| "to_bm_attributes (Isochronous sync use) = push_bit 4 (usage_bits use) OR push_bit 2 (sync_bits sync) OR 1"
| "to_bm_attributes Bulk = 2"
| "to_bm_attributes Interrupt = 3"

record endpoint =
  ep_address :: u8
  ep_kind :: ep_type
  max_packet_size :: u16
  interval :: u8

text \<open>The callers' closures write their two bytes with \<open>extra[0] = ..; extra[1] = ..\<close>, which
  panics when the area is smaller.\<close>

definition endpoint_ex :: "endpoint \<Rightarrow> u8 list \<Rightarrow> dwriter \<Rightarrow> desc_error + dwriter" where
  "endpoint_ex ep extra w =
     (case (case num_endpoints_mark w of Some m \<Rightarrow> bump m w | None \<Rightarrow> Inl Invalid_state) of
        Inl e \<Rightarrow> Inl e
      | Inr w \<Rightarrow>
          write_with ENDPOINT (\<lambda>n.
            if n < 5 then Inl Buffer_overflow
            else if n - 5 < length extra then Inl Panicked
            else Inr ([ep_address ep, to_bm_attributes (ep_kind ep), ucast (max_packet_size ep),
                       ucast (drop_bit 8 (max_packet_size ep)), interval ep] @ extra)) w)"

section \<open>Sequences of calls\<close>

datatype call =
    Call_iad u8 u8 u8 u8 u8
  | Call_interface u8 u8 u8 u8 u8
  | Call_write u8 "u8 list"
  | Call_endpoint endpoint "u8 list"

fun perform :: "call \<Rightarrow> dwriter \<Rightarrow> desc_error + dwriter" where
  "perform (Call_iad f n c s p) w = iad f n c s p w"
| "perform (Call_interface n a c s p) w = interface_alt n a c s p w"
| "perform (Call_write ty d) w = desc_write ty d w"
| "perform (Call_endpoint ep extra) w = endpoint_ex ep extra w"

fun perform_all :: "call list \<Rightarrow> dwriter \<Rightarrow> desc_error + dwriter" where
  "perform_all [] w = Inr w"
| "perform_all (c # cs) w = (case perform c w of Inl e \<Rightarrow> Inl e | Inr w' \<Rightarrow> perform_all cs w')"

fun write_classes :: "call list list \<Rightarrow> dwriter \<Rightarrow> desc_error + dwriter" where
  "write_classes [] w = Inr w"
| "write_classes (cls # rest) w = (case perform_all cls w of Inl e \<Rightarrow> Inl e | Inr w' \<Rightarrow> write_classes rest (end_class w'))"

text \<open>Answering GET_DESCRIPTOR(CONFIGURATION) into the control buffer; the result is its bytes.\<close>

definition get_configuration :: "config_desc \<Rightarrow> call list list \<Rightarrow> u8 list \<Rightarrow> desc_error + u8 list" where
  "get_configuration cfg classes buf =
     (case configuration cfg (dwriter_new buf) of
        Inl e \<Rightarrow> Inl e
      | Inr w \<Rightarrow>
          (case write_classes classes w of
             Inl e \<Rightarrow> Inl e
           | Inr w \<Rightarrow>
               (case end_configuration w of
                  Inl e \<Rightarrow> Inl e
                | Inr w \<Rightarrow> Inr (take (position w) (wbuf w)))))"

section \<open>The layout\<close>

text \<open>
  A descriptor is its type and its bytes after the two of the header. A group is an interface
  (number, setting, class, subclass, protocol) with what follows it; the first group has none.
  Groups are kept newest first.
\<close>

type_synonym desc = "u8 \<times> u8 list"
type_synonym group = "(u8 \<times> u8 \<times> u8 \<times> u8 \<times> u8) option \<times> desc list"

definition endpoints_in :: "desc list \<Rightarrow> nat" where
  "endpoints_in ds = length (filter (\<lambda>d. fst d = ENDPOINT) ds)"

fun group_descs :: "group \<Rightarrow> desc list" where
  "group_descs (None, ds) = ds"
| "group_descs (Some (n, a, c, s, p), ds) = (INTERFACE, [n, a, of_nat (endpoints_in ds), c, s, p, 0]) # ds"

definition layout_descs :: "group list \<Rightarrow> desc list" where
  "layout_descs gs = concat (map group_descs (rev gs))"

definition default_ifs :: "group list \<Rightarrow> nat" where
  "default_ifs gs = length (filter (\<lambda>g. case fst g of Some (_, a, _) \<Rightarrow> a = 0 | None \<Rightarrow> False) gs)"

definition endpoint_desc :: "endpoint \<Rightarrow> u8 list \<Rightarrow> desc" where
  "endpoint_desc ep extra = (ENDPOINT, [ep_address ep, to_bm_attributes (ep_kind ep), ucast (max_packet_size ep),
     ucast (drop_bit 8 (max_packet_size ep)), interval ep] @ extra)"

fun add_desc :: "desc \<Rightarrow> group list \<Rightarrow> group list" where
  "add_desc d [] = [(None, [d])]"
| "add_desc d ((i, ds) # gs) = (i, ds @ [d]) # gs"

fun add_call :: "bool \<Rightarrow> call \<Rightarrow> group list \<Rightarrow> group list" where
  "add_call iads (Call_iad f n c s p) gs = (if iads then add_desc (IAD, [f, n, c, s, p, 0]) gs else gs)"
| "add_call iads (Call_interface n a c s p) gs = (Some (n, a, c, s, p), []) # gs"
| "add_call iads (Call_write ty d) gs = add_desc (ty, d) gs"
| "add_call iads (Call_endpoint ep extra) gs = add_desc (endpoint_desc ep extra) gs"

definition layout_groups :: "bool \<Rightarrow> call list list \<Rightarrow> group list" where
  "layout_groups iads classes = foldl (\<lambda>gs c. add_call iads c gs) [(None, [])] (concat classes)"

definition encode_desc :: "desc \<Rightarrow> u8 list" where
  "encode_desc d = of_nat (length (snd d) + 2) # fst d # snd d"

definition encode_descs :: "desc list \<Rightarrow> u8 list" where
  "encode_descs ds = concat (map encode_desc ds)"

definition config_bytes :: "config_desc \<Rightarrow> nat \<Rightarrow> group list \<Rightarrow> u8 list" where
  "config_bytes cfg tot gs =
     encode_descs ((CONFIGURATION, u16_le_bytes (of_nat tot) @ [of_nat (default_ifs gs), 1, 0, bm_attributes cfg, max_power cfg])
       # layout_descs gs)"

text \<open>What the calls of a class must respect: no endpoint before its first interface, plain
  writes only of class-specific types, and no descriptor longer than a byte can say.\<close>

fun calls_ok :: "bool \<Rightarrow> call list \<Rightarrow> bool" where
  "calls_ok opened [] = True"
| "calls_ok opened (Call_iad _ _ _ _ _ # cs) = calls_ok opened cs"
| "calls_ok opened (Call_interface _ _ _ _ _ # cs) = calls_ok True cs"
| "calls_ok opened (Call_write ty d # cs) = (ty \<noteq> INTERFACE \<and> ty \<noteq> ENDPOINT \<and> length d \<le> 253 \<and> calls_ok opened cs)"
| "calls_ok opened (Call_endpoint ep extra # cs) = (opened \<and> length extra \<le> 2 \<and> calls_ok opened cs)"

text \<open>What happens when a descriptor is the first that does not fit: the request is refused, except that
  an endpoint with trailing bytes panics when the buffer has room for its five fixed bytes.\<close>

definition layout_size :: "group list \<Rightarrow> nat" where
  "layout_size gs = 9 + length (encode_descs (layout_descs gs))"

fun refusal_of :: "nat \<Rightarrow> nat \<Rightarrow> call \<Rightarrow> desc_error" where
  "refusal_of L pos (Call_endpoint ep extra) = (if pos + 7 \<le> L then Panicked else Buffer_overflow)"
| "refusal_of L pos _ = Buffer_overflow"

fun refusal :: "bool \<Rightarrow> nat \<Rightarrow> group list \<Rightarrow> call list \<Rightarrow> desc_error" where
  "refusal iads L gs [] = Buffer_overflow"
| "refusal iads L gs (c # cs) =
     (if layout_size (add_call iads c gs) \<le> L then refusal iads L (add_call iads c gs) cs
      else refusal_of L (layout_size gs) c)"

section \<open>The writer keeps to the layout\<close>

lemma encode_descs_simps [simp]:
  "encode_descs [] = []"
  "encode_descs (d # ds) = encode_desc d @ encode_descs ds"
  "encode_descs (ds @ es) = encode_descs ds @ encode_descs es"
  by (simp_all add: encode_descs_def)

lemma layout_descs_simps [simp]:
  "layout_descs [] = []"
  "layout_descs (g # gs) = layout_descs gs @ group_descs g"
  by (simp_all add: layout_descs_def)

lemma default_ifs_simps [simp]:
  "default_ifs [] = 0"
  "default_ifs ((None, ds) # gs) = default_ifs gs"
  "default_ifs ((Some (n, a, r), ds) # gs) = (if a = 0 then Suc (default_ifs gs) else default_ifs gs)"
  by (simp_all add: default_ifs_def)

lemma config_bytes_eq:
  "config_bytes cfg tot gs = [9, 2] @ u16_le_bytes (of_nat tot) @
     [of_nat (default_ifs gs), 1, 0, bm_attributes cfg, max_power cfg] @ encode_descs (layout_descs gs)"
  by (simp add: config_bytes_def encode_desc_def CONFIGURATION_def)

lemma length_config_bytes: "length (config_bytes cfg tot gs) = 9 + length (encode_descs (layout_descs gs))"
  by (simp add: config_bytes_eq)

lemma layout_size_bytes: "layout_size gs = length (config_bytes cfg tot gs)"
  by (simp add: layout_size_def length_config_bytes)

text \<open>Adding to the newest group, by what is added.\<close>

lemma endpoints_in_snoc [simp]:
  "endpoints_in (ds @ [d]) = (if fst d = ENDPOINT then Suc (endpoints_in ds) else endpoints_in ds)"
  by (simp add: endpoints_in_def)

lemma add_desc_plain:
  assumes "gs \<noteq> []" "fst d \<noteq> ENDPOINT"
  shows "layout_descs (add_desc d gs) = layout_descs gs @ [d]" "default_ifs (add_desc d gs) = default_ifs gs"
proof -
  obtain i ds gs' where gs: "gs = (i, ds) # gs'" using assms(1) by (cases gs) auto
  show "layout_descs (add_desc d gs) = layout_descs gs @ [d]" "default_ifs (add_desc d gs) = default_ifs gs"
    using assms(2) unfolding gs by (cases i; auto)+
qed

lemma encode_interface:
  "encode_desc (INTERFACE, [n, a, k, c, s, p, 0]) = [9, 4, n, a, k, c, s, p, 0]"
  by (simp add: encode_desc_def INTERFACE_def)

lemma config_bytes_endpoint:
  assumes "fst d = ENDPOINT"
    and m0: "m = 9 + length (encode_descs (layout_descs gs)) + 4"
  shows "config_bytes cfg tot (add_desc d ((Some i, ds) # gs)) =
      (config_bytes cfg tot ((Some i, ds) # gs))[m := config_bytes cfg tot ((Some i, ds) # gs) ! m + 1] @ encode_desc d"
    and "m < length (config_bytes cfg tot ((Some i, ds) # gs))"
proof -
  obtain n a c s p where i: "i = (n, a, c, s, p)" by (cases i)
  define pre where "pre = [9, 2] @ u16_le_bytes (of_nat tot) @
    [of_nat (default_ifs ((Some i, ds) # gs)), 1, 0, bm_attributes cfg, max_power cfg] @
    encode_descs (layout_descs gs) @ [9, 4, n, a]"
  have m: "m = length pre" by (simp add: m0 pre_def)
  have old: "config_bytes cfg tot ((Some i, ds) # gs) = pre @ of_nat (endpoints_in ds) # [c, s, p, 0] @ encode_descs ds"
    by (simp add: config_bytes_eq pre_def i encode_interface)
  have new: "config_bytes cfg tot (add_desc d ((Some i, ds) # gs)) =
    pre @ (of_nat (endpoints_in ds) + 1) # [c, s, p, 0] @ encode_descs ds @ encode_desc d"
    using assms(1) by (simp add: config_bytes_eq pre_def i encode_interface add.commute)
  show "config_bytes cfg tot (add_desc d ((Some i, ds) # gs)) =
      (config_bytes cfg tot ((Some i, ds) # gs))[m := config_bytes cfg tot ((Some i, ds) # gs) ! m + 1] @ encode_desc d"
    unfolding new old m by simp
  show "m < length (config_bytes cfg tot ((Some i, ds) # gs))"
    unfolding old m by simp
qed

lemma config_bytes_plain:
  assumes "gs \<noteq> []" "fst d \<noteq> ENDPOINT"
  shows "config_bytes cfg tot (add_desc d gs) = config_bytes cfg tot gs @ encode_desc d"
  using assms by (simp add: config_bytes_eq add_desc_plain)

lemma config_bytes_interface:
  shows "config_bytes cfg tot ((Some (n, a, c, s, p), []) # gs) =
      (if a = 0 then (config_bytes cfg tot gs)[4 := config_bytes cfg tot gs ! 4 + 1] else config_bytes cfg tot gs) @
      encode_desc (INTERFACE, [n, a, 0, c, s, p, 0])"
  by (simp add: config_bytes_eq encode_interface endpoints_in_def u16_le_bytes_def numeral_eq_Suc add.commute)

text \<open>One descriptor, when it fits and when it does not.\<close>

lemma write_with_fits:
  assumes "position w + length d + 2 \<le> length (wbuf w)" "length d \<le> 254"
    and "\<And>n. length d \<le> n \<Longrightarrow> f n = Inr d"
  shows "write_with ty f w = Inr (w\<lparr>wbuf := take (position w) (wbuf w) @ encode_desc (ty, d) @
      drop (position w + length d + 2) (wbuf w), position := position w + length d + 2\<rparr>)"
proof -
  have "length d \<le> min (length (wbuf w)) (position w + 256) - (position w + 2)" using assms(1,2) by simp
  from assms(3) [OF this] show ?thesis
    using assms(1) by (simp add: write_with_def Let_def encode_desc_def ac_simps)
qed

lemma write_with_full:
  assumes "length (wbuf w) < position w + length d + 2"
    and "\<And>n. n < length d \<Longrightarrow> f n = Inl Buffer_overflow"
  shows "write_with ty f w = Inl Buffer_overflow"
proof (cases "position w + 2 > length (wbuf w)")
  case True
  then show ?thesis by (simp add: write_with_def)
next
  case False
  then have "min (length (wbuf w)) (position w + 256) - (position w + 2) < length d" using assms(1) by simp
  from assms(2) [OF this] show ?thesis using False by (auto simp: write_with_def Let_def)
qed

text \<open>The simulation: what has been written is the layout so far, and the marks are where its
  counts are.\<close>

definition in_step :: "nat \<Rightarrow> config_desc \<Rightarrow> group list \<Rightarrow> bool \<Rightarrow> dwriter \<Rightarrow> bool" where
  "in_step L cfg gs opened w \<longleftrightarrow>
     length (wbuf w) = L \<and> position w \<le> L \<and>
     take (position w) (wbuf w) = config_bytes cfg 0 gs \<and>
     num_interfaces_mark w = Some 4 \<and> write_iads w = composite_with_iads cfg \<and> gs \<noteq> [] \<and>
     num_endpoints_mark w =
       (if opened then Some (9 + length (encode_descs (layout_descs (tl gs))) + 4) else None) \<and>
     (opened \<longrightarrow> fst (hd gs) \<noteq> None)"

lemma sim_position: "in_step L cfg gs opened w \<Longrightarrow> position w = length (config_bytes cfg 0 gs)"
  unfolding in_step_def by (metis length_take min.absorb2)

lemma length_encode_desc [simp]: "length (encode_desc d) = length (snd d) + 2"
  by (simp add: encode_desc_def)

lemma hd_tl_add_desc [simp]:
  "gs \<noteq> [] \<Longrightarrow> tl (add_desc d gs) = tl gs"
  "gs \<noteq> [] \<Longrightarrow> fst (hd (add_desc d gs)) = fst (hd gs)"
  "add_desc d gs \<noteq> []"
  by (cases gs; cases "hd gs"; auto)+

text \<open>Appending after a patch at \<open>m\<close>.\<close>

lemma sim_append:
  assumes "length (wbuf w) = L" "take (position w) (wbuf w) = b" "position w = length b"
    and "position w + length d + 2 \<le> L" "length d \<le> 254" "\<And>n. length d \<le> n \<Longrightarrow> f n = Inr d"
  shows "\<exists>w'. write_with ty f w = Inr w' \<and> length (wbuf w') = L \<and> position w' \<le> L \<and>
    take (position w') (wbuf w') = b @ encode_desc (ty, d) \<and>
    num_interfaces_mark w' = num_interfaces_mark w \<and> write_iads w' = write_iads w \<and>
    num_endpoints_mark w' = num_endpoints_mark w"
  using assms by (subst write_with_fits) (auto simp: assms(6))

lemma sim_write:
  assumes "in_step L cfg gs opened w" "ty \<noteq> ENDPOINT" "length d \<le> 253"
  shows "if length (config_bytes cfg 0 (add_desc (ty, d) gs)) \<le> L
    then \<exists>w'. desc_write ty d w = Inr w' \<and> in_step L cfg (add_desc (ty, d) gs) opened w'
    else desc_write ty d w = Inl Buffer_overflow"
proof -
  let ?f = "\<lambda>n. if length d > n then Inl Buffer_overflow else Inr d"
  have gs: "gs \<noteq> []" using assms(1) by (simp add: in_step_def)
  have new: "config_bytes cfg 0 (add_desc (ty, d) gs) = config_bytes cfg 0 gs @ encode_desc (ty, d)"
    using config_bytes_plain [OF gs] assms(2) by simp
  have pos: "position w = length (config_bytes cfg 0 gs)" by (rule sim_position [OF assms(1)])
  show ?thesis
  proof (cases "position w + length d + 2 \<le> L")
    case True
    have "length (wbuf w) = L" "take (position w) (wbuf w) = config_bytes cfg 0 gs"
      using assms(1) by (simp_all add: in_step_def)
    from sim_append [OF this pos True, of ?f ty] assms(3) obtain w' where
      "write_with ty ?f w = Inr w'" "length (wbuf w') = L" "position w' \<le> L"
      "take (position w') (wbuf w') = config_bytes cfg 0 gs @ encode_desc (ty, d)"
      "num_interfaces_mark w' = num_interfaces_mark w" "write_iads w' = write_iads w"
      "num_endpoints_mark w' = num_endpoints_mark w"
      by auto
    then show ?thesis using assms(1) True gs unfolding new desc_write_def
      by (auto simp: in_step_def pos new)
  next
    case False
    then have "write_with ty ?f w = Inl Buffer_overflow"
      using assms(1) by (intro write_with_full) (auto simp: in_step_def)
    then show ?thesis using False by (simp add: desc_write_def new pos)
  qed
qed

lemma sim_bump:
  assumes "length (wbuf w) = L" "take (position w) (wbuf w) = b" "position w \<le> L" "m < length b"
  shows "\<exists>w'. bump m w = Inr w' \<and> length (wbuf w') = L \<and> position w' = position w \<and>
    take (position w') (wbuf w') = b[m := b ! m + 1] \<and>
    num_interfaces_mark w' = num_interfaces_mark w \<and> write_iads w' = write_iads w \<and>
    num_endpoints_mark w' = num_endpoints_mark w"
proof -
  have "m < position w" "m < length (wbuf w)" using assms by auto
  then show ?thesis using assms by (auto simp: bump_def take_update_swap)
qed

lemma sim_interface:
  assumes "in_step L cfg gs opened w" and gs'_def: "gs' = (Some (n, a, c, s, p), []) # gs"
  shows "if length (config_bytes cfg 0 gs') \<le> L
    then \<exists>w'. interface_alt n a c s p w = Inr w' \<and> in_step L cfg gs' True w'
    else interface_alt n a c s p w = Inl Buffer_overflow"
proof -
  define b where "b = (if a = 0 then (config_bytes cfg 0 gs)[4 := config_bytes cfg 0 gs ! 4 + 1] else config_bytes cfg 0 gs)"
  define d where "d = [n, a, 0, c, s, p, 0 :: u8]"
  have new: "config_bytes cfg 0 gs' = b @ encode_desc (INTERFACE, d)"
    unfolding gs'_def b_def d_def by (rule config_bytes_interface)
  have pos: "position w = length b"
    using sim_position [OF assms(1)] by (simp add: b_def)
  have old: "length (wbuf w) = L" "take (position w) (wbuf w) = config_bytes cfg 0 gs" "position w \<le> L"
    "num_interfaces_mark w = Some 4" "write_iads w = composite_with_iads cfg"
    using assms(1) by (simp_all add: in_step_def)
  obtain w1 where w1: "(if a = 0 then (case num_interfaces_mark w of Some m \<Rightarrow> bump m w | None \<Rightarrow> Inl Invalid_state) else Inr w) = Inr w1"
    "length (wbuf w1) = L" "position w1 = position w" "take (position w1) (wbuf w1) = b"
    "num_interfaces_mark w1 = Some 4" "write_iads w1 = composite_with_iads cfg"
  proof (cases "a = 0")
    case True
    have "4 < length (config_bytes cfg 0 gs)" by (simp add: length_config_bytes)
    from sim_bump [OF old(1,2,3) this] True old that show ?thesis by (auto simp: b_def)
  next
    case False
    with old that show ?thesis by (auto simp: b_def)
  qed
  let ?w2 = "w1\<lparr>num_endpoints_mark := Some (position w1 + 4)\<rparr>"
  let ?f = "\<lambda>k. if length d > k then Inl Buffer_overflow else Inr d"
  have alt: "interface_alt n a c s p w = write_with INTERFACE ?f ?w2"
    using w1(1) unfolding interface_alt_def desc_write_def d_def by simp
  have ld: "length d = 7" by (simp add: d_def)
  show ?thesis
  proof (cases "position w + 9 \<le> L")
    case True
    from sim_append [of ?w2 L b d ?f INTERFACE] w1 pos True ld obtain w' where
      "write_with INTERFACE ?f ?w2 = Inr w'" "length (wbuf w') = L" "position w' \<le> L"
      "take (position w') (wbuf w') = b @ encode_desc (INTERFACE, d)"
      "num_interfaces_mark w' = Some 4" "write_iads w' = composite_with_iads cfg"
      "num_endpoints_mark w' = Some (position w + 4)"
      by auto
    then show ?thesis using True pos ld sim_position [OF assms(1)] unfolding alt
      by (auto simp: in_step_def new [symmetric] gs'_def length_config_bytes)
  next
    case False
    then have "write_with INTERFACE ?f ?w2 = Inl Buffer_overflow"
      using w1 ld by (intro write_with_full [where d = d]) auto
    then show ?thesis using False by (simp add: alt new pos ld)
  qed
qed

lemma sim_endpoint:
  assumes "in_step L cfg gs True w" "length extra \<le> 2" and gs'_def: "gs' = add_desc (endpoint_desc ep extra) gs"
  shows "if length (config_bytes cfg 0 gs') \<le> L
    then \<exists>w'. endpoint_ex ep extra w = Inr w' \<and> in_step L cfg gs' True w'
    else endpoint_ex ep extra w = Inl (refusal_of L (layout_size gs) (Call_endpoint ep extra))"
proof -
  obtain i ds rest where gs: "gs = (Some i, ds) # rest"
    using assms(1) by (cases gs; cases "fst (hd gs)") (auto simp: in_step_def)
  define m where "m = 9 + length (encode_descs (layout_descs rest)) + 4"
  define b where "b = (config_bytes cfg 0 gs)[m := config_bytes cfg 0 gs ! m + 1]"
  define d where "d = snd (endpoint_desc ep extra)"
  have e: "endpoint_desc ep extra = (ENDPOINT, d)" by (simp add: d_def endpoint_desc_def)
  have new: "config_bytes cfg 0 gs' = b @ encode_desc (ENDPOINT, d)" and m: "m < length (config_bytes cfg 0 gs)"
    using config_bytes_endpoint [of "(ENDPOINT, d)" m rest cfg 0 i ds] by (simp_all add: gs'_def b_def gs e m_def)
  have pos: "position w = length b" using sim_position [OF assms(1)] by (simp add: b_def)
  have old: "length (wbuf w) = L" "take (position w) (wbuf w) = config_bytes cfg 0 gs" "position w \<le> L"
    "num_interfaces_mark w = Some 4" "write_iads w = composite_with_iads cfg" "num_endpoints_mark w = Some m"
    using assms(1) by (simp_all add: in_step_def gs m_def)
  obtain w1 where w1: "bump m w = Inr w1" "length (wbuf w1) = L" "position w1 = position w" "take (position w1) (wbuf w1) = b"
    "num_interfaces_mark w1 = Some 4" "write_iads w1 = composite_with_iads cfg" "num_endpoints_mark w1 = Some m"
    using sim_bump [OF old(1,2,3) m] old by (auto simp: b_def)
  define f where "f = (\<lambda>n. if n < 5 then Inl Buffer_overflow else if n - 5 < length extra then Inl Panicked else Inr d :: desc_error + u8 list)"
  have ex: "endpoint_ex ep extra w = write_with ENDPOINT f w1"
    using w1(1) old(6) unfolding endpoint_ex_def f_def d_def endpoint_desc_def snd_conv by simp
  have ld: "length d = 5 + length extra" by (simp add: d_def endpoint_desc_def)
  have f: "\<And>n. length d \<le> n \<Longrightarrow> f n = Inr d" by (auto simp: f_def ld)
  show ?thesis
  proof (cases "position w + length d + 2 \<le> L")
    case True
    from sim_append [of w1 L b d f ENDPOINT] w1 pos True ld f assms(2) obtain w' where
      "write_with ENDPOINT f w1 = Inr w'" "length (wbuf w') = L" "position w' \<le> L"
      "take (position w') (wbuf w') = b @ encode_desc (ENDPOINT, d)"
      "num_interfaces_mark w' = Some 4" "write_iads w' = composite_with_iads cfg"
      "num_endpoints_mark w' = Some m"
      by auto
    moreover have "tl gs' = rest" "fst (hd gs') = Some i" "gs' \<noteq> []"
      by (simp_all add: gs'_def gs)
    ultimately show ?thesis using True pos ld unfolding ex
      by (simp add: in_step_def new m_def)
  next
    case False
    have size: "layout_size gs = position w" by (simp add: layout_size_bytes [of gs cfg 0] pos b_def)
    have "write_with ENDPOINT f w1 = Inl (if position w + 7 \<le> L then Panicked else Buffer_overflow)"
      using False w1(2,3) ld assms(2) by (auto simp: write_with_def f_def Let_def)
    then show ?thesis using False by (simp add: ex new pos size)
  qed
qed

fun opens :: "bool \<Rightarrow> call \<Rightarrow> bool" where
  "opens opened (Call_interface _ _ _ _ _) = True"
| "opens opened _ = opened"

lemma calls_ok_Cons: "calls_ok opened (c # cs) \<Longrightarrow> calls_ok (opens opened c) cs"
  by (cases c) auto

lemma sim_step:
  assumes "in_step L cfg gs opened w" "calls_ok opened (c # cs)"
    and "gs' = add_call (composite_with_iads cfg) c gs"
  shows "if length (config_bytes cfg 0 gs') \<le> L
    then \<exists>w'. perform c w = Inr w' \<and> in_step L cfg gs' (opens opened c) w'
    else perform c w = Inl (refusal_of L (layout_size gs) c)"
proof (cases c)
  case (Call_iad f n cl s p)
  show ?thesis
  proof (cases "composite_with_iads cfg")
    case True
    then have "write_iads w" using assms(1) by (simp add: in_step_def)
    moreover have "IAD \<noteq> ENDPOINT" by (simp add: IAD_def ENDPOINT_def)
    ultimately show ?thesis using sim_write [OF assms(1), of IAD "[f, n, cl, s, p, 0]"] True assms(3)
      by (simp add: Call_iad iad_def)
  next
    case False
    then have "\<not> write_iads w" using assms(1) by (simp add: in_step_def)
    moreover have "length (config_bytes cfg 0 gs) \<le> L"
      using assms(1) sim_position [OF assms(1)] by (simp add: in_step_def)
    ultimately show ?thesis using assms(1,3) False by (simp add: Call_iad iad_def)
  qed
next
  case (Call_interface n a cl s p)
  then show ?thesis using sim_interface [OF assms(1), of gs' n a cl s p] assms(3) by (auto split: if_splits)
next
  case (Call_write ty d)
  then show ?thesis using sim_write [OF assms(1), of ty d] assms(2,3) by (auto split: if_splits)
next
  case (Call_endpoint ep extra)
  then show ?thesis using sim_endpoint [of L cfg gs w extra gs' ep] assms by (auto split: if_splits)
qed

text \<open>The layout only grows.\<close>

lemma length_add_call: "gs \<noteq> [] \<Longrightarrow> length (config_bytes cfg t gs) \<le> length (config_bytes cfg t (add_call i c gs))"
proof -
  have "length (encode_descs (layout_descs gs)) \<le> length (encode_descs (layout_descs (add_desc d gs)))" if ne: "gs \<noteq> []" for d
  proof -
    obtain g gs' where "gs = g # gs'" using ne by (cases gs) auto
    then show ?thesis by (cases g; cases "fst g") (auto simp: encode_interface)
  qed
  then show "gs \<noteq> [] \<Longrightarrow> ?thesis" by (cases c) (auto simp: length_config_bytes)
qed

lemma add_call_ne: "gs \<noteq> [] \<Longrightarrow> add_call i c gs \<noteq> []"
  by (cases c) auto

lemma length_add_calls:
  "gs \<noteq> [] \<Longrightarrow> length (config_bytes cfg t gs) \<le> length (config_bytes cfg t (foldl (\<lambda>gs c. add_call i c gs) gs cs))"
proof (induction cs arbitrary: gs)
  case (Cons c cs)
  from Cons.IH [OF add_call_ne [OF Cons.prems], of i c] length_add_call [OF Cons.prems, of cfg t i c]
  show ?case by simp
qed simp

lemma sim_calls:
  assumes "in_step L cfg gs opened w" "calls_ok opened cs"
    and "gs' = foldl (\<lambda>gs c. add_call (composite_with_iads cfg) c gs) gs cs"
  shows "if length (config_bytes cfg 0 gs') \<le> L
    then \<exists>w' o'. perform_all cs w = Inr w' \<and> in_step L cfg gs' o' w'
    else perform_all cs w = Inl (refusal (composite_with_iads cfg) L gs cs)"
  using assms
proof (induction cs arbitrary: gs opened w)
  case Nil
  then have "length (config_bytes cfg 0 gs) \<le> L"
    using sim_position [OF Nil.prems(1)] by (simp add: in_step_def)
  then show ?case using Nil by auto
next
  case (Cons c cs)
  define g1 where "g1 = add_call (composite_with_iads cfg) c gs"
  have gs: "gs \<noteq> []" using Cons.prems(1) by (simp add: in_step_def)
  have le: "length (config_bytes cfg 0 g1) \<le> length (config_bytes cfg 0 gs')"
    unfolding Cons.prems(3) g1_def foldl_Cons by (rule length_add_calls [OF add_call_ne [OF gs]])
  show ?case
  proof (cases "length (config_bytes cfg 0 g1) \<le> L")
    case True
    with sim_step [OF Cons.prems(1,2) g1_def] obtain w1 where
      w1: "perform c w = Inr w1" "in_step L cfg g1 (opens opened c) w1" by auto
    have "gs' = foldl (\<lambda>gs c. add_call (composite_with_iads cfg) c gs) g1 cs"
      using Cons.prems(3) by (simp add: g1_def)
    from Cons.IH [OF w1(2) calls_ok_Cons [OF Cons.prems(2)] this] w1(1) True
    show ?thesis by (auto simp: g1_def layout_size_bytes [of _ cfg 0] split: if_splits)
  next
    case False
    with sim_step [OF Cons.prems(1,2) g1_def] have "perform c w = Inl (refusal_of L (layout_size gs) c)" by simp
    then show ?thesis using False le by (simp add: g1_def layout_size_bytes [of _ cfg 0])
  qed
qed

lemma sim_end_class: "in_step L cfg gs opened w \<Longrightarrow> in_step L cfg gs False (end_class w)"
  by (simp add: in_step_def end_class_def)

lemma refusal_append:
  "gs \<noteq> [] \<Longrightarrow> refusal i L gs (cs @ rest) =
     (if cs = [] \<or> layout_size (foldl (\<lambda>gs c. add_call i c gs) gs cs) \<le> L
      then refusal i L (foldl (\<lambda>gs c. add_call i c gs) gs cs) rest else refusal i L gs cs)"
proof (induction cs arbitrary: gs)
  case (Cons c cs)
  have "layout_size (add_call i c gs) \<le> layout_size (foldl (\<lambda>gs c. add_call i c gs) (add_call i c gs) cs)"
    using length_add_calls [OF add_call_ne [OF Cons.prems], of undefined 0 i c i cs]
    by (simp only: layout_size_bytes [of _ undefined 0])
  then show ?case using Cons.IH [OF add_call_ne [OF Cons.prems], of i c] by (cases "cs = []") auto
qed simp

lemma sim_classes:
  assumes "in_step L cfg gs False w" "list_all (calls_ok False) classes"
    and "gs' = foldl (\<lambda>gs c. add_call (composite_with_iads cfg) c gs) gs (concat classes)"
  shows "if length (config_bytes cfg 0 gs') \<le> L
    then \<exists>w'. write_classes classes w = Inr w' \<and> in_step L cfg gs' False w'
    else write_classes classes w = Inl (refusal (composite_with_iads cfg) L gs (concat classes))"
  using assms
proof (induction classes arbitrary: gs w)
  case Nil
  then have "length (config_bytes cfg 0 gs) \<le> L"
    using sim_position [OF Nil.prems(1)] by (simp add: in_step_def)
  then show ?case using Nil by auto
next
  case (Cons cs classes)
  define g1 where "g1 = foldl (\<lambda>gs c. add_call (composite_with_iads cfg) c gs) gs cs"
  have gs: "gs \<noteq> []" using Cons.prems(1) by (simp add: in_step_def)
  then have "g1 \<noteq> []" unfolding g1_def by (induction cs arbitrary: gs) (auto simp: add_call_ne)
  then have le: "length (config_bytes cfg 0 g1) \<le> length (config_bytes cfg 0 gs')"
    using length_add_calls [of g1 cfg 0 "composite_with_iads cfg" "concat classes"] Cons.prems(3)
    by (simp add: g1_def)
  have ok: "calls_ok False cs" "list_all (calls_ok False) classes" using Cons.prems(2) by simp_all
  show ?case
  proof (cases "length (config_bytes cfg 0 g1) \<le> L")
    case True
    with sim_calls [OF Cons.prems(1) ok(1) g1_def] obtain w1 o1 where
      w1: "perform_all cs w = Inr w1" "in_step L cfg g1 o1 w1" by auto
    have gs': "gs' = foldl (\<lambda>gs c. add_call (composite_with_iads cfg) c gs) g1 (concat classes)"
      using Cons.prems(3) by (simp add: g1_def)
    have "refusal (composite_with_iads cfg) L gs (cs @ concat classes) =
        refusal (composite_with_iads cfg) L g1 (concat classes)"
      using refusal_append [OF gs, of "composite_with_iads cfg" L cs "concat classes"] True
      by (simp add: g1_def [symmetric] layout_size_bytes [of _ cfg 0])
    with Cons.IH [OF sim_end_class [OF w1(2)] ok(2) gs'] w1(1)
    show ?thesis by (auto split: if_splits)
  next
    case False
    then have "cs \<noteq> []" using Cons.prems(1) sim_position [OF Cons.prems(1)] by (auto simp: g1_def in_step_def)
    then have "refusal (composite_with_iads cfg) L gs (cs @ concat classes) = refusal (composite_with_iads cfg) L gs cs"
      using refusal_append [OF gs, of "composite_with_iads cfg" L cs "concat classes"] False
      by (simp add: g1_def [symmetric] layout_size_bytes [of _ cfg 0])
    moreover have "perform_all cs w = Inl (refusal (composite_with_iads cfg) L gs cs)"
      using sim_calls [OF Cons.prems(1) ok(1) g1_def] False by simp
    ultimately show ?thesis using False le by simp
  qed
qed

lemma sim_configuration:
  assumes "9 \<le> length buf"
  shows "\<exists>w. configuration cfg (dwriter_new buf) = Inr w \<and> in_step (length buf) cfg [(None, [])] False w"
proof -
  define d where "d = [0, 0, 0, 1, 0, bm_attributes cfg, max_power cfg]"
  let ?w = "(dwriter_new buf)\<lparr>num_interfaces_mark := Some 4, write_iads := composite_with_iads cfg\<rparr>"
  let ?f = "\<lambda>n. if length d > n then Inl Buffer_overflow else Inr d"
  have ld: "length d = 7" by (simp add: d_def)
  have "configuration cfg (dwriter_new buf) = write_with CONFIGURATION ?f ?w"
    unfolding configuration_def desc_write_def d_def by (simp add: dwriter_new_def)
  moreover obtain w where "write_with CONFIGURATION ?f ?w = Inr w" "length (wbuf w) = length buf" "position w \<le> length buf"
    "take (position w) (wbuf w) = encode_desc (CONFIGURATION, d)"
    "num_interfaces_mark w = Some 4" "write_iads w = composite_with_iads cfg" "num_endpoints_mark w = None"
    using sim_append [of ?w "length buf" "[]" d ?f CONFIGURATION] assms ld by (auto simp: dwriter_new_def)
  moreover have "encode_desc (CONFIGURATION, d) = config_bytes cfg 0 [(None, [])]"
    by (simp add: config_bytes_eq encode_desc_def CONFIGURATION_def d_def u16_le_bytes_def)
  ultimately show ?thesis by (simp add: in_step_def)
qed

lemma sim_end_configuration:
  assumes "in_step L cfg gs opened w"
  shows "\<exists>w'. end_configuration w = Inr w' \<and>
    take (position w') (wbuf w') = config_bytes cfg (length (config_bytes cfg 0 gs)) gs"
proof -
  let ?n = "length (config_bytes cfg 0 gs)"
  have pos: "position w = ?n" by (rule sim_position [OF assms])
  have buf: "wbuf w = config_bytes cfg 0 gs @ drop ?n (wbuf w)"
    using assms pos unfolding in_step_def by (metis append_take_drop_id)
  have L: "?n \<le> length (wbuf w)" using assms pos by (simp add: in_step_def)
  have n: "9 \<le> ?n" by (simp add: length_config_bytes)
  have "take ?n (take 2 (wbuf w) @ u16_le_bytes (of_nat ?n) @ drop 4 (wbuf w)) = config_bytes cfg ?n gs"
    using n by (subst (1 2) buf) (simp add: config_bytes_eq u16_le_bytes_def length_config_bytes)
  then show ?thesis using n L by (simp add: end_configuration_def pos)
qed

lemma configuration_result:
  assumes "list_all (calls_ok False) classes"
    and gs_def: "gs = layout_groups (composite_with_iads cfg) classes"
  shows "get_configuration cfg classes buf =
    (if layout_size gs \<le> length buf then Inr (config_bytes cfg (layout_size gs) gs)
     else Inl (refusal (composite_with_iads cfg) (length buf) [(None, [])] (concat classes)))"
proof (cases "9 \<le> length buf")
  case False
  then have "configuration cfg (dwriter_new buf) = Inl Buffer_overflow"
    unfolding configuration_def desc_write_def
    by (intro write_with_full [where d = "[0, 0, 0, 1, 0, bm_attributes cfg, max_power cfg]"]) (auto simp: dwriter_new_def)
  moreover have "\<not> layout_size g \<le> length buf" for g using False by (simp add: layout_size_def)
  then have "refusal i (length buf) [(None, [])] cs = Buffer_overflow" for i cs
  proof (cases cs)
    case (Cons c cs')
    then show ?thesis using False \<open>\<And>g. \<not> layout_size g \<le> length buf\<close> by (cases c) (simp_all add: layout_size_def)
  qed simp
  ultimately show ?thesis using \<open>\<And>g. \<not> layout_size g \<le> length buf\<close> by (simp add: get_configuration_def)
next
  case True
  from sim_configuration [OF this, of cfg] obtain w where
    w: "configuration cfg (dwriter_new buf) = Inr w" "in_step (length buf) cfg [(None, [])] False w" by blast
  have gs: "gs = foldl (\<lambda>gs c. add_call (composite_with_iads cfg) c gs) [(None, [])] (concat classes)"
    by (simp add: gs_def layout_groups_def)
  have n: "layout_size gs = length (config_bytes cfg 0 gs)" by (rule layout_size_bytes)
  show ?thesis
  proof (cases "layout_size gs \<le> length buf")
    case True
    with sim_classes [OF w(2) assms(1) gs] n obtain w1 where
      w1: "write_classes classes w = Inr w1" "in_step (length buf) cfg gs False w1" by auto
    from sim_end_configuration [OF w1(2)] obtain w2 where
      "end_configuration w1 = Inr w2" "take (position w2) (wbuf w2) = config_bytes cfg (layout_size gs) gs" by (auto simp: n)
    then show ?thesis using True w(1) w1(1) by (simp add: get_configuration_def)
  next
    case False
    with sim_classes [OF w(2) assms(1) gs] n have
      "write_classes classes w = Inl (refusal (composite_with_iads cfg) (length buf) [(None, [])] (concat classes))" by simp
    then show ?thesis using False w(1) by (simp add: get_configuration_def)
  qed
qed

text \<open>C9: what a request for the configuration descriptor gives, in every case. For any classes whose calls
  respect the rules, the writer, patching counts into bytes already written in a buffer of any size,
  answers with exactly the layout when that fits: the total length, the number of interfaces and every
  interface's number of endpoints say what follows, and no truncated descriptor is sent. If it does not fit, the first
  descriptor without room decides: the request is refused with a buffer overflow, unless that is an
  endpoint with trailing bytes and the buffer has room for its five fixed ones; there the classes'
  closures index an area of less than two bytes, and the device panics instead of refusing.\<close>

theorem descriptors_exact:
  assumes "list_all (calls_ok False) classes"
    and gs_def: "gs = layout_groups (composite_with_iads cfg) classes"
    and n_def: "n = 9 + length (encode_descs (layout_descs gs))"
  shows "if n \<le> length buf
    then get_configuration cfg classes buf = Inr (config_bytes cfg n gs) \<and> length (config_bytes cfg n gs) = n
    else get_configuration cfg classes buf =
      Inl (refusal (composite_with_iads cfg) (length buf) [(None, [])] (concat classes))"
  using configuration_result [OF assms(1) gs_def, of buf]
  by (simp add: n_def layout_size_def length_config_bytes)

section \<open>The audio class\<close>

definition CS_INTERFACE :: u8 where "CS_INTERFACE = 0x24"
definition CS_ENDPOINT :: u8 where "CS_ENDPOINT = 0x25"
definition BIT_RESOLUTION :: u8 where "BIT_RESOLUTION = 16"
definition TT_USB_STREAMING :: u16 where "TT_USB_STREAMING = 0x0101"
definition TT_SPEAKER :: u16 where "TT_SPEAKER = 0x0301"
definition TT_MICROPHONE :: u16 where "TT_MICROPHONE = 0x0201"
definition TID_USB_IN :: u8 where "TID_USB_IN = 1"
definition TID_SPEAKER :: u8 where "TID_SPEAKER = 2"
definition TID_MIC :: u8 where "TID_MIC = 3"
definition TID_USB_OUT :: u8 where "TID_USB_OUT = 4"

lemmas desc_consts = CS_INTERFACE_def CS_ENDPOINT_def INTERFACE_def ENDPOINT_def TID_USB_IN_def TID_SPEAKER_def
  TID_MIC_def TID_USB_OUT_def FU_SPEAKER_ID_def FU_MIC_ID_def

definition lo :: "u16 \<Rightarrow> u8" where "lo v = u16_le_bytes v ! 0"
definition hi :: "u16 \<Rightarrow> u8" where "hi v = u16_le_bytes v ! 1"

definition write_format_type :: call where
  "write_format_type =
     (let freq = u32_le_bytes SAMPLE_RATE in
      Call_write CS_INTERFACE
        [0x02, 0x01, CHANNELS, SUBFRAME_BYTES, BIT_RESOLUTION, 0x01, freq ! 0, freq ! 1, freq ! 2])"

text \<open>The endpoints, as \<open>new\<close> allocates them.\<close>

definition uac_ep_out :: "uac \<Rightarrow> endpoint" where
  "uac_ep_out c = \<lparr>ep_address = ep_out c, ep_kind = Isochronous Asynchronous Data_usage, max_packet_size = AUDIO_PACKET_SIZE, interval = 1\<rparr>"

definition uac_ep_fb :: "uac \<Rightarrow> endpoint" where
  "uac_ep_fb c = \<lparr>ep_address = ep_fb c, ep_kind = Isochronous NoSynchronization Feedback, max_packet_size = 3, interval = 1\<rparr>"

definition uac_ep_in :: "uac \<Rightarrow> endpoint" where
  "uac_ep_in c = \<lparr>ep_address = ep_in c, ep_kind = Isochronous Asynchronous Data_usage, max_packet_size = AUDIO_PACKET_SIZE, interval = 1\<rparr>"

text \<open>\<open>UsbAudioClass::get_configuration_descriptors\<close>, by part: the control interface with the
  two paths through their Feature Units, then each streaming interface.\<close>

definition uac_control :: "uac \<Rightarrow> call list" where
  "uac_control c =
     [Call_iad (control_if c) 3 0x01 0x01 0x00,
      Call_interface (control_if c) 0 0x01 0x01 0x00,
      Call_write CS_INTERFACE [0x01, 0x00, 0x01, lo 72, hi 72, 0x02, stream_out_if c, stream_in_if c],
      Call_write CS_INTERFACE [0x02, TID_USB_IN, lo TT_USB_STREAMING, hi TT_USB_STREAMING, 0x00, CHANNELS, 0x03, 0x00, 0x00, 0x00],
      Call_write CS_INTERFACE [0x06, FU_SPEAKER_ID, TID_USB_IN, 0x01, 0x03, 0x00, 0x00, 0x00],
      Call_write CS_INTERFACE [0x03, TID_SPEAKER, lo TT_SPEAKER, hi TT_SPEAKER, 0x00, FU_SPEAKER_ID, 0x00],
      Call_write CS_INTERFACE [0x02, TID_MIC, lo TT_MICROPHONE, hi TT_MICROPHONE, 0x00, CHANNELS, 0x03, 0x00, 0x00, 0x00],
      Call_write CS_INTERFACE [0x06, FU_MIC_ID, TID_MIC, 0x01, 0x03, 0x00, 0x00, 0x00],
      Call_write CS_INTERFACE [0x03, TID_USB_OUT, lo TT_USB_STREAMING, hi TT_USB_STREAMING, 0x00, FU_MIC_ID, 0x00]]"

definition uac_stream_out :: "uac \<Rightarrow> call list" where
  "uac_stream_out c =
     [Call_interface (stream_out_if c) 0 0x01 0x02 0x00,
      Call_interface (stream_out_if c) 1 0x01 0x02 0x00,
      Call_write CS_INTERFACE [0x01, TID_USB_IN, 0x00, 0x01, 0x00],
      write_format_type,
      Call_endpoint (uac_ep_out c) [0, ep_fb c],
      Call_write CS_ENDPOINT [0x01, 0x00, 0x00, 0x00, 0x00],
      Call_endpoint (uac_ep_fb c) [5, 0]]"

definition uac_stream_in :: "uac \<Rightarrow> call list" where
  "uac_stream_in c =
     [Call_interface (stream_in_if c) 0 0x01 0x02 0x00,
      Call_interface (stream_in_if c) 1 0x01 0x02 0x00,
      Call_write CS_INTERFACE [0x01, TID_USB_OUT, 0x00, 0x01, 0x00],
      write_format_type,
      Call_endpoint (uac_ep_in c) [0, 0],
      Call_write CS_ENDPOINT [0x01, 0x00, 0x00, 0x00, 0x00]]"

definition uac_descriptors :: "uac \<Rightarrow> call list" where
  "uac_descriptors c = uac_control c @ uac_stream_out c @ uac_stream_in c"

section \<open>The MIDI class\<close>

record midi_class =
  ac_iface :: u8
  ms_iface :: u8
  midi_ep_out :: u8
  midi_ep_in :: u8

definition BULK_PACKET_SIZE :: u16 where "BULK_PACKET_SIZE = 64"
definition JID_EMB_IN :: u8 where "JID_EMB_IN = 1"
definition JID_EXT_IN :: u8 where "JID_EXT_IN = 2"
definition JID_EMB_OUT :: u8 where "JID_EMB_OUT = 3"
definition JID_EXT_OUT :: u8 where "JID_EXT_OUT = 4"

definition midi_bulk :: "u8 \<Rightarrow> endpoint" where
  "midi_bulk a = \<lparr>ep_address = a, ep_kind = Bulk, max_packet_size = BULK_PACKET_SIZE, interval = 0\<rparr>"

definition midi_class_new :: "u8 \<Rightarrow> u8 \<Rightarrow> u8 \<Rightarrow> u8 \<Rightarrow> midi_class" where
  "midi_class_new ac ms eo ei = \<lparr>ac_iface = ac, ms_iface = ms, midi_ep_out = eo, midi_ep_in = ei\<rparr>"

definition midi_descriptors :: "midi_class \<Rightarrow> call list" where
  "midi_descriptors m =
     [Call_interface (ac_iface m) 0 0x01 0x01 0x00,
      Call_write CS_INTERFACE [0x01, 0x00, 0x01, 0x09, 0x00, 0x01, ms_iface m],
      Call_interface (ms_iface m) 0 0x01 0x03 0x00,
      Call_write CS_INTERFACE [0x01, 0x00, 0x01, lo 37, hi 37],
      Call_write CS_INTERFACE [0x02, 0x01, JID_EMB_IN, 0x00],
      Call_write CS_INTERFACE [0x02, 0x02, JID_EXT_IN, 0x00],
      Call_write CS_INTERFACE [0x03, 0x01, JID_EMB_OUT, 0x01, JID_EXT_IN, 0x01, 0x00],
      Call_write CS_INTERFACE [0x03, 0x02, JID_EXT_OUT, 0x01, JID_EMB_IN, 0x01, 0x00],
      Call_endpoint (midi_bulk (midi_ep_out m)) [0, 0],
      Call_write CS_ENDPOINT [0x01, 0x01, JID_EMB_IN],
      Call_endpoint (midi_bulk (midi_ep_in m)) [0, 0],
      Call_write CS_ENDPOINT [0x01, 0x01, JID_EMB_OUT]]"

section \<open>Sizes\<close>

fun call_size :: "bool \<Rightarrow> call \<Rightarrow> nat" where
  "call_size iads (Call_iad _ _ _ _ _) = (if iads then 8 else 0)"
| "call_size iads (Call_interface _ _ _ _ _) = 9"
| "call_size iads (Call_write _ d) = length d + 2"
| "call_size iads (Call_endpoint _ extra) = length extra + 7"

definition calls_size :: "bool \<Rightarrow> call list \<Rightarrow> nat" where
  "calls_size iads cs = sum_list (map (call_size iads) cs)"

lemma calls_size_simps [simp]:
  "calls_size iads [] = 0"
  "calls_size iads (c # cs) = call_size iads c + calls_size iads cs"
  "calls_size iads (cs @ ds) = calls_size iads cs + calls_size iads ds"
  by (simp_all add: calls_size_def)

lemma length_add_desc:
  "gs \<noteq> [] \<Longrightarrow> length (encode_descs (layout_descs (add_desc d gs))) =
     length (encode_descs (layout_descs gs)) + length (snd d) + 2"
  by (cases gs; cases "hd gs"; cases "fst (hd gs)") (auto simp: encode_interface)

lemma length_layout_call:
  "gs \<noteq> [] \<Longrightarrow> length (encode_descs (layout_descs (add_call iads c gs))) =
     length (encode_descs (layout_descs gs)) + call_size iads c"
  by (cases c) (auto simp: length_add_desc encode_interface endpoint_desc_def)

lemma length_layout_calls:
  "gs \<noteq> [] \<Longrightarrow> length (encode_descs (layout_descs (foldl (\<lambda>gs c. add_call iads c gs) gs cs))) =
     length (encode_descs (layout_descs gs)) + calls_size iads cs"
  by (induction cs arbitrary: gs) (simp_all add: add_call_ne length_layout_call)

lemma length_layout_groups:
  "length (encode_descs (layout_descs (layout_groups iads classes))) = calls_size iads (concat classes)"
  unfolding layout_groups_def by (subst length_layout_calls) simp_all

lemma uac_calls_ok: "calls_ok False (uac_descriptors c)"
  by (simp add: uac_descriptors_def uac_control_def uac_stream_out_def uac_stream_in_def
      write_format_type_def Let_def CS_INTERFACE_def CS_ENDPOINT_def INTERFACE_def ENDPOINT_def)

lemma midi_calls_ok: "calls_ok False (midi_descriptors m)"
  by (simp add: midi_descriptors_def CS_INTERFACE_def CS_ENDPOINT_def INTERFACE_def ENDPOINT_def)

lemma uac_size: "calls_size True (uac_descriptors c) = 202"
  by (simp add: uac_descriptors_def uac_control_def uac_stream_out_def uac_stream_in_def write_format_type_def Let_def)

lemma midi_size: "calls_size True (midi_descriptors m) = 92"
  by (simp add: midi_descriptors_def)

section \<open>Properties of the device's descriptors\<close>

lemma descriptors_exact_witness:
  "get_configuration \<lparr>composite_with_iads = False, self_powered = False, supports_remote_wakeup = False, max_power = 50\<rparr>
     [[Call_interface 0 0 0xff 0 0, Call_endpoint (midi_bulk 1) [], Call_endpoint (midi_bulk 0x81) []]] (replicate 40 0) =
   Inr [9, 2, 32, 0, 1, 1, 0, 0x80, 50, 9, 4, 0, 0, 2, 0xff, 0, 0, 0, 7, 5, 1, 2, 64, 0, 0, 7, 5, 0x81, 2, 64, 0, 0] \<and>
   get_configuration \<lparr>composite_with_iads = False, self_powered = False, supports_remote_wakeup = False, max_power = 50\<rparr>
     [[Call_interface 0 0 0xff 0 0, Call_endpoint (midi_bulk 1) [0, 0]]] (replicate 26 0) = Inl Panicked \<and>
   get_configuration \<lparr>composite_with_iads = False, self_powered = False, supports_remote_wakeup = False, max_power = 50\<rparr>
     [[Call_interface 0 0 0xff 0 0, Call_endpoint (midi_bulk 1) [0, 0]]] (replicate 24 0) = Inl Buffer_overflow"
proof -
  let ?cfg = "\<lparr>composite_with_iads = False, self_powered = False, supports_remote_wakeup = False, max_power = 50\<rparr>"
  let ?cs = "[[Call_interface 0 0 0xff 0 0, Call_endpoint (midi_bulk 1) [], Call_endpoint (midi_bulk 0x81) []]]"
  have gs: "layout_groups (composite_with_iads ?cfg) ?cs =
    [(Some (0, 0, 0xff, 0, 0), [endpoint_desc (midi_bulk 1) [], endpoint_desc (midi_bulk 0x81) []]), (None, [])]"
    by (simp add: layout_groups_def)
  have n: "9 + length (encode_descs (layout_descs (layout_groups (composite_with_iads ?cfg) ?cs))) = 32"
    unfolding gs by (simp add: encode_interface endpoint_desc_def)
  have "list_all (calls_ok False) ?cs" by simp
  from descriptors_exact [OF this refl refl, of ?cfg "replicate 40 0"]
  have "get_configuration ?cfg ?cs (replicate 40 0) = Inr (config_bytes ?cfg 32 (layout_groups (composite_with_iads ?cfg) ?cs))"
    unfolding n by simp
  also have "config_bytes ?cfg 32 (layout_groups (composite_with_iads ?cfg) ?cs) =
    [9, 2, 32, 0, 1, 1, 0, 0x80, 50, 9, 4, 0, 0, 2, 0xff, 0, 0, 0, 7, 5, 1, 2, 64, 0, 0, 7, 5, 0x81, 2, 64, 0, 0]"
    unfolding gs by (simp add: config_bytes_eq encode_interface endpoint_desc_def endpoints_in_def encode_desc_def
        midi_bulk_def BULK_PACKET_SIZE_def ENDPOINT_def INTERFACE_def bm_attributes_def u16_le_bytes_def)
  finally have fits: "get_configuration ?cfg ?cs (replicate 40 0) =
    Inr [9, 2, 32, 0, 1, 1, 0, 0x80, 50, 9, 4, 0, 0, 2, 0xff, 0, 0, 0, 7, 5, 1, 2, 64, 0, 0, 7, 5, 0x81, 2, 64, 0, 0]" .
  let ?ds = "[[Call_interface 0 0 0xff 0 0, Call_endpoint (midi_bulk 1) [0, 0]]]"
  have gs2: "layout_groups (composite_with_iads ?cfg) ?ds =
    [(Some (0, 0, 0xff, 0, 0), [endpoint_desc (midi_bulk 1) [0, 0]]), (None, [])]"
    by (simp add: layout_groups_def)
  have n2: "9 + length (encode_descs (layout_descs (layout_groups (composite_with_iads ?cfg) ?ds))) = 27"
    unfolding gs2 by (simp add: encode_interface endpoint_desc_def)
  have ok2: "list_all (calls_ok False) ?ds" by simp
  have r: "refusal False 26 [(None, [])] (concat ?ds) = Panicked" "refusal False 24 [(None, [])] (concat ?ds) = Buffer_overflow"
    by (simp_all add: layout_size_def encode_interface endpoint_desc_def)
  have "get_configuration ?cfg ?ds (replicate 26 0) = Inl Panicked"
    using descriptors_exact [OF ok2 refl refl, of ?cfg "replicate 26 0"] r(1) unfolding n2 by simp
  moreover have "get_configuration ?cfg ?ds (replicate 24 0) = Inl Buffer_overflow"
    using descriptors_exact [OF ok2 refl refl, of ?cfg "replicate 24 0"] r(2) unfolding n2 by simp
  ultimately show ?thesis using fits by blast
qed

text \<open>The composite device enumerates. Beside any serial class of the outside crate, whose
  calls respect the rules and take \<open>s\<close> bytes, the configuration descriptor of audio and MIDI is
  \<open>303 + s\<close> bytes: it is served whole from the 512-byte control buffer of the patched stack
  exactly when \<open>s \<le> 209\<close>, and never from the 256-byte one (or any below 303 bytes), for which
  the request fails.\<close>

theorem composite_fits:
  assumes "calls_ok False serial" and "composite_with_iads cfg"
    and "s = calls_size True serial"
  shows "(length buf = 512 \<longrightarrow>
      (s \<le> 209 \<longleftrightarrow> (\<exists>bs. get_configuration cfg [serial, uac_descriptors c, midi_descriptors m] buf = Inr bs \<and> length bs = 303 + s))) \<and>
    (length buf < 303 \<longrightarrow> (\<exists>e. get_configuration cfg [serial, uac_descriptors c, midi_descriptors m] buf = Inl e))"
proof -
  let ?cs = "[serial, uac_descriptors c, midi_descriptors m]"
  have ok: "list_all (calls_ok False) ?cs" using assms(1) uac_calls_ok midi_calls_ok by simp
  have n: "303 + s = 9 + length (encode_descs (layout_descs (layout_groups (composite_with_iads cfg) ?cs)))"
    using assms(2,3) by (simp add: length_layout_groups uac_size midi_size)
  from configuration_result [OF ok refl, of cfg buf] show ?thesis
    unfolding layout_size_def n [symmetric]
    by (auto simp: length_config_bytes n [symmetric])
qed

lemma composite_fits_witness:
  "(\<exists>bs. get_configuration \<lparr>composite_with_iads = True, self_powered = False, supports_remote_wakeup = False, max_power = 50\<rparr>
     [[], uac_descriptors (uac_new 2 3 4 1 0x82 0x83), midi_descriptors (midi_class_new 5 6 4 0x84)] (replicate 512 0) = Inr bs \<and>
     length bs = 303) \<and>
   (\<exists>e. get_configuration \<lparr>composite_with_iads = True, self_powered = False, supports_remote_wakeup = False, max_power = 50\<rparr>
     [[], uac_descriptors (uac_new 2 3 4 1 0x82 0x83), midi_descriptors (midi_class_new 5 6 4 0x84)] (replicate 256 0) = Inl e)"
  using composite_fits [of "[]" "\<lparr>composite_with_iads = True, self_powered = False, supports_remote_wakeup = False, max_power = 50\<rparr>" 0
      "replicate 512 0" "uac_new 2 3 4 1 0x82 0x83" "midi_class_new 5 6 4 0x84"]
    composite_fits [of "[]" "\<lparr>composite_with_iads = True, self_powered = False, supports_remote_wakeup = False, max_power = 50\<rparr>" 0
      "replicate 256 0" "uac_new 2 3 4 1 0x82 0x83" "midi_class_new 5 6 4 0x84"]
  by simp

text \<open>A unit or terminal of the control interface: its identifier and what it is fed from.\<close>

fun unit_of :: "call \<Rightarrow> (u8 \<times> u8 option) option" where
  "unit_of (Call_write ty d) =
     (if ty \<noteq> CS_INTERFACE then None
      else if d ! 0 = 0x02 then Some (d ! 1, None)
      else if d ! 0 = 0x03 then Some (d ! 1, Some (d ! 5))
      else if d ! 0 = 0x06 then Some (d ! 1, Some (d ! 2))
      else None)"
| "unit_of _ = None"

definition audio_units :: "uac \<Rightarrow> (u8 \<times> u8 option) list" where
  "audio_units c = List.map_filter unit_of (uac_control c)"

text \<open>Following the feeds back from a unit.\<close>

fun fed_by :: "(u8 \<times> u8 option) list \<Rightarrow> nat \<Rightarrow> u8 \<Rightarrow> u8 option" where
  "fed_by us 0 i = None"
| "fed_by us (Suc k) i =
     (case map_of us i of
        None \<Rightarrow> None
      | Some None \<Rightarrow> Some i
      | Some (Some j) \<Rightarrow> fed_by us k j)"

text \<open>The declared total length of a class-specific header, and the actual one: the header and
  the class-specific writes after it.\<close>

fun declared_total :: "call \<Rightarrow> nat" where
  "declared_total (Call_write ty d) = unat (u16_from_le (d ! 3) (d ! 4))"
| "declared_total _ = 0"

fun is_cs_write :: "call \<Rightarrow> bool" where
  "is_cs_write (Call_write ty d) = (ty = CS_INTERFACE)"
| "is_cs_write _ = False"

definition cs_total :: "call list \<Rightarrow> nat" where
  "cs_total cs = calls_size True (takeWhile is_cs_write cs)"

text \<open>C34: the audio and MIDI functions are consistently described. Identifiers are distinct;
  the speaker is fed from the host's stream and the host's capture stream from the microphone,
  each through one of the two Feature Units whose requests the class answers; the stream
  interfaces name those terminals; the playback endpoint names the feedback endpoint; and every
  class-specific header declares the total length of what it heads.\<close>

theorem audio_topology:
  "distinct (map fst (audio_units c)) \<and>
   list_all (\<lambda>u. snd u = None \<or> the (snd u) \<in> fst ` set (audio_units c)) (audio_units c) \<and>
   (TID_SPEAKER, Some FU_SPEAKER_ID) \<in> set (audio_units c) \<and> fed_by (audio_units c) 3 TID_SPEAKER = Some TID_USB_IN \<and>
   (TID_USB_OUT, Some FU_MIC_ID) \<in> set (audio_units c) \<and> fed_by (audio_units c) 3 TID_USB_OUT = Some TID_MIC \<and>
   Call_write CS_INTERFACE [0x01, TID_USB_IN, 0x00, 0x01, 0x00] \<in> set (uac_stream_out c) \<and>
   Call_write CS_INTERFACE [0x01, TID_USB_OUT, 0x00, 0x01, 0x00] \<in> set (uac_stream_in c) \<and>
   Call_endpoint (uac_ep_out c) [0, ep_address (uac_ep_fb c)] \<in> set (uac_stream_out c) \<and>
   declared_total (uac_control c ! 2) = cs_total (drop 2 (uac_control c)) \<and>
   declared_total (midi_descriptors m ! 1) = cs_total (drop 1 (midi_descriptors m)) \<and>
   declared_total (midi_descriptors m ! 3) = cs_total (drop 3 (midi_descriptors m))"
proof -
  have units: "audio_units c = [(1, None), (5, Some 1), (2, Some 5), (3, None), (6, Some 3), (4, Some 6)]"
    by (simp add: audio_units_def uac_control_def List.map_filter_def desc_consts)
  have tot: "u16_from_le (lo v) (hi v) = v" for v
    using u16_le_roundtrip [of v] by (simp add: lo_def hi_def)
  have a: "distinct (map fst (audio_units c))"
    "list_all (\<lambda>u. snd u = None \<or> the (snd u) \<in> fst ` set (audio_units c)) (audio_units c)"
    "(TID_SPEAKER, Some FU_SPEAKER_ID) \<in> set (audio_units c)" "(TID_USB_OUT, Some FU_MIC_ID) \<in> set (audio_units c)"
    unfolding units by (simp_all add: desc_consts)
  have f: "fed_by (audio_units c) 3 TID_SPEAKER = Some TID_USB_IN" "fed_by (audio_units c) 3 TID_USB_OUT = Some TID_MIC"
    unfolding units by (simp_all add: desc_consts numeral_3_eq_3)
  have d: "uac_control c ! 2 = Call_write CS_INTERFACE [0x01, 0x00, 0x01, lo 72, hi 72, 0x02, stream_out_if c, stream_in_if c]"
    "midi_descriptors m ! 1 = Call_write CS_INTERFACE [0x01, 0x00, 0x01, 0x09, 0x00, 0x01, ms_iface m]"
    "midi_descriptors m ! 3 = Call_write CS_INTERFACE [0x01, 0x00, 0x01, lo 37, hi 37]"
    by (simp_all add: uac_control_def midi_descriptors_def)
  have t: "declared_total (uac_control c ! 2) = 72" "declared_total (midi_descriptors m ! 1) = 9"
    "declared_total (midi_descriptors m ! 3) = 37"
    unfolding d by (simp_all add: tot) (simp add: u16_from_le_def)
  have c: "cs_total (drop 2 (uac_control c)) = 72" "cs_total (drop 1 (midi_descriptors m)) = 9"
    "cs_total (drop 3 (midi_descriptors m)) = 37"
    by (simp_all add: cs_total_def uac_control_def midi_descriptors_def CS_INTERFACE_def CS_ENDPOINT_def)
  show ?thesis
    using a f unfolding t c by (simp add: uac_stream_out_def uac_stream_in_def uac_ep_fb_def)
qed

end
