(* ===== verification/Controls.thy ===== *)
theory Controls
  imports Prelude
begin

text \<open>
  The front-panel controls of \<open>crates/daisy-bsp\<close> (\<open>src/hothouse.rs\<close>, \<open>src/pod.rs\<close>): the
  eight-sample debouncer, the three-way toggles and footswitches over eight of them, the Pod's
  buttons, its quadrature encoder and the LEDs. A pin is the level sampled at each call of an
  \<open>update\<close>; binding pins to ports is the HAL's. \<open>pod.rs\<close> repeats the debouncer of
  \<open>hothouse.rs\<close> word for word; the definitions here serve both.
\<close>

section \<open>Debouncer\<close>

record debouncer =
  db_state :: u8

definition debouncer_new :: debouncer where
  "debouncer_new = \<lparr>db_state = 0\<rparr>"

definition deb_update :: "debouncer \<Rightarrow> bool \<Rightarrow> debouncer" where
  "deb_update d engaged = d\<lparr>db_state := push_bit 1 (db_state d) OR of_bool engaged\<rparr>"

definition pressed :: "debouncer \<Rightarrow> bool" where
  "pressed d \<longleftrightarrow> db_state d = 0xff"

definition rising_edge :: "debouncer \<Rightarrow> bool" where
  "rising_edge d \<longleftrightarrow> db_state d = 0x7f"

definition falling_edge :: "debouncer \<Rightarrow> bool" where
  "falling_edge d \<longleftrightarrow> db_state d = 0x80"

section \<open>Hothouse switches and LEDs\<close>

datatype toggle_position = Toggle_Up | Toggle_Middle | Toggle_Down

definition decode_toggle :: "bool \<Rightarrow> bool \<Rightarrow> toggle_position" where
  "decode_toggle up_pressed down_pressed =
     (if up_pressed then Toggle_Up else if down_pressed then Toggle_Down else Toggle_Middle)"

datatype toggle = Toggle_One | Toggle_Two | Toggle_Three
datatype footswitch = Foot_One | Foot_Two
datatype led_id = Led_One | Led_Two

definition FSW1 :: nat where "FSW1 = 6"
definition FSW2 :: nat where "FSW2 = 7"

text \<open>\<open>Switches\<close>: the pins are sampled, not stored. \<open>lows\<close> is \<open>is_low()\<close> of each pin.\<close>

record switches =
  sw_debouncers :: "debouncer list"

definition switches_new :: switches where
  "switches_new = \<lparr>sw_debouncers = replicate 8 debouncer_new\<rparr>"

fun sample_all :: "debouncer list \<Rightarrow> bool list \<Rightarrow> debouncer list" where
  "sample_all (d # ds) (l # ls) = deb_update d l # sample_all ds ls"
| "sample_all ds ls = ds"

definition switches_update :: "bool list \<Rightarrow> switches \<Rightarrow> switches" where
  "switches_update lows s = s\<lparr>sw_debouncers := sample_all (sw_debouncers s) lows\<rparr>"

definition toggle_at :: "switches \<Rightarrow> toggle \<Rightarrow> toggle_position option" where
  "toggle_at s t =
     (case (case t of Toggle_One \<Rightarrow> (0, 1) | Toggle_Two \<Rightarrow> (2, 3) | Toggle_Three \<Rightarrow> (4, 5)) of (up, down) \<Rightarrow> do {
        u \<leftarrow> idx_get (sw_debouncers s) up;
        d \<leftarrow> idx_get (sw_debouncers s) down;
        Some (decode_toggle (pressed u) (pressed d))
      })"

definition fsw_index :: "footswitch \<Rightarrow> nat" where
  "fsw_index f = (case f of Foot_One \<Rightarrow> FSW1 | Foot_Two \<Rightarrow> FSW2)"

definition footswitch_pressed :: "switches \<Rightarrow> footswitch \<Rightarrow> bool option" where
  "footswitch_pressed s f = map_option pressed (idx_get (sw_debouncers s) (fsw_index f))"

definition footswitch_rising :: "switches \<Rightarrow> footswitch \<Rightarrow> bool option" where
  "footswitch_rising s f = map_option rising_edge (idx_get (sw_debouncers s) (fsw_index f))"

definition footswitch_falling :: "switches \<Rightarrow> footswitch \<Rightarrow> bool option" where
  "footswitch_falling s f = map_option falling_edge (idx_get (sw_debouncers s) (fsw_index f))"

definition dfu_gesture :: "switches \<Rightarrow> bool option" where
  "dfu_gesture s = do {
     a \<leftarrow> footswitch_pressed s Foot_One;
     if a then footswitch_pressed s Foot_Two else Some False
   }"

text \<open>The levels of the LED pins.\<close>

record leds =
  led1 :: bool
  led2 :: bool

definition leds_set :: "led_id \<Rightarrow> bool \<Rightarrow> leds \<Rightarrow> leds" where
  "leds_set led on l = (case led of Led_One \<Rightarrow> l\<lparr>led1 := on\<rparr> | Led_Two \<Rightarrow> l\<lparr>led2 := on\<rparr>)"

section \<open>Pod buttons, encoder and LEDs\<close>

record encoder_decoder =
  enc_a :: u8
  enc_b :: u8
  enc_inc :: "32 word"

definition decoder_new :: encoder_decoder where
  "decoder_new = \<lparr>enc_a = 0xff, enc_b = 0xff, enc_inc = 0\<rparr>"

definition decoder_update :: "encoder_decoder \<Rightarrow> bool \<Rightarrow> bool \<Rightarrow> 32 word \<times> encoder_decoder" where
  "decoder_update e a_high b_high =
     (let a = push_bit 1 (enc_a e) OR of_bool a_high;
          b = push_bit 1 (enc_b e) OR of_bool b_high;
          inc = (if a AND 0x03 = 0x02 \<and> b AND 0x03 = 0x00 then 1
                 else if b AND 0x03 = 0x02 \<and> a AND 0x03 = 0x00 then - 1 else 0)
      in (inc, \<lparr>enc_a = a, enc_b = b, enc_inc = inc\<rparr>))"

datatype button = Button_One | Button_Two

record buttons =
  bt_debouncers :: "debouncer list"

definition buttons_new :: buttons where
  "buttons_new = \<lparr>bt_debouncers = replicate 2 debouncer_new\<rparr>"

definition buttons_update :: "bool list \<Rightarrow> buttons \<Rightarrow> buttons" where
  "buttons_update lows s = s\<lparr>bt_debouncers := sample_all (bt_debouncers s) lows\<rparr>"

definition button_index :: "button \<Rightarrow> nat" where
  "button_index b = (case b of Button_One \<Rightarrow> 0 | Button_Two \<Rightarrow> 1)"

definition button_pressed :: "buttons \<Rightarrow> button \<Rightarrow> bool option" where
  "button_pressed s b = map_option pressed (idx_get (bt_debouncers s) (button_index b))"

definition button_rising :: "buttons \<Rightarrow> button \<Rightarrow> bool option" where
  "button_rising s b = map_option rising_edge (idx_get (bt_debouncers s) (button_index b))"

definition button_falling :: "buttons \<Rightarrow> button \<Rightarrow> bool option" where
  "button_falling s b = map_option falling_edge (idx_get (bt_debouncers s) (button_index b))"

record encoder =
  en_decoder :: encoder_decoder
  en_click :: debouncer

definition encoder_new :: encoder where
  "encoder_new = \<lparr>en_decoder = decoder_new, en_click = debouncer_new\<rparr>"

definition encoder_update :: "bool \<Rightarrow> bool \<Rightarrow> bool \<Rightarrow> encoder \<Rightarrow> 32 word \<times> encoder" where
  "encoder_update click_low a_high b_high e =
     (let click = deb_update (en_click e) click_low;
          (inc, d) = decoder_update (en_decoder e) a_high b_high
      in (inc, \<lparr>en_decoder = d, en_click = click\<rparr>))"

text \<open>The pin levels (high or low) of the two RGB LEDs.\<close>

record rgb_leds =
  rgb1 :: "bool list"
  rgb2 :: "bool list"

definition rgb_pins :: "bool \<Rightarrow> bool \<Rightarrow> bool \<Rightarrow> bool list" where
  "rgb_pins r g b = map (\<lambda>on. if on then False else True) [r, g, b]"

definition rgb_set :: "led_id \<Rightarrow> bool \<Rightarrow> bool \<Rightarrow> bool \<Rightarrow> rgb_leds \<Rightarrow> rgb_leds" where
  "rgb_set led r g b l =
     (case led of Led_One \<Rightarrow> l\<lparr>rgb1 := rgb_pins r g b\<rparr> | Led_Two \<Rightarrow> l\<lparr>rgb2 := rgb_pins r g b\<rparr>)"

definition rgb_new :: "rgb_leds \<Rightarrow> rgb_leds" where
  "rgb_new l = rgb_set Led_Two False False False (rgb_set Led_One False False False l)"

section \<open>The debouncer's register is the latest eight samples\<close>

definition deb_run :: "bool list \<Rightarrow> debouncer" where
  "deb_run bs = foldl deb_update debouncer_new bs"

lemma deb_run_snoc [simp]: "deb_run (bs @ [b]) = deb_update (deb_run bs) b"
  by (simp add: deb_run_def)

lemma bit_shift_in: "bit (push_bit 1 w OR of_bool b :: u8) n \<longleftrightarrow> (if n = 0 then b else n < 8 \<and> bit w (n - 1))"
  unfolding bit_or_iff bit_push_bit_iff by (auto simp: bit_simps)

lemma bit_deb_update: "bit (db_state (deb_update d b)) n \<longleftrightarrow> (if n = 0 then b else n < 8 \<and> bit (db_state d) (n - 1))"
  by (cases d) (simp only: deb_update_def debouncer.simps bit_shift_in)

lemma bit_deb_run: "n < 8 \<Longrightarrow> bit (db_state (deb_run bs)) n \<longleftrightarrow> n < length bs \<and> rev bs ! n"
proof (induction bs arbitrary: n rule: rev_induct)
  case Nil
  then show ?case by (simp add: deb_run_def debouncer_new_def)
next
  case (snoc b bs)
  then show ?case by (cases n) (auto simp: bit_deb_update)
qed

lemma u8_eq_bits: "(w :: u8) = v \<longleftrightarrow> (\<forall>n<8. bit w n = bit v n)"
  by (auto intro: bit_word_eqI)

lemma less8: "(\<forall>n<8. P n) \<longleftrightarrow> P 0 \<and> P 1 \<and> P 2 \<and> P 3 \<and> P 4 \<and> P 5 \<and> P 6 \<and> P (7 :: nat)"
  by (simp add: All_less_Suc numeral_eq_Suc conj_ac)

lemma less7: "(\<forall>n<7. P n) \<longleftrightarrow> P 0 \<and> P 1 \<and> P 2 \<and> P 3 \<and> P 4 \<and> P 5 \<and> P (6 :: nat)"
  by (simp add: All_less_Suc numeral_eq_Suc conj_ac)

lemma bits_edges:
  "\<forall>n<8. bit (0xff :: u8) n" "\<forall>n<8. bit (0x7f :: u8) n = (n < 7)" "\<forall>n<8. bit (0x80 :: u8) n = (n = 7)"
  unfolding less8 by (simp_all add: bit_numeral_rec)

lemma take_eq_replicate: "take n xs = replicate n x \<longleftrightarrow> (\<forall>i<n. i < length xs \<and> xs ! i = x)"
proof
  assume h: "take n xs = replicate n x"
  then have "length (take n xs) = n" by (simp only: length_replicate)
  then have "n \<le> length xs" by (simp add: min_def split: if_splits)
  with h show "\<forall>i<n. i < length xs \<and> xs ! i = x"
    by (metis nth_replicate nth_take less_le_trans)
next
  assume h: "\<forall>i<n. i < length xs \<and> xs ! i = x"
  then have "n \<le> length xs" by (cases n) auto
  with h show "take n xs = replicate n x" by (intro nth_equalityI) auto
qed

lemma less8_7: "(\<forall>n<8. P n) \<longleftrightarrow> (\<forall>n<7. P n) \<and> P (7 :: nat)"
  unfolding less8 less7 by simp

lemma edge_bits:
  "db_state d = 0xff \<longleftrightarrow> (\<forall>n<8. bit (db_state d) n)"
  "db_state d = 0x7f \<longleftrightarrow> (\<forall>n<7. bit (db_state d) n) \<and> \<not> bit (db_state d) 7"
  "db_state d = 0x80 \<longleftrightarrow> (\<forall>n<7. \<not> bit (db_state d) n) \<and> bit (db_state d) 7"
  unfolding u8_eq_bits less8_7 using bits_edges by (auto simp: less8_7)

lemma pressed_run: "pressed (deb_run bs) \<longleftrightarrow> take 8 (rev bs) = replicate 8 True"
  unfolding pressed_def edge_bits take_eq_replicate by (simp add: bit_deb_run)

lemma rising_run:
  "rising_edge (deb_run bs) \<longleftrightarrow> take 7 (rev bs) = replicate 7 True \<and> \<not> (8 \<le> length bs \<and> rev bs ! 7)"
  unfolding rising_edge_def edge_bits take_eq_replicate by (auto simp: bit_deb_run)

lemma falling_run:
  "falling_edge (deb_run bs) \<longleftrightarrow> take 7 (rev bs) = replicate 7 False \<and> 8 \<le> length bs \<and> rev bs ! 7"
proof -
  have "(\<forall>n<7. \<not> (n < length bs \<and> rev bs ! n)) \<longleftrightarrow> (\<forall>n<7. n < length bs \<and> \<not> rev bs ! n)" if "7 < length bs"
    using that by auto
  then show ?thesis
    unfolding falling_edge_def edge_bits take_eq_replicate by (auto simp: bit_deb_run)
qed

section \<open>The switches read as their histories\<close>

definition switches_run :: "bool list list \<Rightarrow> switches" where
  "switches_run hs = foldl (\<lambda>s lows. switches_update lows s) switches_new hs"

text \<open>Pin \<open>i\<close> was low at each of the latest eight samples.\<close>

definition held :: "bool list list \<Rightarrow> nat \<Rightarrow> bool" where
  "held hs i \<longleftrightarrow> take 8 (rev (map (\<lambda>l. l ! i) hs)) = replicate 8 True"

lemma sample_all_map2: "length ds = length ls \<Longrightarrow> sample_all ds ls = map2 deb_update ds ls"
  by (induction ds ls rule: sample_all.induct) auto

lemma switches_run_debouncers:
  "list_all (\<lambda>l. length l = 8) hs \<Longrightarrow>
     sw_debouncers (switches_run hs) = map (\<lambda>i. deb_run (map (\<lambda>l. l ! i) hs)) [0..<8]"
proof (induction hs rule: rev_induct)
  case Nil
  then show ?case by (simp add: switches_run_def switches_new_def deb_run_def map_replicate_const)
next
  case (snoc l hs)
  have "sw_debouncers (switches_run (hs @ [l])) = sample_all (sw_debouncers (switches_run hs)) l"
    by (simp add: switches_run_def switches_update_def)
  also have "\<dots> = map2 deb_update (map (\<lambda>i. deb_run (map (\<lambda>l. l ! i) hs)) [0..<8]) l"
    using snoc by (simp add: sample_all_map2)
  also have "\<dots> = map (\<lambda>i. deb_run (map (\<lambda>l. l ! i) (hs @ [l]))) [0..<8]"
    using snoc.prems by (intro nth_equalityI) auto
  finally show ?case .
qed

lemma switches_run_get:
  "list_all (\<lambda>l. length l = 8) hs \<Longrightarrow> i < 8 \<Longrightarrow>
     idx_get (sw_debouncers (switches_run hs)) i = Some (deb_run (map (\<lambda>l. l ! i) hs))"
  by (simp add: switches_run_debouncers)

lemma held_pressed: "held hs i \<longleftrightarrow> pressed (deb_run (map (\<lambda>l. l ! i) hs))"
  by (simp add: held_def pressed_run)

lemma dfu_gesture_run:
  "list_all (\<lambda>l. length l = 8) hs \<Longrightarrow> dfu_gesture (switches_run hs) = Some (held hs 6 \<and> held hs 7)"
  by (simp add: dfu_gesture_def footswitch_pressed_def fsw_index_def FSW1_def FSW2_def switches_run_get held_pressed)

lemma pressed_snoc:
  "pressed (deb_run (bs @ [b])) \<and> \<not> pressed (deb_run bs) \<longleftrightarrow> rising_edge (deb_run bs) \<and> b"
proof -
  have "take 8 (b # rev bs) = replicate 8 True \<longleftrightarrow> b \<and> take 7 (rev bs) = replicate 7 True"
    by (simp add: take_Cons' replicate_Suc eval_nat_numeral)
  moreover have "take 8 (rev bs) = replicate 8 True \<longleftrightarrow>
      take 7 (rev bs) = replicate 7 True \<and> 8 \<le> length bs \<and> rev bs ! 7"
    unfolding take_eq_replicate less8_7 by auto
  ultimately show ?thesis unfolding pressed_run rising_run by auto
qed

text \<open>C37: the Hothouse switches. After any samples of the eight pins, a toggle reads up or down
  when that contact was closed at each of the latest eight samples (up before down) and middle
  otherwise, a footswitch is pressed when it was, the DFU gesture is both footswitches, and
  nothing panics. A footswitch becomes pressed at a sample exactly when its rising edge was
  reported one sample before and the contact is closed now: the edge comes one sample before
  the press it announces, and one open sample takes the press back.\<close>

theorem switches_exact:
  assumes "list_all (\<lambda>l. length l = 8) hs" and "length l = 8"
  shows "toggle_at (switches_run hs) t = Some (case t of
      Toggle_One \<Rightarrow> if held hs 0 then Toggle_Up else if held hs 1 then Toggle_Down else Toggle_Middle
    | Toggle_Two \<Rightarrow> if held hs 2 then Toggle_Up else if held hs 3 then Toggle_Down else Toggle_Middle
    | Toggle_Three \<Rightarrow> if held hs 4 then Toggle_Up else if held hs 5 then Toggle_Down else Toggle_Middle) \<and>
    footswitch_pressed (switches_run hs) f = Some (held hs (case f of Foot_One \<Rightarrow> 6 | Foot_Two \<Rightarrow> 7)) \<and>
    dfu_gesture (switches_run hs) = Some (held hs 6 \<and> held hs 7) \<and>
    (footswitch_pressed (switches_run (hs @ [l])) f = Some True \<and> footswitch_pressed (switches_run hs) f = Some False \<longleftrightarrow>
      footswitch_rising (switches_run hs) f = Some True \<and> l ! (case f of Foot_One \<Rightarrow> 6 | Foot_Two \<Rightarrow> 7))"
proof (intro conjI)
  let ?i = "case f of Foot_One \<Rightarrow> 6 | Foot_Two \<Rightarrow> (7 :: nat)"
  have i: "?i < 8" "fsw_index f = ?i" by (auto simp: fsw_index_def FSW1_def FSW2_def split: footswitch.split)
  have hl: "list_all (\<lambda>l. length l = 8) (hs @ [l])" using assms by simp
  show "toggle_at (switches_run hs) t = Some (case t of
      Toggle_One \<Rightarrow> if held hs 0 then Toggle_Up else if held hs 1 then Toggle_Down else Toggle_Middle
    | Toggle_Two \<Rightarrow> if held hs 2 then Toggle_Up else if held hs 3 then Toggle_Down else Toggle_Middle
    | Toggle_Three \<Rightarrow> if held hs 4 then Toggle_Up else if held hs 5 then Toggle_Down else Toggle_Middle)"
    using assms(1) by (cases t) (simp_all add: toggle_at_def switches_run_get decode_toggle_def held_pressed)
  show "footswitch_pressed (switches_run hs) f = Some (held hs ?i)"
    unfolding footswitch_pressed_def i(2) by (simp add: switches_run_get [OF assms(1) i(1)] held_pressed)
  show "dfu_gesture (switches_run hs) = Some (held hs 6 \<and> held hs 7)"
    by (rule dfu_gesture_run [OF assms(1)])
  show "(footswitch_pressed (switches_run (hs @ [l])) f = Some True \<and> footswitch_pressed (switches_run hs) f = Some False) =
      (footswitch_rising (switches_run hs) f = Some True \<and> l ! ?i)"
    unfolding footswitch_pressed_def footswitch_rising_def i(2) switches_run_get [OF assms(1) i(1)]
      switches_run_get [OF hl i(1)]
    using pressed_snoc [of "map (\<lambda>l. l ! ?i) hs" "l ! ?i"] by simp
qed

text \<open>Footswitch 1 held for seven samples: announced, not pressed.\<close>

lemma switches_exact_witness:
  "footswitch_pressed (switches_run (replicate 7 [False, False, False, False, False, False, True, False])) Foot_One = Some False \<and>
   footswitch_rising (switches_run (replicate 7 [False, False, False, False, False, False, True, False])) Foot_One = Some True"
proof -
  let ?l = "[False, False, False, False, False, False, True, False]"
  obtain hs where hs: "hs = replicate 7 ?l" by blast
  have ok: "list_all (\<lambda>l. length l = 8) hs" "length ?l = 8" "list_all (\<lambda>l. length l = 8) (hs @ [?l])"
    by (simp_all add: hs list_all_iff)
  have "\<not> held hs 6" "held (hs @ [?l]) 6" by (simp_all add: held_def hs eval_nat_numeral)
  then have "footswitch_pressed (switches_run hs) Foot_One = Some False"
    "footswitch_pressed (switches_run (hs @ [?l])) Foot_One = Some True"
    using switches_exact [OF ok(1,2), where f = Foot_One] switches_exact [OF ok(3,2), where f = Foot_One] by simp_all
  moreover from this have "footswitch_rising (switches_run hs) Foot_One = Some True"
    using switches_exact [OF ok(1,2), where f = Foot_One] by blast
  ultimately show ?thesis unfolding hs by blast
qed

section \<open>The encoder counts turns\<close>

text \<open>The levels of the two phases at shaft position \<open>p\<close>, four positions to a detent; the
  increments over a sequence of positions; and the increments expected of the steps.\<close>

definition phase_levels :: "int \<Rightarrow> bool \<times> bool" where
  "phase_levels p = (p mod 4 \<in> {0, 1}, p mod 4 \<in> {0, 3})"

fun turn :: "encoder_decoder \<Rightarrow> (bool \<times> bool) list \<Rightarrow> int" where
  "turn e [] = 0"
| "turn e ((a, b) # ls) = sint (fst (decoder_update e a b)) + turn (snd (decoder_update e a b)) ls"

definition step_count :: "int \<Rightarrow> int \<Rightarrow> int" where
  "step_count p q = (if p mod 4 = 1 \<and> q = p + 1 then 1 else if p mod 4 = 3 \<and> q = p - 1 then - 1 else 0)"

fun crossings :: "int \<Rightarrow> int list \<Rightarrow> int" where
  "crossings p [] = 0"
| "crossings p (q # qs) = step_count p q + crossings q qs"

fun walk :: "int \<Rightarrow> int list \<Rightarrow> bool" where
  "walk p [] \<longleftrightarrow> True"
| "walk p (q # qs) \<longleftrightarrow> (q = p \<or> q = p + 1 \<or> q = p - 1) \<and> walk q qs"

lemma and_3_bits:
  "(w :: u8) AND 3 = 2 \<longleftrightarrow> bit w 1 \<and> \<not> bit w 0" "(w :: u8) AND 3 = 0 \<longleftrightarrow> \<not> bit w 1 \<and> \<not> bit w 0"
  unfolding u8_eq_bits less8 by (auto simp: bit_and_iff bit_numeral_rec)

definition at_levels :: "encoder_decoder \<Rightarrow> bool \<times> bool \<Rightarrow> bool" where
  "at_levels e l \<longleftrightarrow> (bit (enc_a e) 0, bit (enc_b e) 0) = l"

lemma decoder_step:
  assumes "at_levels e (a, b)"
  shows "fst (decoder_update e a' b') =
      (if a \<and> \<not> a' \<and> \<not> b \<and> \<not> b' then 1 else if b \<and> \<not> b' \<and> \<not> a \<and> \<not> a' then - 1 else 0) \<and>
    at_levels (snd (decoder_update e a' b')) (a', b')"
proof -
  have "bit (push_bit 1 (enc_a e) OR of_bool a') 0 = a'" "bit (push_bit 1 (enc_a e) OR of_bool a') 1 = a"
    "bit (push_bit 1 (enc_b e) OR of_bool b') 0 = b'" "bit (push_bit 1 (enc_b e) OR of_bool b') 1 = b"
    using assms unfolding bit_shift_in at_levels_def by simp_all
  then show ?thesis
    unfolding decoder_update_def Let_def at_levels_def and_3_bits by auto
qed

lemma mod4_steps:
  "4 * k mod 4 = (0 :: int)" "(4 * k + 1) mod 4 = 1" "(4 * k + 2) mod 4 = 2" "(4 * k + 3) mod 4 = 3"
  "(4 * k + 4) mod 4 = 0" "(4 * k - 1) mod 4 = 3"
  by presburger+

lemma step_levels:
  assumes "q = p \<or> q = p + 1 \<or> q = p - (1 :: int)"
  shows "(case (phase_levels p, phase_levels q) of ((a, b), (a', b')) \<Rightarrow>
      if a \<and> \<not> a' \<and> \<not> b \<and> \<not> b' then 1 else if b \<and> \<not> b' \<and> \<not> a \<and> \<not> a' then - 1 else 0) = step_count p q"
proof -
  have "\<exists>k. p = 4 * k \<or> p = 4 * k + 1 \<or> p = 4 * k + 2 \<or> p = 4 * k + 3" by presburger
  then obtain k where "p = 4 * k \<or> p = 4 * k + 1 \<or> p = 4 * k + 2 \<or> p = 4 * k + 3" ..
  then show ?thesis using assms
    by (elim disjE) (simp_all add: phase_levels_def step_count_def mod4_steps)
qed

lemma turn_crossings:
  "at_levels e (phase_levels p) \<Longrightarrow> walk p qs \<Longrightarrow> turn e (map phase_levels qs) = crossings p qs"
proof (induction qs arbitrary: e p)
  case (Cons q qs)
  obtain a b where l: "phase_levels p = (a, b)" by fastforce
  obtain a' b' where l': "phase_levels q = (a', b')" by fastforce
  have st: "fst (decoder_update e a' b') =
      (if a \<and> \<not> a' \<and> \<not> b \<and> \<not> b' then 1 else if b \<and> \<not> b' \<and> \<not> a \<and> \<not> a' then - 1 else 0)"
    "at_levels (snd (decoder_update e a' b')) (phase_levels q)"
    using decoder_step [of e a b a' b'] Cons.prems(1) by (simp_all add: l l')
  have "sint (fst (decoder_update e a' b')) = step_count p q"
    using step_levels [of q p] Cons.prems(2) unfolding st(1) by (auto simp: l l' split: if_splits)
  then show ?case using Cons.IH [OF st(2)] Cons.prems(2) by (simp add: l')
qed simp

lemma crossings_up: "walk p qs \<Longrightarrow> sorted (p # qs) \<Longrightarrow> crossings p qs = (List.last (p # qs) + 2) div 4 - (p + 2) div 4"
proof (induction qs arbitrary: p)
  case (Cons q qs)
  then have "step_count p q = (q + 2) div 4 - (p + 2) div 4"
    unfolding step_count_def by auto presburger+
  then show ?case using Cons by simp
qed simp

lemma crossings_down:
  "walk p qs \<Longrightarrow> sorted_wrt (\<ge>) (p # qs) \<Longrightarrow> crossings p qs = (2 - p) div 4 - (2 - List.last (p # qs)) div 4"
proof (induction qs arbitrary: p)
  case (Cons q qs)
  then have "step_count p q = (2 - p) div 4 - (2 - q) div 4"
    unfolding step_count_def by auto presburger+
  then show ?case using Cons by simp
qed simp

text \<open>The rotary encoder. Over any walk of the shaft sampled at least once a position,
  starting at rest, the increments add up to the entries into the both-low position: from one
  side they count one up, from the other one down. Turning one way only, from rest to rest,
  every detent (four positions) counts exactly once.\<close>

theorem encoder_counts_detents:
  assumes "walk 0 qs"
  shows "turn decoder_new (map phase_levels qs) = crossings 0 qs \<and>
    (sorted (0 # qs) \<longrightarrow> turn decoder_new (map phase_levels qs) = (List.last (0 # qs) + 2) div 4) \<and>
    (sorted_wrt (\<ge>) (0 # qs) \<longrightarrow> turn decoder_new (map phase_levels qs) = - ((2 - List.last (0 # qs)) div 4))"
proof -
  have "at_levels decoder_new (phase_levels 0)"
    using bits_edges(1) by (simp add: at_levels_def decoder_new_def phase_levels_def)
  from turn_crossings [OF this assms] show ?thesis
    using crossings_up [OF assms] crossings_down [OF assms] by simp
qed

text \<open>Two detents up; and a shaft trembling at the edge of the both-low position, which counts
  up without turning.\<close>

lemma encoder_counts_detents_witness:
  "turn decoder_new (map phase_levels [1, 2, 3, 4, 5, 6, 7, 8]) = 2 \<and>
   turn decoder_new (map phase_levels [1, 2, 1, 2, 1, 0]) = 2"
  using encoder_counts_detents [of "[1, 2, 3, 4, 5, 6, 7, 8]"] encoder_counts_detents [of "[1, 2, 1, 2, 1, 0]"]
  by (simp add: step_count_def)

end
