(* ===== verification/Hothouse.thy ===== *)
theory Hothouse
  imports Controls
begin

text \<open>
  The main loop of the Hothouse pedal, \<open>run\<close> of \<open>crates/daisy-hothouse/src/main.rs\<close>: a pass
  takes what the serial port received, repaints for a terminal that attaches, samples the
  switches about once a millisecond, watches the two-footswitch gesture that reboots into DFU,
  and redraws about twenty times a second. The cycle counter, the port, the pins and whether the
  panel still has output pending are the inputs of a pass; what the panel is told to do is a
  history. Drawing, the knobs and the bring-up before the loop are the HAL's and the panel's.
  \<open>cyc\<close> is \<open>cyc_per_ms\<close>, the clock recovered from the bootloader divided by 1000. The loop's
  counters wrap, as the release profile has it; a zero divisor panics (\<open>None\<close>).
\<close>

section \<open>The loop\<close>

datatype ui_event = Ui_input nat | Ui_connect | Ui_repaint | Ui_render "toggle_position list" "bool list"

record pass_in =
  pi_now :: u32
  pi_rx :: "nat option"
  pi_dtr :: bool
  pi_lows :: "bool list"
  pi_pending :: bool
  pi_size :: "u16 \<times> u16"

record hh =
  hh_switches :: switches
  hh_leds :: leds
  hh_gesture :: "u32 option"
  hh_last_debounce :: u32
  hh_last_render :: u32
  hh_heartbeat :: u32
  hh_last_dtr :: bool
  hh_connects :: u32
  hh_in_bytes :: u32
  hh_forced_left :: u8
  hh_last_forced :: u32
  hh_ui :: "ui_event list"
  hh_pc7 :: bool
  hh_marks :: "u32 list"

definition hh_init :: "u32 \<Rightarrow> hh" where
  "hh_init now = \<lparr>hh_switches = switches_new, hh_leds = \<lparr>led1 = False, led2 = False\<rparr>, hh_gesture = None,
     hh_last_debounce = now, hh_last_render = now, hh_heartbeat = 0, hh_last_dtr = False, hh_connects = 0,
     hh_in_bytes = 0, hh_forced_left = 0, hh_last_forced = now, hh_ui = [],
     hh_pc7 = False, hh_marks = []\<rparr>"

definition heartbeat_step :: "hh \<Rightarrow> hh" where
  "heartbeat_step s =
     (let h = hh_heartbeat s + 1 in s\<lparr>hh_heartbeat := h, hh_pc7 := (h AND 0x80000 \<noteq> 0)\<rparr>)"

definition usb_step :: "pass_in \<Rightarrow> hh \<Rightarrow> hh" where
  "usb_step i s = (case pi_rx i of None \<Rightarrow> s
     | Some n \<Rightarrow> s\<lparr>hh_in_bytes := hh_in_bytes s + of_nat n, hh_ui := hh_ui s @ [Ui_input n]\<rparr>)"

definition attach_step :: "pass_in \<Rightarrow> hh \<Rightarrow> hh" where
  "attach_step i s =
     (let s = (if pi_dtr i \<and> \<not> hh_last_dtr s
         then s\<lparr>hh_connects := hh_connects s + 1, hh_ui := hh_ui s @ [Ui_connect], hh_forced_left := 3,
                hh_last_forced := pi_now i\<rparr>
         else s)
      in s\<lparr>hh_last_dtr := pi_dtr i\<rparr>)"

definition repaint_step :: "u32 \<Rightarrow> pass_in \<Rightarrow> hh \<Rightarrow> hh" where
  "repaint_step cyc i s =
     (if hh_forced_left s > 0 \<and> pi_now i - hh_last_forced s \<ge> cyc * 450
      then s\<lparr>hh_last_forced := pi_now i, hh_forced_left := hh_forced_left s - 1, hh_ui := hh_ui s @ [Ui_repaint]\<rparr>
      else s)"

text \<open>What a debugger reads: the port's state, the two counters and the panel's size.\<close>

definition mark_step :: "pass_in \<Rightarrow> hh \<Rightarrow> hh" where
  "mark_step i s = s\<lparr>hh_marks := [of_bool (pi_dtr i), hh_connects s, hh_in_bytes s,
     push_bit 16 (ucast (fst (pi_size i))) OR ucast (snd (pi_size i))]\<rparr>"

definition debounce_step :: "u32 \<Rightarrow> pass_in \<Rightarrow> hh \<Rightarrow> hh" where
  "debounce_step cyc i s =
     (if pi_now i - hh_last_debounce s \<ge> cyc
      then s\<lparr>hh_last_debounce := pi_now i, hh_switches := switches_update (pi_lows i) (hh_switches s)\<rparr>
      else s)"

definition both_leds :: "bool \<Rightarrow> hh \<Rightarrow> hh" where
  "both_leds on s = s\<lparr>hh_leds := leds_set Led_Two on (leds_set Led_One on (hh_leds s))\<rparr>"

text \<open>\<open>Inl\<close>: the pedal reboots into the bootloader.\<close>

definition gesture_step :: "u32 \<Rightarrow> pass_in \<Rightarrow> hh \<Rightarrow> (hh + hh) option" where
  "gesture_step cyc i s = do {
     g \<leftarrow> dfu_gesture (hh_switches s);
     if g then
       let start = (case hh_gesture s of Some t \<Rightarrow> t | None \<Rightarrow> pi_now i);
           s = s\<lparr>hh_gesture := Some start\<rparr>;
           held = pi_now i - start in
       if held \<ge> cyc * 2000 then Some (Inl (both_leds True s))
       else if cyc * 80 = 0 then None
       else Some (Inr (both_leds (held div (cyc * 80) AND 1 = 0) s))
     else if hh_gesture s \<noteq> None then Some (Inr (both_leds False (s\<lparr>hh_gesture := None\<rparr>)))
     else Some (Inr s)
   }"

definition render_step :: "u32 \<Rightarrow> pass_in \<Rightarrow> hh \<Rightarrow> hh option" where
  "render_step cyc i s =
     (if pi_now i - hh_last_render s \<ge> cyc * 50 \<and> \<not> pi_pending i then do {
        t1 \<leftarrow> toggle_at (hh_switches s) Toggle_One;
        t2 \<leftarrow> toggle_at (hh_switches s) Toggle_Two;
        t3 \<leftarrow> toggle_at (hh_switches s) Toggle_Three;
        f1 \<leftarrow> footswitch_pressed (hh_switches s) Foot_One;
        f2 \<leftarrow> footswitch_pressed (hh_switches s) Foot_Two;
        Some (s\<lparr>hh_last_render := pi_now i, hh_ui := hh_ui s @ [Ui_render [t1, t2, t3] [f1, f2]]\<rparr>)
      } else Some s)"

definition hh_pass :: "u32 \<Rightarrow> pass_in \<Rightarrow> hh \<Rightarrow> (hh + hh) option" where
  "hh_pass cyc i s = do {
     g \<leftarrow> gesture_step cyc i (debounce_step cyc i (mark_step i (repaint_step cyc i (attach_step i (usb_step i (heartbeat_step s))))));
     case g of Inl s \<Rightarrow> Some (Inl s) | Inr s \<Rightarrow> map_option Inr (render_step cyc i s)
   }"

text \<open>The loop over given inputs: the pass that rebooted, or the state after all of them.\<close>

fun hh_loop :: "u32 \<Rightarrow> nat \<Rightarrow> pass_in list \<Rightarrow> hh \<Rightarrow> (nat \<times> hh + hh) option" where
  "hh_loop cyc k [] s = Some (Inr s)"
| "hh_loop cyc k (i # is) s = do {
     o' \<leftarrow> hh_pass cyc i s;
     case o' of Inl s \<Rightarrow> Some (Inl (k, s)) | Inr s \<Rightarrow> hh_loop cyc (Suc k) is s
   }"

section \<open>The gesture in real time\<close>

text \<open>A run in real time: the true cycle count of each pass beside its input. Every gap is short
  enough for the gesture to be looked at before the counter comes round.\<close>

definition timed :: "(nat \<times> pass_in) list \<Rightarrow> pass_in list" where
  "timed xs = map (\<lambda>(t, i). i\<lparr>pi_now := of_nat t\<rparr>) xs"

fun paced :: "nat \<Rightarrow> nat \<Rightarrow> (nat \<times> pass_in) list \<Rightarrow> bool" where
  "paced c prev [] \<longleftrightarrow> True"
| "paced c prev ((t, i) # xs) \<longleftrightarrow> prev \<le> t \<and> t - prev < 2 ^ 32 - 2000 * c \<and> length (pi_lows i) = 8 \<and> paced c t xs"

text \<open>The samples taken: one at the first pass at least \<open>c\<close> cycles after the last.\<close>

fun samples :: "nat \<Rightarrow> nat \<Rightarrow> (nat \<times> pass_in) list \<Rightarrow> bool list list" where
  "samples c prev [] = []"
| "samples c prev ((t, i) # xs) = (if c \<le> t - prev then pi_lows i # samples c t xs else samples c prev xs)"

definition gesture :: "nat \<Rightarrow> nat \<Rightarrow> (nat \<times> pass_in) list \<Rightarrow> nat \<Rightarrow> bool" where
  "gesture c t0 xs k \<longleftrightarrow> held (samples c t0 (take (Suc k) xs)) 6 \<and> held (samples c t0 (take (Suc k) xs)) 7"

definition fires :: "nat \<Rightarrow> nat \<Rightarrow> (nat \<times> pass_in) list \<Rightarrow> nat \<Rightarrow> bool" where
  "fires c t0 xs k \<longleftrightarrow> (\<exists>m\<le>k. (\<forall>j\<in>{m..k}. gesture c t0 xs j) \<and> 2000 * c \<le> fst (xs ! k) - fst (xs ! m))"

fun last_sample :: "nat \<Rightarrow> nat \<Rightarrow> (nat \<times> pass_in) list \<Rightarrow> nat" where
  "last_sample c prev [] = prev"
| "last_sample c prev ((t, i) # xs) = (if c \<le> t - prev then last_sample c t xs else last_sample c prev xs)"

lemma samples_snoc:
  "samples c prev (xs @ [(t, i)]) = samples c prev xs @ (if c \<le> t - last_sample c prev xs then [pi_lows i] else [])"
  by (induction xs arbitrary: prev) (auto split: if_splits)

lemma last_sample_snoc:
  "last_sample c prev (xs @ [(t, i)]) = (if c \<le> t - last_sample c prev xs then t else last_sample c prev xs)"
  by (induction xs arbitrary: prev) (auto split: if_splits)

definition time_before :: "nat \<Rightarrow> (nat \<times> pass_in) list \<Rightarrow> nat \<Rightarrow> nat" where
  "time_before t0 xs k = (if k = 0 then t0 else fst (xs ! (k - 1)))"

lemma paced_nth:
  "paced c t0 xs \<Longrightarrow> k < length xs \<Longrightarrow> time_before t0 xs k \<le> fst (xs ! k) \<and>
     fst (xs ! k) - time_before t0 xs k < 2 ^ 32 - 2000 * c \<and> length (pi_lows (snd (xs ! k))) = 8"
proof (induction xs arbitrary: t0 k)
  case (Cons x xs)
  obtain t i where x: "x = (t, i)" by fastforce
  show ?case
  proof (cases k)
    case (Suc j)
    then show ?thesis using Cons.IH [of t j] Cons.prems x by (cases j) (auto simp: time_before_def)
  qed (use Cons.prems x in \<open>simp add: time_before_def\<close>)
qed simp

lemma samples_length: "paced c t0 xs \<Longrightarrow> list_all (\<lambda>l. length l = 8) (samples c p (take k xs))"
  by (induction xs arbitrary: t0 p k) (auto simp: take_Cons' split: if_splits)

lemma paced_mono: "paced c t0 xs \<Longrightarrow> i \<le> j \<Longrightarrow> j < length xs \<Longrightarrow> fst (xs ! i) \<le> fst (xs ! j)"
proof (induction j)
  case (Suc j)
  then have "fst (xs ! j) \<le> fst (xs ! Suc j)" using paced_nth [of c t0 xs "Suc j"] by (simp add: time_before_def)
  with Suc show ?case by (cases "i = Suc j") auto
qed simp

definition hh_inv :: "nat \<Rightarrow> nat \<Rightarrow> (nat \<times> pass_in) list \<Rightarrow> nat \<Rightarrow> hh \<Rightarrow> bool" where
  "hh_inv c t0 xs k s \<longleftrightarrow>
     hh_switches s = switches_run (samples c t0 (take k xs)) \<and>
     hh_last_debounce s = of_nat (last_sample c t0 (take k xs)) \<and>
     last_sample c t0 (take k xs) \<le> time_before t0 xs k \<and> time_before t0 xs k - last_sample c t0 (take k xs) < c \<and>
     (case hh_gesture s of
        None \<Rightarrow> hh_leds s = \<lparr>led1 = False, led2 = False\<rparr> \<and> (k = 0 \<or> \<not> gesture c t0 xs (k - 1))
      | Some g \<Rightarrow> \<exists>m<k. g = of_nat (fst (xs ! m)) \<and> time_before t0 xs k - fst (xs ! m) < 2000 * c \<and>
          (\<forall>j\<in>{m..<k}. gesture c t0 xs j) \<and> (m = 0 \<or> \<not> gesture c t0 xs (m - 1)))"

lemma hh_inv_init: "0 < c \<Longrightarrow> hh_inv c t0 xs 0 (hh_init (of_nat t0))"
  by (simp add: hh_inv_def hh_init_def switches_run_def time_before_def)

lemma pre_steps_frame [simp]:
  "hh_switches (mark_step i (repaint_step cyc i (attach_step i (usb_step i (heartbeat_step s))))) = hh_switches s"
  "hh_last_debounce (mark_step i (repaint_step cyc i (attach_step i (usb_step i (heartbeat_step s))))) = hh_last_debounce s"
  "hh_gesture (mark_step i (repaint_step cyc i (attach_step i (usb_step i (heartbeat_step s))))) = hh_gesture s"
  "hh_leds (mark_step i (repaint_step cyc i (attach_step i (usb_step i (heartbeat_step s))))) = hh_leds s"
  by (simp_all add: mark_step_def repaint_step_def attach_step_def usb_step_def heartbeat_step_def Let_def split: option.split)

lemma render_step_ok:
  assumes "hh_switches s = switches_run hs" "list_all (\<lambda>l. length l = 8) hs"
  shows "\<exists>s'. render_step cyc i s = Some s' \<and> hh_switches s' = hh_switches s \<and>
    hh_last_debounce s' = hh_last_debounce s \<and> hh_gesture s' = hh_gesture s \<and> hh_leds s' = hh_leds s"
  using assms(2)
  by (simp add: render_step_def assms(1) toggle_at_def footswitch_pressed_def fsw_index_def FSW1_def FSW2_def
      switches_run_get)

lemma debounce_step_samples:
  assumes "paced c t0 xs" "k < length xs" "hh_switches s = switches_run (samples c t0 (take k xs))"
    "hh_last_debounce s = of_nat (last_sample c t0 (take k xs))"
    "last_sample c t0 (take k xs) \<le> time_before t0 xs k" "time_before t0 xs k - last_sample c t0 (take k xs) < c"
    "c = unat cyc" "2000 * c < 2 ^ 32"
  defines "s' \<equiv> debounce_step cyc (timed xs ! k) s"
  shows "hh_switches s' = switches_run (samples c t0 (take (Suc k) xs))"
    "hh_last_debounce s' = of_nat (last_sample c t0 (take (Suc k) xs))"
    "last_sample c t0 (take (Suc k) xs) \<le> fst (xs ! k)" "fst (xs ! k) - last_sample c t0 (take (Suc k) xs) < c"
    "hh_gesture s' = hh_gesture s" "hh_leds s' = hh_leds s"
proof -
  obtain t i where x: "xs ! k = (t, i)" by fastforce
  let ?L = "last_sample c t0 (take k xs)"
  have t: "time_before t0 xs k \<le> t" "t - time_before t0 xs k < 2 ^ 32 - 2000 * c"
    using paced_nth [OF assms(1,2)] by (simp_all add: x)
  have tk: "take (Suc k) xs = take k xs @ [(t, i)]" using assms(2) by (simp add: take_Suc_conv_app_nth x)
  have i: "timed xs ! k = i\<lparr>pi_now := of_nat t\<rparr>" using assms(2) by (simp add: timed_def x)
  have "unat (of_nat t - of_nat ?L :: u32) = t - ?L"
    using t assms(5,6,8) by (intro elapsed32) linarith+
  then have due: "cyc \<le> of_nat t - of_nat ?L \<longleftrightarrow> c \<le> t - ?L"
    by (simp add: word_le_nat_alt assms(7))
  show "hh_switches s' = switches_run (samples c t0 (take (Suc k) xs))"
    "hh_last_debounce s' = of_nat (last_sample c t0 (take (Suc k) xs))"
    "last_sample c t0 (take (Suc k) xs) \<le> fst (xs ! k)" "fst (xs ! k) - last_sample c t0 (take (Suc k) xs) < c"
    "hh_gesture s' = hh_gesture s" "hh_leds s' = hh_leds s"
    using assms(3,4,5,6) t(1) due unfolding s'_def tk samples_snoc last_sample_snoc x i
    by (auto simp: debounce_step_def switches_run_def)
qed

lemma fires_from:
  assumes "paced c t0 xs" "k < length xs" "m \<le> k" "\<forall>j\<in>{m..k}. gesture c t0 xs j" "m = 0 \<or> \<not> gesture c t0 xs (m - 1)"
  shows "fires c t0 xs k \<longleftrightarrow> 2000 * c \<le> fst (xs ! k) - fst (xs ! m)"
proof
  assume "fires c t0 xs k"
  then obtain m' where m': "m' \<le> k" "\<forall>j\<in>{m'..k}. gesture c t0 xs j" "2000 * c \<le> fst (xs ! k) - fst (xs ! m')"
    by (auto simp: fires_def)
  have "m \<le> m'"
  proof (rule ccontr)
    assume "\<not> m \<le> m'"
    then have "m \<noteq> 0" "m - 1 \<in> {m'..k}" using assms(3) by auto
    then show False using m'(2) assms(5) by blast
  qed
  then have "fst (xs ! m) \<le> fst (xs ! m')" using assms(1,2) m'(1) by (intro paced_mono) auto
  with m'(3) show "2000 * c \<le> fst (xs ! k) - fst (xs ! m)" by linarith
next
  assume "2000 * c \<le> fst (xs ! k) - fst (xs ! m)"
  with assms(3,4) show "fires c t0 xs k" by (auto simp: fires_def)
qed

lemma cyc_products:
  assumes "0 < unat cyc" "2000 * unat cyc < 2 ^ 32"
  shows "unat (cyc * 2000 :: u32) = 2000 * unat cyc" "cyc * 80 \<noteq> (0 :: u32)"
proof -
  show "unat (cyc * 2000 :: u32) = 2000 * unat cyc"
    using assms(2) by (simp add: unat_word_ariths)
  have "unat (cyc * 80) = 80 * unat cyc" using assms(2) by (simp add: unat_word_ariths)
  then show "cyc * 80 \<noteq> 0" using assms(1) by auto
qed

lemma gesture_step_timed:
  assumes "paced c t0 xs" "k < length xs" "c = unat cyc" "0 < c" "2000 * c < 2 ^ 32"
    "hh_switches s = switches_run (samples c t0 (take (Suc k) xs))"
    "case hh_gesture s of
        None \<Rightarrow> hh_leds s = \<lparr>led1 = False, led2 = False\<rparr> \<and> (k = 0 \<or> \<not> gesture c t0 xs (k - 1))
      | Some g \<Rightarrow> \<exists>m<k. g = of_nat (fst (xs ! m)) \<and> time_before t0 xs k - fst (xs ! m) < 2000 * c \<and>
          (\<forall>j\<in>{m..<k}. gesture c t0 xs j) \<and> (m = 0 \<or> \<not> gesture c t0 xs (m - 1))"
  shows "if fires c t0 xs k then \<exists>s'. gesture_step cyc (timed xs ! k) s = Some (Inl s') \<and> hh_leds s' = \<lparr>led1 = True, led2 = True\<rparr>
    else \<exists>s'. gesture_step cyc (timed xs ! k) s = Some (Inr s') \<and> hh_switches s' = hh_switches s \<and>
      hh_last_debounce s' = hh_last_debounce s \<and>
      (case hh_gesture s' of
        None \<Rightarrow> hh_leds s' = \<lparr>led1 = False, led2 = False\<rparr> \<and> \<not> gesture c t0 xs k
      | Some g \<Rightarrow> \<exists>m\<le>k. g = of_nat (fst (xs ! m)) \<and> fst (xs ! k) - fst (xs ! m) < 2000 * c \<and>
          (\<forall>j\<in>{m..k}. gesture c t0 xs j) \<and> (m = 0 \<or> \<not> gesture c t0 xs (m - 1)))"
proof -
  obtain t i where x: "xs ! k = (t, i)" by fastforce
  have i: "timed xs ! k = i\<lparr>pi_now := of_nat t\<rparr>" using assms(2) by (simp add: timed_def x)
  have g: "dfu_gesture (hh_switches s) = Some (gesture c t0 xs k)"
    unfolding assms(6) gesture_def by (rule dfu_gesture_run [OF samples_length [OF assms(1)]])
  note cyc = cyc_products [of cyc] assms(3,4,5)
  show ?thesis
  proof (cases "gesture c t0 xs k")
    case False
    then have "\<not> fires c t0 xs k" by (auto simp: fires_def)
    then show ?thesis using False g assms(7)
      by (cases "hh_gesture s") (auto simp: gesture_step_def both_leds_def leds_set_def)
  next
    case True
    have "\<exists>m\<le>k. (case hh_gesture s of Some t \<Rightarrow> t | None \<Rightarrow> of_nat t) = of_nat (fst (xs ! m)) \<and>
        fst (xs ! k) - fst (xs ! m) < 2 ^ 32 \<and> (\<forall>j\<in>{m..k}. gesture c t0 xs j) \<and> (m = 0 \<or> \<not> gesture c t0 xs (m - 1))"
    proof (cases "hh_gesture s")
      case None
      then show ?thesis using True assms(7) x by (intro exI [of _ k]) auto
    next
      case (Some u)
      then obtain m where m: "m < k" "u = of_nat (fst (xs ! m))" "time_before t0 xs k - fst (xs ! m) < 2000 * c"
        "\<forall>j\<in>{m..<k}. gesture c t0 xs j" "m = 0 \<or> \<not> gesture c t0 xs (m - 1)"
        using assms(7) by auto
      have "fst (xs ! k) - fst (xs ! m) < 2 ^ 32"
        using paced_nth [OF assms(1,2)] m(3) assms(5) by linarith
      moreover have "\<forall>j\<in>{m..k}. gesture c t0 xs j" using m(4) True by (metis atLeastAtMost_iff atLeastLessThan_iff le_neq_implies_less)
      ultimately show ?thesis using m Some by (intro exI [of _ m]) auto
    qed
    then obtain m where m: "m \<le> k" "(case hh_gesture s of Some t \<Rightarrow> t | None \<Rightarrow> of_nat t) = (of_nat (fst (xs ! m)) :: u32)"
      "fst (xs ! k) - fst (xs ! m) < 2 ^ 32" "\<forall>j\<in>{m..k}. gesture c t0 xs j" "m = 0 \<or> \<not> gesture c t0 xs (m - 1)"
      by blast
    have fi: "fires c t0 xs k \<longleftrightarrow> 2000 * c \<le> fst (xs ! k) - fst (xs ! m)"
      by (rule fires_from [OF assms(1,2) m(1,4,5)])
    have "fst (xs ! m) \<le> fst (xs ! k)" using paced_mono [OF assms(1) m(1) assms(2)] .
    then have "unat (of_nat t - of_nat (fst (xs ! m)) :: u32) = t - fst (xs ! m)"
      using m(3) by (intro elapsed32) (simp_all add: x)
    then have due: "cyc * 2000 \<le> of_nat t - of_nat (fst (xs ! m)) \<longleftrightarrow> fires c t0 xs k"
      using cyc fi by (simp add: word_le_nat_alt x)
    let ?s = "s\<lparr>hh_gesture := Some (of_nat (fst (xs ! m)))\<rparr>"
    show ?thesis
    proof (cases "fires c t0 xs k")
      case fire: True
      then have "gesture_step cyc (timed xs ! k) s = Some (Inl (both_leds True ?s))"
        using g True due m(2) by (cases "hh_gesture s") (simp_all add: gesture_step_def i Let_def)
      then show ?thesis using fire by (simp add: both_leds_def leds_set_def)
    next
      case quiet: False
      then have "gesture_step cyc (timed xs ! k) s =
          Some (Inr (both_leds ((of_nat t - of_nat (fst (xs ! m))) div (cyc * 80) AND 1 = 0) ?s))"
        using g True due m(2) cyc(2) assms(3,4,5) by (cases "hh_gesture s") (simp_all add: gesture_step_def i Let_def)
      moreover have "fst (xs ! k) - fst (xs ! m) < 2000 * c" using quiet fi by simp
      ultimately show ?thesis using quiet m(1,4,5) by (auto simp: both_leds_def)
    qed
  qed
qed

lemma hh_pass_timed:
  assumes "paced c t0 xs" "k < length xs" "c = unat cyc" "0 < c" "2000 * c < 2 ^ 32" "hh_inv c t0 xs k s"
  shows "if fires c t0 xs k then \<exists>s'. hh_pass cyc (timed xs ! k) s = Some (Inl s') \<and> hh_leds s' = \<lparr>led1 = True, led2 = True\<rparr>
    else \<exists>s'. hh_pass cyc (timed xs ! k) s = Some (Inr s') \<and> hh_inv c t0 xs (Suc k) s'"
proof -
  let ?i = "timed xs ! k"
  let ?p = "mark_step ?i (repaint_step cyc ?i (attach_step ?i (usb_step ?i (heartbeat_step s))))"
  have "hh_switches ?p = switches_run (samples c t0 (take k xs))"
    "hh_last_debounce ?p = of_nat (last_sample c t0 (take k xs))"
    "last_sample c t0 (take k xs) \<le> time_before t0 xs k" "time_before t0 xs k - last_sample c t0 (take k xs) < c"
    using assms(6) by (simp_all add: hh_inv_def)
  note d = debounce_step_samples [OF assms(1,2) this assms(3,5)]
  let ?d = "debounce_step cyc ?i ?p"
  have "case hh_gesture ?d of
        None \<Rightarrow> hh_leds ?d = \<lparr>led1 = False, led2 = False\<rparr> \<and> (k = 0 \<or> \<not> gesture c t0 xs (k - 1))
      | Some g \<Rightarrow> \<exists>m<k. g = of_nat (fst (xs ! m)) \<and> time_before t0 xs k - fst (xs ! m) < 2000 * c \<and>
          (\<forall>j\<in>{m..<k}. gesture c t0 xs j) \<and> (m = 0 \<or> \<not> gesture c t0 xs (m - 1))"
    unfolding d(5,6) pre_steps_frame using assms(6) by (simp only: hh_inv_def)
  note g = gesture_step_timed [OF assms(1-5) d(1) this]
  show ?thesis
  proof (cases "fires c t0 xs k")
    case True
    with g show ?thesis by (auto simp: hh_pass_def)
  next
    case False
    with g obtain s' where s': "gesture_step cyc ?i ?d = Some (Inr s')" "hh_switches s' = hh_switches ?d"
      "hh_last_debounce s' = hh_last_debounce ?d"
      "case hh_gesture s' of
        None \<Rightarrow> hh_leds s' = \<lparr>led1 = False, led2 = False\<rparr> \<and> \<not> gesture c t0 xs k
      | Some g \<Rightarrow> \<exists>m\<le>k. g = of_nat (fst (xs ! m)) \<and> fst (xs ! k) - fst (xs ! m) < 2000 * c \<and>
          (\<forall>j\<in>{m..k}. gesture c t0 xs j) \<and> (m = 0 \<or> \<not> gesture c t0 xs (m - 1))"
      by (simp only: if_False) blast
    from render_step_ok [OF s'(2) [unfolded d(1)] samples_length [OF assms(1)], of cyc ?i] obtain s2 where
      s2: "render_step cyc ?i s' = Some s2" "hh_switches s2 = hh_switches s'" "hh_last_debounce s2 = hh_last_debounce s'"
        "hh_gesture s2 = hh_gesture s'" "hh_leds s2 = hh_leds s'"
      by blast
    have tb: "time_before t0 xs (Suc k) = fst (xs ! k)" by (simp add: time_before_def)
    have "hh_inv c t0 xs (Suc k) s2"
      unfolding hh_inv_def s2 s'(2,3) d(1,2) tb less_Suc_eq_le diff_Suc_1 atLeastLessThanSuc_atLeastAtMost
      using s'(4) d(3,4) by (auto split: option.splits)
    then show ?thesis using False s'(1) s2(1) by (simp add: hh_pass_def)
  qed
qed

lemma hh_loop_timed:
  assumes "paced c t0 xs" "c = unat cyc" "0 < c" "2000 * c < 2 ^ 32"
  shows "k \<le> length xs \<Longrightarrow> hh_inv c t0 xs k s \<Longrightarrow>
    (case hh_loop cyc k (drop k (timed xs)) s of
       Some (Inl (n, s')) \<Rightarrow> k \<le> n \<and> n < length xs \<and> fires c t0 xs n \<and> (\<forall>j. k \<le> j \<and> j < n \<longrightarrow> \<not> fires c t0 xs j) \<and>
         hh_leds s' = \<lparr>led1 = True, led2 = True\<rparr>
     | Some (Inr s') \<Rightarrow> (\<forall>j. k \<le> j \<and> j < length xs \<longrightarrow> \<not> fires c t0 xs j) \<and> hh_inv c t0 xs (length xs) s'
     | None \<Rightarrow> False)"
proof (induction "length xs - k" arbitrary: k s)
  case 0
  then show ?case by (auto simp: timed_def)
next
  case (Suc d)
  then have k: "k < length xs" by simp
  have dr: "drop k (timed xs) = timed xs ! k # drop (Suc k) (timed xs)"
    using k by (intro Cons_nth_drop_Suc [symmetric]) (simp add: timed_def)
  note st = hh_pass_timed [OF assms(1) k assms(2-4) Suc.prems(2)]
  show ?case
  proof (cases "fires c t0 xs k")
    case True
    with st k show ?thesis by (auto simp: dr)
  next
    case False
    with st obtain s1 where s1: "hh_pass cyc (timed xs ! k) s = Some (Inr s1)" "hh_inv c t0 xs (Suc k) s1" by auto
    have "d = length xs - Suc k" "Suc k \<le> length xs" using Suc.hyps(2) k by simp_all
    from Suc.hyps(1) [OF this s1(2)] show ?thesis using False
      by (auto simp: dr s1(1) Suc_le_eq split: option.splits sum.splits)
        (metis le_neq_implies_less)+
  qed
qed

text \<open>C15: the two-footswitch gesture. However the passes of the loop fall, as long as one comes
  before the counter comes round, the pedal reboots into the bootloader at exactly the first pass
  at which both footswitches have read pressed at every pass for two seconds of real time (each
  closed at the latest eight samples, taken a millisecond apart), with both LEDs lit; until then
  the loop goes on without a panic, and while the gesture is not held both LEDs are dark.\<close>

theorem dfu_gesture_real_time:
  assumes "paced (unat cyc) t0 xs" and "0 < unat cyc" and "2000 * unat cyc < 2 ^ 32"
  shows "case hh_loop cyc 0 (timed xs) (hh_init (of_nat t0)) of
      Some (Inl (n, s)) \<Rightarrow> n < length xs \<and> fires (unat cyc) t0 xs n \<and> (\<forall>j<n. \<not> fires (unat cyc) t0 xs j) \<and>
        hh_leds s = \<lparr>led1 = True, led2 = True\<rparr>
    | Some (Inr s) \<Rightarrow> (\<forall>j<length xs. \<not> fires (unat cyc) t0 xs j) \<and>
        (xs = [] \<or> \<not> gesture (unat cyc) t0 xs (length xs - 1) \<longrightarrow> hh_leds s = \<lparr>led1 = False, led2 = False\<rparr>)
    | None \<Rightarrow> False"
proof -
  have dark: "hh_leds s = \<lparr>led1 = False, led2 = False\<rparr>"
    if "hh_inv c t0 xs (length xs) s" "xs = [] \<or> \<not> gesture c t0 xs (length xs - 1)" for c s
    using that by (fastforce simp: hh_inv_def split: option.splits)
  show ?thesis
    using hh_loop_timed [OF assms(1) refl assms(2,3) _ hh_inv_init [OF assms(2)]]
    by (auto split: option.splits sum.splits intro: dark)
qed

text \<open>Both footswitches closed from the start, across a wrap of the counter: the pedal reboots.\<close>

definition stomp :: "(nat \<times> pass_in) list" where
  "stomp = map (\<lambda>t. (t, \<lparr>pi_now = 0, pi_rx = None, pi_dtr = False,
       pi_lows = [False, False, False, False, False, False, True, True], pi_pending = True, pi_size = (80, 24)\<rparr>))
     [4294400000, 4294800000, 4295200000, 4295600000, 4296000000, 4296400000, 4296800000, 4297200000, 5097200000]"

lemma le_eight: "7 \<le> j \<Longrightarrow> j \<le> 8 \<Longrightarrow> j = 7 \<or> j = (8 :: nat)"
  by linarith

lemma dfu_gesture_real_time_witness:
  "\<exists>n s. hh_loop 400000 0 (timed stomp) (hh_init (of_nat 4294000000)) = Some (Inl (n, s)) \<and>
     hh_leds s = \<lparr>led1 = True, led2 = True\<rparr>"
proof -
  have c: "unat (400000 :: u32) = 400000" by simp
  have rep: "replicate 8 x = [x, x, x, x, x, x, x, x]" "replicate 9 x = [x, x, x, x, x, x, x, x, x]" for x :: "bool list"
    by (simp_all add: eval_nat_numeral)
  have "paced 400000 4294000000 stomp" by (simp add: stomp_def)
  moreover have "samples 400000 4294000000 (take 8 stomp) = replicate 8 [False, False, False, False, False, False, True, True]"
    "samples 400000 4294000000 (take 9 stomp) = replicate 9 [False, False, False, False, False, False, True, True]"
    unfolding rep by (simp_all add: stomp_def)
  then have "gesture 400000 4294000000 stomp 7" "gesture 400000 4294000000 stomp 8"
    by (simp_all add: gesture_def held_def)
  then have "fires 400000 4294000000 stomp 8"
    unfolding fires_def by (intro exI [of _ 7]) (auto simp: stomp_def dest: le_eight)
  moreover have "8 < length stomp" by (simp add: stomp_def)
  ultimately show ?thesis
    using dfu_gesture_real_time [of 400000 4294000000 stomp, unfolded c]
    by (simp split: option.splits sum.splits prod.splits)
qed

end
