(* ===== verification/Sdram.thy ===== *)
theory Sdram
  imports Prelude
begin

text \<open>
  The SDRAM bring-up, \<open>crates/daisy-bsp/src/sdram.rs\<close>: the device parameters and their FMC
  register encodings (module \<open>config\<close>), the pin table with the signal map its test checks it
  against, and \<open>bare::init\<close>: clocks, pins, controller and the JEDEC power-up sequence. Registers
  are a store from addresses to words; the FMC status register is read from a stream, one value
  a poll, and writes, delays and waits are kept in a trace. The barriers order the writes as the
  trace has them.
\<close>

section \<open>Device parameters and register values\<close>

record sdram_config =
  column_bits :: u8
  row_bits :: u8
  data_width :: u8
  internal_banks :: u8
  cas_latency :: u8
  sdclk_divider :: u8
  read_burst :: bool
  read_pipe_delay :: u8
  t_mrd :: u8
  t_xsr :: u8
  t_ras :: u8
  t_rc :: u8
  t_wr :: u8
  t_rp :: u8
  t_rcd :: u8
  auto_refresh_cycles :: u8
  refresh_count :: u16

definition SEED :: sdram_config where
  "SEED = \<lparr>column_bits = 9, row_bits = 13, data_width = 32, internal_banks = 4, cas_latency = 3, sdclk_divider = 2,
     read_burst = True, read_pipe_delay = 0, t_mrd = 2, t_xsr = 7, t_ras = 5, t_rc = 8, t_wr = 3, t_rp = 16,
     t_rcd = 10, auto_refresh_cycles = 4, refresh_count = 0x2F9\<rparr>"

definition BASE_ADDRESS :: u32 where "BASE_ADDRESS = 0xC0000000"
definition SIZE_BYTES :: u32 where "SIZE_BYTES = 0x04000000"

definition sdcr1 :: "sdram_config \<Rightarrow> u32" where
  "sdcr1 c =
     (let nc = ucast (column_bits c - 8) :: u32;
          nr = ucast (row_bits c - 11) :: u32;
          mwid = (if data_width c = 8 then 0 else if data_width c = 16 then 1 else 2);
          nb = (if internal_banks c = 4 then 1 else 0);
          cas = ucast (cas_latency c) :: u32;
          sdclk = ucast (sdclk_divider c) :: u32;
          rburst = (if read_burst c then 1 else 0);
          rpipe = ucast (read_pipe_delay c) :: u32
      in (nc AND 3) OR push_bit 2 (nr AND 3) OR push_bit 4 (mwid AND 3) OR push_bit 6 nb OR push_bit 7 (cas AND 3) OR
         push_bit 10 (sdclk AND 3) OR push_bit 12 rburst OR push_bit 13 (rpipe AND 3))"

definition sdtr1 :: "sdram_config \<Rightarrow> u32" where
  "sdtr1 c =
     ((ucast (t_mrd c) - 1) AND 0xF) OR push_bit 4 ((ucast (t_xsr c) - 1) AND 0xF) OR
     push_bit 8 ((ucast (t_ras c) - 1) AND 0xF) OR push_bit 12 ((ucast (t_rc c) - 1) AND 0xF) OR
     push_bit 16 ((ucast (t_wr c) - 1) AND 0xF) OR push_bit 20 ((ucast (t_rp c) - 1) AND 0xF) OR
     push_bit 24 ((ucast (t_rcd c) - 1) AND 0xF)"

definition mode_register :: "sdram_config \<Rightarrow> u32" where
  "mode_register c = 2 OR push_bit 4 (ucast (cas_latency c) AND 7) OR push_bit 9 1"

definition sdcmr_mrd :: "sdram_config \<Rightarrow> u32" where
  "sdcmr_mrd c = push_bit 9 (mode_register c)"

definition sdrtr :: "sdram_config \<Rightarrow> u32" where
  "sdrtr c = push_bit 1 (ucast (refresh_count c) AND 0x1FFF)"

section \<open>Pins\<close>

text \<open>A bit mask of pins, written as the constant's shifts.\<close>

definition pins_mask :: "nat list \<Rightarrow> u16" where
  "pins_mask ps = fold (\<lambda>p m. m OR push_bit p 1) ps 0"

definition FMC_PINS :: "(u32 \<times> u16) list" where
  "FMC_PINS =
     [(2, pins_mask [0]),
      (3, pins_mask [0, 1, 8, 9, 10, 14, 15]),
      (4, pins_mask [0, 1, 7, 8, 9, 10, 11, 12, 13, 14, 15]),
      (5, pins_mask [0, 1, 2, 3, 4, 5, 11, 12, 13, 14, 15]),
      (6, pins_mask [0, 1, 2, 4, 5, 8, 15]),
      (7, pins_mask [2, 3, 5, 8, 9, 10, 11, 12, 13, 14, 15]),
      (8, pins_mask [0, 1, 2, 3, 4, 5, 6, 7, 9, 10])]"

text \<open>The board's signals and the port and pin each lands on.\<close>

definition GROUND_TRUTH :: "(string \<times> char \<times> nat) list" where
  "GROUND_TRUTH =
     [(''A0'', CHR ''F'', 0), (''A1'', CHR ''F'', 1), (''A2'', CHR ''F'', 2), (''A3'', CHR ''F'', 3), (''A4'', CHR ''F'', 4),
      (''A5'', CHR ''F'', 5), (''A6'', CHR ''F'', 12), (''A7'', CHR ''F'', 13), (''A8'', CHR ''F'', 14), (''A9'', CHR ''F'', 15),
      (''A10'', CHR ''G'', 0), (''A11'', CHR ''G'', 1), (''A12'', CHR ''G'', 2),
      (''BA0'', CHR ''G'', 4), (''BA1'', CHR ''G'', 5),
      (''D0'', CHR ''D'', 14), (''D1'', CHR ''D'', 15), (''D2'', CHR ''D'', 0), (''D3'', CHR ''D'', 1),
      (''D4'', CHR ''E'', 7), (''D5'', CHR ''E'', 8), (''D6'', CHR ''E'', 9), (''D7'', CHR ''E'', 10), (''D8'', CHR ''E'', 11),
      (''D9'', CHR ''E'', 12), (''D10'', CHR ''E'', 13), (''D11'', CHR ''E'', 14), (''D12'', CHR ''E'', 15),
      (''D13'', CHR ''D'', 8), (''D14'', CHR ''D'', 9), (''D15'', CHR ''D'', 10),
      (''D16'', CHR ''H'', 8), (''D17'', CHR ''H'', 9), (''D18'', CHR ''H'', 10), (''D19'', CHR ''H'', 11),
      (''D20'', CHR ''H'', 12), (''D21'', CHR ''H'', 13), (''D22'', CHR ''H'', 14), (''D23'', CHR ''H'', 15),
      (''D24'', CHR ''I'', 0), (''D25'', CHR ''I'', 1), (''D26'', CHR ''I'', 2), (''D27'', CHR ''I'', 3),
      (''D28'', CHR ''I'', 6), (''D29'', CHR ''I'', 7), (''D30'', CHR ''I'', 9), (''D31'', CHR ''I'', 10),
      (''NBL0'', CHR ''E'', 0), (''NBL1'', CHR ''E'', 1), (''NBL2'', CHR ''I'', 4), (''NBL3'', CHR ''I'', 5),
      (''SDCLK'', CHR ''G'', 8), (''SDNRAS'', CHR ''F'', 11), (''SDNCAS'', CHR ''G'', 15),
      (''SDNWE_PC0'', CHR ''C'', 0), (''SDNWE_PH5'', CHR ''H'', 5),
      (''SDCKE0'', CHR ''H'', 2), (''SDNE0'', CHR ''H'', 3)]"

definition configured_pins :: "(nat \<times> nat) list" where
  "configured_pins = concat (map (\<lambda>(port, pmask). map (\<lambda>pin. (unat port, pin)) (filter (\<lambda>pin. pmask AND push_bit pin 1 \<noteq> 0) [0..<16])) FMC_PINS)"

definition signal_pins :: "(nat \<times> nat) list" where
  "signal_pins = map (\<lambda>(_, port, pin). (of_char port - 65, pin)) GROUND_TRUTH"

section \<open>The bring-up\<close>

datatype bus_event = Wr u32 u32 | Ready | Timed_out | Delay u32

record bus =
  b_regs :: "u32 \<Rightarrow> u32"
  b_sdsr :: "nat \<Rightarrow> u32"
  b_polls :: nat
  b_trace :: "bus_event list"

definition bus_write :: "u32 \<Rightarrow> u32 \<Rightarrow> bus \<Rightarrow> bus" where
  "bus_write a v b = b\<lparr>b_regs := (b_regs b)(a := v), b_trace := b_trace b @ [Wr a v]\<rparr>"

definition RCC_D1CCIPR :: u32 where "RCC_D1CCIPR = 0x58024400 + 0x4C"
definition RCC_AHB3ENR :: u32 where "RCC_AHB3ENR = 0x58024400 + 0xD4"
definition RCC_AHB4ENR :: u32 where "RCC_AHB4ENR = 0x58024400 + 0xE0"
definition FMC_BCR1 :: u32 where "FMC_BCR1 = 0x52004000"
definition FMC_SDCR1 :: u32 where "FMC_SDCR1 = 0x52004000 + 0x140"
definition FMC_SDTR1 :: u32 where "FMC_SDTR1 = 0x52004000 + 0x148"
definition FMC_SDCMR :: u32 where "FMC_SDCMR = 0x52004000 + 0x150"
definition FMC_SDRTR :: u32 where "FMC_SDRTR = 0x52004000 + 0x154"
definition GPIO_BASE :: u32 where "GPIO_BASE = 0x58020000"
definition GPIO_STRIDE :: u32 where "GPIO_STRIDE = 0x400"

definition af12_pin :: "u32 \<Rightarrow> nat \<Rightarrow> bus \<Rightarrow> bus" where
  "af12_pin port pin b =
     (let base = GPIO_BASE + port * GPIO_STRIDE;
          two = pin * 2;
          b = bus_write base ((b_regs b base AND NOT (push_bit two 3)) OR push_bit two 2) b;
          b = bus_write (base + 0x08) (b_regs b (base + 0x08) OR push_bit two 3) b;
          b = bus_write (base + 0x0C) (b_regs b (base + 0x0C) AND NOT (push_bit two 3)) b
      in if pin < 8
         then let four = pin * 4 in
           bus_write (base + 0x20) ((b_regs b (base + 0x20) AND NOT (push_bit four 0xF)) OR push_bit four 12) b
         else let four = (pin - 8) * 4 in
           bus_write (base + 0x24) ((b_regs b (base + 0x24) AND NOT (push_bit four 0xF)) OR push_bit four 12) b)"

definition configure_af12 :: "u32 \<Rightarrow> u16 \<Rightarrow> bus \<Rightarrow> bus" where
  "configure_af12 port pmask b = fold (\<lambda>pin b. if pmask AND push_bit pin 1 = 0 then b else af12_pin port pin b) [0..<16] b"

fun wait_loop :: "nat \<Rightarrow> bus \<Rightarrow> bus" where
  "wait_loop 0 b = b\<lparr>b_trace := b_trace b @ [Timed_out]\<rparr>"
| "wait_loop (Suc n) b =
     (let v = b_sdsr b (b_polls b); b = b\<lparr>b_polls := b_polls b + 1\<rparr> in
      if v AND push_bit 5 1 = 0 then b\<lparr>b_trace := b_trace b @ [Ready]\<rparr> else wait_loop n b)"

definition wait_fmc_ready :: "bus \<Rightarrow> bus" where
  "wait_fmc_ready b = wait_loop 1000000 b"

definition route_fmc_to_pll2r :: "bus \<Rightarrow> bus" where
  "route_fmc_to_pll2r b = bus_write RCC_D1CCIPR ((b_regs b RCC_D1CCIPR AND NOT 3) OR 2) b"

definition settle_us :: "u32 \<Rightarrow> bus \<Rightarrow> bus" where
  "settle_us us b = b\<lparr>b_trace := b_trace b @ [Delay us]\<rparr>"

definition CTB1 :: u32 where "CTB1 = push_bit 4 1"

definition enable_clocks :: "bus \<Rightarrow> bus" where
  "enable_clocks b =
     (let gpio_mask = push_bit 2 1 OR push_bit 3 1 OR push_bit 4 1 OR push_bit 5 1 OR push_bit 6 1 OR push_bit 7 1 OR push_bit 8 1;
          b = bus_write RCC_AHB4ENR (b_regs b RCC_AHB4ENR OR gpio_mask) b
      in bus_write RCC_AHB3ENR (b_regs b RCC_AHB3ENR OR push_bit 12 1) b)"

definition program_controller :: "bus \<Rightarrow> bus" where
  "program_controller b =
     (let b = bus_write FMC_SDCR1 (sdcr1 SEED) b;
          b = bus_write FMC_SDTR1 (sdtr1 SEED) b
      in bus_write FMC_BCR1 ((b_regs b FMC_BCR1 AND NOT 1) OR push_bit 31 1) b)"

definition power_up :: "bus \<Rightarrow> bus" where
  "power_up b =
     (let b = bus_write FMC_SDCMR (1 OR CTB1) (wait_fmc_ready b);
          b = settle_us 200 b;
          b = bus_write FMC_SDCMR (2 OR CTB1) (wait_fmc_ready b);
          nrfs = push_bit 5 (ucast (auto_refresh_cycles SEED) - 1);
          b = bus_write FMC_SDCMR (3 OR CTB1 OR nrfs) (wait_fmc_ready b);
          b = bus_write FMC_SDCMR (4 OR CTB1 OR sdcmr_mrd SEED) (wait_fmc_ready b);
          b = bus_write FMC_SDRTR (sdrtr SEED) (wait_fmc_ready b)
      in wait_fmc_ready b)"

definition sdram_init :: "bus \<Rightarrow> bus" where
  "sdram_init b =
     power_up (program_controller (route_fmc_to_pll2r
       (fold (\<lambda>(port, pmask). configure_af12 port pmask) FMC_PINS (enable_clocks b))))"

section \<open>The pin table is the board's signal map\<close>

lemma configured_pins_eq:
  "configured_pins =
     [(2, 0)] @ map (Pair 3) [0, 1, 8, 9, 10, 14, 15] @ map (Pair 4) [0, 1, 7, 8, 9, 10, 11, 12, 13, 14, 15] @
     map (Pair 5) [0, 1, 2, 3, 4, 5, 11, 12, 13, 14, 15] @ map (Pair 6) [0, 1, 2, 4, 5, 8, 15] @
     map (Pair 7) [2, 3, 5, 8, 9, 10, 11, 12, 13, 14, 15] @ map (Pair 8) [0, 1, 2, 3, 4, 5, 6, 7, 9, 10]"
  by code_simp

lemma signal_pins_eq: "set signal_pins = set configured_pins"
  by code_simp

section \<open>What the pin loop does to a pin\<close>

text \<open>Field \<open>q\<close> of \<open>k\<close> bits; the address of a port's register; a pin's mode, speed, pull and
  alternate function.\<close>

definition field :: "u32 \<Rightarrow> nat \<Rightarrow> nat \<Rightarrow> u32" where
  "field w k q = take_bit k (drop_bit (k * q) w)"

definition gpio_reg :: "u32 \<Rightarrow> u32 \<Rightarrow> u32" where
  "gpio_reg p off = GPIO_BASE + p * GPIO_STRIDE + off"

definition pin_state :: "(u32 \<Rightarrow> u32) \<Rightarrow> u32 \<Rightarrow> nat \<Rightarrow> u32 \<times> u32 \<times> u32 \<times> u32" where
  "pin_state regs p q =
     (field (regs (gpio_reg p 0)) 2 q, field (regs (gpio_reg p 8)) 2 q, field (regs (gpio_reg p 0xC)) 2 q,
      field (regs (gpio_reg p (if q < 8 then 0x20 else 0x24))) 4 (q mod 8))"

lemma bit_field: "bit (field w k q) n \<longleftrightarrow> n < k \<and> bit w (k * q + n)"
  by (auto simp: field_def bit_simps)

lemma field_put:
  assumes "k * Suc q \<le> 32" "k * Suc q' \<le> 32" "take_bit k v = v"
  shows "field ((w AND NOT (push_bit (k * q) (mask k))) OR push_bit (k * q) v) k q' = (if q' = q then v else field w k q')"
proof (rule bit_word_eqI)
  fix n assume "n < LENGTH(32)"
  have v: "bit v m \<longleftrightarrow> m < k \<and> bit v m" for m
    using assms(3) by (metis bit_take_bit_iff)
  have lt: "q < q' \<Longrightarrow> k * q + k \<le> k * q'" "q' < q \<Longrightarrow> k * q' + k \<le> k * q"
    by (metis Suc_leI mult_Suc_right mult_le_mono2 add.commute)+
  show "bit (field ((w AND NOT (push_bit (k * q) (mask k))) OR push_bit (k * q) v) k q') n \<longleftrightarrow>
      bit (if q' = q then v else field w k q') n"
  proof (cases "q' = q")
    case True
    have "n < k \<Longrightarrow> k * q + n < 32" using assms(1) by simp
    then show ?thesis using True v [of n] by (auto simp: bit_field bit_simps)
  next
    case False
    then consider "q < q'" | "q' < q" by linarith
    then show ?thesis
    proof cases
      case 1
      then have "\<not> (k * q' + n - k * q < k)" using lt(1) by linarith
      then show ?thesis using 1 v [of "k * q' + n - k * q"] assms(2) by (auto simp: bit_field bit_simps)
    next
      case 2
      then have "n < k \<Longrightarrow> k * q' + n < k * q" using lt(2) by linarith
      then show ?thesis using 2 assms(2) by (auto simp: bit_field bit_simps)
    qed
  qed
qed

lemma masks: "mask 2 = (3 :: u32)" "mask 4 = (0xF :: u32)"
  by (simp_all add: mask_eq_exp_minus_1)

lemma field2_put: "q < 16 \<Longrightarrow> q' < 16 \<Longrightarrow>
    field ((w AND NOT (push_bit (q * 2) 3)) OR push_bit (q * 2) 2) 2 q' = (if q' = q then 2 else field w 2 q')"
  using field_put [of 2 q q' 2 w] unfolding masks by (simp add: mult.commute take_bit_eq_mod)

lemma field2_clear: "q < 16 \<Longrightarrow> q' < 16 \<Longrightarrow>
    field (w AND NOT (push_bit (q * 2) 3)) 2 q' = (if q' = q then 0 else field w 2 q')"
  using field_put [of 2 q q' 0 w] unfolding masks by (simp add: mult.commute)

lemma or_put: "w OR push_bit n m = (w AND NOT (push_bit n m)) OR push_bit n (m :: u32)"
  by (rule bit_word_eqI) (auto simp: bit_simps)

lemma field2_set: "q < 16 \<Longrightarrow> q' < 16 \<Longrightarrow>
    field (w OR push_bit (q * 2) 3) 2 q' = (if q' = q then 3 else field w 2 q')"
  using field_put [of 2 q q' 3 w] unfolding masks or_put [of w "q * 2" 3]
  by (simp add: mult.commute take_bit_eq_mod)

lemma field4_put: "q < 8 \<Longrightarrow> q' < 8 \<Longrightarrow>
    field ((w AND NOT (push_bit (q * 4) 0xF)) OR push_bit (q * 4) 12) 4 q' = (if q' = q then 12 else field w 4 q')"
  using field_put [of 4 q q' 12 w] unfolding masks by (simp add: mult.commute take_bit_eq_mod)

lemma unat_gpio_reg: "unat p < 11 \<Longrightarrow> unat off < 1024 \<Longrightarrow> unat (gpio_reg p off) = 0x58020000 + unat p * 1024 + unat off"
  by (simp add: gpio_reg_def GPIO_BASE_def GPIO_STRIDE_def unat_word_ariths)

lemma gpio_reg_eq:
  assumes "unat p < 11" "unat p' < 11" "unat off < 1024" "unat off' < 1024"
  shows "gpio_reg p off = gpio_reg p' off' \<longleftrightarrow> p = p' \<and> off = off'"
proof
  assume "gpio_reg p off = gpio_reg p' off'"
  then have "unat p * 1024 + unat off = unat p' * 1024 + unat off'"
    using unat_gpio_reg [of p off] unat_gpio_reg [of p' off'] assms by simp
  moreover from this have "unat p = unat p'" using assms by linarith
  ultimately have "unat p = unat p'" "unat off = unat off'" by linarith+
  then show "p = p' \<and> off = off'" by (simp add: word_unat_eq_iff)
qed simp

lemma gpio_reg_neq [simp]:
  "unat p < 11 \<Longrightarrow> unat p' < 11 \<Longrightarrow> p \<noteq> p' \<Longrightarrow> unat off < 1024 \<Longrightarrow> unat off' < 1024 \<Longrightarrow> gpio_reg p off \<noteq> gpio_reg p' off'"
  "unat p < 11 \<Longrightarrow> unat p' < 11 \<Longrightarrow> off \<noteq> off' \<Longrightarrow> unat off < 1024 \<Longrightarrow> unat off' < 1024 \<Longrightarrow> gpio_reg p off \<noteq> gpio_reg p' off'"
  by (simp_all add: gpio_reg_eq)

definition in_gpio :: "u32 \<Rightarrow> bool" where
  "in_gpio a \<longleftrightarrow> 0x58020000 \<le> unat a \<and> unat a < 0x58022C00"

lemma in_gpio_reg: "unat p < 11 \<Longrightarrow> unat off < 1024 \<Longrightarrow> in_gpio (gpio_reg p off)"
  by (simp add: in_gpio_def unat_gpio_reg)

lemma pin_state_other:
  assumes "\<not> in_gpio a" "unat p < 11"
  shows "pin_state (regs(a := v)) p q = pin_state regs p q"
proof -
  have "gpio_reg p off \<noteq> a" if "unat off < 1024" for off
    using in_gpio_reg [OF assms(2) that] assms(1) by auto
  then show ?thesis by (simp add: pin_state_def)
qed

lemma b_regs_write [simp]: "b_regs (bus_write a v b) = (b_regs b)(a := v)"
  by (simp add: bus_write_def)

lemma af12_regs:
  assumes "unat p < 11" "q < 16"
  shows "b_regs (af12_pin p q b) = (b_regs b)
    (gpio_reg p 0 := (b_regs b (gpio_reg p 0) AND NOT (push_bit (q * 2) 3)) OR push_bit (q * 2) 2,
     gpio_reg p 8 := b_regs b (gpio_reg p 8) OR push_bit (q * 2) 3,
     gpio_reg p 0xC := b_regs b (gpio_reg p 0xC) AND NOT (push_bit (q * 2) 3),
     gpio_reg p (if q < 8 then 0x20 else 0x24) :=
       (b_regs b (gpio_reg p (if q < 8 then 0x20 else 0x24)) AND NOT (push_bit (q mod 8 * 4) 0xF)) OR
       push_bit (q mod 8 * 4) 12)"
proof -
  have r: "GPIO_BASE + p * GPIO_STRIDE = gpio_reg p 0" "GPIO_BASE + p * GPIO_STRIDE + off = gpio_reg p off" for off
    by (simp_all add: gpio_reg_def)
  have "gpio_reg p 0 + off = gpio_reg p off" for off by (simp add: gpio_reg_def)
  note r = r this
  have q: "q < 8 \<Longrightarrow> q mod 8 = q" "\<not> q < 8 \<Longrightarrow> q mod 8 = q - 8" using assms(2) by (auto simp: le_mod_geq)
  show ?thesis
    unfolding af12_pin_def Let_def r using assms(1) q by (cases "q < 8") simp_all
qed

lemma pin_state_af12:
  assumes "unat p < 11" "unat p' < 11" "q < 16" "q' < 16"
  shows "pin_state (b_regs (af12_pin p q b)) p' q' =
    (if (p', q') = (p, q) then (2, 3, 0, 12) else pin_state (b_regs b) p' q')"
proof (cases "p' = p")
  case False
  then show ?thesis using assms by (simp add: pin_state_def af12_regs)
next
  case True
  have m: "q mod 8 < 8" "q' mod 8 < 8" by simp_all
  have half: "(q < 8) = (q' < 8) \<Longrightarrow> q mod 8 = q' mod 8 \<longleftrightarrow> q = q'"
    using assms(3,4) by (auto simp: le_mod_geq not_less)
  show ?thesis
    using assms half unfolding True pin_state_def af12_regs [OF assms(1,3)]
    by (auto simp: field2_put field2_set field2_clear field4_put m)
qed

lemma pin_state_af12_fold:
  assumes "list_all (\<lambda>(p, q). unat p < 11 \<and> q < 16) pqs" "unat p' < 11" "q' < 16"
  shows "pin_state (b_regs (fold (\<lambda>(p, q). af12_pin p q) pqs b)) p' q' =
    (if (p', q') \<in> set pqs then (2, 3, 0, 12) else pin_state (b_regs b) p' q')"
  using assms(1)
proof (induction pqs arbitrary: b)
  case (Cons x pqs)
  obtain p q where x: "x = (p, q)" by fastforce
  show ?case using Cons.IH [of "af12_pin p q b"] Cons.prems assms(2,3) by (auto simp: x pin_state_af12)
qed simp

lemma configure_af12_fold:
  "configure_af12 p m b = fold (\<lambda>(p, q). af12_pin p q) (map (Pair p) (filter (\<lambda>q. m AND push_bit q 1 \<noteq> 0) [0..<16])) b"
proof -
  have "fold (\<lambda>q b. if m AND push_bit q 1 = 0 then b else af12_pin p q b) qs b =
      fold (\<lambda>(p, q). af12_pin p q) (map (Pair p) (filter (\<lambda>q. m AND push_bit q 1 \<noteq> 0) qs)) b" for qs
    by (induction qs arbitrary: b) auto
  then show ?thesis by (simp only: configure_af12_def)
qed

lemma configure_pins_fold:
  "fold (\<lambda>(p, m). configure_af12 p m) pms b =
     fold (\<lambda>(p, q). af12_pin p q) (concat (map (\<lambda>(p, m). map (Pair p) (filter (\<lambda>q. m AND push_bit q 1 \<noteq> 0) [0..<16])) pms)) b"
  by (induction pms arbitrary: b) (auto simp: configure_af12_fold simp del: upt.simps)

lemma fmc_pins_expand:
  "concat (map (\<lambda>(p, m). map (Pair p) (filter (\<lambda>q. m AND push_bit q 1 \<noteq> 0) [0..<16])) FMC_PINS) =
     map (\<lambda>(p, q). (of_nat p, q)) configured_pins"
  by code_simp

lemma configure_all:
  "fold (\<lambda>(p, m). configure_af12 p m) FMC_PINS b =
     fold (\<lambda>(p, q). af12_pin p q) (map (\<lambda>(p, q). (of_nat p, q)) configured_pins) b"
  by (simp only: configure_pins_fold fmc_pins_expand)

lemma wait_loop_regs [simp]: "b_regs (wait_loop n b) = b_regs b"
  by (induction n arbitrary: b) (simp_all add: Let_def)

lemma wait_regs [simp]: "b_regs (wait_fmc_ready b) = b_regs b" "b_regs (settle_us us b) = b_regs b"
  by (simp_all add: wait_fmc_ready_def settle_us_def)

lemmas register_addresses = RCC_D1CCIPR_def RCC_AHB3ENR_def RCC_AHB4ENR_def FMC_BCR1_def FMC_SDCR1_def FMC_SDTR1_def
  FMC_SDCMR_def FMC_SDRTR_def

lemma not_in_gpio [simp]:
  "\<not> in_gpio RCC_D1CCIPR" "\<not> in_gpio RCC_AHB3ENR" "\<not> in_gpio RCC_AHB4ENR" "\<not> in_gpio FMC_BCR1" "\<not> in_gpio FMC_SDCR1"
  "\<not> in_gpio FMC_SDTR1" "\<not> in_gpio FMC_SDCMR" "\<not> in_gpio FMC_SDRTR"
  by (simp_all add: in_gpio_def register_addresses)

lemma pin_state_frames [simp]:
  assumes "unat p < 11"
  shows "pin_state (b_regs (enable_clocks b)) p q = pin_state (b_regs b) p q"
    "pin_state (b_regs (route_fmc_to_pll2r b)) p q = pin_state (b_regs b) p q"
    "pin_state (b_regs (program_controller b)) p q = pin_state (b_regs b) p q"
    "pin_state (b_regs (power_up b)) p q = pin_state (b_regs b) p q"
  using assms by (simp_all add: enable_clocks_def route_fmc_to_pll2r_def program_controller_def power_up_def Let_def pin_state_other)

text \<open>C35: the SDRAM's pins. Whatever the registers held, after the bring-up every pin the board's
  signal map names is an alternate-function-12 pin at very high speed without pull, and every
  other pin of the eleven ports is configured as it was; the signal map and the pin table agree on
  58 pins.\<close>

theorem sdram_pins_exact:
  assumes "unat p < 11" and "q < 16"
  shows "pin_state (b_regs (sdram_init b)) p q =
      (if (unat p, q) \<in> set signal_pins then (2, 3, 0, 12) else pin_state (b_regs b) p q) \<and>
    set signal_pins = set configured_pins \<and> card (set signal_pins) = 58"
proof -
  have ok: "list_all (\<lambda>(p, q). unat p < 11 \<and> q < 16) (map (\<lambda>(p, q). (of_nat p :: u32, q)) configured_pins)"
    by code_simp
  have mem: "(p, q) \<in> set (map (\<lambda>(p, q). (of_nat p, q)) configured_pins) \<longleftrightarrow> (unat p, q) \<in> set signal_pins"
  proof
    assume "(p, q) \<in> set (map (\<lambda>(p, q). (of_nat p, q)) configured_pins)"
    then obtain n where n: "(n, q) \<in> set configured_pins" "p = of_nat n" by auto
    have "list_all (\<lambda>(n, q). n < 11) configured_pins" by code_simp
    then have "n < 11" using n(1) by (auto simp: list_all_iff)
    then have "unat p = n" using n(2) by (simp add: unsigned_of_nat take_bit_eq_mod)
    then show "(unat p, q) \<in> set signal_pins" using n(1) by (simp add: signal_pins_eq)
  next
    assume "(unat p, q) \<in> set signal_pins"
    then show "(p, q) \<in> set (map (\<lambda>(p, q). (of_nat p, q)) configured_pins)"
      by (force simp: signal_pins_eq)
  qed
  have "card (set signal_pins) = 58" unfolding signal_pins_eq configured_pins_eq by simp
  then show ?thesis
    using assms pin_state_af12_fold [OF ok assms, of "enable_clocks b"] mem signal_pins_eq
    by (simp add: sdram_init_def configure_all)
qed

lemma sdram_pins_exact_witness:
  "pin_state (b_regs (sdram_init \<lparr>b_regs = (\<lambda>a. 0), b_sdsr = (\<lambda>n. 0), b_polls = 0, b_trace = []\<rparr>)) 7 5 = (2, 3, 0, 12)"
proof -
  have "(7, 5) \<in> set signal_pins" unfolding signal_pins_eq configured_pins_eq by simp
  then show ?thesis
    using sdram_pins_exact [of 7 5 "\<lparr>b_regs = (\<lambda>a. 0), b_sdsr = (\<lambda>n. 0), b_polls = 0, b_trace = []\<rparr>"] by simp
qed

section \<open>The sequence of writes\<close>

lemma bus_write_frame [simp]:
  "b_trace (bus_write a v b) = b_trace b @ [Wr a v]" "b_polls (bus_write a v b) = b_polls b" "b_sdsr (bus_write a v b) = b_sdsr b"
  by (simp_all add: bus_write_def)

lemma settle_frame [simp]:
  "b_trace (settle_us u b) = b_trace b @ [Delay u]" "b_polls (settle_us u b) = b_polls b" "b_sdsr (settle_us u b) = b_sdsr b"
  by (simp_all add: settle_us_def)

definition idle_fmc :: "bus \<Rightarrow> bool" where
  "idle_fmc b \<longleftrightarrow> (\<forall>n. b_sdsr b n AND push_bit 5 1 = 0)"

lemma wait_loop_spec:
  "\<exists>w\<in>{Ready, Timed_out}. b_trace (wait_loop n b) = b_trace b @ [w] \<and> (idle_fmc b \<and> 0 < n \<longrightarrow> w = Ready) \<and>
     b_polls (wait_loop n b) \<le> b_polls b + n \<and> b_sdsr (wait_loop n b) = b_sdsr b"
proof (induction n arbitrary: b)
  case (Suc n)
  show ?case
  proof (cases "b_sdsr b (b_polls b) AND push_bit 5 1 = 0")
    case False
    then have "\<not> idle_fmc b" by (auto simp: idle_fmc_def)
    then show ?thesis using False Suc [of "b\<lparr>b_polls := b_polls b + 1\<rparr>"] by (auto simp: Let_def)
  qed (simp add: Let_def)
qed simp

lemma wait_spec:
  "\<exists>w. w \<in> {Ready, Timed_out} \<and> b_trace (wait_fmc_ready b) = b_trace b @ [w] \<and> (idle_fmc b \<longrightarrow> w = Ready) \<and>
     b_polls (wait_fmc_ready b) \<le> b_polls b + 1000000"
  using wait_loop_spec [of 1000000 b] unfolding wait_fmc_ready_def by auto

lemma wait_sdsr [simp]: "b_sdsr (wait_fmc_ready b) = b_sdsr b"
  using wait_loop_spec [of 1000000 b] unfolding wait_fmc_ready_def by auto

lemma idle_frames [simp]:
  "idle_fmc (bus_write a v b) = idle_fmc b" "idle_fmc (settle_us u b) = idle_fmc b" "idle_fmc (wait_fmc_ready b) = idle_fmc b"
  by (simp_all add: idle_fmc_def)

definition gpio_write :: "bus_event \<Rightarrow> bool" where
  "gpio_write e \<longleftrightarrow> (case e of Wr a v \<Rightarrow> in_gpio a | _ \<Rightarrow> False)"

lemma af12_pin_frame:
  assumes "unat p < 11"
  shows "\<exists>g. b_trace (af12_pin p q b) = b_trace b @ g \<and> list_all gpio_write g"
    "b_polls (af12_pin p q b) = b_polls b" "b_sdsr (af12_pin p q b) = b_sdsr b"
    "\<not> in_gpio a \<Longrightarrow> b_regs (af12_pin p q b) a = b_regs b a"
proof -
  have r: "GPIO_BASE + p * GPIO_STRIDE = gpio_reg p 0" "gpio_reg p 0 + off = gpio_reg p off" for off
    by (simp_all add: gpio_reg_def)
  have g: "in_gpio (gpio_reg p off)" if "unat off < 1024" for off using assms that by (rule in_gpio_reg)
  have n: "\<not> in_gpio a \<Longrightarrow> unat off < 1024 \<Longrightarrow> a \<noteq> gpio_reg p off" for off a using g by auto
  show "\<exists>g. b_trace (af12_pin p q b) = b_trace b @ g \<and> list_all gpio_write g"
    unfolding af12_pin_def Let_def r by (cases "q < 8") (simp_all add: gpio_write_def g)
  show "b_polls (af12_pin p q b) = b_polls b" "b_sdsr (af12_pin p q b) = b_sdsr b"
    by (simp_all add: af12_pin_def Let_def)
  show "\<not> in_gpio a \<Longrightarrow> b_regs (af12_pin p q b) a = b_regs b a"
    unfolding af12_pin_def Let_def r by (cases "q < 8") (simp_all add: n)
qed

lemma af12_fold_frame:
  assumes "list_all (\<lambda>(p, q). unat p < 11) pqs"
  shows "\<exists>g. b_trace (fold (\<lambda>(p, q). af12_pin p q) pqs b) = b_trace b @ g \<and> list_all gpio_write g"
    "b_polls (fold (\<lambda>(p, q). af12_pin p q) pqs b) = b_polls b"
    "b_sdsr (fold (\<lambda>(p, q). af12_pin p q) pqs b) = b_sdsr b"
    "\<not> in_gpio a \<Longrightarrow> b_regs (fold (\<lambda>(p, q). af12_pin p q) pqs b) a = b_regs b a"
proof -
  show "b_polls (fold (\<lambda>(p, q). af12_pin p q) pqs b) = b_polls b"
    "b_sdsr (fold (\<lambda>(p, q). af12_pin p q) pqs b) = b_sdsr b"
    "\<not> in_gpio a \<Longrightarrow> b_regs (fold (\<lambda>(p, q). af12_pin p q) pqs b) a = b_regs b a"
    using assms by (induction pqs arbitrary: b) (auto simp: af12_pin_frame split: prod.splits)
  show "\<exists>g. b_trace (fold (\<lambda>(p, q). af12_pin p q) pqs b) = b_trace b @ g \<and> list_all gpio_write g"
    using assms
  proof (induction pqs arbitrary: b)
    case (Cons x pqs)
    obtain p q where x: "x = (p, q)" by fastforce
    obtain g1 where g1: "b_trace (af12_pin p q b) = b_trace b @ g1" "list_all gpio_write g1"
      using af12_pin_frame(1) [of p q b] Cons.prems x by auto
    obtain g2 where "b_trace (fold (\<lambda>(p, q). af12_pin p q) pqs (af12_pin p q b)) = b_trace (af12_pin p q b) @ g2" "list_all gpio_write g2"
      using Cons.IH [of "af12_pin p q b"] Cons.prems by auto
    then show ?case using g1 by (intro exI [of _ "g1 @ g2"]) (simp add: x)
  qed simp
qed

lemma seed_registers:
  "sdcr1 SEED = 0x19E9" "sdtr1 SEED = 0x09F27461" "sdcmr_mrd SEED = 0x46400" "sdrtr SEED = 0x5F2"
  "push_bit 5 (ucast (auto_refresh_cycles SEED) - 1) = (0x60 :: u32)"
  by code_simp+

lemma power_up_trace:
  "\<exists>w1 w2 w3 w4 w5 w6. {w1, w2, w3, w4, w5, w6} \<subseteq> {Ready, Timed_out} \<and>
     (idle_fmc b \<longrightarrow> {w1, w2, w3, w4, w5, w6} = {Ready}) \<and>
     b_trace (power_up b) = b_trace b @
       [w1, Wr FMC_SDCMR 0x11, Delay 200, w2, Wr FMC_SDCMR 0x12, w3, Wr FMC_SDCMR 0x73, w4, Wr FMC_SDCMR 0x46414,
        w5, Wr FMC_SDRTR 0x5F2, w6] \<and>
     b_polls (power_up b) \<le> b_polls b + 6000000"
proof -
  let ?b1 = "settle_us 200 (bus_write FMC_SDCMR 0x11 (wait_fmc_ready b))"
  let ?b2 = "bus_write FMC_SDCMR 0x12 (wait_fmc_ready ?b1)"
  let ?b3 = "bus_write FMC_SDCMR 0x73 (wait_fmc_ready ?b2)"
  let ?b4 = "bus_write FMC_SDCMR 0x46414 (wait_fmc_ready ?b3)"
  let ?b5 = "bus_write FMC_SDRTR 0x5F2 (wait_fmc_ready ?b4)"
  have p: "power_up b = wait_fmc_ready ?b5"
    by (simp add: power_up_def Let_def seed_registers CTB1_def)
  obtain w1 where w1: "w1 \<in> {Ready, Timed_out}" "b_trace (wait_fmc_ready b) = b_trace b @ [w1]" "idle_fmc b \<longrightarrow> w1 = Ready"
    "b_polls (wait_fmc_ready b) \<le> b_polls b + 1000000" using wait_spec [of "b"] by blast
  obtain w2 where w2: "w2 \<in> {Ready, Timed_out}" "b_trace (wait_fmc_ready ?b1) = b_trace ?b1 @ [w2]" "idle_fmc ?b1 \<longrightarrow> w2 = Ready"
    "b_polls (wait_fmc_ready ?b1) \<le> b_polls ?b1 + 1000000" using wait_spec [of "?b1"] by blast
  obtain w3 where w3: "w3 \<in> {Ready, Timed_out}" "b_trace (wait_fmc_ready ?b2) = b_trace ?b2 @ [w3]" "idle_fmc ?b2 \<longrightarrow> w3 = Ready"
    "b_polls (wait_fmc_ready ?b2) \<le> b_polls ?b2 + 1000000" using wait_spec [of "?b2"] by blast
  obtain w4 where w4: "w4 \<in> {Ready, Timed_out}" "b_trace (wait_fmc_ready ?b3) = b_trace ?b3 @ [w4]" "idle_fmc ?b3 \<longrightarrow> w4 = Ready"
    "b_polls (wait_fmc_ready ?b3) \<le> b_polls ?b3 + 1000000" using wait_spec [of "?b3"] by blast
  obtain w5 where w5: "w5 \<in> {Ready, Timed_out}" "b_trace (wait_fmc_ready ?b4) = b_trace ?b4 @ [w5]" "idle_fmc ?b4 \<longrightarrow> w5 = Ready"
    "b_polls (wait_fmc_ready ?b4) \<le> b_polls ?b4 + 1000000" using wait_spec [of "?b4"] by blast
  obtain w6 where w6: "w6 \<in> {Ready, Timed_out}" "b_trace (wait_fmc_ready ?b5) = b_trace ?b5 @ [w6]" "idle_fmc ?b5 \<longrightarrow> w6 = Ready"
    "b_polls (wait_fmc_ready ?b5) \<le> b_polls ?b5 + 1000000" using wait_spec [of "?b5"] by blast
  have "b_trace (power_up b) = b_trace b @
       [w1, Wr FMC_SDCMR 0x11, Delay 200, w2, Wr FMC_SDCMR 0x12, w3, Wr FMC_SDCMR 0x73, w4, Wr FMC_SDCMR 0x46414,
        w5, Wr FMC_SDRTR 0x5F2, w6]"
    unfolding p w6(2) by (simp add: w1(2) w2(2) w3(2) w4(2) w5(2))
  moreover have "b_polls (power_up b) \<le> b_polls b + 6000000"
  proof -
    have "b_polls ?b1 = b_polls (wait_fmc_ready b)" "b_polls ?b2 = b_polls (wait_fmc_ready ?b1)"
      "b_polls ?b3 = b_polls (wait_fmc_ready ?b2)" "b_polls ?b4 = b_polls (wait_fmc_ready ?b3)"
      "b_polls ?b5 = b_polls (wait_fmc_ready ?b4)" by simp_all
    then show ?thesis unfolding p using w1(4) w2(4) w3(4) w4(4) w5(4) w6(4) by linarith
  qed
  moreover have "idle_fmc b \<longrightarrow> {w1, w2, w3, w4, w5, w6} = {Ready}"
    using w1(3) w2(3) w3(3) w4(3) w5(3) w6(3) by (simp only: idle_frames) blast
  moreover have "{w1, w2, w3, w4, w5, w6} \<subseteq> {Ready, Timed_out}"
    using w1(1) w2(1) w3(1) w4(1) w5(1) w6(1) by blast
  ultimately show ?thesis by - (intro exI conjI; assumption)
qed

lemma configured_ports: "list_all (\<lambda>(p, q). unat p < 11) (map (\<lambda>(p, q). (of_nat p :: u32, q)) configured_pins)"
  by code_simp

text \<open>C36: the order of the bring-up. From any registers and whatever the controller's busy flag
  does, the bring-up returns after at most six million polls, having written exactly this: the
  port and controller clocks, the pins, the kernel clock selection, control and timing, the
  controller enable, and then the JEDEC sequence (clock on, 200 microseconds, precharge all, four
  auto-refreshes, the mode register 0x232, the refresh timer), each command after a wait for the
  controller, which is Ready unless the flag never clears; other bits of the shared registers are
  kept.\<close>

theorem sdram_init_sequence:
  "\<exists>gpio w1 w2 w3 w4 w5 w6. list_all gpio_write gpio \<and> {w1, w2, w3, w4, w5, w6} \<subseteq> {Ready, Timed_out} \<and>
     (idle_fmc b \<longrightarrow> {w1, w2, w3, w4, w5, w6} = {Ready}) \<and> b_polls (sdram_init b) \<le> b_polls b + 6000000 \<and>
     b_trace (sdram_init b) = b_trace b @
       [Wr RCC_AHB4ENR (b_regs b RCC_AHB4ENR OR 0x1FC), Wr RCC_AHB3ENR (b_regs b RCC_AHB3ENR OR 0x1000)] @ gpio @
       [Wr RCC_D1CCIPR ((b_regs b RCC_D1CCIPR AND NOT 3) OR 2), Wr FMC_SDCR1 0x19E9, Wr FMC_SDTR1 0x09F27461,
        Wr FMC_BCR1 ((b_regs b FMC_BCR1 AND NOT 1) OR 0x80000000),
        w1, Wr FMC_SDCMR 0x11, Delay 200, w2, Wr FMC_SDCMR 0x12, w3, Wr FMC_SDCMR 0x73, w4, Wr FMC_SDCMR 0x46414,
        w5, Wr FMC_SDRTR 0x5F2, w6]"
proof -
  let ?e = "enable_clocks b"
  let ?g = "fold (\<lambda>(p, q). af12_pin p q) (map (\<lambda>(p, q). (of_nat p, q)) configured_pins) ?e"
  let ?c = "program_controller (route_fmc_to_pll2r ?g)"
  note fr = af12_fold_frame [OF configured_ports, where b = ?e]
  obtain gpio where gpio: "b_trace ?g = b_trace ?e @ gpio" "list_all gpio_write gpio" using fr(1) by blast
  have e: "b_trace ?e = b_trace b @ [Wr RCC_AHB4ENR (b_regs b RCC_AHB4ENR OR 0x1FC), Wr RCC_AHB3ENR (b_regs b RCC_AHB3ENR OR 0x1000)]"
    "b_polls ?e = b_polls b" "b_sdsr ?e = b_sdsr b" "b_regs ?e RCC_D1CCIPR = b_regs b RCC_D1CCIPR" "b_regs ?e FMC_BCR1 = b_regs b FMC_BCR1"
    by (simp_all add: enable_clocks_def Let_def register_addresses)
  have c: "b_trace ?c = b_trace ?g @ [Wr RCC_D1CCIPR ((b_regs ?g RCC_D1CCIPR AND NOT 3) OR 2), Wr FMC_SDCR1 0x19E9,
      Wr FMC_SDTR1 0x09F27461, Wr FMC_BCR1 ((b_regs ?g FMC_BCR1 AND NOT 1) OR 0x80000000)]"
    "b_polls ?c = b_polls ?g" "b_sdsr ?c = b_sdsr ?g"
    by (simp_all add: program_controller_def route_fmc_to_pll2r_def Let_def seed_registers register_addresses)
  have same: "b_regs ?g RCC_D1CCIPR = b_regs b RCC_D1CCIPR" "b_regs ?g FMC_BCR1 = b_regs b FMC_BCR1"
    "b_polls ?c = b_polls b" "idle_fmc ?c = idle_fmc b"
    using fr(2,3,4) e c by (simp_all add: idle_fmc_def)
  have i: "sdram_init b = power_up ?c" by (simp add: sdram_init_def configure_all)
  obtain w1 w2 w3 w4 w5 w6 where w: "{w1, w2, w3, w4, w5, w6} \<subseteq> {Ready, Timed_out}" "idle_fmc ?c \<longrightarrow> {w1, w2, w3, w4, w5, w6} = {Ready}"
    "b_trace (power_up ?c) = b_trace ?c @
       [w1, Wr FMC_SDCMR 0x11, Delay 200, w2, Wr FMC_SDCMR 0x12, w3, Wr FMC_SDCMR 0x73, w4, Wr FMC_SDCMR 0x46414,
        w5, Wr FMC_SDRTR 0x5F2, w6]" "b_polls (power_up ?c) \<le> b_polls ?c + 6000000"
    using power_up_trace [of ?c] by (elim exE conjE) (rule that)
  have "b_trace (sdram_init b) = b_trace b @
       [Wr RCC_AHB4ENR (b_regs b RCC_AHB4ENR OR 0x1FC), Wr RCC_AHB3ENR (b_regs b RCC_AHB3ENR OR 0x1000)] @ gpio @
       [Wr RCC_D1CCIPR ((b_regs b RCC_D1CCIPR AND NOT 3) OR 2), Wr FMC_SDCR1 0x19E9, Wr FMC_SDTR1 0x09F27461,
        Wr FMC_BCR1 ((b_regs b FMC_BCR1 AND NOT 1) OR 0x80000000),
        w1, Wr FMC_SDCMR 0x11, Delay 200, w2, Wr FMC_SDCMR 0x12, w3, Wr FMC_SDCMR 0x73, w4, Wr FMC_SDCMR 0x46414,
        w5, Wr FMC_SDRTR 0x5F2, w6]"
    unfolding i w(3) c(1) gpio(1) e(1) same(1,2) by simp
  moreover have "b_polls (sdram_init b) \<le> b_polls b + 6000000" unfolding i using w(4) same(3) by linarith
  moreover have "idle_fmc b \<longrightarrow> {w1, w2, w3, w4, w5, w6} = {Ready}" using w(2) unfolding same(4) .
  ultimately show ?thesis using w(1) gpio(2) by - (intro exI conjI; assumption)
qed

lemma sdram_init_sequence_witness:
  "\<exists>g. list_all gpio_write g \<and> b_trace (sdram_init \<lparr>b_regs = (\<lambda>a. 0), b_sdsr = (\<lambda>n. 0), b_polls = 0, b_trace = []\<rparr>) =
     [Wr RCC_AHB4ENR 0x1FC, Wr RCC_AHB3ENR 0x1000] @ g @
     [Wr RCC_D1CCIPR 2, Wr FMC_SDCR1 0x19E9, Wr FMC_SDTR1 0x09F27461, Wr FMC_BCR1 0x80000000,
      Ready, Wr FMC_SDCMR 0x11, Delay 200, Ready, Wr FMC_SDCMR 0x12, Ready, Wr FMC_SDCMR 0x73, Ready, Wr FMC_SDCMR 0x46414,
      Ready, Wr FMC_SDRTR 0x5F2, Ready]"
proof -
  let ?b = "\<lparr>b_regs = (\<lambda>a. 0), b_sdsr = (\<lambda>n. 0), b_polls = 0, b_trace = []\<rparr> :: bus"
  have "idle_fmc ?b" by (simp add: idle_fmc_def)
  moreover have "b_regs ?b a = 0" "b_trace ?b = []" for a by simp_all
  ultimately show ?thesis
    using sdram_init_sequence [of ?b]
    by (elim exE conjE) (rule exI, rule conjI, assumption, simp)
qed

end
