(* ===== verification/Audio_Isr.thy ===== *)
theory Audio_Isr
  imports Usb_Audio
begin

text \<open>
  \<open>crates/daisy-audio\<close>: the codec table of \<open>src/codec.rs\<close>, and of \<open>src/lib.rs\<close> the choice and
  initialisation of the codec in \<open>Audio::new\<close> and the DMA interrupt \<open>DMA1_STR1\<close> that converts a
  captured half of the ring, runs the callback and fills the matching half of the output ring.
  What \<open>new\<close> does to the control pin and the I2C bus is a trace; the SAI and DMA set-up is the
  HAL's. Floating-point arithmetic is the parameter of \<open>Usb_Audio\<close>, with the conversion to i32
  beside it; the callback is a function from the input and output blocks to the output block.
\<close>

section \<open>Codecs\<close>

datatype codec = Ak4556 | Wm8731 | Pcm3060 | Tac5242

definition from_straps :: "bool \<Rightarrow> bool \<Rightarrow> codec" where
  "from_straps pd3_low pd4_low = (if pd3_low then Wm8731 else if pd4_low then Pcm3060 else Ak4556)"

definition codec_bits :: "codec \<Rightarrow> nat" where
  "codec_bits c = (case c of Tac5242 \<Rightarrow> 32 | _ \<Rightarrow> 24)"

definition codec_scale :: "codec \<Rightarrow> int" where
  "codec_scale c = (case c of Tac5242 \<Rightarrow> 2147483648 | _ \<Rightarrow> 8388608)"

definition a_is_rx :: "codec \<Rightarrow> bool" where
  "a_is_rx c = (case c of Wm8731 \<Rightarrow> True | _ \<Rightarrow> False)"

definition swap_lr :: "codec \<Rightarrow> bool" where
  "swap_lr c = (case c of Tac5242 \<Rightarrow> True | _ \<Rightarrow> False)"

definition uses_i2c :: "codec \<Rightarrow> bool" where
  "uses_i2c c = (case c of Wm8731 \<Rightarrow> True | _ \<Rightarrow> False)"

definition WM8731_I2C_ADDR :: u8 where "WM8731_I2C_ADDR = 0x1A"

definition wm8731_control_word :: "u8 \<Rightarrow> u16 \<Rightarrow> u8 list" where
  "wm8731_control_word reg v = [push_bit 1 reg OR (ucast (drop_bit 8 v) AND 1), ucast (v AND 0xFF)]"

definition WM8731_INIT :: "(u8 \<times> u16) list" where
  "WM8731_INIT = [(0x0F, 0), (0x06, 0x62), (0x00, 0x17), (0x01, 0x17), (0x04, 0x12), (0x05, 0), (0x07, 0x0A),
     (0x08, 0), (0x09, 1), (0x06, 0x62)]"

section \<open>Choosing and initialising the codec\<close>

datatype codec_event = I2c_write u8 "u8 list" | Ctrl_high | Ctrl_low | Burn u32

record audio_setup =
  au_codec :: codec
  au_scale :: int
  au_swap :: bool
  au_bits :: nat
  au_a_rx :: bool
  au_trace :: "codec_event list"

fun init_wm8731 :: "(u8 \<times> u16) list \<Rightarrow> codec_event list" where
  "init_wm8731 [] = []"
| "init_wm8731 ((reg, v) # prog) = [I2c_write WM8731_I2C_ADDR (wm8731_control_word reg v), Burn 48000] @ init_wm8731 prog"

definition audio_new :: "bool \<Rightarrow> bool \<Rightarrow> audio_setup" where
  "audio_new pd3_low pd4_low =
     (let codec = from_straps pd3_low pd4_low in
      \<lparr>au_codec = codec, au_scale = codec_scale codec, au_swap = swap_lr codec,
       au_bits = (if codec_bits codec = 32 then 32 else 24), au_a_rx = a_is_rx codec,
       au_trace = [Burn 10000] @
         (case codec of
            Wm8731 \<Rightarrow> init_wm8731 WM8731_INIT
          | Ak4556 \<Rightarrow> [Ctrl_high, Burn 480000, Ctrl_low, Burn 480000, Ctrl_high, Burn 480000]
          | Pcm3060 \<Rightarrow> [Ctrl_low]
          | Tac5242 \<Rightarrow> [])\<rparr>)"

definition audio_new_seed3 :: audio_setup where
  "audio_new_seed3 = \<lparr>au_codec = Tac5242, au_scale = codec_scale Tac5242, au_swap = swap_lr Tac5242, au_bits = 32,
     au_a_rx = False, au_trace = [Burn 1000000]\<rparr>"

section \<open>The DMA interrupt\<close>

definition STEREO_BLOCK :: nat where "STEREO_BLOCK = BLOCK_SIZE * 2"
definition DMA_BUFFER_LEN :: nat where "DMA_BUFFER_LEN = STEREO_BLOCK * 2"

record 'f i32_ops = "'f f32_ops" +
  f_to_i32 :: "'f \<Rightarrow> u32"

record 'f dma =
  d_tx :: "u32 list"
  d_rx :: "u32 list"
  d_running :: bool
  d_half :: bool
  d_complete :: bool
  d_callback :: "('f list \<Rightarrow> 'f list \<Rightarrow> 'f list) option"
  d_scale :: 'f
  d_swap :: bool

definition drain :: "'f dma \<Rightarrow> nat option \<times> 'f dma" where
  "drain s =
     (if d_half s then (Some 0, s\<lparr>d_half := False\<rparr>)
      else if d_complete s then (Some STEREO_BLOCK, s\<lparr>d_complete := False\<rparr>)
      else (None, s))"

definition word_in :: "('f, 'm) i32_ops_scheme \<Rightarrow> 'f \<Rightarrow> u32 \<Rightarrow> 'f" where
  "word_in F scale w = f_div F (f_int F (sint w)) scale"

definition word_out :: "('f, 'm) i32_ops_scheme \<Rightarrow> 'f \<Rightarrow> 'f \<Rightarrow> u32" where
  "word_out F scale x = f_to_i32 F (f_mul F x scale)"

fun fill_plain :: "('a \<Rightarrow> 'b) \<Rightarrow> nat \<Rightarrow> nat \<Rightarrow> 'a list \<Rightarrow> nat list \<Rightarrow> 'b list \<Rightarrow> 'b list option" where
  "fill_plain conv roff woff src [] dst = Some dst"
| "fill_plain conv roff woff src (i # is) dst = do {
     x \<leftarrow> idx_get src (roff + i);
     dst \<leftarrow> idx_set dst (woff + i) (conv x);
     fill_plain conv roff woff src is dst
   }"

fun fill_swapped :: "('a \<Rightarrow> 'b) \<Rightarrow> nat \<Rightarrow> nat \<Rightarrow> 'a list \<Rightarrow> nat list \<Rightarrow> 'b list \<Rightarrow> 'b list option" where
  "fill_swapped conv roff woff src [] dst = Some dst"
| "fill_swapped conv roff woff src (frame # frames) dst = do {
     y \<leftarrow> idx_get src (roff + frame * 2 + 1);
     dst \<leftarrow> idx_set dst (woff + frame * 2) (conv y);
     x \<leftarrow> idx_get src (roff + frame * 2);
     dst \<leftarrow> idx_set dst (woff + frame * 2 + 1) (conv x);
     fill_swapped conv roff woff src frames dst
   }"

definition fill_half :: "bool \<Rightarrow> ('a \<Rightarrow> 'b) \<Rightarrow> nat \<Rightarrow> nat \<Rightarrow> 'a list \<Rightarrow> 'b list \<Rightarrow> 'b list option" where
  "fill_half swap conv roff woff src dst =
     (if swap then fill_swapped conv roff woff src [0..<BLOCK_SIZE] dst
      else fill_plain conv roff woff src [0..<STEREO_BLOCK] dst)"

definition dma1_str1 :: "('f, 'm) i32_ops_scheme \<Rightarrow> 'f dma \<Rightarrow> 'f dma option" where
  "dma1_str1 F s =
     (if \<not> d_running s then Some s
      else case drain s of
        (None, s) \<Rightarrow> Some s
      | (Some offset, s) \<Rightarrow> do {
          inp \<leftarrow> fill_half (d_swap s) (word_in F (d_scale s)) offset 0 (d_rx s) (replicate STEREO_BLOCK (f_int F 0));
          let out = (case d_callback s of
              Some cb \<Rightarrow> cb inp (replicate STEREO_BLOCK (f_int F 0))
            | None \<Rightarrow> inp);
          tx \<leftarrow> fill_half (d_swap s) (word_out F (d_scale s)) 0 offset out (d_tx s);
          Some (s\<lparr>d_tx := tx\<rparr>)
        })"

section \<open>The codec table\<close>

lemma codec_scale_bits: "codec_scale c = 2 ^ (codec_bits c - 1)"
  by (cases c) (simp_all add: codec_scale_def codec_bits_def)

text \<open>A control word gives back its register (seven bits) and its value (nine).\<close>

lemma control_word_roundtrip:
  assumes "reg < 0x80" "v < 0x200" "wm8731_control_word reg v = [b0, b1]"
  shows "drop_bit 1 b0 = reg" "push_bit 8 (ucast b0 AND 1) OR ucast b1 = v"
proof -
  have r: "take_bit 7 reg = reg" "take_bit 9 v = v"
    using assms(1,2) by (simp_all add: take_bit_eq_mod word_unat_eq_iff unat_mod_distrib word_less_nat_alt)
  have b: "b0 = push_bit 1 reg OR (ucast (drop_bit 8 v) AND 1)" "b1 = ucast (v AND 0xFF)"
    using assms(3) by (simp_all add: wm8731_control_word_def)
  have one: "x AND 1 = take_bit 1 x" for x :: "'a::len word" by (simp add: and_one_eq take_bit_Suc)
  have ff: "v AND 0xFF = take_bit 8 v" by (simp add: take_bit_eq_mask mask_eq_exp_minus_1)
  have bits: "bit reg n \<Longrightarrow> n < 7" "bit v n \<Longrightarrow> n < 9" for n
    using r by (metis bit_take_bit_iff)+
  show "drop_bit 1 b0 = reg"
  proof (rule bit_word_eqI)
    fix n assume "n < LENGTH(8)"
    then show "bit (drop_bit 1 b0) n \<longleftrightarrow> bit reg n"
      using bits(1) [of n]
      unfolding b one bit_drop_bit_eq o_def bit_or_iff bit_push_bit_iff bit_take_bit_iff
      by (cases "bit reg n") simp_all
  qed
  show "push_bit 8 (ucast b0 AND 1) OR ucast b1 = v"
  proof (rule bit_word_eqI)
    fix n assume "n < LENGTH(16)"
    have z: "bit (ucast b0 :: u16) 0 \<longleftrightarrow> bit v 8"
      unfolding b one bit_ucast_iff bit_or_iff bit_push_bit_iff bit_take_bit_iff bit_drop_bit_eq o_def
      by simp
    have "bit (push_bit 8 (ucast b0 AND 1) OR ucast b1 :: u16) n \<longleftrightarrow>
        8 \<le> n \<and> n < 16 \<and> n - 8 < 1 \<and> bit (ucast b0 :: u16) (n - 8) \<or> n < 8 \<and> bit v n"
      using \<open>n < LENGTH(16)\<close> unfolding one b(2) ff bit_or_iff bit_push_bit_iff bit_take_bit_iff bit_ucast_iff
      by auto
    also have "\<dots> \<longleftrightarrow> n = 8 \<and> bit (ucast b0 :: u16) 0 \<or> n < 8 \<and> bit v n" by auto
    also have "\<dots> \<longleftrightarrow> bit v n" unfolding z using bits(2) [of n] by (cases "n < 8"; cases "n = 8") auto
    finally show "bit (push_bit 8 (ucast b0 AND 1) OR ucast b1 :: u16) n \<longleftrightarrow> bit v n" .
  qed
qed

section \<open>The half that is converted\<close>

text \<open>The other channel of a frame.\<close>

definition sai_slot :: "bool \<Rightarrow> nat \<Rightarrow> nat" where
  "sai_slot swap j = (if swap then if even j then j + 1 else j - 1 else j)"

lemma fill_plain_spec:
  "roff + n \<le> length src \<Longrightarrow> woff + n \<le> length dst \<Longrightarrow> m \<le> n \<Longrightarrow>
     \<exists>dst'. fill_plain conv roff woff src [m..<n] dst = Some dst' \<and> length dst' = length dst \<and>
       (\<forall>k<length dst. dst' ! k = (if woff + m \<le> k \<and> k < woff + n then conv (src ! (roff + (k - woff))) else dst ! k))"
proof (induction "n - m" arbitrary: m dst)
  case 0
  then show ?case by auto
next
  case (Suc d)
  then have mn: "m < n" by simp
  let ?dst = "dst[woff + m := conv (src ! (roff + m))]"
  have "d = n - Suc m" "woff + n \<le> length ?dst" "Suc m \<le> n" using Suc mn by simp_all
  from Suc.hyps(1) [OF this(1) Suc.prems(1) this(2,3)] obtain dst' where
    d: "fill_plain conv roff woff src [Suc m..<n] ?dst = Some dst'" "length dst' = length dst"
    "\<forall>k<length dst. dst' ! k = (if woff + Suc m \<le> k \<and> k < woff + n then conv (src ! (roff + (k - woff))) else ?dst ! k)"
    by auto
  have "fill_plain conv roff woff src [m..<n] dst = Some dst'"
    using d(1) Suc.prems mn by (simp add: upt_conv_Cons)
  moreover have "dst' ! k = (if woff + m \<le> k \<and> k < woff + n then conv (src ! (roff + (k - woff))) else dst ! k)"
    if "k < length dst" for k
  proof -
    consider "k = woff + m" | "k < woff + m" | "woff + Suc m \<le> k" by linarith
    then show ?thesis using d(3) that mn Suc.prems by cases (auto simp: nth_list_update)
  qed
  ultimately show ?case using d(2) by blast
qed

lemma fill_swapped_spec:
  "roff + n * 2 \<le> length src \<Longrightarrow> woff + n * 2 \<le> length dst \<Longrightarrow> m \<le> n \<Longrightarrow>
     \<exists>dst'. fill_swapped conv roff woff src [m..<n] dst = Some dst' \<and> length dst' = length dst \<and>
       (\<forall>k<length dst. dst' ! k = (if woff + m * 2 \<le> k \<and> k < woff + n * 2 then conv (src ! (roff + sai_slot True (k - woff))) else dst ! k))"
proof (induction "n - m" arbitrary: m dst)
  case 0
  then show ?case by auto
next
  case (Suc d)
  then have mn: "m < n" by simp
  let ?dst = "dst[woff + m * 2 := conv (src ! (roff + m * 2 + 1)), woff + m * 2 + 1 := conv (src ! (roff + m * 2))]"
  have "d = n - Suc m" "woff + n * 2 \<le> length ?dst" "Suc m \<le> n" using Suc mn by simp_all
  from Suc.hyps(1) [OF this(1) Suc.prems(1) this(2,3)] obtain dst' where
    d: "fill_swapped conv roff woff src [Suc m..<n] ?dst = Some dst'" "length dst' = length dst"
    "\<forall>k<length dst. dst' ! k = (if woff + Suc m * 2 \<le> k \<and> k < woff + n * 2 then conv (src ! (roff + sai_slot True (k - woff))) else ?dst ! k)"
    by auto
  have "fill_swapped conv roff woff src [m..<n] dst = Some dst'"
    using d(1) Suc.prems mn by (simp add: upt_conv_Cons)
  moreover have "dst' ! k = (if woff + m * 2 \<le> k \<and> k < woff + n * 2 then conv (src ! (roff + sai_slot True (k - woff))) else dst ! k)"
    if "k < length dst" for k
  proof -
    consider "k = woff + m * 2" | "k = woff + m * 2 + 1" | "k < woff + m * 2" | "woff + Suc m * 2 \<le> k" by fastforce
    then show ?thesis
      using d(3) that mn Suc.prems by cases (auto simp: sai_slot_def nth_list_update)
  qed
  ultimately show ?case using d(2) by blast
qed

lemma fill_half_spec:
  assumes "roff + STEREO_BLOCK \<le> length src" "woff + STEREO_BLOCK \<le> length dst"
  shows "\<exists>dst'. fill_half swap conv roff woff src dst = Some dst' \<and> length dst' = length dst \<and>
    (\<forall>k<length dst. dst' ! k = (if woff \<le> k \<and> k < woff + STEREO_BLOCK then conv (src ! (roff + sai_slot swap (k - woff))) else dst ! k))"
proof (cases swap)
  case True
  have "\<exists>dst'. fill_swapped conv roff woff src [0..<BLOCK_SIZE] dst = Some dst' \<and> length dst' = length dst \<and>
    (\<forall>k<length dst. dst' ! k = (if woff + 0 * 2 \<le> k \<and> k < woff + BLOCK_SIZE * 2 then conv (src ! (roff + sai_slot True (k - woff))) else dst ! k))"
    using assms by (intro fill_swapped_spec) (simp_all add: STEREO_BLOCK_def)
  then show ?thesis by (simp only: fill_half_def True if_True STEREO_BLOCK_def mult_0 add_0_right)
next
  case False
  then show ?thesis
    using fill_plain_spec [OF assms, of 0 conv] by (simp only: fill_half_def False if_False sai_slot_def add_0_right)
qed

lemma chan_lt: "j < STEREO_BLOCK \<Longrightarrow> sai_slot swap j < STEREO_BLOCK"
  by (auto simp: sai_slot_def STEREO_BLOCK_def BLOCK_SIZE_def elim: evenE)

lemma chan_chan: "sai_slot swap (sai_slot swap j) = j"
  by (auto simp: sai_slot_def)

text \<open>C28: the audio interrupt. With the half or the complete flag pending (the half first), it
  clears that flag, hands the callback the freshly captured half with every frame as left and
  right whatever the codec's order, and writes the callback's block, converted back into the
  codec's order, to the same half of the output ring; the other half, the captured words and the
  other flag are untouched, and nothing is read or written out of bounds. Without a callback, and
  where the conversion to floating point and back is exact, the captured half goes out as it
  came.\<close>

theorem audio_isr_exact:
  assumes "d_running s" and "length (d_rx s) = DMA_BUFFER_LEN" and "length (d_tx s) = DMA_BUFFER_LEN"
    and "\<And>cb inp. d_callback s = Some cb \<Longrightarrow> length inp = STEREO_BLOCK \<Longrightarrow>
      length (cb inp (replicate STEREO_BLOCK (f_int F 0))) = STEREO_BLOCK"
    and "if d_half s then off = 0 else d_complete s \<and> off = STEREO_BLOCK"
    and "inp = map (\<lambda>j. word_in F (d_scale s) (d_rx s ! (off + sai_slot (d_swap s) j))) [0..<STEREO_BLOCK]"
    and "out = (case d_callback s of Some cb \<Rightarrow> cb inp (replicate STEREO_BLOCK (f_int F 0)) | None \<Rightarrow> inp)"
  shows "\<exists>tx. dma1_str1 F s = Some (s\<lparr>d_tx := tx, d_half := False, d_complete := d_half s \<and> d_complete s\<rparr>) \<and>
    length tx = DMA_BUFFER_LEN \<and>
    (\<forall>k<DMA_BUFFER_LEN. tx ! k =
       (if off \<le> k \<and> k < off + STEREO_BLOCK then word_out F (d_scale s) (out ! sai_slot (d_swap s) (k - off)) else d_tx s ! k)) \<and>
    (d_callback s = None \<and> (\<forall>w\<in>set (d_rx s). word_out F (d_scale s) (word_in F (d_scale s) w) = w) \<longrightarrow>
       (\<forall>k<DMA_BUFFER_LEN. off \<le> k \<and> k < off + STEREO_BLOCK \<longrightarrow> tx ! k = d_rx s ! k))"
proof -
  let ?s = "s\<lparr>d_half := False, d_complete := d_half s \<and> d_complete s\<rparr>"
  have off: "off + STEREO_BLOCK \<le> DMA_BUFFER_LEN" using assms(5) by (auto simp: DMA_BUFFER_LEN_def split: if_splits)
  have dr: "drain s = (Some off, ?s)" using assms(5) by (auto simp: drain_def split: if_splits)
  obtain inp' where i: "fill_half (d_swap s) (word_in F (d_scale s)) off 0 (d_rx s) (replicate STEREO_BLOCK (f_int F 0)) = Some inp'"
    "length inp' = STEREO_BLOCK"
    "\<forall>k<STEREO_BLOCK. inp' ! k = word_in F (d_scale s) (d_rx s ! (off + sai_slot (d_swap s) k))"
    using fill_half_spec [of off "d_rx s" 0 "replicate STEREO_BLOCK (f_int F 0)" "d_swap s" "word_in F (d_scale s)"] off assms(2)
    by auto
  have inp: "inp' = inp" unfolding assms(6) using i(2,3) by (intro nth_equalityI) auto
  have out: "length out = STEREO_BLOCK"
    unfolding assms(7) using assms(4) i(2) inp by (auto split: option.split)
  obtain tx where t: "fill_half (d_swap s) (word_out F (d_scale s)) 0 off out (d_tx s) = Some tx" "length tx = DMA_BUFFER_LEN"
    "\<forall>k<DMA_BUFFER_LEN. tx ! k =
       (if off \<le> k \<and> k < off + STEREO_BLOCK then word_out F (d_scale s) (out ! sai_slot (d_swap s) (k - off)) else d_tx s ! k)"
    using fill_half_spec [of 0 out off "d_tx s" "d_swap s" "word_out F (d_scale s)"] off out assms(3) by auto
  have "dma1_str1 F s = Some (s\<lparr>d_tx := tx, d_half := False, d_complete := d_half s \<and> d_complete s\<rparr>)"
    using assms(1) i(1) t(1) by (simp add: dma1_str1_def dr inp assms(7) Let_def)
  moreover have "tx ! k = d_rx s ! k"
    if "d_callback s = None" "\<forall>w\<in>set (d_rx s). word_out F (d_scale s) (word_in F (d_scale s) w) = w"
      "k < DMA_BUFFER_LEN" "off \<le> k" "k < off + STEREO_BLOCK" for k
  proof -
    have j: "k - off < STEREO_BLOCK" using that(4,5) by linarith
    have "out ! sai_slot (d_swap s) (k - off) = word_in F (d_scale s) (d_rx s ! k)"
      using that(1,4) chan_lt [OF j] i(3) inp by (simp add: assms(7) chan_chan)
    then show ?thesis using t(3) that assms(2) by simp
  qed
  ultimately show ?thesis using t(2,3) by blast
qed

text \<open>The Seed 3 order with an exact arithmetic: the captured half goes out as it came.\<close>

definition toy_ops :: "int i32_ops" where
  "toy_ops = \<lparr>f_int = (\<lambda>i. i), f_mul = (*), f_div = (div), f_eq = (=), f_clamp = (\<lambda>x lo hi. max lo (min hi x)),
     f_to_i16 = of_int, f_pow10 = (\<lambda>x. x), f_to_i32 = of_int\<rparr>"

definition pending_dma :: "int dma" where
  "pending_dma = \<lparr>d_tx = replicate DMA_BUFFER_LEN 0, d_rx = map of_nat [0..<DMA_BUFFER_LEN], d_running = True, d_half = False,
     d_complete = True, d_callback = None, d_scale = 1, d_swap = True\<rparr>"

lemma audio_isr_exact_witness:
  "\<exists>tx. dma1_str1 toy_ops pending_dma = Some (pending_dma\<lparr>d_tx := tx, d_half := False, d_complete := False\<rparr>) \<and>
     tx ! 96 = 96 \<and> tx ! 191 = 191 \<and> tx ! 95 = 0"
proof -
  have exact: "\<forall>w\<in>set (d_rx pending_dma). word_out toy_ops (d_scale pending_dma) (word_in toy_ops (d_scale pending_dma) w) = w"
    by (simp add: word_out_def word_in_def toy_ops_def pending_dma_def)
  have n: "DMA_BUFFER_LEN = 192" "STEREO_BLOCK = 96"
    by (simp_all add: DMA_BUFFER_LEN_def STEREO_BLOCK_def BLOCK_SIZE_def)
  have "\<exists>tx. dma1_str1 toy_ops pending_dma = Some (pending_dma\<lparr>d_tx := tx, d_half := False, d_complete := d_half pending_dma \<and> d_complete pending_dma\<rparr>) \<and>
    length tx = DMA_BUFFER_LEN \<and>
    (\<forall>k<DMA_BUFFER_LEN. tx ! k =
       (if 96 \<le> k \<and> k < 96 + STEREO_BLOCK
        then word_out toy_ops (d_scale pending_dma) (map (\<lambda>j. word_in toy_ops (d_scale pending_dma) (d_rx pending_dma ! (96 + sai_slot (d_swap pending_dma) j))) [0..<STEREO_BLOCK] ! sai_slot (d_swap pending_dma) (k - 96))
        else d_tx pending_dma ! k)) \<and>
    (d_callback pending_dma = None \<and> (\<forall>w\<in>set (d_rx pending_dma). word_out toy_ops (d_scale pending_dma) (word_in toy_ops (d_scale pending_dma) w) = w) \<longrightarrow>
       (\<forall>k<DMA_BUFFER_LEN. 96 \<le> k \<and> k < 96 + STEREO_BLOCK \<longrightarrow> tx ! k = d_rx pending_dma ! k))"
    by (rule audio_isr_exact) (simp_all add: pending_dma_def n)
  then show ?thesis
  proof (elim exE conjE)
    fix tx
    assume a: "dma1_str1 toy_ops pending_dma = Some (pending_dma\<lparr>d_tx := tx, d_half := False, d_complete := d_half pending_dma \<and> d_complete pending_dma\<rparr>)"
      and b: "\<forall>k<DMA_BUFFER_LEN. tx ! k =
       (if 96 \<le> k \<and> k < 96 + STEREO_BLOCK
        then word_out toy_ops (d_scale pending_dma) (map (\<lambda>j. word_in toy_ops (d_scale pending_dma) (d_rx pending_dma ! (96 + sai_slot (d_swap pending_dma) j))) [0..<STEREO_BLOCK] ! sai_slot (d_swap pending_dma) (k - 96))
        else d_tx pending_dma ! k)"
      and c: "d_callback pending_dma = None \<and> (\<forall>w\<in>set (d_rx pending_dma). word_out toy_ops (d_scale pending_dma) (word_in toy_ops (d_scale pending_dma) w) = w) \<longrightarrow>
       (\<forall>k<DMA_BUFFER_LEN. 96 \<le> k \<and> k < 96 + STEREO_BLOCK \<longrightarrow> tx ! k = d_rx pending_dma ! k)"
    have "d_callback pending_dma = None" by (simp add: pending_dma_def)
    with c exact have "\<forall>k<DMA_BUFFER_LEN. 96 \<le> k \<and> k < 96 + STEREO_BLOCK \<longrightarrow> tx ! k = d_rx pending_dma ! k" by blast
    then have "tx ! 96 = 96" "tx ! 191 = 191" by (simp_all add: n pending_dma_def)
    moreover have "tx ! 95 = 0" using b by (simp add: n pending_dma_def)
    ultimately show ?thesis using a by (intro exI [of _ tx]) (simp add: pending_dma_def)
  qed
qed

end
