(* ===== verification/Startup.thy ===== *)
theory Startup
  imports Prelude
begin

text \<open>
  What the applications do before \<open>main\<close>: the MPU and cache set-up of \<open>pre_init\<close> (in
  \<open>crates/daisy-app-template\<close>, which \<open>daisy-usb-audio\<close>, \<open>daisy-hothouse\<close> and
  \<open>daisy-spatializer\<close> repeat, and in \<open>crates/daisy-sdram-test\<close>, where SDRAM is not cached), the
  bounded delay, the fault handlers' decoding of the status register into pulses of the LED. Writes to the core's registers are a trace; what
  they mean is the ARMv7-M protected memory system (regions from base and size, the
  highest-numbered region that covers an address, subregions, the access permissions used), the
  core's documented behaviour.
\<close>

section \<open>The MPU set-up\<close>

definition MPU_CTRL :: u32 where "MPU_CTRL = 0xE000ED94"
definition MPU_RNR :: u32 where "MPU_RNR = 0xE000ED98"
definition MPU_RBAR :: u32 where "MPU_RBAR = 0xE000ED9C"
definition MPU_RASR :: u32 where "MPU_RASR = 0xE000EDA0"

datatype core_event = Core_write u32 u32 | Icache_on | Dcache_on

definition mpu_region :: "u32 \<Rightarrow> u32 \<Rightarrow> u32 \<Rightarrow> u32 \<Rightarrow> u32 \<Rightarrow> u32 \<Rightarrow> u32 \<Rightarrow> u32 \<Rightarrow> core_event list" where
  "mpu_region n base log2_bytes tex s c b xn =
     (let rasr = 1 OR push_bit 1 (log2_bytes - 1) OR push_bit 16 b OR push_bit 17 c OR push_bit 18 s OR push_bit 19 tex OR
          push_bit 24 3 OR push_bit 28 xn
      in [Core_write MPU_RNR n, Core_write MPU_RBAR base, Core_write MPU_RASR rasr])"

definition configure_mpu_and_caches :: "core_event list" where
  "configure_mpu_and_caches =
     [Core_write MPU_CTRL 0] @
     mpu_region 0 0x30000000 15 1 1 0 0 0 @
     mpu_region 1 0xC0000000 26 0 0 1 1 0 @
     mpu_region 2 0x38800000 12 1 1 0 0 0 @
     mpu_region 3 0x90000000 23 0 0 1 0 0 @
     [Core_write MPU_CTRL (push_bit 0 1 OR push_bit 2 1), Icache_on, Dcache_on]"

definition configure_uncached_sdram :: "core_event list" where
  "configure_uncached_sdram =
     [Core_write MPU_CTRL 0] @
     mpu_region 0 0x30000000 15 1 1 0 0 0 @
     mpu_region 1 0xC0000000 26 1 1 0 0 0 @
     mpu_region 2 0x38800000 12 1 1 0 0 0 @
     mpu_region 3 0x90000000 23 0 0 1 0 0 @
     [Core_write MPU_CTRL (push_bit 0 1 OR push_bit 2 1), Icache_on, Dcache_on]"

section \<open>Delays, faults and the LED\<close>

definition APP_CYCLES_PER_MS :: u32 where "APP_CYCLES_PER_MS = 400000"
definition BURN :: u32 where "BURN = 4096"

text \<open>\<open>delay_ms\<close>: the successive readings of the cycle counter are a stream; the result is how many
  times the loop burned \<open>BURN\<close> cycles and how many readings it took.\<close>

function delay_poll :: "(nat \<Rightarrow> u32) \<Rightarrow> u32 \<Rightarrow> u32 \<Rightarrow> u32 \<Rightarrow> u32 \<Rightarrow> nat \<Rightarrow> u32 \<times> nat" where
  "delay_poll dwt start n max_iters iters k =
     (if dwt k - start \<ge> n then (iters, k + 1)
      else if iters \<ge> max_iters then (iters, k + 1)
      else delay_poll dwt start n max_iters (iters + 1) (k + 1))"
  by pat_completeness auto
termination
  by (relation "measure (\<lambda>(dwt, start, n, max_iters, iters, k). unat max_iters - unat iters)")
    (auto simp: not_le unat_plus1 word_less_nat_alt)

declare delay_poll.simps [simp del]

definition app_delay_ms :: "(nat \<Rightarrow> u32) \<Rightarrow> u32 \<Rightarrow> u32 \<times> nat" where
  "app_delay_ms dwt ms =
     (let n = ms * APP_CYCLES_PER_MS;
          start = dwt 0;
          max_iters = sat_mul (sat_add (n div BURN) 64) 3
      in delay_poll dwt start n max_iters 0 1)"

definition hardfault_pulses :: "u32 \<Rightarrow> nat" where
  "hardfault_pulses cfsr =
     (if cfsr AND push_bit 10 1 \<noteq> 0 then 4
      else if cfsr AND push_bit 9 1 \<noteq> 0 then 3
      else if cfsr AND push_bit 8 1 \<noteq> 0 then 2
      else if cfsr AND push_bit 12 1 \<noteq> 0 then 1
      else 5)"

definition memmanage_pulses :: "u32 \<Rightarrow> nat" where
  "memmanage_pulses cfsr =
     (let mmfsr = cfsr AND 0xFF in
      if mmfsr AND push_bit 7 1 \<noteq> 0 then 4
      else if mmfsr AND (push_bit 3 1 OR push_bit 4 1) \<noteq> 0 then 3
      else if mmfsr AND push_bit 1 1 \<noteq> 0 then 2
      else if mmfsr AND push_bit 0 1 \<noteq> 0 then 1
      else 5)"

text \<open>One round of \<open>led_pattern_forever\<close>: LED levels and milliseconds.\<close>

datatype led_step = Led bool | Wait u32

definition led_round :: "nat \<Rightarrow> u32 \<Rightarrow> u32 \<Rightarrow> u32 \<Rightarrow> led_step list" where
  "led_round n on_ms off_ms gap_ms =
     concat (replicate n [Led True, Wait on_ms, Led False, Wait off_ms]) @ [Wait gap_ms]"

definition hardfault_round :: "u32 \<Rightarrow> led_step list" where
  "hardfault_round cfsr = led_round (hardfault_pulses cfsr) 400 400 1500"

definition memmanage_round :: "u32 \<Rightarrow> led_step list" where
  "memmanage_round cfsr = led_round (memmanage_pulses cfsr) 250 250 2000"

definition panic_round :: "led_step list" where
  "panic_round = led_round 3 100 100 1000"

section \<open>The core's memory protection\<close>

record mpu =
  m_ctrl :: u32
  m_rnr :: u32
  m_rbar :: "u32 \<Rightarrow> u32"
  m_rasr :: "u32 \<Rightarrow> u32"
  m_cached :: bool

definition mpu_event :: "core_event \<Rightarrow> mpu \<Rightarrow> mpu" where
  "mpu_event e m = (case e of
       Core_write a v \<Rightarrow>
         if a = MPU_CTRL then m\<lparr>m_ctrl := v\<rparr>
         else if a = MPU_RNR then m\<lparr>m_rnr := v\<rparr>
         else if a = MPU_RBAR then m\<lparr>m_rbar := (m_rbar m)(m_rnr m := v)\<rparr>
         else if a = MPU_RASR then m\<lparr>m_rasr := (m_rasr m)(m_rnr m := v)\<rparr>
         else m
     | Icache_on \<Rightarrow> m
     | Dcache_on \<Rightarrow> m\<lparr>m_cached := True\<rparr>)"

definition region_covers :: "mpu \<Rightarrow> nat \<Rightarrow> u32 \<Rightarrow> bool" where
  "region_covers m n a =
     (let r = m_rasr m (of_nat n); base = unat (m_rbar m (of_nat n)); sz = 2 ^ (unat (take_bit 5 (drop_bit 1 r)) + 1) in
      bit r 0 \<and> base \<le> unat a \<and> unat a < base + sz \<and>
      \<not> (256 \<le> sz \<and> bit r (8 + (unat a - base) div (sz div 8))))"

fun lookup_from :: "nat \<Rightarrow> mpu \<Rightarrow> u32 \<Rightarrow> u32 option" where
  "lookup_from 0 m a = None"
| "lookup_from (Suc n) m a = (if region_covers m n a then Some (m_rasr m (of_nat n)) else lookup_from n m a)"

definition mpu_lookup :: "mpu \<Rightarrow> u32 \<Rightarrow> u32 option" where
  "mpu_lookup m a = lookup_from 16 m a"

text \<open>Type extension, shareable, cacheable, bufferable, access permission, execute-never.\<close>

definition attributes :: "u32 \<Rightarrow> u32 \<times> bool \<times> bool \<times> bool \<times> u32 \<times> bool" where
  "attributes r = (take_bit 3 (drop_bit 19 r), bit r 18, bit r 17, bit r 16, take_bit 3 (drop_bit 24 r), bit r 28)"

definition non_cacheable :: "u32 \<times> bool \<times> bool \<times> bool \<times> u32 \<times> bool" where
  "non_cacheable = (1, True, False, False, 3, False)"

definition write_back :: "u32 \<times> bool \<times> bool \<times> bool \<times> u32 \<times> bool" where
  "write_back = (0, False, True, True, 3, False)"

definition write_through :: "u32 \<times> bool \<times> bool \<times> bool \<times> u32 \<times> bool" where
  "write_through = (0, False, True, False, 3, False)"

section \<open>The memory map the set-up leaves\<close>

lemma mpu_regs_distinct [simp]:
  "MPU_CTRL \<noteq> MPU_RNR" "MPU_CTRL \<noteq> MPU_RBAR" "MPU_CTRL \<noteq> MPU_RASR" "MPU_RNR \<noteq> MPU_RBAR" "MPU_RNR \<noteq> MPU_RASR" "MPU_RBAR \<noteq> MPU_RASR"
  "MPU_RNR \<noteq> MPU_CTRL" "MPU_RBAR \<noteq> MPU_CTRL" "MPU_RASR \<noteq> MPU_CTRL" "MPU_RBAR \<noteq> MPU_RNR" "MPU_RASR \<noteq> MPU_RNR" "MPU_RASR \<noteq> MPU_RBAR"
  by (simp_all add: MPU_CTRL_def MPU_RNR_def MPU_RBAR_def MPU_RASR_def)

lemma mpu_event_simps [simp]:
  "mpu_event (Core_write MPU_CTRL v) m = m\<lparr>m_ctrl := v\<rparr>"
  "mpu_event (Core_write MPU_RNR v) m = m\<lparr>m_rnr := v\<rparr>"
  "mpu_event (Core_write MPU_RBAR v) m = m\<lparr>m_rbar := (m_rbar m)(m_rnr m := v)\<rparr>"
  "mpu_event (Core_write MPU_RASR v) m = m\<lparr>m_rasr := (m_rasr m)(m_rnr m := v)\<rparr>"
  "mpu_event Icache_on m = m" "mpu_event Dcache_on m = m\<lparr>m_cached := True\<rparr>"
  by (simp_all add: mpu_event_def)

lemma mpu_region_run:
  "fold mpu_event (mpu_region n base l tex s c b xn) m =
     m\<lparr>m_rnr := n, m_rbar := (m_rbar m)(n := base),
       m_rasr := (m_rasr m)(n := 1 OR push_bit 1 (l - 1) OR push_bit 16 b OR push_bit 17 c OR push_bit 18 s OR push_bit 19 tex OR
          push_bit 24 3 OR push_bit 28 xn)\<rparr>"
  by (simp add: mpu_region_def Let_def)

text \<open>Region \<open>n\<close> is off above 3, as at reset.\<close>

definition upper_off :: "mpu \<Rightarrow> bool" where
  "upper_off m \<longleftrightarrow> (\<forall>n. 4 \<le> n \<and> n < 16 \<longrightarrow> \<not> bit (m_rasr m (of_nat n)) 0)"

lemma lookup_upper_off:
  assumes "upper_off m"
  shows "mpu_lookup m a = lookup_from 4 m a"
proof -
  have "k \<le> 12 \<Longrightarrow> lookup_from (4 + k) m a = lookup_from 4 m a" for k
  proof (induction k)
    case (Suc k)
    then have "4 \<le> 4 + k \<and> 4 + k < 16" by simp
    then have "\<not> bit (m_rasr m (of_nat (4 + k))) 0" using assms unfolding upper_off_def by blast
    then have "\<not> region_covers m (4 + k) a" by (simp only: region_covers_def Let_def) simp
    then show ?case using Suc unfolding add_Suc_right lookup_from.simps by auto
  qed simp
  from this [of 12] show ?thesis by (simp add: mpu_lookup_def)
qed

lemma region_covers_plain:
  assumes "m_rasr m (of_nat n) = r" "bit r 0" "take_bit 8 (drop_bit 8 r) = 0" "unat (take_bit 5 (drop_bit 1 r)) + 1 = l" "8 \<le> l"
  shows "region_covers m n a \<longleftrightarrow> unat (m_rbar m (of_nat n)) \<le> unat a \<and> unat a < unat (m_rbar m (of_nat n)) + 2 ^ l"
proof -
  have "\<not> bit r (8 + (unat a - b) div (2 ^ l div 8))" if "b \<le> unat a" "unat a < b + 2 ^ l" for b
  proof -
    have p: "(2 :: nat) ^ l = 8 * 2 ^ (l - 3)" using power_add [of "2 :: nat" 3 "l - 3"] assms(5) by simp
    have "(unat a - b) div (2 ^ l div 8) < 8"
      using that unfolding p by (simp add: less_mult_imp_div_less)
    moreover have "j < 8 \<Longrightarrow> \<not> bit r (8 + j)" for j
      using arg_cong [OF assms(3), of "\<lambda>w. bit w j"] by (simp add: bit_take_bit_iff bit_drop_bit_eq)
    ultimately show ?thesis by blast
  qed
  then show ?thesis using assms(2) unfolding region_covers_def assms(1) assms(4) Let_def by auto
qed

definition map_rasr :: "u32 \<Rightarrow> u32 \<Rightarrow> u32" where
  "map_rasr sdram n = (if n = 0 then 0x030C001D else if n = 1 then sdram else if n = 2 then 0x030C0017 else 0x0302002D)"

definition map_rbar :: "u32 \<Rightarrow> u32" where
  "map_rbar n = (if n = 0 then 0x30000000 else if n = 1 then 0xC0000000 else if n = 2 then 0x38800000 else 0x90000000)"

lemma configure_run:
  "\<exists>m'. fold mpu_event configure_mpu_and_caches m = m' \<and> m_ctrl m' = 5 \<and> m_cached m' \<and>
     (\<forall>n. m_rasr m' n = (if n \<in> {0, 1, 2, 3} then map_rasr 0x03030033 n else m_rasr m n)) \<and>
     (\<forall>n\<in>{0, 1, 2, 3}. m_rbar m' n = map_rbar n)"
  "\<exists>m'. fold mpu_event configure_uncached_sdram m = m' \<and> m_ctrl m' = 5 \<and> m_cached m' \<and>
     (\<forall>n. m_rasr m' n = (if n \<in> {0, 1, 2, 3} then map_rasr 0x030C0033 n else m_rasr m n)) \<and>
     (\<forall>n\<in>{0, 1, 2, 3}. m_rbar m' n = map_rbar n)"
  by (auto simp: configure_mpu_and_caches_def configure_uncached_sdram_def mpu_region_run map_rasr_def map_rbar_def)

definition memory_map :: "(u32 \<times> bool \<times> bool \<times> bool \<times> u32 \<times> bool) \<Rightarrow> u32 \<Rightarrow> (u32 \<times> bool \<times> bool \<times> bool \<times> u32 \<times> bool) option" where
  "memory_map sdram a =
     (if 0x30000000 \<le> unat a \<and> unat a < 0x30008000 then Some non_cacheable
      else if 0xC0000000 \<le> unat a \<and> unat a < 0xC4000000 then Some sdram
      else if 0x38800000 \<le> unat a \<and> unat a < 0x38801000 then Some non_cacheable
      else if 0x90000000 \<le> unat a \<and> unat a < 0x90800000 then Some write_through
      else None)"

lemma map_lookup:
  assumes "upper_off m" "\<forall>n. m_rasr m' n = (if n \<in> {0, 1, 2, 3} then map_rasr r n else m_rasr m n)"
    "\<forall>n\<in>{0, 1, 2, 3}. m_rbar m' n = map_rbar n"
    "bit r 0" "take_bit 8 (drop_bit 8 r) = 0" "unat (take_bit 5 (drop_bit 1 r)) + 1 = 26"
  shows "map_option attributes (mpu_lookup m' a) = memory_map (attributes r) a"
proof -
  have off: "upper_off m'"
  proof (unfold upper_off_def, intro allI impI)
    fix n :: nat assume n: "4 \<le> n \<and> n < 16"
    then have "(of_nat n :: u32) \<notin> {0, 1, 2, 3}"
      by (auto simp: word_unat_eq_iff unsigned_of_nat take_bit_eq_mod)
    then show "\<not> bit (m_rasr m' (of_nat n)) 0" using assms(1,2) n by (simp add: upper_off_def)
  qed
  have rb: "m_rbar m' 0 = 0x30000000" "m_rbar m' 1 = 0xC0000000" "m_rbar m' 2 = 0x38800000" "m_rbar m' 3 = 0x90000000"
    using assms(3) by (simp_all add: map_rbar_def)
  have rr: "m_rasr m' 0 = 0x030C001D" "m_rasr m' 1 = r" "m_rasr m' 2 = 0x030C0017" "m_rasr m' 3 = 0x0302002D"
    using assms(2) by (simp_all add: map_rasr_def)
  have c0: "region_covers m' 0 a \<longleftrightarrow> 0x30000000 \<le> unat a \<and> unat a < 0x30008000"
    using region_covers_plain [of m' 0 "0x030C001D" 15 a] rr(1) rb(1) by (simp add: bit_numeral_rec)
  have c1: "region_covers m' (Suc 0) a \<longleftrightarrow> 0xC0000000 \<le> unat a \<and> unat a < 0xC4000000"
    using region_covers_plain [of m' 1 r 26 a] rr(2) rb(2) assms(4-6) by simp
  have c2: "region_covers m' 2 a \<longleftrightarrow> 0x38800000 \<le> unat a \<and> unat a < 0x38801000"
    using region_covers_plain [of m' 2 "0x030C0017" 12 a] rr(3) rb(3) by simp
  have c3: "region_covers m' 3 a \<longleftrightarrow> 0x90000000 \<le> unat a \<and> unat a < 0x90800000"
    using region_covers_plain [of m' 3 "0x0302002D" 23 a] rr(4) rb(4) by simp
  have at: "attributes 0x030C001D = non_cacheable" "attributes 0x030C0017 = non_cacheable" "attributes 0x0302002D = write_through"
    by (simp_all add: attributes_def non_cacheable_def write_through_def bit_numeral_rec)
  have "lookup_from 4 m' a = (if region_covers m' 3 a then Some (m_rasr m' 3) else if region_covers m' 2 a then Some (m_rasr m' 2)
      else if region_covers m' (Suc 0) a then Some (m_rasr m' 1) else if region_covers m' 0 a then Some (m_rasr m' 0) else None)"
    by (simp add: eval_nat_numeral)
  then show ?thesis
    unfolding lookup_upper_off [OF off] c0 c1 c2 c3 rr memory_map_def by (auto simp: at)
qed

text \<open>C38: the memory map. From any state of the MPU with only its first four regions in use, the
  start-up leaves the MPU on with the default map for privileged accesses behind it, and every
  address of the DMA pool and the Backup SRAM uncached and shareable, the flash of the application
  write-through and executable, SDRAM write-back, but uncached and shareable in the SDRAM test, and
  every other address to the default map; the caches are switched on after the last MPU write.\<close>

theorem mpu_map_exact:
  assumes "upper_off m"
  shows "map_option attributes (mpu_lookup (fold mpu_event configure_mpu_and_caches m) a) = memory_map write_back a \<and>
    map_option attributes (mpu_lookup (fold mpu_event configure_uncached_sdram m) a) = memory_map non_cacheable a \<and>
    m_ctrl (fold mpu_event configure_mpu_and_caches m) = 5 \<and> m_ctrl (fold mpu_event configure_uncached_sdram m) = 5 \<and>
    (\<exists>ws. configure_mpu_and_caches = ws @ [Icache_on, Dcache_on] \<and> Icache_on \<notin> set ws \<and> Dcache_on \<notin> set ws) \<and>
    (\<exists>ws. configure_uncached_sdram = ws @ [Icache_on, Dcache_on] \<and> Icache_on \<notin> set ws \<and> Dcache_on \<notin> set ws)"
proof (intro conjI)
  have r: "bit (0x03030033 :: u32) 0" "take_bit 8 (drop_bit 8 (0x03030033 :: u32)) = 0"
      "unat (take_bit 5 (drop_bit 1 (0x03030033 :: u32))) + 1 = 26" "attributes 0x03030033 = write_back"
    and u: "bit (0x030C0033 :: u32) 0" "take_bit 8 (drop_bit 8 (0x030C0033 :: u32)) = 0"
      "unat (take_bit 5 (drop_bit 1 (0x030C0033 :: u32))) + 1 = 26" "attributes 0x030C0033 = non_cacheable"
    by (simp_all add: attributes_def non_cacheable_def write_back_def bit_numeral_rec)
  obtain m1 where m1: "fold mpu_event configure_mpu_and_caches m = m1" "m_ctrl m1 = 5"
    "\<forall>n. m_rasr m1 n = (if n \<in> {0, 1, 2, 3} then map_rasr 0x03030033 n else m_rasr m n)"
    "\<forall>n\<in>{0, 1, 2, 3}. m_rbar m1 n = map_rbar n"
    using configure_run(1) [of m] by blast
  obtain m2 where m2: "fold mpu_event configure_uncached_sdram m = m2" "m_ctrl m2 = 5"
    "\<forall>n. m_rasr m2 n = (if n \<in> {0, 1, 2, 3} then map_rasr 0x030C0033 n else m_rasr m n)"
    "\<forall>n\<in>{0, 1, 2, 3}. m_rbar m2 n = map_rbar n"
    using configure_run(2) [of m] by blast
  show "map_option attributes (mpu_lookup (fold mpu_event configure_mpu_and_caches m) a) = memory_map write_back a"
    unfolding m1(1) r(4) [symmetric] by (rule map_lookup [OF assms m1(3,4) r(1-3)])
  show "map_option attributes (mpu_lookup (fold mpu_event configure_uncached_sdram m) a) = memory_map non_cacheable a"
    unfolding m2(1) u(4) [symmetric] by (rule map_lookup [OF assms m2(3,4) u(1-3)])
  show "m_ctrl (fold mpu_event configure_mpu_and_caches m) = 5" "m_ctrl (fold mpu_event configure_uncached_sdram m) = 5"
    using m1 m2 by simp_all
  show "\<exists>ws. configure_mpu_and_caches = ws @ [Icache_on, Dcache_on] \<and> Icache_on \<notin> set ws \<and> Dcache_on \<notin> set ws"
    "\<exists>ws. configure_uncached_sdram = ws @ [Icache_on, Dcache_on] \<and> Icache_on \<notin> set ws \<and> Dcache_on \<notin> set ws"
    by (rule exI [of _ "butlast (butlast configure_mpu_and_caches)"],
        simp add: configure_mpu_and_caches_def mpu_region_def Let_def)
      (rule exI [of _ "butlast (butlast configure_uncached_sdram)"],
        simp add: configure_uncached_sdram_def mpu_region_def Let_def)
qed

text \<open>The audio buffers' pool and the SDRAM after a reset.\<close>

lemma mpu_map_exact_witness:
  "map_option attributes (mpu_lookup (fold mpu_event configure_mpu_and_caches
       \<lparr>m_ctrl = 0, m_rnr = 0, m_rbar = (\<lambda>n. 0), m_rasr = (\<lambda>n. 0), m_cached = False\<rparr>) 0x30000600) = Some non_cacheable"
proof -
  have "upper_off \<lparr>m_ctrl = 0, m_rnr = 0, m_rbar = (\<lambda>n. 0), m_rasr = (\<lambda>n. 0), m_cached = False\<rparr>"
    by (simp add: upper_off_def)
  from mpu_map_exact [OF this, where a = "0x30000600"] show ?thesis by (simp add: memory_map_def)
qed

section \<open>Delays and faults\<close>

text \<open>A delay ends when the counter has advanced by the requested cycles, or after having burned
  them: a stuck counter does not hang it.\<close>

lemma delay_poll_sound:
  "delay_poll dwt start n max_iters iters k = (iters', k') \<Longrightarrow> iters \<le> max_iters \<Longrightarrow>
     iters' \<le> max_iters \<and> (n \<le> dwt (k' - 1) - start \<or> iters' = max_iters)"
proof (induction dwt start n max_iters iters k rule: delay_poll.induct)
  case (1 dwt start n max_iters iters k)
  show ?case
  proof (cases "n \<le> dwt k - start \<or> max_iters \<le> iters")
    case True
    then show ?thesis using "1.prems" by (auto simp: delay_poll.simps [of dwt start n max_iters iters k] split: if_splits)
  next
    case False
    then have "iters < max_iters" by (simp add: not_le)
    then have "iters + 1 \<le> max_iters" using unat_plus1 [of iters max_iters] by (simp add: word_le_nat_alt word_less_nat_alt)
    then show ?thesis using 1 False by (simp add: delay_poll.simps [of dwt start n max_iters iters k])
  qed
qed

lemma delay_ms_sound:
  assumes "app_delay_ms dwt ms = (burns, k)"
  shows "ms * APP_CYCLES_PER_MS \<le> dwt (k - 1) - dwt 0 \<or> unat (ms * APP_CYCLES_PER_MS) \<le> unat burns * 4096"
proof -
  let ?n = "ms * APP_CYCLES_PER_MS"
  let ?m = "sat_mul (sat_add (?n div BURN) 64) 3"
  have "?n \<le> dwt (k - 1) - dwt 0 \<or> burns = ?m"
    using delay_poll_sound [of dwt "dwt 0" ?n ?m 0 1 burns k] assms by (auto simp: app_delay_ms_def Let_def)
  moreover have "unat ?n \<le> unat ?m * 4096"
  proof -
    have "unat (?n div BURN) = unat ?n div 4096" by (simp add: BURN_def unat_div_distrib)
    moreover have "unat ?n < 4096 + 4096 * (unat ?n div 4096)" by (rule dividend_less_times_div) simp
    moreover have "unat ?n \<le> 17592186040320" using word32_bound [of ?n] by linarith
    ultimately show ?thesis by (auto simp: unat_sat_mul unat_sat_add min_def)
  qed
  ultimately show ?thesis by blast
qed

text \<open>The pulses tell the faults apart, the asynchronous ones first.\<close>

lemma hardfault_pulses_exact:
  "hardfault_pulses cfsr =
     (if bit cfsr 10 then 4 else if bit cfsr 9 then 3 else if bit cfsr 8 then 2 else if bit cfsr 12 then 1 else 5)"
  unfolding hardfault_pulses_def bit_iff_and_push_bit_not_eq_0 by simp

end
