(* ===== verification/Spec2Isabelle.thy ===== *)
theory Spec2Isabelle
  imports Midi Render Stft_Exact Noise Pad Dynamics Filters Fft_Q15_Error Sdram_App Boot Serial_Tui Usb_Service Usb_Desc Hothouse Sdram
    Audio_Isr Startup
begin

text \<open>
  daisy-rs: firmware for the Electrosmith Daisy Seed (STM32H750) in Rust, verified in parts.

  The program. A bootloader (\<open>crates/daisy-boot\<close>) in internal flash sets up the clocks and the
  external QUADSPI flash, looks for a plausible application image and either jumps to it or serves
  USB DFU, which programs the flash. Applications run in place from the flash at 0x90000000; they
  recover the clocks the bootloader left in Backup SRAM, set up MPU and caches, and run an audio
  or control loop: USB audio (\<open>daisy-usb-audio\<close>), a guitar pedal's control panel
  (\<open>daisy-hothouse\<close>), an SDRAM tester (\<open>daisy-sdram-test\<close>). Shared libraries: the board support
  (\<open>daisy-bsp\<close>), the audio driver (\<open>daisy-audio\<close>), USB-MIDI (\<open>daisy-midi\<close>), the march suite
  (\<open>sdram-march\<close>), a terminal backend for ratatui (\<open>ratatui-serial\<close>), signal processing
  (\<open>daisy-dsp\<close>). A host tool (\<open>daisy-cli\<close>) builds, checks, converts and flashes images.

  The theories, in the order of the code's layers. Each opens with what it models; the state of a
  component is a record with the fields of the code's struct, an operation a definition with its
  name.
   \<^item> \<open>Prelude\<close>: machine integers at their width, checked array access, little-endian bytes,
     saturating arithmetic, wrapping counters, and the interface \<open>push_machine\<close> of
     byte-at-a-time machines.
   \<^item> \<open>Midi\<close>: \<open>crates/daisy-midi/src/lib.rs\<close>. The serial to USB-MIDI packetizer. It encodes every
     well-formed stream exactly, the host gets the stream back, no byte sequence panics it, and
     real-time bytes pass through without touching the rest.
   \<^item> \<open>March\<close>: \<open>crates/sdram-march/src/lib.rs\<close>. The suite over the code's \<open>Harness\<close> trait
     (locales \<open>store_harness\<close> and \<open>live_harness\<close>, interpreted for the simulated memory, a memory
     with an address decoder, and the application's runner): what it reports is exactly the reads a
     fault changes, and it tells aliasing.
   \<^item> \<open>Sdram_App\<close>: \<open>crates/daisy-sdram-test\<close>, main loop and state. A whole pass over the 64 MiB on
     a faulty memory, from the runner up to the counters, the error log and the LED; the display.
   \<^item> \<open>Image\<close>: \<open>daisy-bsp/src/boot_check.rs\<close>, \<open>daisy-cli/src/elf.rs\<close>, \<open>cmd/check.rs\<close>,
     \<open>cmd/flash.rs\<close>. Plausibility of images, the start-up check, ELF to binary, the flash command.
   \<^item> \<open>Qspi\<close>, \<open>Dfu_Mem\<close>: \<open>daisy-boot/src/qspi.rs\<close>, \<open>dfu_mem.rs\<close> and the errata sequence of
     \<open>main.rs\<close>. The flash driver over a parameter peripheral, the locales \<open>qspi_board\<close> and
     \<open>xip_board\<close> for what a well-behaved board does, and their interpretation on the flash chip of
     the repository's simulator (\<open>renode/peripherals/IS25LP064A.cs\<close>), whose software reset clears
     the Quad-Enable bit: a received status byte tells the chip's bit, every other read may answer
     anything. Programming, erasing and reading back are exact; a stuck controller hangs the errata
     sequence.
   \<^item> \<open>Boot\<close>: \<open>daisy-boot/src/main.rs\<close>, \<open>daisy-bsp/src/reset.rs\<close>, \<open>clocks.rs\<close>. The boot decision with
     its panic and its unbounded wait, the request flag across a reset, the boot window in real time, the jump.
   \<^item> \<open>Serial_Tui\<close>: \<open>crates/ratatui-serial/src/lib.rs\<close>. The backend's bytes drive a terminal, an
     interpreter of escape sequences, to show exactly the cells drawn (locale \<open>byte_sink\<close>).
   \<^item> \<open>Spsc\<close>, \<open>Usb_Audio\<close>, \<open>Usb_Service\<close>: \<open>crates/daisy-usb-audio/src/codec.rs\<close>, \<open>main.rs\<close>. The ring between
     the two interrupts, as functions (locale \<open>bounded_fifo\<close>) and as interleaved single accesses to
     memory, linearizable and wait-free; the conversion of packets; the USB interrupt handler.
   \<^item> \<open>Uac\<close>, \<open>Usb_Desc\<close>: \<open>daisy-usb-audio/src/uac.rs\<close>, \<open>daisy-midi/src/class.rs\<close> and the vendored
     usb-device (device requests, descriptor writer). Requests, alternate settings, feedback;
     descriptors against a structured layout, with the refusal or panic where they do not fit.
   \<^item> \<open>Controls\<close>, \<open>Hothouse\<close>: \<open>daisy-bsp/src/hothouse.rs\<close>, \<open>pod.rs\<close>, \<open>daisy-hothouse/src/main.rs\<close>.
     Switches and the encoder as functions of their sample histories; the pedal's loop, whose
     two-second gesture is exact in real time.
   \<^item> \<open>Sdram\<close>: \<open>daisy-bsp/src/sdram.rs\<close>. Register values, the pin table against the board's signal
     map, the whole bring-up over a register store.
   \<^item> \<open>Audio_Isr\<close>: \<open>crates/daisy-audio\<close>. The codec table and initialisation, the DMA interrupt.
   \<^item> \<open>Fft\<close>, \<open>Fft_Exact\<close>: \<open>daisy-dsp/src/fft.rs\<close>. The in-place transform and the real transforms over
     a parameter arithmetic: no access is out of bounds over any arithmetic, and over the real
     numbers, with the table \<open>build.rs\<close> rounds, they are the discrete Fourier transform of \<open>Dft\<close>.
   \<^item> \<open>Fft_Q15\<close>, \<open>Fft_Q15_Error\<close>: \<open>daisy-dsp/src/fft_q15.rs\<close> and the table of its \<open>build.rs\<close>. The
     fixed-point transform on the packed DSP instructions, on words; it stays within two units per
     stage of the transform over the length.
   \<^item> \<open>Convolver\<close>, \<open>Convolver_Exact\<close>: \<open>daisy-dsp/src/convolution.rs\<close>. The partitioned overlap-save
     convolver; over the real numbers it is the linear convolution.
   \<^item> \<open>Noise\<close>: \<open>daisy-dsp/src/noise.rs\<close>. The generator runs through all nonzero words before it repeats.
   \<^item> \<open>Delay\<close>, \<open>Room\<close>, \<open>Reverb\<close>: \<open>daisy-dsp/src/delay.rs\<close>, \<open>room.rs\<close>, \<open>OnePole\<close> of \<open>filter.rs\<close>, \<open>reverb.rs\<close>. The delay
     line and the history it holds (locale \<open>tapped_line\<close>), interpolated early reflections, the feedback
     delay network: no access leaves its line, and the feedback matrix preserves energy.
   \<^item> \<open>Filters\<close>, \<open>Dynamics\<close>: the second-order filters of \<open>daisy-dsp/src/filter.rs\<close> and \<open>dynamics.rs\<close>. The biquads ring down,
     the state-variable filter balances its energy, the compressor only turns down; the limiter keeps its bound but for the
     release of one sample, and does not keep its ceiling.
   \<^item> \<open>Freeze\<close>, \<open>Granular\<close>, \<open>Pad\<close>: \<open>daisy-dsp/src/freeze.rs\<close>, \<open>env.rs\<close>, \<open>granular.rs\<close>, \<open>window.rs\<close>, \<open>pad.rs\<close>. A hold loops the
     last recording, a second hold a scrambled one; the granular cloud is, for the ranges of its knobs that make sense, never louder than its input; the pad, which joins
     them to the reverberator, never panics.
   \<^item> \<open>Stft\<close>, \<open>Stft_Exact\<close>: \<open>daisy-dsp/src/stft.rs\<close>. Hops of the short-time transform (locale
     \<open>spectrum_client\<close> for what a hop may do to the spectrum, interpreted for the identity, the freeze and the
     pitch shifter) reconstruct, and never panic.
   \<^item> \<open>Reblock\<close>, \<open>Spatializer\<close>, \<open>Render\<close>: \<open>daisy-dsp/src/reblock.rs\<close> (a \<open>bounded_fifo\<close>) and
     \<open>daisy-spatializer/src/main.rs\<close>: a voice is the convolution one callback late, and the whole render is
     the sum of voices, reflections and reverberation, whatever the block boundaries.
   \<^item> \<open>Startup\<close>: \<open>daisy-app-template/src/main.rs\<close> and the variant of \<open>daisy-sdram-test\<close>. The memory
     map the MPU set-up leaves, bounded delays, fault decoding.

  Conventions. A panic, a fault or a call that never returns is \<open>None\<close>; a \<open>Result\<close> is a sum with
  the error on the left. The release profile disables overflow checks, so integer arithmetic
  wraps, and \<open>usize\<close> on the target has 32 bits (the host tool uses \<open>u64\<close>). Loops bounded in the
  code keep their bound: the QUADSPI waits (400 million polls at most), the FMC waits (a million each),
  the delays. Unbounded loops are partial functions (\<open>None\<close> when they do not return) or are run over
  a given list of inputs, one element a pass, with theorems for every such list; that an operation
  returns is proved as such.

  Parameters, with what is assumed of them as hypotheses or locale assumptions: the peripheral
  behind the flash driver; the device behind PWR_CR3; the layout of the HAL's \<open>CoreClocks\<close>; the ELF parser, the
  build and the DFU transport of the host tool; the byte sinks and serial ports; floating-point
  arithmetic, the mathematical functions of \<open>libm\<close> and the generated twiddle table (records of operations, no law assumed; the theorems
  that name \<open>exact\<close> are about the instance over the real numbers, so they say nothing of rounding); the callback of the audio
  interrupt; the cycle counter, pins and received bytes (streams or lists of inputs). The flash chip
  and the MPU's region rules are specifications of the hardware.

  Not modelled. Drawing (the panels' ratatui widgets) and the HAL bring-up of USB, SAI, DMA and ADC
  are calls into third-party code. The other effects and generators of \<open>daisy-dsp\<close> (oscillators, modulation, the
  choir and sampler voices, pitch detection) are numerical, as is the rounding of 32-bit
  floats throughout. The MPU exerciser, the other exercisers and the benchmarks are test
  programs for the hardware; the command-line tool's other commands spawn processes.
\<close>

section \<open>The memory map and the components that live in it\<close>

text \<open>The MPU's regions are the windows the components use: SDRAM is cached in all of the tested
  memory and nowhere else, write-through is the flash the bootloader programs, and the DFU request
  word is never cached.\<close>

lemma regions_match_components:
  "memory_map write_back a = Some write_back \<longleftrightarrow> unat SDRAM_BASE \<le> unat a \<and> unat a < unat SDRAM_BASE + SDRAM_SIZE"
  "memory_map write_back a = Some write_through \<longleftrightarrow> unat FLASH_BASE \<le> unat a \<and> unat a < unat FLASH_BASE + unat FLASH_SIZE"
  "memory_map sdram DFU_REQUEST_ADDR = Some non_cacheable"
  "SDRAM_BASE = BASE_ADDRESS" "SDRAM_SIZE = unat SIZE_BYTES"
  by (auto simp: memory_map_def non_cacheable_def write_back_def write_through_def SDRAM_BASE_def SDRAM_SIZE_def
      flash_consts DFU_REQUEST_ADDR_def BACKUP_SRAM_BASE_def BASE_ADDRESS_def SIZE_BYTES_def)

end
